(* ===== verification/Qwe_Prelude.thy ===== *)
theory Qwe_Prelude
  imports Main
begin

text \<open>
  Shared material of the development: the names of the model's basic types, the collections of
  facts the component theories fill, the few pieces of the C library every component uses
  (string comparison, buffers that double) and the lemmas on lists and counting that several
  components share.

  Conventions. A C string is a \<^typ>\<open>string\<close> (the bytes before the terminating NUL), a
  byte buffer with its length is a list of bytes, a \<open>size_t\<close> count is a \<^typ>\<open>nat\<close>
  (every count here is the size of an object in memory, so it stays far below 2 to the 64), a
  \<open>long\<close> is an \<^typ>\<open>int\<close> where it can be negative. A pointer that may be NULL
  is an option.
\<close>

type_synonym byte = char
type_synonym cstring = string

named_theorems lc_simps \<open>evaluation of the lifecycle table\<close>
named_theorems engine_simps \<open>frame facts about the shell's operations on a job\<close>
named_theorems codec_simps \<open>one-character laws of the text codecs\<close>

subsection \<open>Counting and lists\<close>

lemma count_list_append [simp]: "count_list (xs @ ys) a = count_list xs a + count_list ys a"
  by (induction xs) auto

lemma count_list_replicate [simp]: "count_list (replicate n x) a = (if x = a then n else 0)"
  by (induction n) auto

lemma length_filter_mono:
  "(\<And>x. x \<in> set xs \<Longrightarrow> P x \<Longrightarrow> Q x) \<Longrightarrow> length (filter P xs) \<le> length (filter Q xs)"
  by (induction xs) (auto simp: le_Suc_eq)

lemma sum_list_zero_iff_nat: "sum_list (xs :: nat list) = 0 \<longleftrightarrow> (\<forall>x \<in> set xs. x = 0)"
  by (induction xs) auto

lemma take_drop_app: "n \<le> length xs \<Longrightarrow> take n xs @ drop n xs = xs"
  by simp

subsection \<open>Buffers that double\<close>

text \<open>
  \<open>while (cap < need) cap *= 2;\<close> occurs wherever the kernel grows a buffer
  (\<open>redact.c\<close>, \<open>workflow.c\<close>, \<open>transcode.c\<close>, \<open>luaexec.c\<close>), always from a non-zero
  capacity. From capacity zero the loop would not end; the model stops there, and the callers
  are shown never to start it from zero.
\<close>

function grow_cap :: "nat \<Rightarrow> nat \<Rightarrow> nat" where
  "grow_cap cap need = (if cap = 0 \<or> need \<le> cap then cap else grow_cap (cap * 2) need)"
  by pat_completeness auto
termination
  by (relation "measure (\<lambda>(cap, need). need - cap)") auto

declare grow_cap.simps [simp del]

lemma grow_cap_ge: "0 < cap \<Longrightarrow> need \<le> grow_cap cap need"
proof (induction cap need rule: grow_cap.induct)
  case (1 cap need)
  then show ?case
    by (cases "need \<le> cap") (auto simp: grow_cap.simps [of cap need])
qed

lemma grow_cap_mono: "cap \<le> grow_cap cap need"
proof (induction cap need rule: grow_cap.induct)
  case (1 cap need)
  show ?case
  proof (cases "cap = 0 \<or> need \<le> cap")
    case True
    then show ?thesis by (auto simp: grow_cap.simps [of cap need])
  next
    case False
    with 1 have "cap * 2 \<le> grow_cap (cap * 2) need" by simp
    with False show ?thesis by (simp add: grow_cap.simps [of cap need])
  qed
qed

lemma grow_cap_less_double: "0 < cap \<Longrightarrow> cap < need \<Longrightarrow> grow_cap cap need < 2 * need"
proof (induction cap need rule: grow_cap.induct)
  case (1 cap need)
  show ?case
  proof (cases "need \<le> cap * 2")
    case True
    with 1 show ?thesis
      by (simp add: grow_cap.simps [of cap need] grow_cap.simps [of "cap * 2" need])
  next
    case False
    with 1 show ?thesis by (simp add: grow_cap.simps [of cap need])
  qed
qed

subsection \<open>Decimal numbers\<close>

text \<open>What \<open>printf\<close> writes for \<open>%zu\<close>, \<open>%lu\<close> and a non-negative \<open>%ld\<close>, and the value \<open>strtoul\<close> reads from digits.\<close>

fun nat_dec :: "nat \<Rightarrow> string" where
  "nat_dec n = (if n < 10 then [char_of (48 + n)] else nat_dec (n div 10) @ [char_of (48 + n mod 10)])"

declare nat_dec.simps [simp del]

definition int_dec :: "int \<Rightarrow> string" where
  "int_dec i = (if i < 0 then CHR ''-'' # nat_dec (nat (- i)) else nat_dec (nat i))"

definition is_digit :: "char \<Rightarrow> bool" where
  "is_digit c \<longleftrightarrow> 48 \<le> (of_char c :: nat) \<and> (of_char c :: nat) \<le> 57"

definition dec_value :: "string \<Rightarrow> nat" where
  "dec_value s = foldl (\<lambda>v c. v * 10 + (of_char c - 48)) 0 s"

lemma of_char_digit: "d < 10 \<Longrightarrow> (of_char (char_of (48 + d) :: char) :: nat) = 48 + d"
  by simp

lemma nat_dec_digits: "list_all is_digit (nat_dec n)"
proof (induction n rule: nat_dec.induct)
  case (1 n)
  show ?case
  proof (cases "n < 10")
    case True
    then show ?thesis by (simp add: nat_dec.simps [of n] is_digit_def)
  next
    case False
    then show ?thesis using 1 by (simp add: nat_dec.simps [of n] is_digit_def)
  qed
qed

lemma nat_dec_nonempty [simp]: "nat_dec n \<noteq> []"
  by (simp add: nat_dec.simps [of n])

lemma dec_value_nat_dec: "dec_value (nat_dec n) = n"
proof (induction n rule: nat_dec.induct)
  case (1 n)
  show ?case
  proof (cases "n < 10")
    case True
    then show ?thesis by (simp add: nat_dec.simps [of n] dec_value_def)
  next
    case False
    then show ?thesis using 1 by (simp add: nat_dec.simps [of n] dec_value_def)
  qed
qed

lemma nat_dec_inj: "nat_dec m = nat_dec n \<longleftrightarrow> m = n"
  using dec_value_nat_dec by metis

subsection \<open>Character-wise codes\<close>

text \<open>
  Three parts of the program write text through an escape that works one character at a time
  and is read back by a decoder: the stdin preamble, the tokens of a JSON pointer and the JSON
  strings of \<open>result.json\<close>. The interface: \<open>enc\<close> writes one character, \<open>dec\<close>
  reads a whole text, and reading what was written for one character yields it and goes on
  with the rest.
\<close>

locale charwise_code =
  fixes enc :: "char \<Rightarrow> string"
    and dec :: "string \<Rightarrow> string"
    and ok :: "char \<Rightarrow> bool"
  assumes dec_Nil: "dec [] = []"
    and dec_enc: "ok c \<Longrightarrow> dec (enc c @ rest) = c # dec rest"
begin

lemma dec_concat: "list_all ok s \<Longrightarrow> dec (concat (map enc s) @ rest) = s @ dec rest"
  by (induction s) (simp_all add: dec_enc)

lemma roundtrip: "list_all ok s \<Longrightarrow> dec (concat (map enc s)) = s"
  using dec_concat [of s "[]"] by (simp add: dec_Nil)

lemma encode_inj:
  assumes "list_all ok s" and "list_all ok t" and "concat (map enc s) = concat (map enc t)"
  shows "s = t"
proof -
  have "s = dec (concat (map enc s))" using assms(1) by (rule roundtrip [symmetric])
  also have "\<dots> = t" unfolding assms(3) using assms(2) by (rule roundtrip)
  finally show ?thesis .
qed

end

end
