(* ===== verification/Lifecycle.thy ===== *)
theory Lifecycle
  imports Qwe_Prelude
begin

text \<open>
  The job lifecycle (\<open>src/kernel/lifecycle.h\<close>, \<open>lifecycle.c\<close>) and the event model the
  code's own tests explore it with (\<open>lifecycle_model.c\<close>): the enumerations, the flat table
  written out row by row as in the source, the lookup and the predicates on states. The
  theorems say that the table and the event model classify every cell alike, that no cell is
  left unset, and what every run of a job through the table does: how often it signals,
  records and ends, and that it comes to an end.
\<close>

section \<open>The enumerations\<close>

datatype qwe_lc_state =
    QWE_LC_PENDING | QWE_LC_READY | QWE_LC_BETWEEN_STEPS
  | QWE_LC_STEP_RUNNING | QWE_LC_STEP_RUNNING_COE
  | QWE_LC_STEP_STOPPING | QWE_LC_STEP_STOPPING_COE
  | QWE_LC_STEP_KILLING | QWE_LC_STEP_KILLING_COE
  | QWE_LC_SETTLING_CONTINUE_TERM | QWE_LC_SETTLING_CONTINUE_KILL
  | QWE_LC_SETTLING_FAIL_TERM | QWE_LC_SETTLING_FAIL_KILL
  | QWE_LC_SETTLING_CANCEL_TIMEOUT_TERM | QWE_LC_SETTLING_CANCEL_TIMEOUT_KILL
  | QWE_LC_SETTLING_CANCEL_REQUESTED_TERM | QWE_LC_SETTLING_CANCEL_REQUESTED_KILL
  | QWE_LC_SUCCESS | QWE_LC_FAILED | QWE_LC_SKIPPED | QWE_LC_CANCELLED

datatype qwe_lc_event =
    QWE_LC_EV_NEEDS_MET | QWE_LC_EV_NEEDS_FAILED | QWE_LC_EV_SLOT_GRANTED
  | QWE_LC_EV_NEXT_STEP | QWE_LC_EV_NO_MORE_STEPS | QWE_LC_EV_START_FAILED
  | QWE_LC_EV_LEADER_EXIT_OK | QWE_LC_EV_LEADER_EXIT_FAIL
  | QWE_LC_EV_STEP_TIMEOUT | QWE_LC_EV_JOB_TIMEOUT | QWE_LC_EV_CANCEL
  | QWE_LC_EV_GRACE_EXPIRED | QWE_LC_EV_GROUP_EMPTY | QWE_LC_EV_SKIP

datatype qwe_lc_action =
    QWE_LC_ACT_NONE | QWE_LC_ACT_START_JOB | QWE_LC_ACT_SPAWN_STEP
  | QWE_LC_ACT_SIGTERM_GROUP | QWE_LC_ACT_ARM_GRACE | QWE_LC_ACT_SIGKILL_GROUP
  | QWE_LC_ACT_RECORD_STEP | QWE_LC_ACT_RECORD_JOB | QWE_LC_ACT_END_JOB

datatype qwe_lc_kind = QWE_LC_UNSET | QWE_LC_TRANSITION | QWE_LC_IGNORE | QWE_LC_IMPOSSIBLE

datatype qwe_lc_reason =
    QWE_LC_REASON_NONE | QWE_LC_REASON_DEPENDENCY_FAILED | QWE_LC_REASON_CANCEL_REQUESTED
  | QWE_LC_REASON_TIMEOUT | QWE_LC_REASON_ENGINE_ERROR | QWE_LC_REASON_FROM_EVENT
  | QWE_LC_REASON_CARRIED

text \<open>The numbers C gives the enumerators: they order the states and index the rows.\<close>

definition lc_states :: "qwe_lc_state list" where
  "lc_states =
    [QWE_LC_PENDING, QWE_LC_READY, QWE_LC_BETWEEN_STEPS, QWE_LC_STEP_RUNNING,
     QWE_LC_STEP_RUNNING_COE, QWE_LC_STEP_STOPPING, QWE_LC_STEP_STOPPING_COE,
     QWE_LC_STEP_KILLING, QWE_LC_STEP_KILLING_COE, QWE_LC_SETTLING_CONTINUE_TERM,
     QWE_LC_SETTLING_CONTINUE_KILL, QWE_LC_SETTLING_FAIL_TERM, QWE_LC_SETTLING_FAIL_KILL,
     QWE_LC_SETTLING_CANCEL_TIMEOUT_TERM, QWE_LC_SETTLING_CANCEL_TIMEOUT_KILL,
     QWE_LC_SETTLING_CANCEL_REQUESTED_TERM, QWE_LC_SETTLING_CANCEL_REQUESTED_KILL,
     QWE_LC_SUCCESS, QWE_LC_FAILED, QWE_LC_SKIPPED, QWE_LC_CANCELLED]"

primrec lc_state_ix :: "qwe_lc_state \<Rightarrow> nat" where
  "lc_state_ix QWE_LC_PENDING = 0"
| "lc_state_ix QWE_LC_READY = 1"
| "lc_state_ix QWE_LC_BETWEEN_STEPS = 2"
| "lc_state_ix QWE_LC_STEP_RUNNING = 3"
| "lc_state_ix QWE_LC_STEP_RUNNING_COE = 4"
| "lc_state_ix QWE_LC_STEP_STOPPING = 5"
| "lc_state_ix QWE_LC_STEP_STOPPING_COE = 6"
| "lc_state_ix QWE_LC_STEP_KILLING = 7"
| "lc_state_ix QWE_LC_STEP_KILLING_COE = 8"
| "lc_state_ix QWE_LC_SETTLING_CONTINUE_TERM = 9"
| "lc_state_ix QWE_LC_SETTLING_CONTINUE_KILL = 10"
| "lc_state_ix QWE_LC_SETTLING_FAIL_TERM = 11"
| "lc_state_ix QWE_LC_SETTLING_FAIL_KILL = 12"
| "lc_state_ix QWE_LC_SETTLING_CANCEL_TIMEOUT_TERM = 13"
| "lc_state_ix QWE_LC_SETTLING_CANCEL_TIMEOUT_KILL = 14"
| "lc_state_ix QWE_LC_SETTLING_CANCEL_REQUESTED_TERM = 15"
| "lc_state_ix QWE_LC_SETTLING_CANCEL_REQUESTED_KILL = 16"
| "lc_state_ix QWE_LC_SUCCESS = 17"
| "lc_state_ix QWE_LC_FAILED = 18"
| "lc_state_ix QWE_LC_SKIPPED = 19"
| "lc_state_ix QWE_LC_CANCELLED = 20"

primrec lc_event_ix :: "qwe_lc_event \<Rightarrow> nat" where
  "lc_event_ix QWE_LC_EV_NEEDS_MET = 0"
| "lc_event_ix QWE_LC_EV_NEEDS_FAILED = 1"
| "lc_event_ix QWE_LC_EV_SLOT_GRANTED = 2"
| "lc_event_ix QWE_LC_EV_NEXT_STEP = 3"
| "lc_event_ix QWE_LC_EV_NO_MORE_STEPS = 4"
| "lc_event_ix QWE_LC_EV_START_FAILED = 5"
| "lc_event_ix QWE_LC_EV_LEADER_EXIT_OK = 6"
| "lc_event_ix QWE_LC_EV_LEADER_EXIT_FAIL = 7"
| "lc_event_ix QWE_LC_EV_STEP_TIMEOUT = 8"
| "lc_event_ix QWE_LC_EV_JOB_TIMEOUT = 9"
| "lc_event_ix QWE_LC_EV_CANCEL = 10"
| "lc_event_ix QWE_LC_EV_GRACE_EXPIRED = 11"
| "lc_event_ix QWE_LC_EV_GROUP_EMPTY = 12"
| "lc_event_ix QWE_LC_EV_SKIP = 13"

lemma lc_state_ix_nth [simp]: "lc_states ! lc_state_ix s = s"
  by (cases s) (simp_all add: lc_states_def)

lemma lc_state_ix_inj: "lc_state_ix s = lc_state_ix t \<longleftrightarrow> s = t"
  by (metis lc_state_ix_nth)

text \<open>States are compared with \<open><\<close> and \<open>\<ge>\<close> in the source, so they are a linear order here.\<close>

instantiation qwe_lc_state :: linorder
begin

definition less_eq_qwe_lc_state :: "qwe_lc_state \<Rightarrow> qwe_lc_state \<Rightarrow> bool" where
  "less_eq_qwe_lc_state s t \<longleftrightarrow> lc_state_ix s \<le> lc_state_ix t"

definition less_qwe_lc_state :: "qwe_lc_state \<Rightarrow> qwe_lc_state \<Rightarrow> bool" where
  "less_qwe_lc_state s t \<longleftrightarrow> lc_state_ix s < lc_state_ix t"

instance
  by standard (auto simp: less_eq_qwe_lc_state_def less_qwe_lc_state_def lc_state_ix_inj)

end

lemmas lc_order = less_eq_qwe_lc_state_def less_qwe_lc_state_def

section \<open>The table\<close>

record lc_cell =
  c_kind :: qwe_lc_kind
  c_next :: qwe_lc_state
  c_reason :: qwe_lc_reason
  c_coe_by_payload :: bool
  c_actions :: "qwe_lc_action list"
  c_why :: "cstring option"

record qwe_lc_payload =
  pl_coe :: bool
  pl_reason :: "cstring option"
  pl_carried :: "cstring option"

record qwe_lc_result =
  r_kind :: qwe_lc_kind
  r_next :: qwe_lc_state
  r_reason_kind :: qwe_lc_reason
  r_reason :: "cstring option"
  r_actions :: "qwe_lc_action list"
  r_why :: "cstring option"

text \<open>
  The initialisers \<open>T\<close>, \<open>TC\<close>, \<open>I\<close> and \<open>X\<close>. An action array has
  \<open>QWE_LC_MAX_ACTIONS\<close> entries; those the initialiser does not give are zero, that is
  \<^const>\<open>QWE_LC_ACT_NONE\<close>.
\<close>

definition QWE_LC_MAX_ACTIONS :: nat where
  "QWE_LC_MAX_ACTIONS = 4"

definition pad_actions :: "qwe_lc_action list \<Rightarrow> qwe_lc_action list" where
  "pad_actions as = as @ replicate (QWE_LC_MAX_ACTIONS - length as) QWE_LC_ACT_NONE"

definition T_cell :: "qwe_lc_state \<Rightarrow> qwe_lc_reason \<Rightarrow> qwe_lc_action list \<Rightarrow> lc_cell" where
  "T_cell n r as = \<lparr>c_kind = QWE_LC_TRANSITION, c_next = n, c_reason = r, c_coe_by_payload = False,
     c_actions = pad_actions as, c_why = None\<rparr>"

definition TC_cell :: "qwe_lc_state \<Rightarrow> qwe_lc_reason \<Rightarrow> qwe_lc_action list \<Rightarrow> lc_cell" where
  "TC_cell n r as = \<lparr>c_kind = QWE_LC_TRANSITION, c_next = n, c_reason = r, c_coe_by_payload = True,
     c_actions = pad_actions as, c_why = None\<rparr>"

definition I_cell :: "qwe_lc_state \<Rightarrow> cstring \<Rightarrow> lc_cell" where
  "I_cell s w = \<lparr>c_kind = QWE_LC_IGNORE, c_next = s, c_reason = QWE_LC_REASON_NONE,
     c_coe_by_payload = False, c_actions = pad_actions [QWE_LC_ACT_NONE], c_why = Some w\<rparr>"

definition X_cell :: lc_cell where
  "X_cell = \<lparr>c_kind = QWE_LC_IMPOSSIBLE, c_next = QWE_LC_PENDING, c_reason = QWE_LC_REASON_NONE,
     c_coe_by_payload = False, c_actions = pad_actions [QWE_LC_ACT_NONE], c_why = None\<rparr>"

definition STALE_LEADER :: cstring where
  "STALE_LEADER = ''the outcome is already decided; the group emptying ends the step''"

definition STALE_STEP_TIMER :: cstring where
  "STALE_STEP_TIMER = ''the outcome is already decided; the step timer may still fire until the group is empty''"

definition CANCEL_OUTRANKS :: cstring where
  "CANCEL_OUTRANKS = ''a cancel outranks a job timeout''"

definition ALREADY_CANCELLED :: cstring where
  "ALREADY_CANCELLED = ''the job is already being cancelled''"

definition FINISHED :: cstring where
  "FINISHED = ''the operator's cancel is sent to every job; a finished job has nothing to cancel''"


abbreviation (input) "NO \<equiv> QWE_LC_ACT_NONE"
abbreviation (input) "START \<equiv> QWE_LC_ACT_START_JOB"
abbreviation (input) "SPAWN \<equiv> QWE_LC_ACT_SPAWN_STEP"
abbreviation (input) "TERM_G \<equiv> QWE_LC_ACT_SIGTERM_GROUP"
abbreviation (input) "GRACE \<equiv> QWE_LC_ACT_ARM_GRACE"
abbreviation (input) "KILL \<equiv> QWE_LC_ACT_SIGKILL_GROUP"
abbreviation (input) "REC_STEP \<equiv> QWE_LC_ACT_RECORD_STEP"
abbreviation (input) "REC_JOB \<equiv> QWE_LC_ACT_RECORD_JOB"
abbreviation (input) "END \<equiv> QWE_LC_ACT_END_JOB"
abbreviation (input) "R_NONE \<equiv> QWE_LC_REASON_NONE"
abbreviation (input) "R_DEP \<equiv> QWE_LC_REASON_DEPENDENCY_FAILED"
abbreviation (input) "R_CANCEL \<equiv> QWE_LC_REASON_CANCEL_REQUESTED"
abbreviation (input) "R_TIMEOUT \<equiv> QWE_LC_REASON_TIMEOUT"
abbreviation (input) "R_ENGINE \<equiv> QWE_LC_REASON_ENGINE_ERROR"
abbreviation (input) "R_EVENT \<equiv> QWE_LC_REASON_FROM_EVENT"
abbreviation (input) "R_CARRIED \<equiv> QWE_LC_REASON_CARRIED"

text \<open>One row per state, one column per event in the enumeration's order.\<close>

primrec lc_row :: "qwe_lc_state \<Rightarrow> lc_cell list" where
  "lc_row QWE_LC_PENDING =
    [T_cell QWE_LC_READY R_NONE [NO], T_cell QWE_LC_SKIPPED R_DEP [REC_JOB, END], X_cell, X_cell,
     X_cell, X_cell, X_cell, X_cell, X_cell, X_cell,
     T_cell QWE_LC_SKIPPED R_CANCEL [REC_JOB, END], X_cell, X_cell,
     T_cell QWE_LC_SKIPPED R_EVENT [REC_JOB, END]]"
| "lc_row QWE_LC_READY =
    [X_cell, X_cell, T_cell QWE_LC_BETWEEN_STEPS R_NONE [START], X_cell, X_cell, X_cell, X_cell,
     X_cell, X_cell, X_cell,
     T_cell QWE_LC_SKIPPED R_CANCEL [REC_JOB, END], X_cell, X_cell,
     T_cell QWE_LC_SKIPPED R_EVENT [REC_JOB, END]]"
| "lc_row QWE_LC_BETWEEN_STEPS =
    [X_cell, X_cell, X_cell, TC_cell QWE_LC_STEP_RUNNING R_NONE [SPAWN],
     T_cell QWE_LC_SUCCESS R_NONE [REC_JOB, END],
     T_cell QWE_LC_FAILED R_ENGINE [REC_JOB, END], X_cell, X_cell, X_cell,
     T_cell QWE_LC_CANCELLED R_TIMEOUT [REC_JOB, END], T_cell QWE_LC_CANCELLED R_CANCEL [REC_JOB,
     END], X_cell,
     X_cell, X_cell]"
| "lc_row QWE_LC_STEP_RUNNING =
    [X_cell, X_cell, X_cell, X_cell, X_cell, T_cell QWE_LC_FAILED R_ENGINE [REC_STEP, REC_JOB, END],
     T_cell QWE_LC_SETTLING_CONTINUE_TERM R_NONE [TERM_G, GRACE, REC_STEP],
     T_cell QWE_LC_SETTLING_FAIL_TERM R_EVENT [TERM_G, GRACE, REC_STEP],
     T_cell QWE_LC_STEP_STOPPING R_TIMEOUT [TERM_G, GRACE],
     T_cell QWE_LC_SETTLING_CANCEL_TIMEOUT_TERM R_TIMEOUT [TERM_G, GRACE, REC_STEP],
     T_cell QWE_LC_SETTLING_CANCEL_REQUESTED_TERM R_CANCEL [TERM_G, GRACE, REC_STEP], X_cell, X_cell,
     X_cell]"
| "lc_row QWE_LC_STEP_RUNNING_COE =
    [X_cell, X_cell, X_cell, X_cell, X_cell, T_cell QWE_LC_FAILED R_ENGINE [REC_STEP, REC_JOB, END],
     T_cell QWE_LC_SETTLING_CONTINUE_TERM R_NONE [TERM_G, GRACE, REC_STEP],
     T_cell QWE_LC_SETTLING_CONTINUE_TERM R_EVENT [TERM_G, GRACE, REC_STEP],
     T_cell QWE_LC_STEP_STOPPING_COE R_TIMEOUT [TERM_G, GRACE],
     T_cell QWE_LC_SETTLING_CANCEL_TIMEOUT_TERM R_TIMEOUT [TERM_G, GRACE, REC_STEP],
     T_cell QWE_LC_SETTLING_CANCEL_REQUESTED_TERM R_CANCEL [TERM_G, GRACE, REC_STEP], X_cell, X_cell,
     X_cell]"
| "lc_row QWE_LC_STEP_STOPPING =
    [X_cell, X_cell, X_cell, X_cell, X_cell, X_cell,
     T_cell QWE_LC_SETTLING_FAIL_TERM R_TIMEOUT [REC_STEP],
     T_cell QWE_LC_SETTLING_FAIL_TERM R_TIMEOUT [REC_STEP], X_cell,
     T_cell QWE_LC_SETTLING_CANCEL_TIMEOUT_TERM R_TIMEOUT [REC_STEP],
     T_cell QWE_LC_SETTLING_CANCEL_REQUESTED_TERM R_CANCEL [REC_STEP],
     T_cell QWE_LC_STEP_KILLING R_NONE [KILL], X_cell, X_cell]"
| "lc_row QWE_LC_STEP_STOPPING_COE =
    [X_cell, X_cell, X_cell, X_cell, X_cell, X_cell,
     T_cell QWE_LC_SETTLING_CONTINUE_TERM R_TIMEOUT [REC_STEP],
     T_cell QWE_LC_SETTLING_CONTINUE_TERM R_TIMEOUT [REC_STEP], X_cell,
     T_cell QWE_LC_SETTLING_CANCEL_TIMEOUT_TERM R_TIMEOUT [REC_STEP],
     T_cell QWE_LC_SETTLING_CANCEL_REQUESTED_TERM R_CANCEL [REC_STEP],
     T_cell QWE_LC_STEP_KILLING_COE R_NONE [KILL], X_cell, X_cell]"
| "lc_row QWE_LC_STEP_KILLING =
    [X_cell, X_cell, X_cell, X_cell, X_cell, X_cell,
     T_cell QWE_LC_SETTLING_FAIL_KILL R_TIMEOUT [REC_STEP],
     T_cell QWE_LC_SETTLING_FAIL_KILL R_TIMEOUT [REC_STEP], X_cell,
     T_cell QWE_LC_SETTLING_CANCEL_TIMEOUT_KILL R_TIMEOUT [REC_STEP],
     T_cell QWE_LC_SETTLING_CANCEL_REQUESTED_KILL R_CANCEL [REC_STEP], X_cell, X_cell, X_cell]"
| "lc_row QWE_LC_STEP_KILLING_COE =
    [X_cell, X_cell, X_cell, X_cell, X_cell, X_cell,
     T_cell QWE_LC_SETTLING_CONTINUE_KILL R_TIMEOUT [REC_STEP],
     T_cell QWE_LC_SETTLING_CONTINUE_KILL R_TIMEOUT [REC_STEP], X_cell,
     T_cell QWE_LC_SETTLING_CANCEL_TIMEOUT_KILL R_TIMEOUT [REC_STEP],
     T_cell QWE_LC_SETTLING_CANCEL_REQUESTED_KILL R_CANCEL [REC_STEP], X_cell, X_cell, X_cell]"
| "lc_row QWE_LC_SETTLING_CONTINUE_TERM =
    [X_cell, X_cell, X_cell, X_cell, X_cell, X_cell, I_cell QWE_LC_SETTLING_CONTINUE_TERM STALE_LEADER,
     I_cell QWE_LC_SETTLING_CONTINUE_TERM STALE_LEADER,
     I_cell QWE_LC_SETTLING_CONTINUE_TERM STALE_STEP_TIMER,
     T_cell QWE_LC_SETTLING_CANCEL_TIMEOUT_TERM R_TIMEOUT [NO],
     T_cell QWE_LC_SETTLING_CANCEL_REQUESTED_TERM R_CANCEL [NO],
     T_cell QWE_LC_SETTLING_CONTINUE_KILL R_NONE [KILL], T_cell QWE_LC_BETWEEN_STEPS R_NONE [NO],
     X_cell]"
| "lc_row QWE_LC_SETTLING_CONTINUE_KILL =
    [X_cell, X_cell, X_cell, X_cell, X_cell, X_cell, I_cell QWE_LC_SETTLING_CONTINUE_KILL STALE_LEADER,
     I_cell QWE_LC_SETTLING_CONTINUE_KILL STALE_LEADER,
     I_cell QWE_LC_SETTLING_CONTINUE_KILL STALE_STEP_TIMER,
     T_cell QWE_LC_SETTLING_CANCEL_TIMEOUT_KILL R_TIMEOUT [NO],
     T_cell QWE_LC_SETTLING_CANCEL_REQUESTED_KILL R_CANCEL [NO], X_cell,
     T_cell QWE_LC_BETWEEN_STEPS R_NONE [NO], X_cell]"
| "lc_row QWE_LC_SETTLING_FAIL_TERM =
    [X_cell, X_cell, X_cell, X_cell, X_cell, X_cell, I_cell QWE_LC_SETTLING_FAIL_TERM STALE_LEADER,
     I_cell QWE_LC_SETTLING_FAIL_TERM STALE_LEADER, I_cell QWE_LC_SETTLING_FAIL_TERM STALE_STEP_TIMER,
     T_cell QWE_LC_SETTLING_CANCEL_TIMEOUT_TERM R_TIMEOUT [NO],
     T_cell QWE_LC_SETTLING_CANCEL_REQUESTED_TERM R_CANCEL [NO],
     T_cell QWE_LC_SETTLING_FAIL_KILL R_NONE [KILL], T_cell QWE_LC_FAILED R_CARRIED [REC_JOB, END],
     X_cell]"
| "lc_row QWE_LC_SETTLING_FAIL_KILL =
    [X_cell, X_cell, X_cell, X_cell, X_cell, X_cell, I_cell QWE_LC_SETTLING_FAIL_KILL STALE_LEADER,
     I_cell QWE_LC_SETTLING_FAIL_KILL STALE_LEADER, I_cell QWE_LC_SETTLING_FAIL_KILL STALE_STEP_TIMER,
     T_cell QWE_LC_SETTLING_CANCEL_TIMEOUT_KILL R_TIMEOUT [NO],
     T_cell QWE_LC_SETTLING_CANCEL_REQUESTED_KILL R_CANCEL [NO], X_cell,
     T_cell QWE_LC_FAILED R_CARRIED [REC_JOB, END], X_cell]"
| "lc_row QWE_LC_SETTLING_CANCEL_TIMEOUT_TERM =
    [X_cell, X_cell, X_cell, X_cell, X_cell, X_cell,
     I_cell QWE_LC_SETTLING_CANCEL_TIMEOUT_TERM STALE_LEADER,
     I_cell QWE_LC_SETTLING_CANCEL_TIMEOUT_TERM STALE_LEADER,
     I_cell QWE_LC_SETTLING_CANCEL_TIMEOUT_TERM STALE_STEP_TIMER, X_cell,
     T_cell QWE_LC_SETTLING_CANCEL_REQUESTED_TERM R_CANCEL [NO],
     T_cell QWE_LC_SETTLING_CANCEL_TIMEOUT_KILL R_NONE [KILL],
     T_cell QWE_LC_CANCELLED R_TIMEOUT [REC_JOB, END], X_cell]"
| "lc_row QWE_LC_SETTLING_CANCEL_TIMEOUT_KILL =
    [X_cell, X_cell, X_cell, X_cell, X_cell, X_cell,
     I_cell QWE_LC_SETTLING_CANCEL_TIMEOUT_KILL STALE_LEADER,
     I_cell QWE_LC_SETTLING_CANCEL_TIMEOUT_KILL STALE_LEADER,
     I_cell QWE_LC_SETTLING_CANCEL_TIMEOUT_KILL STALE_STEP_TIMER, X_cell,
     T_cell QWE_LC_SETTLING_CANCEL_REQUESTED_KILL R_CANCEL [NO], X_cell,
     T_cell QWE_LC_CANCELLED R_TIMEOUT [REC_JOB, END], X_cell]"
| "lc_row QWE_LC_SETTLING_CANCEL_REQUESTED_TERM =
    [X_cell, X_cell, X_cell, X_cell, X_cell, X_cell,
     I_cell QWE_LC_SETTLING_CANCEL_REQUESTED_TERM STALE_LEADER,
     I_cell QWE_LC_SETTLING_CANCEL_REQUESTED_TERM STALE_LEADER,
     I_cell QWE_LC_SETTLING_CANCEL_REQUESTED_TERM STALE_STEP_TIMER,
     I_cell QWE_LC_SETTLING_CANCEL_REQUESTED_TERM CANCEL_OUTRANKS,
     I_cell QWE_LC_SETTLING_CANCEL_REQUESTED_TERM ALREADY_CANCELLED,
     T_cell QWE_LC_SETTLING_CANCEL_REQUESTED_KILL R_NONE [KILL],
     T_cell QWE_LC_CANCELLED R_CANCEL [REC_JOB, END], X_cell]"
| "lc_row QWE_LC_SETTLING_CANCEL_REQUESTED_KILL =
    [X_cell, X_cell, X_cell, X_cell, X_cell, X_cell,
     I_cell QWE_LC_SETTLING_CANCEL_REQUESTED_KILL STALE_LEADER,
     I_cell QWE_LC_SETTLING_CANCEL_REQUESTED_KILL STALE_LEADER,
     I_cell QWE_LC_SETTLING_CANCEL_REQUESTED_KILL STALE_STEP_TIMER,
     I_cell QWE_LC_SETTLING_CANCEL_REQUESTED_KILL CANCEL_OUTRANKS,
     I_cell QWE_LC_SETTLING_CANCEL_REQUESTED_KILL ALREADY_CANCELLED, X_cell,
     T_cell QWE_LC_CANCELLED R_CANCEL [REC_JOB, END], X_cell]"
| "lc_row QWE_LC_SUCCESS =
    [X_cell, X_cell, X_cell, X_cell, X_cell, X_cell, X_cell, X_cell, X_cell, X_cell,
     I_cell QWE_LC_SUCCESS FINISHED, X_cell, X_cell, X_cell]"
| "lc_row QWE_LC_FAILED =
    [X_cell, X_cell, X_cell, X_cell, X_cell, X_cell, X_cell, X_cell, X_cell, X_cell,
     I_cell QWE_LC_FAILED FINISHED, X_cell, X_cell, X_cell]"
| "lc_row QWE_LC_SKIPPED =
    [X_cell, X_cell, X_cell, X_cell, X_cell, X_cell, X_cell, X_cell, X_cell, X_cell,
     I_cell QWE_LC_SKIPPED FINISHED, X_cell, X_cell, X_cell]"
| "lc_row QWE_LC_CANCELLED =
    [X_cell, X_cell, X_cell, X_cell, X_cell, X_cell, X_cell, X_cell, X_cell, X_cell,
     I_cell QWE_LC_CANCELLED FINISHED, X_cell, X_cell, X_cell]"

definition qwe_lc_cell :: "qwe_lc_state \<Rightarrow> qwe_lc_event \<Rightarrow> lc_cell" where
  "qwe_lc_cell s e = lc_row s ! lc_event_ix e"

section \<open>Names, predicates and the lookup\<close>

primrec qwe_lc_state_name :: "qwe_lc_state \<Rightarrow> cstring" where
  "qwe_lc_state_name QWE_LC_PENDING = ''pending''"
| "qwe_lc_state_name QWE_LC_READY = ''ready''"
| "qwe_lc_state_name QWE_LC_BETWEEN_STEPS = ''between-steps''"
| "qwe_lc_state_name QWE_LC_STEP_RUNNING = ''step-running''"
| "qwe_lc_state_name QWE_LC_STEP_RUNNING_COE = ''step-running-coe''"
| "qwe_lc_state_name QWE_LC_STEP_STOPPING = ''step-stopping''"
| "qwe_lc_state_name QWE_LC_STEP_STOPPING_COE = ''step-stopping-coe''"
| "qwe_lc_state_name QWE_LC_STEP_KILLING = ''step-killing''"
| "qwe_lc_state_name QWE_LC_STEP_KILLING_COE = ''step-killing-coe''"
| "qwe_lc_state_name QWE_LC_SETTLING_CONTINUE_TERM = ''settling-continue-term''"
| "qwe_lc_state_name QWE_LC_SETTLING_CONTINUE_KILL = ''settling-continue-kill''"
| "qwe_lc_state_name QWE_LC_SETTLING_FAIL_TERM = ''settling-fail-term''"
| "qwe_lc_state_name QWE_LC_SETTLING_FAIL_KILL = ''settling-fail-kill''"
| "qwe_lc_state_name QWE_LC_SETTLING_CANCEL_TIMEOUT_TERM = ''settling-cancel-timeout-term''"
| "qwe_lc_state_name QWE_LC_SETTLING_CANCEL_TIMEOUT_KILL = ''settling-cancel-timeout-kill''"
| "qwe_lc_state_name QWE_LC_SETTLING_CANCEL_REQUESTED_TERM = ''settling-cancel-requested-term''"
| "qwe_lc_state_name QWE_LC_SETTLING_CANCEL_REQUESTED_KILL = ''settling-cancel-requested-kill''"
| "qwe_lc_state_name QWE_LC_SUCCESS = ''success''"
| "qwe_lc_state_name QWE_LC_FAILED = ''failed''"
| "qwe_lc_state_name QWE_LC_SKIPPED = ''skipped''"
| "qwe_lc_state_name QWE_LC_CANCELLED = ''cancelled''"

primrec qwe_lc_event_name :: "qwe_lc_event \<Rightarrow> cstring" where
  "qwe_lc_event_name QWE_LC_EV_NEEDS_MET = ''needs-met''"
| "qwe_lc_event_name QWE_LC_EV_NEEDS_FAILED = ''needs-failed''"
| "qwe_lc_event_name QWE_LC_EV_SLOT_GRANTED = ''slot-granted''"
| "qwe_lc_event_name QWE_LC_EV_NEXT_STEP = ''next-step''"
| "qwe_lc_event_name QWE_LC_EV_NO_MORE_STEPS = ''no-more-steps''"
| "qwe_lc_event_name QWE_LC_EV_START_FAILED = ''start-failed''"
| "qwe_lc_event_name QWE_LC_EV_LEADER_EXIT_OK = ''leader-exit-ok''"
| "qwe_lc_event_name QWE_LC_EV_LEADER_EXIT_FAIL = ''leader-exit-fail''"
| "qwe_lc_event_name QWE_LC_EV_STEP_TIMEOUT = ''step-timeout''"
| "qwe_lc_event_name QWE_LC_EV_JOB_TIMEOUT = ''job-timeout''"
| "qwe_lc_event_name QWE_LC_EV_CANCEL = ''cancel''"
| "qwe_lc_event_name QWE_LC_EV_GRACE_EXPIRED = ''grace-expired''"
| "qwe_lc_event_name QWE_LC_EV_GROUP_EMPTY = ''group-empty''"
| "qwe_lc_event_name QWE_LC_EV_SKIP = ''skip''"

fun qwe_lc_reason_name :: "qwe_lc_reason \<Rightarrow> cstring option" where
  "qwe_lc_reason_name QWE_LC_REASON_DEPENDENCY_FAILED = Some ''dependency-failed''"
| "qwe_lc_reason_name QWE_LC_REASON_CANCEL_REQUESTED = Some ''cancel-requested''"
| "qwe_lc_reason_name QWE_LC_REASON_TIMEOUT = Some ''timeout''"
| "qwe_lc_reason_name QWE_LC_REASON_ENGINE_ERROR = Some ''engine-error''"
| "qwe_lc_reason_name _ = None"

text \<open>A coe state is its plain state plus one: the addition on the enumerators.\<close>

definition qwe_lc_next :: "lc_cell \<Rightarrow> bool \<Rightarrow> qwe_lc_state" where
  "qwe_lc_next c coe =
     lc_states ! (lc_state_ix (c_next c) + (if c_coe_by_payload c \<and> coe then 1 else 0))"

definition qwe_lc_state_is_final :: "qwe_lc_state \<Rightarrow> bool" where
  "qwe_lc_state_is_final s \<longleftrightarrow> s \<ge> QWE_LC_SUCCESS"

definition qwe_lc_state_teardown_started :: "qwe_lc_state \<Rightarrow> bool" where
  "qwe_lc_state_teardown_started s \<longleftrightarrow>
     s \<ge> QWE_LC_STEP_STOPPING \<and> s \<le> QWE_LC_SETTLING_CANCEL_REQUESTED_KILL"

definition qwe_lc_state_is_running :: "qwe_lc_state \<Rightarrow> bool" where
  "qwe_lc_state_is_running s \<longleftrightarrow>
     s \<ge> QWE_LC_BETWEEN_STEPS \<and> s \<le> QWE_LC_SETTLING_CANCEL_REQUESTED_KILL"

fun qwe_lc_event_is_stale :: "qwe_lc_state \<Rightarrow> qwe_lc_event \<Rightarrow> int \<Rightarrow> int \<Rightarrow> bool" where
  "qwe_lc_event_is_stale s QWE_LC_EV_LEADER_EXIT_OK es live = (es \<noteq> live)"
| "qwe_lc_event_is_stale s QWE_LC_EV_LEADER_EXIT_FAIL es live = (es \<noteq> live)"
| "qwe_lc_event_is_stale s QWE_LC_EV_STEP_TIMEOUT es live = (es \<noteq> live)"
| "qwe_lc_event_is_stale s QWE_LC_EV_GRACE_EXPIRED es live = (es \<noteq> live)"
| "qwe_lc_event_is_stale s QWE_LC_EV_GROUP_EMPTY es live = (es \<noteq> live)"
| "qwe_lc_event_is_stale s QWE_LC_EV_JOB_TIMEOUT es live = qwe_lc_state_is_final s"
| "qwe_lc_event_is_stale s _ es live = False"

definition qwe_lc_step_outcome :: "qwe_lc_result \<Rightarrow> cstring" where
  "qwe_lc_step_outcome r =
     (if r_next r \<ge> QWE_LC_SETTLING_CANCEL_TIMEOUT_TERM
         \<and> r_next r \<le> QWE_LC_SETTLING_CANCEL_REQUESTED_KILL
      then ''cancelled''
      else if r_reason r \<noteq> None then ''failed'' else ''success'')"

text \<open>
  The lookup. \<open>Inl\<close> is the abort on an impossible or unset cell, with the state and the event
  the message names. (A value outside the enumerations, the other cause of the abort in the
  source, does not exist in the model's types.)
\<close>

definition qwe_lc_lookup ::
    "qwe_lc_state \<Rightarrow> qwe_lc_event \<Rightarrow> qwe_lc_payload \<Rightarrow> (qwe_lc_state \<times> qwe_lc_event) + qwe_lc_result"
where
  "qwe_lc_lookup s e p =
     (let c = qwe_lc_cell s e in
      if c_kind c = QWE_LC_IMPOSSIBLE \<or> c_kind c = QWE_LC_UNSET then Inl (s, e)
      else Inr \<lparr>r_kind = c_kind c,
                r_next = (if c_kind c = QWE_LC_IGNORE then s else qwe_lc_next c (pl_coe p)),
                r_reason_kind = c_reason c,
                r_reason = (if c_reason c = QWE_LC_REASON_FROM_EVENT then pl_reason p
                            else if c_reason c = QWE_LC_REASON_CARRIED then pl_carried p
                            else qwe_lc_reason_name (c_reason c)),
                r_actions = c_actions c,
                r_why = c_why c\<rparr>)"

section \<open>The event model\<close>

definition job_timer_armed :: "qwe_lc_state \<Rightarrow> bool" where
  "job_timer_armed s \<longleftrightarrow> s \<ge> QWE_LC_BETWEEN_STEPS \<and> s \<le> QWE_LC_SETTLING_CANCEL_REQUESTED_KILL"

definition step_in_flight :: "qwe_lc_state \<Rightarrow> bool" where
  "step_in_flight s \<longleftrightarrow> s \<ge> QWE_LC_STEP_RUNNING \<and> s \<le> QWE_LC_SETTLING_CANCEL_REQUESTED_KILL"

definition step_timer_may_fire :: "qwe_lc_state \<Rightarrow> bool" where
  "step_timer_may_fire s =
     (if s \<in> {QWE_LC_STEP_STOPPING, QWE_LC_STEP_STOPPING_COE, QWE_LC_STEP_KILLING,
              QWE_LC_STEP_KILLING_COE}
      then False else step_in_flight s)"

definition job_timer_may_fire :: "qwe_lc_state \<Rightarrow> bool" where
  "job_timer_may_fire s =
     (if s \<in> {QWE_LC_SETTLING_CANCEL_TIMEOUT_TERM, QWE_LC_SETTLING_CANCEL_TIMEOUT_KILL}
      then False else job_timer_armed s)"

definition grace_timer_running :: "qwe_lc_state \<Rightarrow> bool" where
  "grace_timer_running s \<longleftrightarrow>
     s \<in> {QWE_LC_STEP_STOPPING, QWE_LC_STEP_STOPPING_COE, QWE_LC_SETTLING_CONTINUE_TERM,
          QWE_LC_SETTLING_FAIL_TERM, QWE_LC_SETTLING_CANCEL_TIMEOUT_TERM,
          QWE_LC_SETTLING_CANCEL_REQUESTED_TERM}"

definition waiting_for_empty_group :: "qwe_lc_state \<Rightarrow> bool" where
  "waiting_for_empty_group s \<longleftrightarrow>
     s \<ge> QWE_LC_SETTLING_CONTINUE_TERM \<and> s \<le> QWE_LC_SETTLING_CANCEL_REQUESTED_KILL"

text \<open>The bit set is a set of events; \<open>|=\<close> is union.\<close>

definition qwe_lcm_events :: "qwe_lc_state \<Rightarrow> qwe_lc_event set" where
  "qwe_lcm_events s =
     (if s = QWE_LC_PENDING then
        {QWE_LC_EV_NEEDS_MET, QWE_LC_EV_NEEDS_FAILED, QWE_LC_EV_CANCEL, QWE_LC_EV_SKIP}
      else if s = QWE_LC_READY then {QWE_LC_EV_SLOT_GRANTED, QWE_LC_EV_CANCEL, QWE_LC_EV_SKIP}
      else if s \<in> {QWE_LC_SUCCESS, QWE_LC_FAILED, QWE_LC_SKIPPED, QWE_LC_CANCELLED} then
        {QWE_LC_EV_CANCEL}
      else
        (if s = QWE_LC_BETWEEN_STEPS then
           {QWE_LC_EV_NEXT_STEP, QWE_LC_EV_NO_MORE_STEPS, QWE_LC_EV_START_FAILED}
         else if s \<in> {QWE_LC_STEP_RUNNING, QWE_LC_STEP_RUNNING_COE} then {QWE_LC_EV_START_FAILED}
         else {})
        \<union> (if step_in_flight s then {QWE_LC_EV_LEADER_EXIT_OK, QWE_LC_EV_LEADER_EXIT_FAIL} else {})
        \<union> (if step_timer_may_fire s then {QWE_LC_EV_STEP_TIMEOUT} else {})
        \<union> (if job_timer_may_fire s then {QWE_LC_EV_JOB_TIMEOUT} else {})
        \<union> (if grace_timer_running s then {QWE_LC_EV_GRACE_EXPIRED} else {})
        \<union> (if waiting_for_empty_group s then {QWE_LC_EV_GROUP_EMPTY} else {})
        \<union> (if job_timer_armed s then {QWE_LC_EV_CANCEL} else {}))"

lemmas lcm_defs = job_timer_armed_def step_in_flight_def step_timer_may_fire_def
  job_timer_may_fire_def grace_timer_running_def waiting_for_empty_group_def qwe_lcm_events_def

lemmas lc_pred_defs = qwe_lc_state_is_final_def qwe_lc_state_teardown_started_def
  qwe_lc_state_is_running_def

lemmas lc_cell_defs = T_cell_def TC_cell_def I_cell_def X_cell_def pad_actions_def
  QWE_LC_MAX_ACTIONS_def


section \<open>One step of the table\<close>

text \<open>
  A property of every cell is checked row by row, each cell once; the facts below are read off
  the table that way.
\<close>

definition lc_events :: "qwe_lc_event list" where
  "lc_events =
    [QWE_LC_EV_NEEDS_MET, QWE_LC_EV_NEEDS_FAILED, QWE_LC_EV_SLOT_GRANTED, QWE_LC_EV_NEXT_STEP,
     QWE_LC_EV_NO_MORE_STEPS, QWE_LC_EV_START_FAILED, QWE_LC_EV_LEADER_EXIT_OK,
     QWE_LC_EV_LEADER_EXIT_FAIL, QWE_LC_EV_STEP_TIMEOUT, QWE_LC_EV_JOB_TIMEOUT,
     QWE_LC_EV_CANCEL, QWE_LC_EV_GRACE_EXPIRED, QWE_LC_EV_GROUP_EMPTY, QWE_LC_EV_SKIP]"

lemma lc_event_ix_nth: "lc_events ! lc_event_ix e = e" "lc_event_ix e < length lc_events"
  by (cases e; simp add: lc_events_def)+

lemma lc_row_length: "length (lc_row s) = length lc_events"
  by (cases s) (simp_all add: lc_events_def)

lemma lc_cell_all:
  assumes "\<And>s. list_all2 (P s) lc_events (lc_row s)"
  shows "P s e (qwe_lc_cell s e)"
  using list_all2_nthD [OF assms lc_event_ix_nth(2), of s e]
  by (simp add: qwe_lc_cell_def lc_event_ix_nth)

lemma lc_cell_kind [lc_simps]: "c_kind (qwe_lc_cell s e) \<noteq> QWE_LC_UNSET"
  by (rule lc_cell_all [where P = "\<lambda>s e c. c_kind c \<noteq> QWE_LC_UNSET"], case_tac s)
    (simp_all add: lc_events_def lc_cell_defs)

lemma lc_cell_ignore:
  "c_kind (qwe_lc_cell s e) = QWE_LC_IGNORE \<longrightarrow>
     c_actions (qwe_lc_cell s e) = replicate QWE_LC_MAX_ACTIONS QWE_LC_ACT_NONE
     \<and> c_reason (qwe_lc_cell s e) = QWE_LC_REASON_NONE \<and> c_why (qwe_lc_cell s e) \<noteq> None
     \<and> c_next (qwe_lc_cell s e) = s"
  by (rule lc_cell_all [where P = "\<lambda>s e c. c_kind c = QWE_LC_IGNORE \<longrightarrow>
       c_actions c = replicate QWE_LC_MAX_ACTIONS QWE_LC_ACT_NONE
       \<and> c_reason c = QWE_LC_REASON_NONE \<and> c_why c \<noteq> None \<and> c_next c = s"], case_tac s)
    (simp_all add: lc_events_def lc_cell_defs eval_nat_numeral)

lemma lc_cell_matches_model:
  "e \<in> qwe_lcm_events s \<longleftrightarrow> c_kind (qwe_lc_cell s e) \<noteq> QWE_LC_IMPOSSIBLE"
  by (rule lc_cell_all [where P = "\<lambda>s e c. e \<in> qwe_lcm_events s \<longleftrightarrow> c_kind c \<noteq> QWE_LC_IMPOSSIBLE"],
      case_tac s)
    (simp_all add: lc_events_def lc_cell_defs lcm_defs lc_order)

lemma qwe_lc_lookup_Inr_iff:
  "(\<exists>r. qwe_lc_lookup s e p = Inr r) \<longleftrightarrow> e \<in> qwe_lcm_events s"
  by (auto simp: qwe_lc_lookup_def Let_def lc_cell_matches_model lc_simps)

lemma qwe_lc_lookup_ignore:
  "qwe_lc_lookup s e p = Inr r \<Longrightarrow> r_kind r = QWE_LC_IGNORE \<Longrightarrow>
     r_next r = s \<and> r_reason r = None \<and> r_actions r = replicate QWE_LC_MAX_ACTIONS QWE_LC_ACT_NONE"
  using lc_cell_ignore [of s e] by (auto simp: qwe_lc_lookup_def Let_def split: if_splits)

text \<open>
  A lookup that returns, seen as a step: its target is \<open>lc_target\<close> of the cell. Properties
  of all steps follow from properties of all cells that are not impossible.
\<close>

definition lc_target :: "qwe_lc_state \<Rightarrow> lc_cell \<Rightarrow> bool \<Rightarrow> qwe_lc_state" where
  "lc_target s c coe = (if c_kind c = QWE_LC_IGNORE then s else qwe_lc_next c coe)"

lemma qwe_lc_lookup_Inr:
  assumes "qwe_lc_lookup s e p = Inr r"
  shows "c_kind (qwe_lc_cell s e) \<noteq> QWE_LC_IMPOSSIBLE"
    and "r_kind r = c_kind (qwe_lc_cell s e)"
    and "r_actions r = c_actions (qwe_lc_cell s e)"
    and "r_next r = lc_target s (qwe_lc_cell s e) (pl_coe p)"
    and "r_reason_kind r = c_reason (qwe_lc_cell s e)"
    and "r_reason r = (if c_reason (qwe_lc_cell s e) = QWE_LC_REASON_FROM_EVENT then pl_reason p
           else if c_reason (qwe_lc_cell s e) = QWE_LC_REASON_CARRIED then pl_carried p
           else qwe_lc_reason_name (c_reason (qwe_lc_cell s e)))"
  using assms by (auto simp: qwe_lc_lookup_def Let_def lc_target_def split: if_splits)

lemma lc_step_all:
  assumes "\<And>s coe. list_all2 (\<lambda>e c. c_kind c \<noteq> QWE_LC_IMPOSSIBLE \<longrightarrow>
      P s e (c_kind c) (c_reason c) (c_actions c) (lc_target s c coe)) lc_events (lc_row s)"
    and "qwe_lc_lookup s e p = Inr r"
  shows "P s e (r_kind r) (r_reason_kind r) (r_actions r) (r_next r)"
  using lc_cell_all [of "\<lambda>s e c. c_kind c \<noteq> QWE_LC_IMPOSSIBLE \<longrightarrow>
      P s e (c_kind c) (c_reason c) (c_actions c) (lc_target s c (pl_coe p))" s e] assms(1)
    qwe_lc_lookup_Inr [OF assms(2)]
  by simp

lemmas lc_eval = lc_events_def lc_cell_defs lc_target_def qwe_lc_next_def lc_states_def lc_order
  lc_pred_defs grace_timer_running_def

section \<open>Runs of a job through the table\<close>

text \<open>
  A run is a sequence of lookups that did not abort, each from the state the one before left.
  An entry is the state, the event and the result.
\<close>

type_synonym lc_entry = "qwe_lc_state \<times> qwe_lc_event \<times> qwe_lc_result"

inductive lc_trace :: "qwe_lc_state \<Rightarrow> lc_entry list \<Rightarrow> qwe_lc_state \<Rightarrow> bool" for s0 where
  lc_start: "lc_trace s0 [] s0"
| lc_event: "lc_trace s0 tr s \<Longrightarrow> qwe_lc_lookup s e p = Inr r \<Longrightarrow>
     lc_trace s0 (tr @ [(s, e, r)]) (r_next r)"

definition lc_actions :: "lc_entry list \<Rightarrow> qwe_lc_action list" where
  "lc_actions tr = concat (map (\<lambda>(s, e, r). r_actions r) tr)"

abbreviation acts :: "qwe_lc_action \<Rightarrow> lc_entry list \<Rightarrow> nat" where
  "acts a tr \<equiv> count_list (lc_actions tr) a"

lemma lc_actions_simps [simp]:
  "lc_actions [] = []"
  "lc_actions (tr @ [(s, e, r)]) = lc_actions tr @ r_actions r"
  by (simp_all add: lc_actions_def)

text \<open>
  The accounting invariant: how many times each action has been ordered, as a function of the
  state the job is in.
\<close>

definition lc_account :: "lc_entry list \<Rightarrow> qwe_lc_state \<Rightarrow> bool" where
  "lc_account tr s \<longleftrightarrow>
     acts QWE_LC_ACT_RECORD_JOB tr = (if qwe_lc_state_is_final s then 1 else 0)
     \<and> acts QWE_LC_ACT_END_JOB tr = (if qwe_lc_state_is_final s then 1 else 0)
     \<and> acts QWE_LC_ACT_START_JOB tr =
         (if s \<in> {QWE_LC_PENDING, QWE_LC_READY, QWE_LC_SKIPPED} then 0 else 1)
     \<and> acts QWE_LC_ACT_SPAWN_STEP tr =
         acts QWE_LC_ACT_RECORD_STEP tr
         + (if QWE_LC_STEP_RUNNING \<le> s \<and> s \<le> QWE_LC_STEP_KILLING_COE then 1 else 0)
     \<and> acts QWE_LC_ACT_ARM_GRACE tr = acts QWE_LC_ACT_SIGTERM_GROUP tr
     \<and> acts QWE_LC_ACT_SIGTERM_GROUP tr
         + (if s \<in> {QWE_LC_STEP_RUNNING, QWE_LC_STEP_RUNNING_COE} then 1 else 0)
         \<le> acts QWE_LC_ACT_SPAWN_STEP tr
     \<and> acts QWE_LC_ACT_SPAWN_STEP tr
         \<le> acts QWE_LC_ACT_SIGTERM_GROUP tr
            + (if s \<in> {QWE_LC_STEP_RUNNING, QWE_LC_STEP_RUNNING_COE, QWE_LC_FAILED} then 1 else 0)
     \<and> acts QWE_LC_ACT_SIGKILL_GROUP tr + (if grace_timer_running s then 1 else 0)
         \<le> acts QWE_LC_ACT_SIGTERM_GROUP tr"

lemma lc_account_start: "lc_account [] QWE_LC_PENDING"
  by (simp add: lc_account_def lc_pred_defs lcm_defs lc_order)

text \<open>What one step does to the counts, with the states' contributions: closed arithmetic.\<close>

abbreviation final_n :: "qwe_lc_state \<Rightarrow> nat" where
  "final_n s \<equiv> (if qwe_lc_state_is_final s then 1 else 0)"

abbreviation started_n :: "qwe_lc_state \<Rightarrow> nat" where
  "started_n s \<equiv> (if s \<in> {QWE_LC_PENDING, QWE_LC_READY, QWE_LC_SKIPPED} then 0 else 1)"

abbreviation unrecorded_n :: "qwe_lc_state \<Rightarrow> nat" where
  "unrecorded_n s \<equiv> (if QWE_LC_STEP_RUNNING \<le> s \<and> s \<le> QWE_LC_STEP_KILLING_COE then 1 else 0)"

abbreviation unsignalled_n :: "qwe_lc_state \<Rightarrow> nat" where
  "unsignalled_n s \<equiv> (if s \<in> {QWE_LC_STEP_RUNNING, QWE_LC_STEP_RUNNING_COE} then 1 else 0)"

abbreviation maybe_unsignalled_n :: "qwe_lc_state \<Rightarrow> nat" where
  "maybe_unsignalled_n s \<equiv>
     (if s \<in> {QWE_LC_STEP_RUNNING, QWE_LC_STEP_RUNNING_COE, QWE_LC_FAILED} then 1 else 0)"

abbreviation grace_n :: "qwe_lc_state \<Rightarrow> nat" where
  "grace_n s \<equiv> (if grace_timer_running s then 1 else 0)"

definition lc_delta :: "qwe_lc_state \<Rightarrow> qwe_lc_action list \<Rightarrow> qwe_lc_state \<Rightarrow> bool" where
  "lc_delta s as t \<longleftrightarrow>
     count_list as QWE_LC_ACT_RECORD_JOB + final_n s = final_n t
     \<and> count_list as QWE_LC_ACT_END_JOB + final_n s = final_n t
     \<and> count_list as QWE_LC_ACT_START_JOB + started_n s = started_n t
     \<and> count_list as QWE_LC_ACT_SPAWN_STEP + unrecorded_n s
         = count_list as QWE_LC_ACT_RECORD_STEP + unrecorded_n t
     \<and> count_list as QWE_LC_ACT_ARM_GRACE = count_list as QWE_LC_ACT_SIGTERM_GROUP
     \<and> count_list as QWE_LC_ACT_SIGTERM_GROUP + unsignalled_n t
         \<le> count_list as QWE_LC_ACT_SPAWN_STEP + unsignalled_n s
     \<and> count_list as QWE_LC_ACT_SPAWN_STEP + maybe_unsignalled_n s
         \<le> count_list as QWE_LC_ACT_SIGTERM_GROUP + maybe_unsignalled_n t
     \<and> count_list as QWE_LC_ACT_SIGKILL_GROUP + grace_n t
         \<le> count_list as QWE_LC_ACT_SIGTERM_GROUP + grace_n s"

lemma lc_lookup_delta:
  "qwe_lc_lookup s e p = Inr r \<Longrightarrow> lc_delta s (r_actions r) (r_next r)"
  by (rule lc_step_all [where P = "\<lambda>s e k q as t. lc_delta s as t"], case_tac sa)
    (simp_all add: lc_eval lc_delta_def)

lemma lc_account_step:
  assumes "lc_account tr s" and "qwe_lc_lookup s e p = Inr r"
  shows "lc_account (tr @ [(s, e, r)]) (r_next r)"
  using assms(1) lc_lookup_delta [OF assms(2)]
  unfolding lc_account_def lc_delta_def lc_actions_simps count_list_append by linarith

lemma lc_trace_account: "lc_trace QWE_LC_PENDING tr s \<Longrightarrow> lc_account tr s"
  by (induction rule: lc_trace.induct) (auto intro: lc_account_start lc_account_step)

section \<open>Bounded runs, precedence, outcomes\<close>

text \<open>An upper bound on the transitions still to come before the next \<open>next-step\<close>.\<close>

primrec lc_potential :: "qwe_lc_state \<Rightarrow> nat" where
  "lc_potential QWE_LC_PENDING = 3"
| "lc_potential QWE_LC_READY = 2"
| "lc_potential QWE_LC_BETWEEN_STEPS = 1"
| "lc_potential QWE_LC_STEP_RUNNING = 6"
| "lc_potential QWE_LC_STEP_RUNNING_COE = 6"
| "lc_potential QWE_LC_STEP_STOPPING = 5"
| "lc_potential QWE_LC_STEP_STOPPING_COE = 5"
| "lc_potential QWE_LC_STEP_KILLING = 4"
| "lc_potential QWE_LC_STEP_KILLING_COE = 4"
| "lc_potential QWE_LC_SETTLING_CONTINUE_TERM = 4"
| "lc_potential QWE_LC_SETTLING_CONTINUE_KILL = 3"
| "lc_potential QWE_LC_SETTLING_FAIL_TERM = 4"
| "lc_potential QWE_LC_SETTLING_FAIL_KILL = 3"
| "lc_potential QWE_LC_SETTLING_CANCEL_TIMEOUT_TERM = 3"
| "lc_potential QWE_LC_SETTLING_CANCEL_TIMEOUT_KILL = 2"
| "lc_potential QWE_LC_SETTLING_CANCEL_REQUESTED_TERM = 2"
| "lc_potential QWE_LC_SETTLING_CANCEL_REQUESTED_KILL = 1"
| "lc_potential QWE_LC_SUCCESS = 0"
| "lc_potential QWE_LC_FAILED = 0"
| "lc_potential QWE_LC_SKIPPED = 0"
| "lc_potential QWE_LC_CANCELLED = 0"

definition transitions :: "lc_entry list \<Rightarrow> nat" where
  "transitions tr = length (filter (\<lambda>(s, e, r). r_kind r = QWE_LC_TRANSITION) tr)"

definition next_steps :: "lc_entry list \<Rightarrow> nat" where
  "next_steps tr = length (filter (\<lambda>(s, e, r). e = QWE_LC_EV_NEXT_STEP) tr)"

lemma lc_lookup_potential:
  "qwe_lc_lookup s e p = Inr r \<Longrightarrow>
     (if r_kind r = QWE_LC_TRANSITION then 1 else 0) + lc_potential (r_next r)
       \<le> lc_potential s + (if e = QWE_LC_EV_NEXT_STEP then 6 else 0)"
  by (rule lc_step_all [where P = "\<lambda>s e k q as t.
        (if k = QWE_LC_TRANSITION then 1 else 0) + lc_potential t
          \<le> lc_potential s + (if e = QWE_LC_EV_NEXT_STEP then 6 else 0)"], case_tac sa)
    (simp_all add: lc_eval)

lemma lc_trace_potential:
  "lc_trace s0 tr s \<Longrightarrow> transitions tr + lc_potential s \<le> lc_potential s0 + 6 * next_steps tr"
proof (induction rule: lc_trace.induct)
  case lc_start
  show ?case by (simp add: transitions_def next_steps_def)
next
  case (lc_event tr s e p r)
  from lc_event.IH lc_lookup_potential [OF lc_event.hyps(2)] show ?case
    by (auto simp: transitions_def next_steps_def split: if_splits)
qed

text \<open>Runs split at an entry, and sets of states no step leaves.\<close>

inductive_cases lc_trace_snocE: "lc_trace s0 (tr @ [(s1, e1, r1)]) s"

lemma lc_trace_split:
  "lc_trace s0 (tr1 @ (s1, e1, r1) # tr2) s \<Longrightarrow>
     (\<exists>p. qwe_lc_lookup s1 e1 p = Inr r1) \<and> lc_trace (r_next r1) tr2 s"
proof (induction tr2 arbitrary: s rule: rev_induct)
  case Nil
  then show ?case by (auto elim!: lc_trace_snocE intro: lc_start)
next
  case (snoc x tr2)
  obtain s2 e2 r2 where x: "x = (s2, e2, r2)" by (cases x)
  from snoc.prems have "lc_trace s0 ((tr1 @ (s1, e1, r1) # tr2) @ [(s2, e2, r2)]) s"
    by (simp add: x)
  then obtain p where "lc_trace s0 (tr1 @ (s1, e1, r1) # tr2) s2" and "s = r_next r2"
    and "qwe_lc_lookup s2 e2 p = Inr r2"
    by (rule lc_trace_snocE) blast
  with snoc.IH [of s2] show ?case by (auto simp: x intro: lc_event)
qed

lemma lc_trace_invariant:
  assumes "lc_trace m tr s" and "m \<in> A"
    and closed: "\<And>s e p r. s \<in> A \<Longrightarrow> qwe_lc_lookup s e p = Inr r \<Longrightarrow> r_next r \<in> A \<and> Q s e r"
  shows "s \<in> A \<and> (\<forall>(s, e, r) \<in> set tr. Q s e r)"
  using assms(1,2)
proof (induction rule: lc_trace.induct)
  case lc_start
  then show ?case by simp
next
  case (lc_event tr s e p r)
  then show ?case using closed [of s e p r] by simp
qed

definition lc_doomed :: "qwe_lc_state set" where
  "lc_doomed = {QWE_LC_STEP_STOPPING, QWE_LC_STEP_KILLING, QWE_LC_SETTLING_FAIL_TERM,
     QWE_LC_SETTLING_FAIL_KILL, QWE_LC_SETTLING_CANCEL_TIMEOUT_TERM,
     QWE_LC_SETTLING_CANCEL_TIMEOUT_KILL, QWE_LC_SETTLING_CANCEL_REQUESTED_TERM,
     QWE_LC_SETTLING_CANCEL_REQUESTED_KILL, QWE_LC_FAILED, QWE_LC_SKIPPED, QWE_LC_CANCELLED}"

definition lc_cancelling :: "qwe_lc_state set" where
  "lc_cancelling = {QWE_LC_SETTLING_CANCEL_REQUESTED_TERM, QWE_LC_SETTLING_CANCEL_REQUESTED_KILL,
     QWE_LC_CANCELLED}"

lemma lc_doomed_closed [rule_format]:
  "qwe_lc_lookup s e p = Inr r \<Longrightarrow> s \<in> lc_doomed \<longrightarrow> r_next r \<in> lc_doomed"
  by (rule lc_step_all [where P = "\<lambda>s e k q as t. s \<in> lc_doomed \<longrightarrow> t \<in> lc_doomed"], case_tac sa)
    (simp_all add: lc_eval lc_doomed_def)

lemma lc_doomed_enter [rule_format]:
  "qwe_lc_lookup s e p = Inr r \<Longrightarrow>
     r_kind r = QWE_LC_TRANSITION \<and>
     (e \<in> {QWE_LC_EV_CANCEL, QWE_LC_EV_JOB_TIMEOUT, QWE_LC_EV_START_FAILED, QWE_LC_EV_SKIP,
           QWE_LC_EV_NEEDS_FAILED}
      \<or> s = QWE_LC_STEP_RUNNING \<and> e \<in> {QWE_LC_EV_LEADER_EXIT_FAIL, QWE_LC_EV_STEP_TIMEOUT})
     \<longrightarrow> r_next r \<in> lc_doomed"
  by (rule lc_step_all [where P = "\<lambda>s e k q as t. k = QWE_LC_TRANSITION \<and>
     (e \<in> {QWE_LC_EV_CANCEL, QWE_LC_EV_JOB_TIMEOUT, QWE_LC_EV_START_FAILED, QWE_LC_EV_SKIP,
           QWE_LC_EV_NEEDS_FAILED}
      \<or> s = QWE_LC_STEP_RUNNING \<and> e \<in> {QWE_LC_EV_LEADER_EXIT_FAIL, QWE_LC_EV_STEP_TIMEOUT})
     \<longrightarrow> t \<in> lc_doomed"], case_tac sa)
    (simp_all add: lc_eval lc_doomed_def)

lemma lc_cancelling_step [rule_format]:
  "qwe_lc_lookup s e p = Inr r \<Longrightarrow>
     s \<in> lc_cancelling \<or> qwe_lc_state_is_running s \<and> e = QWE_LC_EV_CANCEL \<longrightarrow>
     r_next r \<in> lc_cancelling
     \<and> (QWE_LC_ACT_RECORD_JOB \<in> set (r_actions r) \<longrightarrow> r_reason_kind r = QWE_LC_REASON_CANCEL_REQUESTED)"
  by (rule lc_step_all [where P = "\<lambda>s e k q as t.
     s \<in> lc_cancelling \<or> qwe_lc_state_is_running s \<and> e = QWE_LC_EV_CANCEL \<longrightarrow>
     t \<in> lc_cancelling
     \<and> (QWE_LC_ACT_RECORD_JOB \<in> set as \<longrightarrow> q = QWE_LC_REASON_CANCEL_REQUESTED)"], case_tac sa)
    (simp_all add: lc_eval lc_cancelling_def)

lemma lc_record_step_source [rule_format]:
  "qwe_lc_lookup s e p = Inr r \<Longrightarrow>
     QWE_LC_ACT_RECORD_STEP \<in> set (r_actions r) \<longrightarrow>
     QWE_LC_STEP_RUNNING \<le> s \<and> s \<le> QWE_LC_STEP_KILLING_COE
     \<and> (e \<in> {QWE_LC_EV_CANCEL, QWE_LC_EV_JOB_TIMEOUT} \<longleftrightarrow>
          QWE_LC_SETTLING_CANCEL_TIMEOUT_TERM \<le> r_next r
          \<and> r_next r \<le> QWE_LC_SETTLING_CANCEL_REQUESTED_KILL)
     \<and> (e \<notin> {QWE_LC_EV_CANCEL, QWE_LC_EV_JOB_TIMEOUT} \<longrightarrow>
          r_reason_kind r =
            (if e = QWE_LC_EV_START_FAILED then QWE_LC_REASON_ENGINE_ERROR
             else if s \<notin> {QWE_LC_STEP_RUNNING, QWE_LC_STEP_RUNNING_COE} then QWE_LC_REASON_TIMEOUT
             else if e = QWE_LC_EV_LEADER_EXIT_OK then QWE_LC_REASON_NONE
             else QWE_LC_REASON_FROM_EVENT)
          \<and> e \<in> {QWE_LC_EV_START_FAILED, QWE_LC_EV_LEADER_EXIT_OK, QWE_LC_EV_LEADER_EXIT_FAIL})"
  by (rule lc_step_all [where P = "\<lambda>s e k q as t.
     QWE_LC_ACT_RECORD_STEP \<in> set as \<longrightarrow>
     QWE_LC_STEP_RUNNING \<le> s \<and> s \<le> QWE_LC_STEP_KILLING_COE
     \<and> (e \<in> {QWE_LC_EV_CANCEL, QWE_LC_EV_JOB_TIMEOUT} \<longleftrightarrow>
          QWE_LC_SETTLING_CANCEL_TIMEOUT_TERM \<le> t \<and> t \<le> QWE_LC_SETTLING_CANCEL_REQUESTED_KILL)
     \<and> (e \<notin> {QWE_LC_EV_CANCEL, QWE_LC_EV_JOB_TIMEOUT} \<longrightarrow>
          q = (if e = QWE_LC_EV_START_FAILED then QWE_LC_REASON_ENGINE_ERROR
             else if s \<notin> {QWE_LC_STEP_RUNNING, QWE_LC_STEP_RUNNING_COE} then QWE_LC_REASON_TIMEOUT
             else if e = QWE_LC_EV_LEADER_EXIT_OK then QWE_LC_REASON_NONE
             else QWE_LC_REASON_FROM_EVENT)
          \<and> e \<in> {QWE_LC_EV_START_FAILED, QWE_LC_EV_LEADER_EXIT_OK, QWE_LC_EV_LEADER_EXIT_FAIL})"],
      case_tac sa)
    (simp_all add: lc_eval)

lemma lc_reason_name_fixed:
  assumes "qwe_lc_lookup s e p = Inr r"
    and "r_reason_kind r \<notin> {QWE_LC_REASON_FROM_EVENT, QWE_LC_REASON_CARRIED}"
  shows "r_reason r = qwe_lc_reason_name (r_reason_kind r)"
  using assms(2) qwe_lc_lookup_Inr(5,6) [OF assms(1)] by auto

text \<open>
  Concrete runs for the witnesses: the events of a job with one step, sent one after another
  through the lookup.
\<close>

fun lc_exec :: "qwe_lc_state \<Rightarrow> (qwe_lc_event \<times> qwe_lc_payload) list \<Rightarrow> (lc_entry list \<times> qwe_lc_state) option"
where
  "lc_exec s [] = Some ([], s)"
| "lc_exec s ((e, p) # es) =
     (case qwe_lc_lookup s e p of
        Inl _ \<Rightarrow> None
      | Inr r \<Rightarrow> map_option (\<lambda>(tr, t). ((s, e, r) # tr, t)) (lc_exec (r_next r) es))"

lemma lc_trace_Cons:
  "lc_trace (r_next r) tr t \<Longrightarrow> qwe_lc_lookup s e p = Inr r \<Longrightarrow> lc_trace s ((s, e, r) # tr) t"
proof (induction rule: lc_trace.induct)
  case lc_start
  then show ?case using lc_event [OF lc_trace.lc_start [of s]] by simp
next
  case (lc_event tr s' e' p' r')
  then show ?case using lc_trace.lc_event [of s "(s, e, r) # tr"] by simp
qed

lemma lc_exec_trace: "lc_exec s es = Some (tr, t) \<Longrightarrow> lc_trace s tr t"
proof (induction s es arbitrary: tr t rule: lc_exec.induct)
  case (1 s)
  then show ?case by (auto intro: lc_start)
next
  case (2 s e p es)
  then show ?case by (auto split: sum.splits intro: lc_trace_Cons)
qed

abbreviation plain_pl :: qwe_lc_payload where
  "plain_pl \<equiv> \<lparr>pl_coe = False, pl_reason = Some ''exit-code'', pl_carried = None\<rparr>"

definition ok_events :: "(qwe_lc_event \<times> qwe_lc_payload) list" where
  "ok_events = map (\<lambda>e. (e, plain_pl))
     [QWE_LC_EV_NEEDS_MET, QWE_LC_EV_SLOT_GRANTED, QWE_LC_EV_NEXT_STEP, QWE_LC_EV_LEADER_EXIT_OK,
      QWE_LC_EV_GRACE_EXPIRED, QWE_LC_EV_GROUP_EMPTY, QWE_LC_EV_NO_MORE_STEPS]"

definition ok_run :: "lc_entry list" where
  "ok_run = fst (the (lc_exec QWE_LC_PENDING ok_events))"

lemma ok_run: "lc_trace QWE_LC_PENDING ok_run QWE_LC_SUCCESS"
  by (rule lc_exec_trace [of _ ok_events]) code_simp

section \<open>Properties\<close>

text \<open>C5. The table agrees with the independent event model: a lookup succeeds exactly for the
  events that can physically occur in the state, and aborts on every other one; no cell is left
  unclassified.\<close>

theorem lc_table_matches_model:
  "((\<exists>r. qwe_lc_lookup s e p = Inr r) \<longleftrightarrow> e \<in> qwe_lcm_events s)
   \<and> c_kind (qwe_lc_cell s e) \<noteq> QWE_LC_UNSET"
  by (simp add: qwe_lc_lookup_Inr_iff lc_cell_kind)

text \<open>C6. In every run of a job from pending: the job is recorded and ended exactly once, when
  it becomes final, and started at most once; every spawned step is recorded exactly once
  (unless it is the one in flight and undecided); each SIGTERM arms the grace timer once, there
  is at most one SIGTERM per spawned step and at most one SIGKILL per SIGTERM.\<close>

theorem lc_run_accounting:
  assumes "lc_trace QWE_LC_PENDING tr s"
  shows "count_list (lc_actions tr) QWE_LC_ACT_RECORD_JOB = (if qwe_lc_state_is_final s then 1 else 0)
    \<and> count_list (lc_actions tr) QWE_LC_ACT_END_JOB = (if qwe_lc_state_is_final s then 1 else 0)
    \<and> count_list (lc_actions tr) QWE_LC_ACT_START_JOB
        = (if s \<in> {QWE_LC_PENDING, QWE_LC_READY, QWE_LC_SKIPPED} then 0 else 1)
    \<and> count_list (lc_actions tr) QWE_LC_ACT_SPAWN_STEP
        = count_list (lc_actions tr) QWE_LC_ACT_RECORD_STEP
          + (if QWE_LC_STEP_RUNNING \<le> s \<and> s \<le> QWE_LC_STEP_KILLING_COE then 1 else 0)
    \<and> count_list (lc_actions tr) QWE_LC_ACT_ARM_GRACE
        = count_list (lc_actions tr) QWE_LC_ACT_SIGTERM_GROUP
    \<and> count_list (lc_actions tr) QWE_LC_ACT_SIGTERM_GROUP
        \<le> count_list (lc_actions tr) QWE_LC_ACT_SPAWN_STEP
    \<and> count_list (lc_actions tr) QWE_LC_ACT_SIGKILL_GROUP
        \<le> count_list (lc_actions tr) QWE_LC_ACT_SIGTERM_GROUP"
  using lc_trace_account [OF assms] unfolding lc_account_def by linarith

theorem lc_run_accounting_witness:
  "lc_trace QWE_LC_PENDING ok_run QWE_LC_SUCCESS
   \<and> count_list (lc_actions ok_run) QWE_LC_ACT_SIGKILL_GROUP
       \<le> count_list (lc_actions ok_run) QWE_LC_ACT_SIGTERM_GROUP
   \<and> count_list (lc_actions ok_run) QWE_LC_ACT_SPAWN_STEP = 1"
proof -
  have "count_list (lc_actions ok_run) QWE_LC_ACT_SPAWN_STEP = 1" by code_simp
  with ok_run lc_run_accounting [OF ok_run] show ?thesis by blast
qed

text \<open>C7. A job makes progress: the number of transitions of a run is at most three plus six
  for every step that was started, whatever the order of timeouts, cancels and exits.\<close>

theorem lc_run_bounded:
  assumes "lc_trace QWE_LC_PENDING tr s"
  shows "transitions tr \<le> 3 + 6 * next_steps tr"
  using lc_trace_potential [OF assms] by simp

theorem lc_run_bounded_witness:
  "lc_trace QWE_LC_PENDING ok_run QWE_LC_SUCCESS \<and> next_steps ok_run = 1 \<and> transitions ok_run \<le> 9"
proof -
  have "next_steps ok_run = 1" by code_simp
  with ok_run lc_run_bounded [OF ok_run] show ?thesis by simp
qed

text \<open>A cancel outranks everything: once a running job has been sent the operator's cancel,
  the only final state it can reach is cancelled, and the reason recorded for the job is
  cancel-requested.\<close>

lemma lc_cancel_wins:
  assumes tr: "lc_trace s0 (tr1 @ (s1, QWE_LC_EV_CANCEL, r1) # tr2) s"
    and run: "qwe_lc_state_is_running s1"
  shows "s \<in> {QWE_LC_SETTLING_CANCEL_REQUESTED_TERM, QWE_LC_SETTLING_CANCEL_REQUESTED_KILL,
              QWE_LC_CANCELLED}
    \<and> (\<forall>(s2, e2, r2) \<in> set ((s1, QWE_LC_EV_CANCEL, r1) # tr2).
         QWE_LC_ACT_RECORD_JOB \<in> set (r_actions r2) \<longrightarrow> r_reason r2 = Some ''cancel-requested'')"
proof -
  let ?Q = "\<lambda>s e r. QWE_LC_ACT_RECORD_JOB \<in> set (r_actions r) \<longrightarrow> r_reason r = Some ''cancel-requested''"
  have step: "r_next r \<in> lc_cancelling \<and> ?Q s e r"
    if "s \<in> lc_cancelling \<or> qwe_lc_state_is_running s \<and> e = QWE_LC_EV_CANCEL"
      and "qwe_lc_lookup s e p = Inr r" for s e p r
    using lc_cancelling_step [OF that(2,1)] lc_reason_name_fixed [OF that(2)] by auto
  from lc_trace_split [OF tr] obtain p where p: "qwe_lc_lookup s1 QWE_LC_EV_CANCEL p = Inr r1"
    and tr2: "lc_trace (r_next r1) tr2 s" by blast
  from step [OF _ p] run have first: "r_next r1 \<in> lc_cancelling" "?Q s1 QWE_LC_EV_CANCEL r1" by blast+
  have "s \<in> lc_cancelling \<and> (\<forall>(s, e, r) \<in> set tr2. ?Q s e r)"
    by (rule lc_trace_invariant [OF tr2 first(1)], rule step) auto
  with first(2) show ?thesis by (simp add: lc_cancelling_def)
qed

text \<open>A job that ends in success was never cancelled, timed out, skipped or refused a start,
  and no step without continue-on-error failed or timed out on the way.\<close>

lemma lc_success_is_clean:
  assumes tr: "lc_trace s0 tr QWE_LC_SUCCESS" and x: "(s1, e1, r1) \<in> set tr"
    and k: "r_kind r1 = QWE_LC_TRANSITION"
  shows "e1 \<notin> {QWE_LC_EV_CANCEL, QWE_LC_EV_JOB_TIMEOUT, QWE_LC_EV_START_FAILED, QWE_LC_EV_SKIP,
                QWE_LC_EV_NEEDS_FAILED}
    \<and> \<not> (s1 = QWE_LC_STEP_RUNNING \<and> e1 \<in> {QWE_LC_EV_LEADER_EXIT_FAIL, QWE_LC_EV_STEP_TIMEOUT})"
proof (rule ccontr)
  assume bad: "\<not> ?thesis"
  from x obtain tr1 tr2 where tr12: "tr = tr1 @ (s1, e1, r1) # tr2" by (auto simp: in_set_conv_decomp)
  from lc_trace_split [OF tr [unfolded tr12]] obtain p
    where p: "qwe_lc_lookup s1 e1 p = Inr r1" and tr2: "lc_trace (r_next r1) tr2 QWE_LC_SUCCESS"
    by blast
  from bad k have "r_next r1 \<in> lc_doomed" by (intro lc_doomed_enter [OF p]) blast
  from lc_trace_invariant [OF tr2 this, of "\<lambda>_ _ _. True"] have "QWE_LC_SUCCESS \<in> lc_doomed"
    by (blast intro: lc_doomed_closed)
  then show False by (simp add: lc_doomed_def)
qed

text \<open>The outcome recorded for a step: cancelled exactly when a cancel or the job's timeout
  decided it, success exactly when its leader exited with success while nothing was being torn
  down, and failed otherwise, with the reason timeout for a timed-out step whatever the leader's
  status was. (A leader-exit-fail event carries a reason.)\<close>

lemma lc_recorded_step_outcome:
  assumes "qwe_lc_lookup s e p = Inr r" and "QWE_LC_ACT_RECORD_STEP \<in> set (r_actions r)"
    and "pl_reason p \<noteq> None"
  shows "qwe_lc_step_outcome r =
           (if e \<in> {QWE_LC_EV_CANCEL, QWE_LC_EV_JOB_TIMEOUT} then ''cancelled''
            else if e = QWE_LC_EV_LEADER_EXIT_OK \<and> s \<in> {QWE_LC_STEP_RUNNING, QWE_LC_STEP_RUNNING_COE}
            then ''success'' else ''failed'')
    \<and> (e \<in> {QWE_LC_EV_LEADER_EXIT_OK, QWE_LC_EV_LEADER_EXIT_FAIL}
         \<and> s \<notin> {QWE_LC_STEP_RUNNING, QWE_LC_STEP_RUNNING_COE} \<longrightarrow> r_reason r = Some ''timeout'')"
  using lc_record_step_source [OF assms(1,2)] assms(3) qwe_lc_lookup_Inr(5,6) [OF assms(1)]
  by (auto simp: qwe_lc_step_outcome_def split: if_splits)

end
