(* ===== verification/Ring.thy ===== *)
theory Ring
  imports Qwe_Prelude
begin

text \<open>
  The byte ring between a job's pipe reader and its log sink (\<open>src/kernel/ring.h\<close>,
  \<open>ring.c\<close>), and the interface its client sees: a bounded queue that overwrites its oldest
  bytes and counts every byte it overwrites. The indices are those of the source, modulo the
  capacity; \<open>ring_contents\<close> reads the ring as the list of the bytes it holds, oldest first,
  and the operations are shown to be the queue operations on that list.
\<close>

section \<open>The ring\<close>

definition QWE_RING_CAPACITY :: nat where
  "QWE_RING_CAPACITY = 1024 * 1024"

record qwe_ring =
  rg_buf :: "byte list"
  rg_cap :: nat
  rg_head :: nat
  rg_len :: nat
  rg_dropped :: nat

text \<open>
  \<open>qwe_ring_init\<close>: \<open>mem\<close> is what \<open>malloc(cap)\<close> gave, \<open>None\<close> for NULL. The zeroed
  structure is \<open>ring_zero\<close>; a failed init and a freed ring are both it.
\<close>

definition ring_zero :: qwe_ring where
  "ring_zero = \<lparr>rg_buf = [], rg_cap = 0, rg_head = 0, rg_len = 0, rg_dropped = 0\<rparr>"

definition qwe_ring_init :: "byte list option \<Rightarrow> nat \<Rightarrow> qwe_ring option" where
  "qwe_ring_init mem cap =
     (case mem of None \<Rightarrow> None | Some b \<Rightarrow> Some (ring_zero\<lparr>rg_buf := b, rg_cap := cap\<rparr>))"

definition qwe_ring_free :: "qwe_ring \<Rightarrow> qwe_ring" where
  "qwe_ring_free r = ring_zero"

text \<open>The loop that stores \<open>p[i]\<close> at index \<open>(head + len + i) % cap\<close>, from \<open>i\<close> on.\<close>

fun ring_store :: "qwe_ring \<Rightarrow> nat \<Rightarrow> byte list \<Rightarrow> byte list \<Rightarrow> byte list" where
  "ring_store r i [] b = b"
| "ring_store r i (x # xs) b =
     ring_store r (Suc i) xs (b[(rg_head r + rg_len r + i) mod rg_cap r := x])"

definition qwe_ring_write :: "qwe_ring \<Rightarrow> byte list \<Rightarrow> qwe_ring" where
  "qwe_ring_write r data =
     (let n = length data;
          (r1, p) = (if n > rg_cap r
                     then (r\<lparr>rg_dropped := rg_dropped r + (n - rg_cap r)\<rparr>, drop (n - rg_cap r) data)
                     else (r, data));
          n1 = length p;
          r2 = (if rg_len r1 + n1 > rg_cap r1
                then let over = rg_len r1 + n1 - rg_cap r1 in
                     r1\<lparr>rg_head := (rg_head r1 + over) mod rg_cap r1,
                        rg_len := rg_len r1 - over,
                        rg_dropped := rg_dropped r1 + over\<rparr>
                else r1)
      in r2\<lparr>rg_buf := ring_store r2 0 p (rg_buf r2), rg_len := rg_len r2 + n1\<rparr>)"

definition qwe_ring_read :: "qwe_ring \<Rightarrow> nat \<Rightarrow> byte list \<times> qwe_ring" where
  "qwe_ring_read r n =
     (let n1 = (if n > rg_len r then rg_len r else n);
          out = map (\<lambda>i. rg_buf r ! ((rg_head r + i) mod rg_cap r)) [0..<n1]
      in (out, r\<lparr>rg_head := (rg_head r + n1) mod rg_cap r, rg_len := rg_len r - n1\<rparr>))"

section \<open>What the ring holds\<close>

definition ring_inv :: "qwe_ring \<Rightarrow> bool" where
  "ring_inv r \<longleftrightarrow> 0 < rg_cap r \<and> length (rg_buf r) = rg_cap r \<and> rg_head r < rg_cap r
     \<and> rg_len r \<le> rg_cap r"

definition ring_contents :: "qwe_ring \<Rightarrow> byte list" where
  "ring_contents r = map (\<lambda>i. rg_buf r ! ((rg_head r + i) mod rg_cap r)) [0..<rg_len r]"

lemma length_ring_contents [simp]: "length (ring_contents r) = rg_len r"
  by (simp add: ring_contents_def)

lemma mod_add_inj:
  fixes a i j c :: nat
  assumes "i < c" and "j < c" and "(a + i) mod c = (a + j) mod c"
  shows "i = j"
  using assms
proof (induction i j rule: linorder_wlog)
  case (le i j)
  then have "c dvd (a + j) - (a + i)" by (metis add_le_cancel_left mod_eq_dvd_iff_nat)
  moreover have "j - i < c" using le by linarith
  ultimately have "j - i = 0" by (auto dest: nat_dvd_not_less)
  with le show ?case by simp
qed simp

lemma ring_store_length [simp]: "length (ring_store r i xs b) = length b"
  by (induction r i xs b rule: ring_store.induct) auto

text \<open>
  What the store loop leaves in the buffer: the new bytes from \<open>len + i\<close> on, everything else
  untouched, provided the bytes fit.
\<close>

lemma ring_store_nth:
  assumes "0 < rg_cap r" and "length b = rg_cap r" and "rg_len r + i + length xs \<le> rg_cap r"
    and "k < rg_cap r"
  shows "ring_store r i xs b ! ((rg_head r + k) mod rg_cap r) =
    (if rg_len r + i \<le> k \<and> k < rg_len r + i + length xs then xs ! (k - (rg_len r + i))
     else b ! ((rg_head r + k) mod rg_cap r))"
  using assms
proof (induction r i xs b rule: ring_store.induct)
  case (1 r i b)
  then show ?case by auto
next
  case (2 r i x xs b)
  let ?at = "\<lambda>k. (rg_head r + k) mod rg_cap r"
  let ?b = "b[?at (rg_len r + i) := x]"
  have IH: "ring_store r (Suc i) xs ?b ! ?at k =
      (if rg_len r + Suc i \<le> k \<and> k < rg_len r + Suc i + length xs then xs ! (k - (rg_len r + Suc i))
       else ?b ! ?at k)"
    using "2.IH" "2.prems" by (simp add: add.assoc)
  show ?case
  proof (cases "k = rg_len r + i")
    case True
    then show ?thesis using IH "2.prems" by (simp add: add.assoc)
  next
    case False
    then have "?at k \<noteq> ?at (rg_len r + i)"
      using mod_add_inj [of k "rg_cap r" "rg_len r + i" "rg_head r"] "2.prems" by auto
    with False show ?thesis using IH by (auto simp: add.assoc nth_Cons' Suc_diff_le)
  qed
qed

lemma ring_store_contents:
  assumes "ring_inv r" and "rg_len r + length xs \<le> rg_cap r"
  shows "ring_contents (r\<lparr>rg_buf := ring_store r 0 xs (rg_buf r), rg_len := rg_len r + length xs\<rparr>)
    = ring_contents r @ xs"
proof (rule nth_equalityI)
  fix k
  assume "k < length (ring_contents (r\<lparr>rg_buf := ring_store r 0 xs (rg_buf r), rg_len := rg_len r + length xs\<rparr>))"
  with assms ring_store_nth [of r "rg_buf r" 0 xs k] show
    "ring_contents (r\<lparr>rg_buf := ring_store r 0 xs (rg_buf r), rg_len := rg_len r + length xs\<rparr>) ! k
     = (ring_contents r @ xs) ! k"
    by (auto simp: ring_contents_def ring_inv_def nth_append)
qed simp

lemma ring_advance:
  assumes "ring_inv r" and "k \<le> rg_len r"
  shows "ring_contents (r\<lparr>rg_head := (rg_head r + k) mod rg_cap r, rg_len := rg_len r - k\<rparr>)
    = drop k (ring_contents r)"
  using assms
  by (intro nth_equalityI)
    (auto simp: ring_contents_def ring_inv_def mod_add_left_eq add.assoc add.left_commute)

lemma ring_inv_advance:
  "ring_inv r \<Longrightarrow> k \<le> rg_len r \<Longrightarrow>
     ring_inv (r\<lparr>rg_head := (rg_head r + k) mod rg_cap r, rg_len := rg_len r - k, rg_dropped := d\<rparr>)"
  by (auto simp: ring_inv_def)

lemma ring_contents_dropped [simp]: "ring_contents (r\<lparr>rg_dropped := d\<rparr>) = ring_contents r"
  by (simp add: ring_contents_def)


lemma ring_write_small:
  assumes "ring_inv r" and "length xs \<le> rg_cap r"
  shows "ring_contents (qwe_ring_write r xs)
      = drop (rg_len r + length xs - rg_cap r) (ring_contents r @ xs)"
    and "rg_dropped (qwe_ring_write r xs) = rg_dropped r + (rg_len r + length xs - rg_cap r)"
    and "ring_inv (qwe_ring_write r xs)"
    and "rg_cap (qwe_ring_write r xs) = rg_cap r"
proof -
  define over where "over = rg_len r + length xs - rg_cap r"
  define r2 where "r2 = r\<lparr>rg_head := (rg_head r + over) mod rg_cap r, rg_len := rg_len r - over,
    rg_dropped := rg_dropped r + over\<rparr>"
  have over: "over \<le> rg_len r" using assms by (simp add: over_def)
  have inv2: "ring_inv r2" unfolding r2_def using assms(1) over by (rule ring_inv_advance)
  have fits: "rg_len r2 + length xs \<le> rg_cap r2"
    using assms by (auto simp: r2_def over_def)
  have c2: "ring_contents r2 = drop over (ring_contents r)"
    using ring_advance [OF assms(1) over] by (simp add: r2_def ring_contents_def)
  have w: "qwe_ring_write r xs =
      r2\<lparr>rg_buf := ring_store r2 0 xs (rg_buf r2), rg_len := rg_len r2 + length xs\<rparr>"
  proof (cases "rg_len r + length xs > rg_cap r")
    case True
    with assms(2) show ?thesis by (simp add: qwe_ring_write_def Let_def r2_def over_def)
  next
    case False
    then have "over = 0" by (simp add: over_def)
    with assms False have "r2 = r" by (simp add: r2_def ring_inv_def)
    with assms(2) False show ?thesis by (simp add: qwe_ring_write_def)
  qed
  show "ring_contents (qwe_ring_write r xs) = drop over (ring_contents r @ xs)"
    unfolding w ring_store_contents [OF inv2 fits] c2 using over by simp
  show "rg_dropped (qwe_ring_write r xs) = rg_dropped r + over"
    unfolding w by (simp add: r2_def)
  show "ring_inv (qwe_ring_write r xs)" "rg_cap (qwe_ring_write r xs) = rg_cap r"
    unfolding w using inv2 fits by (simp_all add: ring_inv_def r2_def)
qed

lemma ring_write_big:
  "rg_cap r < length xs \<Longrightarrow>
     qwe_ring_write r xs =
     qwe_ring_write (r\<lparr>rg_dropped := rg_dropped r + (length xs - rg_cap r)\<rparr>)
       (drop (length xs - rg_cap r) xs)"
  by (simp add: qwe_ring_write_def Let_def)

lemma ring_write:
  assumes "ring_inv r"
  shows "ring_contents (qwe_ring_write r xs)
      = drop (rg_len r + length xs - rg_cap r) (ring_contents r @ xs)"
    and "rg_dropped (qwe_ring_write r xs) = rg_dropped r + (rg_len r + length xs - rg_cap r)"
    and "ring_inv (qwe_ring_write r xs)"
    and "rg_cap (qwe_ring_write r xs) = rg_cap r"
proof -
  have "ring_contents (qwe_ring_write r xs)
      = drop (rg_len r + length xs - rg_cap r) (ring_contents r @ xs)
    \<and> rg_dropped (qwe_ring_write r xs) = rg_dropped r + (rg_len r + length xs - rg_cap r)
    \<and> ring_inv (qwe_ring_write r xs) \<and> rg_cap (qwe_ring_write r xs) = rg_cap r"
  proof (cases "length xs \<le> rg_cap r")
    case True
    with ring_write_small [OF assms] show ?thesis by simp
  next
    case False
    let ?r = "r\<lparr>rg_dropped := rg_dropped r + (length xs - rg_cap r)\<rparr>"
    let ?xs = "drop (length xs - rg_cap r) xs"
    have "ring_inv ?r" using assms by (simp add: ring_inv_def)
    moreover have "length ?xs \<le> rg_cap ?r" using False by simp
    ultimately have "ring_contents (qwe_ring_write ?r ?xs) = ?xs
      \<and> rg_dropped (qwe_ring_write ?r ?xs) = rg_dropped ?r + rg_len r
      \<and> ring_inv (qwe_ring_write ?r ?xs) \<and> rg_cap (qwe_ring_write ?r ?xs) = rg_cap r"
      using ring_write_small [of ?r ?xs] False by simp
    then show ?thesis
      using False assms ring_write_big [of r xs] by (auto simp: ring_inv_def)
  qed
  then show "ring_contents (qwe_ring_write r xs)
      = drop (rg_len r + length xs - rg_cap r) (ring_contents r @ xs)"
    and "rg_dropped (qwe_ring_write r xs) = rg_dropped r + (rg_len r + length xs - rg_cap r)"
    and "ring_inv (qwe_ring_write r xs)"
    and "rg_cap (qwe_ring_write r xs) = rg_cap r"
    by blast+
qed

lemma ring_read:
  assumes "ring_inv r"
  shows "fst (qwe_ring_read r n) = take n (ring_contents r)"
    and "ring_contents (snd (qwe_ring_read r n)) = drop n (ring_contents r)"
    and "ring_inv (snd (qwe_ring_read r n))"
    and "rg_dropped (snd (qwe_ring_read r n)) = rg_dropped r"
    and "rg_cap (snd (qwe_ring_read r n)) = rg_cap r"
proof -
  let ?k = "if n > rg_len r then rg_len r else n"
  have "fst (qwe_ring_read r n) = take ?k (ring_contents r)"
    by (auto simp: qwe_ring_read_def Let_def ring_contents_def take_map)
  then show "fst (qwe_ring_read r n) = take n (ring_contents r)" by (simp split: if_splits)
  have "ring_contents (snd (qwe_ring_read r n)) = drop ?k (ring_contents r)"
    using ring_advance [OF assms, of ?k] by (simp add: qwe_ring_read_def Let_def)
  then show "ring_contents (snd (qwe_ring_read r n)) = drop n (ring_contents r)"
    by (simp split: if_splits)
  show "ring_inv (snd (qwe_ring_read r n))" and "rg_dropped (snd (qwe_ring_read r n)) = rg_dropped r"
    and "rg_cap (snd (qwe_ring_read r n)) = rg_cap r"
    using assms by (auto simp: qwe_ring_read_def Let_def ring_inv_def)
qed

lemma ring_init:
  "length b = cap \<Longrightarrow> 0 < cap \<Longrightarrow> qwe_ring_init (Some b) cap = Some r \<Longrightarrow>
     ring_inv r \<and> ring_contents r = [] \<and> rg_dropped r = 0 \<and> rg_cap r = cap"
  by (auto simp: qwe_ring_init_def ring_zero_def ring_inv_def ring_contents_def)

section \<open>The interface\<close>

text \<open>
  What the output path relies on: a queue of at most \<open>capacity\<close> bytes that keeps the newest
  bytes and counts the others.
\<close>

locale counting_queue =
  fixes inv :: "'q \<Rightarrow> bool"
    and contents :: "'q \<Rightarrow> byte list"
    and dropped :: "'q \<Rightarrow> nat"
    and capacity :: "'q \<Rightarrow> nat"
    and enq :: "'q \<Rightarrow> byte list \<Rightarrow> 'q"
    and deq :: "'q \<Rightarrow> nat \<Rightarrow> byte list \<times> 'q"
  assumes enq_contents: "inv q \<Longrightarrow>
      contents (enq q xs) = drop (length (contents q) + length xs - capacity q) (contents q @ xs)"
    and enq_dropped: "inv q \<Longrightarrow>
      dropped (enq q xs) = dropped q + (length (contents q) + length xs - capacity q)"
    and enq_inv: "inv q \<Longrightarrow> inv (enq q xs) \<and> capacity (enq q xs) = capacity q"
    and deq_out: "inv q \<Longrightarrow> fst (deq q n) = take n (contents q)"
    and deq_contents: "inv q \<Longrightarrow> contents (snd (deq q n)) = drop n (contents q)"
    and deq_inv: "inv q \<Longrightarrow> inv (snd (deq q n)) \<and> capacity (snd (deq q n)) = capacity q
      \<and> dropped (snd (deq q n)) = dropped q"
    and contents_bound: "inv q \<Longrightarrow> length (contents q) \<le> capacity q"
begin

text \<open>Nothing is lost without being counted: over a write, what goes in is what stays or is counted.\<close>

lemma enq_conservation:
  "inv q \<Longrightarrow> length (contents (enq q xs)) + dropped (enq q xs)
     = length (contents q) + length xs + dropped q"
  by (simp add: enq_contents enq_dropped)

lemma enq_no_loss:
  "inv q \<Longrightarrow> length (contents q) + length xs \<le> capacity q \<Longrightarrow>
     contents (enq q xs) = contents q @ xs \<and> dropped (enq q xs) = dropped q"
  by (simp add: enq_contents enq_dropped)

text \<open>Reading by chunks of \<open>n\<close> until the queue is empty yields its contents in order.\<close>

lemma deq_progress: "inv q \<Longrightarrow> 0 < n \<Longrightarrow> contents q \<noteq> [] \<Longrightarrow>
    length (contents (snd (deq q n))) < length (contents q)"
  by (simp add: deq_contents)

lemma deq_split: "inv q \<Longrightarrow> fst (deq q n) @ contents (snd (deq q n)) = contents q"
  by (simp add: deq_out deq_contents)

end

interpretation ring: counting_queue ring_inv ring_contents rg_dropped rg_cap qwe_ring_write qwe_ring_read
  by unfold_locales (simp_all add: ring_write ring_read, simp add: ring_inv_def)

section \<open>Properties\<close>

text \<open>C8. Writing to the ring refines appending to a bounded queue: it then holds the last
  \<open>cap\<close> bytes of what it held followed by the new bytes, every byte that no longer fits is
  counted in \<open>dropped\<close>, and the index invariant is kept.\<close>

theorem ring_write_refines:
  assumes "ring_inv r"
  shows "ring_contents (qwe_ring_write r xs)
           = drop (rg_len r + length xs - rg_cap r) (ring_contents r @ xs)
    \<and> rg_dropped (qwe_ring_write r xs) = rg_dropped r + (rg_len r + length xs - rg_cap r)
    \<and> ring_inv (qwe_ring_write r xs) \<and> rg_cap (qwe_ring_write r xs) = rg_cap r"
  using ring.enq_contents [OF assms, of xs] ring.enq_dropped [OF assms, of xs]
    ring.enq_inv [OF assms, of xs] by simp

definition ring_ex :: qwe_ring where
  "ring_ex = qwe_ring_write (the (qwe_ring_init (Some ''....'') 4)) ''abc''"

theorem ring_write_refines_witness:
  "ring_inv ring_ex \<and> ring_contents (qwe_ring_write ring_ex ''de'') = ''bcde''
   \<and> rg_dropped (qwe_ring_write ring_ex ''de'') = 1"
proof -
  have "ring_inv ring_ex" and "rg_len ring_ex = 3" and "rg_cap ring_ex = 4" and "rg_dropped ring_ex = 0"
    and "ring_contents ring_ex = ''abc''"
    by code_simp+
  with ring_write_refines [of ring_ex "''de''"] show ?thesis by simp
qed

text \<open>Reading takes the oldest bytes, at most \<open>n\<close> and in order, and leaves the rest;
  nothing is counted as dropped by a read.\<close>

lemma ring_read_refines:
  assumes "ring_inv r"
  shows "fst (qwe_ring_read r n) = take n (ring_contents r)
    \<and> ring_contents (snd (qwe_ring_read r n)) = drop n (ring_contents r)
    \<and> ring_inv (snd (qwe_ring_read r n)) \<and> rg_dropped (snd (qwe_ring_read r n)) = rg_dropped r"
  using ring.deq_out [OF assms, of n] ring.deq_contents [OF assms, of n] ring.deq_inv [OF assms, of n]
  by simp

end
