(* ===== verification/Redact.thy ===== *)
theory Redact
  imports Qwe_Prelude "HOL-Library.Sublist"
begin

text \<open>
  Secret redaction at the output tee (\<open>src/kernel/redact.h\<close>, \<open>redact.c\<close>): the run's set of
  plaintext values, the growable output buffer and the streaming redactor that holds back a
  tail that could be the start of a value. Every allocation can fail: an allocator is a
  function \<open>ok\<close> on the number of the allocation, and the operations count the allocations
  they make, so \<open>ok\<close> says which of them return NULL.

  The specification is the tokenisation \<open>redact_toks\<close> of the input into masked secrets and
  plain bytes; the theorems say that the code's loop computes it, what it guarantees for every
  occurrence of a secret in the input, and when the result does not depend on how the stream
  was cut into reads.
\<close>

section \<open>The set of values\<close>

record secret_set =
  ss_vals :: "byte list list"
  ss_capset :: nat

definition qwe_redact_add ::
    "(nat \<Rightarrow> bool) \<Rightarrow> secret_set \<Rightarrow> byte list \<Rightarrow> nat \<Rightarrow> (secret_set \<times> nat) option" where
  "qwe_redact_add ok ss v k =
     (if length v = 0 then Some (ss, k)
      else if v \<in> set (ss_vals ss) then Some (ss, k)
      else let grow = (length (ss_vals ss) = ss_capset ss);
               k1 = (if grow then Suc k else k);
               cap = (if grow then (if ss_capset ss \<noteq> 0 then ss_capset ss * 2 else 16) else ss_capset ss)
           in if (grow \<longrightarrow> ok k) \<and> ok k1
              then Some (\<lparr>ss_vals = ss_vals ss @ [v], ss_capset = cap\<rparr>, Suc k1)
              else None)"

text \<open>Clearing zeroes every value before it is freed; the first component is the freed memory.\<close>

definition qwe_redact_clear :: "secret_set \<Rightarrow> byte list list \<times> secret_set" where
  "qwe_redact_clear ss =
     (map (\<lambda>v. replicate (length v) (CHR 0x00)) (ss_vals ss), ss\<lparr>ss_vals := []\<rparr>)"

section \<open>The output buffer\<close>

record qwe_redact_buf =
  rb_data :: "byte list"
  rb_cap :: nat

definition buf_empty :: qwe_redact_buf where
  "buf_empty = \<lparr>rb_data = [], rb_cap = 0\<rparr>"

definition qwe_redact_buf_free :: "qwe_redact_buf \<Rightarrow> qwe_redact_buf" where
  "qwe_redact_buf_free b = buf_empty"

definition buf_add ::
    "(nat \<Rightarrow> bool) \<Rightarrow> qwe_redact_buf \<Rightarrow> byte list \<Rightarrow> nat \<Rightarrow> bool \<times> qwe_redact_buf \<times> nat" where
  "buf_add ok b src k =
     (if length (rb_data b) + length src > rb_cap b
      then let cap = grow_cap (if rb_cap b \<noteq> 0 then rb_cap b else 4096)
                       (length (rb_data b) + length src)
           in if ok k then (True, \<lparr>rb_data = rb_data b @ src, rb_cap = cap\<rparr>, Suc k)
              else (False, b, Suc k)
      else (True, b\<lparr>rb_data := rb_data b @ src\<rparr>, k))"

section \<open>The redactor\<close>

definition MASK :: "byte list" where
  "MASK = ''***''"

record qwe_redactor =
  rd_held :: "byte list"
  rd_held_cap :: nat

definition redactor_zero :: qwe_redactor where
  "redactor_zero = \<lparr>rd_held = [], rd_held_cap = 0\<rparr>"

definition qwe_redactor_free :: "qwe_redactor \<Rightarrow> qwe_redactor" where
  "qwe_redactor_free r = redactor_zero"

text \<open>\<open>memcmp(p, v, len) == 0\<close> on buffers: the first \<open>len\<close> bytes agree.\<close>

primrec match_loop :: "byte list \<Rightarrow> byte list list \<Rightarrow> nat \<Rightarrow> nat" where
  "match_loop p [] best = best"
| "match_loop p (v # vs) best =
     match_loop p vs
       (if length v \<le> length p \<and> length v > best \<and> take (length v) p = v then length v else best)"

definition match_at :: "byte list list \<Rightarrow> byte list \<Rightarrow> nat" where
  "match_at vs p = match_loop p vs 0"

primrec could_start :: "byte list list \<Rightarrow> byte list \<Rightarrow> bool" where
  "could_start [] p = False"
| "could_start (v # vs) p =
     (if length v > length p \<and> take (length p) v = p then True else could_start vs p)"

function redact_loop ::
    "(nat \<Rightarrow> bool) \<Rightarrow> byte list list \<Rightarrow> byte list \<Rightarrow> qwe_redactor \<Rightarrow> qwe_redact_buf \<Rightarrow> nat
     \<Rightarrow> bool \<times> qwe_redactor \<times> qwe_redact_buf \<times> nat" where
  "redact_loop ok vs p r out k =
     (if p = [] then (True, r, out, k)
      else if match_at vs p > 0 then
        (case buf_add ok out MASK k of
           (False, out', k') \<Rightarrow> (False, r, out', k')
         | (True, out', k') \<Rightarrow> redact_loop ok vs (drop (match_at vs p) p) r out' k')
      else if could_start vs p then
        (if length p > rd_held_cap r
         then (if ok k then (True, r\<lparr>rd_held := p, rd_held_cap := length p\<rparr>, out, Suc k)
               else (False, r, out, Suc k))
         else (True, r\<lparr>rd_held := p\<rparr>, out, k))
      else
        (case buf_add ok out [hd p] k of
           (False, out', k') \<Rightarrow> (False, r, out', k')
         | (True, out', k') \<Rightarrow> redact_loop ok vs (tl p) r out' k'))"
  by pat_completeness auto
termination
  by (relation "measure (\<lambda>(ok, vs, p, r, out, k). length p)") auto

declare redact_loop.simps [simp del]

definition qwe_redact_feed ::
    "(nat \<Rightarrow> bool) \<Rightarrow> secret_set \<Rightarrow> qwe_redactor \<Rightarrow> byte list \<Rightarrow> qwe_redact_buf \<Rightarrow> nat
     \<Rightarrow> bool \<times> qwe_redactor \<times> qwe_redact_buf \<times> nat" where
  "qwe_redact_feed ok ss r input out k =
     (if ss_vals ss = [] \<and> rd_held r = []
      then (case buf_add ok out input k of (rc, out', k') \<Rightarrow> (rc, r, out', k'))
      else if \<not> ok k then (False, r, out, Suc k)
      else redact_loop ok (ss_vals ss) (rd_held r @ input) (r\<lparr>rd_held := []\<rparr>) out (Suc k))"

definition qwe_redact_flush ::
    "(nat \<Rightarrow> bool) \<Rightarrow> qwe_redactor \<Rightarrow> qwe_redact_buf \<Rightarrow> nat \<Rightarrow> bool \<times> qwe_redactor \<times> qwe_redact_buf \<times> nat"
where
  "qwe_redact_flush ok r out k =
     (case (if rd_held r \<noteq> [] then buf_add ok out (rd_held r) k else (True, out, k)) of
        (rc, out', k') \<Rightarrow> (rc, r\<lparr>rd_held := []\<rparr>, out', k'))"

section \<open>Matching\<close>

definition wf_vals :: "byte list list \<Rightarrow> bool" where
  "wf_vals vs \<longleftrightarrow> distinct vs \<and> [] \<notin> set vs"

lemma redact_add_wf:
  "wf_vals (ss_vals ss) \<Longrightarrow> qwe_redact_add ok ss v k = Some (ss', k') \<Longrightarrow>
     wf_vals (ss_vals ss') \<and> set (ss_vals ss') = set (ss_vals ss) \<union> (if v = [] then {} else {v})"
  by (auto simp: qwe_redact_add_def wf_vals_def Let_def split: if_splits)

lemma take_length_eq_prefix: "length v \<le> length p \<Longrightarrow> take (length v) p = v \<longleftrightarrow> prefix v p"
  by (metis append_eq_conv_conj prefix_def)

lemma match_loop_ge: "best \<le> match_loop p vs best"
proof (induction vs arbitrary: best)
  case (Cons v vs)
  have "best \<le> (if length v \<le> length p \<and> length v > best \<and> take (length v) p = v then length v else best)"
    by simp
  also have "\<dots> \<le> match_loop p (v # vs) best" using Cons.IH by simp
  finally show ?case .
qed simp

lemma match_loop_upper: "v \<in> set vs \<Longrightarrow> prefix v p \<Longrightarrow> length v \<le> match_loop p vs best"
proof (induction vs arbitrary: best)
  case (Cons w vs)
  show ?case
  proof (cases "v = w")
    case True
    have "length v \<le> (if length w \<le> length p \<and> length w > best \<and> take (length w) p = w
        then length w else best)"
      using Cons.prems(2) True prefix_length_le [of v p] by (auto simp: take_length_eq_prefix)
    then show ?thesis using match_loop_ge by (metis match_loop.simps(2) order_trans)
  next
    case False
    with Cons show ?thesis by simp
  qed
qed simp

lemma match_loop_hit:
  "match_loop p vs best = best \<or>
     (\<exists>v \<in> set vs. prefix v p \<and> match_loop p vs best = length v)"
proof (induction vs arbitrary: best)
  case (Cons v vs)
  from Cons.IH [of "length v"] Cons.IH [of best] show ?case
    by (auto simp: take_length_eq_prefix)
qed simp

lemma match_at_0_iff: "[] \<notin> set vs \<Longrightarrow> match_at vs p = 0 \<longleftrightarrow> (\<forall>v \<in> set vs. \<not> prefix v p)"
  unfolding match_at_def using match_loop_upper [of _ vs p 0] match_loop_hit [of p vs 0]
  by fastforce

lemma match_at_secret:
  assumes "match_at vs p > 0"
  shows "take (match_at vs p) p \<in> set vs" and "match_at vs p \<le> length p"
proof -
  from assms match_loop_hit [of p vs 0] obtain v
    where v: "v \<in> set vs" "prefix v p" "match_at vs p = length v"
    by (auto simp: match_at_def)
  then show "take (match_at vs p) p \<in> set vs" by (auto simp: prefix_def)
  from v show "match_at vs p \<le> length p" by (simp add: prefix_length_le)
qed

lemma strict_prefix_take: "length v > length p \<and> take (length p) v = p \<longleftrightarrow> strict_prefix p v"
proof
  assume h: "length v > length p \<and> take (length p) v = p"
  then have "prefix p v" by (metis take_is_prefix)
  with h show "strict_prefix p v" by (auto simp: strict_prefix_def)
qed (auto simp: strict_prefix_def prefix_def)

lemma could_start_iff: "could_start vs p \<longleftrightarrow> (\<exists>v \<in> set vs. strict_prefix p v)"
  by (induction vs) (auto simp: strict_prefix_take)

section \<open>Specification: tokens\<close>

datatype redact_tok = Plain byte | Masked "byte list"

primrec tok_src :: "redact_tok \<Rightarrow> byte list" where
  "tok_src (Plain b) = [b]"
| "tok_src (Masked v) = v"

primrec tok_out :: "redact_tok \<Rightarrow> byte list" where
  "tok_out (Plain b) = [b]"
| "tok_out (Masked v) = MASK"

function redact_toks :: "byte list list \<Rightarrow> byte list \<Rightarrow> redact_tok list \<times> byte list" where
  "redact_toks vs p =
     (if p = [] then ([], [])
      else if match_at vs p > 0 then
        apfst ((#) (Masked (take (match_at vs p) p))) (redact_toks vs (drop (match_at vs p) p))
      else if could_start vs p then ([], p)
      else apfst ((#) (Plain (hd p))) (redact_toks vs (tl p)))"
  by pat_completeness auto
termination
  by (relation "measure (\<lambda>(vs, p). length p)") auto

declare redact_toks.simps [simp del]

lemma redact_toks_simps:
  "redact_toks vs [] = ([], [])"
  "p \<noteq> [] \<Longrightarrow> match_at vs p > 0 \<Longrightarrow> redact_toks vs p =
     apfst ((#) (Masked (take (match_at vs p) p))) (redact_toks vs (drop (match_at vs p) p))"
  "p \<noteq> [] \<Longrightarrow> match_at vs p = 0 \<Longrightarrow> could_start vs p \<Longrightarrow> redact_toks vs p = ([], p)"
  "p \<noteq> [] \<Longrightarrow> match_at vs p = 0 \<Longrightarrow> \<not> could_start vs p \<Longrightarrow>
     redact_toks vs p = apfst ((#) (Plain (hd p))) (redact_toks vs (tl p))"
  by (simp_all add: redact_toks.simps [of vs p] redact_toks.simps [of vs "[]"])

text \<open>The induction the tokenisation follows, with the set of secrets fixed.\<close>

lemma redact_toks_induct [case_names Nil Match Hold Plain]:
  assumes "P []"
    and "\<And>p. p \<noteq> [] \<Longrightarrow> match_at vs p > 0 \<Longrightarrow> P (drop (match_at vs p) p) \<Longrightarrow> P p"
    and "\<And>p. p \<noteq> [] \<Longrightarrow> match_at vs p = 0 \<Longrightarrow> could_start vs p \<Longrightarrow> P p"
    and "\<And>p. p \<noteq> [] \<Longrightarrow> match_at vs p = 0 \<Longrightarrow> \<not> could_start vs p \<Longrightarrow> P (tl p) \<Longrightarrow> P p"
  shows "P p"
proof (induction p rule: length_induct)
  case (1 p)
  show ?case
  proof (cases "p = []")
    case False
    then have "match_at vs p > 0 \<Longrightarrow> P (drop (match_at vs p) p)" and "P (tl p)"
      using 1 by simp_all
    with False assms(2-4) show ?thesis by blast
  qed (simp add: assms(1))
qed

text \<open>The tokens and the held tail are the input; masked tokens are secrets; no secret starts at
  a plain byte; the held tail is a proper prefix of a secret.\<close>

lemma redact_toks_src: "concat (map tok_src (fst (redact_toks vs p))) @ snd (redact_toks vs p) = p"
proof (induction p rule: redact_toks_induct [of _ vs])
  case Nil
  show ?case by (simp add: redact_toks_simps(1))
next
  case (Match p)
  then show ?case by (simp add: redact_toks_simps(2) [OF Match(1,2)])
next
  case (Hold p)
  then show ?case by (simp add: redact_toks_simps(3) [OF Hold])
next
  case (Plain p)
  then show ?case by (simp add: redact_toks_simps(4) [OF Plain(1-3)])
qed

lemma redact_toks_held:
  "snd (redact_toks vs p) \<noteq> [] \<Longrightarrow> \<exists>v \<in> set vs. strict_prefix (snd (redact_toks vs p)) v"
proof (induction p rule: redact_toks_induct [of _ vs])
  case Nil
  then show ?case by (simp add: redact_toks_simps(1))
next
  case (Match p)
  then show ?case by (simp add: redact_toks_simps(2) [OF Match(1,2)])
next
  case (Hold p)
  then show ?case by (simp add: redact_toks_simps(3) [OF Hold(1-3)] could_start_iff)
next
  case (Plain p)
  then show ?case by (simp add: redact_toks_simps(4) [OF Plain(1-3)])
qed

lemma redact_toks_masked: "Masked v \<in> set (fst (redact_toks vs p)) \<Longrightarrow> v \<in> set vs"
proof (induction p rule: redact_toks_induct [of _ vs])
  case Nil
  then show ?case by (simp add: redact_toks_simps(1))
next
  case (Match p)
  then show ?case
    using match_at_secret(1) [OF Match(2)] by (auto simp: redact_toks_simps(2) [OF Match(1,2)])
next
  case (Hold p)
  then show ?case by (simp add: redact_toks_simps(3) [OF Hold(1-3)])
next
  case (Plain p)
  then show ?case by (simp add: redact_toks_simps(4) [OF Plain(1-3)])
qed

lemma redact_toks_plain:
  assumes "v \<in> set vs" and "[] \<notin> set vs"
  shows "fst (redact_toks vs p) = ts1 @ redact_tok.Plain b # ts2 \<Longrightarrow>
    \<not> prefix v (drop (length (concat (map tok_src ts1))) p)"
proof (induction p arbitrary: ts1 rule: redact_toks_induct [of _ vs])
  case Nil
  then show ?case by (simp add: redact_toks_simps(1))
next
  case (Match p)
  from Match.prems obtain ts where ts1: "ts1 = Masked (take (match_at vs p) p) # ts"
    and "fst (redact_toks vs (drop (match_at vs p) p)) = ts @ redact_tok.Plain b # ts2"
    by (cases ts1) (auto simp: redact_toks_simps(2) [OF Match(1,2)])
  with Match.IH [of ts] match_at_secret(2) [OF Match(2)] show ?case
    by (simp add: ts1 add.commute)
next
  case (Hold p)
  then show ?case by (simp add: redact_toks_simps(3) [OF Hold(1-3)])
next
  case (Plain p)
  show ?case
  proof (cases ts1)
    case Nil
    with Plain(2) assms show ?thesis by (simp add: match_at_0_iff)
  next
    case (Cons t ts)
    with Plain.prems have "t = redact_tok.Plain (hd p)"
      and "fst (redact_toks vs (tl p)) = ts @ redact_tok.Plain b # ts2"
      by (auto simp: redact_toks_simps(4) [OF Plain(1-3)])
    with Plain.IH [of ts] Plain(1) show ?thesis by (cases p) (simp_all add: Cons)
  qed
qed

lemma redact_toks_plain_rest:
  assumes "v \<in> set vs" and "[] \<notin> set vs"
    and t: "fst (redact_toks vs p) = ts1 @ redact_tok.Plain b # ts2"
  shows "\<not> prefix v (b # concat (map tok_src ts2) @ snd (redact_toks vs p))"
proof -
  have "p = concat (map tok_src ts1) @ b # concat (map tok_src ts2) @ snd (redact_toks vs p)"
    using redact_toks_src [of vs p] t by simp
  then have "drop (length (concat (map tok_src ts1))) p = b # concat (map tok_src ts2) @ snd (redact_toks vs p)"
    by (metis append_eq_conv_conj)
  with redact_toks_plain [OF assms] show ?thesis by simp
qed

text \<open>A held tail is held again when nothing follows it.\<close>

lemma redact_toks_snd_held:
  "redact_toks vs (snd (redact_toks vs p)) = ([], snd (redact_toks vs p))"
proof (induction p rule: redact_toks_induct [of _ vs])
  case Nil
  then show ?case by (simp add: redact_toks_simps(1))
next
  case (Match p)
  then show ?case by (simp add: redact_toks_simps(2) [OF Match(1,2)])
next
  case (Hold p)
  then show ?case by (simp add: redact_toks_simps(3) [OF Hold(1-3)])
next
  case (Plain p)
  then show ?case by (simp add: redact_toks_simps(4) [OF Plain(1-3)])
qed

text \<open>With no value a proper prefix of another, the tokens of a stream do not depend on where it is cut.\<close>

definition prefix_free :: "byte list list \<Rightarrow> bool" where
  "prefix_free vs \<longleftrightarrow> (\<forall>u \<in> set vs. \<forall>v \<in> set vs. prefix u v \<longrightarrow> u = v)"

text \<open>No value occurs inside a proper prefix of another.\<close>

definition inner_free :: "byte list list \<Rightarrow> bool" where
  "inner_free vs \<longleftrightarrow> (\<forall>u \<in> set vs. \<forall>v \<in> set vs. \<not> sublist u (butlast v))"

lemma inner_freeD:
  assumes "inner_free vs" "u \<in> set vs" "v \<in> set vs" "strict_prefix h v"
  shows "\<not> sublist u h"
proof -
  from assms(4) have "prefix h (butlast v)"
    by (metis strict_prefix_def prefix_order.less_irrefl prefix_snoc append_butlast_last_id butlast.simps(1) prefix_bot.bot_least prefix_bot.bot_unique)
  then show ?thesis using assms(1-3) sublist_order.order_trans unfolding inner_free_def
    by (metis prefix_imp_sublist)
qed

lemma prefix_freeD: "prefix_free vs \<Longrightarrow> u \<in> set vs \<Longrightarrow> v \<in> set vs \<Longrightarrow> prefix u v \<Longrightarrow> u = v"
  by (simp add: prefix_free_def)

lemma match_at_append:
  assumes "prefix_free vs" and "match_at vs p > 0"
  shows "match_at vs (p @ q) = match_at vs p"
proof -
  have u: "take (match_at vs p) p \<in> set vs" "prefix (take (match_at vs p) p) (p @ q)"
    using match_at_secret [OF assms(2)] by (auto simp: prefix_def intro: exI [of _ "drop (match_at vs p) p @ q"])
  then have "match_at vs (p @ q) > 0"
    using match_loop_upper [OF u, of 0] match_at_secret(2) [OF assms(2)] assms(2)
    by (simp add: match_at_def)
  from match_at_secret [OF this] have v: "take (match_at vs (p @ q)) (p @ q) \<in> set vs"
    and len: "match_at vs (p @ q) \<le> length (p @ q)" by simp_all
  have "prefix (take (match_at vs p) p) (take (match_at vs (p @ q)) (p @ q))
      \<or> prefix (take (match_at vs (p @ q)) (p @ q)) (take (match_at vs p) p)"
    using prefix_same_cases [OF u(2) take_is_prefix] by blast
  then have "take (match_at vs p) p = take (match_at vs (p @ q)) (p @ q)"
    by (rule disjE) (use prefix_freeD [OF assms(1)] u(1) v in \<open>metis+\<close>)
  then have "length (take (match_at vs p) p) = length (take (match_at vs (p @ q)) (p @ q))"
    by (rule arg_cong)
  then show ?thesis
    using len match_at_secret(2) [OF assms(2)] by simp
qed

lemma apfst_cons_append: "apfst ((#) t) (apfst ((@) ts) z) = apfst ((@) (t # ts)) z"
  by (cases z) simp

lemma redact_toks_append:
  assumes "prefix_free vs" and "[] \<notin> set vs"
  shows "redact_toks vs (p @ q) =
    (case redact_toks vs p of (ts, h) \<Rightarrow> apfst ((@) ts) (redact_toks vs (h @ q)))"
proof (induction p rule: redact_toks_induct [of _ vs])
  case Nil
  show ?case by (simp add: redact_toks_simps(1) apfst_def map_prod_def)
next
  case (Match p)
  have "redact_toks vs (p @ q) = apfst ((#) (Masked (take (match_at vs p) p)))
      (redact_toks vs (drop (match_at vs p) p @ q))"
    using redact_toks_simps(2) [of "p @ q" vs] Match(1,2) match_at_append [OF assms(1) Match(2), of q]
      match_at_secret(2) [OF Match(2)] by simp
  with Match.IH show ?case
    by (simp add: redact_toks_simps(2) [OF Match(1,2)] split_beta apfst_cons_append)
next
  case (Hold p)
  then show ?case
    by (cases "redact_toks vs (p @ q)") (simp add: redact_toks_simps(3) [OF Hold])
next
  case (Plain p)
  have no: "\<not> prefix v (p @ q)" if "v \<in> set vs" for v
  proof
    assume "prefix v (p @ q)"
    with prefix_same_cases [OF this, of p] have "prefix v p \<or> strict_prefix p v"
      by (auto simp: strict_prefix_def)
    with that Plain(2,3) assms(2) show False by (auto simp: match_at_0_iff could_start_iff)
  qed
  have "match_at vs (p @ q) = 0" using no assms(2) by (simp add: match_at_0_iff)
  moreover have "\<not> could_start vs (p @ q)"
    using Plain(3) by (auto simp: could_start_iff strict_prefix_def dest: append_prefixD)
  ultimately have "redact_toks vs (p @ q) = apfst ((#) (redact_tok.Plain (hd p))) (redact_toks vs (tl p @ q))"
    using redact_toks_simps(4) [of "p @ q" vs] Plain(1) by simp
  with Plain.IH show ?case
    by (simp add: redact_toks_simps(4) [OF Plain(1-3)] split_beta apfst_cons_append)
qed

section \<open>The code computes the specification\<close>

lemma buf_add_True: "buf_add ok b src k = (True, b', k') \<Longrightarrow> rb_data b' = rb_data b @ src"
  by (auto simp: buf_add_def Let_def split: if_splits)

lemma buf_add_ok: "fst (buf_add (\<lambda>_. True) b src k)"
  by (simp add: buf_add_def Let_def)

lemma buf_add_cap: "rb_cap b \<ge> length (rb_data b) \<Longrightarrow> buf_add ok b src k = (rc, b', k') \<Longrightarrow>
    rb_cap b' \<ge> length (rb_data b')"
  using grow_cap_ge [of "if rb_cap b \<noteq> 0 then rb_cap b else 4096" "length (rb_data b) + length src"]
  by (auto simp: buf_add_def Let_def split: if_splits)

lemma redact_loop_simps:
  "redact_loop ok vs [] r out k = (True, r, out, k)"
  "p \<noteq> [] \<Longrightarrow> match_at vs p > 0 \<Longrightarrow> redact_loop ok vs p r out k =
     (case buf_add ok out MASK k of (rc, out', k') \<Rightarrow>
        if rc then redact_loop ok vs (drop (match_at vs p) p) r out' k' else (False, r, out', k'))"
  "p \<noteq> [] \<Longrightarrow> match_at vs p = 0 \<Longrightarrow> could_start vs p \<Longrightarrow> redact_loop ok vs p r out k =
     (if length p > rd_held_cap r
      then (if ok k then (True, r\<lparr>rd_held := p, rd_held_cap := length p\<rparr>, out, Suc k)
            else (False, r, out, Suc k))
      else (True, r\<lparr>rd_held := p\<rparr>, out, k))"
  "p \<noteq> [] \<Longrightarrow> match_at vs p = 0 \<Longrightarrow> \<not> could_start vs p \<Longrightarrow> redact_loop ok vs p r out k =
     (case buf_add ok out [hd p] k of (rc, out', k') \<Rightarrow>
        if rc then redact_loop ok vs (tl p) r out' k' else (False, r, out', k'))"
  by (subst redact_loop.simps, simp split: prod.splits bool.splits)+

lemma redact_loop_toks:
  "redact_loop ok vs p r out k = (True, r', out', k') \<Longrightarrow> rd_held r = [] \<Longrightarrow>
     rb_data out' = rb_data out @ concat (map tok_out (fst (redact_toks vs p)))
     \<and> rd_held r' = snd (redact_toks vs p)"
proof (induction p arbitrary: out k rule: redact_toks_induct [of _ vs])
  case Nil
  then show ?case by (simp add: redact_loop_simps(1) redact_toks_simps(1))
next
  case (Match p)
  from Match.prems obtain o1 k1 where "buf_add ok out MASK k = (True, o1, k1)"
    and "redact_loop ok vs (drop (match_at vs p) p) r o1 k1 = (True, r', out', k')"
    by (auto simp: redact_loop_simps(2) [OF Match(1,2)] split: prod.splits if_splits)
  with Match.IH [OF this(2)] Match.prems(2) show ?case
    by (simp add: redact_toks_simps(2) [OF Match(1,2)] buf_add_True)
next
  case (Hold p)
  then show ?case
    by (auto simp: redact_loop_simps(3) [OF Hold(1-3)] redact_toks_simps(3) [OF Hold(1-3)] split: if_splits)
next
  case (Plain p)
  from Plain.prems obtain o1 k1 where "buf_add ok out [hd p] k = (True, o1, k1)"
    and "redact_loop ok vs (tl p) r o1 k1 = (True, r', out', k')"
    by (auto simp: redact_loop_simps(4) [OF Plain(1-3)] split: prod.splits if_splits)
  with Plain.IH [OF this(2)] Plain.prems(2) show ?case
    by (simp add: redact_toks_simps(4) [OF Plain(1-3)] buf_add_True)
qed

lemma redact_loop_ok: "fst (redact_loop (\<lambda>_. True) vs p r out k)"
proof (induction p arbitrary: out k rule: redact_toks_induct [of _ vs])
  case Nil
  show ?case by (simp add: redact_loop_simps(1))
next
  case (Match p)
  then show ?case using buf_add_ok [of out MASK k]
    by (auto simp: redact_loop_simps(2) [OF Match(1,2)] split: prod.splits)
next
  case (Hold p)
  then show ?case by (simp add: redact_loop_simps(3))
next
  case (Plain p)
  then show ?case using buf_add_ok [of out "[hd p]" k]
    by (auto simp: redact_loop_simps(4) [OF Plain(1-3)] split: prod.splits)
qed

lemma redact_toks_no_secrets: "redact_toks [] p = (map redact_tok.Plain p, [])"
  by (induction p) (simp_all add: redact_toks.simps [of "[]"] match_at_def)

lemma concat_plain [simp]: "concat (map (tok_out \<circ> redact_tok.Plain) p) = p"
  by (induction p) simp_all

lemma redact_feed_toks:
  assumes "qwe_redact_feed ok ss r input out k = (True, r', out', k')"
  shows "rb_data out' = rb_data out @ concat (map tok_out (fst (redact_toks (ss_vals ss) (rd_held r @ input))))"
    and "rd_held r' = snd (redact_toks (ss_vals ss) (rd_held r @ input))"
proof -
  have "rb_data out' = rb_data out @ concat (map tok_out (fst (redact_toks (ss_vals ss) (rd_held r @ input))))
     \<and> rd_held r' = snd (redact_toks (ss_vals ss) (rd_held r @ input))"
  proof (cases "ss_vals ss = [] \<and> rd_held r = []")
    case True
    with assms show ?thesis
      by (auto simp: qwe_redact_feed_def redact_toks_no_secrets split: prod.splits dest: buf_add_True)
  next
    case False
    with assms have "redact_loop ok (ss_vals ss) (rd_held r @ input) (r\<lparr>rd_held := []\<rparr>) out (Suc k)
        = (True, r', out', k')"
      by (auto simp: qwe_redact_feed_def split: if_splits)
    from redact_loop_toks [OF this] show ?thesis by simp
  qed
  then show "rb_data out' = rb_data out @ concat (map tok_out (fst (redact_toks (ss_vals ss) (rd_held r @ input))))"
    and "rd_held r' = snd (redact_toks (ss_vals ss) (rd_held r @ input))" by simp_all
qed

text \<open>A failed feed has emitted the masked form of some of the tokens and nothing else.\<close>

lemma redact_loop_partial:
  "redact_loop ok vs p r out k = (rc, r', out', k') \<Longrightarrow>
     \<exists>n. rb_data out' = rb_data out @ concat (map tok_out (take n (fst (redact_toks vs p))))"
proof (induction p arbitrary: out k rule: redact_toks_induct [of _ vs])
  case Nil
  then show ?case by (simp add: redact_loop_simps(1) redact_toks_simps(1))
next
  case (Match p)
  show ?case
  proof (cases "fst (buf_add ok out MASK k)")
    case True
    then obtain o1 k1 where b: "buf_add ok out MASK k = (True, o1, k1)" by (cases "buf_add ok out MASK k") simp
    with Match.prems have "redact_loop ok vs (drop (match_at vs p) p) r o1 k1 = (rc, r', out', k')"
      by (simp add: redact_loop_simps(2) [OF Match(1,2)])
    from Match.IH [OF this] obtain n where
      "rb_data out' = rb_data o1 @ concat (map tok_out (take n (fst (redact_toks vs (drop (match_at vs p) p)))))" ..
    with buf_add_True [OF b] show ?thesis
      by (intro exI [of _ "Suc n"]) (simp add: redact_toks_simps(2) [OF Match(1,2)])
  next
    case False
    with Match.prems show ?thesis
      by (intro exI [of _ 0])
        (auto simp: redact_loop_simps(2) [OF Match(1,2)] buf_add_def Let_def split: prod.splits if_splits)
  qed
next
  case (Hold p)
  then show ?case by (intro exI [of _ 0]) (auto simp: redact_loop_simps(3) [OF Hold(1-3)] split: if_splits)
next
  case (Plain p)
  show ?case
  proof (cases "fst (buf_add ok out [hd p] k)")
    case True
    then obtain o1 k1 where b: "buf_add ok out [hd p] k = (True, o1, k1)" by (cases "buf_add ok out [hd p] k") simp
    with Plain.prems have "redact_loop ok vs (tl p) r o1 k1 = (rc, r', out', k')"
      by (simp add: redact_loop_simps(4) [OF Plain(1-3)])
    from Plain.IH [OF this] obtain n where
      "rb_data out' = rb_data o1 @ concat (map tok_out (take n (fst (redact_toks vs (tl p)))))" ..
    with buf_add_True [OF b] show ?thesis
      by (intro exI [of _ "Suc n"]) (simp add: redact_toks_simps(4) [OF Plain(1-3)])
  next
    case False
    with Plain.prems show ?thesis
      by (intro exI [of _ 0])
        (auto simp: redact_loop_simps(4) [OF Plain(1-3)] buf_add_def Let_def split: prod.splits if_splits)
  qed
qed

lemma redact_feed_failed:
  assumes "qwe_redact_feed ok ss r input out k = (False, r', out', k')"
  shows "\<exists>n. rb_data out' = rb_data out @
    concat (map tok_out (take n (fst (redact_toks (ss_vals ss) (rd_held r @ input)))))"
proof (cases "(ss_vals ss = [] \<and> rd_held r = []) \<or> \<not> ok k")
  case True
  with assms show ?thesis
    by (intro exI [of _ 0])
      (auto simp: qwe_redact_feed_def buf_add_def Let_def split: prod.splits if_splits)
next
  case False
  with assms redact_loop_partial show ?thesis by (auto simp: qwe_redact_feed_def split: if_splits)
qed

section \<open>A stream fed in reads\<close>

text \<open>What a step's stream goes through: one feed per read, then the flush at end of file.\<close>

primrec feed_all ::
    "(nat \<Rightarrow> bool) \<Rightarrow> secret_set \<Rightarrow> qwe_redactor \<Rightarrow> byte list list \<Rightarrow> qwe_redact_buf \<Rightarrow> nat
     \<Rightarrow> bool \<times> qwe_redactor \<times> qwe_redact_buf \<times> nat" where
  "feed_all ok ss r [] out k = (True, r, out, k)"
| "feed_all ok ss r (c # cs) out k =
     (case qwe_redact_feed ok ss r c out k of (rc, r', out', k') \<Rightarrow>
        if rc then feed_all ok ss r' cs out' k' else (False, r', out', k'))"

definition redact_stream ::
    "(nat \<Rightarrow> bool) \<Rightarrow> secret_set \<Rightarrow> byte list list \<Rightarrow> byte list option" where
  "redact_stream ok ss reads =
     (case feed_all ok ss redactor_zero reads buf_empty 0 of (rc, r, out, k) \<Rightarrow>
        if rc then (case qwe_redact_flush ok r out k of (rc2, r2, out2, k2) \<Rightarrow>
                      if rc2 then Some (rb_data out2) else None)
        else None)"

lemma feed_all_toks:
  assumes "prefix_free (ss_vals ss)" and "[] \<notin> set (ss_vals ss)"
  shows "feed_all ok ss r reads out k = (True, r', out', k') \<Longrightarrow>
     redact_toks (ss_vals ss) (rd_held r) = ([], rd_held r) \<Longrightarrow>
     rb_data out' = rb_data out @
       concat (map tok_out (fst (redact_toks (ss_vals ss) (rd_held r @ concat reads))))
     \<and> rd_held r' = snd (redact_toks (ss_vals ss) (rd_held r @ concat reads))"
proof (induction reads arbitrary: r out k)
  case Nil
  then show ?case by simp
next
  case (Cons c cs)
  from Cons.prems(1) obtain r1 o1 k1
    where f: "qwe_redact_feed ok ss r c out k = (True, r1, o1, k1)"
      and rest: "feed_all ok ss r1 cs o1 k1 = (True, r', out', k')"
    by (auto split: prod.splits if_splits)
  have h: "redact_toks (ss_vals ss) (rd_held r1) = ([], rd_held r1)"
    using redact_feed_toks(2) [OF f] redact_toks_snd_held by simp
  show ?case
    using Cons.IH [OF rest h] redact_feed_toks [OF f]
      redact_toks_append [OF assms, of "rd_held r @ c" "concat cs"]
    by (cases "redact_toks (ss_vals ss) (rd_held r @ c)") simp
qed

lemma redact_flush_data:
  "qwe_redact_flush ok r out k = (True, r', out', k') \<Longrightarrow> rb_data out' = rb_data out @ rd_held r"
  by (auto simp: qwe_redact_flush_def split: prod.splits if_splits dest: buf_add_True)

lemma redact_stream_toks:
  assumes "prefix_free (ss_vals ss)" and "[] \<notin> set (ss_vals ss)"
    and "redact_stream ok ss reads = Some res"
  shows "res = concat (map tok_out (fst (redact_toks (ss_vals ss) (concat reads)))) @
    snd (redact_toks (ss_vals ss) (concat reads))"
proof -
  from assms(3) obtain r out k r2 out2 k2
    where f: "feed_all ok ss redactor_zero reads buf_empty 0 = (True, r, out, k)"
      and g: "qwe_redact_flush ok r out k = (True, r2, out2, k2)" and res: "res = rb_data out2"
    by (auto simp: redact_stream_def split: prod.splits if_splits)
  from feed_all_toks [OF assms(1,2) f] redact_flush_data [OF g] res show ?thesis
    by (simp add: redactor_zero_def buf_empty_def redact_toks_simps(1))
qed

lemma redact_feed_ok: "fst (qwe_redact_feed (\<lambda>_. True) ss r input out k)"
  using redact_loop_ok buf_add_ok [of out input k]
  by (auto simp: qwe_redact_feed_def split: prod.splits)

lemma feed_all_ok: "fst (feed_all (\<lambda>_. True) ss r reads out k)"
proof (induction reads arbitrary: r out k)
  case (Cons c cs)
  then show ?case using redact_feed_ok [of ss r c out k]
    by (cases "qwe_redact_feed (\<lambda>_. True) ss r c out k") simp
qed simp

lemma redact_flush_ok: "fst (qwe_redact_flush (\<lambda>_. True) r out k)"
  using buf_add_ok [of out "rd_held r" k] by (auto simp: qwe_redact_flush_def split: prod.splits)

lemma redact_stream_ok: "redact_stream (\<lambda>_. True) ss reads \<noteq> None"
proof -
  obtain r out k where f: "feed_all (\<lambda>_. True) ss redactor_zero reads buf_empty 0 = (True, r, out, k)"
    using feed_all_ok [of ss redactor_zero reads buf_empty 0]
    by (cases "feed_all (\<lambda>_. True) ss redactor_zero reads buf_empty 0") simp
  with redact_flush_ok [of r out k] show ?thesis by (auto simp: redact_stream_def split: prod.splits)
qed

text \<open>With an allocator that never fails, a stream of one or two reads by its tokens.\<close>

lemma match_at_self: "[] \<notin> set vs \<Longrightarrow> v \<in> set vs \<Longrightarrow> match_at vs v = length v"
proof -
  assume ne: "[] \<notin> set vs" and v: "v \<in> set vs"
  have "length v \<le> match_at vs v" unfolding match_at_def by (rule match_loop_upper [OF v]) simp
  moreover have "match_at vs v \<le> length v"
    using match_loop_hit [of v vs 0] unfolding match_at_def by (auto dest: prefix_length_le)
  ultimately show ?thesis by simp
qed

lemma redact_toks_value: "[] \<notin> set vs \<Longrightarrow> v \<in> set vs \<Longrightarrow> redact_toks vs v = ([Masked v], [])"
  using match_at_self [of vs v] by (cases "v = []") (auto simp: redact_toks_simps(1,2))

lemma stream_feeds:
  assumes "redact_stream (\<lambda>_. True) ss [a] = Some res"
  shows "res = concat (map tok_out (fst (redact_toks (ss_vals ss) a))) @ snd (redact_toks (ss_vals ss) a)"
proof -
  from assms obtain r out k r2 out2 k2 where
    f: "qwe_redact_feed (\<lambda>_. True) ss redactor_zero a buf_empty 0 = (True, r, out, k)"
    and g: "qwe_redact_flush (\<lambda>_. True) r out k = (True, r2, out2, k2)" "res = rb_data out2"
    by (auto simp: redact_stream_def split: prod.splits if_splits)
  from redact_feed_toks [OF f] redact_flush_data [OF g(1)] g(2) show ?thesis by (simp add: redactor_zero_def buf_empty_def)
qed

lemma stream_feeds_two:
  assumes "redact_stream (\<lambda>_. True) ss [a, b] = Some res" "redact_toks (ss_vals ss) a = (ts, [])"
  shows "res = concat (map tok_out ts) @ concat (map tok_out (fst (redact_toks (ss_vals ss) b))) @ snd (redact_toks (ss_vals ss) b)"
proof -
  from assms(1) obtain r out k r1 out1 k1 r2 out2 k2 where
    f: "qwe_redact_feed (\<lambda>_. True) ss redactor_zero a buf_empty 0 = (True, r, out, k)"
      "qwe_redact_feed (\<lambda>_. True) ss r b out k = (True, r1, out1, k1)"
    and g: "qwe_redact_flush (\<lambda>_. True) r1 out1 k1 = (True, r2, out2, k2)" "res = rb_data out2"
    by (auto simp: redact_stream_def split: prod.splits if_splits)
  from redact_feed_toks [OF f(1)] redact_feed_toks [OF f(2)] redact_flush_data [OF g(1)] g(2) assms(2) show ?thesis
    by (simp add: redactor_zero_def buf_empty_def)
qed

lemma toks_not_nothing:
  assumes "p \<noteq> []"
  shows "concat (map tok_out (fst (redact_toks vs p))) @ snd (redact_toks vs p) \<noteq> []"
proof -
  have "fst (redact_toks vs p) \<noteq> [] \<or> snd (redact_toks vs p) \<noteq> []" using redact_toks_src [of vs p] assms by auto
  moreover have "tok_out t \<noteq> []" for t by (cases t) (simp_all add: MASK_def)
  ultimately show ?thesis by (cases "fst (redact_toks vs p)") auto
qed

lemma prefix_clash_shows:
  assumes "[] \<notin> set (ss_vals ss)" "u \<in> set (ss_vals ss)" "v \<in> set (ss_vals ss)" "strict_prefix u v"
  shows "\<exists>reads. concat reads = v \<and> redact_stream (\<lambda>_. True) ss reads \<noteq> redact_stream (\<lambda>_. True) ss [v]"
proof -
  obtain b where b: "v = u @ b" "b \<noteq> []" using assms(4) by (auto simp: strict_prefix_def prefix_def)
  obtain x where x: "redact_stream (\<lambda>_. True) ss [v] = Some x" using redact_stream_ok by blast
  obtain y where y: "redact_stream (\<lambda>_. True) ss [u, b] = Some y" using redact_stream_ok by blast
  have "x = MASK" using stream_feeds [OF x] redact_toks_value [OF assms(1,3)] by simp
  moreover have "y \<noteq> MASK"
    using stream_feeds_two [OF y redact_toks_value [OF assms(1,2)]] toks_not_nothing [OF b(2)] by simp
  ultimately show ?thesis using b x y by (intro exI [of _ "[u, b]"]) simp
qed

text \<open>What is held at the end of a run of reads.\<close>

lemma feed_all_held:
  assumes "prefix_free (ss_vals ss)" "[] \<notin> set (ss_vals ss)" "feed_all ok ss redactor_zero reads buf_empty 0 = (True, r, out, k)"
  shows "rd_held r = snd (redact_toks (ss_vals ss) (concat reads))"
  using feed_all_toks [OF assms] by (simp add: redactor_zero_def redact_toks_simps(1))

lemma butlast_is_held:
  assumes "prefix_free vs" "[] \<notin> set vs" "v \<in> set vs" "butlast v \<noteq> []"
  shows "snd (redact_toks vs (butlast v)) = butlast v"
proof -
  have p: "strict_prefix (butlast v) v" using assms(4) by (cases v rule: rev_cases) (auto simp: strict_prefix_def)
  have "\<not> prefix w (butlast v)" if "w \<in> set vs" for w
  proof
    assume "prefix w (butlast v)"
    with p have "strict_prefix w v" by (meson prefix_order.le_less_trans)
    with prefix_freeD [OF assms(1) that assms(3)] show False by (auto simp: strict_prefix_def)
  qed
  then have "match_at vs (butlast v) = 0" using match_at_0_iff [OF assms(2)] by blast
  moreover have "could_start vs (butlast v)" using p assms(3) by (auto simp: could_start_iff)
  ultimately show ?thesis using redact_toks_simps(3) [OF assms(4)] by simp
qed

text \<open>The flush puts out nothing that holds a whole value, after any reads and any allocations.\<close>

definition flush_hides :: "secret_set \<Rightarrow> bool" where
  "flush_hides ss \<longleftrightarrow>
     (\<forall>ok reads r out k ok2 r2 out2 k2 t. feed_all ok ss redactor_zero reads buf_empty 0 = (True, r, out, k) \<longrightarrow>
        qwe_redact_flush ok2 r out k = (True, r2, out2, k2) \<longrightarrow> rb_data out2 = rb_data out @ t \<longrightarrow>
        (\<forall>u \<in> set (ss_vals ss). \<not> sublist u t))"

lemma flush_hides_iff:
  assumes "prefix_free (ss_vals ss)" "[] \<notin> set (ss_vals ss)"
  shows "flush_hides ss \<longleftrightarrow> inner_free (ss_vals ss)"
proof
  assume i: "inner_free (ss_vals ss)"
  have "\<not> sublist u (rd_held r)" if fa: "feed_all ok ss redactor_zero reads buf_empty 0 = (True, r, out, k)" and ua: "u \<in> set (ss_vals ss)"
    for ok reads r out k u
  proof (cases "rd_held r = []")
    case True
    with ua assms(2) show ?thesis by auto
  next
    case False
    then obtain v where "v \<in> set (ss_vals ss)" "strict_prefix (rd_held r) v"
      using feed_all_held [OF assms fa] redact_toks_held by metis
    then show ?thesis using inner_freeD [OF i ua] by blast
  qed
  then show "flush_hides ss" unfolding flush_hides_def by (metis redact_flush_data same_append_eq)
next
  assume h: "flush_hides ss"
  show "inner_free (ss_vals ss)" unfolding inner_free_def
  proof (intro ballI notI)
    fix u v
    assume u: "u \<in> set (ss_vals ss)" and v: "v \<in> set (ss_vals ss)" and s: "sublist u (butlast v)"
    with assms(2) have ne: "butlast v \<noteq> []" by auto
    obtain r out k where f: "feed_all (\<lambda>_. True) ss redactor_zero [butlast v] buf_empty 0 = (True, r, out, k)"
      using feed_all_ok [of ss redactor_zero "[butlast v]" buf_empty 0] by (metis prod.collapse)
    have held: "rd_held r = butlast v" using feed_all_held [OF assms f] butlast_is_held [OF assms v ne] by simp
    obtain r2 out2 k2 where g: "qwe_redact_flush (\<lambda>_. True) r out k = (True, r2, out2, k2)"
      using redact_flush_ok [of r out k] by (metis prod.collapse)
    from h f g redact_flush_data [OF g] u have "\<not> sublist u (rd_held r)" unfolding flush_hides_def by blast
    with held s show False by simp
  qed
qed

section \<open>Properties\<close>

definition two_secrets :: secret_set where
  "two_secrets = \<lparr>ss_vals = [''hunter2'', ''abcd''], ss_capset = 16\<rparr>"

text \<open>C9. A successful feed reads the held bytes followed by the input as a sequence of tokens and a
  held tail. The output grows by the tokens with every masked one replaced by the mask; every
  masked token is a value of the set; no value of the set starts at a byte that is emitted
  in clear, however far it reaches into what follows; and what stays held is a proper prefix of
  a value. So no complete occurrence of a value is ever emitted in clear by a feed.\<close>

theorem redact_feed_masks:
  assumes "[] \<notin> set (ss_vals ss)"
    and "qwe_redact_feed ok ss r input out k = (True, r', out', k')"
  shows "\<exists>toks. concat (map tok_src toks) @ rd_held r' = rd_held r @ input
    \<and> rb_data out' = rb_data out @ concat (map tok_out toks)
    \<and> (\<forall>v. Masked v \<in> set toks \<longrightarrow> v \<in> set (ss_vals ss))
    \<and> (\<forall>ts1 b ts2 v. toks = ts1 @ redact_tok.Plain b # ts2 \<longrightarrow> v \<in> set (ss_vals ss) \<longrightarrow>
         \<not> prefix v (b # concat (map tok_src ts2) @ rd_held r'))
    \<and> (rd_held r' \<noteq> [] \<longrightarrow> (\<exists>v \<in> set (ss_vals ss). strict_prefix (rd_held r') v))"
proof (rule exI [of _ "fst (redact_toks (ss_vals ss) (rd_held r @ input))"], intro conjI allI impI)
  let ?p = "rd_held r @ input" and ?vs = "ss_vals ss"
  note f = redact_feed_toks [OF assms(2)]
  show src: "concat (map tok_src (fst (redact_toks ?vs ?p))) @ rd_held r' = ?p"
    unfolding f(2) by (rule redact_toks_src)
  show "rb_data out' = rb_data out @ concat (map tok_out (fst (redact_toks ?vs ?p)))" by (rule f(1))
  show "v \<in> set ?vs" if "Masked v \<in> set (fst (redact_toks ?vs ?p))" for v
    using that by (rule redact_toks_masked)
  show "\<not> prefix v (b # concat (map tok_src ts2) @ rd_held r')"
    if t: "fst (redact_toks ?vs ?p) = ts1 @ redact_tok.Plain b # ts2" and v: "v \<in> set ?vs" for ts1 b ts2 v
    using redact_toks_plain_rest [OF v assms(1) t] by (simp add: f(2))
  show "\<exists>v \<in> set ?vs. strict_prefix (rd_held r') v" if "rd_held r' \<noteq> []"
    using redact_toks_held that unfolding f(2) by blast
qed

theorem redact_feed_masks_witness:
  "qwe_redact_feed (\<lambda>_. True) two_secrets redactor_zero ''x=hunter2 ab'' buf_empty 0
     = (True, \<lparr>rd_held = ''ab'', rd_held_cap = 2\<rparr>, \<lparr>rb_data = ''x=*** '', rb_cap = 4096\<rparr>, 3)
   \<and> (\<exists>toks. concat (map tok_src toks) @ ''ab'' = ''x=hunter2 ab''
        \<and> ''x=*** '' = concat (map tok_out toks))"
proof -
  have e: "qwe_redact_feed (\<lambda>_. True) two_secrets redactor_zero ''x=hunter2 ab'' buf_empty 0
     = (True, \<lparr>rd_held = ''ab'', rd_held_cap = 2\<rparr>, \<lparr>rb_data = ''x=*** '', rb_cap = 4096\<rparr>, 3)"
    by code_simp
  have ne: "[] \<notin> set (ss_vals two_secrets)" by code_simp
  from redact_feed_masks [OF ne e] e show ?thesis
    by (auto simp: redactor_zero_def buf_empty_def)
qed

text \<open>C10. When no value of the set is a proper prefix of another, what a stream becomes does not
  depend on how it was cut into reads or on which allocations happened: every run of feeds and
  the final flush that succeeds yields the same bytes as feeding the whole stream at once, and
  with an allocator that never fails a run does succeed.\<close>

theorem redact_stream_chunking:
  assumes "prefix_free (ss_vals ss)" and "[] \<notin> set (ss_vals ss)" and "concat reads = concat reads'"
  shows "redact_stream (\<lambda>_. True) ss reads = redact_stream (\<lambda>_. True) ss reads'
    \<and> redact_stream (\<lambda>_. True) ss reads \<noteq> None
    \<and> (\<forall>ok res. redact_stream ok ss reads = Some res \<longrightarrow>
         redact_stream (\<lambda>_. True) ss [concat reads] = Some res)"
proof -
  obtain a b c where e: "redact_stream (\<lambda>_. True) ss reads = Some a"
      "redact_stream (\<lambda>_. True) ss reads' = Some b" "redact_stream (\<lambda>_. True) ss [concat reads] = Some c"
    using redact_stream_ok by (meson option.exhaust)
  from e [THEN redact_stream_toks [OF assms(1,2)]] assms(3) have abc: "a = b" "a = c" by simp_all
  have "redact_stream ok ss reads = Some res \<Longrightarrow> res = a" for ok res
    using e(1) [THEN redact_stream_toks [OF assms(1,2)]] redact_stream_toks [OF assms(1,2)] by simp
  then have "\<forall>ok res. redact_stream ok ss reads = Some res \<longrightarrow> redact_stream (\<lambda>_. True) ss [concat reads] = Some res"
    using e(3) abc(2) by blast
  with e abc show ?thesis by simp
qed

theorem redact_stream_chunking_witness:
  "redact_stream (\<lambda>_. True) two_secrets [''x=hun'', ''ter2 a'', ''b''] = Some ''x=*** ab''
   \<and> redact_stream (\<lambda>_. True) two_secrets [''x=hunter2 ab''] = Some ''x=*** ab''"
proof -
  have "prefix_free (ss_vals two_secrets)" "[] \<notin> set (ss_vals two_secrets)"
    "concat [''x=hun'', ''ter2 a'', ''b''] = concat [''x=hunter2 ab'']"
    by (simp_all add: prefix_free_def two_secrets_def)
  from redact_stream_chunking [OF this]
  have "redact_stream (\<lambda>_. True) two_secrets [''x=hun'', ''ter2 a'', ''b''] =
    redact_stream (\<lambda>_. True) two_secrets [''x=hunter2 ab'']" by simp
  moreover have "redact_stream (\<lambda>_. True) two_secrets [''x=hunter2 ab''] = Some ''x=*** ab''"
    by code_simp
  ultimately show ?thesis by simp
qed

text \<open>A feed that fails for want of memory has appended the masked form of a prefix of the
  tokens and nothing else, so a failure never lets a value through in clear.\<close>

lemma redact_feed_failure_safe:
  assumes "[] \<notin> set (ss_vals ss)"
    and "qwe_redact_feed ok ss r input out k = (False, r', out', k')"
  shows "\<exists>toks rest. concat (map tok_src toks) @ rest = rd_held r @ input
    \<and> rb_data out' = rb_data out @ concat (map tok_out toks)
    \<and> (\<forall>ts1 b ts2 v. toks = ts1 @ redact_tok.Plain b # ts2 \<longrightarrow> v \<in> set (ss_vals ss) \<longrightarrow>
         \<not> prefix v (b # concat (map tok_src ts2) @ rest))"
proof -
  let ?p = "rd_held r @ input" and ?vs = "ss_vals ss"
  let ?ts = "fst (redact_toks ?vs ?p)"
  from redact_feed_failed [OF assms(2)] obtain n where
    n: "rb_data out' = rb_data out @ concat (map tok_out (take n ?ts))" ..
  define rest where "rest = concat (map tok_src (drop n ?ts)) @ snd (redact_toks ?vs ?p)"
  have src: "concat (map tok_src (take n ?ts)) @ rest = ?p"
    using redact_toks_src [of ?vs ?p] unfolding rest_def
    by (metis append.assoc append_take_drop_id concat_append map_append)
  have "\<not> prefix v (b # concat (map tok_src ts2) @ rest)"
    if t: "take n ?ts = ts1 @ redact_tok.Plain b # ts2" and v: "v \<in> set ?vs" for ts1 b ts2 v
  proof -
    have "?ts = ts1 @ redact_tok.Plain b # (ts2 @ drop n ?ts)"
      using append_take_drop_id [of n ?ts] t by simp
    from redact_toks_plain_rest [OF v assms(1) this] show ?thesis by (simp add: rest_def)
  qed
  with src n show ?thesis by blast
qed

text \<open>C11. How far the redactor goes, exactly. What a stream becomes is independent of how it was cut into
  reads if and only if no value is a proper prefix of another: otherwise the longer value, cut after the
  shorter, leaves its tail in clear. And for such values the flush at the end of a stream, which emits the
  held bytes as they are, never puts out a whole value if and only if none occurs inside another without its
  last byte: otherwise a stream that ends one byte short of the outer value puts the inner one out in clear.\<close>

theorem redact_limits_exact:
  assumes "[] \<notin> set (ss_vals ss)"
  shows "((\<forall>reads reads'. concat reads = concat reads' \<longrightarrow> redact_stream (\<lambda>_. True) ss reads = redact_stream (\<lambda>_. True) ss reads')
      \<longleftrightarrow> prefix_free (ss_vals ss))
    \<and> (prefix_free (ss_vals ss) \<longrightarrow> (flush_hides ss \<longleftrightarrow> inner_free (ss_vals ss)))"
proof (intro conjI impI iffI)
  assume a: "\<forall>reads reads'. concat reads = concat reads' \<longrightarrow> redact_stream (\<lambda>_. True) ss reads = redact_stream (\<lambda>_. True) ss reads'"
  show "prefix_free (ss_vals ss)"
    unfolding prefix_free_def
  proof (intro ballI impI, rule ccontr)
    fix u v
    assume "u \<in> set (ss_vals ss)" "v \<in> set (ss_vals ss)" "prefix u v" "u \<noteq> v"
    then obtain reads where "concat reads = v" "redact_stream (\<lambda>_. True) ss reads \<noteq> redact_stream (\<lambda>_. True) ss [v]"
      using prefix_clash_shows [OF assms, of u v] by (auto simp: strict_prefix_def)
    moreover have "concat reads = concat [v]" using \<open>concat reads = v\<close> by simp
    ultimately show False using a by blast
  qed
next
  assume p: "prefix_free (ss_vals ss)"
  show "\<forall>reads reads'. concat reads = concat reads' \<longrightarrow> redact_stream (\<lambda>_. True) ss reads = redact_stream (\<lambda>_. True) ss reads'"
    using redact_stream_toks [OF p assms] redact_stream_ok by (metis not_Some_eq)
qed (use assms flush_hides_iff in blast)+

theorem redact_limits_exact_witness:
  "\<not> flush_hides \<lparr>ss_vals = [''abcd'', ''bc''], ss_capset = 16\<rparr> \<and> flush_hides two_secrets
   \<and> (\<exists>reads reads'. concat reads = concat reads' \<and> redact_stream (\<lambda>_. True) \<lparr>ss_vals = [''ab'', ''abc''], ss_capset = 16\<rparr> reads
        \<noteq> redact_stream (\<lambda>_. True) \<lparr>ss_vals = [''ab'', ''abc''], ss_capset = 16\<rparr> reads')"
proof (intro conjI)
  have "sublist ''bc'' ''abc''" by code_simp
  then have "\<not> inner_free [''abcd'', ''bc'']" by (auto simp: inner_free_def)
  moreover have "prefix_free [''abcd'', ''bc'']" by (simp add: prefix_free_def)
  ultimately show "\<not> flush_hides \<lparr>ss_vals = [''abcd'', ''bc''], ss_capset = 16\<rparr>"
    using redact_limits_exact [of "\<lparr>ss_vals = [''abcd'', ''bc''], ss_capset = 16\<rparr>"] by simp
  have "prefix_free (ss_vals two_secrets)" "inner_free (ss_vals two_secrets)"
    by (simp_all add: prefix_free_def two_secrets_def inner_free_def sublist_code)
  then show "flush_hides two_secrets" using redact_limits_exact [of two_secrets] by (simp add: two_secrets_def)
  have "\<not> prefix_free [''ab'', ''abc'']" by (simp add: prefix_free_def)
  then show "\<exists>reads reads'. concat reads = concat reads' \<and> redact_stream (\<lambda>_. True) \<lparr>ss_vals = [''ab'', ''abc''], ss_capset = 16\<rparr> reads
        \<noteq> redact_stream (\<lambda>_. True) \<lparr>ss_vals = [''ab'', ''abc''], ss_capset = 16\<rparr> reads'"
    using redact_limits_exact [of "\<lparr>ss_vals = [''ab'', ''abc''], ss_capset = 16\<rparr>"] by auto
qed

end
