(* ===== verification/Output.thy ===== *)
theory Output
  imports Ring Redact
begin

text \<open>
  The output path of a step (\<open>src/kernel/sink.c\<close> and the functions \<open>emit\<close>,
  \<open>drain\<close> and \<open>drain_flush\<close> of \<open>src/kernel/workflow.c\<close>): bytes are read from the
  step's pipe, redacted, put into the ring and taken out of it into the log file, raw, and onto
  the terminal, line by line behind the job's id.

  The operating system enters as scripts: a file that is written to carries the outcomes of the
  next \<open>write\<close> calls (after the script they complete in full), a pipe is the list of what the
  next \<open>read\<close> calls return. An allocation that must not fail (\<open>qwe_xmalloc\<close>,
  \<open>qwe_xrealloc\<close>) and does stops the program: the result is then \<open>None\<close>.
\<close>

section \<open>Files\<close>

datatype wr_result = WR_EINTR | WR_ERR | WR_N nat

record ofile =
  of_data :: "byte list"
  of_rets :: "wr_result list"

function write_all :: "ofile \<Rightarrow> byte list \<Rightarrow> ofile" where
  "write_all f p =
     (if p = [] then f
      else case of_rets f of
        [] \<Rightarrow> f\<lparr>of_data := of_data f @ p\<rparr>
      | WR_EINTR # ws \<Rightarrow> write_all (f\<lparr>of_rets := ws\<rparr>) p
      | WR_ERR # ws \<Rightarrow> f\<lparr>of_rets := ws\<rparr>
      | WR_N m # ws \<Rightarrow>
          (let w = min m (length p) in
           if w = 0 then f\<lparr>of_rets := ws\<rparr>
           else write_all (f\<lparr>of_data := of_data f @ take w p, of_rets := ws\<rparr>) (drop w p)))"
  by pat_completeness auto
termination
  by (relation "measure (\<lambda>(f, p). length (of_rets f))") (auto split: if_splits)

declare write_all.simps [simp del]

definition healthy :: "ofile \<Rightarrow> bool" where
  "healthy f \<longleftrightarrow> list_all (\<lambda>w. w = WR_EINTR \<or> (\<exists>m. w = WR_N (Suc m))) (of_rets f)"

section \<open>The sink\<close>

record qwe_sink =
  sk_job :: cstring
  sk_log :: ofile
  sk_line :: "byte list"
  sk_line_cap :: nat

definition qwe_sink_open ::
    "bool \<Rightarrow> (cstring \<Rightarrow> ofile option) \<Rightarrow> cstring \<Rightarrow> cstring \<Rightarrow> qwe_sink option" where
  "qwe_sink_open malloc_ok open_file job dir =
     (if \<not> malloc_ok then None
      else case open_file (dir @ ''/'' @ job @ ''.log'') of
             None \<Rightarrow> None
           | Some f \<Rightarrow> Some \<lparr>sk_job = job, sk_log = f, sk_line = [], sk_line_cap = 0\<rparr>)"

abbreviation newline :: char where
  "newline \<equiv> CHR 0x0A"

definition emit_line ::
    "(nat \<Rightarrow> bool) \<Rightarrow> qwe_sink \<Rightarrow> ofile \<Rightarrow> nat \<Rightarrow> (qwe_sink \<times> ofile \<times> nat) option" where
  "emit_line ok s tm k =
     (if ok k then Some (s\<lparr>sk_line := []\<rparr>,
                         write_all tm (''['' @ sk_job s @ ''] '' @ sk_line s @ [newline]), Suc k)
      else None)"

primrec sink_write_loop ::
    "(nat \<Rightarrow> bool) \<Rightarrow> byte list \<Rightarrow> qwe_sink \<Rightarrow> ofile \<Rightarrow> nat \<Rightarrow> (qwe_sink \<times> ofile \<times> nat) option" where
  "sink_write_loop ok [] s tm k = Some (s, tm, k)"
| "sink_write_loop ok (c # cs) s tm k =
     (if c = newline then
        (case emit_line ok s tm k of
           None \<Rightarrow> None
         | Some (s', tm', k') \<Rightarrow> sink_write_loop ok cs s' tm' k')
      else if length (sk_line s) = sk_line_cap s then
        (if ok k then
           sink_write_loop ok cs
             (s\<lparr>sk_line := sk_line s @ [c],
                sk_line_cap := (if sk_line_cap s \<noteq> 0 then sk_line_cap s * 2 else 256)\<rparr>) tm (Suc k)
         else None)
      else sink_write_loop ok cs (s\<lparr>sk_line := sk_line s @ [c]\<rparr>) tm k)"

definition qwe_sink_write ::
    "(nat \<Rightarrow> bool) \<Rightarrow> qwe_sink \<Rightarrow> ofile \<Rightarrow> byte list \<Rightarrow> nat \<Rightarrow> (qwe_sink \<times> ofile \<times> nat) option" where
  "qwe_sink_write ok s tm data k =
     sink_write_loop ok data (s\<lparr>sk_log := write_all (sk_log s) data\<rparr>) tm k"

text \<open>Closing flushes an unfinished line; the log file that is closed is the first component.\<close>

definition qwe_sink_close ::
    "(nat \<Rightarrow> bool) \<Rightarrow> qwe_sink \<Rightarrow> ofile \<Rightarrow> nat \<Rightarrow> (ofile \<times> ofile \<times> nat) option" where
  "qwe_sink_close ok s tm k =
     (case (if sk_line s \<noteq> [] then emit_line ok s tm k else Some (s, tm, k)) of
        None \<Rightarrow> None
      | Some (s', tm', k') \<Rightarrow> Some (sk_log s', tm', k'))"

section \<open>From the pipe to the sink\<close>

definition CHUNK :: nat where
  "CHUNK = 65536"

text \<open>The part of a job's run the output path works on, with the terminal all jobs share.\<close>

record out_st =
  os_ring :: qwe_ring
  os_sink :: qwe_sink
  os_red :: qwe_redactor
  os_term :: ofile
  os_k :: nat

function emit_loop :: "(nat \<Rightarrow> bool) \<Rightarrow> out_st \<Rightarrow> out_st option" where
  "emit_loop ok st =
     (case qwe_ring_read (os_ring st) CHUNK of (got, ring') \<Rightarrow>
        if got = [] then Some (st\<lparr>os_ring := ring'\<rparr>)
        else case qwe_sink_write ok (os_sink st) (os_term st) got (os_k st) of
               None \<Rightarrow> None
             | Some (s', tm', k') \<Rightarrow>
                 emit_loop ok (st\<lparr>os_ring := ring', os_sink := s', os_term := tm', os_k := k'\<rparr>))"
  by pat_completeness auto
termination
  by (relation "measure (\<lambda>(ok, st). rg_len (os_ring st))")
    (auto simp: qwe_ring_read_def Let_def CHUNK_def split: if_splits)

declare emit_loop.simps [simp del]

definition emit :: "(nat \<Rightarrow> bool) \<Rightarrow> byte list \<Rightarrow> out_st \<Rightarrow> out_st option" where
  "emit ok data st =
     (let before = rg_dropped (os_ring st) in
      case emit_loop ok (st\<lparr>os_ring := qwe_ring_write (os_ring st) data\<rparr>) of
        None \<Rightarrow> None
      | Some st1 \<Rightarrow>
          if rg_dropped (os_ring st1) \<noteq> before then
            (case qwe_sink_write ok (os_sink st1) (os_term st1)
                    (''qwe: ALARM: ring overflow, '' @ nat_dec (rg_dropped (os_ring st1)) @ '' bytes dropped'' @ [newline])
                    (os_k st1) of
               None \<Rightarrow> None
             | Some (s', tm', k') \<Rightarrow> Some (st1\<lparr>os_sink := s', os_term := tm', os_k := k'\<rparr>))
          else Some st1)"

datatype rd_result = RD_EINTR | RD_AGAIN | RD_DATA "byte list"

text \<open>The reads left over are returned with the verdict: \<open>True\<close> at end of file.\<close>

fun drain ::
    "(nat \<Rightarrow> bool) \<Rightarrow> secret_set \<Rightarrow> rd_result list \<Rightarrow> out_st \<Rightarrow> (bool \<times> rd_result list \<times> out_st) option" where
  "drain ok ss [] st = Some (False, [], st)"
| "drain ok ss (RD_EINTR # rs) st = drain ok ss rs st"
| "drain ok ss (RD_AGAIN # rs) st = Some (False, rs, st)"
| "drain ok ss (RD_DATA d # rs) st =
     (if d = [] then Some (True, rs, st)
      else case qwe_redact_feed ok ss (os_red st) d buf_empty (os_k st) of (rc, red', safe, k') \<Rightarrow>
        let st1 = st\<lparr>os_red := red', os_k := k'\<rparr> in
        if rc \<and> rb_data safe \<noteq> [] then
          (case emit ok (rb_data safe) st1 of None \<Rightarrow> None | Some st2 \<Rightarrow> drain ok ss rs st2)
        else drain ok ss rs st1)"

definition drain_flush :: "(nat \<Rightarrow> bool) \<Rightarrow> out_st \<Rightarrow> out_st option" where
  "drain_flush ok st =
     (case qwe_redact_flush ok (os_red st) buf_empty (os_k st) of (rc, red', safe, k') \<Rightarrow>
        let st1 = st\<lparr>os_red := red', os_k := k'\<rparr> in
        if rc \<and> rb_data safe \<noteq> [] then emit ok (rb_data safe) st1 else Some st1)"

text \<open>The pipe of a running step: it is drained each time it becomes readable.\<close>

primrec drains :: "(nat \<Rightarrow> bool) \<Rightarrow> secret_set \<Rightarrow> rd_result list list \<Rightarrow> out_st \<Rightarrow> out_st option" where
  "drains ok ss [] st = Some st"
| "drains ok ss (rs # rss) st =
     (case drain ok ss rs st of None \<Rightarrow> None | Some (eof, rest, st') \<Rightarrow> drains ok ss rss st')"

section \<open>What reaches the files\<close>

lemma write_all_prefix: "\<exists>q. prefix q p \<and> of_data (write_all f p) = of_data f @ q"
proof (induction f p rule: write_all.induct)
  case (1 f p)
  show ?case
  proof (cases "p = [] \<or> of_rets f = []")
    case True
    then show ?thesis by (auto simp: write_all.simps [of f p])
  next
    case False
    then obtain w ws where ws: "of_rets f = w # ws" by (cases "of_rets f") auto
    show ?thesis
    proof (cases w)
      case (WR_N m)
      show ?thesis
      proof (cases "min m (length p) = 0")
        case True
        with WR_N ws show ?thesis by (auto simp: write_all.simps [of f p])
      next
        case nz: False
        let ?w = "min m (length p)"
        from 1(2) False ws WR_N nz obtain q where q: "prefix q (drop ?w p)"
            "of_data (write_all (f\<lparr>of_data := of_data f @ take ?w p, of_rets := ws\<rparr>) (drop ?w p))
             = of_data f @ take ?w p @ q"
          by fastforce
        have "prefix (take ?w p @ q) p" using q(1) by (metis append_take_drop_id same_prefix_prefix)
        moreover have "of_data (write_all f p) = of_data f @ take ?w p @ q"
          unfolding write_all.simps [of f p] using q(2) False ws WR_N nz by (simp add: Let_def) (simp add: min_def)
        ultimately show ?thesis by blast
      qed
    qed (use False ws 1 in \<open>auto simp: write_all.simps [of f p]\<close>)
  qed
qed

lemma write_all_healthy:
  "healthy f \<Longrightarrow> of_data (write_all f p) = of_data f @ p \<and> healthy (write_all f p)"
proof (induction f p rule: write_all.induct)
  case (1 f p)
  show ?case
  proof (cases "p = [] \<or> of_rets f = []")
    case True
    then show ?thesis using 1(3) by (auto simp: write_all.simps [of f p] healthy_def)
  next
    case False
    then obtain w ws where ws: "of_rets f = w # ws" by (cases "of_rets f") auto
    with 1(3) consider "w = WR_EINTR" | m where "w = WR_N (Suc m)" by (auto simp: healthy_def)
    then show ?thesis
    proof cases
      case 1
      with "1.IH"(1) "1.prems" False ws show ?thesis by (simp add: write_all.simps [of f p] healthy_def)
    next
      case (2 m)
      let ?w = "min (Suc m) (length p)"
      have nz: "?w \<noteq> 0" using False by simp
      have "healthy (f\<lparr>of_data := of_data f @ take ?w p, of_rets := ws\<rparr>)"
        using "1.prems" ws by (simp add: healthy_def)
      with "1.IH"(2) False ws 2 nz
      have "of_data (write_all (f\<lparr>of_data := of_data f @ take ?w p, of_rets := ws\<rparr>) (drop ?w p))
          = (of_data f @ take ?w p) @ drop ?w p
        \<and> healthy (write_all (f\<lparr>of_data := of_data f @ take ?w p, of_rets := ws\<rparr>) (drop ?w p))"
        by fastforce
      with False ws 2 nz show ?thesis by (simp add: write_all.simps [of f p] Let_def)
    qed
  qed
qed

text \<open>The terminal's lines: what the bytes of a job complete, and the unfinished line left.\<close>

definition line_out :: "cstring \<Rightarrow> byte list \<Rightarrow> byte list" where
  "line_out job l = ''['' @ job @ ''] '' @ l @ [newline]"

primrec term_lines :: "cstring \<Rightarrow> byte list \<Rightarrow> byte list \<Rightarrow> byte list \<times> byte list" where
  "term_lines job l [] = ([], l)"
| "term_lines job l (c # cs) =
     (if c = newline then apfst ((@) (line_out job l)) (term_lines job [] cs)
      else term_lines job (l @ [c]) cs)"

lemma term_lines_append:
  "term_lines job l (xs @ ys) =
     apfst ((@) (fst (term_lines job l xs))) (term_lines job (snd (term_lines job l xs)) ys)"
proof (induction xs arbitrary: l)
  case Nil
  show ?case by (cases "term_lines job l ys") simp
next
  case (Cons c cs)
  show ?case by (cases "term_lines job (snd (term_lines job [] cs)) ys") (simp add: Cons)
qed

lemma sink_write_loop_lines:
  "sink_write_loop ok p s tm k = Some (s', tm', k') \<Longrightarrow> healthy tm \<Longrightarrow>
     sk_log s' = sk_log s \<and> sk_job s' = sk_job s \<and> healthy tm'
     \<and> of_data tm' = of_data tm @ fst (term_lines (sk_job s) (sk_line s) p)
     \<and> sk_line s' = snd (term_lines (sk_job s) (sk_line s) p)"
proof (induction p arbitrary: s tm k)
  case (Cons c cs)
  show ?case
  proof (cases "c = newline")
    case True
    let ?t = "write_all tm (''['' @ sk_job s @ ''] '' @ sk_line s @ [newline])"
    from True Cons.prems have "sink_write_loop ok cs (s\<lparr>sk_line := []\<rparr>) ?t (Suc k) = Some (s', tm', k')"
      by (auto simp: emit_line_def split: if_splits)
    from Cons.IH [OF this] write_all_healthy [OF Cons.prems(2)] True show ?thesis
      by (simp add: line_out_def)
  next
    case False
    with Cons.prems Cons.IH show ?thesis by (fastforce split: if_splits)
  qed
qed simp

lemma sink_write_lines:
  assumes "qwe_sink_write ok s tm data k = Some (s', tm', k')" "healthy tm" "healthy (sk_log s)"
  shows "of_data (sk_log s') = of_data (sk_log s) @ data" and "healthy (sk_log s')"
    and "sk_job s' = sk_job s" and "healthy tm'"
    and "of_data tm' = of_data tm @ fst (term_lines (sk_job s) (sk_line s) data)"
    and "sk_line s' = snd (term_lines (sk_job s) (sk_line s) data)"
  using sink_write_loop_lines [OF _ assms(2), OF assms(1) [unfolded qwe_sink_write_def]]
    write_all_healthy [OF assms(3), of data] by simp_all

lemma sink_write_loop_ok: "sink_write_loop (\<lambda>_. True) p s tm k \<noteq> None"
  by (induction p arbitrary: s tm k) (simp_all add: emit_line_def)

lemma sink_write_ok: "\<exists>s' tm' k'. qwe_sink_write (\<lambda>_. True) s tm data k = Some (s', tm', k')"
  using sink_write_loop_ok by (simp add: qwe_sink_write_def)

text \<open>The bytes \<open>xs\<close> have reached the log, raw, and the terminal, as lines.\<close>

definition appended :: "out_st \<Rightarrow> out_st \<Rightarrow> byte list \<Rightarrow> bool" where
  "appended a b xs \<longleftrightarrow>
     of_data (sk_log (os_sink b)) = of_data (sk_log (os_sink a)) @ xs
     \<and> of_data (os_term b) = of_data (os_term a) @ fst (term_lines (sk_job (os_sink a)) (sk_line (os_sink a)) xs)
     \<and> sk_line (os_sink b) = snd (term_lines (sk_job (os_sink a)) (sk_line (os_sink a)) xs)
     \<and> sk_job (os_sink b) = sk_job (os_sink a)"

lemma appended_trans: "appended a b xs \<Longrightarrow> appended b c ys \<Longrightarrow> appended a c (xs @ ys)"
  by (simp add: appended_def term_lines_append)

text \<open>The state between two events: the ring is empty and the files take what is written.\<close>

definition out_inv :: "out_st \<Rightarrow> bool" where
  "out_inv st \<longleftrightarrow> ring_inv (os_ring st) \<and> rg_cap (os_ring st) = QWE_RING_CAPACITY
     \<and> healthy (os_term st) \<and> healthy (sk_log (os_sink st))"

lemma emit_loop_empties:
  "emit_loop ok st = Some st' \<Longrightarrow> out_inv st \<Longrightarrow>
     appended st st' (ring_contents (os_ring st)) \<and> out_inv st' \<and> ring_contents (os_ring st') = []
     \<and> rg_dropped (os_ring st') = rg_dropped (os_ring st) \<and> os_red st' = os_red st"
proof (induction ok st rule: emit_loop.induct)
  case (1 ok st)
  obtain got ring' where g: "qwe_ring_read (os_ring st) CHUNK = (got, ring')"
    by (cases "qwe_ring_read (os_ring st) CHUNK") auto
  have inv: "ring_inv (os_ring st)" using "1.prems" by (simp add: out_inv_def)
  note deq = ring.deq_out [OF inv, of CHUNK] ring.deq_contents [OF inv, of CHUNK]
    ring.deq_inv [OF inv, of CHUNK] ring.deq_split [OF inv, of CHUNK]
  show ?case
  proof (cases "got = []")
    case True
    with deq g have "ring_contents (os_ring st) = []" by (simp add: CHUNK_def)
    with True g deq "1.prems" show ?thesis
      by (auto simp: emit_loop.simps [of ok st] appended_def out_inv_def)
  next
    case False
    with g "1.prems"(1) obtain s' tm' k'
      where w: "qwe_sink_write ok (os_sink st) (os_term st) got (os_k st) = Some (s', tm', k')"
        and l: "emit_loop ok (st\<lparr>os_ring := ring', os_sink := s', os_term := tm', os_k := k'\<rparr>) = Some st'"
      by (auto simp: emit_loop.simps [of ok st] split: option.splits)
    let ?st = "st\<lparr>os_ring := ring', os_sink := s', os_term := tm', os_k := k'\<rparr>"
    have h: "healthy (os_term st)" "healthy (sk_log (os_sink st))"
      using "1.prems" by (simp_all add: out_inv_def)
    note sl = sink_write_lines [OF w h]
    have i: "out_inv ?st" using sl deq g "1.prems" by (auto simp: out_inv_def)
    have a: "appended st ?st got" using sl by (simp add: appended_def)
    from "1.IH" [OF g [symmetric] False w refl refl l i]
    have "appended ?st st' (ring_contents ring')" and r: "out_inv st'" "ring_contents (os_ring st') = []"
        "rg_dropped (os_ring st') = rg_dropped ring'" "os_red st' = os_red st" by simp_all
    with appended_trans [OF a this(1)] deq g show ?thesis by simp
  qed
qed

lemma emit_loop_ok: "emit_loop (\<lambda>_. True) st \<noteq> None"
proof (induction "\<lambda>_ :: nat. True" st rule: emit_loop.induct)
  case (1 st)
  show ?case
    using 1 sink_write_ok [of "os_sink st" "os_term st" "fst (qwe_ring_read (os_ring st) CHUNK)" "os_k st"]
    by (auto simp: emit_loop.simps [of _ st] split: prod.splits option.splits)
qed

lemma emit_ok: "emit (\<lambda>_. True) data st \<noteq> None"
proof -
  obtain st1 where "emit_loop (\<lambda>_. True) (st\<lparr>os_ring := qwe_ring_write (os_ring st) data\<rparr>) = Some st1"
    using emit_loop_ok by blast
  then show ?thesis
    using sink_write_ok [of "os_sink st1" "os_term st1" "''qwe: ALARM: ring overflow, '' @
      nat_dec (rg_dropped (os_ring st1)) @ '' bytes dropped'' @ [newline]" "os_k st1"]
    by (auto simp: emit_def Let_def)
qed

text \<open>Everything that fits the ring goes through it; what does not is counted and announced.\<close>

lemma emit_appends:
  assumes "emit ok data st = Some st'" and "out_inv st" and "ring_contents (os_ring st) = []"
    and "length data \<le> QWE_RING_CAPACITY"
  shows "appended st st' data \<and> out_inv st' \<and> ring_contents (os_ring st') = []
    \<and> rg_dropped (os_ring st') = rg_dropped (os_ring st) \<and> os_red st' = os_red st"
proof -
  let ?st = "st\<lparr>os_ring := qwe_ring_write (os_ring st) data\<rparr>"
  have inv: "ring_inv (os_ring st)" using assms(2) by (simp add: out_inv_def)
  have nl: "ring_contents (os_ring ?st) = data" "rg_dropped (os_ring ?st) = rg_dropped (os_ring st)"
    using ring.enq_no_loss [OF inv, of data] assms by (simp_all add: out_inv_def)
  have i: "out_inv ?st" using ring.enq_inv [OF inv, of data] assms(2) by (simp add: out_inv_def)
  from assms(1) obtain st1 where l: "emit_loop ok ?st = Some st1"
    by (auto simp: emit_def Let_def split: option.splits)
  note e = emit_loop_empties [OF l i]
  have "emit ok data st = Some st1" using l e nl by (simp add: emit_def)
  with assms(1) e nl show ?thesis by (simp add: appended_def)
qed

lemma emit_overflow:
  assumes "emit ok data st = Some st'" and "out_inv st" and "ring_contents (os_ring st) = []"
    and "QWE_RING_CAPACITY < length data"
  shows "appended st st' (drop (length data - QWE_RING_CAPACITY) data @
      ''qwe: ALARM: ring overflow, '' @ nat_dec (rg_dropped (os_ring st')) @ '' bytes dropped'' @ [newline])
    \<and> rg_dropped (os_ring st') = rg_dropped (os_ring st) + (length data - QWE_RING_CAPACITY)"
proof -
  let ?st = "st\<lparr>os_ring := qwe_ring_write (os_ring st) data\<rparr>"
  let ?alarm = "\<lambda>r. ''qwe: ALARM: ring overflow, '' @ nat_dec (rg_dropped r) @ '' bytes dropped'' @ [newline]"
  have inv: "ring_inv (os_ring st)" using assms(2) by (simp add: out_inv_def)
  have nl: "ring_contents (os_ring ?st) = drop (length data - QWE_RING_CAPACITY) data"
      "rg_dropped (os_ring ?st) = rg_dropped (os_ring st) + (length data - QWE_RING_CAPACITY)"
    using ring.enq_contents [OF inv, of data] ring.enq_dropped [OF inv, of data] assms
    by (simp_all add: out_inv_def)
  have i: "out_inv ?st" using ring.enq_inv [OF inv, of data] assms(2) by (simp add: out_inv_def)
  from assms(1) obtain st1 where l: "emit_loop ok ?st = Some st1"
    by (auto simp: emit_def Let_def split: option.splits)
  note e = emit_loop_empties [OF l i]
  have "rg_dropped (os_ring st1) \<noteq> rg_dropped (os_ring st)" using e nl assms(4) by simp
  with assms(1) l obtain s' tm' k'
    where w: "qwe_sink_write ok (os_sink st1) (os_term st1) (?alarm (os_ring st1)) (os_k st1) = Some (s', tm', k')"
      and st': "st' = st1\<lparr>os_sink := s', os_term := tm', os_k := k'\<rparr>"
    by (auto simp: emit_def Let_def split: option.splits)
  have "healthy (os_term st1)" "healthy (sk_log (os_sink st1))" using e by (simp_all add: out_inv_def)
  note sl = sink_write_lines [OF w this]
  have "appended st st1 (drop (length data - QWE_RING_CAPACITY) data)"
    using e nl by (simp add: appended_def)
  moreover have "appended st1 st' (?alarm (os_ring st'))" using sl st' by (simp add: appended_def)
  ultimately have "appended st st' (drop (length data - QWE_RING_CAPACITY) data @ ?alarm (os_ring st'))"
    by (rule appended_trans)
  with e nl st' show ?thesis by simp
qed

section \<open>A whole stream\<close>

text \<open>
  The bytes a call of \<open>drain\<close> takes from the pipe. Each \<open>read\<close> returns at most the size of
  the buffer it was given.
\<close>

fun rd_bytes :: "rd_result list \<Rightarrow> byte list" where
  "rd_bytes [] = []"
| "rd_bytes (RD_EINTR # rs) = rd_bytes rs"
| "rd_bytes (RD_AGAIN # rs) = []"
| "rd_bytes (RD_DATA d # rs) = (if d = [] then [] else d @ rd_bytes rs)"

definition reads_fit :: "rd_result list \<Rightarrow> bool" where
  "reads_fit rs \<longleftrightarrow> list_all (\<lambda>r. case r of RD_DATA d \<Rightarrow> length d \<le> CHUNK | _ \<Rightarrow> True) rs"

text \<open>
  The values that are small enough for the ring: a read of 64 KiB behind a held tail of less
  than 256 KiB is at most three times as long once masked, which is less than one MiB.
\<close>

definition MAX_VALUE :: nat where
  "MAX_VALUE = 262144"

definition good_vals :: "byte list list \<Rightarrow> bool" where
  "good_vals vs \<longleftrightarrow> prefix_free vs \<and> [] \<notin> set vs \<and> (\<forall>v \<in> set vs. length v \<le> MAX_VALUE)"

lemma masked_length:
  "(\<forall>v. Masked v \<in> set ts \<longrightarrow> v \<noteq> []) \<Longrightarrow>
     length (concat (map tok_out ts)) \<le> 3 * length (concat (map tok_src ts))"
proof (induction ts)
  case (Cons t ts)
  show ?case
  proof (cases t)
    case (Masked v)
    with Cons.prems have "1 \<le> length v" by (auto simp: Suc_le_eq)
    with Cons Masked show ?thesis by (simp add: MASK_def)
  qed (use Cons in simp)
qed simp

lemma redacted_length:
  assumes "good_vals vs"
  shows "length (concat (map tok_out (fst (redact_toks vs p)))) \<le> 3 * length p"
    and "length (snd (redact_toks vs p)) \<le> MAX_VALUE"
proof -
  have "length (concat (map tok_out (fst (redact_toks vs p)))) \<le>
      3 * length (concat (map tok_src (fst (redact_toks vs p))))"
    using assms redact_toks_masked by (intro masked_length) (auto simp: good_vals_def)
  also have "\<dots> \<le> 3 * length p"
    using arg_cong [OF redact_toks_src [of vs p], of length] by simp
  finally show "length (concat (map tok_out (fst (redact_toks vs p)))) \<le> 3 * length p" .
  show "length (snd (redact_toks vs p)) \<le> MAX_VALUE"
  proof (cases "snd (redact_toks vs p) = []")
    case False
    then obtain v where "v \<in> set vs" "strict_prefix (snd (redact_toks vs p)) v"
      using redact_toks_held by blast
    then show ?thesis using assms prefix_length_less by (fastforce simp: good_vals_def)
  qed simp
qed

text \<open>What holds of a job's output between two events: its ring is empty, its redactor holds a tail.\<close>

definition tee_ok :: "byte list list \<Rightarrow> out_st \<Rightarrow> bool" where
  "tee_ok vs st \<longleftrightarrow> out_inv st \<and> ring_contents (os_ring st) = []
     \<and> redact_toks vs (rd_held (os_red st)) = ([], rd_held (os_red st))
     \<and> length (rd_held (os_red st)) \<le> MAX_VALUE"

definition tee_step :: "byte list list \<Rightarrow> byte list \<Rightarrow> out_st \<Rightarrow> out_st \<Rightarrow> bool" where
  "tee_step vs d st st' \<longleftrightarrow> tee_ok vs st'
     \<and> appended st st' (concat (map tok_out (fst (redact_toks vs (rd_held (os_red st) @ d)))))
     \<and> rd_held (os_red st') = snd (redact_toks vs (rd_held (os_red st) @ d))
     \<and> rg_dropped (os_ring st') = rg_dropped (os_ring st)"

lemma tee_step_trans:
  assumes "good_vals vs" "tee_step vs d1 a b" "tee_step vs d2 b c"
  shows "tee_step vs (d1 @ d2) a c"
proof -
  have g: "prefix_free vs" "[] \<notin> set vs" using assms(1) by (simp_all add: good_vals_def)
  have t: "redact_toks vs (rd_held (os_red a) @ d1 @ d2) =
      apfst ((@) (fst (redact_toks vs (rd_held (os_red a) @ d1))))
        (redact_toks vs (snd (redact_toks vs (rd_held (os_red a) @ d1)) @ d2))"
    using redact_toks_append [OF g, of "rd_held (os_red a) @ d1" d2]
    by (simp add: split_beta)
  from assms(2,3) show ?thesis
    unfolding tee_step_def by (auto simp: t dest: appended_trans)
qed

lemma feed_tee_step:
  assumes "good_vals (ss_vals ss)" "tee_ok (ss_vals ss) st" "length d \<le> CHUNK"
    and f: "qwe_redact_feed (\<lambda>_. True) ss (os_red st) d buf_empty (os_k st) = (True, red', safe, k')"
    and st1: "st1 = st\<lparr>os_red := red', os_k := k'\<rparr>"
  shows "rb_data safe = [] \<Longrightarrow> tee_step (ss_vals ss) d st st1"
    and "\<exists>st2. emit (\<lambda>_. True) (rb_data safe) st1 = Some st2 \<and> tee_step (ss_vals ss) d st st2"
proof -
  let ?vs = "ss_vals ss" and ?p = "rd_held (os_red st) @ d"
  have safe: "rb_data safe = concat (map tok_out (fst (redact_toks ?vs ?p)))"
    and held: "rd_held red' = snd (redact_toks ?vs ?p)"
    using redact_feed_toks [OF f] by (simp_all add: buf_empty_def)
  note len = redacted_length [OF assms(1), of ?p]
  have ok1: "tee_ok ?vs st1"
    using assms(2) len redact_toks_snd_held [of ?vs ?p] by (simp add: tee_ok_def st1 out_inv_def held)
  show "rb_data safe = [] \<Longrightarrow> tee_step ?vs d st st1"
    using ok1 by (simp add: tee_step_def appended_def st1 held safe [symmetric])
  obtain st2 where e: "emit (\<lambda>_. True) (rb_data safe) st1 = Some st2" using emit_ok by blast
  have i: "out_inv st1" "ring_contents (os_ring st1) = []" using ok1 by (simp_all add: tee_ok_def)
  have "length (rb_data safe) \<le> QWE_RING_CAPACITY"
    using len assms(2,3) by (simp add: safe tee_ok_def MAX_VALUE_def CHUNK_def QWE_RING_CAPACITY_def)
  from emit_appends [OF e i this] have "tee_step ?vs d st st2"
    using ok1 by (simp add: tee_step_def tee_ok_def appended_def st1 held safe)
  with e show "\<exists>st2. emit (\<lambda>_. True) (rb_data safe) st1 = Some st2 \<and> tee_step ?vs d st st2" by blast
qed

lemma tee_step_refl: "tee_ok vs st \<Longrightarrow> tee_step vs [] st st"
  by (simp add: tee_step_def tee_ok_def appended_def)

lemma drain_tee_step:
  assumes "good_vals (ss_vals ss)"
  shows "tee_ok (ss_vals ss) st \<Longrightarrow> reads_fit rs \<Longrightarrow>
     \<exists>eof rest st'. drain (\<lambda>_. True) ss rs st = Some (eof, rest, st') \<and> tee_step (ss_vals ss) (rd_bytes rs) st st'"
proof (induction rs arbitrary: st rule: rd_bytes.induct)
  case (4 d rs)
  show ?case
  proof (cases "d = []")
    case False
    obtain red' safe k' where f:
        "qwe_redact_feed (\<lambda>_. True) ss (os_red st) d buf_empty (os_k st) = (True, red', safe, k')"
      using redact_feed_ok [of ss "os_red st" d buf_empty "os_k st"]
      by (cases "qwe_redact_feed (\<lambda>_. True) ss (os_red st) d buf_empty (os_k st)") auto
    have "length d \<le> CHUNK" and rf: "reads_fit rs" using "4.prems"(2) by (simp_all add: reads_fit_def)
    note fs = feed_tee_step [OF assms "4.prems"(1) this(1) f refl]
    then obtain st2 where s2: "tee_step (ss_vals ss) d st st2"
      and d2: "drain (\<lambda>_. True) ss (RD_DATA d # rs) st = drain (\<lambda>_. True) ss rs st2"
      using f False by (cases "rb_data safe = []") auto
    then have "tee_ok (ss_vals ss) st2" by (simp add: tee_step_def)
    from "4.IH" [OF False this rf] tee_step_trans [OF assms s2] d2 False show ?thesis by auto
  qed (use tee_step_refl "4.prems" in auto)
qed (auto simp: tee_step_refl reads_fit_def)

lemma drains_tee_step:
  assumes "good_vals (ss_vals ss)"
  shows "tee_ok (ss_vals ss) st \<Longrightarrow> list_all reads_fit rss \<Longrightarrow>
     \<exists>st'. drains (\<lambda>_. True) ss rss st = Some st'
       \<and> tee_step (ss_vals ss) (concat (map rd_bytes rss)) st st'"
proof (induction rss arbitrary: st)
  case (Cons rs rss)
  then obtain eof rest st1 where d: "drain (\<lambda>_. True) ss rs st = Some (eof, rest, st1)"
    and s1: "tee_step (ss_vals ss) (rd_bytes rs) st st1"
    using drain_tee_step [OF assms, of st rs] by auto
  then have "tee_ok (ss_vals ss) st1" by (simp add: tee_step_def)
  with Cons.IH [of st1] Cons.prems d tee_step_trans [OF assms s1] show ?case by auto
qed (simp add: tee_step_refl)

lemma drain_flush_appends:
  assumes "tee_ok vs st"
  shows "\<exists>st'. drain_flush (\<lambda>_. True) st = Some st' \<and> appended st st' (rd_held (os_red st))
    \<and> rd_held (os_red st') = [] \<and> rg_dropped (os_ring st') = rg_dropped (os_ring st)"
proof -
  let ?r = "qwe_redact_flush (\<lambda>_. True) (os_red st) buf_empty (os_k st)"
  obtain red' safe k' where f: "?r = (True, red', safe, k')"
    using buf_add_ok [of buf_empty "rd_held (os_red st)" "os_k st"]
    by (cases ?r) (auto simp: qwe_redact_flush_def split: prod.splits if_splits)
  have safe: "rb_data safe = rd_held (os_red st)"
    using redact_flush_data [OF f] by (simp add: buf_empty_def)
  have held: "rd_held red' = []" using f by (auto simp: qwe_redact_flush_def split: prod.splits)
  let ?st1 = "st\<lparr>os_red := red', os_k := k'\<rparr>"
  obtain st2 where e: "emit (\<lambda>_. True) (rb_data safe) ?st1 = Some st2" using emit_ok by blast
  have i: "out_inv ?st1" "ring_contents (os_ring ?st1) = []" "length (rb_data safe) \<le> QWE_RING_CAPACITY"
    using assms by (simp_all add: tee_ok_def out_inv_def safe MAX_VALUE_def QWE_RING_CAPACITY_def)
  from emit_appends [OF e i] f e safe held show ?thesis
    by (cases "rb_data safe = []") (auto simp: drain_flush_def appended_def)
qed

text \<open>A sink from the opening of its log to its closing.\<close>

primrec sink_writes ::
    "(nat \<Rightarrow> bool) \<Rightarrow> byte list list \<Rightarrow> qwe_sink \<Rightarrow> ofile \<Rightarrow> nat \<Rightarrow> (qwe_sink \<times> ofile \<times> nat) option" where
  "sink_writes ok [] s tm k = Some (s, tm, k)"
| "sink_writes ok (d # ds) s tm k =
     (case qwe_sink_write ok s tm d k of
        None \<Rightarrow> None
      | Some (s', tm', k') \<Rightarrow> sink_writes ok ds s' tm' k')"

lemma sink_writes_lines:
  "sink_writes ok ds s tm k = Some (s', tm', k') \<Longrightarrow> healthy tm \<Longrightarrow> healthy (sk_log s) \<Longrightarrow>
     of_data (sk_log s') = of_data (sk_log s) @ concat ds \<and> sk_job s' = sk_job s \<and> healthy tm'
     \<and> of_data tm' = of_data tm @ fst (term_lines (sk_job s) (sk_line s) (concat ds))
     \<and> sk_line s' = snd (term_lines (sk_job s) (sk_line s) (concat ds))"
proof (induction ds arbitrary: s tm k)
  case (Cons d ds)
  then obtain s1 tm1 k1 where w: "qwe_sink_write ok s tm d k = Some (s1, tm1, k1)"
    and r: "sink_writes ok ds s1 tm1 k1 = Some (s', tm', k')" by (auto split: option.splits)
  note sl = sink_write_lines [OF w Cons.prems(2,3)]
  from Cons.IH [OF r sl(4,2)] sl show ?case by (simp add: term_lines_append)
qed simp

lemma sink_writes_ok: "\<exists>s' tm' k'. sink_writes (\<lambda>_. True) ds s tm k = Some (s', tm', k')"
proof (induction ds arbitrary: s tm k)
  case (Cons d ds)
  obtain s1 tm1 k1 where "qwe_sink_write (\<lambda>_. True) s tm d k = Some (s1, tm1, k1)"
    using sink_write_ok by blast
  with Cons.IH [of s1 tm1 k1] show ?case by simp
qed simp

section \<open>Properties\<close>

text \<open>C12. From the step's pipe to its log: whatever the pattern of reads, interrupted or partial
  reads and writes included, the log receives exactly the redacted form of the bytes the step
  wrote and the terminal the same bytes as lines behind the job's id, with no byte dropped, as long as
  no secret is longer than 256 KiB or a prefix of another one.\<close>

theorem output_stream_redacted:
  assumes "good_vals (ss_vals ss)" and "list_all reads_fit rss"
    and "qwe_ring_init (Some mem) QWE_RING_CAPACITY = Some ring" and "length mem = QWE_RING_CAPACITY"
    and "healthy tm" and "healthy log"
  shows "\<exists>st1 st2. drains (\<lambda>_. True) ss rss
        \<lparr>os_ring = ring, os_sink = \<lparr>sk_job = job, sk_log = log, sk_line = [], sk_line_cap = 0\<rparr>,
         os_red = redactor_zero, os_term = tm, os_k = 0\<rparr> = Some st1
    \<and> drain_flush (\<lambda>_. True) st1 = Some st2
    \<and> (let (toks, held) = redact_toks (ss_vals ss) (concat (map rd_bytes rss));
           text = concat (map tok_out toks) @ held
       in of_data (sk_log (os_sink st2)) = of_data log @ text
          \<and> of_data (os_term st2) = of_data tm @ fst (term_lines job [] text)
          \<and> rg_dropped (os_ring st2) = 0)"
proof -
  let ?st = "\<lparr>os_ring = ring, os_sink = \<lparr>sk_job = job, sk_log = log, sk_line = [], sk_line_cap = 0\<rparr>,
         os_red = redactor_zero, os_term = tm, os_k = 0\<rparr>"
  let ?d = "concat (map rd_bytes rss)"
  have "ring_inv ring \<and> ring_contents ring = [] \<and> rg_dropped ring = 0 \<and> rg_cap ring = QWE_RING_CAPACITY"
    using ring_init [OF assms(4) _ assms(3)] by (simp add: QWE_RING_CAPACITY_def)
  then have t: "tee_ok (ss_vals ss) ?st" and dr: "rg_dropped (os_ring ?st) = 0"
    using assms(5,6) by (simp_all add: tee_ok_def out_inv_def redactor_zero_def redact_toks_simps(1))
  obtain st1 where d: "drains (\<lambda>_. True) ss rss ?st = Some st1" and s1: "tee_step (ss_vals ss) ?d ?st st1"
    using drains_tee_step [OF assms(1) t assms(2)] by blast
  then have "tee_ok (ss_vals ss) st1" by (simp add: tee_step_def)
  from drain_flush_appends [OF this] obtain st2 where f: "drain_flush (\<lambda>_. True) st1 = Some st2"
    and a2: "appended st1 st2 (rd_held (os_red st1))" "rg_dropped (os_ring st2) = rg_dropped (os_ring st1)"
    by blast
  have "appended ?st st2 (concat (map tok_out (fst (redact_toks (ss_vals ss) ?d))) @
      snd (redact_toks (ss_vals ss) ?d))"
    using s1 a2 appended_trans by (fastforce simp: tee_step_def redactor_zero_def)
  then show ?thesis
    using d f s1 a2 dr unfolding tee_step_def appended_def by (auto simp: split_beta Let_def)
qed

theorem output_stream_redacted_witness:
  "\<exists>ring st1 st2. qwe_ring_init (Some (replicate QWE_RING_CAPACITY (CHR 0x00))) QWE_RING_CAPACITY = Some ring
    \<and> drains (\<lambda>_. True) two_secrets [[RD_DATA ''key hun'', RD_EINTR, RD_AGAIN], [RD_DATA (''ter2'' @ [newline] @ ''a''), RD_DATA []]]
        \<lparr>os_ring = ring, os_sink = \<lparr>sk_job = ''build'', sk_log = \<lparr>of_data = [], of_rets = [WR_EINTR, WR_N 2]\<rparr>,
           sk_line = [], sk_line_cap = 0\<rparr>,
         os_red = redactor_zero, os_term = \<lparr>of_data = [], of_rets = []\<rparr>, os_k = 0\<rparr> = Some st1
    \<and> drain_flush (\<lambda>_. True) st1 = Some st2
    \<and> of_data (sk_log (os_sink st2)) = ''key ***'' @ [newline] @ ''a''
    \<and> of_data (os_term st2) = ''[build] key ***'' @ [newline]"
proof -
  let ?rss = "[[RD_DATA ''key hun'', RD_EINTR, RD_AGAIN], [RD_DATA (''ter2'' @ [newline] @ ''a''), RD_DATA []]]"
  have g: "good_vals (ss_vals two_secrets)"
    by (simp add: good_vals_def prefix_free_def two_secrets_def MAX_VALUE_def)
  have r: "list_all reads_fit ?rss" by (simp add: reads_fit_def CHUNK_def)
  have h: "healthy \<lparr>of_data = [], of_rets = []\<rparr>" "healthy \<lparr>of_data = [], of_rets = [WR_EINTR, WR_N 2]\<rparr>"
    by (simp_all add: healthy_def)
  obtain ring where i: "qwe_ring_init (Some (replicate QWE_RING_CAPACITY (CHR 0x00))) QWE_RING_CAPACITY = Some ring"
    by (simp add: qwe_ring_init_def)
  have t: "redact_toks (ss_vals two_secrets) (concat (map rd_bytes ?rss)) =
      (map redact_tok.Plain ''key '' @ [Masked ''hunter2'', redact_tok.Plain newline], ''a'')"
    by code_simp
  have l: "term_lines ''build'' [] (''key ***'' @ [newline] @ ''a'') = (''[build] key ***'' @ [newline], ''a'')"
    by code_simp
  have m: "concat (map tok_out (map redact_tok.Plain ''key '' @ [Masked ''hunter2'', redact_tok.Plain newline])) @ ''a''
      = ''key ***'' @ [newline] @ ''a''"
    by code_simp
  from output_stream_redacted [OF g r i length_replicate h, of "''build''"] obtain st1 st2 where
    "drains (\<lambda>_. True) two_secrets ?rss
        \<lparr>os_ring = ring, os_sink = \<lparr>sk_job = ''build'', sk_log = \<lparr>of_data = [], of_rets = [WR_EINTR, WR_N 2]\<rparr>,
           sk_line = [], sk_line_cap = 0\<rparr>,
         os_red = redactor_zero, os_term = \<lparr>of_data = [], of_rets = []\<rparr>, os_k = 0\<rparr> = Some st1"
    "drain_flush (\<lambda>_. True) st1 = Some st2"
    "of_data (sk_log (os_sink st2)) = [] @ ''key ***'' @ [newline] @ ''a''"
    "of_data (os_term st2) = [] @ fst (term_lines ''build'' [] (''key ***'' @ [newline] @ ''a''))"
    unfolding t Let_def prod.case m by (elim exE conjE) simp
  with i show ?thesis unfolding l append_Nil fst_conv by (intro exI conjI)
qed

text \<open>When a redacted piece is longer than the ring, the newest MiB of it goes to the log and
  the terminal, the bytes before it are counted, and an alarm line with the number of bytes
  dropped so far follows at once: no byte is lost in silence.\<close>

lemma emit_overflow_is_announced:
  assumes "out_inv st" and "ring_contents (os_ring st) = []" and "QWE_RING_CAPACITY < length data"
    and "emit ok data st = Some st'"
  shows "appended st st' (drop (length data - QWE_RING_CAPACITY) data @
      ''qwe: ALARM: ring overflow, '' @ nat_dec (rg_dropped (os_ring st')) @ '' bytes dropped'' @ [newline])
    \<and> rg_dropped (os_ring st') = rg_dropped (os_ring st) + (length data - QWE_RING_CAPACITY)"
  using emit_overflow [OF assms(4,1,2,3)] .

text \<open>A sink between opening and closing: however the data arrives, the log holds exactly the
  bytes written and the terminal one line per newline-terminated piece behind \<open>[job] \<close>, with a
  last unfinished piece completed by a newline on the terminal only. Partial and interrupted
  writes change nothing.\<close>

lemma sink_session:
  assumes "qwe_sink_open True open_file job dir = Some s" and "healthy (sk_log s)" and "healthy tm"
    and "sink_writes ok chunks s tm k = Some (s1, tm1, k1)"
    and "qwe_sink_close ok s1 tm1 k1 = Some (log, tm2, k2)"
  shows "of_data log = of_data (sk_log s) @ concat chunks
    \<and> of_data tm2 = of_data tm @ (case term_lines job [] (concat chunks) of (done_lines, rest) \<Rightarrow>
         done_lines @ (if rest = [] then [] else line_out job rest))"
proof -
  have s: "sk_job s = job" "sk_line s = []"
    using assms(1) by (auto simp: qwe_sink_open_def split: option.splits)
  note w = sink_writes_lines [OF assms(4,3,2), unfolded s]
  show ?thesis
    using w write_all_healthy [of tm1] assms(5)
    by (auto simp: qwe_sink_close_def emit_line_def line_out_def split_beta split: if_splits)
qed

end
