(* ===== verification/Sched.thy ===== *)
theory Sched
  imports Lifecycle
begin

text \<open>
  The scheduling decision (\<open>src/kernel/sched.h\<close>, \<open>sched.c\<close>): a pure function of the
  jobs' states, their needs and the limits, which says which event each job is to be sent. The
  theorems say exactly which jobs it settles, that it respects the run's limit and every
  group's, that it grants whatever the limits allow, that the lifecycle accepts every event it
  produces, and that an acyclic run with nothing running always has something to send.
\<close>

section \<open>The pass\<close>

record qwe_sched_job =
  sj_state :: qwe_lc_state
  sj_needs :: "nat list"
  sj_group :: nat

record qwe_sched_event =
  se_job :: nat
  se_event :: qwe_lc_event

text \<open>\<open>(size_t)l\<close> of a \<open>long\<close>: the value modulo 2 to the 64.\<close>

definition size_of_long :: "int \<Rightarrow> nat" where
  "size_of_long l = nat (l mod 2 ^ 64)"

definition group_used :: "qwe_sched_job list \<Rightarrow> nat \<Rightarrow> qwe_sched_event list \<Rightarrow> nat" where
  "group_used jobs grp out =
     length (filter (\<lambda>j. sj_group j = grp \<and> qwe_lc_state_is_running (sj_state j)) jobs)
     + length (filter (\<lambda>e. sj_group (jobs ! se_job e) = grp) out)"

fun needs_flags :: "qwe_sched_job list \<Rightarrow> nat list \<Rightarrow> bool \<times> bool \<Rightarrow> bool \<times> bool" where
  "needs_flags jobs [] fl = fl"
| "needs_flags jobs (d # ds) (all_final, all_success) =
     (let s = sj_state (jobs ! d) in
      needs_flags jobs ds
        (if \<not> qwe_lc_state_is_final s then (False, all_success)
         else if s \<noteq> QWE_LC_SUCCESS then (all_final, False)
         else (all_final, all_success)))"

primrec settle_loop :: "qwe_sched_job list \<Rightarrow> nat list \<Rightarrow> qwe_sched_event list" where
  "settle_loop jobs [] = []"
| "settle_loop jobs (i # is) =
     (if sj_state (jobs ! i) \<noteq> QWE_LC_PENDING then settle_loop jobs is
      else case needs_flags jobs (sj_needs (jobs ! i)) (True, True) of
        (all_final, all_success) \<Rightarrow>
          if \<not> all_final then settle_loop jobs is
          else \<lparr>se_job = i,
                se_event = (if all_success then QWE_LC_EV_NEEDS_MET else QWE_LC_EV_NEEDS_FAILED)\<rparr>
               # settle_loop jobs is)"

definition running_count :: "qwe_sched_job list \<Rightarrow> nat" where
  "running_count jobs = length (filter (\<lambda>j. qwe_lc_state_is_running (sj_state j)) jobs)"

primrec grant_loop ::
    "qwe_sched_job list \<Rightarrow> int \<Rightarrow> int list \<Rightarrow> nat \<Rightarrow> nat list \<Rightarrow> qwe_sched_event list \<Rightarrow> qwe_sched_event list" where
  "grant_loop jobs max_parallel caps running [] out = out"
| "grant_loop jobs max_parallel caps running (i # is) out =
     (if sj_state (jobs ! i) \<noteq> QWE_LC_READY then grant_loop jobs max_parallel caps running is out
      else if max_parallel > 0 \<and> running + length out \<ge> size_of_long max_parallel then out
      else if sj_group (jobs ! i) \<noteq> 0
              \<and> group_used jobs (sj_group (jobs ! i)) out \<ge> size_of_long (caps ! (sj_group (jobs ! i) - 1))
           then grant_loop jobs max_parallel caps running is out
      else grant_loop jobs max_parallel caps running is
             (out @ [\<lparr>se_job = i, se_event = QWE_LC_EV_SLOT_GRANTED\<rparr>]))"

definition qwe_sched_pass :: "qwe_sched_job list \<Rightarrow> int \<Rightarrow> int list \<Rightarrow> qwe_sched_event list" where
  "qwe_sched_pass jobs max_parallel caps =
     (let settled = settle_loop jobs [0..<length jobs] in
      if settled \<noteq> [] then settled
      else grant_loop jobs max_parallel caps (running_count jobs) [0..<length jobs] [])"

section \<open>Settling\<close>

lemma needs_flags:
  "needs_flags jobs ds (a, b) =
     (a \<and> (\<forall>d \<in> set ds. qwe_lc_state_is_final (sj_state (jobs ! d))),
      b \<and> (\<forall>d \<in> set ds. qwe_lc_state_is_final (sj_state (jobs ! d)) \<longrightarrow> sj_state (jobs ! d) = QWE_LC_SUCCESS))"
  by (induction ds arbitrary: a b) (auto simp: Let_def)

definition needs_final :: "qwe_sched_job list \<Rightarrow> nat \<Rightarrow> bool" where
  "needs_final jobs i \<longleftrightarrow> (\<forall>d \<in> set (sj_needs (jobs ! i)). qwe_lc_state_is_final (sj_state (jobs ! d)))"

definition needs_success :: "qwe_sched_job list \<Rightarrow> nat \<Rightarrow> bool" where
  "needs_success jobs i \<longleftrightarrow> (\<forall>d \<in> set (sj_needs (jobs ! i)). sj_state (jobs ! d) = QWE_LC_SUCCESS)"

definition settles :: "qwe_sched_job list \<Rightarrow> nat \<Rightarrow> bool" where
  "settles jobs i \<longleftrightarrow> sj_state (jobs ! i) = QWE_LC_PENDING \<and> needs_final jobs i"

definition settle_event :: "qwe_sched_job list \<Rightarrow> nat \<Rightarrow> qwe_sched_event" where
  "settle_event jobs i = \<lparr>se_job = i,
     se_event = (if needs_success jobs i then QWE_LC_EV_NEEDS_MET else QWE_LC_EV_NEEDS_FAILED)\<rparr>"

text \<open>The loop is the list of the settled jobs, in index order.\<close>

lemma settle_loop_eq: "settle_loop jobs is = map (settle_event jobs) (filter (settles jobs) is)"
  by (induction "is")
    (auto simp: needs_flags settles_def settle_event_def needs_final_def needs_success_def split: if_splits)

section \<open>Granting\<close>

definition slot_event :: "nat \<Rightarrow> qwe_sched_event" where
  "slot_event i = \<lparr>se_job = i, se_event = QWE_LC_EV_SLOT_GRANTED\<rparr>"

definition par_full :: "int \<Rightarrow> nat \<Rightarrow> bool" where
  "par_full max_parallel used \<longleftrightarrow> max_parallel > 0 \<and> used \<ge> size_of_long max_parallel"

definition grp_full :: "qwe_sched_job list \<Rightarrow> int list \<Rightarrow> nat \<Rightarrow> qwe_sched_event list \<Rightarrow> bool" where
  "grp_full jobs caps g out \<longleftrightarrow> g \<noteq> 0 \<and> group_used jobs g out \<ge> size_of_long (caps ! (g - 1))"

lemma grant_loop_simps:
  "sj_state (jobs ! i) \<noteq> QWE_LC_READY \<Longrightarrow>
     grant_loop jobs mp caps running (i # is) out = grant_loop jobs mp caps running is out"
  "sj_state (jobs ! i) = QWE_LC_READY \<Longrightarrow> par_full mp (running + length out) \<Longrightarrow>
     grant_loop jobs mp caps running (i # is) out = out"
  "sj_state (jobs ! i) = QWE_LC_READY \<Longrightarrow> \<not> par_full mp (running + length out) \<Longrightarrow>
     grp_full jobs caps (sj_group (jobs ! i)) out \<Longrightarrow>
     grant_loop jobs mp caps running (i # is) out = grant_loop jobs mp caps running is out"
  "sj_state (jobs ! i) = QWE_LC_READY \<Longrightarrow> \<not> par_full mp (running + length out) \<Longrightarrow>
     \<not> grp_full jobs caps (sj_group (jobs ! i)) out \<Longrightarrow>
     grant_loop jobs mp caps running (i # is) out = grant_loop jobs mp caps running is (out @ [slot_event i])"
  by (auto simp: par_full_def grp_full_def slot_event_def)

declare grant_loop.simps(2) [simp del]

text \<open>The cases of one iteration, as an induction rule.\<close>

lemma grant_loop_cases [case_names Skip Break Full Grant]:
  obtains "sj_state (jobs ! i) \<noteq> QWE_LC_READY"
  | "sj_state (jobs ! i) = QWE_LC_READY" "par_full mp (running + length out)"
  | "sj_state (jobs ! i) = QWE_LC_READY" "\<not> par_full mp (running + length out)"
      "grp_full jobs caps (sj_group (jobs ! i)) out"
  | "sj_state (jobs ! i) = QWE_LC_READY" "\<not> par_full mp (running + length out)"
      "\<not> grp_full jobs caps (sj_group (jobs ! i)) out"
  by blast

lemma grant_loop_shape:
  "sorted_wrt (<) is \<Longrightarrow> \<exists>gs. grant_loop jobs mp caps running is out = out @ map slot_event gs
     \<and> set gs \<subseteq> {i \<in> set is. sj_state (jobs ! i) = QWE_LC_READY} \<and> sorted_wrt (<) gs"
proof (induction "is" arbitrary: out)
  case (Cons i "is")
  then have IH: "\<exists>gs. grant_loop jobs mp caps running is out' = out' @ map slot_event gs
      \<and> set gs \<subseteq> {i \<in> set is. sj_state (jobs ! i) = QWE_LC_READY} \<and> sorted_wrt (<) gs" for out'
    by simp
  show ?case
  proof (cases rule: grant_loop_cases [where jobs = jobs and i = i and mp = mp and running = running and out = out and caps = caps])
    case Grant
    from IH [of "out @ [slot_event i]"] obtain gs where
      "grant_loop jobs mp caps running is (out @ [slot_event i]) = out @ map slot_event (i # gs)"
      "set gs \<subseteq> {i \<in> set is. sj_state (jobs ! i) = QWE_LC_READY}" "sorted_wrt (<) gs" by auto
    then show ?thesis
      using Cons.prems Grant(1) by (intro exI [of _ "i # gs"]) (auto simp: grant_loop_simps(4) [OF Grant])
  next
    case Break
    then show ?thesis by (intro exI [of _ "[]"]) (simp add: grant_loop_simps(2))
  next
    case Skip
    with IH [of out] show ?thesis by (auto simp: grant_loop_simps(1))
  next
    case Full
    with IH [of out] show ?thesis by (auto simp: grant_loop_simps(3))
  qed
qed simp

text \<open>The two limits: neither the number running nor a group's use ever passes its limit.\<close>

lemma grant_loop_par:
  "mp > 0 \<Longrightarrow> running + length (grant_loop jobs mp caps running is out)
     \<le> max (running + length out) (size_of_long mp)"
proof (induction "is" arbitrary: out)
  case (Cons i "is")
  show ?case
  proof (cases rule: grant_loop_cases [where jobs = jobs and i = i and mp = mp and running = running and out = out and caps = caps])
    case Grant
    have "running + length (grant_loop jobs mp caps running is (out @ [slot_event i]))
        \<le> max (running + length (out @ [slot_event i])) (size_of_long mp)"
      using Cons by blast
    then show ?thesis
      using Grant(2) Cons.prems by (simp add: grant_loop_simps(4) [OF Grant] par_full_def)
  qed (use Cons in \<open>auto simp: grant_loop_simps\<close>)
qed simp

lemma group_used_snoc:
  "group_used jobs g (out @ [slot_event i]) = group_used jobs g out + (if sj_group (jobs ! i) = g then 1 else 0)"
  by (simp add: group_used_def slot_event_def)

lemma grant_loop_group:
  "g \<noteq> 0 \<Longrightarrow> group_used jobs g (grant_loop jobs mp caps running is out)
     \<le> max (group_used jobs g out) (size_of_long (caps ! (g - 1)))"
proof (induction "is" arbitrary: out)
  case (Cons i "is")
  show ?case
  proof (cases rule: grant_loop_cases [where jobs = jobs and i = i and mp = mp and running = running and out = out and caps = caps])
    case Grant
    have "group_used jobs g (grant_loop jobs mp caps running is (out @ [slot_event i]))
        \<le> max (group_used jobs g (out @ [slot_event i])) (size_of_long (caps ! (g - 1)))"
      using Cons by blast
    then show ?thesis
      using Grant(3) Cons.prems
      by (auto simp: grant_loop_simps(4) [OF Grant] grp_full_def group_used_snoc split: if_splits)
  qed (use Cons in \<open>auto simp: grant_loop_simps\<close>)
qed simp

lemma grant_loop_mono:
  "group_used jobs g out \<le> group_used jobs g (grant_loop jobs mp caps running is out)
   \<and> length out \<le> length (grant_loop jobs mp caps running is out)"
proof (induction "is" arbitrary: out)
  case (Cons i "is")
  show ?case
  proof (cases rule: grant_loop_cases [where jobs = jobs and i = i and mp = mp and running = running and out = out and caps = caps])
    case Grant
    from Cons [of "out @ [slot_event i]"] show ?thesis
      by (auto simp: grant_loop_simps(4) [OF Grant] group_used_snoc split: if_splits)
  qed (use Cons in \<open>auto simp: grant_loop_simps\<close>)
qed simp

text \<open>A ready job that is passed over is passed over because of a limit that is used up at the end.\<close>

lemma grant_loop_complete:
  "i \<in> set is \<Longrightarrow> sj_state (jobs ! i) = QWE_LC_READY \<Longrightarrow>
     slot_event i \<in> set (grant_loop jobs mp caps running is out)
     \<or> par_full mp (running + length (grant_loop jobs mp caps running is out))
     \<or> grp_full jobs caps (sj_group (jobs ! i)) (grant_loop jobs mp caps running is out)"
proof (induction "is" arbitrary: out)
  case (Cons j "is")
  have keep: "set out' \<subseteq> set (grant_loop jobs mp caps running is out')" for out'
  proof (induction "is" arbitrary: out')
    case (Cons a "is")
    then show ?case
      by (cases rule: grant_loop_cases [where jobs = jobs and i = a and mp = mp and running = running and out = out' and caps = caps])
        (auto simp: grant_loop_simps subset_iff)
  qed simp
  show ?case
  proof (cases rule: grant_loop_cases [where jobs = jobs and i = j and mp = mp and running = running and out = out and caps = caps])
    case Skip
    with Cons show ?thesis by (auto simp: grant_loop_simps(1))
  next
    case Break
    then show ?thesis by (simp add: grant_loop_simps(2))
  next
    case Full
    have "grp_full jobs caps (sj_group (jobs ! j)) (grant_loop jobs mp caps running is out)"
      using Full(3) grant_loop_mono [of jobs "sj_group (jobs ! j)" out mp caps running "is"]
      by (auto simp: grp_full_def)
    with Cons show ?thesis by (auto simp: grant_loop_simps(3) [OF Full])
  next
    case Grant
    with Cons keep [of "out @ [slot_event j]"] show ?thesis by (auto simp: grant_loop_simps(4) [OF Grant])
  qed
qed simp

section \<open>States and events\<close>

lemma lc_state_classes:
  "s = QWE_LC_PENDING \<or> s = QWE_LC_READY \<or> qwe_lc_state_is_running s \<or> qwe_lc_state_is_final s"
  by (cases s) (simp_all add: lc_pred_defs lc_order)

lemma not_final_pending: "\<not> qwe_lc_state_is_final QWE_LC_PENDING" "\<not> qwe_lc_state_is_final QWE_LC_READY"
  by (simp_all add: lc_pred_defs lc_order)

lemma sched_cells:
  "c_kind (qwe_lc_cell QWE_LC_PENDING QWE_LC_EV_NEEDS_MET) = QWE_LC_TRANSITION"
  "c_kind (qwe_lc_cell QWE_LC_PENDING QWE_LC_EV_NEEDS_FAILED) = QWE_LC_TRANSITION"
  "c_kind (qwe_lc_cell QWE_LC_READY QWE_LC_EV_SLOT_GRANTED) = QWE_LC_TRANSITION"
  by (simp_all add: qwe_lc_cell_def lc_cell_defs)

lemma pass_cases [consumes 0, case_names Settle Grant]:
  obtains "filter (settles jobs) [0..<length jobs] \<noteq> []"
      "qwe_sched_pass jobs mp caps = map (settle_event jobs) (filter (settles jobs) [0..<length jobs])"
  | "filter (settles jobs) [0..<length jobs] = []"
      "qwe_sched_pass jobs mp caps = grant_loop jobs mp caps (running_count jobs) [0..<length jobs] []"
  by (cases "filter (settles jobs) [0..<length jobs] = []")
    (auto simp: qwe_sched_pass_def settle_loop_eq)

lemma size_of_long_pos: "0 < l \<Longrightarrow> l < 2 ^ 63 \<Longrightarrow> size_of_long l = nat l"
  by (simp add: size_of_long_def)

text \<open>With nothing running and the limits positive, a ready job is granted a slot.\<close>

lemma grant_nonempty:
  assumes "i < length jobs" "sj_state (jobs ! i) = QWE_LC_READY" "running_count jobs = 0"
    and "mp < 2 ^ 63"
    and "\<forall>j \<in> set jobs. sj_group j \<noteq> 0 \<longrightarrow> 0 < caps ! (sj_group j - 1) \<and> caps ! (sj_group j - 1) < 2 ^ 63"
  shows "grant_loop jobs mp caps (running_count jobs) [0..<length jobs] [] \<noteq> []"
proof
  assume e: "grant_loop jobs mp caps (running_count jobs) [0..<length jobs] [] = []"
  have u: "group_used jobs g [] = 0" for g
    using assms(3) by (auto simp: group_used_def running_count_def filter_empty_conv)
  have "i \<in> set [0..<length jobs]" using assms(1) by simp
  from grant_loop_complete [OF this assms(2), of mp caps "running_count jobs" "[]"] e assms(3)
  have "par_full mp 0 \<or> grp_full jobs caps (sj_group (jobs ! i)) []" by simp
  moreover have "\<not> par_full mp 0" using assms(4) by (auto simp: par_full_def size_of_long_pos)
  moreover have "\<not> grp_full jobs caps (sj_group (jobs ! i)) []"
    using assms(1,5) by (auto simp: grp_full_def u size_of_long_pos)
  ultimately show False by blast
qed

text \<open>With nothing running and a job left to do, a pass has an event to send.\<close>

lemma sched_progress:
  assumes "\<forall>i < length jobs. \<forall>d \<in> set (sj_needs (jobs ! i)). d < length jobs \<and> rank d < (rank i :: nat)"
    and "\<forall>j \<in> set jobs. sj_group j \<noteq> 0 \<longrightarrow> 0 < caps ! (sj_group j - 1) \<and> caps ! (sj_group j - 1) < 2 ^ 63"
    and "mp < 2 ^ 63" and "running_count jobs = 0"
    and "i0 < length jobs" and "\<not> qwe_lc_state_is_final (sj_state (jobs ! i0))"
  shows "qwe_sched_pass jobs mp caps \<noteq> []"
proof -
  let ?open = "\<lambda>i. i < length jobs \<and> \<not> qwe_lc_state_is_final (sj_state (jobs ! i))"
  obtain i where i: "?open i" and least: "\<And>k. ?open k \<Longrightarrow> rank i \<le> rank k"
    using assms(5,6) ex_has_least_nat [of ?open i0 rank] by blast
  have "needs_final jobs i"
    using i least assms(1) by (fastforce simp: needs_final_def)
  moreover have "sj_state (jobs ! i) = QWE_LC_PENDING \<or> sj_state (jobs ! i) = QWE_LC_READY"
    using i assms(4) lc_state_classes [of "sj_state (jobs ! i)"]
    by (auto simp: running_count_def filter_empty_conv)
  ultimately consider "settles jobs i" | "sj_state (jobs ! i) = QWE_LC_READY"
    by (auto simp: settles_def)
  then show ?thesis
  proof cases
    case 1
    with i have "filter (settles jobs) [0..<length jobs] \<noteq> []" by (auto simp: filter_empty_conv)
    then show ?thesis by (simp add: qwe_sched_pass_def settle_loop_eq)
  next
    case 2
    with grant_nonempty [OF _ 2 assms(4,3,2)] i show ?thesis
      by (auto simp: qwe_sched_pass_def Let_def)
  qed
qed

text \<open>What the events of a pass are about.\<close>

lemma pass_events:
  "distinct (map se_job (qwe_sched_pass jobs mp caps))
   \<and> (\<forall>e \<in> set (qwe_sched_pass jobs mp caps). se_job e < length jobs
        \<and> (sj_state (jobs ! se_job e) = QWE_LC_PENDING \<and> se_event e \<in> {QWE_LC_EV_NEEDS_MET, QWE_LC_EV_NEEDS_FAILED}
           \<or> sj_state (jobs ! se_job e) = QWE_LC_READY \<and> se_event e = QWE_LC_EV_SLOT_GRANTED))"
proof (cases rule: pass_cases [where jobs = jobs and mp = mp and caps = caps])
  case Settle
  have "map se_job (map (settle_event jobs) xs) = xs" for xs
    by (induction xs) (simp_all add: settle_event_def)
  with Settle show ?thesis by (auto simp: settle_event_def settles_def)
next
  case Grant
  obtain gs where gs: "qwe_sched_pass jobs mp caps = map slot_event gs"
      "set gs \<subseteq> {i \<in> set [0..<length jobs]. sj_state (jobs ! i) = QWE_LC_READY}" "sorted_wrt (<) gs"
    using grant_loop_shape [of "[0..<length jobs]" jobs mp caps "running_count jobs" "[]"] Grant(2) by auto
  have "map se_job (map slot_event gs) = gs" by (induction gs) (simp_all add: slot_event_def)
  with gs show ?thesis by (auto simp: slot_event_def strict_sorted_iff)
qed

section \<open>Properties\<close>

definition jobs_ex :: "qwe_sched_job list" where
  "jobs_ex = [\<lparr>sj_state = QWE_LC_SUCCESS, sj_needs = [], sj_group = 0\<rparr>,
              \<lparr>sj_state = QWE_LC_FAILED, sj_needs = [], sj_group = 0\<rparr>,
              \<lparr>sj_state = QWE_LC_PENDING, sj_needs = [0], sj_group = 0\<rparr>,
              \<lparr>sj_state = QWE_LC_PENDING, sj_needs = [0, 1], sj_group = 0\<rparr>,
              \<lparr>sj_state = QWE_LC_PENDING, sj_needs = [2], sj_group = 0\<rparr>]"

definition ready_ex :: "qwe_sched_job list" where
  "ready_ex = [\<lparr>sj_state = QWE_LC_STEP_RUNNING, sj_needs = [], sj_group = 1\<rparr>,
               \<lparr>sj_state = QWE_LC_READY, sj_needs = [], sj_group = 1\<rparr>,
               \<lparr>sj_state = QWE_LC_READY, sj_needs = [], sj_group = 0\<rparr>,
               \<lparr>sj_state = QWE_LC_READY, sj_needs = [], sj_group = 0\<rparr>]"

text \<open>C13. A pass settles exactly the pending jobs whose needs are all final, each once and in index
  order: with needs-met when every need succeeded and with needs-failed otherwise; and only when
  there is none of them does it grant slots.\<close>

theorem sched_settles_exactly:
  assumes "i < length jobs" and "sj_state (jobs ! i) = QWE_LC_PENDING" and "needs_final jobs i"
  shows "sorted_wrt (<) (map se_job (qwe_sched_pass jobs mp caps))
    \<and> (\<forall>e. e \<in> set (qwe_sched_pass jobs mp caps) \<longleftrightarrow>
         se_job e < length jobs \<and> sj_state (jobs ! se_job e) = QWE_LC_PENDING \<and> needs_final jobs (se_job e)
         \<and> se_event e = (if needs_success jobs (se_job e) then QWE_LC_EV_NEEDS_MET else QWE_LC_EV_NEEDS_FAILED))"
proof -
  have "i \<in> set (filter (settles jobs) [0..<length jobs])" using assms by (simp add: settles_def)
  then have "filter (settles jobs) [0..<length jobs] \<noteq> []" by (rule list.set_cases) simp_all
  then have p: "qwe_sched_pass jobs mp caps = map (settle_event jobs) (filter (settles jobs) [0..<length jobs])"
    by (simp add: qwe_sched_pass_def settle_loop_eq)
  have m: "map se_job (map (settle_event jobs) xs) = xs" for xs
    by (induction xs) (simp_all add: settle_event_def)
  have "e \<in> set (map (settle_event jobs) (filter (settles jobs) [0..<length jobs])) \<longleftrightarrow>
      se_job e < length jobs \<and> settles jobs (se_job e) \<and> se_event e = se_event (settle_event jobs (se_job e))" for e
    by (cases e) (auto simp: settle_event_def)
  then show ?thesis unfolding p m
    by (simp add: sorted_wrt_filter settles_def settle_event_def)
qed

theorem sched_settles_exactly_witness:
  "sj_state (jobs_ex ! 2) = QWE_LC_PENDING \<and> needs_final jobs_ex 2
   \<and> qwe_sched_pass jobs_ex 0 [] = [\<lparr>se_job = 2, se_event = QWE_LC_EV_NEEDS_MET\<rparr>, \<lparr>se_job = 3, se_event = QWE_LC_EV_NEEDS_FAILED\<rparr>]
   \<and> sorted_wrt (<) (map se_job (qwe_sched_pass jobs_ex 0 []))"
proof -
  have h: "2 < length jobs_ex" "sj_state (jobs_ex ! 2) = QWE_LC_PENDING" "needs_final jobs_ex 2"
    by code_simp+
  moreover have "qwe_sched_pass jobs_ex 0 [] =
      [\<lparr>se_job = 2, se_event = QWE_LC_EV_NEEDS_MET\<rparr>, \<lparr>se_job = 3, se_event = QWE_LC_EV_NEEDS_FAILED\<rparr>]"
    by code_simp
  ultimately show ?thesis using sched_settles_exactly [OF h, of 0 "[]"] by blast
qed

text \<open>C14. The limits hold: whatever a pass grants, the number of running jobs together with the
  grants stays within \<open>max_parallel\<close> when that is positive, and the jobs of a group that hold
  or are granted a session stay within the group's cap, unless the limit was already exceeded, in
  which case nothing is added; and every grant goes to a ready job, each at most once.\<close>

theorem sched_respects_limits:
  assumes "\<forall>e \<in> set (qwe_sched_pass jobs mp caps). se_event e = QWE_LC_EV_SLOT_GRANTED"
  shows "(0 < mp \<longrightarrow> running_count jobs + length (qwe_sched_pass jobs mp caps)
            \<le> max (running_count jobs) (size_of_long mp))
    \<and> (\<forall>g. g \<noteq> 0 \<longrightarrow> group_used jobs g (qwe_sched_pass jobs mp caps)
            \<le> max (group_used jobs g []) (size_of_long (caps ! (g - 1))))
    \<and> distinct (map se_job (qwe_sched_pass jobs mp caps))
    \<and> (\<forall>e \<in> set (qwe_sched_pass jobs mp caps). sj_state (jobs ! se_job e) = QWE_LC_READY)"
proof (cases rule: pass_cases [where jobs = jobs and mp = mp and caps = caps])
  case Settle
  then obtain i where "settle_event jobs i \<in> set (qwe_sched_pass jobs mp caps)"
    by (cases "filter (settles jobs) [0..<length jobs]") auto
  with assms have "se_event (settle_event jobs i) = QWE_LC_EV_SLOT_GRANTED" by blast
  then show ?thesis by (simp add: settle_event_def split: if_splits)
next
  case Grant
  obtain gs where gs: "qwe_sched_pass jobs mp caps = map slot_event gs"
      "set gs \<subseteq> {i \<in> set [0..<length jobs]. sj_state (jobs ! i) = QWE_LC_READY}" "sorted_wrt (<) gs"
    using grant_loop_shape [of "[0..<length jobs]" jobs mp caps "running_count jobs" "[]"] Grant(2) by auto
  have "map se_job (map slot_event gs) = gs" by (induction gs) (simp_all add: slot_event_def)
  with gs have "distinct (map se_job (qwe_sched_pass jobs mp caps))"
    by (simp add: strict_sorted_iff)
  moreover have "\<forall>e \<in> set (qwe_sched_pass jobs mp caps). sj_state (jobs ! se_job e) = QWE_LC_READY"
    using gs by (auto simp: slot_event_def)
  ultimately show ?thesis
    using grant_loop_par [of mp "running_count jobs" jobs caps "[0..<length jobs]" "[]"]
      grant_loop_group [of _ jobs mp caps "running_count jobs" "[0..<length jobs]" "[]"] Grant(2)
    by simp
qed

theorem sched_respects_limits_witness:
  "qwe_sched_pass ready_ex 2 [1] = [\<lparr>se_job = 2, se_event = QWE_LC_EV_SLOT_GRANTED\<rparr>]
   \<and> running_count ready_ex + length (qwe_sched_pass ready_ex 2 [1]) \<le> max (running_count ready_ex) (size_of_long 2)
   \<and> group_used ready_ex 1 (qwe_sched_pass ready_ex 2 [1]) \<le> max (group_used ready_ex 1 []) (size_of_long ([1] ! 0))"
proof -
  have e: "qwe_sched_pass ready_ex 2 [1] = [\<lparr>se_job = 2, se_event = QWE_LC_EV_SLOT_GRANTED\<rparr>]"
    by code_simp
  then have "\<forall>e \<in> set (qwe_sched_pass ready_ex 2 [1]). se_event e = QWE_LC_EV_SLOT_GRANTED" by simp
  note lim = sched_respects_limits [OF this]
  then have "group_used ready_ex 1 (qwe_sched_pass ready_ex 2 [1]) \<le> max (group_used ready_ex 1 []) (size_of_long ([1] ! 0))"
    by (metis One_nat_def diff_Suc_1 zero_neq_one)
  with lim e show ?thesis by simp
qed

text \<open>Nothing is held back without a reason: when no job can be settled, a ready job that a
  pass does not grant a slot is one for which, after the pass, the run's limit or its group's cap is
  used up.\<close>

lemma sched_is_work_conserving:
  assumes "i < length jobs" and "sj_state (jobs ! i) = QWE_LC_READY"
    and "\<not> (\<exists>k < length jobs. sj_state (jobs ! k) = QWE_LC_PENDING \<and> needs_final jobs k)"
    and "\<lparr>se_job = i, se_event = QWE_LC_EV_SLOT_GRANTED\<rparr> \<notin> set (qwe_sched_pass jobs mp caps)"
  shows "(0 < mp \<and> size_of_long mp \<le> running_count jobs + length (qwe_sched_pass jobs mp caps))
    \<or> (sj_group (jobs ! i) \<noteq> 0 \<and> size_of_long (caps ! (sj_group (jobs ! i) - 1))
          \<le> group_used jobs (sj_group (jobs ! i)) (qwe_sched_pass jobs mp caps))"
proof -
  have "filter (settles jobs) [0..<length jobs] = []"
    using assms(3) by (auto simp: filter_empty_conv settles_def)
  then have p: "qwe_sched_pass jobs mp caps = grant_loop jobs mp caps (running_count jobs) [0..<length jobs] []"
    by (simp add: qwe_sched_pass_def settle_loop_eq)
  have "i \<in> set [0..<length jobs]" using assms(1) by simp
  from grant_loop_complete [OF this assms(2), of mp caps "running_count jobs" "[]"] assms(4)
  show ?thesis unfolding p by (simp add: slot_event_def par_full_def grp_full_def)
qed

text \<open>No event of a pass can stop the engine: the lifecycle table has a transition for it in
  the state its job is in.\<close>

lemma sched_events_are_accepted:
  "\<forall>e \<in> set (qwe_sched_pass jobs mp caps).
     se_job e < length jobs \<and> c_kind (qwe_lc_cell (sj_state (jobs ! se_job e)) (se_event e)) = QWE_LC_TRANSITION"
proof (cases rule: pass_cases [where jobs = jobs and mp = mp and caps = caps])
  case Settle
  then show ?thesis by (auto simp: settle_event_def settles_def sched_cells)
next
  case Grant
  obtain gs where gs: "qwe_sched_pass jobs mp caps = map slot_event gs"
      "set gs \<subseteq> {i \<in> set [0..<length jobs]. sj_state (jobs ! i) = QWE_LC_READY}"
    using grant_loop_shape [of "[0..<length jobs]" jobs mp caps "running_count jobs" "[]"] Grant(2) by auto
  then show ?thesis by (auto simp: slot_event_def sched_cells)
qed

end
