(* ===== verification/Dag.thy ===== *)
theory Dag
  imports Qwe_Prelude
begin

text \<open>
  The structural checks on the \<open>needs:\<close> graph (\<open>src/kernel/dag.h\<close>, \<open>dag.c\<close>): unknown
  needs first, then a depth-first search for a cycle, with the source's colours and its stack of
  the jobs on the current path. The recursion of \<open>visit\<close> carries a depth bound; a call of
  \<open>qwe_dag_check\<close> gives it one more than the number of jobs and is shown never to run out.
\<close>

section \<open>The check\<close>

record qwe_dag_job =
  dj_id :: cstring
  dj_needs :: "cstring list"

datatype qwe_dag_status = QWE_DAG_OK | QWE_DAG_UNKNOWN_NEED | QWE_DAG_CYCLE | QWE_DAG_NO_MEMORY

record qwe_dag_error =
  de_status :: qwe_dag_status
  de_job :: nat
  de_need :: nat
  de_message :: cstring

definition dag_error_zero :: qwe_dag_error where
  "dag_error_zero = \<lparr>de_status = QWE_DAG_OK, de_job = 0, de_need = 0, de_message = []\<rparr>"

text \<open>The index of the first job with the id; \<open>None\<close> is the code's -1.\<close>

fun dag_find_from :: "nat \<Rightarrow> qwe_dag_job list \<Rightarrow> cstring \<Rightarrow> nat option" where
  "dag_find_from i [] x = None"
| "dag_find_from i (j # js) x = (if dj_id j = x then Some i else dag_find_from (Suc i) js x)"

definition dag_find :: "qwe_dag_job list \<Rightarrow> cstring \<Rightarrow> nat option" where
  "dag_find jobs x = dag_find_from 0 jobs x"

text \<open>\<open>(size_t)find(...)\<close>: -1 becomes the largest \<open>size_t\<close>.\<close>

definition dag_ix :: "qwe_dag_job list \<Rightarrow> cstring \<Rightarrow> nat" where
  "dag_ix jobs x = (case dag_find jobs x of Some d \<Rightarrow> d | None \<Rightarrow> 2 ^ 64 - 1)"

datatype dag_color = WHITE | GREY | BLACK

record walk =
  wk_color :: "dag_color list"
  wk_stack :: "nat list"
  wk_err :: qwe_dag_error

text \<open>The buffer of a message holds 255 bytes and a NUL; longer text is cut.\<close>

definition dag_msg :: "cstring \<Rightarrow> cstring" where
  "dag_msg s = take 255 s"

definition cycle_text :: "qwe_dag_job list \<Rightarrow> nat list \<Rightarrow> nat \<Rightarrow> cstring" where
  "cycle_text jobs path d =
     ''needs cycle: '' @ concat (map (\<lambda>s. dj_id (jobs ! s) @ '' -> '') path) @ dj_id (jobs ! d)"

definition report_cycle :: "qwe_dag_job list \<Rightarrow> walk \<Rightarrow> nat \<Rightarrow> walk" where
  "report_cycle jobs w d =
     w\<lparr>wk_err := (wk_err w)\<lparr>de_status := QWE_DAG_CYCLE, de_job := d,
        de_message := dag_msg (cycle_text jobs (dropWhile (\<lambda>s. s \<noteq> d) (wk_stack w)) d)\<rparr>\<rparr>"

fun visit :: "nat \<Rightarrow> qwe_dag_job list \<Rightarrow> walk \<Rightarrow> nat \<Rightarrow> (bool \<times> walk) option"
  and visit_needs :: "nat \<Rightarrow> qwe_dag_job list \<Rightarrow> walk \<Rightarrow> nat \<Rightarrow> cstring list \<Rightarrow> (bool \<times> walk) option" where
  "visit 0 jobs w j = None"
| "visit (Suc f) jobs w j =
     visit_needs f jobs (w\<lparr>wk_color := (wk_color w)[j := GREY], wk_stack := wk_stack w @ [j]\<rparr>) j
       (dj_needs (jobs ! j))"
| "visit_needs f jobs w j [] =
     Some (False, w\<lparr>wk_stack := butlast (wk_stack w), wk_color := (wk_color w)[j := BLACK]\<rparr>)"
| "visit_needs f jobs w j (x # xs) =
     (let d = dag_ix jobs x in
      if wk_color w ! d = GREY then Some (True, report_cycle jobs w d)
      else if wk_color w ! d = WHITE then
        (case visit f jobs w d of
           None \<Rightarrow> None
         | Some (True, w') \<Rightarrow> Some (True, w')
         | Some (False, w') \<Rightarrow> visit_needs f jobs w' j xs)
      else visit_needs f jobs w j xs)"

text \<open>The first need, in the order of the jobs and of their needs, that names no job.\<close>

fun unknown_in :: "qwe_dag_job list \<Rightarrow> nat \<Rightarrow> cstring list \<Rightarrow> nat option" where
  "unknown_in jobs k [] = None"
| "unknown_in jobs k (x # xs) = (if dag_find jobs x = None then Some k else unknown_in jobs (Suc k) xs)"

fun unknown_need :: "qwe_dag_job list \<Rightarrow> nat \<Rightarrow> qwe_dag_job list \<Rightarrow> (nat \<times> nat) option" where
  "unknown_need jobs i [] = None"
| "unknown_need jobs i (j # js) =
     (case unknown_in jobs 0 (dj_needs j) of
        Some k \<Rightarrow> Some (i, k)
      | None \<Rightarrow> unknown_need jobs (Suc i) js)"

text \<open>\<open>for (i = 0; i < n && !found; i++)\<close>.\<close>

fun walk_all :: "nat \<Rightarrow> qwe_dag_job list \<Rightarrow> walk \<Rightarrow> nat list \<Rightarrow> (bool \<times> walk) option" where
  "walk_all f jobs w [] = Some (False, w)"
| "walk_all f jobs w (i # is) =
     (if wk_color w ! i = WHITE then
        (case visit f jobs w i of
           None \<Rightarrow> None
         | Some (True, w') \<Rightarrow> Some (True, w')
         | Some (False, w') \<Rightarrow> walk_all f jobs w' is)
      else walk_all f jobs w is)"

definition unknown_text :: "qwe_dag_job list \<Rightarrow> nat \<Rightarrow> nat \<Rightarrow> cstring" where
  "unknown_text jobs i k = ''job \"'' @ dj_id (jobs ! i) @ ''\" needs \"'' @ dj_needs (jobs ! i) ! k
     @ ''\", which is not a job''"

definition qwe_dag_check ::
    "(nat \<Rightarrow> bool) \<Rightarrow> qwe_dag_job list \<Rightarrow> (qwe_dag_status \<times> qwe_dag_error) option" where
  "qwe_dag_check ok jobs =
     (case unknown_need jobs 0 jobs of
        Some (i, k) \<Rightarrow>
          Some (QWE_DAG_UNKNOWN_NEED, dag_error_zero\<lparr>de_status := QWE_DAG_UNKNOWN_NEED, de_job := i,
                  de_need := k, de_message := dag_msg (unknown_text jobs i k)\<rparr>)
      | None \<Rightarrow>
          if \<not> ok 0 \<or> \<not> ok 1
          then Some (QWE_DAG_NO_MEMORY, dag_error_zero\<lparr>de_status := QWE_DAG_NO_MEMORY,
                  de_message := ''cannot check the needs: graph: out of memory''\<rparr>)
          else case walk_all (Suc (length jobs)) jobs
                  \<lparr>wk_color = replicate (length jobs) WHITE, wk_stack = [], wk_err = dag_error_zero\<rparr>
                  [0..<length jobs] of
                 None \<Rightarrow> None
               | Some (found, w) \<Rightarrow> Some (if found then de_status (wk_err w) else QWE_DAG_OK, wk_err w))"

section \<open>The graph\<close>

definition dag_rel :: "qwe_dag_job list \<Rightarrow> (nat \<times> nat) set" where
  "dag_rel jobs = {(i, d). i < length jobs \<and> d \<in> dag_ix jobs ` set (dj_needs (jobs ! i))}"

definition needs_known :: "qwe_dag_job list \<Rightarrow> bool" where
  "needs_known jobs \<longleftrightarrow> (\<forall>j \<in> set jobs. \<forall>x \<in> set (dj_needs j). dag_find jobs x \<noteq> None)"

lemma dag_find_from_Some: "dag_find_from i js x = Some d \<Longrightarrow> i \<le> d \<and> d < i + length js \<and> dj_id (js ! (d - i)) = x"
proof (induction i js x rule: dag_find_from.induct)
  case (2 i j js x)
  then show ?case by (cases "dj_id j = x") (auto simp: Suc_diff_le nth_Cons' Suc_le_eq)
qed simp

lemma dag_find_Some: "dag_find jobs x = Some d \<Longrightarrow> d < length jobs \<and> dj_id (jobs ! d) = x"
  using dag_find_from_Some [of 0 jobs x d] by (simp add: dag_find_def)

lemma dag_find_from_None: "dag_find_from i js x = None \<longleftrightarrow> x \<notin> dj_id ` set js"
  by (induction i js x rule: dag_find_from.induct) auto

lemma dag_find_None: "dag_find jobs x = None \<longleftrightarrow> x \<notin> dj_id ` set jobs"
  by (simp add: dag_find_def dag_find_from_None)

lemma dag_ix_less:
  "needs_known jobs \<Longrightarrow> i < length jobs \<Longrightarrow> x \<in> set (dj_needs (jobs ! i)) \<Longrightarrow> dag_ix jobs x < length jobs"
  using dag_find_Some by (fastforce simp: needs_known_def dag_ix_def split: option.splits)

lemma dag_rel_less: "needs_known jobs \<Longrightarrow> (i, d) \<in> dag_rel jobs \<Longrightarrow> i < length jobs \<and> d < length jobs"
  using dag_ix_less by (fastforce simp: dag_rel_def)

section \<open>Unknown needs\<close>

lemma unknown_in_None: "unknown_in jobs k xs = None \<longleftrightarrow> (\<forall>x \<in> set xs. dag_find jobs x \<noteq> None)"
  by (induction jobs k xs rule: unknown_in.induct) auto

lemma unknown_in_Some:
  "unknown_in jobs k xs = Some m \<Longrightarrow> k \<le> m \<and> m < k + length xs \<and> dag_find jobs (xs ! (m - k)) = None"
proof (induction jobs k xs rule: unknown_in.induct)
  case (2 jobs k x xs)
  then show ?case by (cases "dag_find jobs x = None") (auto simp: Suc_diff_le nth_Cons' Suc_le_eq)
qed simp

lemma unknown_need_None: "unknown_need jobs i js = None \<longleftrightarrow> (\<forall>j \<in> set js. \<forall>x \<in> set (dj_needs j). dag_find jobs x \<noteq> None)"
proof (induction jobs i js rule: unknown_need.induct)
  case (2 jobs i j js)
  then show ?case
    using unknown_in_None [of jobs 0 "dj_needs j"] by (cases "unknown_in jobs 0 (dj_needs j)") auto
qed simp

lemma unknown_need_Some:
  "unknown_need jobs i js = Some (m, k) \<Longrightarrow> i \<le> m \<and> m < i + length js
     \<and> k < length (dj_needs (js ! (m - i))) \<and> dag_find jobs (dj_needs (js ! (m - i)) ! k) = None"
proof (induction jobs i js rule: unknown_need.induct)
  case (2 jobs i j js)
  show ?case
  proof (cases "unknown_in jobs 0 (dj_needs j)")
    case None
    with 2 show ?thesis by (auto simp: Suc_diff_le nth_Cons' Suc_le_eq)
  next
    case (Some a)
    with 2 unknown_in_Some [OF Some] show ?thesis by auto
  qed
qed simp

section \<open>The search\<close>

text \<open>
  The invariant of the search: the grey jobs are those of the stack, which is a path of the
  graph; what is black is closed under needs and on no cycle.
\<close>

fun dag_path :: "(nat \<times> nat) set \<Rightarrow> nat list \<Rightarrow> bool" where
  "dag_path r [] = True"
| "dag_path r [x] = True"
| "dag_path r (x # y # ys) = ((x, y) \<in> r \<and> dag_path r (y # ys))"

lemma dag_path_snoc: "dag_path r (p @ [j]) \<longleftrightarrow> dag_path r p \<and> (p \<noteq> [] \<longrightarrow> (last p, j) \<in> r)"
  by (induction r p rule: dag_path.induct) auto

lemma dag_path_drop: "dag_path r (p @ q) \<Longrightarrow> dag_path r q"
proof (induction p)
  case (Cons a p)
  then show ?case by (cases "p @ q") auto
qed simp

lemma dag_path_trancl: "dag_path r (x # p) \<Longrightarrow> (last (x # p), y) \<in> r \<Longrightarrow> (x, y) \<in> r\<^sup>+"
proof (induction p arbitrary: x)
  case (Cons a p)
  then have "(x, a) \<in> r" and "(a, y) \<in> r\<^sup>+" by auto
  then show ?case by (rule trancl_into_trancl2)
qed auto

definition colored :: "walk \<Rightarrow> dag_color \<Rightarrow> nat set" where
  "colored w c = {i. i < length (wk_color w) \<and> wk_color w ! i = c}"

definition walk_inv :: "qwe_dag_job list \<Rightarrow> walk \<Rightarrow> bool" where
  "walk_inv jobs w \<longleftrightarrow> length (wk_color w) = length jobs
     \<and> set (wk_stack w) = colored w GREY \<and> distinct (wk_stack w) \<and> dag_path (dag_rel jobs) (wk_stack w)
     \<and> dag_rel jobs `` colored w BLACK \<subseteq> colored w BLACK
     \<and> (\<forall>b \<in> colored w BLACK. (b, b) \<notin> (dag_rel jobs)\<^sup>+)
     \<and> wk_err w = dag_error_zero"

definition walk_done :: "walk \<Rightarrow> walk \<Rightarrow> bool" where
  "walk_done w w' \<longleftrightarrow> wk_stack w' = wk_stack w \<and> colored w BLACK \<subseteq> colored w' BLACK
     \<and> colored w' WHITE \<subseteq> colored w WHITE"

definition walk_cycle :: "qwe_dag_job list \<Rightarrow> walk \<Rightarrow> bool" where
  "walk_cycle jobs w \<longleftrightarrow> (\<exists>d p. dag_path (dag_rel jobs) (d # p) \<and> (last (d # p), d) \<in> dag_rel jobs
     \<and> distinct (d # p)
     \<and> wk_err w = \<lparr>de_status = QWE_DAG_CYCLE, de_job = d, de_need = 0,
                   de_message = dag_msg (cycle_text jobs (d # p) d)\<rparr>)"

lemma closed_rtrancl: "(d, x) \<in> E\<^sup>* \<Longrightarrow> E `` B \<subseteq> B \<Longrightarrow> d \<in> B \<Longrightarrow> x \<in> B"
  by (induction rule: rtrancl_induct) auto

lemma colored_update:
  "j < length (wk_color w) \<Longrightarrow> colored (w\<lparr>wk_color := (wk_color w)[j := c], wk_stack := st\<rparr>) c' =
     (if c = c' then insert j (colored w c') else colored w c' - {j})"
  "j < length (wk_color w) \<Longrightarrow> colored (w\<lparr>wk_stack := st, wk_color := (wk_color w)[j := c]\<rparr>) c' =
     (if c = c' then insert j (colored w c') else colored w c' - {j})"
  by (auto simp: colored_def nth_list_update)

lemma colored_finite [simp]: "finite (colored w c)"
  by (simp add: colored_def)

lemma walk_inv_push:
  assumes "walk_inv jobs w" "j < length jobs" "wk_color w ! j = WHITE"
    and "wk_stack w \<noteq> [] \<longrightarrow> (last (wk_stack w), j) \<in> dag_rel jobs"
  shows "walk_inv jobs (w\<lparr>wk_color := (wk_color w)[j := GREY], wk_stack := wk_stack w @ [j]\<rparr>)"
proof -
  have "j \<notin> colored w GREY" "j \<notin> colored w BLACK" using assms(3) by (auto simp: colored_def)
  with assms show ?thesis by (auto simp: walk_inv_def colored_update dag_path_snoc)
qed

lemma walk_inv_pop:
  assumes "walk_inv jobs w" "wk_stack w \<noteq> []" "last (wk_stack w) = j"
    and "dag_rel jobs `` {j} \<subseteq> colored w BLACK"
  shows "walk_inv jobs (w\<lparr>wk_stack := butlast (wk_stack w), wk_color := (wk_color w)[j := BLACK]\<rparr>)"
proof -
  let ?E = "dag_rel jobs" and ?B = "colored w BLACK"
  from assms(2,3) obtain p where p: "wk_stack w = p @ [j]" by (metis append_butlast_last_id)
  have g: "j \<in> colored w GREY" using assms(1) p by (auto simp: walk_inv_def)
  then have j: "j < length (wk_color w)" "j \<notin> ?B" by (auto simp: colored_def)
  have closed: "?E `` ?B \<subseteq> ?B" using assms(1) by (simp add: walk_inv_def)
  have "(j, j) \<notin> ?E\<^sup>+"
  proof
    assume "(j, j) \<in> ?E\<^sup>+"
    then obtain d where "(j, d) \<in> ?E" "(d, j) \<in> ?E\<^sup>*" by (meson tranclD)
    with assms(4) closed_rtrancl [OF _ closed] j(2) show False by blast
  qed
  with assms(1,4) p j show ?thesis
    by (auto simp: walk_inv_def colored_update dag_path_snoc)
qed

lemma report_cycle_found:
  assumes "walk_inv jobs w" "wk_stack w \<noteq> []" "(last (wk_stack w), d) \<in> dag_rel jobs" "d \<in> colored w GREY"
  shows "walk_cycle jobs (report_cycle jobs w d)"
proof -
  have "d \<in> set (wk_stack w)" using assms(1,4) by (simp add: walk_inv_def)
  then obtain a b where ab: "wk_stack w = a @ d # b" "d \<notin> set a" by (meson split_list_first)
  then have dw: "dropWhile (\<lambda>s. s \<noteq> d) (wk_stack w) = d # b"
    by (metis (mono_tags, lifting) dropWhile.simps(2) dropWhile_append2)
  have "dag_path (dag_rel jobs) (d # b)" "distinct (d # b)"
    using assms(1) ab dag_path_drop [of _ a "d # b"] by (auto simp: walk_inv_def)
  with assms(1,3) ab dw show ?thesis
    unfolding walk_cycle_def by (intro exI [of _ d] exI [of _ b])
      (simp add: report_cycle_def walk_inv_def dag_error_zero_def)
qed

lemma card_white_push:
  assumes "j \<in> colored w WHITE" "card (colored w WHITE) \<le> Suc f"
  shows "card (colored (w\<lparr>wk_color := (wk_color w)[j := GREY], wk_stack := st\<rparr>) WHITE) \<le> f"
  using assms by (simp add: colored_update colored_def [of w WHITE] card_Diff_singleton)

text \<open>What a call of the search establishes, with a bound for every white job.\<close>

lemma visit_correct:
  "needs_known jobs \<Longrightarrow> walk_inv jobs w \<Longrightarrow> j < length jobs \<Longrightarrow> wk_color w ! j = WHITE \<Longrightarrow>
   (wk_stack w \<noteq> [] \<longrightarrow> (last (wk_stack w), j) \<in> dag_rel jobs) \<Longrightarrow> card (colored w WHITE) \<le> f \<Longrightarrow>
     \<exists>b w'. visit f jobs w j = Some (b, w')
       \<and> (if b then walk_cycle jobs w' else walk_inv jobs w' \<and> walk_done w w' \<and> j \<in> colored w' BLACK)"
  "needs_known jobs \<Longrightarrow> walk_inv jobs w \<Longrightarrow> wk_stack w \<noteq> [] \<Longrightarrow> last (wk_stack w) = j \<Longrightarrow> j < length jobs \<Longrightarrow>
   set xs \<subseteq> set (dj_needs (jobs ! j)) \<Longrightarrow>
   (\<forall>x \<in> set (dj_needs (jobs ! j)). x \<in> set xs \<or> dag_ix jobs x \<in> colored w BLACK) \<Longrightarrow>
   card (colored w WHITE) \<le> f \<Longrightarrow>
     \<exists>b w'. visit_needs f jobs w j xs = Some (b, w')
       \<and> (if b then walk_cycle jobs w' else walk_inv jobs w' \<and> wk_stack w' = butlast (wk_stack w)
          \<and> colored w BLACK \<subseteq> colored w' BLACK \<and> colored w' WHITE \<subseteq> colored w WHITE \<and> j \<in> colored w' BLACK)"
proof (induction f jobs w j and f jobs w j xs rule: visit_visit_needs.induct)
  case (1 jobs w j)
  then have "j \<in> colored w WHITE" by (simp add: colored_def walk_inv_def)
  with 1 show ?case by auto
next
  case (2 f jobs w j)
  let ?w = "w\<lparr>wk_color := (wk_color w)[j := GREY], wk_stack := wk_stack w @ [j]\<rparr>"
  have j: "j < length (wk_color w)" "j \<in> colored w WHITE" "j \<notin> colored w BLACK"
    using "2.prems" by (simp_all add: walk_inv_def colored_def)
  have "\<exists>b w'. visit_needs f jobs ?w j (dj_needs (jobs ! j)) = Some (b, w')
       \<and> (if b then walk_cycle jobs w' else walk_inv jobs w' \<and> wk_stack w' = butlast (wk_stack ?w)
          \<and> colored ?w BLACK \<subseteq> colored w' BLACK \<and> colored w' WHITE \<subseteq> colored ?w WHITE \<and> j \<in> colored w' BLACK)"
    using "2.prems" walk_inv_push [OF "2.prems"(2-5)] card_white_push [OF j(2) "2.prems"(6)]
    by (intro "2.IH") simp_all
  then show ?case
    using j(1,3) by (fastforce simp: walk_done_def colored_update split: if_splits)
next
  case (3 f jobs w j)
  have "dag_rel jobs `` {j} \<subseteq> colored w BLACK"
    using "3.prems"(7) by (auto simp: dag_rel_def)
  from walk_inv_pop [OF "3.prems"(2-4) this] show ?case
    using "3.prems" by (auto simp: colored_update walk_inv_def)
next
  case (4 f jobs w j x xs)
  define d where "d = dag_ix jobs x"
  have x: "x \<in> set (dj_needs (jobs ! j))" using "4.prems"(6) by simp
  have d: "d < length jobs" "d < length (wk_color w)"
    using dag_ix_less [OF "4.prems"(1,5) x] "4.prems"(2) by (simp_all add: d_def walk_inv_def)
  have e: "(last (wk_stack w), d) \<in> dag_rel jobs" using x "4.prems"(4,5) by (auto simp: dag_rel_def d_def)
  show ?case
  proof (cases "wk_color w ! d")
    case GREY
    then have "d \<in> colored w GREY" using d by (simp add: colored_def)
    from report_cycle_found [OF "4.prems"(2,3) e this] GREY show ?thesis
      by (intro exI [of _ True] exI [of _ "report_cycle jobs w d"]) (simp add: d_def [symmetric])
  next
    case BLACK
    then have "d \<in> colored w BLACK" using d by (simp add: colored_def)
    with "4.prems" have "\<forall>x \<in> set (dj_needs (jobs ! j)). x \<in> set xs \<or> dag_ix jobs x \<in> colored w BLACK"
      by (auto simp: d_def)
    with "4.IH"(3) [OF d_def] BLACK "4.prems" show ?thesis by (simp add: d_def [symmetric])
  next
    case WHITE
    then have "\<exists>b w'. visit f jobs w d = Some (b, w') \<and>
        (if b then walk_cycle jobs w' else walk_inv jobs w' \<and> walk_done w w' \<and> d \<in> colored w' BLACK)"
      using "4.prems" d e by (intro "4.IH"(1) [OF d_def]) simp_all
    then obtain b w1 where v: "visit f jobs w d = Some (b, w1)"
      and w1: "if b then walk_cycle jobs w1 else walk_inv jobs w1 \<and> walk_done w w1 \<and> d \<in> colored w1 BLACK"
      by blast
    show ?thesis
    proof (cases b)
      case True
      with v w1 WHITE show ?thesis
        by (intro exI [of _ True] exI [of _ w1]) (simp add: d_def [symmetric])
    next
      case False
      with w1 have i1: "walk_inv jobs w1" and dn: "walk_done w w1" and db: "d \<in> colored w1 BLACK" by simp_all
      have "card (colored w1 WHITE) \<le> f"
        using dn "4.prems"(8) card_mono [of "colored w WHITE" "colored w1 WHITE"] by (simp add: walk_done_def)
      moreover have "\<forall>x \<in> set (dj_needs (jobs ! j)). x \<in> set xs \<or> dag_ix jobs x \<in> colored w1 BLACK"
        using "4.prems"(7) db dn by (auto simp: d_def walk_done_def)
      ultimately have "\<exists>b w'. visit_needs f jobs w1 j xs = Some (b, w')
         \<and> (if b then walk_cycle jobs w' else walk_inv jobs w' \<and> wk_stack w' = butlast (wk_stack w1)
            \<and> colored w1 BLACK \<subseteq> colored w' BLACK \<and> colored w' WHITE \<subseteq> colored w1 WHITE \<and> j \<in> colored w' BLACK)"
        using "4.prems" dn v False WHITE i1 by (intro "4.IH"(2) [OF d_def]) (auto simp: walk_done_def)
      then obtain b2 w2 where n: "visit_needs f jobs w1 j xs = Some (b2, w2)"
        and w2: "if b2 then walk_cycle jobs w2 else walk_inv jobs w2 \<and> wk_stack w2 = butlast (wk_stack w1)
            \<and> colored w1 BLACK \<subseteq> colored w2 BLACK \<and> colored w2 WHITE \<subseteq> colored w1 WHITE \<and> j \<in> colored w2 BLACK"
        by blast
      have "visit_needs f jobs w j (x # xs) = Some (b2, w2)"
        using v n False WHITE by (simp add: d_def [symmetric])
      moreover have "if b2 then walk_cycle jobs w2 else walk_inv jobs w2 \<and> wk_stack w2 = butlast (wk_stack w)
            \<and> colored w BLACK \<subseteq> colored w2 BLACK \<and> colored w2 WHITE \<subseteq> colored w WHITE \<and> j \<in> colored w2 BLACK"
        using w2 dn by (cases b2) (auto simp: walk_done_def)
      ultimately show ?thesis by blast
    qed
  qed
qed

lemma walk_all_correct:
  "needs_known jobs \<Longrightarrow> walk_inv jobs w \<Longrightarrow> wk_stack w = [] \<Longrightarrow> set is \<subseteq> {..<length jobs} \<Longrightarrow>
   card (colored w WHITE) \<le> f \<Longrightarrow>
     \<exists>b w'. walk_all f jobs w is = Some (b, w')
       \<and> (if b then walk_cycle jobs w'
          else walk_inv jobs w' \<and> colored w BLACK \<union> set is \<subseteq> colored w' BLACK)"
proof (induction f jobs w "is" rule: walk_all.induct)
  case (2 f jobs w i "is")
  show ?case
  proof (cases "wk_color w ! i = WHITE")
    case True
    with visit_correct(1) [of jobs w i f] "2.prems" obtain b w1 where v: "visit f jobs w i = Some (b, w1)"
      and w1: "if b then walk_cycle jobs w1 else walk_inv jobs w1 \<and> walk_done w w1 \<and> i \<in> colored w1 BLACK"
      by auto
    show ?thesis
    proof (cases b)
      case False
      have "card (colored w1 WHITE) \<le> f"
        using w1 False "2.prems"(5) card_mono [of "colored w WHITE" "colored w1 WHITE"] by (simp add: walk_done_def)
      with "2.IH"(1) [OF True v refl _ "2.prems"(1)] False w1 "2.prems" obtain b2 w2
        where "walk_all f jobs w1 is = Some (b2, w2)" "if b2 then walk_cycle jobs w2
          else walk_inv jobs w2 \<and> colored w1 BLACK \<union> set is \<subseteq> colored w2 BLACK"
        by (auto simp: walk_done_def)
      with True v False w1 show ?thesis by (cases b2) (auto simp: walk_done_def)
    qed (use True v w1 in auto)
  next
    case False
    have "i \<notin> colored w GREY" using "2.prems" by (simp add: walk_inv_def)
    with False "2.prems" have "i \<in> colored w BLACK"
      by (cases "wk_color w ! i") (auto simp: colored_def walk_inv_def)
    with False "2.IH"(2) [OF False] "2.prems" show ?thesis by fastforce
  qed
qed auto

lemma colored_start: "colored \<lparr>wk_color = replicate n c, wk_stack = st, wk_err = er\<rparr> c' = (if c = c' then {..<n} else {})"
  by (auto simp: colored_def)

lemma dag_walk:
  assumes "needs_known jobs"
  shows "\<exists>b w'. walk_all (Suc (length jobs)) jobs
      \<lparr>wk_color = replicate (length jobs) WHITE, wk_stack = [], wk_err = dag_error_zero\<rparr> [0..<length jobs] = Some (b, w')
    \<and> (if b then walk_cycle jobs w' else wk_err w' = dag_error_zero \<and> acyclic (dag_rel jobs))"
proof -
  let ?w = "\<lparr>wk_color = replicate (length jobs) WHITE, wk_stack = [], wk_err = dag_error_zero\<rparr>"
  have i: "walk_inv jobs ?w" by (auto simp: walk_inv_def colored_start)
  have c: "card (colored ?w WHITE) \<le> Suc (length jobs)" by (simp add: colored_start)
  have "set [0..<length jobs] \<subseteq> {..<length jobs}" by auto
  from walk_all_correct [OF assms i _ this c] obtain b w'
    where w: "walk_all (Suc (length jobs)) jobs ?w [0..<length jobs] = Some (b, w')"
      and r: "if b then walk_cycle jobs w' else walk_inv jobs w' \<and> colored ?w BLACK \<union> set [0..<length jobs] \<subseteq> colored w' BLACK"
    by auto
  have "acyclic (dag_rel jobs)" if "\<not> b"
  proof (rule acyclicI, intro allI notI)
    fix x assume c: "(x, x) \<in> (dag_rel jobs)\<^sup>+"
    then have "x < length jobs" by (auto dest!: tranclD simp: dag_rel_def)
    with r that c show False by (auto simp: walk_inv_def)
  qed
  with w r show ?thesis by (auto simp: walk_inv_def)
qed

lemma walk_cycle_status: "walk_cycle jobs w \<Longrightarrow> de_status (wk_err w) = QWE_DAG_CYCLE \<and> \<not> acyclic (dag_rel jobs)"
  using dag_path_trancl by (fastforce simp: walk_cycle_def acyclic_def)

lemma needs_known_iff: "needs_known jobs \<longleftrightarrow> unknown_need jobs 0 jobs = None"
  by (simp add: needs_known_def unknown_need_None)

lemma dag_check_known:
  assumes "needs_known jobs" "ok 0" "ok 1"
  obtains b w where "qwe_dag_check ok jobs = Some (if b then QWE_DAG_CYCLE else QWE_DAG_OK, wk_err w)"
    "if b then walk_cycle jobs w else wk_err w = dag_error_zero \<and> acyclic (dag_rel jobs)"
proof -
  from dag_walk [OF assms(1)] obtain b w where
    w: "walk_all (Suc (length jobs)) jobs
      \<lparr>wk_color = replicate (length jobs) WHITE, wk_stack = [], wk_err = dag_error_zero\<rparr> [0..<length jobs] = Some (b, w)"
    and r: "if b then walk_cycle jobs w else wk_err w = dag_error_zero \<and> acyclic (dag_rel jobs)" by blast
  have "unknown_need jobs 0 jobs = None" using assms(1) by (simp add: needs_known_iff)
  with w r assms(2,3) walk_cycle_status [of jobs w] that [of b w] show ?thesis
    by (cases b) (simp_all add: qwe_dag_check_def)
qed

lemma dag_check_unknown:
  assumes "\<not> needs_known jobs"
  obtains i k where "unknown_need jobs 0 jobs = Some (i, k)"
    "qwe_dag_check ok jobs = Some (QWE_DAG_UNKNOWN_NEED, dag_error_zero\<lparr>de_status := QWE_DAG_UNKNOWN_NEED,
       de_job := i, de_need := k, de_message := dag_msg (unknown_text jobs i k)\<rparr>)"
  using assms by (cases "unknown_need jobs 0 jobs") (auto simp: needs_known_iff qwe_dag_check_def)

lemma dag_check_no_memory:
  "needs_known jobs \<Longrightarrow> \<not> (ok 0 \<and> ok 1) \<Longrightarrow> qwe_dag_check ok jobs =
     Some (QWE_DAG_NO_MEMORY, dag_error_zero\<lparr>de_status := QWE_DAG_NO_MEMORY,
                  de_message := ''cannot check the needs: graph: out of memory''\<rparr>)"
  by (auto simp: needs_known_iff qwe_dag_check_def)

section \<open>Properties\<close>

definition dag_ex :: "qwe_dag_job list" where
  "dag_ex = [\<lparr>dj_id = ''build'', dj_needs = []\<rparr>, \<lparr>dj_id = ''test'', dj_needs = [''build'', ''lint'']\<rparr>,
             \<lparr>dj_id = ''lint'', dj_needs = [''build'']\<rparr>]"

definition dag_cycle_ex :: "qwe_dag_job list" where
  "dag_cycle_ex = [\<lparr>dj_id = ''a'', dj_needs = [''b'']\<rparr>, \<lparr>dj_id = ''b'', dj_needs = [''c'']\<rparr>,
                   \<lparr>dj_id = ''c'', dj_needs = [''b'']\<rparr>]"

text \<open>C15. The check always comes to a result, and its verdict is right: with memory available it says
  OK exactly when every need names a job and the graph of the needs has no cycle; a cycle
  exactly when the needs are known and there is one; an unknown need exactly when some need names no job.\<close>

theorem dag_check_verdict:
  assumes "ok 0" and "ok 1"
  shows "\<exists>st err. qwe_dag_check ok jobs = Some (st, err)
    \<and> (st = QWE_DAG_OK \<longleftrightarrow> needs_known jobs \<and> acyclic (dag_rel jobs))
    \<and> (st = QWE_DAG_CYCLE \<longleftrightarrow> needs_known jobs \<and> \<not> acyclic (dag_rel jobs))
    \<and> (st = QWE_DAG_UNKNOWN_NEED \<longleftrightarrow> \<not> needs_known jobs)"
proof (cases "needs_known jobs")
  case True
  obtain b w where "qwe_dag_check ok jobs = Some (if b then QWE_DAG_CYCLE else QWE_DAG_OK, wk_err w)"
    "if b then walk_cycle jobs w else wk_err w = dag_error_zero \<and> acyclic (dag_rel jobs)"
    using dag_check_known [OF True assms] by blast
  with True walk_cycle_status [of jobs w] show ?thesis by (cases b) auto
next
  case False
  then show ?thesis by (rule dag_check_unknown [of jobs ok]) (use False in auto)
qed

theorem dag_check_verdict_witness:
  "\<exists>err. qwe_dag_check (\<lambda>_. True) dag_ex = Some (QWE_DAG_OK, err) \<and> needs_known dag_ex \<and> acyclic (dag_rel dag_ex)"
proof -
  have e: "map_option fst (qwe_dag_check (\<lambda>_. True) dag_ex) = Some QWE_DAG_OK" by code_simp
  from dag_check_verdict [of "\<lambda>_. True" dag_ex] e show ?thesis by auto
qed

text \<open>A reported cycle is real: the error names a job and a path of distinct jobs that leads from it back
  to it along the needs, and the message is that path, cut to the message buffer.\<close>

lemma dag_reported_cycle_is_real:
  assumes "qwe_dag_check ok jobs = Some (QWE_DAG_CYCLE, err)"
  shows "\<exists>p. dag_path (dag_rel jobs) (de_job err # p) \<and> (last (de_job err # p), de_job err) \<in> dag_rel jobs
    \<and> distinct (de_job err # p) \<and> (de_job err, de_job err) \<in> (dag_rel jobs)\<^sup>+
    \<and> de_message err = take 255 (cycle_text jobs (de_job err # p) (de_job err))"
proof -
  have k: "needs_known jobs" using assms by (cases rule: case_split [of "needs_known jobs"]) (auto elim: dag_check_unknown [of jobs ok])
  have ok: "ok 0" "ok 1" using assms dag_check_no_memory [OF k, of ok] by auto
  obtain b w where "qwe_dag_check ok jobs = Some (if b then QWE_DAG_CYCLE else QWE_DAG_OK, wk_err w)"
    and r: "if b then walk_cycle jobs w else wk_err w = dag_error_zero \<and> acyclic (dag_rel jobs)"
    using dag_check_known [OF k ok] by blast
  with assms have b: b and err: "err = wk_err w" by (auto split: if_splits)
  with r obtain d p where dp: "dag_path (dag_rel jobs) (d # p)" "(last (d # p), d) \<in> dag_rel jobs" "distinct (d # p)"
    and e: "err = \<lparr>de_status = QWE_DAG_CYCLE, de_job = d, de_need = 0, de_message = dag_msg (cycle_text jobs (d # p) d)\<rparr>"
    by (auto simp: walk_cycle_def)
  from dp dag_path_trancl [OF dp(1,2)] show ?thesis
    by (intro exI [of _ p]) (simp add: e dag_msg_def)
qed

text \<open>An unknown need is reported at its place: the job and need numbers of the error are those of a need that
  names no job, and the message names both. When the search cannot allocate, the status says so
  and never that the graph is fine.\<close>

lemma dag_unknown_and_no_memory:
  assumes "qwe_dag_check ok jobs = Some (st, err)"
  shows "(st = QWE_DAG_UNKNOWN_NEED \<longrightarrow> de_job err < length jobs
            \<and> de_need err < length (dj_needs (jobs ! de_job err))
            \<and> dj_needs (jobs ! de_job err) ! de_need err \<notin> dj_id ` set jobs
            \<and> de_message err = take 255 (unknown_text jobs (de_job err) (de_need err)))
    \<and> (needs_known jobs \<longrightarrow> \<not> (ok 0 \<and> ok 1) \<longrightarrow> st = QWE_DAG_NO_MEMORY) \<and> (st \<noteq> QWE_DAG_OK \<longrightarrow> de_status err = st)"
proof (cases "needs_known jobs")
  case k: True
  show ?thesis
  proof (cases "ok 0 \<and> ok 1")
    case True
    then obtain b w where "qwe_dag_check ok jobs = Some (if b then QWE_DAG_CYCLE else QWE_DAG_OK, wk_err w)"
      "if b then walk_cycle jobs w else wk_err w = dag_error_zero \<and> acyclic (dag_rel jobs)"
      using dag_check_known [OF k] by blast
    with assms True walk_cycle_status [of jobs w] show ?thesis by (cases b) auto
  qed (use assms dag_check_no_memory [OF k, of ok] in auto)
next
  case False
  then obtain i k where ik: "unknown_need jobs 0 jobs = Some (i, k)"
    "qwe_dag_check ok jobs = Some (QWE_DAG_UNKNOWN_NEED, dag_error_zero\<lparr>de_status := QWE_DAG_UNKNOWN_NEED,
       de_job := i, de_need := k, de_message := dag_msg (unknown_text jobs i k)\<rparr>)"
    by (rule dag_check_unknown)
  with False assms unknown_need_Some [OF ik(1)] show ?thesis
    by (auto simp: dag_msg_def dag_find_None)
qed

end
