(* ===== verification/Jobs.thy ===== *)
theory Jobs
  imports Output Lifecycle "HOL-Library.Word"
begin

text \<open>
  The data of the engine (\<open>src/kernel/jobs.h\<close>, \<open>result.h\<close>, \<open>timer.c\<close>, the
  context of \<open>workflow.c\<close>): the job with what it holds while it runs, its timers, the results
  of its steps, and the operating system as a parameter.

  The structure \<open>job_run\<close> is folded into its job (the fields \<open>jr_...\<close>). What the engine
  asks of the system, of libc and of the Lua modules it calls is answered by the functions of
  \<open>sys\<close>: each takes the state \<open>'w\<close> of the outside world and returns its answer with
  the next one, so nothing is assumed about the answers. Registry references, file descriptor
  numbers and the epoll set are not represented; whether a descriptor is held is.
\<close>

section \<open>Timers\<close>

text \<open>
  A timerfd: \<open>tm_armed\<close> holds the milliseconds it was last armed with. Its descriptor is
  readable once when that time has passed, so \<open>qwe_timer_expired\<close> finds data only on an
  armed timer that it has not read before; \<open>fired\<close> remembers that it did.
\<close>

record qwe_timer =
  tm_open :: bool
  tm_fired :: bool
  tm_armed :: "int option"

definition timer_zero :: qwe_timer where
  "timer_zero = \<lparr>tm_open = False, tm_fired = False, tm_armed = None\<rparr>"

definition qwe_timer_open :: "bool \<Rightarrow> qwe_timer \<Rightarrow> bool \<times> qwe_timer" where
  "qwe_timer_open created t = (created, \<lparr>tm_open = created, tm_fired = False, tm_armed = None\<rparr>)"

definition qwe_timer_close :: "qwe_timer \<Rightarrow> qwe_timer" where
  "qwe_timer_close t = t\<lparr>tm_open := False\<rparr>"

text \<open>A time of zero or less fires at once: one nanosecond, which is no whole millisecond. With a second or more in the
  past the seconds are negative, and \<open>timerfd_settime\<close> leaves the timer as it was; nobody looks at its result.\<close>

definition qwe_timer_arm :: "int \<Rightarrow> qwe_timer \<Rightarrow> qwe_timer" where
  "qwe_timer_arm ms t = (if ms \<le> - 1000 then t else t\<lparr>tm_armed := Some (if ms \<le> 0 then 0 else ms)\<rparr>)"

definition qwe_timer_expired :: "bool \<Rightarrow> qwe_timer \<Rightarrow> bool \<times> qwe_timer" where
  "qwe_timer_expired elapsed t =
     (let t' = (if \<not> tm_fired t \<and> tm_open t \<and> tm_armed t \<noteq> None \<and> elapsed then t\<lparr>tm_fired := True\<rparr> else t)
      in (tm_fired t', t'))"

section \<open>Results\<close>

record qwe_step_result =
  sr_id :: "cstring option"
  sr_outcome :: "cstring option"
  sr_reason :: "cstring option"
  sr_changed :: bool
  sr_outputs_json :: "cstring option"
  sr_started :: int
  sr_ended :: int
  sr_duration_ms :: int
  sr_name :: "cstring option"
  sr_plugin :: "cstring option"

definition step_result_zero :: qwe_step_result where
  "step_result_zero = \<lparr>sr_id = None, sr_outcome = None, sr_reason = None, sr_changed = False,
     sr_outputs_json = None, sr_started = 0, sr_ended = 0, sr_duration_ms = 0, sr_name = None, sr_plugin = None\<rparr>"

section \<open>Jobs\<close>

text \<open>What the engine reads of a step's table: \<open>id:\<close>, \<open>name:\<close>, \<open>uses:\<close> and \<open>continue-on-error:\<close>.\<close>

record step_spec =
  sp_id :: "cstring option"
  sp_name :: "cstring option"
  sp_uses :: "cstring option"
  sp_coe :: bool

record job =
  jb_id :: cstring
  jb_target :: cstring
  jb_state :: qwe_lc_state
  jb_reason :: "cstring option"
  jb_needs :: "cstring list"
  jb_steps :: "qwe_step_result list option"
  jb_specs :: "step_spec list"
  jb_started :: int
  jb_ended :: int
  jb_duration_ms :: int
  jb_mono_start_ns :: int
  jb_dropped :: nat
  jb_timeout_ms :: int
  jb_detail :: "cstring option"
  jr_ring :: qwe_ring
  jr_sink :: qwe_sink
  jr_red :: qwe_redactor
  jr_timer :: qwe_timer
  jr_step_timer :: qwe_timer
  jr_grace_timer :: qwe_timer
  jr_step_mono_start_ns :: int
  jr_pid :: nat
  jr_ring_ok :: bool
  jr_sink_ok :: bool
  jr_timer_ok :: bool
  jr_proc_ok :: bool
  jr_leader_reaped :: bool
  jr_res_buf :: "byte list"
  jr_res_cap :: nat
  jr_res_overflow :: bool
  jr_step_changed :: bool
  jr_out_path :: "cstring option"
  jr_step_target :: "cstring option"
  jr_step_unreachable :: bool
  jr_step_token :: "cstring option"
  jr_step_uses :: bool
  jr_step_json :: "cstring option"
  jr_timeout_told :: bool
  jr_cancel_told :: bool
  jr_cur :: nat
  jr_live_step :: int
  jr_last_reason :: "cstring option"
  jr_followup :: "qwe_lc_event option"
  jr_fail_op :: "cstring option"
  jr_fail_errno :: int

abbreviation jb_nsteps :: "job \<Rightarrow> nat" where
  "jb_nsteps j \<equiv> length (jb_specs j)"

definition sink_zero :: qwe_sink where
  "sink_zero = \<lparr>sk_job = [], sk_log = \<lparr>of_data = [], of_rets = []\<rparr>, sk_line = [], sk_line_cap = 0\<rparr>"

text \<open>A job as \<open>qwe_jobs_load\<close> leaves it: zeroed but for what it read from the workflow.\<close>

definition job_loaded :: "cstring \<Rightarrow> cstring \<Rightarrow> cstring list \<Rightarrow> step_spec list \<Rightarrow> int \<Rightarrow> job" where
  "job_loaded ident target needs specs timeout_ms =
     \<lparr>jb_id = ident, jb_target = target, jb_state = QWE_LC_PENDING, jb_reason = None, jb_needs = needs,
      jb_steps = None, jb_specs = specs, jb_started = 0, jb_ended = 0, jb_duration_ms = -1,
      jb_mono_start_ns = 0, jb_dropped = 0, jb_timeout_ms = timeout_ms, jb_detail = None,
      jr_ring = ring_zero, jr_sink = sink_zero, jr_red = redactor_zero, jr_timer = timer_zero,
      jr_step_timer = timer_zero, jr_grace_timer = timer_zero, jr_step_mono_start_ns = 0, jr_pid = 0,
      jr_ring_ok = False, jr_sink_ok = False, jr_timer_ok = False, jr_proc_ok = False,
      jr_leader_reaped = False, jr_res_buf = [], jr_res_cap = 0, jr_res_overflow = False,
      jr_step_changed = False, jr_out_path = None, jr_step_target = None, jr_step_unreachable = False,
      jr_step_token = None, jr_step_uses = False, jr_step_json = None, jr_timeout_told = False, jr_cancel_told = False,
      jr_cur = 0, jr_live_step = -1, jr_last_reason = None, jr_followup = None, jr_fail_op = None,
      jr_fail_errno = 0\<rparr>"

section \<open>The system\<close>

text \<open>
  The questions the engine asks with a yes or no answer: whether a call succeeded, or what it
  reported. \<open>Q_SSH\<close> is a call of a function of the ssh backend on a target.
\<close>

datatype sys_query =
    Q_ASPRINTF | Q_TIMERFD_CREATE | Q_TIMERFD_READ | Q_OUTPUT_FILE "cstring option"
  | Q_SSH cstring cstring "cstring option" "cstring option" | Q_ENSURE cstring | Q_REFUSED cstring
  | Q_SPAWN | Q_CANCEL_PENDING | Q_GROUP_EMPTY nat

text \<open>A wait status, and what the event of a descriptor of the epoll set is about.\<close>

datatype wstatus = W_EXITED nat | W_SIGNALED nat

datatype evkind = EV_OUT | EV_RESULT | EV_STEP_TIMER | EV_JOB_TIMER | EV_GRACE_TIMER | EV_CHILD | EV_CANCEL

text \<open>The fields of a result table a step child sent, as far as the engine reads them.\<close>

record res_table =
  rt_status :: "cstring option"
  rt_reason :: "cstring option"
  rt_changed :: "bool option"
  rt_outputs :: bool

record 'w sys =
  sy_ask :: "sys_query \<Rightarrow> 'w \<Rightarrow> bool \<times> 'w"
  sy_time :: "'w \<Rightarrow> int \<times> 'w"
  sy_mono_ns :: "'w \<Rightarrow> int \<times> 'w"
  sy_errno :: "'w \<Rightarrow> int"
  sy_strerrorname :: "int \<Rightarrow> cstring option"
  sy_ring_mem :: "'w \<Rightarrow> byte list option \<times> 'w"
  sy_open_log :: "cstring \<Rightarrow> 'w \<Rightarrow> ofile option \<times> 'w"
  sy_resolve :: "cstring \<Rightarrow> nat \<Rightarrow> cstring option \<Rightarrow> cstring \<Rightarrow> 'w \<Rightarrow> (int \<times> cstring option \<times> bool) option \<times> 'w"
  sy_spawn_op :: "'w \<Rightarrow> cstring"
  sy_pid :: "'w \<Rightarrow> nat"
  sy_read_out :: "nat \<Rightarrow> 'w \<Rightarrow> rd_result list \<times> 'w"
  sy_read_res :: "nat \<Rightarrow> 'w \<Rightarrow> rd_result list \<times> 'w"
  sy_decode :: "byte list \<Rightarrow> res_table option option"
  sy_store :: "cstring \<Rightarrow> 'w \<Rightarrow> cstring option \<times> 'w"
  sy_take_output :: "cstring \<Rightarrow> 'w \<Rightarrow> bool \<times> 'w"
  sy_wait :: "'w \<Rightarrow> 64 word list \<times> 'w"
  sy_exits :: "'w \<Rightarrow> (nat \<times> wstatus) list \<times> 'w"
  sy_max_sessions :: "cstring \<Rightarrow> int"
  sy_alloc :: "nat \<Rightarrow> bool"

section \<open>The context of a run\<close>

record trace_rec =
  tr_job :: cstring
  tr_step :: int
  tr_state :: qwe_lc_state
  tr_event :: cstring
  tr_next :: "cstring option"
  tr_kind :: cstring
  tr_reason :: "cstring option"
  tr_detail :: "cstring option"

datatype sig_effect = SIGTERM_TO nat | SIGKILL_TO nat

record 'w run_ctx =
  cx_w :: 'w
  cx_term :: ofile
  cx_k :: nat
  cx_secrets :: secret_set
  cx_cancel_requested :: bool
  cx_grace_ms :: int
  cx_debug :: bool
  cx_trace :: "trace_rec list"
  cx_signals :: "sig_effect list"
  cx_run_dir :: cstring
  cx_run_dir_abs :: cstring
  cx_run_id :: cstring

text \<open>How the program can stop in the middle: the lifecycle's abort, or memory that must be there.\<close>

datatype engine_abort = Impossible_event qwe_lc_state qwe_lc_event | Out_of_memory

text \<open>The answer of the system, with the world moved on.\<close>

definition ask :: "'w sys \<Rightarrow> sys_query \<Rightarrow> 'w run_ctx \<Rightarrow> bool \<times> 'w run_ctx" where
  "ask sy q cx = (case sy_ask sy q (cx_w cx) of (b, w') \<Rightarrow> (b, cx\<lparr>cx_w := w'\<rparr>))"

definition now_s :: "'w sys \<Rightarrow> 'w run_ctx \<Rightarrow> int \<times> 'w run_ctx" where
  "now_s sy cx = (case sy_time sy (cx_w cx) of (t, w') \<Rightarrow> (t, cx\<lparr>cx_w := w'\<rparr>))"

definition mono_now_ns :: "'w sys \<Rightarrow> 'w run_ctx \<Rightarrow> int \<times> 'w run_ctx" where
  "mono_now_ns sy cx = (case sy_mono_ns sy (cx_w cx) of (t, w') \<Rightarrow> (t, cx\<lparr>cx_w := w'\<rparr>))"

text \<open>Milliseconds between two instants; C's division truncates, and a negative result is zero.\<close>

definition mono_diff_ms :: "int \<Rightarrow> int \<Rightarrow> int" where
  "mono_diff_ms start_ns end_ns =
     (let d = end_ns - start_ns; ms = (if d < 0 then - ((- d) div 1000000) else d div 1000000)
      in if ms < 0 then 0 else ms)"

lemma mono_diff_ms_nonneg: "0 \<le> mono_diff_ms a b"
  by (simp add: mono_diff_ms_def Let_def)

end
