(* ===== verification/Engine.thy ===== *)
theory Engine
  imports Jobs Sched
begin

text \<open>
  The shell around the lifecycle (\<open>src/kernel/workflow.c\<close>): the actions of the table, the
  dispatch of one event, the loop that sends a job what it is owed, and the handlers that turn
  exits, timers and signals into events. Every function threads the context of the run and the
  job it works on; \<open>Inl\<close> is the end of the program by the lifecycle's abort or by an
  allocation that must not fail.
\<close>

text \<open>Allocations that abort the program when they fail (\<open>qwe_xcalloc\<close>, \<open>qwe_xstrdup\<close>): \<open>n\<close> of them from the counter on.\<close>

fun xallocs :: "(nat \<Rightarrow> bool) \<Rightarrow> nat \<Rightarrow> nat \<Rightarrow> nat option" where
  "xallocs ok 0 k = Some k"
| "xallocs ok (Suc n) k = (if ok k then xallocs ok n (Suc k) else None)"

section \<open>Output and result pipe of the live step\<close>

definition run_drain :: "'w sys \<Rightarrow> 'w run_ctx \<Rightarrow> job \<Rightarrow> engine_abort + bool \<times> 'w run_ctx \<times> job" where
  "run_drain sy cx j =
     (case sy_read_out sy (jr_pid j) (cx_w cx) of (rs, w') \<Rightarrow>
        case drain (sy_alloc sy) (cx_secrets cx) rs
               \<lparr>os_ring = jr_ring j, os_sink = jr_sink j, os_red = jr_red j, os_term = cx_term cx, os_k = cx_k cx\<rparr> of
          None \<Rightarrow> Inl Out_of_memory
        | Some (eof, _, st) \<Rightarrow>
            Inr (eof, cx\<lparr>cx_w := w', cx_term := os_term st, cx_k := os_k st\<rparr>,
                 j\<lparr>jr_ring := os_ring st, jr_sink := os_sink st, jr_red := os_red st\<rparr>))"

definition run_drain_flush :: "'w sys \<Rightarrow> 'w run_ctx \<Rightarrow> job \<Rightarrow> engine_abort + 'w run_ctx \<times> job" where
  "run_drain_flush sy cx j =
     (case drain_flush (sy_alloc sy)
             \<lparr>os_ring = jr_ring j, os_sink = jr_sink j, os_red = jr_red j, os_term = cx_term cx, os_k = cx_k cx\<rparr> of
        None \<Rightarrow> Inl Out_of_memory
      | Some st \<Rightarrow> Inr (cx\<lparr>cx_term := os_term st, cx_k := os_k st\<rparr>,
                        j\<lparr>jr_ring := os_ring st, jr_sink := os_sink st, jr_red := os_red st\<rparr>))"

definition RESULT_MAX :: nat where
  "RESULT_MAX = 1024 * 1024"

fun result_loop :: "(nat \<Rightarrow> bool) \<Rightarrow> rd_result list \<Rightarrow> nat \<Rightarrow> job \<Rightarrow> bool \<times> nat \<times> job" where
  "result_loop ok [] k j = (False, k, j)"
| "result_loop ok (RD_EINTR # rs) k j = result_loop ok rs k j"
| "result_loop ok (RD_AGAIN # rs) k j = (False, k, j)"
| "result_loop ok (RD_DATA d # rs) k j =
     (if d = [] then (True, k, j)
      else if length (jr_res_buf j) + length d > RESULT_MAX
           then result_loop ok rs k (j\<lparr>jr_res_overflow := True\<rparr>)
      else if length (jr_res_buf j) + length d > jr_res_cap j then
        (if ok k
         then result_loop ok rs (Suc k)
                (j\<lparr>jr_res_buf := jr_res_buf j @ d,
                   jr_res_cap := grow_cap (if jr_res_cap j \<noteq> 0 then jr_res_cap j * 2 else 1024)
                                   (length (jr_res_buf j) + length d)\<rparr>)
         else result_loop ok rs (Suc k) (j\<lparr>jr_res_overflow := True\<rparr>))
      else result_loop ok rs k (j\<lparr>jr_res_buf := jr_res_buf j @ d\<rparr>))"

definition drain_result :: "'w sys \<Rightarrow> 'w run_ctx \<Rightarrow> job \<Rightarrow> bool \<times> 'w run_ctx \<times> job" where
  "drain_result sy cx j =
     (case sy_read_res sy (jr_pid j) (cx_w cx) of (rs, w') \<Rightarrow>
        case result_loop (sy_alloc sy) rs (cx_k cx) j of (eof, k', j') \<Rightarrow>
          (eof, cx\<lparr>cx_w := w', cx_k := k'\<rparr>, j'))"

section \<open>Resources of a job\<close>

definition owe_start_failed :: "cstring \<Rightarrow> int \<Rightarrow> job \<Rightarrow> job" where
  "owe_start_failed op err j =
     j\<lparr>jr_fail_op := Some op, jr_fail_errno := err, jr_followup := Some QWE_LC_EV_START_FAILED\<rparr>"

definition job_release :: "'w sys \<Rightarrow> 'w run_ctx \<Rightarrow> job \<Rightarrow> engine_abort + 'w run_ctx \<times> job" where
  "job_release sy cx j =
     (let j1 = (if jr_timer_ok j
                then j\<lparr>jr_timer := qwe_timer_close (jr_timer j), jr_timer_ok := False\<rparr> else j)
      in case (if jr_sink_ok j1
               then (case qwe_sink_close (sy_alloc sy) (jr_sink j1) (cx_term cx) (cx_k cx) of
                       None \<Rightarrow> Inl Out_of_memory
                     | Some (_, tm', k') \<Rightarrow>
                         Inr (cx\<lparr>cx_term := tm', cx_k := k'\<rparr>, j1\<lparr>jr_sink := sink_zero, jr_sink_ok := False\<rparr>))
               else Inr (cx, j1)) of
           Inl a \<Rightarrow> Inl a
         | Inr (cx', j2) \<Rightarrow>
             let j3 = (if jr_ring_ok j2
                       then j2\<lparr>jb_dropped := rg_dropped (jr_ring j2), jr_ring := qwe_ring_free (jr_ring j2),
                               jr_red := qwe_redactor_free (jr_red j2), jr_ring_ok := False\<rparr>
                       else j2)
             in Inr (cx', j3\<lparr>jr_step_target := None, jr_step_token := None, jr_out_path := None,
                             jr_step_json := None, jr_res_buf := [], jr_res_cap := 0\<rparr>))"

text \<open>
  \<open>job_start\<close>: the ring, the log and the timer are taken in this order; the first that
  cannot be had ends the attempt, and what was taken is released.
\<close>

definition start_ring :: "'w sys \<Rightarrow> 'w run_ctx \<Rightarrow> job \<Rightarrow> cstring option \<times> 'w run_ctx \<times> job" where
  "start_ring sy cx j =
     (case sy_ring_mem sy (cx_w cx) of (mem, w') \<Rightarrow>
        case qwe_ring_init mem QWE_RING_CAPACITY of
          None \<Rightarrow> (Some ''ring'', cx\<lparr>cx_w := w'\<rparr>, j\<lparr>jr_ring := ring_zero\<rparr>)
        | Some r \<Rightarrow> (None, cx\<lparr>cx_w := w'\<rparr>, j\<lparr>jr_ring := r, jr_ring_ok := True\<rparr>))"

definition start_sink :: "'w sys \<Rightarrow> 'w run_ctx \<Rightarrow> job \<Rightarrow> cstring option \<times> 'w run_ctx \<times> job" where
  "start_sink sy cx j =
     (case sy_open_log sy (cx_run_dir cx @ ''/'' @ jb_id j @ ''.log'') (cx_w cx) of (f, w') \<Rightarrow>
        case qwe_sink_open (f \<noteq> None) (\<lambda>_. f) (jb_id j) (cx_run_dir cx) of
          None \<Rightarrow> (Some ''log'', cx\<lparr>cx_w := w'\<rparr>, j\<lparr>jr_sink := sink_zero\<rparr>)
        | Some s \<Rightarrow> (None, cx\<lparr>cx_w := w'\<rparr>, j\<lparr>jr_sink := s, jr_sink_ok := True\<rparr>))"

definition start_timer :: "'w sys \<Rightarrow> 'w run_ctx \<Rightarrow> job \<Rightarrow> cstring option \<times> 'w run_ctx \<times> job" where
  "start_timer sy cx j =
     (case ask sy Q_TIMERFD_CREATE cx of (b, cx') \<Rightarrow>
        case qwe_timer_open b (jr_timer j) of (opened, t) \<Rightarrow>
          if opened then (None, cx', j\<lparr>jr_timer := t, jr_timer_ok := True\<rparr>)
          else (Some ''timer'', cx', j\<lparr>jr_timer := t\<rparr>))"

definition start_resources :: "'w sys \<Rightarrow> 'w run_ctx \<Rightarrow> job \<Rightarrow> cstring option \<times> 'w run_ctx \<times> job" where
  "start_resources sy cx j =
     (case start_ring sy cx j of
        (Some op, cx1, j1) \<Rightarrow> (Some op, cx1, j1)
      | (None, cx1, j1) \<Rightarrow>
          (case start_sink sy cx1 j1 of
             (Some op, cx2, j2) \<Rightarrow> (Some op, cx2, j2)
           | (None, cx2, j2) \<Rightarrow> start_timer sy cx2 j2))"

definition job_start :: "'w sys \<Rightarrow> 'w run_ctx \<Rightarrow> job \<Rightarrow> engine_abort + 'w run_ctx \<times> job" where
  "job_start sy cx j =
     (case start_resources sy cx j of
        (Some op, cx1, j1) \<Rightarrow>
          (case job_release sy cx1 j1 of
             Inl a \<Rightarrow> Inl a
           | Inr (cx2, j2) \<Rightarrow> Inr (cx2, owe_start_failed op (sy_errno sy (cx_w cx1)) j2))
      | (None, cx1, j1) \<Rightarrow>
          (case now_s sy cx1 of (t, cx2) \<Rightarrow>
           case mono_now_ns sy cx2 of (ns, cx3) \<Rightarrow>
             let j2 = j1\<lparr>jb_started := t, jb_mono_start_ns := ns,
                         jb_steps := Some (replicate (jb_nsteps j1) (step_result_zero\<lparr>sr_duration_ms := -1\<rparr>))\<rparr>
             in case xallocs (sy_alloc sy) 1 (cx_k cx3) of
                  None \<Rightarrow> Inl Out_of_memory
                | Some k \<Rightarrow> Inr (cx3\<lparr>cx_k := k\<rparr>, if jb_timeout_ms j2 > 0
                          then j2\<lparr>jr_timer := qwe_timer_arm (jb_timeout_ms j2) (jr_timer j2)\<rparr> else j2)))"

section \<open>The live step\<close>

definition set_step :: "nat \<Rightarrow> (qwe_step_result \<Rightarrow> qwe_step_result) \<Rightarrow> job \<Rightarrow> job" where
  "set_step i f j = j\<lparr>jb_steps := map_option (\<lambda>ss. ss[i := f (ss ! i)]) (jb_steps j)\<rparr>"

text \<open>The names of a step in the results; \<open>uses:\<close> or \<open>run\<close>.\<close>

definition name_step :: "job \<Rightarrow> nat \<Rightarrow> qwe_step_result \<Rightarrow> qwe_step_result" where
  "name_step j i r =
     (let sp = jb_specs j ! i in
      r\<lparr>sr_id := sp_id sp, sr_name := sp_name sp,
        sr_plugin := Some (case sp_uses sp of Some u \<Rightarrow> u | None \<Rightarrow> ''run'')\<rparr>)"

text \<open>How many strings \<open>step_id\<close>, \<open>step_name\<close> and \<open>step_plugin\<close> copy.\<close>

definition step_strings :: "job \<Rightarrow> nat \<Rightarrow> nat" where
  "step_strings j i =
     (let sp = jb_specs j ! i in (if sp_id sp = None then 0 else 1) + (if sp_name sp = None then 0 else 1) + 1)"

text \<open>The table of the live step, which Lua makes: its timeout, its remote target, and whether it has a \<open>uses:\<close>.\<close>

definition resolve_step :: "'w sys \<Rightarrow> 'w run_ctx \<Rightarrow> job \<Rightarrow> int \<times> 'w run_ctx \<times> job" where
  "resolve_step sy cx j =
     (case ask sy Q_ASPRINTF cx of (b, cx1) \<Rightarrow>
        let token = (if b then Some (cx_run_id cx @ ''.'' @ jb_id j @ ''.'' @ nat_dec (jr_cur j)) else None);
            j1 = j\<lparr>jr_step_target := None, jr_step_token := token, jr_step_uses := False\<rparr>
        in case sy_resolve sy (jb_id j) (Suc (jr_cur j)) (jr_out_path j) (case token of Some t \<Rightarrow> t | None \<Rightarrow> []) (cx_w cx1) of
             (None, w') \<Rightarrow> (-1, cx1\<lparr>cx_w := w'\<rparr>, j1)
           | (Some (ms, target, uses), w') \<Rightarrow> (ms, cx1\<lparr>cx_w := w'\<rparr>, j1\<lparr>jr_step_target := target, jr_step_uses := uses\<rparr>))"

definition ssh_call :: "'w sys \<Rightarrow> cstring \<Rightarrow> cstring option \<Rightarrow> cstring option \<Rightarrow> 'w run_ctx \<Rightarrow> job \<Rightarrow> bool \<times> 'w run_ctx" where
  "ssh_call sy fn a b cx j = ask sy (Q_SSH fn (the (jr_step_target j)) a b) cx"

definition remote_unreachable :: "'w sys \<Rightarrow> 'w run_ctx \<Rightarrow> job \<Rightarrow> bool \<times> 'w run_ctx" where
  "remote_unreachable sy cx j =
     (if jr_step_target j = None then (False, cx) else ssh_call sy ''unreachable'' None None cx j)"

definition remote_kill :: "'w sys \<Rightarrow> cstring \<Rightarrow> 'w run_ctx \<Rightarrow> job \<Rightarrow> 'w run_ctx" where
  "remote_kill sy signal cx j =
     (if jr_step_target j \<noteq> None \<and> jr_step_token j \<noteq> None \<and> \<not> jr_leader_reaped j
      then snd (ssh_call sy ''kill'' (jr_step_token j) (Some signal) cx j) else cx)"

definition remote_lost :: "'w sys \<Rightarrow> wstatus \<Rightarrow> 'w run_ctx \<Rightarrow> job \<Rightarrow> bool \<times> 'w run_ctx" where
  "remote_lost sy status cx j =
     (if jr_step_target j = None \<or> status \<noteq> W_EXITED 255 then (False, cx)
      else case ssh_call sy ''alive'' None None cx j of (alive, cx') \<Rightarrow> (\<not> alive, cx'))"

text \<open>The refusal of a step by its target's master: the operation that could not be done, if any.\<close>

definition spawn_ensure :: "'w sys \<Rightarrow> cstring option \<Rightarrow> 'w run_ctx \<Rightarrow> job \<Rightarrow> cstring option \<times> 'w run_ctx" where
  "spawn_ensure sy op cx j =
     (if op = None \<and> jr_step_target j \<noteq> None then
        (case remote_unreachable sy cx j of (gone, cx1) \<Rightarrow>
           if gone then (op, cx1)
           else case ask sy (Q_ENSURE (the (jr_step_target j))) cx1 of (up, cx2) \<Rightarrow>
             if up then (op, cx2)
             else case ask sy (Q_REFUSED (the (jr_step_target j))) cx2 of (refused, cx3) \<Rightarrow>
               (if refused then Some ''ssh-master'' else op, cx3))
      else (op, cx))"

text \<open>The chain of resources of a step; what was opened before the one that failed is closed.\<close>

definition spawn_resources :: "'w sys \<Rightarrow> 'w run_ctx \<Rightarrow> job \<Rightarrow> cstring option \<times> 'w run_ctx \<times> job" where
  "spawn_resources sy cx j =
     (case (if jr_out_path j = None then (True, cx) else ask sy (Q_OUTPUT_FILE (jr_out_path j)) cx) of (made, cx1) \<Rightarrow>
        if \<not> made then (Some ''output-file'', cx1, j)
        else case ask sy Q_TIMERFD_CREATE cx1 of (b1, cx2) \<Rightarrow>
          case qwe_timer_open b1 (jr_step_timer j) of (o1, t1) \<Rightarrow>
          let j1 = j\<lparr>jr_step_timer := t1\<rparr> in
          if \<not> o1 then (Some ''timer'', cx2, j1)
          else case ask sy Q_TIMERFD_CREATE cx2 of (b2, cx3) \<Rightarrow>
            case qwe_timer_open b2 (jr_grace_timer j) of (o2, t2) \<Rightarrow>
            let j2 = j1\<lparr>jr_grace_timer := t2\<rparr> in
            if \<not> o2 then (Some ''timer'', cx3, j2\<lparr>jr_step_timer := qwe_timer_close t1\<rparr>)
            else case ask sy Q_SPAWN cx3 of (forked, cx4) \<Rightarrow>
              if \<not> forked
              then (Some (sy_spawn_op sy (cx_w cx4)), cx4,
                    j2\<lparr>jr_step_timer := qwe_timer_close t1, jr_grace_timer := qwe_timer_close t2\<rparr>)
              else (None, cx4, j2\<lparr>jr_pid := sy_pid sy (cx_w cx4)\<rparr>))"

text \<open>The state of a step about to be spawned.\<close>

definition spawn_reset :: "job \<Rightarrow> job" where
  "spawn_reset j =
     j\<lparr>jr_live_step := int (jr_cur j), jr_leader_reaped := False, jr_res_buf := [],
       jr_res_overflow := False, jr_step_changed := True, jr_step_unreachable := False\<rparr>"

definition spawn_prepare :: "'w sys \<Rightarrow> 'w run_ctx \<Rightarrow> job \<Rightarrow> int \<times> 'w run_ctx \<times> job" where
  "spawn_prepare sy cx j =
     (let j1 = (set_step (jr_cur j) (name_step j (jr_cur j)) j)\<lparr>jr_step_json := None\<rparr> in
      case ask sy Q_ASPRINTF cx of (b, cx1) \<Rightarrow>
      let j2 = j1\<lparr>jr_out_path := (if b then Some (cx_run_dir_abs cx @ ''/'' @ jb_id j @ ''.'' @ nat_dec (jr_cur j) @ ''.output'')
                                  else None)\<rparr> in
      case resolve_step sy cx1 j2 of (ms, cx2, j3) \<Rightarrow>
      case now_s sy cx2 of (t, cx3) \<Rightarrow>
      case mono_now_ns sy cx3 of (ns, cx4) \<Rightarrow>
        (ms, cx4, spawn_reset ((set_step (jr_cur j) (\<lambda>r. r\<lparr>sr_started := t\<rparr>) j3)\<lparr>jr_step_mono_start_ns := ns\<rparr>)))"

definition spawn_go :: "'w sys \<Rightarrow> int \<Rightarrow> 'w run_ctx \<Rightarrow> job \<Rightarrow> 'w run_ctx \<times> job" where
  "spawn_go sy ms cx1 j1 =
     (case spawn_ensure sy (if ms < 0 then Some ''template'' else None) cx1 j1 of (op1, cx2) \<Rightarrow>
      case (if op1 = None \<and> jr_step_target j1 \<noteq> None then remote_unreachable sy cx2 j1 else (False, cx2)) of (gone, cx3) \<Rightarrow>
      let j2 = j1\<lparr>jr_step_unreachable := gone\<rparr> in
      case (if op1 \<noteq> None then (op1, cx3, j2) else spawn_resources sy cx3 j2) of
        (Some op, cx4, j3) \<Rightarrow>
          (cx4, owe_start_failed op
             (if ms < 0 then 22 else if op1 \<noteq> None then 111 else sy_errno sy (cx_w cx4)) j3)
      | (None, cx4, j3) \<Rightarrow>
          (cx4, (if ms > 0 then j3\<lparr>jr_step_timer := qwe_timer_arm ms (jr_step_timer j3)\<rparr> else j3)\<lparr>jr_proc_ok := True\<rparr>))"

definition step_spawn :: "'w sys \<Rightarrow> 'w run_ctx \<Rightarrow> job \<Rightarrow> engine_abort + 'w run_ctx \<times> job" where
  "step_spawn sy cx j =
     (case xallocs (sy_alloc sy) (step_strings j (jr_cur j)) (cx_k cx) of
        None \<Rightarrow> Inl Out_of_memory
      | Some k \<Rightarrow>
          (case spawn_prepare sy (cx\<lparr>cx_k := k\<rparr>) j of (ms, cx1, j1) \<Rightarrow>
             case xallocs (sy_alloc sy) (if jr_step_target j1 = None then 0 else 1) (cx_k cx1) of
               None \<Rightarrow> Inl Out_of_memory
             | Some k1 \<Rightarrow> Inr (spawn_go sy ms (cx1\<lparr>cx_k := k1\<rparr>) j1)))"

definition step_finish :: "'w sys \<Rightarrow> 'w run_ctx \<Rightarrow> job \<Rightarrow> engine_abort + 'w run_ctx \<times> job" where
  "step_finish sy cx j =
     (if jr_live_step j < 0 then Inr (cx, j)
      else
        let i = nat (jr_live_step j) in
        case (if sr_duration_ms (the (jb_steps j) ! i) < 0
              then (case mono_now_ns sy cx of (ns, cx') \<Rightarrow>
                      (cx', set_step i (\<lambda>r. r\<lparr>sr_duration_ms := mono_diff_ms (jr_step_mono_start_ns j) ns\<rparr>) j))
              else (cx, j)) of (cx1, j1) \<Rightarrow>
        case (if jr_proc_ok j1
              then (case run_drain sy cx1 j1 of
                      Inl a \<Rightarrow> Inl a
                    | Inr (_, cx2, j2) \<Rightarrow>
                        (case run_drain_flush sy cx2 j2 of
                           Inl a \<Rightarrow> Inl a
                         | Inr (cx3, j3) \<Rightarrow>
                             Inr (cx3, j3\<lparr>jr_step_timer := qwe_timer_close (jr_step_timer j3),
                                         jr_grace_timer := qwe_timer_close (jr_grace_timer j3),
                                         jr_proc_ok := False\<rparr>)))
              else Inr (cx1, j1)) of
          Inl a \<Rightarrow> Inl a
        | Inr (cx4, j4) \<Rightarrow>
            Inr (cx4, j4\<lparr>jr_step_target := None, jr_step_token := None, jr_cur := Suc (jr_cur j4), jr_live_step := -1\<rparr>))"

definition record_step :: "'w sys \<Rightarrow> qwe_lc_result \<Rightarrow> 'w run_ctx \<Rightarrow> job \<Rightarrow> 'w run_ctx \<times> job" where
  "record_step sy res cx j =
     (case now_s sy cx of (t, cx') \<Rightarrow>
        (cx', (set_step (jr_cur j)
                (\<lambda>r. r\<lparr>sr_ended := t, sr_changed := jr_step_changed j, sr_outputs_json := jr_step_json j,
                       sr_outcome := Some (qwe_lc_step_outcome res), sr_reason := r_reason res\<rparr>) j)
              \<lparr>jr_step_json := None\<rparr>))"

text \<open>The steps from \<open>cur\<close> on never ran.\<close>

definition skip_rest :: "job \<Rightarrow> qwe_step_result list \<Rightarrow> qwe_step_result list" where
  "skip_rest j ss =
     map (\<lambda>i. if jr_cur j \<le> i then (name_step j i (ss ! i))\<lparr>sr_outcome := Some ''skipped''\<rparr> else ss ! i)
       [0..<length ss]"

definition job_end :: "'w sys \<Rightarrow> 'w run_ctx \<Rightarrow> job \<Rightarrow> engine_abort + 'w run_ctx \<times> job" where
  "job_end sy cx j =
     (case step_finish sy cx j of
        Inl a \<Rightarrow> Inl a
      | Inr (cx1, j1) \<Rightarrow>
          (case jb_steps j1 of
             None \<Rightarrow> job_release sy cx1 j1
           | Some ss \<Rightarrow>
               (case now_s sy cx1 of (t, cx2) \<Rightarrow>
                case mono_now_ns sy cx2 of (ns, cx3) \<Rightarrow>
                case xallocs (sy_alloc sy) (sum_list (map (step_strings j1) [jr_cur j1..<length ss])) (cx_k cx3) of
                  None \<Rightarrow> Inl Out_of_memory
                | Some k \<Rightarrow>
                    job_release sy (cx3\<lparr>cx_k := k\<rparr>)
                      (j1\<lparr>jb_ended := t, jb_duration_ms := mono_diff_ms (jb_mono_start_ns j1) ns,
                          jb_steps := Some (skip_rest j1 ss)\<rparr>))))"

section \<open>Events\<close>

definition apply_action ::
    "'w sys \<Rightarrow> qwe_lc_result \<Rightarrow> qwe_lc_action \<Rightarrow> 'w run_ctx \<Rightarrow> job \<Rightarrow> engine_abort + 'w run_ctx \<times> job" where
  "apply_action sy res a cx j =
     (case a of
        QWE_LC_ACT_NONE \<Rightarrow> Inr (cx, j)
      | QWE_LC_ACT_START_JOB \<Rightarrow> job_start sy cx j
      | QWE_LC_ACT_SPAWN_STEP \<Rightarrow> step_spawn sy cx j
      | QWE_LC_ACT_SIGTERM_GROUP \<Rightarrow>
          (let cx1 = remote_kill sy ''TERM'' cx j in
           Inr (cx1\<lparr>cx_signals := cx_signals cx1 @ [SIGTERM_TO (jr_pid j)]\<rparr>, j))
      | QWE_LC_ACT_ARM_GRACE \<Rightarrow>
          Inr (cx, j\<lparr>jr_grace_timer := qwe_timer_arm (cx_grace_ms cx) (jr_grace_timer j)\<rparr>)
      | QWE_LC_ACT_SIGKILL_GROUP \<Rightarrow>
          (let cx1 = remote_kill sy ''KILL'' cx j in
           Inr (cx1\<lparr>cx_signals := cx_signals cx1 @ [SIGKILL_TO (jr_pid j)]\<rparr>, j))
      | QWE_LC_ACT_RECORD_STEP \<Rightarrow> Inr (record_step sy res cx j)
      | QWE_LC_ACT_RECORD_JOB \<Rightarrow> Inr (cx, j\<lparr>jb_reason := r_reason res\<rparr>)
      | QWE_LC_ACT_END_JOB \<Rightarrow> job_end sy cx j)"

fun apply_actions ::
    "'w sys \<Rightarrow> qwe_lc_result \<Rightarrow> qwe_lc_action list \<Rightarrow> 'w run_ctx \<Rightarrow> job \<Rightarrow> engine_abort + 'w run_ctx \<times> job" where
  "apply_actions sy res [] cx j = Inr (cx, j)"
| "apply_actions sy res (a # as) cx j =
     (case apply_action sy res a cx j of
        Inl ab \<Rightarrow> Inl ab
      | Inr (cx', j') \<Rightarrow> apply_actions sy res as cx' j')"

definition trace_add :: "trace_rec \<Rightarrow> 'w run_ctx \<Rightarrow> 'w run_ctx" where
  "trace_add t cx = cx\<lparr>cx_trace := cx_trace cx @ [t]\<rparr>"

text \<open>Which step a trace record names: the live one, or the one the cursor is at.\<close>

definition shown_step :: "job \<Rightarrow> int" where
  "shown_step j =
     (if jr_live_step j \<ge> 0 then jr_live_step j
      else if jb_steps j \<noteq> None \<and> jr_cur j < jb_nsteps j then int (jr_cur j) else -1)"

text \<open>The name of an errno from the C library, or \<open>E\<close> and its number; the detail buffer holds 95 bytes.\<close>

definition qwe_errno_name :: "'w sys \<Rightarrow> int \<Rightarrow> cstring" where
  "qwe_errno_name sy err =
     (case sy_strerrorname sy err of Some n \<Rightarrow> n | None \<Rightarrow> ''E'' @ int_dec err)"

definition fail_detail :: "'w sys \<Rightarrow> job \<Rightarrow> cstring" where
  "fail_detail sy j =
     take 95 (''op='' @ (case jr_fail_op j of Some op \<Rightarrow> op | None \<Rightarrow> ''?'') @ '' errno='' @ qwe_errno_name sy (jr_fail_errno j))"

text \<open>Notes on the job that its cancel or its timeout has been delivered.\<close>

definition note_told :: "qwe_lc_event \<Rightarrow> job \<Rightarrow> job" where
  "note_told ev j =
     (let j1 = (if ev = QWE_LC_EV_CANCEL then j\<lparr>jr_cancel_told := True\<rparr> else j)
      in if ev = QWE_LC_EV_JOB_TIMEOUT then j1\<lparr>jr_timeout_told := True\<rparr> else j1)"

definition dispatch_one ::
    "'w sys \<Rightarrow> qwe_lc_event \<Rightarrow> qwe_lc_payload \<Rightarrow> int \<Rightarrow> 'w run_ctx \<Rightarrow> job \<Rightarrow> engine_abort + 'w run_ctx \<times> job" where
  "dispatch_one sy ev pl ev_step cx j =
     (let from = jb_state j;
          record_ev = (\<lambda>nxt kind reason detail. trace_add
             \<lparr>tr_job = jb_id j, tr_step = shown_step j, tr_state = from, tr_event = qwe_lc_event_name ev,
              tr_next = nxt, tr_kind = kind, tr_reason = reason, tr_detail = detail\<rparr>);
          cx1 = (if cx_debug cx then record_ev None ''event'' None None cx else cx)
      in if qwe_lc_event_is_stale from ev ev_step (jr_live_step j)
         then Inr (record_ev (Some (qwe_lc_state_name from)) ''stale'' None None cx1, j)
         else
           let j1 = note_told ev j in
           case qwe_lc_lookup from ev (pl\<lparr>pl_carried := jr_last_reason j1\<rparr>) of
             Inl (s, e) \<Rightarrow> Inl (Impossible_event s e)
           | Inr res \<Rightarrow>
               let cx2 = record_ev (Some (qwe_lc_state_name (r_next res)))
                           (if r_kind res = QWE_LC_IGNORE then ''ignore'' else ''transition'') (r_reason res)
                           (if ev = QWE_LC_EV_START_FAILED then Some (fail_detail sy j1) else None) cx1;
                   j2 = j1\<lparr>jb_state := r_next res,
                           jr_last_reason := (if r_reason res \<noteq> None then r_reason res else jr_last_reason j1)\<rparr>
               in case (if ev = QWE_LC_EV_GROUP_EMPTY then step_finish sy cx2 j2 else Inr (cx2, j2)) of
                    Inl a \<Rightarrow> Inl a
                  | Inr (cx3, j3) \<Rightarrow> apply_actions sy res (r_actions res) cx3 j3)"

definition poll_cancel :: "'w sys \<Rightarrow> 'w run_ctx \<Rightarrow> bool \<times> 'w run_ctx" where
  "poll_cancel sy cx =
     (case ask sy Q_CANCEL_PENDING cx of (b, cx1) \<Rightarrow>
        let cx2 = (if b then cx1\<lparr>cx_cancel_requested := True\<rparr> else cx1)
        in (cx_cancel_requested cx2, cx2))"

definition no_payload :: qwe_lc_payload where
  "no_payload = \<lparr>pl_coe = False, pl_reason = None, pl_carried = None\<rparr>"

definition between_steps_event ::
    "'w sys \<Rightarrow> 'w run_ctx \<Rightarrow> job \<Rightarrow> (qwe_lc_event \<times> qwe_lc_payload) \<times> 'w run_ctx \<times> job" where
  "between_steps_event sy cx j =
     (case (if \<not> jr_cancel_told j then poll_cancel sy cx else (False, cx)) of (cancel, cx1) \<Rightarrow>
        if cancel then ((QWE_LC_EV_CANCEL, no_payload), cx1, j)
        else case (if jr_timer_ok j \<and> \<not> jr_timeout_told j
                   then (case ask sy Q_TIMERFD_READ cx1 of (b, cx2) \<Rightarrow>
                           case qwe_timer_expired b (jr_timer j) of (fired, t) \<Rightarrow> (fired, cx2, j\<lparr>jr_timer := t\<rparr>))
                   else (False, cx1, j)) of (timeout, cx3, j1) \<Rightarrow>
          if timeout then ((QWE_LC_EV_JOB_TIMEOUT, no_payload), cx3, j1)
          else if jr_cur j1 < jb_nsteps j1
               then ((QWE_LC_EV_NEXT_STEP, no_payload\<lparr>pl_coe := sp_coe (jb_specs j1 ! jr_cur j1)\<rparr>), cx3, j1)
          else ((QWE_LC_EV_NO_MORE_STEPS, no_payload), cx3, j1))"

text \<open>
  The loop of \<open>job_send\<close>: an owed event first, then the cursor's next move, until the job
  waits for the outside. The bound is on the number of its turns; \<open>None\<close> is running out of it.
\<close>

fun owed_loop :: "nat \<Rightarrow> 'w sys \<Rightarrow> 'w run_ctx \<Rightarrow> job \<Rightarrow> (engine_abort + 'w run_ctx \<times> job) option" where
  "owed_loop 0 sy cx j = None"
| "owed_loop (Suc f) sy cx j =
     (case jr_followup j of
        Some ev \<Rightarrow>
          (case dispatch_one sy ev no_payload (-1) cx (j\<lparr>jr_followup := None\<rparr>) of
             Inl a \<Rightarrow> Some (Inl a)
           | Inr (cx', j') \<Rightarrow> owed_loop f sy cx' j')
      | None \<Rightarrow>
          if jb_state j = QWE_LC_BETWEEN_STEPS then
            (case between_steps_event sy cx j of ((ev, pl), cx1, j1) \<Rightarrow>
               case dispatch_one sy ev pl (-1) cx1 j1 of
                 Inl a \<Rightarrow> Some (Inl a)
               | Inr (cx', j') \<Rightarrow> owed_loop f sy cx' j')
          else Some (Inr (cx, j)))"

definition OWED_TURNS :: nat where
  "OWED_TURNS = 4"

definition job_send ::
    "'w sys \<Rightarrow> qwe_lc_event \<Rightarrow> qwe_lc_payload \<Rightarrow> int \<Rightarrow> 'w run_ctx \<Rightarrow> job \<Rightarrow> (engine_abort + 'w run_ctx \<times> job) option" where
  "job_send sy ev pl ev_step cx j =
     (case dispatch_one sy ev pl ev_step cx j of
        Inl a \<Rightarrow> Some (Inl a)
      | Inr (cx', j') \<Rightarrow> owed_loop OWED_TURNS sy cx' j')"

definition job_send_plain ::
    "'w sys \<Rightarrow> qwe_lc_event \<Rightarrow> int \<Rightarrow> 'w run_ctx \<Rightarrow> job \<Rightarrow> (engine_abort + 'w run_ctx \<times> job) option" where
  "job_send_plain sy ev ev_step = job_send sy ev no_payload ev_step"

section \<open>Exits\<close>

datatype msg_status = MSG_NONE | MSG_EXEC | MSG_OK | MSG_FAILED

record step_msg =
  sm_status :: msg_status
  sm_reason :: "cstring option"
  sm_changed :: bool

definition store_outputs :: "'w sys \<Rightarrow> 'w run_ctx \<Rightarrow> job \<Rightarrow> 'w run_ctx \<times> job" where
  "store_outputs sy cx j =
     (case sy_store sy (jb_id j) (cx_w cx) of (js, w') \<Rightarrow>
        (cx\<lparr>cx_w := w'\<rparr>, case js of None \<Rightarrow> j | Some s \<Rightarrow> j\<lparr>jr_step_json := Some s\<rparr>))"

definition collect_file_outputs :: "'w sys \<Rightarrow> 'w run_ctx \<Rightarrow> job \<Rightarrow> 'w run_ctx \<times> job" where
  "collect_file_outputs sy cx j =
     (case jr_out_path j of
        None \<Rightarrow> (cx, j)
      | Some p \<Rightarrow>
          (case sy_take_output sy p (cx_w cx) of (table, w') \<Rightarrow>
             if table then store_outputs sy (cx\<lparr>cx_w := w'\<rparr>) j else (cx\<lparr>cx_w := w'\<rparr>, j)))"

definition msg_status_of :: "cstring option \<Rightarrow> msg_status" where
  "msg_status_of s =
     (if s = Some ''exec'' then MSG_EXEC else if s = Some ''ok'' then MSG_OK
      else if s = Some ''failed'' then MSG_FAILED else MSG_NONE)"

text \<open>A plugin cannot invent a reason: anything but the three it may report is \<open>plugin-error\<close>.\<close>

definition msg_reason_of :: "cstring option \<Rightarrow> cstring" where
  "msg_reason_of s =
     (if s = Some ''not-converged'' then ''not-converged''
      else if s = Some ''become-denied'' then ''become-denied''
      else if s = Some ''engine-error'' then ''engine-error'' else ''plugin-error'')"

definition read_step_msg :: "'w sys \<Rightarrow> 'w run_ctx \<Rightarrow> job \<Rightarrow> step_msg \<times> 'w run_ctx \<times> job" where
  "read_step_msg sy cx j =
     (let none = \<lparr>sm_status = MSG_NONE, sm_reason = None, sm_changed = True\<rparr> in
      if jr_res_buf j = [] \<or> jr_res_overflow j then (none, cx, j)
      else case sy_decode sy (jr_res_buf j) of
             None \<Rightarrow> (none, cx, j)
           | Some None \<Rightarrow> (none, cx, j)
           | Some (Some t) \<Rightarrow>
               let m = \<lparr>sm_status = msg_status_of (rt_status t), sm_reason = Some (msg_reason_of (rt_reason t)),
                        sm_changed = (case rt_changed t of Some b \<Rightarrow> b | None \<Rightarrow> True)\<rparr>
               in case (if sm_status m = MSG_OK \<and> rt_outputs t then store_outputs sy cx j else (cx, j)) of
                    (cx', j') \<Rightarrow> (m, cx', j'))"

definition leader_exit_event ::
    "'w sys \<Rightarrow> wstatus \<Rightarrow> 'w run_ctx \<Rightarrow> job \<Rightarrow> (qwe_lc_event \<times> cstring option) \<times> 'w run_ctx \<times> job" where
  "leader_exit_event sy status cx j =
     (let exited_ok = (status = W_EXITED 0);
          plain_ev = (if exited_ok then QWE_LC_EV_LEADER_EXIT_OK else QWE_LC_EV_LEADER_EXIT_FAIL);
          is_plugin = jr_step_uses j
      in case drain_result sy cx (j\<lparr>jr_step_changed := True\<rparr>) of (_, cx1, j1) \<Rightarrow>
         case read_step_msg sy cx1 j1 of (m, cx2, j2) \<Rightarrow>
         if \<not> is_plugin then
           (case collect_file_outputs sy cx2 j2 of (cx3, j3) \<Rightarrow>
              if sm_status m = MSG_FAILED
              then ((QWE_LC_EV_LEADER_EXIT_FAIL, sm_reason m), cx3, j3\<lparr>jr_step_changed := sm_changed m\<rparr>)
              else if jr_step_unreachable j3 \<and> status = W_EXITED 255
              then ((plain_ev, Some ''unreachable''), cx3, j3)
              else case remote_lost sy status cx3 j3 of (lost, cx4) \<Rightarrow>
                ((plain_ev, Some (if lost then ''connection-lost'' else ''exit-code'')), cx4, j3))
         else if sm_status m = MSG_EXEC then ((plain_ev, Some ''exit-code''), cx2, j2)
         else
           let j3 = (if sm_status m \<noteq> MSG_NONE then j2\<lparr>jr_step_changed := sm_changed m\<rparr> else j2) in
           if sm_status m = MSG_OK \<and> exited_ok then ((QWE_LC_EV_LEADER_EXIT_OK, Some ''exit-code''), cx2, j3)
           else ((QWE_LC_EV_LEADER_EXIT_FAIL,
                  if sm_status m = MSG_FAILED then sm_reason m else Some ''plugin-error''), cx2, j3))"

section \<open>Handlers\<close>

text \<open>
  The handlers work on the list of jobs of the run. A result \<open>None\<close> would be a job that is
  never done being sent what it is owed.
\<close>

definition on_job ::
    "nat \<Rightarrow> ('w run_ctx \<Rightarrow> job \<Rightarrow> (engine_abort + 'w run_ctx \<times> job) option) \<Rightarrow> 'w run_ctx \<Rightarrow> job list
     \<Rightarrow> (engine_abort + 'w run_ctx \<times> job list) option" where
  "on_job i f cx jobs =
     (case f cx (jobs ! i) of
        None \<Rightarrow> None
      | Some (Inl a) \<Rightarrow> Some (Inl a)
      | Some (Inr (cx', j')) \<Rightarrow> Some (Inr (cx', jobs[i := j'])))"

text \<open>\<open>for (i = 0; i < njobs; i++)\<close> over handlers that may end the program.\<close>

fun for_jobs ::
    "nat list \<Rightarrow> (nat \<Rightarrow> 'w run_ctx \<Rightarrow> job list \<Rightarrow> (engine_abort + 'w run_ctx \<times> job list) option)
     \<Rightarrow> 'w run_ctx \<Rightarrow> job list \<Rightarrow> (engine_abort + 'w run_ctx \<times> job list) option" where
  "for_jobs [] h cx jobs = Some (Inr (cx, jobs))"
| "for_jobs (i # is) h cx jobs =
     (case h i cx jobs of
        Some (Inr (cx', jobs')) \<Rightarrow> for_jobs is h cx' jobs'
      | r \<Rightarrow> r)"

definition is_leader :: "nat \<Rightarrow> job \<Rightarrow> bool" where
  "is_leader pid j \<longleftrightarrow> \<not> (jr_live_step j < 0 \<or> \<not> jr_proc_ok j \<or> jr_leader_reaped j \<or> jr_pid j \<noteq> pid)"

definition reap_leader :: "'w sys \<Rightarrow> wstatus \<Rightarrow> 'w run_ctx \<Rightarrow> job \<Rightarrow> (engine_abort + 'w run_ctx \<times> job) option" where
  "reap_leader sy status cx j =
     (case leader_exit_event sy status cx (j\<lparr>jr_leader_reaped := True\<rparr>) of ((ev, reason), cx1, j1) \<Rightarrow>
        job_send sy ev \<lparr>pl_coe = False, pl_reason = reason, pl_carried = None\<rparr> (jr_live_step j1) cx1 j1)"

text \<open>One process that has exited: the first job whose live leader it was hears of it.\<close>

definition reap_one ::
    "'w sys \<Rightarrow> nat \<times> wstatus \<Rightarrow> 'w run_ctx \<Rightarrow> job list \<Rightarrow> (engine_abort + 'w run_ctx \<times> job list) option" where
  "reap_one sy pidst cx jobs =
     (case find (\<lambda>i. is_leader (fst pidst) (jobs ! i)) [0..<length jobs] of
        None \<Rightarrow> Some (Inr (cx, jobs))
      | Some i \<Rightarrow> on_job i (reap_leader sy (snd pidst)) cx jobs)"

fun reap_exits ::
    "'w sys \<Rightarrow> (nat \<times> wstatus) list \<Rightarrow> 'w run_ctx \<Rightarrow> job list \<Rightarrow> (engine_abort + 'w run_ctx \<times> job list) option" where
  "reap_exits sy [] cx jobs = Some (Inr (cx, jobs))"
| "reap_exits sy (e # es) cx jobs =
     (case reap_one sy e cx jobs of
        Some (Inr (cx', jobs')) \<Rightarrow> reap_exits sy es cx' jobs'
      | r \<Rightarrow> r)"

definition group_check ::
    "'w sys \<Rightarrow> nat \<Rightarrow> 'w run_ctx \<Rightarrow> job list \<Rightarrow> (engine_abort + 'w run_ctx \<times> job list) option" where
  "group_check sy i cx jobs =
     (let j = jobs ! i in
      if jr_live_step j \<ge> 0 \<and> jr_proc_ok j \<and> jr_leader_reaped j then
        (case ask sy (Q_GROUP_EMPTY (jr_pid j)) cx of (gone, cx1) \<Rightarrow>
           if gone then on_job i (job_send_plain sy QWE_LC_EV_GROUP_EMPTY (jr_live_step j)) cx1 jobs
           else Some (Inr (cx1, jobs)))
      else Some (Inr (cx, jobs)))"

text \<open>\<open>exits\<close> is what \<open>waitpid\<close> returned until there was nothing left to reap.\<close>

definition reap_children ::
    "'w sys \<Rightarrow> (nat \<times> wstatus) list \<Rightarrow> 'w run_ctx \<Rightarrow> job list \<Rightarrow> (engine_abort + 'w run_ctx \<times> job list) option" where
  "reap_children sy exits cx jobs =
     (case reap_exits sy exits cx jobs of
        Some (Inr (cx', jobs')) \<Rightarrow> for_jobs [0..<length jobs'] (group_check sy) cx' jobs'
      | r \<Rightarrow> r)"

text \<open>The timer of the live step is read; an event that is not the live step's goes to the stale filter.\<close>

definition step_timer_event ::
    "'w sys \<Rightarrow> (job \<Rightarrow> qwe_timer) \<Rightarrow> (qwe_timer \<Rightarrow> job \<Rightarrow> job) \<Rightarrow> qwe_lc_event \<Rightarrow> int \<Rightarrow> 'w run_ctx \<Rightarrow> job
     \<Rightarrow> (engine_abort + 'w run_ctx \<times> job) option" where
  "step_timer_event sy get put ev step cx j =
     (if step = jr_live_step j \<and> jr_proc_ok j then
        (case ask sy Q_TIMERFD_READ cx of (b, cx1) \<Rightarrow>
         case qwe_timer_expired b (get j) of (fired, t) \<Rightarrow>
           if \<not> fired then Some (Inr (cx1, put t j))
           else job_send_plain sy ev step cx1 (put t j))
      else job_send_plain sy ev step cx j)"

definition job_event :: "'w sys \<Rightarrow> evkind \<Rightarrow> int \<Rightarrow> 'w run_ctx \<Rightarrow> job \<Rightarrow> (engine_abort + 'w run_ctx \<times> job) option" where
  "job_event sy kind step cx j =
     (case kind of
        EV_OUT \<Rightarrow>
          if step = jr_live_step j \<and> jr_proc_ok j
          then Some (case run_drain sy cx j of Inl a \<Rightarrow> Inl a | Inr (_, cx', j') \<Rightarrow> Inr (cx', j'))
          else Some (Inr (cx, j))
      | EV_RESULT \<Rightarrow>
          if step = jr_live_step j \<and> jr_proc_ok j
          then (case drain_result sy cx j of (_, cx', j') \<Rightarrow> Some (Inr (cx', j')))
          else Some (Inr (cx, j))
      | EV_STEP_TIMER \<Rightarrow>
          step_timer_event sy jr_step_timer (\<lambda>t j. j\<lparr>jr_step_timer := t\<rparr>) QWE_LC_EV_STEP_TIMEOUT step cx j
      | EV_GRACE_TIMER \<Rightarrow>
          step_timer_event sy jr_grace_timer (\<lambda>t j. j\<lparr>jr_grace_timer := t\<rparr>) QWE_LC_EV_GRACE_EXPIRED step cx j
      | EV_JOB_TIMER \<Rightarrow>
          if jr_timer_ok j \<and> jr_timeout_told j then Some (Inr (cx, j))
          else if jr_timer_ok j then
            (case ask sy Q_TIMERFD_READ cx of (b, cx1) \<Rightarrow>
             case qwe_timer_expired b (jr_timer j) of (fired, t) \<Rightarrow>
               if \<not> fired then Some (Inr (cx1, j\<lparr>jr_timer := t\<rparr>))
               else job_send_plain sy QWE_LC_EV_JOB_TIMEOUT (-1) cx1 (j\<lparr>jr_timer := t\<rparr>))
          else job_send_plain sy QWE_LC_EV_JOB_TIMEOUT (-1) cx j
      | _ \<Rightarrow> Some (Inr (cx, j)))"

definition cancel_one ::
    "'w sys \<Rightarrow> nat \<Rightarrow> 'w run_ctx \<Rightarrow> job list \<Rightarrow> (engine_abort + 'w run_ctx \<times> job list) option" where
  "cancel_one sy i cx jobs =
     (if jr_cancel_told (jobs ! i) then Some (Inr (cx, jobs))
      else on_job i (job_send_plain sy QWE_LC_EV_CANCEL (-1)) cx jobs)"

text \<open>The flag says whether any job was told.\<close>

definition broadcast_cancel ::
    "'w sys \<Rightarrow> 'w run_ctx \<Rightarrow> job list \<Rightarrow> bool \<times> (engine_abort + 'w run_ctx \<times> job list) option" where
  "broadcast_cancel sy cx jobs =
     (if \<not> cx_cancel_requested cx then (False, Some (Inr (cx, jobs)))
      else (list_ex (\<lambda>j. \<not> jr_cancel_told j) jobs, for_jobs [0..<length jobs] (cancel_one sy) cx jobs))"

definition skip_one ::
    "'w sys \<Rightarrow> nat \<Rightarrow> 'w run_ctx \<Rightarrow> job list \<Rightarrow> (engine_abort + 'w run_ctx \<times> job list) option" where
  "skip_one sy i cx jobs =
     (if jb_detail (jobs ! i) = None then Some (Inr (cx, jobs))
      else on_job i (job_send sy QWE_LC_EV_SKIP \<lparr>pl_coe = False, pl_reason = Some ''target-disabled'', pl_carried = None\<rparr> (-1))
             cx jobs)"

definition skip_disabled :: "'w sys \<Rightarrow> 'w run_ctx \<Rightarrow> job list \<Rightarrow> (engine_abort + 'w run_ctx \<times> job list) option" where
  "skip_disabled sy cx jobs = for_jobs [0..<length jobs] (skip_one sy) cx jobs"

end
