(* ===== verification/Engine_Inv.thy ===== *)
theory Engine_Inv
  imports Engine
begin

text \<open>
  The invariant of a job between two events, and that every dispatch keeps it: which resources a
  job holds in which state of the lifecycle, where its cursor is, and what its timers have done.
  From it follows that no event the handlers send meets an impossible cell of the table.
\<close>

section \<open>The shapes of a transition\<close>

abbreviation running_s :: "qwe_lc_state set" where
  "running_s \<equiv> {QWE_LC_STEP_RUNNING, QWE_LC_STEP_RUNNING_COE}"

abbreviation stop_s :: "qwe_lc_state set" where
  "stop_s \<equiv> {QWE_LC_STEP_STOPPING, QWE_LC_STEP_STOPPING_COE, QWE_LC_STEP_KILLING, QWE_LC_STEP_KILLING_COE}"

abbreviation timeout_s :: "qwe_lc_state set" where
  "timeout_s \<equiv> {QWE_LC_SETTLING_CANCEL_TIMEOUT_TERM, QWE_LC_SETTLING_CANCEL_TIMEOUT_KILL}"

definition none4 :: "qwe_lc_action list" where
  "none4 = [QWE_LC_ACT_NONE, QWE_LC_ACT_NONE, QWE_LC_ACT_NONE, QWE_LC_ACT_NONE]"

text \<open>What a cell that is not impossible can be: the actions, with what they say of the states.\<close>

definition lc_shape :: "qwe_lc_state \<Rightarrow> qwe_lc_event \<Rightarrow> qwe_lc_action list \<Rightarrow> qwe_lc_state \<Rightarrow> bool" where
  "lc_shape s e al n \<longleftrightarrow>
     (al = none4 \<and> n = s \<and> e \<notin> {QWE_LC_EV_GROUP_EMPTY, QWE_LC_EV_GRACE_EXPIRED}
        \<and> (qwe_lc_state_is_final s \<or> waiting_for_empty_group s))
   \<or> (al = none4 \<and> s = QWE_LC_PENDING \<and> e = QWE_LC_EV_NEEDS_MET \<and> n = QWE_LC_READY)
   \<or> (al = none4 \<and> waiting_for_empty_group s \<and> waiting_for_empty_group n
        \<and> grace_timer_running n = grace_timer_running s
        \<and> e \<in> {QWE_LC_EV_JOB_TIMEOUT, QWE_LC_EV_CANCEL} \<and> (n \<in> timeout_s \<longrightarrow> e = QWE_LC_EV_JOB_TIMEOUT))
   \<or> (al = none4 \<and> waiting_for_empty_group s \<and> e = QWE_LC_EV_GROUP_EMPTY \<and> n = QWE_LC_BETWEEN_STEPS)
   \<or> (al = [QWE_LC_ACT_RECORD_JOB, QWE_LC_ACT_END_JOB, QWE_LC_ACT_NONE, QWE_LC_ACT_NONE]
        \<and> qwe_lc_state_is_final n
        \<and> (s \<in> {QWE_LC_PENDING, QWE_LC_READY, QWE_LC_BETWEEN_STEPS} \<and> e \<noteq> QWE_LC_EV_GROUP_EMPTY
           \<or> waiting_for_empty_group s \<and> e = QWE_LC_EV_GROUP_EMPTY))
   \<or> (al = [QWE_LC_ACT_START_JOB, QWE_LC_ACT_NONE, QWE_LC_ACT_NONE, QWE_LC_ACT_NONE]
        \<and> s = QWE_LC_READY \<and> e = QWE_LC_EV_SLOT_GRANTED \<and> n = QWE_LC_BETWEEN_STEPS)
   \<or> (al = [QWE_LC_ACT_SPAWN_STEP, QWE_LC_ACT_NONE, QWE_LC_ACT_NONE, QWE_LC_ACT_NONE]
        \<and> s = QWE_LC_BETWEEN_STEPS \<and> e = QWE_LC_EV_NEXT_STEP \<and> n \<in> running_s)
   \<or> (al = [QWE_LC_ACT_SIGTERM_GROUP, QWE_LC_ACT_ARM_GRACE, QWE_LC_ACT_RECORD_STEP, QWE_LC_ACT_NONE]
        \<and> s \<in> running_s \<and> waiting_for_empty_group n \<and> grace_timer_running n
        \<and> e \<notin> {QWE_LC_EV_GROUP_EMPTY, QWE_LC_EV_GRACE_EXPIRED, QWE_LC_EV_START_FAILED} \<and> (n \<in> timeout_s \<longrightarrow> e = QWE_LC_EV_JOB_TIMEOUT))
   \<or> (al = [QWE_LC_ACT_SIGTERM_GROUP, QWE_LC_ACT_ARM_GRACE, QWE_LC_ACT_NONE, QWE_LC_ACT_NONE]
        \<and> s \<in> running_s \<and> e = QWE_LC_EV_STEP_TIMEOUT \<and> n \<in> {QWE_LC_STEP_STOPPING, QWE_LC_STEP_STOPPING_COE})
   \<or> (al = [QWE_LC_ACT_RECORD_STEP, QWE_LC_ACT_NONE, QWE_LC_ACT_NONE, QWE_LC_ACT_NONE]
        \<and> s \<in> stop_s \<and> waiting_for_empty_group n \<and> grace_timer_running n = grace_timer_running s
        \<and> e \<notin> {QWE_LC_EV_GROUP_EMPTY, QWE_LC_EV_GRACE_EXPIRED, QWE_LC_EV_START_FAILED} \<and> (n \<in> timeout_s \<longrightarrow> e = QWE_LC_EV_JOB_TIMEOUT))
   \<or> (al = [QWE_LC_ACT_SIGKILL_GROUP, QWE_LC_ACT_NONE, QWE_LC_ACT_NONE, QWE_LC_ACT_NONE]
        \<and> e = QWE_LC_EV_GRACE_EXPIRED \<and> step_in_flight s \<and> step_in_flight n
        \<and> waiting_for_empty_group n = waiting_for_empty_group s \<and> (n \<in> stop_s) = (s \<in> stop_s)
        \<and> (n \<in> timeout_s) = (s \<in> timeout_s))
   \<or> (al = [QWE_LC_ACT_RECORD_STEP, QWE_LC_ACT_RECORD_JOB, QWE_LC_ACT_END_JOB, QWE_LC_ACT_NONE]
        \<and> s \<in> running_s \<and> e = QWE_LC_EV_START_FAILED \<and> n = QWE_LC_FAILED)"

lemma lookup_shape:
  assumes "qwe_lc_lookup s e p = Inr r"
  shows "lc_shape s e (r_actions r) (r_next r)"
proof (rule lc_step_all [where P = "\<lambda>s e k rk al n. lc_shape s e al n", OF _ assms])
  fix s coe
  show "list_all2 (\<lambda>e c. c_kind c \<noteq> QWE_LC_IMPOSSIBLE \<longrightarrow> lc_shape s e (c_actions c) (lc_target s c coe))
    lc_events (lc_row s)"
    by (cases s; cases coe) (simp_all add: lc_eval lc_shape_def none4_def lcm_defs eval_nat_numeral)
qed

section \<open>What the functions leave alone\<close>

text \<open>The part of a job the invariant is about, apart from its resources, timers and results.\<close>

definition core :: "job \<Rightarrow> qwe_lc_state \<times> step_spec list \<times> bool \<times> bool \<times> bool \<times> nat \<times> int \<times> qwe_lc_event option \<times> cstring" where
  "core j = (jb_state j, jb_specs j, jr_leader_reaped j, jr_timeout_told j, jr_cancel_told j, jr_cur j,
     jr_live_step j, jr_followup j, jb_id j)"

definition rsrc :: "job \<Rightarrow> bool \<times> bool \<times> bool \<times> bool" where
  "rsrc j = (jr_ring_ok j, jr_sink_ok j, jr_timer_ok j, jr_proc_ok j)"

definition tmrs :: "job \<Rightarrow> qwe_timer \<times> qwe_timer \<times> qwe_timer" where
  "tmrs j = (jr_timer j, jr_step_timer j, jr_grace_timer j)"

definition nres :: "job \<Rightarrow> nat option" where
  "nres j = map_option length (jb_steps j)"

text \<open>Nothing the invariant reads has changed.\<close>

definition frame :: "job \<Rightarrow> job \<Rightarrow> bool" where
  "frame j j' \<longleftrightarrow> core j' = core j \<and> rsrc j' = rsrc j \<and> tmrs j' = tmrs j \<and> nres j' = nres j"

lemmas frame_defs = core_def rsrc_def tmrs_def nres_def

lemma frame_refl [simp, intro]: "frame j j"
  by (simp add: frame_def)

lemma frame_trans: "frame a b \<Longrightarrow> frame b c \<Longrightarrow> frame a c"
  by (simp add: frame_def)

lemma set_step_frame [simp]: "frame j (set_step i f j)"
  by (simp add: frame_def frame_defs set_step_def option.map_comp comp_def)

lemma run_drain_frame: "run_drain sy cx j = Inr (e, cx', j') \<Longrightarrow> frame j j'"
  by (auto simp: run_drain_def frame_def frame_defs split: prod.splits option.splits)

lemma run_drain_flush_frame: "run_drain_flush sy cx j = Inr (cx', j') \<Longrightarrow> frame j j'"
  by (auto simp: run_drain_flush_def frame_def frame_defs split: prod.splits option.splits)

lemma run_drain_Inl: "run_drain sy cx j = Inl a \<Longrightarrow> a = Out_of_memory"
  by (auto simp: run_drain_def split: prod.splits option.splits)

lemma run_drain_flush_Inl: "run_drain_flush sy cx j = Inl a \<Longrightarrow> a = Out_of_memory"
  by (auto simp: run_drain_flush_def split: prod.splits option.splits)

lemma result_loop_frame: "result_loop ok rs k j = (e, k', j') \<Longrightarrow> frame j j'"
proof (induction ok rs k j rule: result_loop.induct)
  case (4 ok d rs k j)
  have u: "frame j (j\<lparr>jr_res_overflow := b\<rparr>)" "frame j (j\<lparr>jr_res_buf := x, jr_res_cap := c\<rparr>)"
      "frame j (j\<lparr>jr_res_buf := x\<rparr>)" for b x c
    by (simp_all add: frame_def frame_defs)
  from 4 show ?case by (auto split: if_splits intro: frame_trans [OF u(1)] frame_trans [OF u(2)] frame_trans [OF u(3)])
qed auto

lemma drain_result_frame: "drain_result sy cx j = (e, cx', j') \<Longrightarrow> frame j j'"
  by (auto simp: drain_result_def split: prod.splits dest: result_loop_frame)

lemma store_outputs_frame: "store_outputs sy cx j = (cx', j') \<Longrightarrow> frame j j'"
  by (auto simp: store_outputs_def frame_def frame_defs split: prod.splits option.splits)

lemma collect_file_outputs_frame: "collect_file_outputs sy cx j = (cx', j') \<Longrightarrow> frame j j'"
  by (auto simp: collect_file_outputs_def split: prod.splits option.splits if_splits dest: store_outputs_frame)

lemma read_step_msg_frame: "read_step_msg sy cx j = (m, cx', j') \<Longrightarrow> frame j j'"
  by (auto simp: read_step_msg_def Let_def split: prod.splits option.splits if_splits dest: store_outputs_frame)

lemma frame_changed: "frame j (j\<lparr>jr_step_changed := b\<rparr>)"
  by (simp add: frame_def frame_defs)

lemma leader_exit_event_frame:
  assumes "leader_exit_event sy status cx j = ((ev, reason), cx', j')"
  shows "frame j j' \<and> ev \<in> {QWE_LC_EV_LEADER_EXIT_OK, QWE_LC_EV_LEADER_EXIT_FAIL} \<and> reason \<noteq> None"
proof -
  obtain e1 cx1 j1 where d: "drain_result sy cx (j\<lparr>jr_step_changed := True\<rparr>) = (e1, cx1, j1)"
    by (cases "drain_result sy cx (j\<lparr>jr_step_changed := True\<rparr>)")
  obtain m cx2 j2 where r: "read_step_msg sy cx1 j1 = (m, cx2, j2)" by (cases "read_step_msg sy cx1 j1")
  obtain cx3 j3 where c: "collect_file_outputs sy cx2 j2 = (cx3, j3)" by (cases "collect_file_outputs sy cx2 j2")
  have f2: "frame j j2"
    using frame_changed drain_result_frame [OF d] read_step_msg_frame [OF r] frame_trans by blast
  then have f3: "frame j j3" using collect_file_outputs_frame [OF c] frame_trans by blast
  have sm: "sm_status m = MSG_FAILED \<Longrightarrow> sm_reason m \<noteq> None"
    using r by (auto simp: read_step_msg_def Let_def split: prod.splits option.splits if_splits)
  show ?thesis
    using assms f2 f3 sm frame_trans [OF f2 frame_changed] frame_trans [OF f3 frame_changed]
    by (auto simp: leader_exit_event_def d r c Let_def split: if_splits prod.splits)
qed

text \<open>Releasing, starting, spawning, finishing: what changes of the parts above.\<close>

lemma job_release_frame:
  assumes "job_release sy cx j = Inr (cx', j')"
  shows "core j' = core j \<and> rsrc j' = (False, False, False, jr_proc_ok j) \<and> nres j' = nres j
    \<and> snd (tmrs j') = snd (tmrs j)"
  using assms
  by (auto simp: job_release_def Let_def frame_defs split: option.splits if_splits)

lemma job_release_Inl: "job_release sy cx j = Inl a \<Longrightarrow> a = Out_of_memory"
  by (auto simp: job_release_def Let_def split: option.splits if_splits)

lemma start_resources_frame:
  assumes "start_resources sy cx j = (op, cx', j')" and "\<not> jr_ring_ok j" "\<not> jr_sink_ok j" "\<not> jr_timer_ok j"
  shows "core j' = core j \<and> nres j' = nres j \<and> jr_proc_ok j' = jr_proc_ok j \<and> jb_steps j' = jb_steps j
    \<and> (op = None \<longrightarrow> rsrc j' = (True, True, True, jr_proc_ok j))"
  using assms
  by (auto simp: start_resources_def start_ring_def start_sink_def start_timer_def qwe_timer_open_def frame_defs
      split: prod.splits option.splits if_splits)

lemma job_start_frame:
  assumes "job_start sy cx j = Inr (cx', j')" and "\<not> jr_ring_ok j" "\<not> jr_sink_ok j" "\<not> jr_timer_ok j"
    and "jr_followup j = None"
  shows "(core j' = core j \<and> rsrc j' = (True, True, True, jr_proc_ok j) \<and> nres j' = Some (jb_nsteps j))
    \<or> (core j' = core (j\<lparr>jr_followup := Some QWE_LC_EV_START_FAILED\<rparr>)
       \<and> rsrc j' = (False, False, False, jr_proc_ok j) \<and> nres j' = nres j)"
proof -
  obtain op cx1 j1 where r: "start_resources sy cx j = (op, cx1, j1)" by (cases "start_resources sy cx j")
  note f = start_resources_frame [OF r assms(2-4)]
  show ?thesis
  proof (cases op)
    case None
    obtain t cx2 where t: "now_s sy cx1 = (t, cx2)" by (cases "now_s sy cx1")
    obtain ns cx3 where ns: "mono_now_ns sy cx2 = (ns, cx3)" by (cases "mono_now_ns sy cx2")
    let ?j2 = "j1\<lparr>jb_started := t, jb_mono_start_ns := ns,
       jb_steps := Some (replicate (jb_nsteps j1) (step_result_zero\<lparr>sr_duration_ms := -1\<rparr>))\<rparr>"
    have "j' = (if jb_timeout_ms ?j2 > 0 then ?j2\<lparr>jr_timer := qwe_timer_arm (jb_timeout_ms ?j2) (jr_timer ?j2)\<rparr> else ?j2)"
      using assms(1) unfolding job_start_def r None prod.case option.case t ns Let_def
      by (cases "xallocs (sy_alloc sy) 1 (cx_k cx3)") (simp_all only: option.case sum.inject prod.inject sum.distinct)
    then show ?thesis using f None by (simp add: frame_defs)
  next
    case (Some o1)
    with assms(1) r obtain cx2 j2 where rel: "job_release sy cx1 j1 = Inr (cx2, j2)"
      and j': "j' = owe_start_failed o1 (sy_errno sy (cx_w cx1)) j2"
      by (auto simp: job_start_def split: sum.splits)
    from job_release_frame [OF rel] f j' show ?thesis
      by (simp add: owe_start_failed_def frame_defs)
  qed
qed

lemma job_start_Inl: "job_start sy cx j = Inl a \<Longrightarrow> a = Out_of_memory"
  by (auto simp: job_start_def Let_def split: prod.splits option.splits sum.splits dest: job_release_Inl)

lemma resolve_step_frame: "resolve_step sy cx j = (ms, cx', j') \<Longrightarrow> frame j j'"
  by (auto simp: resolve_step_def Let_def frame_def frame_defs split: prod.splits option.splits)

lemma spawn_prepare_frame:
  assumes "spawn_prepare sy cx j = (ms, cx', j')"
  shows "core j' = core (j\<lparr>jr_live_step := int (jr_cur j), jr_leader_reaped := False\<rparr>)
    \<and> rsrc j' = rsrc j \<and> tmrs j' = tmrs j \<and> nres j' = nres j"
proof -
  obtain b cx1 where a: "ask sy Q_ASPRINTF cx = (b, cx1)" by (cases "ask sy Q_ASPRINTF cx")
  define j2 where "j2 = (set_step (jr_cur j) (name_step j (jr_cur j)) j)\<lparr>jr_step_json := None,
     jr_out_path := (if b then Some (cx_run_dir_abs cx @ ''/'' @ jb_id j @ ''.'' @ nat_dec (jr_cur j) @ ''.output'') else None)\<rparr>"
  obtain ms2 cx2 j3 where r: "resolve_step sy cx1 j2 = (ms2, cx2, j3)" by (cases "resolve_step sy cx1 j2")
  have f2: "frame j j2" by (simp add: j2_def frame_def frame_defs set_step_def option.map_comp comp_def)
  have f3: "frame j j3" using frame_trans [OF f2 resolve_step_frame [OF r]] .
  obtain t cx3 where t: "now_s sy cx2 = (t, cx3)" by (cases "now_s sy cx2")
  obtain ns cx4 where ns: "mono_now_ns sy cx3 = (ns, cx4)" by (cases "mono_now_ns sy cx3")
  have "j' = spawn_reset ((set_step (jr_cur j) (\<lambda>r. r\<lparr>sr_started := t\<rparr>) j3)\<lparr>jr_step_mono_start_ns := ns\<rparr>)"
    using assms unfolding spawn_prepare_def Let_def a prod.case j2_def [symmetric] r t ns by blast
  with f3 show ?thesis
    by (simp add: spawn_reset_def frame_def frame_defs set_step_def option.map_comp comp_def)
qed

lemma spawn_resources_frame:
  assumes "spawn_resources sy cx j = (op, cx', j')"
  shows "core j' = core j \<and> rsrc j' = rsrc j \<and> nres j' = nres j \<and> jr_timer j' = jr_timer j
    \<and> (op = None \<longrightarrow> \<not> tm_fired (jr_step_timer j') \<and> tm_armed (jr_grace_timer j') = None)"
  using assms
  by (auto simp: spawn_resources_def Let_def qwe_timer_open_def frame_defs split: prod.splits if_splits)

lemma step_spawn_Inr:
  assumes "step_spawn sy cx j = Inr (cx', j')"
  obtains k k1 ms cx1 j1 where "spawn_prepare sy (cx\<lparr>cx_k := k\<rparr>) j = (ms, cx1, j1)" "spawn_go sy ms (cx1\<lparr>cx_k := k1\<rparr>) j1 = (cx', j')"
  using assms by (auto simp: step_spawn_def split: option.splits prod.splits)

lemma step_spawn_Inl: "step_spawn sy cx j = Inl a \<Longrightarrow> a = Out_of_memory"
  by (auto simp: step_spawn_def split: option.splits prod.splits)

lemma step_spawn_frame:
  assumes "step_spawn sy cx j = Inr (cx', j')" and "jr_followup j = None"
  shows "rsrc j' = (jr_ring_ok j, jr_sink_ok j, jr_timer_ok j, jr_proc_ok j') \<and> nres j' = nres j
    \<and> ((core j' = core (j\<lparr>jr_live_step := int (jr_cur j), jr_leader_reaped := False\<rparr>)
          \<and> jr_proc_ok j' \<and> \<not> tm_fired (jr_step_timer j') \<and> tm_armed (jr_grace_timer j') = None)
       \<or> (core j' = core (j\<lparr>jr_live_step := int (jr_cur j), jr_leader_reaped := False,
                             jr_followup := Some QWE_LC_EV_START_FAILED\<rparr>)
          \<and> jr_proc_ok j' = jr_proc_ok j))"
proof -
  obtain k k1 ms cx0 j1 where p: "spawn_prepare sy (cx\<lparr>cx_k := k\<rparr>) j = (ms, cx0, j1)"
    and g0: "spawn_go sy ms (cx0\<lparr>cx_k := k1\<rparr>) j1 = (cx', j')" using step_spawn_Inr [OF assms(1)] .
  define cx1 where "cx1 = cx0\<lparr>cx_k := k1\<rparr>"
  note go = g0 [folded cx1_def]
  obtain op1 cx2 where e: "spawn_ensure sy (if ms < 0 then Some ''template'' else None) cx1 j1 = (op1, cx2)"
    by (cases "spawn_ensure sy (if ms < 0 then Some ''template'' else None) cx1 j1")
  obtain gone cx3 where g: "(if op1 = None \<and> jr_step_target j1 \<noteq> None then remote_unreachable sy cx2 j1
      else (False, cx2)) = (gone, cx3)"
    by (cases "if op1 = None \<and> jr_step_target j1 \<noteq> None then remote_unreachable sy cx2 j1 else (False, cx2)")
  let ?j2 = "j1\<lparr>jr_step_unreachable := gone\<rparr>"
  obtain op cx4 j3 where s: "(if op1 \<noteq> None then (op1, cx3, ?j2) else spawn_resources sy cx3 ?j2) = (op, cx4, j3)"
    by (cases "if op1 \<noteq> None then (op1, cx3, ?j2) else spawn_resources sy cx3 ?j2") simp
  note fp = spawn_prepare_frame [OF p]
  have f3: "core j3 = core ?j2 \<and> rsrc j3 = rsrc ?j2 \<and> nres j3 = nres ?j2
      \<and> (op = None \<longrightarrow> \<not> tm_fired (jr_step_timer j3) \<and> tm_armed (jr_grace_timer j3) = None)"
    using s spawn_resources_frame [of sy cx3 ?j2 op cx4 j3] by (auto split: if_splits)
  show ?thesis
  proof (cases op)
    case None
    have "j' = (if ms > 0 then j3\<lparr>jr_step_timer := qwe_timer_arm ms (jr_step_timer j3)\<rparr> else j3)\<lparr>jr_proc_ok := True\<rparr>"
      using go unfolding spawn_go_def prod.case e g Let_def s None option.case by blast
    with f3 fp None show ?thesis
      by (simp add: frame_defs qwe_timer_arm_def)
  next
    case (Some o1)
    then obtain er where "j' = owe_start_failed o1 er j3"
      using go unfolding spawn_go_def prod.case e g Let_def s Some option.case by blast
    with f3 fp Some assms(2) show ?thesis
      by (simp add: frame_defs owe_start_failed_def)
  qed
qed

lemma step_finish_idle: "jr_live_step j < 0 \<Longrightarrow> step_finish sy cx j = Inr (cx, j)"
  by (simp add: step_finish_def)

lemma step_finish_frame:
  assumes "step_finish sy cx j = Inr (cx', j')" and "0 \<le> jr_live_step j"
  shows "core j' = core (j\<lparr>jr_cur := Suc (jr_cur j), jr_live_step := -1\<rparr>)
    \<and> rsrc j' = (jr_ring_ok j, jr_sink_ok j, jr_timer_ok j, False) \<and> nres j' = nres j"
proof -
  let ?i = "nat (jr_live_step j)"
  obtain cx1 j1 where d: "(if sr_duration_ms (the (jb_steps j) ! ?i) < 0
      then (case mono_now_ns sy cx of (ns, cx') \<Rightarrow>
             (cx', set_step ?i (\<lambda>r. r\<lparr>sr_duration_ms := mono_diff_ms (jr_step_mono_start_ns j) ns\<rparr>) j))
      else (cx, j)) = (cx1, j1)"
    by (cases "if sr_duration_ms (the (jb_steps j) ! ?i) < 0
      then (case mono_now_ns sy cx of (ns, cx') \<Rightarrow>
             (cx', set_step ?i (\<lambda>r. r\<lparr>sr_duration_ms := mono_diff_ms (jr_step_mono_start_ns j) ns\<rparr>) j))
      else (cx, j)")
  then have f1: "frame j j1" by (auto split: if_splits prod.splits)
  have live: "\<not> jr_live_step j < 0" using assms(2) by simp
  show ?thesis
  proof (cases "jr_proc_ok j1")
    case False
    have "j' = j1\<lparr>jr_step_target := None, jr_step_token := None, jr_cur := Suc (jr_cur j1), jr_live_step := -1\<rparr>"
      using assms(1) live False unfolding step_finish_def Let_def d prod.case by simp
    with f1 False show ?thesis by (simp add: frame_def frame_defs)
  next
    case True
    then obtain e cx2 j2 where rd: "run_drain sy cx1 j1 = Inr (e, cx2, j2)"
      using assms(1) live unfolding step_finish_def Let_def d prod.case by (cases "run_drain sy cx1 j1") auto
    then obtain cx3 j3 where rf: "run_drain_flush sy cx2 j2 = Inr (cx3, j3)"
      using assms(1) live True unfolding step_finish_def Let_def d prod.case by (cases "run_drain_flush sy cx2 j2") auto
    have "j' = j3\<lparr>jr_step_timer := qwe_timer_close (jr_step_timer j3), jr_grace_timer := qwe_timer_close (jr_grace_timer j3),
        jr_proc_ok := False, jr_step_target := None, jr_step_token := None, jr_cur := Suc (jr_cur j3), jr_live_step := -1\<rparr>"
      using assms(1) live True rd rf unfolding step_finish_def Let_def d prod.case by simp
    moreover have "frame j j3"
      using f1 run_drain_frame [OF rd] run_drain_flush_frame [OF rf] frame_trans by blast
    ultimately show ?thesis by (simp add: frame_def frame_defs)
  qed
qed

lemma step_finish_Inl: "step_finish sy cx j = Inl a \<Longrightarrow> a = Out_of_memory"
  by (auto simp: step_finish_def Let_def split: if_splits prod.splits sum.splits
      dest: run_drain_Inl run_drain_flush_Inl)

lemma job_end_frame:
  assumes "job_end sy cx j = Inr (cx', j')" and "jr_live_step j = -1"
  shows "core j' = core j \<and> rsrc j' = (False, False, False, jr_proc_ok j) \<and> nres j' = nres j"
proof -
  have sf: "step_finish sy cx j = Inr (cx, j)" using assms(2) by (simp add: step_finish_def)
  show ?thesis
  proof (cases "jb_steps j")
    case None
    with assms(1) sf have "job_release sy cx j = Inr (cx', j')" by (simp add: job_end_def)
    from job_release_frame [OF this] show ?thesis by simp
  next
    case (Some ss)
    obtain t cx2 where t: "now_s sy cx = (t, cx2)" by (cases "now_s sy cx")
    obtain ns cx3 where ns: "mono_now_ns sy cx2 = (ns, cx3)" by (cases "mono_now_ns sy cx2")
    obtain k where "job_release sy (cx3\<lparr>cx_k := k\<rparr>) (j\<lparr>jb_ended := t, jb_duration_ms := mono_diff_ms (jb_mono_start_ns j) ns,
        jb_steps := Some (skip_rest j ss)\<rparr>) = Inr (cx', j')"
      using assms(1) unfolding job_end_def sf sum.case prod.case Some option.case t ns by (auto split: option.splits)
    from job_release_frame [OF this] Some show ?thesis by (simp add: frame_defs skip_rest_def)
  qed
qed

lemma job_end_live:
  assumes "job_end sy cx j = Inr (cx', j')" and "0 \<le> jr_live_step j"
  shows "\<exists>cx1 j1. step_finish sy cx j = Inr (cx1, j1) \<and> job_end sy cx1 j1 = Inr (cx', j')"
proof -
  from assms(1) obtain cx1 j1 where f: "step_finish sy cx j = Inr (cx1, j1)"
    by (auto simp: job_end_def split: sum.splits)
  then have "jr_live_step j1 = -1" using step_finish_frame [OF f assms(2)] by (simp add: frame_defs)
  then have "step_finish sy cx1 j1 = Inr (cx1, j1)" by (simp add: step_finish_def)
  with assms(1) f show ?thesis by (simp add: job_end_def)
qed

lemma job_end_Inl: "job_end sy cx j = Inl a \<Longrightarrow> a = Out_of_memory"
  by (auto simp: job_end_def split: sum.splits option.splits prod.splits dest: step_finish_Inl job_release_Inl)

lemma record_step_frame: "record_step sy res cx j = (cx', j') \<Longrightarrow> frame j j'"
  by (auto simp: record_step_def frame_def frame_defs set_step_def option.map_comp comp_def split: prod.splits)

lemma apply_action_Inl: "apply_action sy res a cx j = Inl ab \<Longrightarrow> ab = Out_of_memory"
  by (cases a) (auto simp: apply_action_def Let_def dest: job_start_Inl job_end_Inl step_spawn_Inl)

lemma apply_actions_Inl: "apply_actions sy res al cx j = Inl ab \<Longrightarrow> ab = Out_of_memory"
  by (induction sy res al cx j rule: apply_actions.induct) (auto split: sum.splits dest: apply_action_Inl)

lemma apply_action_simps [simp]:
  "apply_action sy res QWE_LC_ACT_NONE cx j = Inr (cx, j)"
  "apply_action sy res QWE_LC_ACT_START_JOB cx j = job_start sy cx j"
  "apply_action sy res QWE_LC_ACT_SPAWN_STEP cx j = step_spawn sy cx j"
  "apply_action sy res QWE_LC_ACT_RECORD_STEP cx j = Inr (record_step sy res cx j)"
  "apply_action sy res QWE_LC_ACT_END_JOB cx j = job_end sy cx j"
  "apply_action sy res QWE_LC_ACT_ARM_GRACE cx j =
     Inr (cx, j\<lparr>jr_grace_timer := qwe_timer_arm (cx_grace_ms cx) (jr_grace_timer j)\<rparr>)"
  by (simp_all add: apply_action_def)

lemma apply_action_signal:
  "\<exists>cx'. apply_action sy res QWE_LC_ACT_SIGTERM_GROUP cx j = Inr (cx', j)"
  "\<exists>cx'. apply_action sy res QWE_LC_ACT_SIGKILL_GROUP cx j = Inr (cx', j)"
  by (simp_all add: apply_action_def Let_def)

section \<open>The invariant\<close>

definition waiting :: "job \<Rightarrow> bool" where
  "waiting j \<longleftrightarrow> jr_live_step j = -1 \<and> jr_cur j = 0 \<and> nres j = None
     \<and> rsrc j = (False, False, False, False) \<and> \<not> jr_timeout_told j"

text \<open>A step is in flight; \<open>told\<close>: its leader's exit is just being delivered.\<close>

definition flight :: "bool \<Rightarrow> job \<Rightarrow> bool" where
  "flight told j \<longleftrightarrow> jr_live_step j = int (jr_cur j) \<and> jr_cur j < jb_nsteps j \<and> nres j = Some (jb_nsteps j)
     \<and> rsrc j = (True, True, True, True)
     \<and> (jr_leader_reaped j \<longrightarrow> told \<or> waiting_for_empty_group (jb_state j))
     \<and> (jb_state j \<in> stop_s \<longrightarrow> tm_fired (jr_step_timer j))
     \<and> (tm_armed (jr_grace_timer j) \<noteq> None \<and> \<not> tm_fired (jr_grace_timer j) \<longrightarrow> grace_timer_running (jb_state j))
     \<and> (jb_state j \<in> timeout_s \<longrightarrow> jr_timeout_told j)"

definition between :: "job \<Rightarrow> bool" where
  "between j \<longleftrightarrow> jr_live_step j = -1 \<and> jr_cur j \<le> jb_nsteps j \<and> nres j = Some (jb_nsteps j)
     \<and> rsrc j = (True, True, True, False)"

definition ended :: "job \<Rightarrow> bool" where
  "ended j \<longleftrightarrow> jr_live_step j = -1 \<and> rsrc j = (False, False, False, False)
     \<and> (nres j \<noteq> None \<longrightarrow> nres j = Some (jb_nsteps j))"

definition job_ok :: "bool \<Rightarrow> job \<Rightarrow> bool" where
  "job_ok told j \<longleftrightarrow> jr_followup j = None
     \<and> (jb_state j \<in> {QWE_LC_PENDING, QWE_LC_READY} \<longrightarrow> waiting j)
     \<and> (step_in_flight (jb_state j) \<longrightarrow> flight told j)
     \<and> (jb_state j = QWE_LC_BETWEEN_STEPS \<longrightarrow> between j)
     \<and> (qwe_lc_state_is_final (jb_state j) \<longrightarrow> ended j)"

text \<open>A start that failed, with the event it owes.\<close>

definition start_failing :: "job \<Rightarrow> bool" where
  "start_failing j \<longleftrightarrow>
     (jb_state j = QWE_LC_BETWEEN_STEPS \<and> jr_live_step j = -1 \<and> nres j = None \<and> rsrc j = (False, False, False, False))
   \<or> (jb_state j \<in> running_s \<and> jr_live_step j = int (jr_cur j) \<and> nres j = Some (jb_nsteps j)
      \<and> rsrc j = (True, True, True, False))"

definition job_mid :: "job \<Rightarrow> bool" where
  "job_mid j \<longleftrightarrow> job_ok False j \<or> (jr_followup j = Some QWE_LC_EV_START_FAILED \<and> start_failing j)"

lemma flight_states:
  "step_in_flight s \<longleftrightarrow> s \<in> running_s \<or> s \<in> stop_s \<or> waiting_for_empty_group s"
  "\<not> step_in_flight QWE_LC_BETWEEN_STEPS" "\<not> step_in_flight QWE_LC_PENDING" "\<not> step_in_flight QWE_LC_READY"
  "qwe_lc_state_is_final s \<Longrightarrow> \<not> step_in_flight s \<and> s \<notin> {QWE_LC_BETWEEN_STEPS, QWE_LC_PENDING, QWE_LC_READY}"
  "waiting_for_empty_group s \<Longrightarrow> s \<notin> running_s \<and> s \<notin> stop_s \<and> \<not> qwe_lc_state_is_final s"
  by (cases s; simp add: lcm_defs lc_order lc_pred_defs)+

section \<open>One dispatch\<close>

text \<open>The end of a dispatch: the step is finished when its group is empty, then the actions run.\<close>

definition act_on ::
    "'w sys \<Rightarrow> qwe_lc_event \<Rightarrow> qwe_lc_result \<Rightarrow> 'w run_ctx \<Rightarrow> job \<Rightarrow> engine_abort + 'w run_ctx \<times> job" where
  "act_on sy ev res cx j =
     (case (if ev = QWE_LC_EV_GROUP_EMPTY then step_finish sy cx j else Inr (cx, j)) of
        Inl a \<Rightarrow> Inl a
      | Inr (cx3, j3) \<Rightarrow> apply_actions sy res (r_actions res) cx3 j3)"

lemma dispatch_one_eq:
  assumes "\<not> qwe_lc_event_is_stale (jb_state j) ev es (jr_live_step j)"
    and "ev \<in> qwe_lcm_events (jb_state j)"
  obtains res cx2 j2 where "dispatch_one sy ev pl es cx j = act_on sy ev res cx2 j2"
    and "qwe_lc_lookup (jb_state j) ev (pl\<lparr>pl_carried := jr_last_reason j\<rparr>) = Inr res"
    and "core j2 = (r_next res, jb_specs j, jr_leader_reaped j, jr_timeout_told j \<or> ev = QWE_LC_EV_JOB_TIMEOUT,
          jr_cancel_told j \<or> ev = QWE_LC_EV_CANCEL, jr_cur j, jr_live_step j, jr_followup j, jb_id j)"
    and "rsrc j2 = rsrc j" and "tmrs j2 = tmrs j" and "nres j2 = nres j" and "jb_steps j2 = jb_steps j"
proof -
  have lr: "jr_last_reason (note_told ev j) = jr_last_reason j" by (simp add: note_told_def Let_def)
  obtain res where r: "qwe_lc_lookup (jb_state j) ev (pl\<lparr>pl_carried := jr_last_reason j\<rparr>) = Inr res"
    using qwe_lc_lookup_Inr_iff assms(2) by blast
  define j2 where "j2 = (note_told ev j)\<lparr>jb_state := r_next res,
    jr_last_reason := (if r_reason res \<noteq> None then r_reason res else jr_last_reason (note_told ev j))\<rparr>"
  have "\<exists>cx2. dispatch_one sy ev pl es cx j = act_on sy ev res cx2 j2"
    unfolding dispatch_one_def act_on_def Let_def if_not_P [OF assms(1)] lr r sum.case j2_def [unfolded lr, symmetric]
    by (rule exI) (rule refl)
  then obtain cx2 where d: "dispatch_one sy ev pl es cx j = act_on sy ev res cx2 j2" ..
  show thesis
    by (rule that [OF d r]) (auto simp: j2_def note_told_def Let_def frame_defs)
qed

lemma dispatch_one_stale:
  "qwe_lc_event_is_stale (jb_state j) ev es (jr_live_step j) \<Longrightarrow> \<exists>cx'. dispatch_one sy ev pl es cx j = Inr (cx', j)"
  by (simp add: dispatch_one_def Let_def)

abbreviation all_held :: "bool \<times> bool \<times> bool \<times> bool" where
  "all_held \<equiv> (True, True, True, True)"

lemma act_end:
  assumes "act_on sy ev res cx j = Inr (cx', j')"
    and "r_actions res = [QWE_LC_ACT_RECORD_JOB, QWE_LC_ACT_END_JOB, QWE_LC_ACT_NONE, QWE_LC_ACT_NONE]"
    and "qwe_lc_state_is_final (jb_state j)" and "jr_followup j = None"
    and "nres j \<noteq> None \<longrightarrow> nres j = Some (jb_nsteps j)"
    and "(ev \<noteq> QWE_LC_EV_GROUP_EMPTY \<and> jr_live_step j = -1 \<and> \<not> jr_proc_ok j)
      \<or> (ev = QWE_LC_EV_GROUP_EMPTY \<and> 0 \<le> jr_live_step j)"
  shows "job_ok False j' \<and> jb_state j' = jb_state j"
proof -
  obtain cx3 j3 where f: "(if ev = QWE_LC_EV_GROUP_EMPTY then step_finish sy cx j else Inr (cx, j)) = Inr (cx3, j3)"
    using assms(1) by (auto simp: act_on_def split: sum.splits)
  have j3: "jr_live_step j3 = -1 \<and> \<not> jr_proc_ok j3 \<and> jb_state j3 = jb_state j \<and> jr_followup j3 = None
      \<and> jb_specs j3 = jb_specs j \<and> nres j3 = nres j"
    using f assms(4,6) step_finish_frame [of sy cx j cx3 j3] by (auto simp: frame_defs split: if_splits)
  have "job_end sy cx3 (j3\<lparr>jb_reason := r_reason res\<rparr>) = Inr (cx', j')"
    using assms(1,2) f by (simp add: act_on_def apply_action_def split: sum.splits prod.splits)
  from job_end_frame [OF this] j3 assms(3,5) show ?thesis
    using flight_states(5) [OF assms(3)] by (auto simp: job_ok_def ended_def frame_defs)
qed

lemma act_start_failed:
  assumes "act_on sy QWE_LC_EV_START_FAILED res cx j = Inr (cx', j')"
    and "r_actions res = [QWE_LC_ACT_RECORD_STEP, QWE_LC_ACT_RECORD_JOB, QWE_LC_ACT_END_JOB, QWE_LC_ACT_NONE]"
    and "jb_state j = QWE_LC_FAILED" and "jr_followup j = None" and "nres j = Some (jb_nsteps j)"
    and "0 \<le> jr_live_step j"
  shows "job_ok False j' \<and> jb_state j' = QWE_LC_FAILED"
proof -
  obtain cx1 j1 where r: "record_step sy res cx j = (cx1, j1)" by (cases "record_step sy res cx j")
  have f1: "frame j j1" using record_step_frame [OF r] .
  have "job_end sy cx1 (j1\<lparr>jb_reason := r_reason res\<rparr>) = Inr (cx', j')"
    using assms(1,2) r by (simp add: act_on_def apply_action_def split: sum.splits prod.splits)
  moreover have l: "0 \<le> jr_live_step (j1\<lparr>jb_reason := r_reason res\<rparr>)"
    using f1 assms(6) by (simp add: frame_def frame_defs)
  ultimately obtain cx2 j2 where s: "step_finish sy cx1 (j1\<lparr>jb_reason := r_reason res\<rparr>) = Inr (cx2, j2)"
    and e: "job_end sy cx2 j2 = Inr (cx', j')" using job_end_live by blast
  note f2 = step_finish_frame [OF s l]
  have "jr_live_step j2 = -1" using f2 by (simp add: frame_defs)
  from job_end_frame [OF e this] f1 f2 assms(3-5) show ?thesis
    by (auto simp: job_ok_def ended_def frame_def frame_defs lcm_defs lc_order)
qed

lemma job_okI:
  "step_in_flight (jb_state j) \<Longrightarrow> jr_followup j = None \<Longrightarrow> flight told j \<Longrightarrow> job_ok told j"
  "jb_state j = QWE_LC_BETWEEN_STEPS \<Longrightarrow> jr_followup j = None \<Longrightarrow> between j \<Longrightarrow> job_ok told j"
  "qwe_lc_state_is_final (jb_state j) \<Longrightarrow> jr_followup j = None \<Longrightarrow> ended j \<Longrightarrow> job_ok told j"
  "jb_state j \<in> {QWE_LC_PENDING, QWE_LC_READY} \<Longrightarrow> jr_followup j = None \<Longrightarrow> waiting j \<Longrightarrow> job_ok told j"
  using flight_states(5) [of "jb_state j"]
  by (auto simp: job_ok_def flight_states(2-4) lc_pred_defs lc_order)

text \<open>Each shape keeps the invariant.\<close>

lemma act_on_mid:
  assumes a: "act_on sy ev res cx2 j2 = Inr (cx', j')"
    and ok: "job_ok told j"
    and r: "qwe_lc_lookup (jb_state j) ev pl = Inr res"
    and c2: "core j2 = (r_next res, jb_specs j, jr_leader_reaped j, jr_timeout_told j \<or> ev = QWE_LC_EV_JOB_TIMEOUT,
          jr_cancel_told j \<or> ev = QWE_LC_EV_CANCEL, jr_cur j, jr_live_step j, jr_followup j, jb_id j)"
    and same: "rsrc j2 = rsrc j" "tmrs j2 = tmrs j" "nres j2 = nres j"
    and told: "told \<Longrightarrow> ev \<in> {QWE_LC_EV_LEADER_EXIT_OK, QWE_LC_EV_LEADER_EXIT_FAIL}"
    and st: "ev = QWE_LC_EV_STEP_TIMEOUT \<Longrightarrow> tm_fired (jr_step_timer j)"
    and gr: "ev = QWE_LC_EV_GRACE_EXPIRED \<Longrightarrow> tm_fired (jr_grace_timer j)"
    and nx: "ev = QWE_LC_EV_NEXT_STEP \<Longrightarrow> jr_cur j < jb_nsteps j"
    and sf: "ev \<noteq> QWE_LC_EV_START_FAILED"
  shows "job_mid j' \<and> jb_state j' = r_next res"
proof -
  let ?s = "jb_state j" and ?n = "r_next res"
  have p2: "jb_state j2 = ?n" "jb_specs j2 = jb_specs j" "jr_leader_reaped j2 = jr_leader_reaped j"
      "jr_timeout_told j2 = (jr_timeout_told j \<or> ev = QWE_LC_EV_JOB_TIMEOUT)" "jr_cur j2 = jr_cur j"
      "jr_live_step j2 = jr_live_step j" "jr_followup j2 = None"
      "jr_step_timer j2 = jr_step_timer j" "jr_grace_timer j2 = jr_grace_timer j"
    using c2 same(2) ok by (simp_all add: frame_defs job_ok_def)
  have wt: "waiting j" if "?s \<in> {QWE_LC_PENDING, QWE_LC_READY}" using ok that by (auto simp: job_ok_def)
  have fl: "flight told j" if "step_in_flight ?s" using ok that by (simp add: job_ok_def)
  have bt: "between j" if "?s = QWE_LC_BETWEEN_STEPS" using ok that by (simp add: job_ok_def)
  have en: "ended j" if "qwe_lc_state_is_final ?s" using ok that by (simp add: job_ok_def)
  have j2: "j' = j2" if "r_actions res = none4" "ev \<noteq> QWE_LC_EV_GROUP_EMPTY"
    using a that by (simp add: act_on_def none4_def)
  have w_fl: "step_in_flight s" if "waiting_for_empty_group s" for s using that by (simp add: flight_states(1))
  from lookup_shape [OF r] show ?thesis unfolding lc_shape_def
  proof (elim disjE conjE, goal_cases)
    case 1
    then have "ended j2" using en p2 same by (simp add: ended_def)
    with 1 p2 show ?case by (simp add: job_mid_def job_okI j2)
  next
    case 2
    then have "flight False j2" using fl [OF w_fl] p2 same by (auto simp: flight_def)
    with 2 p2 show ?case by (simp add: job_mid_def job_okI w_fl j2)
  next
    case 3
    then have "waiting j2" using wt p2 same by (simp add: waiting_def)
    with 3 p2 show ?case by (simp add: job_mid_def job_okI j2)
  next
    case 4
    then have "flight False j2"
      using fl [OF w_fl] p2 same flight_states(6) [of ?n] by (auto simp: flight_def)
    with 4 p2 j2 show ?case by (auto simp: job_mid_def job_okI w_fl)
  next
    case 5
    note f = fl [OF w_fl [OF 5(2)]]
    have "step_finish sy cx2 j2 = Inr (cx', j')"
      using a 5 by (simp add: act_on_def none4_def split: sum.splits prod.splits)
    from step_finish_frame [OF this] f p2 same
    have "between j' \<and> jb_state j' = QWE_LC_BETWEEN_STEPS \<and> jr_followup j' = None"
      using 5 by (simp add: flight_def between_def frame_defs)
    then show ?case using 5 by (simp add: job_mid_def job_okI)
  next
    case 6
    have "(ended j \<or> between j \<or> waiting j) \<and> \<not> qwe_lc_state_is_final ?s"
      using 6 wt bt by (auto simp: lc_pred_defs lc_order)
    then have "job_ok False j' \<and> jb_state j' = jb_state j2"
      using 6 p2 same by (intro act_end [OF a]) (auto simp: between_def waiting_def ended_def frame_defs)
    then show ?case using p2 by (simp add: job_mid_def)
  next
    case 7
    note f = fl [OF w_fl [OF 7(3)]]
    have "job_ok False j' \<and> jb_state j' = jb_state j2"
      using 7 p2 same f by (intro act_end [OF a]) (auto simp: flight_def)
    then show ?case using p2 by (simp add: job_mid_def)
  next
    case 8
    have w: "waiting j" using 8 wt by simp
    have "job_start sy cx2 j2 = Inr (cx', j')"
      using a 8 by (simp add: act_on_def split: sum.splits prod.splits)
    from job_start_frame [OF this] w p2 same have
      "(core j' = core j2 \<and> rsrc j' = (True, True, True, False) \<and> nres j' = Some (jb_nsteps j2))
       \<or> (core j' = core (j2\<lparr>jr_followup := Some QWE_LC_EV_START_FAILED\<rparr>)
          \<and> rsrc j' = (False, False, False, False) \<and> nres j' = None)"
      by (simp add: waiting_def rsrc_def)
    then show ?case
    proof
      assume "core j' = core j2 \<and> rsrc j' = (True, True, True, False) \<and> nres j' = Some (jb_nsteps j2)"
      then have "between j' \<and> jb_state j' = QWE_LC_BETWEEN_STEPS \<and> jr_followup j' = None"
        using w p2 8 by (simp add: between_def waiting_def core_def)
      then show ?case using 8 by (simp add: job_mid_def job_okI)
    next
      assume "core j' = core (j2\<lparr>jr_followup := Some QWE_LC_EV_START_FAILED\<rparr>)
          \<and> rsrc j' = (False, False, False, False) \<and> nres j' = None"
      then have "start_failing j' \<and> jr_followup j' = Some QWE_LC_EV_START_FAILED \<and> jb_state j' = ?n"
        using w p2 8 by (simp add: start_failing_def waiting_def core_def)
      then show ?case by (simp add: job_mid_def)
    qed
  next
    case 9
    have b: "between j" using 9 bt by simp
    have "step_spawn sy cx2 j2 = Inr (cx', j')"
      using a 9 by (simp add: act_on_def split: sum.splits prod.splits)
    note sp = step_spawn_frame [OF this p2(7)]
    have n: "jb_state j2 \<in> running_s" using 9 p2 by simp
    then have nf: "step_in_flight (jb_state j2)" "jb_state j2 \<notin> stop_s" "jb_state j2 \<notin> timeout_s"
      by (auto simp: lcm_defs lc_order)
    from sp show ?case
    proof (elim conjE disjE)
      assume "core j' = core (j2\<lparr>jr_live_step := int (jr_cur j2), jr_leader_reaped := False\<rparr>)" "jr_proc_ok j'"
        "\<not> tm_fired (jr_step_timer j')" "tm_armed (jr_grace_timer j') = None"
        "rsrc j' = (jr_ring_ok j2, jr_sink_ok j2, jr_timer_ok j2, jr_proc_ok j')" "nres j' = nres j2"
      then have "flight False j' \<and> step_in_flight (jb_state j') \<and> jr_followup j' = None \<and> jb_state j' = ?n"
        using b p2 same nx 9 nf by (simp add: flight_def between_def core_def rsrc_def)
      then show ?case using job_okI(1) unfolding job_mid_def by blast
    next
      assume "core j' = core (j2\<lparr>jr_live_step := int (jr_cur j2), jr_leader_reaped := False,
           jr_followup := Some QWE_LC_EV_START_FAILED\<rparr>)" "jr_proc_ok j' = jr_proc_ok j2"
        "rsrc j' = (jr_ring_ok j2, jr_sink_ok j2, jr_timer_ok j2, jr_proc_ok j')" "nres j' = nres j2"
      then have "start_failing j' \<and> jr_followup j' = Some QWE_LC_EV_START_FAILED \<and> jb_state j' = ?n"
        using b p2 same n by (auto simp: start_failing_def between_def core_def rsrc_def)
      then show ?case by (simp add: job_mid_def)
    qed
  next
    case 10
    then have f: "flight told j" using fl by (auto simp: flight_states(1))
    obtain cx3 where k: "apply_action sy res QWE_LC_ACT_SIGTERM_GROUP cx2 j2 = Inr (cx3, j2)"
      using apply_action_signal(1) by blast
    let ?j3 = "j2\<lparr>jr_grace_timer := qwe_timer_arm (cx_grace_ms cx3) (jr_grace_timer j2)\<rparr>"
    have "record_step sy res cx3 ?j3 = (cx', j')"
      using a 10 k by (simp add: act_on_def split: prod.splits)
    then have "frame ?j3 j'" by (rule record_step_frame)
    then have "flight False j' \<and> jb_state j' = ?n \<and> jr_followup j' = None"
      using 10 f p2 same flight_states(6) [of ?n] by (auto simp: flight_def frame_def frame_defs)
    then show ?case using 10 by (simp add: job_mid_def job_okI w_fl)
  next
    case 11
    then have f: "flight told j" using fl by (auto simp: flight_states(1))
    have nt: "\<not> told" using told 11 by auto
    obtain cx3 where k: "apply_action sy res QWE_LC_ACT_SIGTERM_GROUP cx2 j2 = Inr (cx3, j2)"
      using apply_action_signal(1) by blast
    have "j' = j2\<lparr>jr_grace_timer := qwe_timer_arm (cx_grace_ms cx3) (jr_grace_timer j2)\<rparr>"
      using a 11 k by (auto simp: act_on_def)
    moreover have "\<not> jr_leader_reaped j"
      using f nt 11(2) flight_states(6) [of ?s] unfolding flight_def by blast
    moreover have "grace_timer_running ?n" "?n \<notin> timeout_s" "step_in_flight ?n"
      using 11 by (auto simp: lcm_defs lc_order)
    ultimately have "flight False j' \<and> jb_state j' = ?n \<and> jr_followup j' = None"
      using f p2 same st [OF 11(3)] by (simp add: flight_def frame_defs)
    then show ?case using \<open>step_in_flight ?n\<close> by (simp add: job_mid_def job_okI)
  next
    case 12
    then have f: "flight told j" using fl by (auto simp: flight_states(1))
    have "record_step sy res cx2 j2 = (cx', j')"
      using a 12 by (simp add: act_on_def split: prod.splits)
    then have "frame j2 j'" by (rule record_step_frame)
    then have "flight False j' \<and> jb_state j' = ?n \<and> jr_followup j' = None"
      using 12 f p2 same flight_states(6) [of ?n] by (auto simp: flight_def frame_def frame_defs)
    then show ?case using 12 by (simp add: job_mid_def job_okI w_fl)
  next
    case 13
    have f: "flight told j" using fl 13 by simp
    have nt: "\<not> told" using told 13 by auto
    obtain cx3 where k: "apply_action sy res QWE_LC_ACT_SIGKILL_GROUP cx2 j2 = Inr (cx3, j2)"
      using apply_action_signal(2) by blast
    have "j' = j2" using a 13 k by (simp add: act_on_def)
    then have "flight False j'"
      using f nt p2 same gr 13 by (auto simp: flight_def)
    then show ?case using 13 p2 \<open>j' = j2\<close> by (simp add: job_mid_def job_okI)
  next
    case 14
    with sf show ?case by simp
  qed
qed

section \<open>Sending\<close>

definition good :: "(engine_abort + 'w run_ctx \<times> job) \<Rightarrow> (job \<Rightarrow> bool) \<Rightarrow> bool" where
  "good r P \<longleftrightarrow> (case r of Inl a \<Rightarrow> a = Out_of_memory | Inr (cx, j) \<Rightarrow> P j)"

lemma act_on_Inl: "act_on sy ev res cx j = Inl a \<Longrightarrow> a = Out_of_memory"
  by (auto simp: act_on_def split: sum.splits if_splits dest: step_finish_Inl apply_actions_Inl)

text \<open>A dispatch of an event the job's state admits, or of a stale one, keeps the invariant.\<close>

lemma dispatch_good:
  assumes ok: "job_ok told j"
    and ev: "qwe_lc_event_is_stale (jb_state j) ev es (jr_live_step j) \<or> ev \<in> qwe_lcm_events (jb_state j)"
    and told: "told \<Longrightarrow> ev \<in> {QWE_LC_EV_LEADER_EXIT_OK, QWE_LC_EV_LEADER_EXIT_FAIL} \<and> es = jr_live_step j"
    and st: "ev = QWE_LC_EV_STEP_TIMEOUT \<Longrightarrow> es = jr_live_step j \<Longrightarrow> tm_fired (jr_step_timer j)"
    and gr: "ev = QWE_LC_EV_GRACE_EXPIRED \<Longrightarrow> es = jr_live_step j \<Longrightarrow> tm_fired (jr_grace_timer j)"
    and nx: "ev = QWE_LC_EV_NEXT_STEP \<Longrightarrow> jr_cur j < jb_nsteps j"
    and sf: "ev \<noteq> QWE_LC_EV_START_FAILED"
    and ev_between: "jb_state j = QWE_LC_BETWEEN_STEPS \<Longrightarrow> ev \<in> qwe_lcm_events (jb_state j)"
  shows "good (dispatch_one sy ev pl es cx j) (\<lambda>j'. job_mid j' \<and>
    (jb_state j = QWE_LC_BETWEEN_STEPS \<longrightarrow> qwe_lc_state_is_final (jb_state j') \<or> jb_state j' \<in> running_s))"
proof (cases "qwe_lc_event_is_stale (jb_state j) ev es (jr_live_step j)")
  case True
  moreover have "\<not> told" using True told by auto
  moreover have "jb_state j \<noteq> QWE_LC_BETWEEN_STEPS"
  proof
    assume b: "jb_state j = QWE_LC_BETWEEN_STEPS"
    with True ev_between show False by (cases ev) (auto simp: lc_pred_defs lc_order lcm_defs)
  qed
  ultimately show ?thesis
    using ok dispatch_one_stale [OF True, of sy pl cx] by (auto simp: good_def job_mid_def)
next
  case False
  with ev have e: "ev \<in> qwe_lcm_events (jb_state j)" by simp
  obtain res cx2 j2 where d: "dispatch_one sy ev pl es cx j = act_on sy ev res cx2 j2"
    and r: "qwe_lc_lookup (jb_state j) ev (pl\<lparr>pl_carried := jr_last_reason j\<rparr>) = Inr res"
    and c: "core j2 = (r_next res, jb_specs j, jr_leader_reaped j, jr_timeout_told j \<or> ev = QWE_LC_EV_JOB_TIMEOUT,
          jr_cancel_told j \<or> ev = QWE_LC_EV_CANCEL, jr_cur j, jr_live_step j, jr_followup j, jb_id j)"
    and s: "rsrc j2 = rsrc j" "tmrs j2 = tmrs j" "nres j2 = nres j"
    using dispatch_one_eq [OF False e, of sy pl cx] by blast
  show ?thesis
  proof (cases "act_on sy ev res cx2 j2")
    case (Inl b)
    with d act_on_Inl show ?thesis by (fastforce simp: good_def)
  next
    case (Inr x)
    then obtain cx' j' where a: "act_on sy ev res cx2 j2 = Inr (cx', j')" by (cases x) auto
    have es: "ev \<in> {QWE_LC_EV_STEP_TIMEOUT, QWE_LC_EV_GRACE_EXPIRED} \<Longrightarrow> es = jr_live_step j"
      using False by auto
    have m: "job_mid j' \<and> jb_state j' = r_next res"
      using told st gr nx es by (intro act_on_mid [OF a ok r c s _ _ _ _ sf]) auto
    moreover have "qwe_lc_state_is_final (r_next res) \<or> r_next res \<in> running_s" if "jb_state j = QWE_LC_BETWEEN_STEPS"
      using lookup_shape [OF r] that by (auto simp: lc_shape_def lcm_defs lc_order lc_pred_defs)
    ultimately show ?thesis using a d by (simp add: good_def)
  qed
qed

text \<open>The owed start-failed ends the job.\<close>

lemma dispatch_start_failed:
  assumes "start_failing j" and "jr_followup j = None"
  shows "good (dispatch_one sy QWE_LC_EV_START_FAILED pl (-1) cx j)
    (\<lambda>j'. job_ok False j' \<and> qwe_lc_state_is_final (jb_state j'))"
proof -
  have ns: "\<not> qwe_lc_event_is_stale (jb_state j) QWE_LC_EV_START_FAILED (-1) (jr_live_step j)" by simp
  have e: "QWE_LC_EV_START_FAILED \<in> qwe_lcm_events (jb_state j)"
    using assms(1) by (auto simp: start_failing_def lcm_defs lc_order)
  obtain res cx2 j2 where d: "dispatch_one sy QWE_LC_EV_START_FAILED pl (-1) cx j = act_on sy QWE_LC_EV_START_FAILED res cx2 j2"
    and r: "qwe_lc_lookup (jb_state j) QWE_LC_EV_START_FAILED (pl\<lparr>pl_carried := jr_last_reason j\<rparr>) = Inr res"
    and c: "core j2 = (r_next res, jb_specs j, jr_leader_reaped j, jr_timeout_told j \<or> QWE_LC_EV_START_FAILED = QWE_LC_EV_JOB_TIMEOUT,
          jr_cancel_told j \<or> QWE_LC_EV_START_FAILED = QWE_LC_EV_CANCEL, jr_cur j, jr_live_step j, jr_followup j, jb_id j)"
    and s: "rsrc j2 = rsrc j" "tmrs j2 = tmrs j" "nres j2 = nres j"
    using dispatch_one_eq [OF ns e, of sy pl cx] by blast
  show ?thesis
  proof (cases "act_on sy QWE_LC_EV_START_FAILED res cx2 j2")
    case (Inl b)
    with d act_on_Inl show ?thesis by (fastforce simp: good_def)
  next
    case (Inr x)
    then obtain cx' j' where a: "act_on sy QWE_LC_EV_START_FAILED res cx2 j2 = Inr (cx', j')" by (cases x) auto
    have p2: "jb_state j2 = r_next res" "jb_specs j2 = jb_specs j" "jr_live_step j2 = jr_live_step j" "jr_followup j2 = None"
      using c assms(2) by (simp_all add: core_def)
    from assms(1) have "job_ok False j' \<and> jb_state j' = jb_state j2 \<and> qwe_lc_state_is_final (jb_state j2)"
      unfolding start_failing_def
    proof (elim disjE conjE)
      assume h: "jb_state j = QWE_LC_BETWEEN_STEPS" "jr_live_step j = -1" "nres j = None"
        "rsrc j = (False, False, False, False)"
      have "r_actions res = [QWE_LC_ACT_RECORD_JOB, QWE_LC_ACT_END_JOB, QWE_LC_ACT_NONE, QWE_LC_ACT_NONE]
          \<and> qwe_lc_state_is_final (r_next res)"
        using lookup_shape [OF r] h(1) by (auto simp: lc_shape_def lcm_defs lc_order lc_pred_defs)
      then show ?thesis
        using h p2 s act_end [OF a] by (simp add: rsrc_def)
    next
      assume h: "jb_state j \<in> running_s" "jr_live_step j = int (jr_cur j)" "nres j = Some (jb_nsteps j)"
        "rsrc j = (True, True, True, False)"
      have "r_actions res = [QWE_LC_ACT_RECORD_STEP, QWE_LC_ACT_RECORD_JOB, QWE_LC_ACT_END_JOB, QWE_LC_ACT_NONE]
          \<and> r_next res = QWE_LC_FAILED"
        using lookup_shape [OF r] h(1) by (auto simp: lc_shape_def lcm_defs lc_order lc_pred_defs)
      then show ?thesis
        using h p2 s act_start_failed [OF a] by (simp add: lc_pred_defs lc_order)
    qed
    with a d show ?thesis by (simp add: good_def)
  qed
qed

lemma qwe_timer_expired_cases:
  "qwe_timer_expired b t = (fired, t') \<Longrightarrow> fired = tm_fired t' \<and> tm_armed t' = tm_armed t \<and> (tm_fired t \<longrightarrow> t' = t)"
  by (auto simp: qwe_timer_expired_def Let_def split: if_splits)

lemma job_ok_timer: "job_ok told (j\<lparr>jr_timer := t\<rparr>) = job_ok told j"
  by (simp add: job_ok_def waiting_def flight_def between_def ended_def frame_defs)

lemma between_steps_event_ok:
  assumes "between_steps_event sy cx j = ((ev, pl), cx1, j1)" and "job_ok False j"
    and "jb_state j = QWE_LC_BETWEEN_STEPS"
  shows "job_ok False j1 \<and> jb_state j1 = QWE_LC_BETWEEN_STEPS \<and> (ev = QWE_LC_EV_NEXT_STEP \<longrightarrow> jr_cur j1 < jb_nsteps j1)
    \<and> ev \<in> {QWE_LC_EV_CANCEL, QWE_LC_EV_JOB_TIMEOUT, QWE_LC_EV_NEXT_STEP, QWE_LC_EV_NO_MORE_STEPS}"
  using assms
  by (auto simp: between_steps_event_def job_ok_timer split: prod.splits if_splits)

definition settled :: "job \<Rightarrow> bool" where
  "settled j \<longleftrightarrow> job_ok False j \<and> jb_state j \<noteq> QWE_LC_BETWEEN_STEPS"

lemma settled_done: "settled j \<Longrightarrow> owed_loop (Suc f) sy cx j = Some (Inr (cx, j))"
  by (simp add: settled_def job_ok_def)

lemma final_not_between: "qwe_lc_state_is_final s \<Longrightarrow> s \<noteq> QWE_LC_BETWEEN_STEPS"
  by (auto simp: lc_pred_defs lc_order)

lemma owed_followup:
  assumes "jr_followup j = Some QWE_LC_EV_START_FAILED" "start_failing j"
  shows "\<exists>r. owed_loop (Suc (Suc f)) sy cx j = Some r \<and> good r settled"
proof -
  have "start_failing (j\<lparr>jr_followup := None\<rparr>)" using assms(2) by (simp add: start_failing_def frame_defs)
  from dispatch_start_failed [OF this, of sy no_payload cx]
  have "good (dispatch_one sy QWE_LC_EV_START_FAILED no_payload (-1) cx (j\<lparr>jr_followup := None\<rparr>)) settled"
    using final_not_between by (auto simp: good_def settled_def split: sum.splits)
  then show ?thesis
    unfolding owed_loop.simps(2) [of "Suc f"] assms(1) option.case
    by (cases "dispatch_one sy QWE_LC_EV_START_FAILED no_payload (-1) cx (j\<lparr>jr_followup := None\<rparr>)")
      (auto simp: good_def settled_done simp del: owed_loop.simps)
qed

lemma owed_good:
  assumes "job_mid j"
  shows "\<exists>r. owed_loop (Suc (Suc (Suc f))) sy cx j = Some r \<and> good r settled"
proof (cases "jr_followup j")
  case (Some e)
  with assms have "e = QWE_LC_EV_START_FAILED" "start_failing j" by (auto simp: job_mid_def job_ok_def)
  with Some owed_followup show ?thesis by blast
next
  case None
  with assms have ok: "job_ok False j" by (simp add: job_mid_def)
  show ?thesis
  proof (cases "jb_state j = QWE_LC_BETWEEN_STEPS")
    case False
    with ok have "settled j" by (simp add: settled_def)
    then show ?thesis by (simp add: settled_done good_def del: owed_loop.simps)
  next
    case True
    obtain ev pl cx1 j1 where b: "between_steps_event sy cx j = ((ev, pl), cx1, j1)"
      by (metis prod.collapse)
    note be = between_steps_event_ok [OF b ok True]
    have "good (dispatch_one sy ev pl (-1) cx1 j1) (\<lambda>j'. job_mid j' \<and>
      (jb_state j1 = QWE_LC_BETWEEN_STEPS \<longrightarrow> qwe_lc_state_is_final (jb_state j') \<or> jb_state j' \<in> running_s))"
      using be by (intro dispatch_good [where told = False]) (auto simp: lcm_defs lc_order)
    then consider "dispatch_one sy ev pl (-1) cx1 j1 = Inl Out_of_memory"
      | cx2 j2 where "dispatch_one sy ev pl (-1) cx1 j1 = Inr (cx2, j2)" "job_mid j2" "jb_state j2 \<noteq> QWE_LC_BETWEEN_STEPS"
      using be final_not_between by (cases "dispatch_one sy ev pl (-1) cx1 j1") (auto simp: good_def)
    then show ?thesis
    proof cases
      case 1
      with None True b show ?thesis by (simp add: good_def)
    next
      case (2 cx2 j2)
      have "owed_loop (Suc (Suc (Suc f))) sy cx j = owed_loop (Suc (Suc f)) sy cx2 j2"
        using 2 None True b by (subst owed_loop.simps(2)) simp
      moreover have "\<exists>r. owed_loop (Suc (Suc f)) sy cx2 j2 = Some r \<and> good r settled"
      proof (cases "job_ok False j2")
        case True
        with 2 have "settled j2" by (simp add: settled_def)
        then show ?thesis by (simp add: settled_done good_def del: owed_loop.simps)
      next
        case False
        with 2 owed_followup show ?thesis by (auto simp: job_mid_def simp del: owed_loop.simps)
      qed
      ultimately show ?thesis by simp
    qed
  qed
qed

text \<open>The interface of the handlers: what may be sent to a settled job leaves it settled.\<close>

lemma job_send_good:
  assumes ok: "job_ok told j" and nb: "jb_state j \<noteq> QWE_LC_BETWEEN_STEPS"
    and ev: "qwe_lc_event_is_stale (jb_state j) ev es (jr_live_step j) \<or> ev \<in> qwe_lcm_events (jb_state j)"
    and told: "told \<Longrightarrow> ev \<in> {QWE_LC_EV_LEADER_EXIT_OK, QWE_LC_EV_LEADER_EXIT_FAIL} \<and> es = jr_live_step j"
    and st: "ev = QWE_LC_EV_STEP_TIMEOUT \<Longrightarrow> es = jr_live_step j \<Longrightarrow> tm_fired (jr_step_timer j)"
    and gr: "ev = QWE_LC_EV_GRACE_EXPIRED \<Longrightarrow> es = jr_live_step j \<Longrightarrow> tm_fired (jr_grace_timer j)"
    and ext: "ev \<notin> {QWE_LC_EV_START_FAILED, QWE_LC_EV_NEXT_STEP}"
  shows "\<exists>r. job_send sy ev pl es cx j = Some r \<and> good r settled"
proof -
  have "good (dispatch_one sy ev pl es cx j) (\<lambda>j'. job_mid j' \<and>
      (jb_state j = QWE_LC_BETWEEN_STEPS \<longrightarrow> qwe_lc_state_is_final (jb_state j') \<or> jb_state j' \<in> running_s))"
    using assms by (intro dispatch_good [OF ok ev]) auto
  then show ?thesis
    using owed_good [of _ 1 sy]
    by (cases "dispatch_one sy ev pl es cx j")
      (auto simp: job_send_def good_def OWED_TURNS_def numeral_eq_Suc simp del: owed_loop.simps)
qed

end
