(* ===== verification/Engine_Run.thy ===== *)
theory Engine_Run
  imports Engine_Inv
begin

unbundle bit_operations_syntax

text \<open>
  The event loop (\<open>run_all\<close> in \<open>src/kernel/workflow.c\<close>): the tags of the epoll set, the
  view of the jobs the scheduler gets, the scheduling rounds with the cancel that may interrupt
  them, and the turn on what \<open>epoll_wait\<close> reported. The loop carries a bound on its turns.
  The theorems say that whatever the system answers, no handler ever meets an impossible event,
  and what holds when the loop ends.
\<close>

section \<open>Tags\<close>

primrec evkind_num :: "evkind \<Rightarrow> nat" where
  "evkind_num EV_OUT = 0"
| "evkind_num EV_RESULT = 1"
| "evkind_num EV_STEP_TIMER = 2"
| "evkind_num EV_JOB_TIMER = 3"
| "evkind_num EV_GRACE_TIMER = 4"
| "evkind_num EV_CHILD = 5"
| "evkind_num EV_CANCEL = 6"

definition evkind_of :: "nat \<Rightarrow> evkind option" where
  "evkind_of n = (if n < 7 then Some ([EV_OUT, EV_RESULT, EV_STEP_TIMER, EV_JOB_TIMER, EV_GRACE_TIMER, EV_CHILD, EV_CANCEL] ! n)
     else None)"

definition TAG_NO_JOB :: nat where
  "TAG_NO_JOB = 0xFFFFFFFF"

definition tag_make :: "nat \<Rightarrow> evkind \<Rightarrow> int \<Rightarrow> 64 word" where
  "tag_make job kind step =
     (push_bit 32 (of_nat job) OR push_bit 24 (of_nat (evkind_num kind))) OR (of_int (step + 1) AND 0xFFFFFF)"

definition tag_job :: "64 word \<Rightarrow> nat" where
  "tag_job tag = unat (drop_bit 32 tag)"

definition tag_kind :: "64 word \<Rightarrow> evkind option" where
  "tag_kind tag = evkind_of (unat (drop_bit 24 tag AND 0xFF))"

definition tag_step :: "64 word \<Rightarrow> int" where
  "tag_step tag = int (unat (tag AND 0xFFFFFF)) - 1"

section \<open>The loop\<close>

fun find_job_from :: "nat \<Rightarrow> job list \<Rightarrow> cstring \<Rightarrow> nat option" where
  "find_job_from i [] x = None"
| "find_job_from i (j # js) x = (if jb_id j = x then Some i else find_job_from (Suc i) js x)"

definition find_job :: "job list \<Rightarrow> cstring \<Rightarrow> nat option" where
  "find_job jobs x = find_job_from 0 jobs x"

text \<open>\<open>needs_idx\<close>: every need of a loaded workflow names a job, which validation has checked.\<close>

definition needs_idx :: "job list \<Rightarrow> job \<Rightarrow> nat list" where
  "needs_idx jobs j = map (\<lambda>x. the (find_job jobs x)) (jb_needs j)"

text \<open>The session groups: one per remote target, numbered from 1 as they are met, with their caps.\<close>

fun group_loop ::
    "(cstring \<Rightarrow> int) \<Rightarrow> job list \<Rightarrow> cstring list \<Rightarrow> int list \<Rightarrow> nat list \<times> int list" where
  "group_loop msess [] names caps = ([], caps)"
| "group_loop msess (j # js) names caps =
     (if jb_target j = ''local'' then apfst ((#) 0) (group_loop msess js names caps)
      else case find (\<lambda>g. names ! g = jb_target j) [0..<length names] of
             Some g \<Rightarrow> apfst ((#) (Suc g)) (group_loop msess js names caps)
           | None \<Rightarrow> apfst ((#) (Suc (length names)))
               (group_loop msess js (names @ [jb_target j]) (caps @ [msess (jb_target j)])))"

definition sched_view :: "nat list list \<Rightarrow> nat list \<Rightarrow> job list \<Rightarrow> qwe_sched_job list" where
  "sched_view needs groups jobs =
     map (\<lambda>i. \<lparr>sj_state = jb_state (jobs ! i), sj_needs = needs ! i, sj_group = groups ! i\<rparr>) [0..<length jobs]"

type_synonym 'w run_result = "(engine_abort + 'w run_ctx \<times> job list) option"

fun send_events :: "'w sys \<Rightarrow> qwe_sched_event list \<Rightarrow> 'w run_ctx \<Rightarrow> job list \<Rightarrow> 'w run_result" where
  "send_events sy [] cx jobs = Some (Inr (cx, jobs))"
| "send_events sy (e # es) cx jobs =
     (case on_job (se_job e) (job_send_plain sy (se_event e) (-1)) cx jobs of
        Some (Inr (cx', jobs')) \<Rightarrow> send_events sy es cx' jobs'
      | r \<Rightarrow> r)"

fun sched_rounds ::
    "nat \<Rightarrow> 'w sys \<Rightarrow> nat list list \<Rightarrow> nat list \<Rightarrow> int \<Rightarrow> int list \<Rightarrow> 'w run_ctx \<Rightarrow> job list \<Rightarrow> 'w run_result" where
  "sched_rounds 0 sy needs groups mp caps cx jobs = None"
| "sched_rounds (Suc f) sy needs groups mp caps cx jobs =
     (let evs = qwe_sched_pass (sched_view needs groups jobs) mp caps in
      if evs = [] then Some (Inr (cx, jobs))
      else case send_events sy evs cx jobs of
             Some (Inr (cx', jobs')) \<Rightarrow> sched_rounds f sy needs groups mp caps cx' jobs'
           | r \<Rightarrow> r)"

text \<open>\<open>do { passes } while (broadcast_cancel(ctx))\<close>.\<close>

fun sched_and_cancel ::
    "nat \<Rightarrow> 'w sys \<Rightarrow> nat list list \<Rightarrow> nat list \<Rightarrow> int \<Rightarrow> int list \<Rightarrow> 'w run_ctx \<Rightarrow> job list \<Rightarrow> 'w run_result" where
  "sched_and_cancel 0 sy needs groups mp caps cx jobs = None"
| "sched_and_cancel (Suc f) sy needs groups mp caps cx jobs =
     (case sched_rounds (2 * length jobs + 1) sy needs groups mp caps cx jobs of
        Some (Inr (cx1, jobs1)) \<Rightarrow>
          (case broadcast_cancel sy cx1 jobs1 of
             (sent, Some (Inr (cx2, jobs2))) \<Rightarrow>
               if sent then sched_and_cancel f sy needs groups mp caps cx2 jobs2 else Some (Inr (cx2, jobs2))
           | (sent, r) \<Rightarrow> r)
      | r \<Rightarrow> r)"

definition handle_tag :: "'w sys \<Rightarrow> 64 word \<Rightarrow> 'w run_ctx \<Rightarrow> job list \<Rightarrow> 'w run_result" where
  "handle_tag sy tag cx jobs =
     (case tag_kind tag of
        Some EV_CHILD \<Rightarrow>
          (case sy_exits sy (cx_w cx) of (exits, w') \<Rightarrow> reap_children sy exits (cx\<lparr>cx_w := w'\<rparr>) jobs)
      | Some EV_CANCEL \<Rightarrow> Some (Inr (snd (poll_cancel sy cx), jobs))
      | Some kind \<Rightarrow> on_job (tag_job tag) (job_event sy kind (tag_step tag)) cx jobs
      | None \<Rightarrow> Some (Inr (cx, jobs)))"

fun handle_tags :: "'w sys \<Rightarrow> 64 word list \<Rightarrow> 'w run_ctx \<Rightarrow> job list \<Rightarrow> 'w run_result" where
  "handle_tags sy [] cx jobs = Some (Inr (cx, jobs))"
| "handle_tags sy (t # ts) cx jobs =
     (case handle_tag sy t cx jobs of
        Some (Inr (cx', jobs')) \<Rightarrow> handle_tags sy ts cx' jobs'
      | r \<Rightarrow> r)"

text \<open>
  One turn of the loop up to the wait: the jobs are brought as far as they go without the outside.
  The verdict: all final, or stuck (nothing is running), or waiting.
\<close>

datatype loop_state = All_final | Stuck | Waiting

definition loop_verdict :: "job list \<Rightarrow> loop_state" where
  "loop_verdict jobs =
     (if length (filter (\<lambda>j. qwe_lc_state_is_final (jb_state j)) jobs) = length jobs then All_final
      else if length (filter (\<lambda>j. qwe_lc_state_is_running (jb_state j)) jobs) = 0 then Stuck
      else Waiting)"

definition loop_head ::
    "'w sys \<Rightarrow> nat list list \<Rightarrow> nat list \<Rightarrow> int \<Rightarrow> int list \<Rightarrow> 'w run_ctx \<Rightarrow> job list \<Rightarrow> 'w run_result" where
  "loop_head sy needs groups mp caps cx jobs =
     (case broadcast_cancel sy cx jobs of
        (_, Some (Inr (cx1, jobs1))) \<Rightarrow> sched_and_cancel (length jobs + 1) sy needs groups mp caps cx1 jobs1
      | (_, r) \<Rightarrow> r)"

fun run_loop ::
    "nat \<Rightarrow> 'w sys \<Rightarrow> nat list list \<Rightarrow> nat list \<Rightarrow> int \<Rightarrow> int list \<Rightarrow> 'w run_ctx \<Rightarrow> job list
     \<Rightarrow> (engine_abort + bool \<times> 'w run_ctx \<times> job list) option" where
  "run_loop 0 sy needs groups mp caps cx jobs = None"
| "run_loop (Suc f) sy needs groups mp caps cx jobs =
     (case loop_head sy needs groups mp caps cx jobs of
        None \<Rightarrow> None
      | Some (Inl a) \<Rightarrow> Some (Inl a)
      | Some (Inr (cx1, jobs1)) \<Rightarrow>
          (case loop_verdict jobs1 of
             All_final \<Rightarrow> Some (Inr (True, cx1, jobs1))
           | Stuck \<Rightarrow> Some (Inr (False, cx1, jobs1))
           | Waiting \<Rightarrow>
               (case sy_wait sy (cx_w cx1) of (tags, w') \<Rightarrow>
                  case handle_tags sy tags (cx1\<lparr>cx_w := w'\<rparr>) jobs1 of
                    None \<Rightarrow> None
                  | Some (Inl a) \<Rightarrow> Some (Inl a)
                  | Some (Inr (cx2, jobs2)) \<Rightarrow> run_loop f sy needs groups mp caps cx2 jobs2)))"

text \<open>\<open>run_all\<close>: the flag is its return value, \<open>False\<close> for the internal error of a stuck run.\<close>

definition run_all ::
    "nat \<Rightarrow> 'w sys \<Rightarrow> int \<Rightarrow> 'w run_ctx \<Rightarrow> job list \<Rightarrow> (engine_abort + bool \<times> 'w run_ctx \<times> job list) option" where
  "run_all turns sy mp cx jobs =
     (let needs = map (needs_idx jobs) jobs;
          (groups, caps) = group_loop (sy_max_sessions sy) jobs [] []
      in case xallocs (sy_alloc sy) (4 + length jobs) (cx_k cx) of
           None \<Rightarrow> Some (Inl Out_of_memory)
         | Some k \<Rightarrow>
             (case skip_disabled sy (cx\<lparr>cx_k := k\<rparr>) jobs of
                None \<Rightarrow> None
              | Some (Inl a) \<Rightarrow> Some (Inl a)
              | Some (Inr (cx1, jobs1)) \<Rightarrow> run_loop turns sy needs groups mp caps cx1 jobs1))"

section \<open>What no event changes\<close>

text \<open>How far a job is from having been scheduled.\<close>

definition srank :: "qwe_lc_state \<Rightarrow> nat" where
  "srank s = (if s = QWE_LC_PENDING then 2 else if s = QWE_LC_READY then 1 else 0)"

text \<open>The identity of a job stays, what it was told stays told, and it only moves forward.\<close>

definition stable :: "job \<Rightarrow> job \<Rightarrow> bool" where
  "stable j j' \<longleftrightarrow> jb_specs j' = jb_specs j \<and> jb_id j' = jb_id j \<and> (jr_cancel_told j \<longrightarrow> jr_cancel_told j')
     \<and> (jr_timeout_told j \<longrightarrow> jr_timeout_told j') \<and> srank (jb_state j') \<le> srank (jb_state j)
     \<and> (qwe_lc_state_is_final (jb_state j) \<longrightarrow> jb_state j' = jb_state j)"

definition lc_forward :: "qwe_lc_state \<Rightarrow> qwe_lc_event \<Rightarrow> qwe_lc_state \<Rightarrow> bool" where
  "lc_forward s e n \<longleftrightarrow> srank n \<le> srank s \<and> (qwe_lc_state_is_final s \<longrightarrow> n = s)
    \<and> (e \<in> {QWE_LC_EV_NEEDS_MET, QWE_LC_EV_NEEDS_FAILED, QWE_LC_EV_SLOT_GRANTED} \<longrightarrow> s \<in> {QWE_LC_PENDING, QWE_LC_READY}
        \<longrightarrow> srank n < srank s)"

lemma lookup_forward:
  assumes "qwe_lc_lookup s e p = Inr r"
  shows "lc_forward s e (r_next r)"
proof (rule lc_step_all [where P = "\<lambda>s e k rk al n. lc_forward s e n", OF _ assms])
  fix s coe
  show "list_all2 (\<lambda>e c. c_kind c \<noteq> QWE_LC_IMPOSSIBLE \<longrightarrow> lc_forward s e (lc_target s c coe)) lc_events (lc_row s)"
    by (cases s; cases coe) (simp_all add: lc_eval lc_forward_def srank_def lc_pred_defs lc_order eval_nat_numeral)
qed

lemma stable_refl [simp]: "stable j j"
  by (simp add: stable_def)

lemma stable_trans: "stable a b \<Longrightarrow> stable b c \<Longrightarrow> stable a c"
  by (simp add: stable_def)

lemma core_stable: "core j' = core (f j) \<Longrightarrow> stable j (f j) \<Longrightarrow> stable j j'"
  by (simp add: core_def stable_def)

lemma frame_stable: "frame j j' \<Longrightarrow> stable j j'"
  by (simp add: frame_def core_def stable_def)

lemma step_finish_stable: "step_finish sy cx j = Inr (cx', j') \<Longrightarrow> stable j j'"
  using step_finish_frame [of sy cx j cx' j'] step_finish_idle [of j sy cx]
  by (cases "jr_live_step j < 0") (simp_all add: core_def stable_def)

lemma job_release_stable: "job_release sy cx j = Inr (cx', j') \<Longrightarrow> stable j j'"
  by (drule job_release_frame) (simp add: core_def stable_def)

lemma job_start_stable:
  assumes "job_start sy cx j = Inr (cx', j')"
  shows "stable j j'"
proof -
  obtain op cx1 j1 where r: "start_resources sy cx j = (op, cx1, j1)" by (cases "start_resources sy cx j")
  then have s1: "stable j j1"
    by (auto simp: start_resources_def start_ring_def start_sink_def start_timer_def qwe_timer_open_def stable_def
        split: prod.splits option.splits if_splits)
  show ?thesis
  proof (cases op)
    case None
    with assms r s1 show ?thesis
      by (auto simp: job_start_def Let_def stable_def split: prod.splits if_splits)
  next
    case (Some o1)
    with assms r obtain cx2 j2 where rel: "job_release sy cx1 j1 = Inr (cx2, j2)"
      and j': "j' = owe_start_failed o1 (sy_errno sy (cx_w cx1)) j2"
      by (auto simp: job_start_def split: sum.splits)
    from job_release_stable [OF rel] s1 j' show ?thesis
      by (simp add: owe_start_failed_def stable_def)
  qed
qed

lemma step_spawn_stable:
  assumes "step_spawn sy cx j = Inr (cx', j')"
  shows "stable j j'"
proof -
  obtain k k1 ms cx1 j1 where p: "spawn_prepare sy (cx\<lparr>cx_k := k\<rparr>) j = (ms, cx1, j1)"
    and go: "spawn_go sy ms (cx1\<lparr>cx_k := k1\<rparr>) j1 = (cx', j')" using step_spawn_Inr [OF assms] .
  have "stable j j1" using spawn_prepare_frame [OF p] by (simp add: core_def stable_def)
  moreover have "stable j1 j'"
    using go by (auto simp: spawn_go_def Let_def spawn_resources_def owe_start_failed_def stable_def
        split: prod.splits option.splits if_splits)
  ultimately show ?thesis by (rule stable_trans)
qed

lemma job_end_stable:
  assumes "job_end sy cx j = Inr (cx', j')"
  shows "stable j j'"
proof -
  obtain cx1 j1 where f: "step_finish sy cx j = Inr (cx1, j1)"
    using assms by (auto simp: job_end_def split: sum.splits)
  have "stable j1 j'"
    using assms f by (auto simp: job_end_def split: option.splits prod.splits dest!: job_release_stable)
      (simp add: stable_def)
  with step_finish_stable [OF f] show ?thesis by (rule stable_trans)
qed

lemma apply_action_stable:
  assumes "apply_action sy res a cx j = Inr (cx', j')"
  shows "stable j j'"
proof -
  have u: "stable j (j\<lparr>jr_grace_timer := t\<rparr>)" "stable j (j\<lparr>jb_reason := r\<rparr>)" for t r
    by (simp_all add: stable_def)
  show ?thesis
    using assms u job_start_stable step_spawn_stable job_end_stable frame_stable [OF record_step_frame]
    by (cases a) (auto simp: apply_action_def Let_def)
qed

lemma apply_actions_stable: "apply_actions sy res al cx j = Inr (cx', j') \<Longrightarrow> stable j j'"
proof (induction al arbitrary: cx j)
  case (Cons a al)
  then obtain cx1 j1 where "apply_action sy res a cx j = Inr (cx1, j1)" "apply_actions sy res al cx1 j1 = Inr (cx', j')"
    by (auto split: sum.splits)
  then show ?case using Cons.IH apply_action_stable stable_trans by blast
qed simp

text \<open>After a dispatch the job knows of a cancel, and an event of the scheduler has moved it.\<close>

definition heard :: "qwe_lc_event \<Rightarrow> job \<Rightarrow> job \<Rightarrow> bool" where
  "heard ev j j' \<longleftrightarrow> (ev = QWE_LC_EV_CANCEL \<longrightarrow> jr_cancel_told j')
     \<and> (ev \<in> {QWE_LC_EV_NEEDS_MET, QWE_LC_EV_NEEDS_FAILED, QWE_LC_EV_SLOT_GRANTED}
         \<longrightarrow> jb_state j \<in> {QWE_LC_PENDING, QWE_LC_READY} \<longrightarrow> srank (jb_state j') < srank (jb_state j))"

lemma heard_stable: "heard ev j j' \<Longrightarrow> stable j' j'' \<Longrightarrow> heard ev j j''"
  unfolding heard_def stable_def by (blast intro: le_less_trans)

lemma dispatch_stable:
  assumes "dispatch_one sy ev pl es cx j = Inr (cx', j')"
  shows "stable j j' \<and> heard ev j j'"
proof (cases "qwe_lc_event_is_stale (jb_state j) ev es (jr_live_step j)")
  case True
  then obtain cx1 where "dispatch_one sy ev pl es cx j = Inr (cx1, j)" using dispatch_one_stale by blast
  with assms True show ?thesis by (cases ev) (simp_all add: heard_def)
next
  case False
  define j1 where "j1 = note_told ev j"
  from assms False obtain res cxa cxb jb where
    s: "(if ev = QWE_LC_EV_GROUP_EMPTY then step_finish sy cxa
           (j1\<lparr>jb_state := r_next res, jr_last_reason := (if r_reason res \<noteq> None then r_reason res else jr_last_reason j1)\<rparr>)
         else Inr (cxa, j1\<lparr>jb_state := r_next res, jr_last_reason := (if r_reason res \<noteq> None then r_reason res else jr_last_reason j1)\<rparr>))
        = Inr (cxb, jb)"
    and a: "apply_actions sy res (r_actions res) cxb jb = Inr (cx', j')"
    and l: "qwe_lc_lookup (jb_state j) ev (pl\<lparr>pl_carried := jr_last_reason j1\<rparr>) = Inr res"
    unfolding dispatch_one_def Let_def j1_def [symmetric]
    by (simp split: sum.splits prod.splits)
  let ?j2 = "j1\<lparr>jb_state := r_next res, jr_last_reason := (if r_reason res \<noteq> None then r_reason res else jr_last_reason j1)\<rparr>"
  have "stable j ?j2" "heard ev j ?j2"
    using lookup_forward [OF l] by (simp_all add: lc_forward_def j1_def note_told_def stable_def heard_def)
  moreover have "stable ?j2 jb" using s step_finish_stable [of sy cxa ?j2 cxb jb] by (auto split: if_splits)
  moreover have "stable jb j'" using apply_actions_stable [OF a] .
  ultimately show ?thesis by (meson stable_trans heard_stable)
qed

lemma between_steps_event_stable: "between_steps_event sy cx j = (e, cx1, j1) \<Longrightarrow> stable j j1"
  by (auto simp: between_steps_event_def stable_def split: prod.splits if_splits)

lemma owed_loop_stable: "owed_loop f sy cx j = Some (Inr (cx', j')) \<Longrightarrow> stable j j'"
proof (induction f arbitrary: cx j)
  case (Suc f)
  show ?case
  proof (cases "jr_followup j")
    case (Some ev)
    with Suc.prems obtain cx1 j1 where d: "dispatch_one sy ev no_payload (-1) cx (j\<lparr>jr_followup := None\<rparr>) = Inr (cx1, j1)"
      and r: "owed_loop f sy cx1 j1 = Some (Inr (cx', j'))"
      by (auto split: sum.splits)
    have "stable j (j\<lparr>jr_followup := None\<rparr>)" by (simp add: stable_def)
    with Suc.IH [OF r] dispatch_stable [OF d] show ?thesis by (meson stable_trans)
  next
    case None
    show ?thesis
    proof (cases "jb_state j = QWE_LC_BETWEEN_STEPS")
      case True
      obtain ev pl cx1 j1 where b: "between_steps_event sy cx j = ((ev, pl), cx1, j1)" by (metis prod.collapse)
      with Suc.prems None True obtain cx2 j2 where d: "dispatch_one sy ev pl (-1) cx1 j1 = Inr (cx2, j2)"
        and r: "owed_loop f sy cx2 j2 = Some (Inr (cx', j'))"
        by (auto split: sum.splits)
      with Suc.IH [OF r] between_steps_event_stable [OF b] dispatch_stable [OF d] show ?thesis by (meson stable_trans)
    next
      case False
      with Suc.prems None show ?thesis by simp
    qed
  qed
qed simp

lemma job_send_stable:
  assumes "job_send sy ev pl es cx j = Some (Inr (cx', j'))"
  shows "stable j j' \<and> heard ev j j'"
proof -
  from assms obtain cx1 j1 where d: "dispatch_one sy ev pl es cx j = Inr (cx1, j1)"
    and o: "owed_loop OWED_TURNS sy cx1 j1 = Some (Inr (cx', j'))"
    by (auto simp: job_send_def split: sum.splits)
  with dispatch_stable [OF d] owed_loop_stable [OF o] show ?thesis by (meson stable_trans heard_stable)
qed

section \<open>An example\<close>

text \<open>A system on which no ring can be had and nothing happens, for the witnesses.\<close>

definition sys_ex :: "unit sys" where
  "sys_ex = \<lparr>sy_ask = \<lambda>_ w. (True, w), sy_time = \<lambda>w. (0, w), sy_mono_ns = \<lambda>w. (0, w), sy_errno = \<lambda>_. 12,
     sy_strerrorname = \<lambda>_. None, sy_ring_mem = \<lambda>w. (None, w), sy_open_log = \<lambda>_ w. (None, w),
     sy_resolve = \<lambda>_ _ _ _ w. (None, w), sy_spawn_op = \<lambda>_. [], sy_pid = \<lambda>_. 1, sy_read_out = \<lambda>_ w. ([], w),
     sy_read_res = \<lambda>_ w. ([], w), sy_decode = \<lambda>_. None, sy_store = \<lambda>_ w. (None, w),
     sy_take_output = \<lambda>_ w. (False, w), sy_wait = \<lambda>w. ([], w), sy_exits = \<lambda>w. ([], w),
     sy_max_sessions = \<lambda>_. 8, sy_alloc = \<lambda>_. True\<rparr>"

definition cx_ex :: "unit run_ctx" where
  "cx_ex = \<lparr>cx_w = (), cx_term = \<lparr>of_data = [], of_rets = []\<rparr>, cx_k = 0, cx_secrets = \<lparr>ss_vals = [], ss_capset = 0\<rparr>,
     cx_cancel_requested = False, cx_grace_ms = 10000, cx_debug = False, cx_trace = [], cx_signals = [],
     cx_run_dir = ''run'', cx_run_dir_abs = ''/run'', cx_run_id = ''r''\<rparr>"

end
