(* ===== verification/Outcomes.thy ===== *)
theory Outcomes
  imports Engine_Run
begin

text \<open>
  The results of the steps: a step whose leader has been dealt with has its outcome written before
  its group is waited for, and a job that ends leaves an outcome on every step. The writers of
  \<open>result.json\<close> and of the summary read these outcomes without looking.
\<close>

section \<open>The ledger of a job\<close>

text \<open>Which steps have an outcome.\<close>

definition has_outcome :: "qwe_step_result \<Rightarrow> bool" where
  "has_outcome r \<longleftrightarrow> sr_outcome r \<noteq> None"

lemma has_outcome_simps [simp]:
  "has_outcome (r\<lparr>sr_started := t\<rparr>) = has_outcome r" "has_outcome (r\<lparr>sr_duration_ms := d\<rparr>) = has_outcome r"
  "has_outcome (name_step j i r) = has_outcome r" "has_outcome (r\<lparr>sr_outcome := Some x\<rparr>)"
  "has_outcome (r\<lparr>sr_ended := t, sr_changed := b, sr_outputs_json := js, sr_outcome := Some x, sr_reason := y\<rparr>)"
  "\<not> has_outcome step_result_zero"
  by (simp_all add: has_outcome_def name_step_def Let_def step_result_zero_def)

definition outs :: "job \<Rightarrow> bool list option" where
  "outs j = map_option (map has_outcome) (jb_steps j)"

definition ledger :: "job \<Rightarrow> qwe_lc_state \<times> bool list option \<times> nat \<times> int" where
  "ledger j = (jb_state j, outs j, jr_cur j, jr_live_step j)"

text \<open>
  The steps before the cursor have an outcome, so has the one at the cursor once its group is
  waited for, and all of them in the end; before the first step and between steps none is live.
\<close>

fun accounted :: "qwe_lc_state \<times> bool list option \<times> nat \<times> int \<Rightarrow> bool" where
  "accounted (s, os, cur, live) \<longleftrightarrow>
     (\<forall>bs. os = Some bs \<longrightarrow>
        (\<forall>i < length bs. i < cur \<or> i = cur \<and> waiting_for_empty_group s \<or> qwe_lc_state_is_final s \<longrightarrow> bs ! i))
   \<and> (s \<in> {QWE_LC_PENDING, QWE_LC_READY} \<longrightarrow> cur = 0)
   \<and> (s \<in> {QWE_LC_PENDING, QWE_LC_READY, QWE_LC_BETWEEN_STEPS} \<longrightarrow> live < 0)"

lemma accountedD: "accounted (s, Some bs, cur, live) \<Longrightarrow> i < length bs \<Longrightarrow> i < cur \<Longrightarrow> bs ! i"
  by simp

text \<open>With the outcome of the step at the cursor written.\<close>

lemma accounted_recorded:
  assumes "accounted (s, os, cur, live)" "map_option (\<lambda>bs. bs[cur := True]) os = Some bs" "i < length bs" "i \<le> cur"
  shows "bs ! i"
proof -
  obtain bs0 where o: "os = Some bs0" "bs = bs0[cur := True]" using assms(2) by auto
  with accountedD [of s bs0 cur live i] assms(1,3,4) show ?thesis by (cases "i = cur") simp_all
qed

abbreviation books_ok :: "job \<Rightarrow> bool" where
  "books_ok j \<equiv> accounted (ledger j)"

lemma ledger_of: "jb_steps j' = jb_steps j \<Longrightarrow> core j' = core j \<Longrightarrow> ledger j' = ledger j"
  by (simp add: ledger_def outs_def core_def)

lemma set_step_outs:
  assumes "\<And>r. has_outcome (f r) = has_outcome r"
  shows "outs (set_step i f j) = outs j"
proof (cases "jb_steps j")
  case (Some ss)
  have "map has_outcome (ss[i := f (ss ! i)]) = map has_outcome ss"
    using assms by (cases "i < length ss") (simp_all add: map_update list_update_same_conv list_update_beyond)
  with Some show ?thesis by (simp add: outs_def set_step_def)
qed (simp add: outs_def set_step_def)

section \<open>What the functions do to it\<close>

lemma run_drain_led: "run_drain sy cx j = Inr (e, cx', j') \<Longrightarrow> ledger j' = ledger j"
  by (auto simp: run_drain_def ledger_def outs_def split: prod.splits option.splits)

lemma run_drain_flush_led: "run_drain_flush sy cx j = Inr (cx', j') \<Longrightarrow> ledger j' = ledger j"
  by (auto simp: run_drain_flush_def ledger_def outs_def split: prod.splits option.splits)

lemma result_loop_led: "result_loop ok rs k j = (e, k', j') \<Longrightarrow> ledger j' = ledger j"
proof (induction ok rs k j rule: result_loop.induct)
  case (4 ok d rs k j)
  have u: "ledger (j\<lparr>jr_res_overflow := b\<rparr>) = ledger j" "ledger (j\<lparr>jr_res_buf := x, jr_res_cap := c\<rparr>) = ledger j"
      "ledger (j\<lparr>jr_res_buf := x\<rparr>) = ledger j" for b x c
    by (simp_all add: ledger_def outs_def)
  from 4 u show ?case by (auto split: if_splits)
qed auto

lemma drain_result_led: "drain_result sy cx j = (e, cx', j') \<Longrightarrow> ledger j' = ledger j"
  by (auto simp: drain_result_def split: prod.splits dest: result_loop_led)

lemma store_outputs_led: "store_outputs sy cx j = (cx', j') \<Longrightarrow> ledger j' = ledger j"
  by (auto simp: store_outputs_def ledger_def outs_def split: prod.splits option.splits)

lemma collect_file_outputs_led: "collect_file_outputs sy cx j = (cx', j') \<Longrightarrow> ledger j' = ledger j"
  by (auto simp: collect_file_outputs_def split: prod.splits option.splits if_splits dest: store_outputs_led)

lemma read_step_msg_led: "read_step_msg sy cx j = (m, cx', j') \<Longrightarrow> ledger j' = ledger j"
  by (auto simp: read_step_msg_def Let_def split: prod.splits option.splits if_splits dest: store_outputs_led)

lemma leader_exit_event_led:
  assumes "leader_exit_event sy status cx j = (e, cx', j')"
  shows "ledger j' = ledger j"
proof -
  have c [simp]: "ledger (i\<lparr>jr_step_changed := b\<rparr>) = ledger i" for i b by (simp add: ledger_def outs_def)
  obtain e1 cx1 j1 where d: "drain_result sy cx (j\<lparr>jr_step_changed := True\<rparr>) = (e1, cx1, j1)"
    by (cases "drain_result sy cx (j\<lparr>jr_step_changed := True\<rparr>)")
  obtain m cx2 j2 where r: "read_step_msg sy cx1 j1 = (m, cx2, j2)" by (cases "read_step_msg sy cx1 j1")
  obtain cx3 j3 where f: "collect_file_outputs sy cx2 j2 = (cx3, j3)" by (cases "collect_file_outputs sy cx2 j2")
  have "ledger j2 = ledger j" "ledger j3 = ledger j"
    using drain_result_led [OF d] read_step_msg_led [OF r] collect_file_outputs_led [OF f] by simp_all
  with assms show ?thesis
    by (auto simp: leader_exit_event_def d r f Let_def split: if_splits prod.splits)
qed

lemma job_release_led: "job_release sy cx j = Inr (cx', j') \<Longrightarrow> ledger j' = ledger j"
  by (auto simp: job_release_def Let_def ledger_def outs_def split: option.splits if_splits)

lemma start_resources_led: "start_resources sy cx j = (op, cx', j') \<Longrightarrow> ledger j' = ledger j"
  by (auto simp: start_resources_def start_ring_def start_sink_def start_timer_def ledger_def outs_def
      split: prod.splits option.splits if_splits)

lemma job_start_led:
  assumes "job_start sy cx j = Inr (cx', j')"
  shows "jb_state j' = jb_state j \<and> jr_cur j' = jr_cur j \<and> jr_live_step j' = jr_live_step j
    \<and> (outs j' = outs j \<or> outs j' = Some (replicate (jb_nsteps j) False))"
proof -
  obtain op cx1 j1 where r: "start_resources sy cx j = (op, cx1, j1)" by (cases "start_resources sy cx j")
  have l: "ledger j1 = ledger j" using start_resources_led [OF r] .
  have sp: "jb_specs j1 = jb_specs j"
    using r by (auto simp: start_resources_def start_ring_def start_sink_def start_timer_def split: prod.splits option.splits if_splits)
  show ?thesis
  proof (cases op)
    case None
    obtain t cx2 where t: "now_s sy cx1 = (t, cx2)" by (cases "now_s sy cx1")
    obtain ns cx3 where ns: "mono_now_ns sy cx2 = (ns, cx3)" by (cases "mono_now_ns sy cx2")
    let ?j2 = "j1\<lparr>jb_started := t, jb_mono_start_ns := ns,
       jb_steps := Some (replicate (jb_nsteps j1) (step_result_zero\<lparr>sr_duration_ms := -1\<rparr>))\<rparr>"
    have "j' = (if jb_timeout_ms ?j2 > 0 then ?j2\<lparr>jr_timer := qwe_timer_arm (jb_timeout_ms ?j2) (jr_timer ?j2)\<rparr> else ?j2)"
      using assms unfolding job_start_def r None prod.case option.case t ns Let_def
      by (cases "xallocs (sy_alloc sy) 1 (cx_k cx3)") (simp_all only: option.case sum.inject prod.inject sum.distinct)
    with l sp show ?thesis by (simp add: ledger_def outs_def)
  next
    case (Some o1)
    with assms r obtain cx2 j2 where rel: "job_release sy cx1 j1 = Inr (cx2, j2)"
      and j': "j' = owe_start_failed o1 (sy_errno sy (cx_w cx1)) j2"
      by (auto simp: job_start_def split: sum.splits)
    from job_release_led [OF rel] l j' show ?thesis by (simp add: owe_start_failed_def ledger_def outs_def)
  qed
qed

lemma spawn_prepare_led:
  assumes "spawn_prepare sy cx j = (ms, cx', j')"
  shows "jb_state j' = jb_state j \<and> outs j' = outs j \<and> jr_cur j' = jr_cur j"
proof -
  have a: "outs (set_step i (name_step k i) j) = outs j" for i k j by (rule set_step_outs) simp
  have b: "outs (set_step i (\<lambda>r. r\<lparr>sr_started := t\<rparr>) j) = outs j" for i t j by (rule set_step_outs) simp
  have c: "outs (j\<lparr>jr_step_json := x\<rparr>) = outs j" "outs (j\<lparr>jr_out_path := y\<rparr>) = outs j"
      "outs (j\<lparr>jr_step_target := y, jr_step_token := z, jr_step_uses := u\<rparr>) = outs j"
      "outs (j\<lparr>jr_step_mono_start_ns := ns\<rparr>) = outs j" "outs (spawn_reset j) = outs j" for j x y z u ns
    by (simp_all add: outs_def spawn_reset_def)
  have r: "resolve_step sy cx j = (ms, cx', j') \<Longrightarrow> outs j' = outs j \<and> jr_cur j' = jr_cur j" for cx j ms cx' j'
    by (auto simp: resolve_step_def Let_def outs_def split: prod.splits option.splits)
  have "jb_state j' = jb_state j \<and> jr_cur j' = jr_cur j" using spawn_prepare_frame [OF assms] by (simp add: core_def)
  moreover have "outs j' = outs j"
    using assms by (auto simp: spawn_prepare_def Let_def a b c split: prod.splits dest!: r)
  ultimately show ?thesis by simp
qed

lemma spawn_resources_led: "spawn_resources sy cx j = (op, cx', j') \<Longrightarrow> ledger j' = ledger j"
  by (auto simp: spawn_resources_def Let_def ledger_def outs_def split: prod.splits if_splits)

lemma step_spawn_led:
  assumes "step_spawn sy cx j = Inr (cx', j')"
  shows "jb_state j' = jb_state j \<and> outs j' = outs j \<and> jr_cur j' = jr_cur j"
proof -
  obtain k k1 ms cx1 j1 where p: "spawn_prepare sy (cx\<lparr>cx_k := k\<rparr>) j = (ms, cx1, j1)"
    and go: "spawn_go sy ms (cx1\<lparr>cx_k := k1\<rparr>) j1 = (cx', j')" using step_spawn_Inr [OF assms] .
  have u: "ledger (j1\<lparr>jr_step_unreachable := g\<rparr>) = ledger j1" for g by (simp add: ledger_def outs_def)
  have "jb_state j' = jb_state j1 \<and> outs j' = outs j1 \<and> jr_cur j' = jr_cur j1"
    using go by (auto simp: spawn_go_def Let_def owe_start_failed_def ledger_def outs_def
        split: prod.splits option.splits if_splits dest!: spawn_resources_led)
  with spawn_prepare_led [OF p] show ?thesis by simp
qed

lemma step_finish_led:
  assumes "step_finish sy cx j = Inr (cx', j')"
  shows "ledger j' = (if jr_live_step j < 0 then ledger j else (jb_state j, outs j, Suc (jr_cur j), -1))"
proof (cases "jr_live_step j < 0")
  case True
  with assms show ?thesis by (simp add: step_finish_idle)
next
  case False
  have d: "outs (set_step i (\<lambda>r. r\<lparr>sr_duration_ms := x\<rparr>) j) = outs j" for i x by (rule set_step_outs) simp
  have t: "outs (i\<lparr>jr_step_timer := a, jr_grace_timer := b, jr_proc_ok := c\<rparr>) = outs i"
      "outs (i\<lparr>jr_step_target := a1, jr_step_token := a2, jr_cur := k, jr_live_step := l\<rparr>) = outs i" for i a b c a1 a2 k l
    by (simp_all add: outs_def)
  have o: "outs j' = outs j"
    using assms False
    by (auto simp: step_finish_def Let_def d t ledger_def split: if_splits prod.splits sum.splits
        dest!: run_drain_led run_drain_flush_led)
  from step_finish_frame [OF assms] False o show ?thesis by (simp add: core_def ledger_def)
qed

lemma record_step_led:
  assumes "record_step sy res cx j = (cx', j')"
  shows "ledger j' = (jb_state j, map_option (\<lambda>bs. bs[jr_cur j := True]) (outs j), jr_cur j, jr_live_step j)"
proof -
  have "outs j' = map_option (\<lambda>bs. bs[jr_cur j := True]) (outs j)"
    using assms by (cases "jb_steps j") (auto simp: record_step_def outs_def set_step_def map_update split: prod.splits)
  with record_step_frame [OF assms] show ?thesis by (simp add: frame_def core_def ledger_def)
qed

lemma skip_rest_outs:
  "map has_outcome (skip_rest j ss) = map (\<lambda>i. jr_cur j \<le> i \<or> map has_outcome ss ! i) [0..<length ss]"
  by (auto simp: skip_rest_def)

lemma job_end_led:
  assumes "job_end sy cx j = Inr (cx', j')" and "jr_live_step j < 0"
  shows "ledger j' = (jb_state j, map_option (\<lambda>bs. map (\<lambda>i. jr_cur j \<le> i \<or> bs ! i) [0..<length bs]) (outs j),
    jr_cur j, jr_live_step j)"
proof -
  have sf: "step_finish sy cx j = Inr (cx, j)" using assms(2) by (rule step_finish_idle)
  show ?thesis
  proof (cases "jb_steps j")
    case None
    with assms(1) sf have "job_release sy cx j = Inr (cx', j')" by (simp add: job_end_def)
    from job_release_led [OF this] None show ?thesis by (simp add: ledger_def outs_def)
  next
    case (Some ss)
    obtain t cx2 where t: "now_s sy cx = (t, cx2)" by (cases "now_s sy cx")
    obtain ns cx3 where ns: "mono_now_ns sy cx2 = (ns, cx3)" by (cases "mono_now_ns sy cx2")
    obtain k where "job_release sy (cx3\<lparr>cx_k := k\<rparr>) (j\<lparr>jb_ended := t, jb_duration_ms := mono_diff_ms (jb_mono_start_ns j) ns,
        jb_steps := Some (skip_rest j ss)\<rparr>) = Inr (cx', j')"
      using assms(1) unfolding job_end_def sf sum.case prod.case Some option.case t ns by (auto split: option.splits)
    from job_release_led [OF this] Some show ?thesis by (simp add: ledger_def outs_def skip_rest_outs)
  qed
qed

text \<open>The end of a job whose steps before the cursor have an outcome gives all of them one.\<close>

lemma job_end_told:
  assumes "job_end sy cx j = Inr (cx', j')" and "qwe_lc_state_is_final (jb_state j)"
    and "\<And>bs i. outs j = Some bs \<Longrightarrow> i < length bs \<Longrightarrow> i < jr_cur j \<or> i = jr_cur j \<and> 0 \<le> jr_live_step j \<Longrightarrow> bs ! i"
  shows "books_ok j'"
proof -
  have nf: "jb_state j \<notin> {QWE_LC_PENDING, QWE_LC_READY, QWE_LC_BETWEEN_STEPS}"
    using assms(2) by (auto simp: lc_pred_defs lc_order)
  show ?thesis
  proof (cases "jr_live_step j < 0")
    case True
    have "bs ! i" if "outs j = Some bs" "i < length bs" "i < jr_cur j" for bs i using assms(3) that by blast
    with job_end_led [OF assms(1) True] nf show ?thesis by (auto intro!: leI)
  next
    case False
    then obtain cx1 j1 where f: "step_finish sy cx j = Inr (cx1, j1)" and e: "job_end sy cx1 j1 = Inr (cx', j')"
      using job_end_live [OF assms(1)] by auto
    have l: "jb_state j1 = jb_state j" "outs j1 = outs j" "jr_cur j1 = Suc (jr_cur j)" "jr_live_step j1 = -1"
      using step_finish_led [OF f] False by (simp_all add: ledger_def)
    have "bs ! i" if "outs j = Some bs" "i < length bs" "i < Suc (jr_cur j)" for bs i
      using assms(3) that False by (auto simp: less_Suc_eq)
    with job_end_led [OF e] l nf show ?thesis by (auto intro!: leI)
  qed
qed

section \<open>Dispatch\<close>

text \<open>The ledger after the actions of each shape of a transition.\<close>

lemma signals_led:
  assumes "apply_action sy res a cx j = Inr (cx', j')"
    and "a \<in> {QWE_LC_ACT_NONE, QWE_LC_ACT_SIGTERM_GROUP, QWE_LC_ACT_ARM_GRACE, QWE_LC_ACT_SIGKILL_GROUP, QWE_LC_ACT_RECORD_JOB}"
  shows "ledger j' = ledger j"
  using assms by (auto simp: apply_action_def Let_def ledger_def outs_def)

lemma quiet_actions_led:
  assumes "apply_actions sy res al cx j = Inr (cx', j')"
    and "set al \<subseteq> {QWE_LC_ACT_NONE, QWE_LC_ACT_SIGTERM_GROUP, QWE_LC_ACT_ARM_GRACE, QWE_LC_ACT_SIGKILL_GROUP, QWE_LC_ACT_RECORD_JOB}"
  shows "ledger j' = ledger j"
  using assms
proof (induction al arbitrary: cx j)
  case (Cons a al)
  then obtain cx1 j1 where "apply_action sy res a cx j = Inr (cx1, j1)" "apply_actions sy res al cx1 j1 = Inr (cx', j')"
    by (auto split: sum.splits)
  with Cons signals_led [of sy res a cx j cx1 j1] show ?case by auto
qed simp

lemma apply_actions_append:
  "apply_actions sy res (xs @ ys) cx j =
     (case apply_actions sy res xs cx j of Inl a \<Rightarrow> Inl a | Inr (cx', j') \<Rightarrow> apply_actions sy res ys cx' j')"
  by (induction xs arbitrary: cx j) (auto split: sum.splits)

text \<open>An action in the middle of actions that do not touch the ledger.\<close>

lemma one_action_led:
  assumes "apply_actions sy res (xs @ a # ys) cx j = Inr (cx', j')"
    and "set xs \<union> set ys \<subseteq> {QWE_LC_ACT_NONE, QWE_LC_ACT_SIGTERM_GROUP, QWE_LC_ACT_ARM_GRACE, QWE_LC_ACT_SIGKILL_GROUP, QWE_LC_ACT_RECORD_JOB}"
  obtains cx1 j1 cx2 j2 where "ledger j1 = ledger j" "apply_action sy res a cx1 j1 = Inr (cx2, j2)" "ledger j' = ledger j2"
proof -
  from assms(1) obtain cx1 j1 cx2 j2 where x: "apply_actions sy res xs cx j = Inr (cx1, j1)"
    and a: "apply_action sy res a cx1 j1 = Inr (cx2, j2)" and y: "apply_actions sy res ys cx2 j2 = Inr (cx', j')"
    by (auto simp: apply_actions_append split: sum.splits)
  from quiet_actions_led [OF x] quiet_actions_led [OF y] assms(2) show thesis by (intro that [OF _ a]) auto
qed

lemma state_facts:
  "waiting_for_empty_group n \<Longrightarrow> n \<notin> {QWE_LC_PENDING, QWE_LC_READY, QWE_LC_BETWEEN_STEPS} \<and> \<not> qwe_lc_state_is_final n"
  "n \<in> running_s \<Longrightarrow> \<not> waiting_for_empty_group n \<and> \<not> qwe_lc_state_is_final n"
  "\<not> waiting_for_empty_group QWE_LC_BETWEEN_STEPS" "\<not> qwe_lc_state_is_final QWE_LC_BETWEEN_STEPS"
  by (cases n; simp add: lcm_defs lc_order lc_pred_defs)+

lemma told_quiet:
  assumes "accounted (s, os, cur, live)" and "waiting_for_empty_group n \<longrightarrow> waiting_for_empty_group s"
    and "qwe_lc_state_is_final n \<longrightarrow> n = s" and "n \<in> {QWE_LC_PENDING, QWE_LC_READY} \<longrightarrow> s \<in> {QWE_LC_PENDING, QWE_LC_READY}"
    and "n \<noteq> QWE_LC_BETWEEN_STEPS"
  shows "accounted (n, os, cur, live)"
  using assms by auto

lemma told_record:
  assumes "apply_actions sy res (xs @ QWE_LC_ACT_RECORD_STEP # ys) cx j = Inr (cx', j')"
    and "set xs \<union> set ys \<subseteq> {QWE_LC_ACT_NONE, QWE_LC_ACT_SIGTERM_GROUP, QWE_LC_ACT_ARM_GRACE, QWE_LC_ACT_SIGKILL_GROUP, QWE_LC_ACT_RECORD_JOB}"
    and "ledger j = (n, os, cur, live)" and "accounted (s, os, cur, live)" and "waiting_for_empty_group n"
  shows "books_ok j'"
proof -
  obtain cx1 j1 cx2 j2 where l: "ledger j1 = ledger j" and a: "apply_action sy res QWE_LC_ACT_RECORD_STEP cx1 j1 = Inr (cx2, j2)"
    and l': "ledger j' = ledger j2" by (rule one_action_led [OF assms(1,2)]) (rule that)
  have "ledger j' = (n, map_option (\<lambda>bs. bs[cur := True]) os, cur, live)"
    using record_step_led [of sy res cx1 j1 cx2 j2] a l l' assms(3) by (simp add: ledger_def)
  moreover have "n \<notin> {QWE_LC_PENDING, QWE_LC_READY, QWE_LC_BETWEEN_STEPS}" "\<not> qwe_lc_state_is_final n"
    using state_facts(1) [OF assms(5)] by simp_all
  ultimately show ?thesis using accounted_recorded [OF assms(4)] by auto
qed

lemma ledger_reason: "ledger (j\<lparr>jb_reason := r\<rparr>) = ledger j"
  by (simp add: ledger_def outs_def)

lemma told_end:
  assumes "apply_actions sy res [QWE_LC_ACT_RECORD_JOB, QWE_LC_ACT_END_JOB, QWE_LC_ACT_NONE, QWE_LC_ACT_NONE] cx j = Inr (cx', j')"
    and "ledger j = (n, os, cur, live)" and "accounted (s, os, cur, live)" and "qwe_lc_state_is_final n" and "live < 0"
  shows "books_ok j'"
proof -
  have "job_end sy cx (j\<lparr>jb_reason := r_reason res\<rparr>) = Inr (cx', j')"
    using assms(1) by (auto simp: apply_action_def split: sum.splits)
  then show ?thesis
  proof (rule job_end_told)
    show "qwe_lc_state_is_final (jb_state (j\<lparr>jb_reason := r_reason res\<rparr>))" using assms(2,4) by (simp add: ledger_def)
    show "bs ! i" if "outs (j\<lparr>jb_reason := r_reason res\<rparr>) = Some bs" "i < length bs"
        "i < jr_cur (j\<lparr>jb_reason := r_reason res\<rparr>) \<or> i = jr_cur (j\<lparr>jb_reason := r_reason res\<rparr>) \<and> 0 \<le> jr_live_step (j\<lparr>jb_reason := r_reason res\<rparr>)"
      for bs i
      using that assms(2,3,5) ledger_reason [where j = j] accountedD [of s bs cur live i] by (auto simp: ledger_def)
  qed
qed

lemma told_start_failed:
  assumes "apply_actions sy res [QWE_LC_ACT_RECORD_STEP, QWE_LC_ACT_RECORD_JOB, QWE_LC_ACT_END_JOB, QWE_LC_ACT_NONE] cx j = Inr (cx', j')"
    and "ledger j = (n, os, cur, live)" and "accounted (s, os, cur, live)" and "qwe_lc_state_is_final n"
  shows "books_ok j'"
proof -
  obtain cx1 j1 where r: "record_step sy res cx j = (cx1, j1)" by (cases "record_step sy res cx j")
  have "job_end sy cx1 (j1\<lparr>jb_reason := r_reason res\<rparr>) = Inr (cx', j')"
    using assms(1) r by (auto simp: apply_action_def split: sum.splits)
  then show ?thesis
  proof (rule job_end_told)
    let ?j = "j1\<lparr>jb_reason := r_reason res\<rparr>"
    have l: "ledger ?j = (n, map_option (\<lambda>bs. bs[cur := True]) os, cur, live)"
      using record_step_led [OF r] assms(2) ledger_reason [where j = j1] by (simp add: ledger_def)
    show "qwe_lc_state_is_final (jb_state ?j)" using l assms(4) by (simp add: ledger_def)
    show "bs ! i" if "outs ?j = Some bs" "i < length bs" "i < jr_cur ?j \<or> i = jr_cur ?j \<and> 0 \<le> jr_live_step ?j" for bs i
      using l that accounted_recorded [OF assms(3), of bs i] by (auto simp: ledger_def)
  qed
qed

lemma told_start:
  assumes "apply_actions sy res [QWE_LC_ACT_START_JOB, QWE_LC_ACT_NONE, QWE_LC_ACT_NONE, QWE_LC_ACT_NONE] cx j = Inr (cx', j')"
    and "ledger j = (QWE_LC_BETWEEN_STEPS, os, cur, live)" and "accounted (QWE_LC_READY, os, cur, live)"
  shows "books_ok j'"
proof -
  have "job_start sy cx j = Inr (cx', j')"
    using assms(1) by (auto split: sum.splits)
  from job_start_led [OF this] assms(2,3) show ?thesis by (auto simp: ledger_def state_facts(3,4))
qed

lemma told_spawn:
  assumes "apply_actions sy res [QWE_LC_ACT_SPAWN_STEP, QWE_LC_ACT_NONE, QWE_LC_ACT_NONE, QWE_LC_ACT_NONE] cx j = Inr (cx', j')"
    and "ledger j = (n, os, cur, live)" and "accounted (s, os, cur, live)" and "n \<in> running_s"
  shows "books_ok j'"
proof -
  have "step_spawn sy cx j = Inr (cx', j')" using assms(1) by (auto split: sum.splits prod.splits)
  from step_spawn_led [OF this] assms(2-4) state_facts(2) [OF assms(4)] show ?thesis by (auto simp: ledger_def)
qed

lemma group_empty_told:
  assumes f: "step_finish sy cx j2 = Inr (cx3, j3)" and b: "apply_actions sy res (r_actions res) cx3 j3 = Inr (cx', j')"
    and r: "qwe_lc_lookup s QWE_LC_EV_GROUP_EMPTY p = Inr res"
    and l: "ledger j2 = (r_next res, os, cur, live)" and t: "accounted (s, os, cur, live)"
  shows "books_ok j'"
proof -
  have sh: "waiting_for_empty_group s \<and> (r_actions res = none4 \<and> r_next res = QWE_LC_BETWEEN_STEPS
      \<or> r_actions res = [QWE_LC_ACT_RECORD_JOB, QWE_LC_ACT_END_JOB, QWE_LC_ACT_NONE, QWE_LC_ACT_NONE] \<and> qwe_lc_state_is_final (r_next res))"
    using lookup_shape [OF r] by (auto simp: lc_shape_def)
  define cur' where "cur' = (if live < 0 then cur else Suc cur)"
  define live' where "live' = (if live < 0 then live else -1)"
  have l3: "ledger j3 = (r_next res, os, cur', live')"
    using step_finish_led [OF f] l by (auto simp: ledger_def cur'_def live'_def)
  have live: "live' < 0" by (simp add: live'_def)
  have cur: "bs ! i" if "os = Some bs" "i < length bs" "i < cur'" for bs i
    using t sh that by (auto simp: cur'_def less_Suc_eq split: if_splits)
  then have t': "accounted (QWE_LC_BETWEEN_STEPS, os, cur', live')"
    using live by (simp add: state_facts(3,4))
  show ?thesis
  proof (cases "r_actions res = none4")
    case True
    then have "ledger j' = ledger j3" using quiet_actions_led [OF b] by (auto simp: none4_def)
    with l3 t' True sh show ?thesis by (auto simp: none4_def)
  next
    case False
    with sh have h: "r_actions res = [QWE_LC_ACT_RECORD_JOB, QWE_LC_ACT_END_JOB, QWE_LC_ACT_NONE, QWE_LC_ACT_NONE]"
      "qwe_lc_state_is_final (r_next res)" by auto
    from told_end [OF b [unfolded h(1)] l3 t' h(2) live] show ?thesis .
  qed
qed

lemma other_event_told:
  assumes b: "apply_actions sy res (r_actions res) cx j2 = Inr (cx', j')" and r: "qwe_lc_lookup s ev p = Inr res"
    and l: "ledger j2 = (r_next res, os, cur, live)" and t: "accounted (s, os, cur, live)" and ne: "ev \<noteq> QWE_LC_EV_GROUP_EMPTY"
  shows "books_ok j'"
  using lookup_shape [OF r] unfolding lc_shape_def
proof (elim disjE conjE)
  assume "r_actions res = none4" "r_next res = s"
  with quiet_actions_led [OF b] l t show ?thesis by (simp add: none4_def del: accounted.simps)
next
  assume h: "r_actions res = none4" "s = QWE_LC_PENDING" "r_next res = QWE_LC_READY"
  then have "accounted (r_next res, os, cur, live)" using t by (auto simp: lcm_defs lc_order lc_pred_defs)
  with quiet_actions_led [OF b] l h(1) show ?thesis by (simp add: none4_def del: accounted.simps)
next
  assume h: "r_actions res = none4" "waiting_for_empty_group s" "waiting_for_empty_group (r_next res)"
  then have "accounted (r_next res, os, cur, live)"
    by (intro told_quiet [OF t]) (auto simp: lcm_defs lc_order lc_pred_defs)
  with quiet_actions_led [OF b] l h(1) show ?thesis by (simp add: none4_def del: accounted.simps)
next
  assume "ev = QWE_LC_EV_GROUP_EMPTY" then show ?thesis using ne by simp
next
  assume h: "r_actions res = [QWE_LC_ACT_RECORD_JOB, QWE_LC_ACT_END_JOB, QWE_LC_ACT_NONE, QWE_LC_ACT_NONE]"
    "qwe_lc_state_is_final (r_next res)" "s \<in> {QWE_LC_PENDING, QWE_LC_READY, QWE_LC_BETWEEN_STEPS}"
  with t have "live < 0" by auto
  with told_end [OF b [unfolded h(1)] l t h(2)] show ?thesis .
next
  assume "r_actions res = [QWE_LC_ACT_START_JOB, QWE_LC_ACT_NONE, QWE_LC_ACT_NONE, QWE_LC_ACT_NONE]"
    "s = QWE_LC_READY" "r_next res = QWE_LC_BETWEEN_STEPS"
  with told_start b l t show ?thesis by metis
next
  assume h: "r_actions res = [QWE_LC_ACT_SPAWN_STEP, QWE_LC_ACT_NONE, QWE_LC_ACT_NONE, QWE_LC_ACT_NONE]" "r_next res \<in> running_s"
  from told_spawn [OF b [unfolded h(1)] l t h(2)] show ?thesis .
next
  assume h: "r_actions res = [QWE_LC_ACT_SIGTERM_GROUP, QWE_LC_ACT_ARM_GRACE, QWE_LC_ACT_RECORD_STEP, QWE_LC_ACT_NONE]"
    "waiting_for_empty_group (r_next res)"
  show ?thesis
    by (rule told_record [where xs = "[QWE_LC_ACT_SIGTERM_GROUP, QWE_LC_ACT_ARM_GRACE]" and ys = "[QWE_LC_ACT_NONE]", OF _ _ l t h(2)])
      (use b h(1) in simp_all)
next
  assume h: "r_actions res = [QWE_LC_ACT_SIGTERM_GROUP, QWE_LC_ACT_ARM_GRACE, QWE_LC_ACT_NONE, QWE_LC_ACT_NONE]"
    "r_next res \<in> {QWE_LC_STEP_STOPPING, QWE_LC_STEP_STOPPING_COE}"
  then have "accounted (r_next res, os, cur, live)"
    by (intro told_quiet [OF t]) (auto simp: lcm_defs lc_order lc_pred_defs)
  with quiet_actions_led [OF b] l h(1) show ?thesis by (simp del: accounted.simps)
next
  assume h: "r_actions res = [QWE_LC_ACT_RECORD_STEP, QWE_LC_ACT_NONE, QWE_LC_ACT_NONE, QWE_LC_ACT_NONE]"
    "waiting_for_empty_group (r_next res)"
  show ?thesis
    by (rule told_record [where xs = "[]" and ys = "[QWE_LC_ACT_NONE, QWE_LC_ACT_NONE, QWE_LC_ACT_NONE]", OF _ _ l t h(2)])
      (use b h(1) in simp_all)
next
  assume h: "r_actions res = [QWE_LC_ACT_SIGKILL_GROUP, QWE_LC_ACT_NONE, QWE_LC_ACT_NONE, QWE_LC_ACT_NONE]"
    "step_in_flight (r_next res)" "waiting_for_empty_group (r_next res) = waiting_for_empty_group s"
  then have "accounted (r_next res, os, cur, live)"
    by (intro told_quiet [OF t]) (auto simp: lcm_defs lc_order lc_pred_defs)
  with quiet_actions_led [OF b] l h(1) show ?thesis by (simp del: accounted.simps)
next
  assume h: "r_actions res = [QWE_LC_ACT_RECORD_STEP, QWE_LC_ACT_RECORD_JOB, QWE_LC_ACT_END_JOB, QWE_LC_ACT_NONE]"
    "r_next res = QWE_LC_FAILED"
  then have "qwe_lc_state_is_final (r_next res)" by (simp add: lc_pred_defs lc_order)
  from told_start_failed [OF b [unfolded h(1)] l t this] show ?thesis .
qed (use ne quiet_actions_led [OF b] l t in \<open>simp_all add: none4_def del: accounted.simps\<close>)

lemma act_on_told:
  assumes "act_on sy ev res cx j2 = Inr (cx', j')" and r: "qwe_lc_lookup s ev p = Inr res"
    and l: "ledger j2 = (r_next res, os, cur, live)" and t: "accounted (s, os, cur, live)"
  shows "books_ok j'"
proof (cases "ev = QWE_LC_EV_GROUP_EMPTY")
  case True
  with assms(1) obtain cx3 j3 where "step_finish sy cx j2 = Inr (cx3, j3)" "apply_actions sy res (r_actions res) cx3 j3 = Inr (cx', j')"
    by (auto simp: act_on_def split: sum.splits)
  from group_empty_told [OF this _ l t] r True show ?thesis by blast
next
  case False
  with assms(1) have "apply_actions sy res (r_actions res) cx j2 = Inr (cx', j')" by (simp add: act_on_def)
  from other_event_told [OF this r l t False] show ?thesis .
qed

lemma dispatch_told:
  assumes "dispatch_one sy ev pl es cx j = Inr (cx', j')" and "books_ok j"
  shows "books_ok j'"
proof (cases "qwe_lc_event_is_stale (jb_state j) ev es (jr_live_step j)")
  case True
  with dispatch_one_stale [OF True, of sy pl cx] assms show ?thesis by auto
next
  case False
  have lr: "jr_last_reason (note_told ev j) = jr_last_reason j" by (simp add: note_told_def Let_def)
  obtain res where r: "qwe_lc_lookup (jb_state j) ev (pl\<lparr>pl_carried := jr_last_reason j\<rparr>) = Inr res"
    using assms(1) False by (auto simp: dispatch_one_def Let_def lr split: sum.splits)
  then have "ev \<in> qwe_lcm_events (jb_state j)" using qwe_lc_lookup_Inr_iff by blast
  then obtain res2 cx2 j2 where d: "dispatch_one sy ev pl es cx j = act_on sy ev res2 cx2 j2"
    and r2: "qwe_lc_lookup (jb_state j) ev (pl\<lparr>pl_carried := jr_last_reason j\<rparr>) = Inr res2"
    and c: "core j2 = (r_next res2, jb_specs j, jr_leader_reaped j, jr_timeout_told j \<or> ev = QWE_LC_EV_JOB_TIMEOUT,
          jr_cancel_told j \<or> ev = QWE_LC_EV_CANCEL, jr_cur j, jr_live_step j, jr_followup j, jb_id j)"
    and st: "jb_steps j2 = jb_steps j"
    using dispatch_one_eq [OF False, of sy pl cx] by blast
  have "ledger j2 = (r_next res2, outs j, jr_cur j, jr_live_step j)"
    using c st by (simp add: ledger_def outs_def core_def)
  moreover have "accounted (jb_state j, outs j, jr_cur j, jr_live_step j)" using assms(2) by (simp only: ledger_def)
  ultimately show ?thesis using act_on_told [OF _ r2] assms(1) d by simp
qed

section \<open>The handlers\<close>

text \<open>The relation the loop steps with: forward, and nothing that was accounted for is lost.\<close>

definition forward :: "job \<Rightarrow> job \<Rightarrow> bool" where
  "forward j j' \<longleftrightarrow> stable j j' \<and> (books_ok j \<longrightarrow> books_ok j')"

lemma forward_refl [simp]: "forward j j"
  by (simp add: forward_def)

lemma forward_trans: "forward a b \<Longrightarrow> forward b c \<Longrightarrow> forward a c"
  unfolding forward_def using stable_trans by blast

lemma forward_stable: "forward j j' \<Longrightarrow> stable j j'"
  by (simp add: forward_def)

lemma forward_led: "stable j j' \<Longrightarrow> ledger j' = ledger j \<Longrightarrow> forward j j'"
  by (simp add: forward_def)

lemma forward_timers [simp]:
  "forward j (j\<lparr>jr_timer := t\<rparr>)" "forward j (j\<lparr>jr_step_timer := t\<rparr>)" "forward j (j\<lparr>jr_grace_timer := t\<rparr>)"
  "forward j (j\<lparr>jr_leader_reaped := b\<rparr>)" "forward j (j\<lparr>jr_followup := f\<rparr>)"
  by (rule forward_led; simp add: stable_def ledger_def outs_def)+

lemma dispatch_forward: "dispatch_one sy ev pl es cx j = Inr (cx', j') \<Longrightarrow> forward j j' \<and> heard ev j j'"
  unfolding forward_def using dispatch_stable dispatch_told by blast

lemma between_steps_event_forward:
  assumes "between_steps_event sy cx j = (e, cx1, j1)"
  shows "forward j j1"
proof (rule forward_led)
  show "stable j j1" using between_steps_event_stable [OF assms] .
  show "ledger j1 = ledger j"
    using assms by (auto simp: between_steps_event_def ledger_def outs_def split: prod.splits if_splits)
qed

lemma owed_loop_forward: "owed_loop f sy cx j = Some (Inr (cx', j')) \<Longrightarrow> forward j j'"
proof (induction f arbitrary: cx j)
  case (Suc f)
  show ?case
  proof (cases "jr_followup j")
    case (Some ev)
    with Suc.prems obtain cx1 j1 where d: "dispatch_one sy ev no_payload (-1) cx (j\<lparr>jr_followup := None\<rparr>) = Inr (cx1, j1)"
      and r: "owed_loop f sy cx1 j1 = Some (Inr (cx', j'))"
      by (auto split: sum.splits)
    have "forward j (j\<lparr>jr_followup := None\<rparr>)" by simp
    with Suc.IH [OF r] dispatch_forward [OF d] show ?thesis by (meson forward_trans)
  next
    case None
    show ?thesis
    proof (cases "jb_state j = QWE_LC_BETWEEN_STEPS")
      case True
      obtain ev pl cx1 j1 where b: "between_steps_event sy cx j = ((ev, pl), cx1, j1)" by (metis prod.collapse)
      with Suc.prems None True obtain cx2 j2 where d: "dispatch_one sy ev pl (-1) cx1 j1 = Inr (cx2, j2)"
        and r: "owed_loop f sy cx2 j2 = Some (Inr (cx', j'))"
        by (auto split: sum.splits)
      with Suc.IH [OF r] between_steps_event_forward [OF b] dispatch_forward [OF d] show ?thesis by (meson forward_trans)
    next
      case False
      with Suc.prems None show ?thesis by simp
    qed
  qed
qed simp

lemma job_send_forward:
  assumes "job_send sy ev pl es cx j = Some (Inr (cx', j'))"
  shows "forward j j' \<and> heard ev j j'"
proof -
  from assms obtain cx1 j1 where d: "dispatch_one sy ev pl es cx j = Inr (cx1, j1)"
    and o: "owed_loop OWED_TURNS sy cx1 j1 = Some (Inr (cx', j'))"
    by (auto simp: job_send_def split: sum.splits)
  with dispatch_forward [OF d] owed_loop_forward [OF o] show ?thesis
    by (meson forward_trans heard_stable forward_stable)
qed

end
