(* ===== verification/Engine_Memory.thy ===== *)
theory Engine_Memory
  imports Engine_Run
begin

text \<open>
  The engine stops for want of memory only when an allocation failed: whichever of its functions ends
  the program with \<open>Out_of_memory\<close>, in whatever state, the allocator has an answer that is no.
\<close>

definition short_of_memory :: "(nat \<Rightarrow> bool) \<Rightarrow> bool" where
  "short_of_memory ok \<longleftrightarrow> (\<exists>k. \<not> ok k)"

lemma shortI: "\<not> ok k \<Longrightarrow> short_of_memory ok"
  by (auto simp: short_of_memory_def)

section \<open>Output\<close>

lemma sink_write_loop_short: "sink_write_loop ok cs s tm k = None \<Longrightarrow> short_of_memory ok"
  by (induction cs arbitrary: s tm k) (auto simp: emit_line_def intro: shortI split: if_splits)

lemma sink_write_short: "qwe_sink_write ok s tm d k = None \<Longrightarrow> short_of_memory ok"
  unfolding qwe_sink_write_def by (rule sink_write_loop_short)

lemma emit_loop_short: "emit_loop ok st = None \<Longrightarrow> short_of_memory ok"
proof (induction ok st rule: emit_loop.induct)
  case (1 ok st)
  obtain got ring' where q: "qwe_ring_read (os_ring st) CHUNK = (got, ring')" by (cases "qwe_ring_read (os_ring st) CHUNK")
  show ?case
  proof (cases "qwe_sink_write ok (os_sink st) (os_term st) got (os_k st)")
    case None
    then show ?thesis by (rule sink_write_short)
  next
    case (Some x)
    then obtain s' tm' k' where x: "qwe_sink_write ok (os_sink st) (os_term st) got (os_k st) = Some (s', tm', k')" by (cases x) auto
    have "got \<noteq> []" using 1(2) q by (subst (asm) emit_loop.simps) auto
    with 1(2) q x have "emit_loop ok (st\<lparr>os_ring := ring', os_sink := s', os_term := tm', os_k := k'\<rparr>) = None"
      by (subst (asm) emit_loop.simps) simp
    with 1(1) q x \<open>got \<noteq> []\<close> show ?thesis by simp
  qed
qed

lemma emit_short: "emit ok d st = None \<Longrightarrow> short_of_memory ok"
  by (auto simp: emit_def Let_def split: option.splits if_splits dest: emit_loop_short sink_write_short)

lemma drain_short: "drain ok ss rs st = None \<Longrightarrow> short_of_memory ok"
proof (induction rs arbitrary: st)
  case (Cons x rs)
  then show ?case by (cases x) (auto simp: Let_def split: prod.splits option.splits if_splits dest: emit_short)
qed simp

lemma drain_flush_short: "drain_flush ok st = None \<Longrightarrow> short_of_memory ok"
  by (auto simp: drain_flush_def Let_def split: prod.splits if_splits dest: emit_short)

lemma sink_close_short: "qwe_sink_close ok s tm k = None \<Longrightarrow> short_of_memory ok"
  by (auto simp: qwe_sink_close_def emit_line_def intro: shortI split: if_splits)

lemma xallocs_short: "xallocs ok n k = None \<Longrightarrow> short_of_memory ok"
  by (induction n arbitrary: k) (auto intro: shortI split: if_splits)

lemmas output_short = drain_short drain_flush_short sink_close_short xallocs_short

section \<open>One job\<close>

lemma run_drain_short: "run_drain sy cx j = Inl Out_of_memory \<Longrightarrow> short_of_memory (sy_alloc sy)"
  by (auto simp: run_drain_def split: prod.splits option.splits dest: output_short)

lemma run_drain_flush_short: "run_drain_flush sy cx j = Inl Out_of_memory \<Longrightarrow> short_of_memory (sy_alloc sy)"
  by (auto simp: run_drain_flush_def split: option.splits dest: output_short)

lemma job_release_short: "job_release sy cx j = Inl Out_of_memory \<Longrightarrow> short_of_memory (sy_alloc sy)"
  by (auto simp: job_release_def Let_def split: prod.splits option.splits sum.splits if_splits dest: output_short)

lemma job_start_short: "job_start sy cx j = Inl Out_of_memory \<Longrightarrow> short_of_memory (sy_alloc sy)"
  by (auto simp: job_start_def Let_def intro: shortI split: prod.splits option.splits sum.splits if_splits dest: output_short job_release_short)

lemma step_spawn_short: "step_spawn sy cx j = Inl Out_of_memory \<Longrightarrow> short_of_memory (sy_alloc sy)"
  by (auto simp: step_spawn_def intro: shortI split: prod.splits option.splits if_splits dest: output_short)

lemma step_finish_short: "step_finish sy cx j = Inl Out_of_memory \<Longrightarrow> short_of_memory (sy_alloc sy)"
  by (auto simp: step_finish_def Let_def split: prod.splits sum.splits if_splits dest: run_drain_short run_drain_flush_short)

lemma job_end_short: "job_end sy cx j = Inl Out_of_memory \<Longrightarrow> short_of_memory (sy_alloc sy)"
  by (auto simp: job_end_def split: prod.splits option.splits sum.splits dest: output_short step_finish_short job_release_short)

lemma apply_action_short: "apply_action sy res a cx j = Inl Out_of_memory \<Longrightarrow> short_of_memory (sy_alloc sy)"
  by (cases a) (auto simp: apply_action_def Let_def dest: job_start_short step_spawn_short job_end_short)

lemma apply_actions_short: "apply_actions sy res al cx j = Inl Out_of_memory \<Longrightarrow> short_of_memory (sy_alloc sy)"
  by (induction al arbitrary: cx j) (auto split: sum.splits dest: apply_action_short)

lemma dispatch_one_short: "dispatch_one sy ev pl es cx j = Inl Out_of_memory \<Longrightarrow> short_of_memory (sy_alloc sy)"
  by (auto simp: dispatch_one_def Let_def split: prod.splits sum.splits if_splits dest: step_finish_short apply_actions_short)

lemma owed_loop_short: "owed_loop f sy cx j = Some (Inl Out_of_memory) \<Longrightarrow> short_of_memory (sy_alloc sy)"
  by (induction f arbitrary: cx j) (auto split: prod.splits sum.splits option.splits if_splits dest: dispatch_one_short)

lemma job_send_short: "job_send sy ev pl es cx j = Some (Inl Out_of_memory) \<Longrightarrow> short_of_memory (sy_alloc sy)"
  by (auto simp: job_send_def split: sum.splits dest: dispatch_one_short owed_loop_short)

lemma job_send_plain_short: "job_send_plain sy ev es cx j = Some (Inl Out_of_memory) \<Longrightarrow> short_of_memory (sy_alloc sy)"
  unfolding job_send_plain_def by (rule job_send_short)

lemma reap_leader_short: "reap_leader sy st cx j = Some (Inl Out_of_memory) \<Longrightarrow> short_of_memory (sy_alloc sy)"
  by (auto simp: reap_leader_def split: prod.splits dest: job_send_short)

lemma step_timer_event_short:
  "step_timer_event sy get put ev step cx j = Some (Inl Out_of_memory) \<Longrightarrow> short_of_memory (sy_alloc sy)"
  by (auto simp: step_timer_event_def split: prod.splits if_splits dest: job_send_plain_short)

lemma job_event_short: "job_event sy kind step cx j = Some (Inl Out_of_memory) \<Longrightarrow> short_of_memory (sy_alloc sy)"
  by (cases kind) (auto simp: job_event_def split: prod.splits sum.splits if_splits
      dest: run_drain_short step_timer_event_short job_send_plain_short)

section \<open>The jobs of a run\<close>

lemma on_job_short:
  assumes "on_job i f cx js = Some (Inl Out_of_memory)" "\<And>cx j. f cx j = Some (Inl Out_of_memory) \<Longrightarrow> A"
  shows A
  using assms by (auto simp: on_job_def split: option.splits sum.splits)

lemma for_jobs_short:
  assumes "for_jobs is h cx js = Some (Inl Out_of_memory)" "\<And>i cx js. h i cx js = Some (Inl Out_of_memory) \<Longrightarrow> A"
  shows A
  using assms(1) by (induction "is" arbitrary: cx js) (auto split: option.splits sum.splits dest: assms(2))

lemma cancel_one_short: "cancel_one sy i cx js = Some (Inl Out_of_memory) \<Longrightarrow> short_of_memory (sy_alloc sy)"
  by (auto simp: cancel_one_def split: if_splits elim!: on_job_short dest: job_send_plain_short)

lemma broadcast_cancel_short: "broadcast_cancel sy cx js = (b, Some (Inl Out_of_memory)) \<Longrightarrow> short_of_memory (sy_alloc sy)"
  by (auto simp: broadcast_cancel_def split: if_splits elim!: for_jobs_short dest: cancel_one_short)

lemma skip_disabled_short: "skip_disabled sy cx js = Some (Inl Out_of_memory) \<Longrightarrow> short_of_memory (sy_alloc sy)"
  by (auto simp: skip_disabled_def skip_one_def split: if_splits elim!: for_jobs_short on_job_short dest: job_send_short)

lemma send_events_short: "send_events sy es cx js = Some (Inl Out_of_memory) \<Longrightarrow> short_of_memory (sy_alloc sy)"
  by (induction es arbitrary: cx js)
    (auto split: option.splits sum.splits elim!: on_job_short dest: job_send_plain_short)

lemma sched_rounds_short: "sched_rounds f sy needs groups mp caps cx js = Some (Inl Out_of_memory) \<Longrightarrow> short_of_memory (sy_alloc sy)"
  by (induction f arbitrary: cx js)
    (auto simp: Let_def split: option.splits sum.splits if_splits dest: send_events_short)

lemma sched_and_cancel_short:
  "sched_and_cancel f sy needs groups mp caps cx js = Some (Inl Out_of_memory) \<Longrightarrow> short_of_memory (sy_alloc sy)"
  by (induction f arbitrary: cx js)
    (auto simp del: sched_rounds.simps split: prod.splits option.splits sum.splits if_splits dest: sched_rounds_short broadcast_cancel_short)

lemma loop_head_short: "loop_head sy needs groups mp caps cx js = Some (Inl Out_of_memory) \<Longrightarrow> short_of_memory (sy_alloc sy)"
  by (auto simp: loop_head_def simp del: sched_and_cancel.simps split: prod.splits option.splits sum.splits dest: broadcast_cancel_short sched_and_cancel_short)

lemma group_check_short: "group_check sy i cx js = Some (Inl Out_of_memory) \<Longrightarrow> short_of_memory (sy_alloc sy)"
  by (auto simp: group_check_def Let_def split: prod.splits if_splits elim!: on_job_short dest: job_send_plain_short)

lemma reap_exits_short: "reap_exits sy es cx js = Some (Inl Out_of_memory) \<Longrightarrow> short_of_memory (sy_alloc sy)"
  by (induction es arbitrary: cx js)
    (auto simp: reap_one_def split: option.splits sum.splits elim!: on_job_short dest: reap_leader_short)

lemma reap_children_short: "reap_children sy es cx js = Some (Inl Out_of_memory) \<Longrightarrow> short_of_memory (sy_alloc sy)"
  by (auto simp: reap_children_def split: option.splits sum.splits elim!: for_jobs_short dest: reap_exits_short group_check_short)

lemma handle_tag_short: "handle_tag sy tg cx js = Some (Inl Out_of_memory) \<Longrightarrow> short_of_memory (sy_alloc sy)"
  by (auto simp: handle_tag_def split: prod.splits option.splits evkind.splits elim!: on_job_short dest: reap_children_short job_event_short)

lemma handle_tags_short: "handle_tags sy ts cx js = Some (Inl Out_of_memory) \<Longrightarrow> short_of_memory (sy_alloc sy)"
  by (induction ts arbitrary: cx js) (auto split: option.splits sum.splits dest: handle_tag_short)

lemma run_loop_short: "run_loop f sy needs groups mp caps cx js = Some (Inl Out_of_memory) \<Longrightarrow> short_of_memory (sy_alloc sy)"
  by (induction f arbitrary: cx js)
    (auto split: prod.splits option.splits sum.splits loop_state.splits dest: loop_head_short handle_tags_short)

lemma run_all_short: "run_all turns sy mp cx js = Some (Inl Out_of_memory) \<Longrightarrow> short_of_memory (sy_alloc sy)"
  by (auto simp: run_all_def Let_def split: prod.splits option.splits sum.splits
      dest: output_short skip_disabled_short run_loop_short)

end
