(* ===== verification/Engine_Safety.thy ===== *)
theory Engine_Safety
  imports Outcomes Engine_Memory
begin

text \<open>
  What the handlers of the event loop promise, as one contract (\<open>job_handler\<close>) that every
  handler of a single job is shown to meet, and the safety of the loop built on it: whatever the
  system answers, no handler meets an event its job's state cannot have, none runs out of its
  bound, and what a job holds always fits the state it is in.
\<close>

section \<open>The contract of a handler\<close>

definition goods :: "(engine_abort + 'w run_ctx \<times> job list) \<Rightarrow> (job list \<Rightarrow> bool) \<Rightarrow> bool" where
  "goods r P \<longleftrightarrow> (case r of Inl a \<Rightarrow> a = Out_of_memory | Inr (cx, js) \<Rightarrow> P js)"

lemma goods_mono: "goods r P \<Longrightarrow> (\<And>js. P js \<Longrightarrow> Q js) \<Longrightarrow> goods r Q"
  by (auto simp: goods_def split: sum.splits)

text \<open>A step of the whole run: every job is settled again and has moved forward.\<close>

definition run_moved :: "job list \<Rightarrow> job list \<Rightarrow> bool" where
  "run_moved js js' \<longleftrightarrow> list_all settled js' \<and> list_all2 forward js js'"

lemma list_all2_forward_refl [simp]: "list_all2 forward js js"
  by (simp add: list_all2_refl)

lemma run_moved_refl: "list_all settled js \<Longrightarrow> run_moved js js"
  by (simp add: run_moved_def)

lemma run_moved_trans: "run_moved a b \<Longrightarrow> run_moved b c \<Longrightarrow> run_moved a c"
  unfolding run_moved_def using list_all2_trans [of forward forward forward a b c] forward_trans by blast

lemma run_moved_update:
  assumes "list_all settled js" "i < length js" "settled j'" "forward (js ! i) j'"
  shows "run_moved js (js[i := j'])"
  using assms unfolding run_moved_def list_all2_conv_all_nth list_all_length
  by (auto simp: nth_list_update)

lemma run_moved_length: "run_moved js js' \<Longrightarrow> length js' = length js"
  by (auto simp: run_moved_def dest: list_all2_lengthD)

locale job_handler =
  fixes pre :: "job \<Rightarrow> bool"
    and post :: "job \<Rightarrow> job \<Rightarrow> bool"
    and h :: "'w run_ctx \<Rightarrow> job \<Rightarrow> (engine_abort + 'w run_ctx \<times> job) option"
  assumes handled: "settled j \<Longrightarrow> pre j \<Longrightarrow> \<exists>r. h cx j = Some r \<and> good r settled"
    and moved: "h cx j = Some (Inr (cx', j')) \<Longrightarrow> forward j j' \<and> post j j'"
begin

text \<open>On the list of jobs only the job addressed changes, and it stays within the contract.\<close>

lemma on_job_update:
  assumes "list_all settled js" "i < length js" "pre (js ! i)"
  shows "\<exists>r. on_job i h cx js = Some r
    \<and> goods r (\<lambda>js'. \<exists>j'. js' = js[i := j'] \<and> settled j' \<and> forward (js ! i) j' \<and> post (js ! i) j')"
proof -
  have "settled (js ! i)" using assms by (simp add: list_all_length)
  then obtain r where r: "h cx (js ! i) = Some r" "good r settled" using handled assms(3) by blast
  show ?thesis
  proof (cases r)
    case (Inl a)
    with r show ?thesis by (simp add: on_job_def goods_def good_def)
  next
    case (Inr x)
    with r obtain cx' j' where "h cx (js ! i) = Some (Inr (cx', j'))" "settled j'" by (cases x) (auto simp: good_def)
    with moved show ?thesis by (auto simp: on_job_def goods_def)
  qed
qed

lemma on_job_moved:
  assumes "list_all settled js" "i < length js" "pre (js ! i)"
  shows "\<exists>r. on_job i h cx js = Some r \<and> goods r (run_moved js)"
  using on_job_update [OF assms, of cx] run_moved_update [OF assms(1,2)] by (blast intro: goods_mono)

end

section \<open>The handlers meet it\<close>

lemma job_ok_frame: "frame j j' \<Longrightarrow> job_ok told j' = job_ok told j"
  by (simp add: frame_def frame_defs job_ok_def waiting_def flight_def between_def ended_def)

lemma settled_frame: "frame j j' \<Longrightarrow> settled j' = settled j"
  using job_ok_frame [of j j' False] by (simp add: settled_def frame_def core_def)

lemma settled_live:
  assumes "settled j" "0 \<le> jr_live_step j"
  shows "step_in_flight (jb_state j) \<and> flight False j"
proof -
  have "jb_state j \<in> {QWE_LC_PENDING, QWE_LC_READY} \<or> jb_state j = QWE_LC_BETWEEN_STEPS
      \<or> step_in_flight (jb_state j) \<or> qwe_lc_state_is_final (jb_state j)"
    by (cases "jb_state j") (simp_all add: lcm_defs lc_order lc_pred_defs)
  with assms show ?thesis
    by (auto simp: settled_def job_ok_def waiting_def ended_def)
qed

text \<open>Which events may be sent when: to a job in a state that has them, or stale.\<close>

definition sendable :: "qwe_lc_event \<Rightarrow> int \<Rightarrow> job \<Rightarrow> bool" where
  "sendable ev es j \<longleftrightarrow>
     (qwe_lc_event_is_stale (jb_state j) ev es (jr_live_step j) \<or> ev \<in> qwe_lcm_events (jb_state j))
     \<and> (ev = QWE_LC_EV_STEP_TIMEOUT \<longrightarrow> es = jr_live_step j \<longrightarrow> tm_fired (jr_step_timer j))
     \<and> (ev = QWE_LC_EV_GRACE_EXPIRED \<longrightarrow> es = jr_live_step j \<longrightarrow> tm_fired (jr_grace_timer j))
     \<and> ev \<notin> {QWE_LC_EV_START_FAILED, QWE_LC_EV_NEXT_STEP}"

lemma job_send_sendable:
  "settled j \<Longrightarrow> sendable ev es j \<Longrightarrow> \<exists>r. job_send sy ev pl es cx j = Some r \<and> good r settled"
  by (intro job_send_good [where told = False]) (auto simp: settled_def sendable_def)

interpretation send: job_handler "sendable ev es" "heard ev" "job_send sy ev pl es"
  for sy :: "'w sys" and ev es pl
  using job_send_sendable job_send_forward by unfold_locales blast+

interpretation plain: job_handler "sendable ev es" "heard ev" "job_send_plain sy ev es"
  for sy :: "'w sys" and ev es
  using job_send_sendable job_send_forward unfolding job_send_plain_def by unfold_locales blast+

text \<open>The exit of the leader of the live step.\<close>

lemma reap_leader_good:
  assumes "settled j" "is_leader pid j"
  shows "\<exists>r. reap_leader sy status cx j = Some r \<and> good r settled"
proof -
  let ?j = "j\<lparr>jr_leader_reaped := True\<rparr>"
  obtain ev reason cx1 j1 where l: "leader_exit_event sy status cx ?j = ((ev, reason), cx1, j1)"
    by (metis prod.collapse)
  note f = leader_exit_event_frame [OF l]
  have fl: "step_in_flight (jb_state j)" "flight False j"
    using settled_live assms by (auto simp: is_leader_def)
  have ok: "job_ok True ?j"
    using assms(1) fl by (auto simp: settled_def job_ok_def flight_def frame_defs waiting_def between_def ended_def)
  have st: "jb_state j1 = jb_state j" using f by (simp add: frame_def core_def)
  have "\<exists>r. job_send sy ev \<lparr>pl_coe = False, pl_reason = reason, pl_carried = None\<rparr> (jr_live_step j1) cx1 j1 = Some r
      \<and> good r settled"
  proof (rule job_send_good [where told = True])
    show "job_ok True j1" using ok job_ok_frame f by blast
    show "jb_state j1 \<noteq> QWE_LC_BETWEEN_STEPS" using st assms(1) by (simp add: settled_def)
    show "qwe_lc_event_is_stale (jb_state j1) ev (jr_live_step j1) (jr_live_step j1) \<or> ev \<in> qwe_lcm_events (jb_state j1)"
      using f fl(1) st by (auto simp: qwe_lcm_events_def lcm_defs lc_order)
  qed (use f in auto)
  then show ?thesis by (simp add: reap_leader_def l)
qed

lemma reap_leader_forward:
  assumes "reap_leader sy status cx j = Some (Inr (cx', j'))"
  shows "forward j j'"
proof -
  obtain ev reason cx1 j1 where l: "leader_exit_event sy status cx (j\<lparr>jr_leader_reaped := True\<rparr>) = ((ev, reason), cx1, j1)"
    by (metis prod.collapse)
  have "stable j j1" using leader_exit_event_frame [OF l] by (simp add: frame_def core_def stable_def)
  moreover have "ledger j1 = ledger j" using leader_exit_event_led [OF l] by (simp add: ledger_def outs_def)
  ultimately have "forward j j1" by (rule forward_led)
  with assms job_send_forward show ?thesis
    by (fastforce simp: reap_leader_def l intro: forward_trans)
qed

interpretation leader: job_handler "is_leader pid" "\<lambda>_ _. True" "reap_leader sy status"
  for sy :: "'w sys" and pid status
  using reap_leader_good reap_leader_forward by unfold_locales blast+

text \<open>
  What epoll can report about a job: a timer is reported when it has expired and has not been
  read, a job's timer only once the job has been started, and a step's timer for a step that was
  spawned. The step may have ended in the meantime.
\<close>

definition reportable :: "evkind \<Rightarrow> int \<Rightarrow> job \<Rightarrow> bool" where
  "reportable kind step j \<longleftrightarrow>
     (kind = EV_STEP_TIMER \<longrightarrow> 0 \<le> step \<and> (step = jr_live_step j \<longrightarrow> \<not> tm_fired (jr_step_timer j)))
   \<and> (kind = EV_GRACE_TIMER \<longrightarrow> 0 \<le> step \<and> (step = jr_live_step j \<longrightarrow> \<not> tm_fired (jr_grace_timer j)))
   \<and> (kind = EV_JOB_TIMER \<longrightarrow> jb_state j \<notin> {QWE_LC_PENDING, QWE_LC_READY})"

lemma good_Inr: "good (Inr (cx, j)) P = P j"
  by (simp add: good_def)

lemma stop_step_timer: "step_in_flight s \<Longrightarrow> s \<notin> stop_s \<Longrightarrow> step_timer_may_fire s"
  by (cases s) (simp_all add: lcm_defs lc_order)

lemma told_job_timer: "step_in_flight s \<Longrightarrow> s \<notin> timeout_s \<Longrightarrow> job_timer_may_fire s"
  by (cases s) (simp_all add: lcm_defs lc_order)

lemma in_flight_events:
  assumes "step_in_flight s"
  shows "step_timer_may_fire s \<Longrightarrow> QWE_LC_EV_STEP_TIMEOUT \<in> qwe_lcm_events s"
    and "job_timer_may_fire s \<Longrightarrow> QWE_LC_EV_JOB_TIMEOUT \<in> qwe_lcm_events s"
    and "grace_timer_running s \<Longrightarrow> QWE_LC_EV_GRACE_EXPIRED \<in> qwe_lcm_events s"
    and "waiting_for_empty_group s \<Longrightarrow> QWE_LC_EV_GROUP_EMPTY \<in> qwe_lcm_events s"
  using assms by (cases s; simp add: lcm_defs lc_order)+

lemma settled_timers:
  assumes "settled j"
  shows "settled (j\<lparr>jr_timer := t\<rparr>)"
    and "\<not> tm_fired (jr_step_timer j) \<Longrightarrow> settled (j\<lparr>jr_step_timer := t\<rparr>)"
    and "\<not> tm_fired (jr_grace_timer j) \<Longrightarrow> tm_armed t = tm_armed (jr_grace_timer j) \<Longrightarrow> settled (j\<lparr>jr_grace_timer := t\<rparr>)"
  using assms
  by (auto simp: settled_def job_ok_def waiting_def flight_def between_def ended_def frame_defs)

lemma step_timer_good:
  assumes "settled j" "reportable EV_STEP_TIMER step j"
  shows "\<exists>r. job_event sy EV_STEP_TIMER step cx j = Some r \<and> good r settled"
proof (cases "step = jr_live_step j \<and> jr_proc_ok j")
  case False
  have "step \<noteq> jr_live_step j"
    using False settled_live assms by (auto simp: reportable_def flight_def rsrc_def)
  then have "sendable QWE_LC_EV_STEP_TIMEOUT step j" by (simp add: sendable_def)
  with False plain.handled [OF assms(1)] show ?thesis by (auto simp: job_event_def step_timer_event_def)
next
  case True
  obtain b cx1 where a: "ask sy Q_TIMERFD_READ cx = (b, cx1)" by (cases "ask sy Q_TIMERFD_READ cx")
  obtain fired t where e: "qwe_timer_expired b (jr_step_timer j) = (fired, t)" by (cases "qwe_timer_expired b (jr_step_timer j)")
  let ?j = "j\<lparr>jr_step_timer := t\<rparr>"
  have nf: "\<not> tm_fired (jr_step_timer j)" using True assms(2) by (simp add: reportable_def)
  have fl: "step_in_flight (jb_state j)" "flight False j"
    using settled_live [OF assms(1)] True assms(2) by (auto simp: reportable_def)
  have s: "settled ?j" using settled_timers(2) [OF assms(1) nf] .
  have "fired \<Longrightarrow> sendable QWE_LC_EV_STEP_TIMEOUT step ?j"
    using fl nf True stop_step_timer in_flight_events(1) qwe_timer_expired_cases [OF e]
    by (auto simp: sendable_def flight_def)
  then show ?thesis
    using plain.handled [OF s] s True a e
    by (cases fired) (auto simp: job_event_def step_timer_event_def good_Inr)
qed

lemma grace_timer_good:
  assumes "settled j" "reportable EV_GRACE_TIMER step j"
  shows "\<exists>r. job_event sy EV_GRACE_TIMER step cx j = Some r \<and> good r settled"
proof (cases "step = jr_live_step j \<and> jr_proc_ok j")
  case False
  have "step \<noteq> jr_live_step j"
    using False settled_live assms by (auto simp: reportable_def flight_def rsrc_def)
  then have "sendable QWE_LC_EV_GRACE_EXPIRED step j" by (simp add: sendable_def)
  with False plain.handled [OF assms(1)] show ?thesis by (auto simp: job_event_def step_timer_event_def)
next
  case True
  obtain b cx1 where a: "ask sy Q_TIMERFD_READ cx = (b, cx1)" by (cases "ask sy Q_TIMERFD_READ cx")
  obtain fired t where e: "qwe_timer_expired b (jr_grace_timer j) = (fired, t)" by (cases "qwe_timer_expired b (jr_grace_timer j)")
  let ?j = "j\<lparr>jr_grace_timer := t\<rparr>"
  have nf: "\<not> tm_fired (jr_grace_timer j)" using True assms(2) by (simp add: reportable_def)
  have fl: "step_in_flight (jb_state j)" "flight False j"
    using settled_live [OF assms(1)] True assms(2) by (auto simp: reportable_def)
  note ex = qwe_timer_expired_cases [OF e]
  have s: "settled ?j" using settled_timers(3) [OF assms(1) nf] ex by blast
  have "fired \<Longrightarrow> tm_armed (jr_grace_timer j) \<noteq> None"
    using e nf by (auto simp: qwe_timer_expired_def Let_def split: if_splits)
  then have "fired \<Longrightarrow> sendable QWE_LC_EV_GRACE_EXPIRED step ?j"
    using fl nf True in_flight_events(3) ex
    by (auto simp: sendable_def flight_def)
  then show ?thesis
    using plain.handled [OF s] s True a e
    by (cases fired) (auto simp: job_event_def step_timer_event_def good_Inr)
qed

lemma job_timer_good:
  assumes "settled j" "reportable EV_JOB_TIMER step j"
  shows "\<exists>r. job_event sy EV_JOB_TIMER step cx j = Some r \<and> good r settled"
proof -
  have st: "step_in_flight (jb_state j) \<and> flight False j \<or> qwe_lc_state_is_final (jb_state j)"
  proof -
    have "step_in_flight (jb_state j) \<or> qwe_lc_state_is_final (jb_state j)"
      using assms by (cases "jb_state j") (simp_all add: reportable_def settled_def lcm_defs lc_order lc_pred_defs)
    then show ?thesis using assms(1) by (auto simp: settled_def job_ok_def)
  qed
  have send: "\<not> jr_timeout_told j \<Longrightarrow> sendable QWE_LC_EV_JOB_TIMEOUT (-1) (j\<lparr>jr_timer := t\<rparr>)" for t
    using st told_job_timer in_flight_events(2) by (auto simp: sendable_def flight_def)
  show ?thesis
  proof (cases "jr_timer_ok j")
    case True
    obtain b cx1 where a: "ask sy Q_TIMERFD_READ cx = (b, cx1)" by (cases "ask sy Q_TIMERFD_READ cx")
    obtain fired t where e: "qwe_timer_expired b (jr_timer j) = (fired, t)" by (cases "qwe_timer_expired b (jr_timer j)")
    note s = settled_timers(1) [OF assms(1), of t]
    from True a e plain.handled [OF s send] s assms(1) show ?thesis
      by (cases "jr_timeout_told j"; cases fired) (auto simp: job_event_def good_Inr)
  next
    case False
    then have "qwe_lc_state_is_final (jb_state j)" using st by (auto simp: flight_def rsrc_def)
    then have "sendable QWE_LC_EV_JOB_TIMEOUT (-1) j" by (simp add: sendable_def)
    with False plain.handled [OF assms(1)] show ?thesis by (auto simp: job_event_def)
  qed
qed

lemma job_event_good:
  assumes "settled j" "reportable kind step j"
  shows "\<exists>r. job_event sy kind step cx j = Some r \<and> good r settled"
proof (cases kind)
  case EV_OUT
  show ?thesis
  proof (cases "run_drain sy cx j")
    case (Inl a)
    with EV_OUT assms(1) run_drain_Inl [OF Inl] show ?thesis by (simp add: job_event_def good_def)
  next
    case (Inr x)
    then obtain e cx' j' where d: "run_drain sy cx j = Inr (e, cx', j')" by (cases x) simp
    with EV_OUT assms(1) settled_frame [OF run_drain_frame [OF d]] show ?thesis
      by (simp add: job_event_def good_def)
  qed
next
  case EV_RESULT
  obtain e cx' j' where d: "drain_result sy cx j = (e, cx', j')" by (cases "drain_result sy cx j")
  have "settled j'" using assms(1) settled_frame [OF drain_result_frame [OF d]] by simp
  with EV_RESULT d assms(1) show ?thesis by (simp add: job_event_def good_def)
qed (use assms step_timer_good grace_timer_good job_timer_good in \<open>auto simp: job_event_def [of _ EV_CHILD] job_event_def [of _ EV_CANCEL] good_def\<close>)

lemma step_timer_event_forward:
  assumes "step_timer_event sy get put ev step cx j = Some (Inr (cx', j'))" and "\<And>t. forward j (put t j)"
  shows "forward j j'"
proof -
  obtain b cx1 where a: "ask sy Q_TIMERFD_READ cx = (b, cx1)" by (cases "ask sy Q_TIMERFD_READ cx")
  obtain fired t where e: "qwe_timer_expired b (get j) = (fired, t)" by (cases "qwe_timer_expired b (get j)")
  consider "job_send_plain sy ev step cx j = Some (Inr (cx', j'))" | "j' = put t j"
    | "job_send_plain sy ev step cx1 (put t j) = Some (Inr (cx', j'))"
    using assms(1) unfolding step_timer_event_def a e prod.case
    by (cases "step = jr_live_step j \<and> jr_proc_ok j"; cases fired) simp_all
  then show ?thesis using assms(2) plain.moved forward_trans by cases blast+
qed

lemma job_event_forward:
  assumes "job_event sy kind step cx j = Some (Inr (cx', j'))"
  shows "forward j j'"
proof -
  note u = forward_timers
  show ?thesis
  proof (cases kind)
    case EV_JOB_TIMER
    obtain b cx1 where a: "ask sy Q_TIMERFD_READ cx = (b, cx1)" by (cases "ask sy Q_TIMERFD_READ cx")
    obtain fired t where e: "qwe_timer_expired b (jr_timer j) = (fired, t)" by (cases "qwe_timer_expired b (jr_timer j)")
    have j: "job_event sy kind step cx j =
       (if jr_timer_ok j \<and> jr_timeout_told j then Some (Inr (cx, j))
        else if jr_timer_ok j then
          if \<not> fired then Some (Inr (cx1, j\<lparr>jr_timer := t\<rparr>))
          else job_send_plain sy QWE_LC_EV_JOB_TIMEOUT (-1) cx1 (j\<lparr>jr_timer := t\<rparr>)
        else job_send_plain sy QWE_LC_EV_JOB_TIMEOUT (-1) cx j)"
      unfolding job_event_def EV_JOB_TIMER evkind.case a e prod.case ..
    show ?thesis
    proof (cases "jr_timer_ok j \<and> \<not> jr_timeout_told j \<and> fired")
      case True
      then have "job_send_plain sy QWE_LC_EV_JOB_TIMEOUT (-1) cx1 (j\<lparr>jr_timer := t\<rparr>) = Some (Inr (cx', j'))"
        using assms j by simp
      then show ?thesis using plain.moved forward_trans [OF u(1) [where t = t]] by blast
    next
      case False
      then have "job_event sy kind step cx j \<in> {Some (Inr (cx, j)), Some (Inr (cx1, j\<lparr>jr_timer := t\<rparr>)),
          job_send_plain sy QWE_LC_EV_JOB_TIMEOUT (-1) cx j}"
        unfolding j by (cases fired) simp_all
      then show ?thesis unfolding assms using u(1) [where t = t] plain.moved [of sy QWE_LC_EV_JOB_TIMEOUT "-1" cx j]
        by (elim insertE emptyE) (simp_all, metis)
    qed
  next
    case EV_STEP_TIMER
    with assms have "step_timer_event sy jr_step_timer (\<lambda>t j. j\<lparr>jr_step_timer := t\<rparr>) QWE_LC_EV_STEP_TIMEOUT step cx j
        = Some (Inr (cx', j'))" by (simp add: job_event_def)
    then show ?thesis by (rule step_timer_event_forward) (rule u(2))
  next
    case EV_GRACE_TIMER
    with assms have "step_timer_event sy jr_grace_timer (\<lambda>t j. j\<lparr>jr_grace_timer := t\<rparr>) QWE_LC_EV_GRACE_EXPIRED step cx j
        = Some (Inr (cx', j'))" by (simp add: job_event_def)
    then show ?thesis by (rule step_timer_event_forward) (rule u(3))
  qed (use assms in \<open>auto simp: job_event_def split: if_splits sum.splits prod.splits
         intro!: forward_led dest: run_drain_led drain_result_led frame_stable [OF run_drain_frame] frame_stable [OF drain_result_frame]\<close>)
qed

interpretation event: job_handler "reportable kind step" "\<lambda>_ _. True" "job_event sy kind step"
  for sy :: "'w sys" and kind step
  using job_event_good job_event_forward by unfold_locales blast+

section \<open>Loops over the jobs\<close>

text \<open>A loop over distinct jobs whose turns each leave the others as they are.\<close>

lemma for_jobs_moved:
  assumes "list_all settled js" and "distinct is"
    and "\<And>i cx js. i \<in> set is \<Longrightarrow> list_all settled js \<Longrightarrow> i < length js \<Longrightarrow> P (js ! i) \<Longrightarrow>
           \<exists>r. h i cx js = Some r \<and> goods r (\<lambda>js'. \<exists>j'. js' = js[i := j'] \<and> settled j' \<and> forward (js ! i) j' \<and> Q j')"
    and "\<And>i. i \<in> set is \<Longrightarrow> i < length js \<and> P (js ! i)"
    and "\<And>j j'. Q j \<Longrightarrow> forward j j' \<Longrightarrow> Q j'"
  shows "\<exists>r. for_jobs is h cx js = Some r \<and> goods r (\<lambda>js'. run_moved js js' \<and> (\<forall>i \<in> set is. Q (js' ! i)))"
  using assms(1,2,4)  assms(3)
proof (induction "is" arbitrary: cx js)
  case Nil
  then show ?case by (simp add: goods_def run_moved_refl)
next
  case (Cons i "is")
  obtain r where r: "h i cx js = Some r"
      "goods r (\<lambda>js'. \<exists>j'. js' = js[i := j'] \<and> settled j' \<and> forward (js ! i) j' \<and> Q j')"
    using Cons.prems(4) [of i js cx] Cons.prems(1,3) by auto
  show ?case
  proof (cases r)
    case (Inl a)
    with r show ?thesis by (simp add: goods_def)
  next
    case (Inr x)
    with r obtain cx1 j' where h: "h i cx js = Some (Inr (cx1, js[i := j']))" and j': "settled j'" "forward (js ! i) j'" "Q j'"
      by (cases x) (auto simp: goods_def)
    let ?js = "js[i := j']"
    have m: "run_moved js ?js" using run_moved_update Cons.prems(1,3) j' by simp
    have "\<exists>r. for_jobs is h cx1 ?js = Some r \<and> goods r (\<lambda>js'. run_moved ?js js' \<and> (\<forall>k \<in> set is. Q (js' ! k)))"
    proof (rule Cons.IH)
      show "list_all settled ?js" using m by (simp add: run_moved_def)
      show "distinct is" using Cons.prems(2) by simp
      show "k < length ?js \<and> P (?js ! k)" if "k \<in> set is" for k
        using that Cons.prems(2,3) by (cases "k = i") auto
    qed (use Cons.prems(4) in auto)
    then obtain r2 where r2: "for_jobs is h cx1 ?js = Some r2"
        "goods r2 (\<lambda>js'. run_moved ?js js' \<and> (\<forall>k \<in> set is. Q (js' ! k)))" by blast
    have "Q (js' ! i)" if "run_moved ?js js'" for js'
    proof -
      have "i < length ?js" using Cons.prems(3) [of i] by simp
      with that have "forward (?js ! i) (js' ! i)" unfolding run_moved_def by (blast intro: list_all2_nthD)
      then show ?thesis using assms(5) j'(3) Cons.prems(3) by auto
    qed
    with r2 m have "goods r2 (\<lambda>js'. run_moved js js' \<and> (\<forall>k \<in> set (i # is). Q (js' ! k)))"
      by (elim goods_mono) (auto intro: run_moved_trans)
    with r2(1) h show ?thesis by simp
  qed
qed

lemma goods_same:
  assumes "i < length js" "list_all settled js" "Q (js ! i)"
  shows "goods (Inr (cx, js)) (\<lambda>js'. \<exists>j'. js' = js[i := j'] \<and> settled j' \<and> forward (js ! i) j' \<and> Q j')"
proof -
  have "js = js[i := js ! i] \<and> settled (js ! i) \<and> forward (js ! i) (js ! i) \<and> Q (js ! i)"
    using assms by (simp add: list_all_length)
  then show ?thesis unfolding goods_def sum.case prod.case by (rule exI)
qed

text \<open>After a broadcast every job knows of the cancel.\<close>

lemma cancel_sendable: "settled j \<Longrightarrow> sendable QWE_LC_EV_CANCEL (-1) j"
  by (cases "jb_state j") (simp_all add: sendable_def settled_def lcm_defs lc_order)

lemma cancel_one_moved:
  assumes "list_all settled js" "i < length js"
  shows "\<exists>r. cancel_one sy i cx js = Some r
    \<and> goods r (\<lambda>js'. \<exists>j'. js' = js[i := j'] \<and> settled j' \<and> forward (js ! i) j' \<and> jr_cancel_told j')"
proof (cases "jr_cancel_told (js ! i)")
  case True
  then show ?thesis using goods_same [OF assms(2,1), of jr_cancel_told] by (simp add: cancel_one_def)
next
  case False
  have s: "settled (js ! i)" using assms by (simp add: list_all_length)
  obtain r where "on_job i (job_send_plain sy QWE_LC_EV_CANCEL (-1)) cx js = Some r"
    "goods r (\<lambda>js'. \<exists>j'. js' = js[i := j'] \<and> settled j' \<and> forward (js ! i) j' \<and> heard QWE_LC_EV_CANCEL (js ! i) j')"
    using plain.on_job_update [OF assms cancel_sendable [OF s]] by blast
  with False show ?thesis by (auto simp: cancel_one_def heard_def elim!: goods_mono)
qed

lemma broadcast_moved:
  assumes "list_all settled js"
  shows "\<exists>b r. broadcast_cancel sy cx js = (b, Some r) \<and> goods r (run_moved js)
    \<and> (b \<longrightarrow> goods r (\<lambda>js'. list_all jr_cancel_told js')) \<and> (list_all jr_cancel_told js \<longrightarrow> \<not> b)"
proof (cases "cx_cancel_requested cx")
  case False
  then have "broadcast_cancel sy cx js = (False, Some (Inr (cx, js)))" by (simp add: broadcast_cancel_def)
  then show ?thesis using run_moved_refl [OF assms] by (auto simp: goods_def)
next
  case True
  have "\<exists>r. for_jobs [0..<length js] (cancel_one sy) cx js = Some r
      \<and> goods r (\<lambda>js'. run_moved js js' \<and> (\<forall>i \<in> set [0..<length js]. jr_cancel_told (js' ! i)))"
  proof (rule for_jobs_moved [where P = "\<lambda>_. True" and Q = jr_cancel_told, OF assms])
    show "jr_cancel_told j'" if "jr_cancel_told j" "forward j j'" for j j' using that by (simp add: forward_def stable_def)
  qed (auto dest: cancel_one_moved)
  then obtain r where "for_jobs [0..<length js] (cancel_one sy) cx js = Some r"
      "goods r (\<lambda>js'. run_moved js js' \<and> (\<forall>i \<in> set [0..<length js]. jr_cancel_told (js' ! i)))" by blast
  moreover from this(2) have "goods r (run_moved js)" "goods r (list_all jr_cancel_told)"
    by (auto elim!: goods_mono simp: list_all_length dest: run_moved_length)
  moreover have "broadcast_cancel sy cx js = (list_ex (\<lambda>j. \<not> jr_cancel_told j) js, Some r)"
    using True calculation(1) by (simp add: broadcast_cancel_def)
  moreover have "list_all jr_cancel_told js \<Longrightarrow> \<not> list_ex (\<lambda>j. \<not> jr_cancel_told j) js"
    by (auto simp: list_all_iff list_ex_iff)
  ultimately show ?thesis by auto
qed

text \<open>The exits of a batch, and the groups that became empty.\<close>

lemma reap_one_moved:
  assumes "list_all settled js"
  shows "\<exists>r. reap_one sy e cx js = Some r \<and> goods r (run_moved js)"
proof (cases "find (\<lambda>i. is_leader (fst e) (js ! i)) [0..<length js]")
  case None
  then show ?thesis using run_moved_refl [OF assms] by (simp add: reap_one_def goods_def)
next
  case (Some i)
  then have "i < length js" "is_leader (fst e) (js ! i)" by (auto simp: find_Some_iff)
  with Some leader.on_job_moved [OF assms] show ?thesis by (auto simp: reap_one_def)
qed

lemma goods_bind:
  assumes "goods r P" and "\<And>cx js. r = Inr (cx, js) \<Longrightarrow> P js \<Longrightarrow> \<exists>r'. f cx js = Some r' \<and> goods r' Q"
  shows "\<exists>r'. (case Some r of Some (Inr (cx, js)) \<Rightarrow> f cx js | x \<Rightarrow> x) = Some r' \<and> goods r' Q"
  using assms by (cases r) (auto simp: goods_def)

lemma reap_exits_moved:
  assumes "list_all settled js"
  shows "\<exists>r. reap_exits sy es cx js = Some r \<and> goods r (run_moved js)"
  using assms
proof (induction es arbitrary: cx js)
  case Nil
  then show ?case by (simp add: goods_def run_moved_refl)
next
  case (Cons e es)
  obtain r where r: "reap_one sy e cx js = Some r" "goods r (run_moved js)" using reap_one_moved Cons.prems by blast
  show ?case unfolding reap_exits.simps r(1)
  proof (rule goods_bind [OF r(2)])
    fix cx1 js1 assume m: "run_moved js js1"
    then obtain r1 where "reap_exits sy es cx1 js1 = Some r1" "goods r1 (run_moved js1)"
      using Cons.IH [of js1 cx1] m [unfolded run_moved_def] by blast
    with m show "\<exists>r'. reap_exits sy es cx1 js1 = Some r' \<and> goods r' (run_moved js)"
      by (auto elim!: goods_mono intro: run_moved_trans)
  qed
qed

lemma group_check_moved:
  assumes "list_all settled js" "i < length js"
  shows "\<exists>r. group_check sy i cx js = Some r
    \<and> goods r (\<lambda>js'. \<exists>j'. js' = js[i := j'] \<and> settled j' \<and> forward (js ! i) j')"
proof -
  let ?j = "js ! i"
  have keep: "goods (Inr (cx', js)) (\<lambda>js'. \<exists>j'. js' = js[i := j'] \<and> settled j' \<and> forward ?j j')" for cx' :: "'a run_ctx"
    using goods_same [OF assms(2,1), of "\<lambda>_. True" cx'] by simp
  obtain gone cx1 where a: "ask sy (Q_GROUP_EMPTY (jr_pid ?j)) cx = (gone, cx1)"
    by (cases "ask sy (Q_GROUP_EMPTY (jr_pid ?j)) cx")
  show ?thesis
  proof (cases "jr_live_step ?j \<ge> 0 \<and> jr_proc_ok ?j \<and> jr_leader_reaped ?j \<and> gone")
    case False
    then have "group_check sy i cx js \<in> {Some (Inr (cx, js)), Some (Inr (cx1, js))}"
      unfolding group_check_def Let_def a prod.case by simp
    with keep show ?thesis by blast
  next
    case True
    have "settled ?j" using assms by (simp add: list_all_length)
    then have "sendable QWE_LC_EV_GROUP_EMPTY (jr_live_step ?j) ?j"
      using settled_live [of ?j] True in_flight_events(4) by (auto simp: sendable_def flight_def)
    from plain.on_job_update [OF assms this, of sy cx1] obtain r where
      "on_job i (job_send_plain sy QWE_LC_EV_GROUP_EMPTY (jr_live_step ?j)) cx1 js = Some r"
      "goods r (\<lambda>js'. \<exists>j'. js' = js[i := j'] \<and> settled j' \<and> forward ?j j' \<and> heard QWE_LC_EV_GROUP_EMPTY ?j j')"
      by blast
    with True a show ?thesis by (auto simp: group_check_def Let_def elim!: goods_mono)
  qed
qed

lemma reap_children_moved:
  assumes "list_all settled js"
  shows "\<exists>r. reap_children sy exits cx js = Some r \<and> goods r (run_moved js)"
proof -
  obtain r where r: "reap_exits sy exits cx js = Some r" "goods r (run_moved js)" using reap_exits_moved assms by blast
  show ?thesis unfolding reap_children_def r(1)
  proof (rule goods_bind [OF r(2)])
    fix cx1 js1 assume m: "run_moved js js1"
    then have s: "list_all settled js1" by (simp add: run_moved_def)
    have "\<exists>r. for_jobs [0..<length js1] (group_check sy) cx1 js1 = Some r
        \<and> goods r (\<lambda>js'. run_moved js1 js' \<and> (\<forall>i \<in> set [0..<length js1]. True))"
      by (rule for_jobs_moved [where P = "\<lambda>_. True" and Q = "\<lambda>_. True", OF s]) (auto dest: group_check_moved)
    with m show "\<exists>r. for_jobs [0..<length js1] (group_check sy) cx1 js1 = Some r \<and> goods r (run_moved js)"
      by (auto elim!: goods_mono intro: run_moved_trans)
  qed
qed

lemma skip_disabled_moved:
  assumes "list_all settled js" "list_all (\<lambda>j. jb_state j = QWE_LC_PENDING) js"
  shows "\<exists>r. skip_disabled sy cx js = Some r \<and> goods r (run_moved js)"
proof -
  have one: "\<exists>r. skip_one sy i cx js = Some r
      \<and> goods r (\<lambda>js'. \<exists>j'. js' = js[i := j'] \<and> settled j' \<and> forward (js ! i) j' \<and> True)"
    if "list_all settled js" "i < length js" "jb_state (js ! i) = QWE_LC_PENDING" for i cx js
  proof (cases "jb_detail (js ! i) = None")
    case True
    then show ?thesis using goods_same [OF that(2,1), of "\<lambda>_. True"] by (simp add: skip_one_def)
  next
    case False
    have "sendable QWE_LC_EV_SKIP (-1) (js ! i)" using that(3) by (simp add: sendable_def lcm_defs lc_order)
    from send.on_job_update [OF that(1,2) this, of sy "\<lparr>pl_coe = False, pl_reason = Some ''target-disabled'', pl_carried = None\<rparr>" cx]
    show ?thesis using False by (auto simp: skip_one_def elim!: goods_mono)
  qed
  have "\<exists>r. for_jobs [0..<length js] (skip_one sy) cx js = Some r
      \<and> goods r (\<lambda>js'. run_moved js js' \<and> (\<forall>i \<in> set [0..<length js]. True))"
    by (rule for_jobs_moved [where P = "\<lambda>j. jb_state j = QWE_LC_PENDING" and Q = "\<lambda>_. True", OF assms(1)])
      (use assms(2) one in \<open>auto simp: list_all_length\<close>)
  then show ?thesis by (auto simp: skip_disabled_def elim!: goods_mono)
qed

section \<open>Scheduling\<close>

definition total_rank :: "job list \<Rightarrow> nat" where
  "total_rank js = (\<Sum>j\<leftarrow>js. srank (jb_state j))"

lemma run_moved_rank: "run_moved js js' \<Longrightarrow> total_rank js' \<le> total_rank js"
  unfolding run_moved_def total_rank_def
proof (elim conjE)
  assume "list_all2 forward js js'"
  then show "(\<Sum>j\<leftarrow>js'. srank (jb_state j)) \<le> (\<Sum>j\<leftarrow>js. srank (jb_state j))"
    by (induction rule: list_all2_induct) (auto simp: forward_def stable_def)
qed

lemma total_rank_bound: "total_rank js \<le> 2 * length js"
  by (induction js) (auto simp: total_rank_def srank_def)

lemma total_rank_update:
  assumes "i < length js" "srank (jb_state j') < srank (jb_state (js ! i))"
  shows "total_rank (js[i := j']) < total_rank js"
  using assms
proof (induction js arbitrary: i)
  case (Cons a js)
  then show ?case by (cases i) (fastforce simp: total_rank_def)+
qed simp

text \<open>An event of a pass fits the job it is for.\<close>

definition pass_fits :: "job list \<Rightarrow> qwe_sched_event \<Rightarrow> bool" where
  "pass_fits js e \<longleftrightarrow> se_job e < length js
     \<and> (jb_state (js ! se_job e) = QWE_LC_PENDING \<and> se_event e \<in> {QWE_LC_EV_NEEDS_MET, QWE_LC_EV_NEEDS_FAILED}
        \<or> jb_state (js ! se_job e) = QWE_LC_READY \<and> se_event e = QWE_LC_EV_SLOT_GRANTED)"

lemma pass_fits_sendable:
  "pass_fits js e \<Longrightarrow> sendable (se_event e) (-1) (js ! se_job e)
     \<and> (heard (se_event e) (js ! se_job e) j' \<longrightarrow> srank (jb_state j') < srank (jb_state (js ! se_job e)))"
  unfolding pass_fits_def
  by (elim conjE disjE) (simp_all add: sendable_def lcm_defs lc_order heard_def, elim disjE, simp_all)

lemma send_events_moved:
  assumes "list_all settled js" "distinct (map se_job es)" "list_all (pass_fits js) es"
  shows "\<exists>r. send_events sy es cx js = Some r
    \<and> goods r (\<lambda>js'. run_moved js js' \<and> (es \<noteq> [] \<longrightarrow> total_rank js' < total_rank js))"
  using assms
proof (induction es arbitrary: cx js)
  case Nil
  then show ?case by (simp add: goods_def run_moved_refl)
next
  case (Cons e es)
  have pf: "pass_fits js e" "se_job e < length js" using Cons.prems(3) by (simp_all add: pass_fits_def)
  obtain r where r: "on_job (se_job e) (job_send_plain sy (se_event e) (-1)) cx js = Some r"
      "goods r (\<lambda>js'. \<exists>j'. js' = js[se_job e := j'] \<and> settled j' \<and> forward (js ! se_job e) j' \<and> heard (se_event e) (js ! se_job e) j')"
    using plain.on_job_update [OF Cons.prems(1) pf(2)] pass_fits_sendable [OF pf(1)] by blast
  show ?case unfolding send_events.simps r(1)
  proof (rule goods_bind [OF r(2)], elim exE conjE)
    fix cx1 js1 j'
    assume js1: "js1 = js[se_job e := j']" and j': "settled j'" "forward (js ! se_job e) j'" "heard (se_event e) (js ! se_job e) j'"
    have m: "run_moved js js1" using run_moved_update [OF Cons.prems(1) pf(2)] j' js1 by blast
    have d: "total_rank js1 < total_rank js"
      using total_rank_update [OF pf(2)] pass_fits_sendable [OF pf(1)] j'(3) js1 by blast
    have "list_all (pass_fits js1) es"
    proof -
      have "se_job e' \<noteq> se_job e" if "e' \<in> set es" for e'
        using Cons.prems(2) imageI [OF that, of se_job] unfolding list.map distinct.simps set_map by metis
      then have "js1 ! se_job e' = js ! se_job e'" if "e' \<in> set es" for e'
        using that nth_list_update_neq js1 by metis
      then show ?thesis using Cons.prems(3) js1 unfolding list_all_iff pass_fits_def by simp
    qed
    then obtain r1 where "send_events sy es cx1 js1 = Some r1" "goods r1 (\<lambda>js'. run_moved js1 js' \<and> (es \<noteq> [] \<longrightarrow> total_rank js' < total_rank js1))"
      using Cons.IH [of js1 cx1] Cons.prems(2) m [unfolded run_moved_def] by auto
    moreover have "total_rank js2 < total_rank js" if "run_moved js1 js2" for js2
      using run_moved_rank [OF that] d by simp
    ultimately show "\<exists>r'. send_events sy es cx1 js1 = Some r'
        \<and> goods r' (\<lambda>js'. run_moved js js' \<and> (e # es \<noteq> [] \<longrightarrow> total_rank js' < total_rank js))"
      using run_moved_trans [OF m] by (auto elim!: goods_mono)
  qed
qed

lemma pass_view_fits:
  assumes "es = qwe_sched_pass (sched_view needs groups js) mp caps"
  shows "distinct (map se_job es) \<and> list_all (pass_fits js) es"
  using pass_events [of "sched_view needs groups js" mp caps] assms
  by (auto simp: list_all_iff pass_fits_def sched_view_def)

text \<open>Twice as many rounds as there are jobs settle everything that can be settled without the outside.\<close>

lemma sched_rounds_moved:
  assumes "list_all settled js" "total_rank js < f"
  shows "\<exists>r. sched_rounds f sy needs groups mp caps cx js = Some r
    \<and> goods r (\<lambda>js'. run_moved js js' \<and> qwe_sched_pass (sched_view needs groups js') mp caps = [])"
  using assms
proof (induction f arbitrary: cx js)
  case (Suc f)
  let ?es = "qwe_sched_pass (sched_view needs groups js) mp caps"
  show ?case
  proof (cases "?es = []")
    case True
    with Suc.prems(1) show ?thesis by (simp add: goods_def run_moved_refl)
  next
    case False
    obtain r where r: "send_events sy ?es cx js = Some r"
        "goods r (\<lambda>js'. run_moved js js' \<and> (?es \<noteq> [] \<longrightarrow> total_rank js' < total_rank js))"
      using send_events_moved Suc.prems(1) pass_view_fits [OF refl, of needs groups js mp caps] by blast
    have e: "sched_rounds (Suc f) sy needs groups mp caps cx js =
        (case Some r of Some (Inr (cx', js')) \<Rightarrow> sched_rounds f sy needs groups mp caps cx' js' | x \<Rightarrow> x)"
      using False r(1) by (simp add: Let_def)
    show ?thesis unfolding e
    proof (rule goods_bind [OF r(2)])
      fix cx1 js1 assume m: "run_moved js js1 \<and> (?es \<noteq> [] \<longrightarrow> total_rank js1 < total_rank js)"
      then have "list_all settled js1" "total_rank js1 < f" using False Suc.prems(2) by (simp_all add: run_moved_def)
      from Suc.IH [OF this, of cx1] m
      show "\<exists>r'. sched_rounds f sy needs groups mp caps cx1 js1 = Some r' \<and>
          goods r' (\<lambda>js'. run_moved js js' \<and> qwe_sched_pass (sched_view needs groups js') mp caps = [])"
        by (auto elim!: goods_mono intro: run_moved_trans)
    qed
  qed
qed simp

text \<open>A broadcast that told nobody changed nothing.\<close>

lemma cancel_loop_idle:
  "list_all (\<lambda>i. jr_cancel_told (js ! i)) is \<Longrightarrow> for_jobs is (cancel_one sy) cx js = Some (Inr (cx, js))"
  by (induction "is") (simp_all add: cancel_one_def)

lemma broadcast_idle:
  assumes "broadcast_cancel sy cx js = (False, Some (Inr (cx', js')))"
  shows "js' = js"
proof (cases "cx_cancel_requested cx")
  case True
  then have "list_all (\<lambda>i. jr_cancel_told (js ! i)) [0..<length js]"
    using assms by (simp add: broadcast_cancel_def list_ex_iff list_all_iff)
  with True assms show ?thesis by (simp add: broadcast_cancel_def cancel_loop_idle)
qed (use assms in \<open>simp add: broadcast_cancel_def\<close>)

definition quiet :: "nat list list \<Rightarrow> nat list \<Rightarrow> int \<Rightarrow> int list \<Rightarrow> job list \<Rightarrow> bool" where
  "quiet needs groups mp caps js \<longleftrightarrow> qwe_sched_pass (sched_view needs groups js) mp caps = []"

lemma sched_and_cancel_moved:
  assumes "list_all settled js" "2 \<le> f \<or> 1 \<le> f \<and> list_all jr_cancel_told js"
  shows "\<exists>r. sched_and_cancel f sy needs groups mp caps cx js = Some r
    \<and> goods r (\<lambda>js'. run_moved js js' \<and> quiet needs groups mp caps js')"
  using assms
proof (induction f arbitrary: cx js)
  case (Suc f)
  have "total_rank js < 2 * length js + 1" using total_rank_bound [of js] by simp
  then obtain r where r: "sched_rounds (2 * length js + 1) sy needs groups mp caps cx js = Some r"
      "goods r (\<lambda>js'. run_moved js js' \<and> qwe_sched_pass (sched_view needs groups js') mp caps = [])"
    using sched_rounds_moved Suc.prems(1) by blast
  show ?case unfolding sched_and_cancel.simps r(1)
  proof (rule goods_bind [OF r(2)])
    fix cx1 js1 assume m: "run_moved js js1 \<and> qwe_sched_pass (sched_view needs groups js1) mp caps = []"
    then have s1: "list_all settled js1" by (simp add: run_moved_def)
    obtain b r1 where b: "broadcast_cancel sy cx1 js1 = (b, Some r1)" and g: "goods r1 (run_moved js1)"
      and t: "b \<Longrightarrow> goods r1 (list_all jr_cancel_told)" and nb: "list_all jr_cancel_told js1 \<Longrightarrow> \<not> b"
      using broadcast_moved [OF s1] by blast
    show "\<exists>r'. (case broadcast_cancel sy cx1 js1 of
            (sent, Some (Inr (cx2, js2))) \<Rightarrow>
               if sent then sched_and_cancel f sy needs groups mp caps cx2 js2 else Some (Inr (cx2, js2))
          | (sent, r) \<Rightarrow> r) = Some r' \<and> goods r' (\<lambda>js'. run_moved js js' \<and> quiet needs groups mp caps js')"
    proof (cases r1)
      case (Inl a)
      with b g show ?thesis by (simp add: goods_def)
    next
      case (Inr x)
      then obtain cx2 js2 where r1: "r1 = Inr (cx2, js2)" by (cases x) simp
      with g have m2: "run_moved js1 js2" by (simp add: goods_def)
      show ?thesis
      proof (cases b)
        case False
        with b r1 have "js2 = js1" by (intro broadcast_idle [of sy cx1 js1 cx2 js2]) simp
        with False b r1 m show ?thesis by (simp add: goods_def quiet_def)
      next
        case True
        with r1 t have told: "list_all jr_cancel_told js2" by (simp add: goods_def)
        have "\<not> list_all jr_cancel_told js"
        proof
          assume "list_all jr_cancel_told js"
          then have "list_all jr_cancel_told js1"
            using m unfolding run_moved_def list_all2_conv_all_nth list_all_length forward_def stable_def by simp
          with nb True show False by simp
        qed
        with Suc.prems(2) have "1 \<le> f" by auto
        with told m2 Suc.IH [of js2 cx2] obtain r2 where "sched_and_cancel f sy needs groups mp caps cx2 js2 = Some r2"
          "goods r2 (\<lambda>js'. run_moved js2 js' \<and> quiet needs groups mp caps js')"
          unfolding run_moved_def by blast
        with True b r1 m m2 show ?thesis by (auto elim!: goods_mono intro: run_moved_trans)
      qed
    qed
  qed
qed simp

lemma loop_head_moved:
  assumes "list_all settled js"
  shows "\<exists>r. loop_head sy needs groups mp caps cx js = Some r
    \<and> goods r (\<lambda>js'. run_moved js js' \<and> quiet needs groups mp caps js')"
proof -
  obtain b r where b: "broadcast_cancel sy cx js = (b, Some r)" and g: "goods r (run_moved js)"
    using broadcast_moved [OF assms] by blast
  have e: "loop_head sy needs groups mp caps cx js =
      (case Some r of Some (Inr (cx1, js1)) \<Rightarrow> sched_and_cancel (length js + 1) sy needs groups mp caps cx1 js1 | x \<Rightarrow> x)"
    by (simp add: loop_head_def b split: sum.splits)
  show ?thesis unfolding e
  proof (rule goods_bind [OF g])
    fix cx1 js1 assume m: "run_moved js js1"
    then have "2 \<le> length js + 1 \<or> 1 \<le> length js + 1 \<and> list_all jr_cancel_told js1"
      using run_moved_length [OF m] by (cases js) auto
    with m sched_and_cancel_moved [of js1 "length js + 1" sy needs groups mp caps cx1] obtain r1 where
      "sched_and_cancel (length js + 1) sy needs groups mp caps cx1 js1 = Some r1"
      "goods r1 (\<lambda>js'. run_moved js1 js' \<and> quiet needs groups mp caps js')"
      unfolding run_moved_def by blast
    with m show "\<exists>r'. sched_and_cancel (length js + 1) sy needs groups mp caps cx1 js1 = Some r'
        \<and> goods r' (\<lambda>js'. run_moved js js' \<and> quiet needs groups mp caps js')"
      by (auto elim!: goods_mono intro: run_moved_trans)
  qed
qed

text \<open>A tag that may be reported, and the turn on it.\<close>

definition tag_reportable :: "job list \<Rightarrow> 64 word \<Rightarrow> bool" where
  "tag_reportable js tag \<longleftrightarrow>
     (case tag_kind tag of
        None \<Rightarrow> True
      | Some kind \<Rightarrow> kind = EV_CHILD \<or> kind = EV_CANCEL
          \<or> tag_job tag < length js \<and> reportable kind (tag_step tag) (js ! tag_job tag))"

lemma handle_tag_moved:
  assumes "list_all settled js" "tag_reportable js tag"
  shows "\<exists>r. handle_tag sy tag cx js = Some r \<and> goods r (run_moved js)"
proof (cases "tag_kind tag")
  case None
  then show ?thesis using run_moved_refl [OF assms(1)] by (simp add: handle_tag_def goods_def)
next
  case (Some kind)
  consider "kind = EV_CHILD" | "kind = EV_CANCEL" | "kind \<notin> {EV_CHILD, EV_CANCEL}" by blast
  then show ?thesis
  proof cases
    case 1
    obtain exits w' where "sy_exits sy (cx_w cx) = (exits, w')" by (cases "sy_exits sy (cx_w cx)")
    with 1 Some reap_children_moved [OF assms(1)] show ?thesis by (simp add: handle_tag_def)
  next
    case 2
    with Some run_moved_refl [OF assms(1)] show ?thesis by (simp add: handle_tag_def goods_def)
  next
    case 3
    have "handle_tag sy tag cx js = on_job (tag_job tag) (job_event sy kind (tag_step tag)) cx js"
      using 3 Some by (cases kind) (simp_all add: handle_tag_def)
    moreover have "tag_job tag < length js" "reportable kind (tag_step tag) (js ! tag_job tag)"
      using 3 Some assms(2) by (auto simp: tag_reportable_def)
    ultimately show ?thesis using event.on_job_moved [OF assms(1)] by simp
  qed
qed

section \<open>Runs\<close>

text \<open>A job as it was loaded, perhaps with the note of a target that is out of service.\<close>

definition loaded :: "job \<Rightarrow> bool" where
  "loaded j \<longleftrightarrow> j = (job_loaded (jb_id j) (jb_target j) (jb_needs j) (jb_specs j) (jb_timeout_ms j))\<lparr>jb_detail := jb_detail j\<rparr>"

lemma loaded_settled:
  assumes "loaded j"
  shows "settled j \<and> jb_state j = QWE_LC_PENDING"
proof -
  have "settled ((job_loaded a b c d e)\<lparr>jb_detail := f\<rparr>) \<and> jb_state ((job_loaded a b c d e)\<lparr>jb_detail := f\<rparr>) = QWE_LC_PENDING"
    for a b c d e f
    by (simp add: job_loaded_def settled_def job_ok_def waiting_def frame_defs lcm_defs lc_order lc_pred_defs)
  with assms show ?thesis unfolding loaded_def by metis
qed

lemma loaded_books:
  assumes "loaded j"
  shows "books_ok j"
proof -
  have "books_ok ((job_loaded a b c d e)\<lparr>jb_detail := f\<rparr>)" for a b c d e f
    by (simp add: job_loaded_def ledger_def outs_def)
  with assms show ?thesis unfolding loaded_def by metis
qed

text \<open>Every step of a job that was started and has ended has an outcome.\<close>

definition outcomes_known :: "job \<Rightarrow> bool" where
  "outcomes_known j \<longleftrightarrow>
     (qwe_lc_state_is_final (jb_state j) \<longrightarrow> (case jb_steps j of None \<Rightarrow> True | Some ss \<Rightarrow> list_all (\<lambda>r. sr_outcome r \<noteq> None) ss))"

lemma books_outcomes: "books_ok j \<Longrightarrow> outcomes_known j"
  by (auto simp: outcomes_known_def ledger_def outs_def has_outcome_def list_all_length split: option.splits)

lemma moved_outcomes:
  assumes "run_moved js0 js" "list_all loaded js0"
  shows "list_all outcomes_known js"
proof -
  have "books_ok (js ! i)" if "i < length js" for i
    using assms that loaded_books unfolding run_moved_def list_all2_conv_all_nth list_all_length
    by (metis forward_def)
  then show ?thesis using books_outcomes by (simp add: list_all_length)
qed

text \<open>
  The states of a run: from the loaded jobs, by the turns of the loop, with the outside world
  moving on by itself between them and with any tag that may be reported.
\<close>

inductive engine_reach ::
    "'w sys \<Rightarrow> nat list list \<Rightarrow> nat list \<Rightarrow> int \<Rightarrow> int list \<Rightarrow> job list \<Rightarrow> 'w run_ctx \<Rightarrow> job list \<Rightarrow> bool"
  for sy needs groups mp caps js0 where
  start: "skip_disabled sy cx js0 = Some (Inr (cx', js)) \<Longrightarrow> engine_reach sy needs groups mp caps js0 cx' js"
| head: "engine_reach sy needs groups mp caps js0 cx js \<Longrightarrow>
    loop_head sy needs groups mp caps cx js = Some (Inr (cx', js')) \<Longrightarrow> engine_reach sy needs groups mp caps js0 cx' js'"
| world: "engine_reach sy needs groups mp caps js0 cx js \<Longrightarrow> engine_reach sy needs groups mp caps js0 (cx\<lparr>cx_w := w\<rparr>) js"
| tag: "engine_reach sy needs groups mp caps js0 cx js \<Longrightarrow> tag_reportable js tg \<Longrightarrow>
    handle_tag sy tg cx js = Some (Inr (cx', js')) \<Longrightarrow> engine_reach sy needs groups mp caps js0 cx' js'"

lemma engine_reach_moved:
  assumes "engine_reach sy needs groups mp caps js0 cx js" "list_all loaded js0"
  shows "run_moved js0 js"
  using assms(1)
proof (induction rule: engine_reach.induct)
  case (start cx cx' js)
  have "list_all settled js0" "list_all (\<lambda>j. jb_state j = QWE_LC_PENDING) js0"
    using assms(2) loaded_settled by (simp_all add: list_all_iff)
  from skip_disabled_moved [OF this, of sy cx] start show ?case by (auto simp: goods_def)
next
  case (head cx js cx' js')
  then have "list_all settled js" by (simp add: run_moved_def)
  from loop_head_moved [OF this, of sy needs groups mp caps cx] head(2,3) show ?case
    by (auto simp: goods_def intro: run_moved_trans)
next
  case (tag cx js tg cx' js')
  then have "list_all settled js" by (simp add: run_moved_def)
  from handle_tag_moved [OF this tag(2), of sy cx] tag(3,4) show ?case
    by (auto simp: goods_def intro: run_moved_trans)
qed

text \<open>Safe: it returns, and not with the lifecycle's abort.\<close>

definition safe_turn :: "'w run_result \<Rightarrow> bool" where
  "safe_turn x \<longleftrightarrow> (case x of None \<Rightarrow> False | Some (Inl a) \<Rightarrow> a = Out_of_memory | Some (Inr _) \<Rightarrow> True)"

lemma goods_safe: "x = Some r \<Longrightarrow> goods r P \<Longrightarrow> safe_turn x"
  by (auto simp: safe_turn_def goods_def split: sum.splits)

text \<open>What a job holds in the state it is in.\<close>

definition holds_right :: "job \<Rightarrow> bool" where
  "holds_right j \<longleftrightarrow>
     (qwe_lc_state_is_final (jb_state j) \<or> jb_state j \<in> {QWE_LC_PENDING, QWE_LC_READY}
        \<longrightarrow> \<not> jr_ring_ok j \<and> \<not> jr_sink_ok j \<and> \<not> jr_timer_ok j \<and> \<not> jr_proc_ok j \<and> jr_live_step j = -1)
   \<and> (step_in_flight (jb_state j)
        \<longrightarrow> jr_ring_ok j \<and> jr_sink_ok j \<and> jr_timer_ok j \<and> jr_proc_ok j
            \<and> jr_live_step j = int (jr_cur j) \<and> jr_cur j < jb_nsteps j)
   \<and> (\<forall>ss. jb_steps j = Some ss \<longrightarrow> length ss = jb_nsteps j)
   \<and> jb_state j \<noteq> QWE_LC_BETWEEN_STEPS"

lemma settled_holds:
  assumes "settled j"
  shows "holds_right j"
proof -
  have "jb_state j \<in> {QWE_LC_PENDING, QWE_LC_READY} \<or> step_in_flight (jb_state j) \<or> qwe_lc_state_is_final (jb_state j)"
    using assms by (cases "jb_state j") (simp_all add: settled_def lcm_defs lc_order lc_pred_defs)
  then have n: "nres j \<noteq> None \<Longrightarrow> nres j = Some (jb_nsteps j)"
    using assms by (auto simp: settled_def job_ok_def waiting_def flight_def ended_def)
  then have "\<forall>ss. jb_steps j = Some ss \<longrightarrow> length ss = jb_nsteps j" by (auto simp: nres_def)
  then show ?thesis
    using assms by (auto simp: settled_def job_ok_def waiting_def flight_def ended_def rsrc_def holds_right_def)
qed

text \<open>A verdict after the head of a turn.\<close>

lemma verdict_not_stuck:
  assumes s: "quiet needs groups mp caps js" and n: "length needs = length js" "length groups = length js"
    and acyc: "\<forall>i < length js. \<forall>d \<in> set (needs ! i). d < length js \<and> rank d < (rank i :: nat)"
    and caps: "\<forall>g \<in> set groups. g \<noteq> 0 \<longrightarrow> 0 < caps ! (g - 1) \<and> caps ! (g - 1) < 2 ^ 63" and mp: "mp < 2 ^ 63"
  shows "loop_verdict js \<noteq> Stuck"
proof
  assume "loop_verdict js = Stuck"
  then have r: "filter (\<lambda>j. qwe_lc_state_is_running (jb_state j)) js = []"
    and f: "\<not> (\<forall>j \<in> set js. qwe_lc_state_is_final (jb_state j))"
    by (auto simp: loop_verdict_def split: if_splits) (metis filter_True)
  let ?v = "sched_view needs groups js"
  from f obtain i where i: "i < length js" "\<not> qwe_lc_state_is_final (jb_state (js ! i))" by (auto simp: in_set_conv_nth)
  have "qwe_sched_pass ?v mp caps \<noteq> []"
  proof (rule sched_progress [where rank = rank and ?i0.0 = i])
    show "\<forall>i < length ?v. \<forall>d \<in> set (sj_needs (?v ! i)). d < length ?v \<and> rank d < rank i"
      using acyc by (simp add: sched_view_def)
    show "\<forall>j \<in> set ?v. sj_group j \<noteq> 0 \<longrightarrow> 0 < caps ! (sj_group j - 1) \<and> caps ! (sj_group j - 1) < 2 ^ 63"
      using caps n(2) by (auto simp: sched_view_def)
    show "running_count ?v = 0"
      using r by (auto simp: running_count_def sched_view_def filter_empty_conv)
  qed (use i mp in \<open>simp_all add: sched_view_def\<close>)
  with s show False by (simp add: quiet_def)
qed

lemma verdict_final: "loop_verdict js = All_final \<Longrightarrow> list_all (\<lambda>j. qwe_lc_state_is_final (jb_state j)) js"
  by (auto simp: loop_verdict_def list_all_iff split: if_splits) (metis filter_id_conv length_filter_less less_irrefl)

text \<open>The session groups of a run are within its caps.\<close>

lemma group_loop_ok:
  assumes "\<And>t. 0 < msess t \<and> msess t < 2 ^ 63" and "\<forall>c \<in> set caps. 0 < c \<and> c < (2 ^ 63 :: int)"
    and "length names = length caps" and "group_loop msess js names caps = (groups, caps')"
  shows "length groups = length js \<and> (\<exists>rest. caps' = caps @ rest) \<and> (\<forall>c \<in> set caps'. 0 < c \<and> c < 2 ^ 63)
    \<and> (\<forall>g \<in> set groups. g \<le> length caps')"
  using assms(2-4)
proof (induction js arbitrary: names caps groups)
  case (Cons j js)
  show ?case
  proof (cases "jb_target j = ''local''")
    case True
    with Cons.prems(3) obtain gs where "group_loop msess js names caps = (gs, caps')" "groups = 0 # gs"
      by (auto simp: apfst_def map_prod_def split: prod.splits)
    with Cons.IH [OF Cons.prems(1,2)] show ?thesis by auto
  next
    case False
    show ?thesis
    proof (cases "find (\<lambda>g. names ! g = jb_target j) [0..<length names]")
      case None
      with False Cons.prems(3) obtain gs where
        r: "group_loop msess js (names @ [jb_target j]) (caps @ [msess (jb_target j)]) = (gs, caps')"
        and g: "groups = Suc (length names) # gs"
        by (auto simp: apfst_def map_prod_def split: prod.splits)
      have "length gs = length js \<and> (\<exists>rest. caps' = (caps @ [msess (jb_target j)]) @ rest)
          \<and> (\<forall>c \<in> set caps'. 0 < c \<and> c < 2 ^ 63) \<and> (\<forall>g \<in> set gs. g \<le> length caps')"
        using Cons.prems(1,2) assms(1) by (intro Cons.IH [OF _ _ r]) auto
      with g Cons.prems(2) show ?thesis by auto
    next
      case (Some k)
      with False Cons.prems(3) obtain gs where
        r: "group_loop msess js names caps = (gs, caps')" and g: "groups = Suc k # gs"
        by (auto simp: apfst_def map_prod_def split: prod.splits)
      have "k < length caps" using Some Cons.prems(2) by (auto simp: find_Some_iff)
      with Cons.IH [OF Cons.prems(1,2) r] g show ?thesis by auto
    qed
  qed
qed simp

text \<open>The tags of one wait are reportable, each when its turn comes.\<close>

fun tags_reportable :: "'w sys \<Rightarrow> 64 word list \<Rightarrow> 'w run_ctx \<Rightarrow> job list \<Rightarrow> bool" where
  "tags_reportable sy [] cx js = True"
| "tags_reportable sy (t # ts) cx js =
     (tag_reportable js t \<and>
      (case handle_tag sy t cx js of Some (Inr (cx', js')) \<Rightarrow> tags_reportable sy ts cx' js' | _ \<Rightarrow> True))"

text \<open>
  One run, turn by turn: whether what each of its waits reports is reportable when its turn comes, and the state in which its
  wait after \<open>n\<close> further turns finds it. The world and the jobs are those of the run itself.
\<close>

fun honest_loop ::
    "nat \<Rightarrow> 'w sys \<Rightarrow> nat list list \<Rightarrow> nat list \<Rightarrow> int \<Rightarrow> int list \<Rightarrow> 'w run_ctx \<Rightarrow> job list \<Rightarrow> bool" where
  "honest_loop 0 sy needs groups mp caps cx js = True"
| "honest_loop (Suc f) sy needs groups mp caps cx js =
     (case loop_head sy needs groups mp caps cx js of
        Some (Inr (cx1, js1)) \<Rightarrow>
          loop_verdict js1 = Waiting \<longrightarrow>
            (case sy_wait sy (cx_w cx1) of (tags, w) \<Rightarrow>
               tags_reportable sy tags (cx1\<lparr>cx_w := w\<rparr>) js1
               \<and> (case handle_tags sy tags (cx1\<lparr>cx_w := w\<rparr>) js1 of
                    Some (Inr (cx2, js2)) \<Rightarrow> honest_loop f sy needs groups mp caps cx2 js2
                  | _ \<Rightarrow> True))
      | _ \<Rightarrow> True)"

fun wait_state ::
    "nat \<Rightarrow> 'w sys \<Rightarrow> nat list list \<Rightarrow> nat list \<Rightarrow> int \<Rightarrow> int list \<Rightarrow> 'w run_ctx \<Rightarrow> job list \<Rightarrow> ('w run_ctx \<times> job list) option" where
  "wait_state 0 sy needs groups mp caps cx js =
     (case loop_head sy needs groups mp caps cx js of
        Some (Inr (cx1, js1)) \<Rightarrow> if loop_verdict js1 = Waiting then Some (cx1, js1) else None
      | _ \<Rightarrow> None)"
| "wait_state (Suc n) sy needs groups mp caps cx js =
     (case loop_head sy needs groups mp caps cx js of
        Some (Inr (cx1, js1)) \<Rightarrow>
          if loop_verdict js1 \<noteq> Waiting then None
          else (case sy_wait sy (cx_w cx1) of (tags, w) \<Rightarrow>
                  case handle_tags sy tags (cx1\<lparr>cx_w := w\<rparr>) js1 of
                    Some (Inr (cx2, js2)) \<Rightarrow> wait_state n sy needs groups mp caps cx2 js2
                  | _ \<Rightarrow> None)
      | _ \<Rightarrow> None)"

text \<open>The state in which the loop of \<open>run_all\<close> begins.\<close>

definition run_begins :: "'w sys \<Rightarrow> 'w run_ctx \<Rightarrow> job list \<Rightarrow> ('w run_ctx \<times> job list) option" where
  "run_begins sy cx js0 =
     (case xallocs (sy_alloc sy) (4 + length js0) (cx_k cx) of
        None \<Rightarrow> None
      | Some k \<Rightarrow> (case skip_disabled sy (cx\<lparr>cx_k := k\<rparr>) js0 of Some (Inr s) \<Rightarrow> Some s | _ \<Rightarrow> None))"

definition epoll_honest :: "nat \<Rightarrow> 'w sys \<Rightarrow> int \<Rightarrow> 'w run_ctx \<Rightarrow> job list \<Rightarrow> bool" where
  "epoll_honest turns sy mp cx js0 \<longleftrightarrow>
     (case run_begins sy cx js0 of
        None \<Rightarrow> True
      | Some (cx1, js1) \<Rightarrow>
          (case group_loop (sy_max_sessions sy) js0 [] [] of (groups, caps) \<Rightarrow>
             honest_loop turns sy (map (needs_idx js0) js0) groups mp caps cx1 js1))"

definition run_waits :: "nat \<Rightarrow> 'w sys \<Rightarrow> int \<Rightarrow> 'w run_ctx \<Rightarrow> job list \<Rightarrow> bool" where
  "run_waits turns sy mp cx js0 \<longleftrightarrow>
     (case run_begins sy cx js0 of
        None \<Rightarrow> False
      | Some (cx1, js1) \<Rightarrow>
          (case group_loop (sy_max_sessions sy) js0 [] [] of (groups, caps) \<Rightarrow>
             (case wait_state (turns - 1) sy (map (needs_idx js0) js0) groups mp caps cx1 js1 of
                None \<Rightarrow> False
              | Some (cx2, js2) \<Rightarrow> list_ex (\<lambda>j. qwe_lc_state_is_running (jb_state j)) js2)))"

lemma handle_tags_reach:
  assumes "engine_reach sy needs groups mp caps js0 cx js" "list_all loaded js0" "tags_reportable sy ts cx js"
  shows "\<exists>r. handle_tags sy ts cx js = Some r \<and>
    (case r of Inl a \<Rightarrow> a = Out_of_memory | Inr (cx', js') \<Rightarrow> engine_reach sy needs groups mp caps js0 cx' js')"
  using assms(1,3)
proof (induction ts arbitrary: cx js)
  case (Cons t ts)
  have s: "list_all settled js" using engine_reach_moved [OF Cons.prems(1) assms(2)] by (simp add: run_moved_def)
  have tr: "tag_reportable js t" using Cons.prems(2) by simp
  obtain r where r: "handle_tag sy t cx js = Some r" "goods r (run_moved js)" using handle_tag_moved [OF s tr] by blast
  show ?case
  proof (cases r)
    case (Inl a)
    with r show ?thesis by (simp add: goods_def)
  next
    case (Inr x)
    with r obtain cx1 js1 where h: "handle_tag sy t cx js = Some (Inr (cx1, js1))" by (cases x) simp
    have "engine_reach sy needs groups mp caps js0 cx1 js1" using engine_reach.tag [OF Cons.prems(1) tr h] .
    with Cons.IH [of cx1 js1] Cons.prems(2) h show ?thesis by simp
  qed
qed simp

text \<open>What the loop can end with: by itself, all final; without memory; or at a wait for a running job.\<close>

definition loop_end_ok ::
    "nat \<Rightarrow> 'w sys \<Rightarrow> nat list list \<Rightarrow> nat list \<Rightarrow> int \<Rightarrow> int list \<Rightarrow> job list \<Rightarrow> 'w run_ctx \<Rightarrow> job list
     \<Rightarrow> (engine_abort + bool \<times> 'w run_ctx \<times> job list) option \<Rightarrow> bool" where
  "loop_end_ok turns sy needs groups mp caps js0 cx js x \<longleftrightarrow>
     (case x of
        None \<Rightarrow> \<exists>cx2 js2. wait_state (turns - 1) sy needs groups mp caps cx js = Some (cx2, js2)
          \<and> list_ex (\<lambda>j. qwe_lc_state_is_running (jb_state j)) js2
      | Some (Inl a) \<Rightarrow> a = Out_of_memory
      | Some (Inr (ok, cx', js')) \<Rightarrow> ok \<and> list_all (\<lambda>j. qwe_lc_state_is_final (jb_state j) \<and> holds_right j \<and> outcomes_known j) js'
          \<and> map jb_id js' = map jb_id js0)"

definition run_end_ok ::
    "nat \<Rightarrow> 'w sys \<Rightarrow> int \<Rightarrow> 'w run_ctx \<Rightarrow> job list \<Rightarrow> (engine_abort + bool \<times> 'w run_ctx \<times> job list) option \<Rightarrow> bool" where
  "run_end_ok turns sy mp cx js0 x \<longleftrightarrow>
     (case x of
        None \<Rightarrow> run_waits turns sy mp cx js0
      | Some (Inl a) \<Rightarrow> a = Out_of_memory \<and> short_of_memory (sy_alloc sy)
      | Some (Inr (ok, cx', js')) \<Rightarrow> ok \<and> list_all (\<lambda>j. qwe_lc_state_is_final (jb_state j) \<and> holds_right j \<and> outcomes_known j) js'
          \<and> map jb_id js' = map jb_id js0)"

lemma moved_ids: "run_moved js js' \<Longrightarrow> map jb_id js' = map jb_id js"
  unfolding run_moved_def list_all2_conv_all_nth forward_def stable_def by (auto intro: nth_equalityI)

lemma waiting_runs: "loop_verdict js = Waiting \<Longrightarrow> list_ex (\<lambda>j. qwe_lc_state_is_running (jb_state j)) js"
  by (auto simp: loop_verdict_def list_ex_iff filter_empty_conv split: if_splits)

lemma run_loop_end:
  assumes "engine_reach sy needs groups mp caps js0 cx js" and load: "list_all loaded js0"
    and "honest_loop turns sy needs groups mp caps cx js" and "0 < turns"
    and n: "length needs = length js0" "length groups = length js0"
    and acyc: "\<forall>i < length js0. \<forall>d \<in> set (needs ! i). d < length js0 \<and> rank d < (rank i :: nat)"
    and caps: "\<forall>g \<in> set groups. g \<noteq> 0 \<longrightarrow> 0 < caps ! (g - 1) \<and> caps ! (g - 1) < 2 ^ 63" and mp: "mp < 2 ^ 63"
  shows "loop_end_ok turns sy needs groups mp caps js0 cx js (run_loop turns sy needs groups mp caps cx js)"
  using assms(1,3,4)
proof (induction turns arbitrary: cx js)
  case (Suc t)
  have s: "list_all settled js" using engine_reach_moved [OF Suc.prems(1) load] by (simp add: run_moved_def)
  obtain r where r: "loop_head sy needs groups mp caps cx js = Some r"
      "goods r (\<lambda>js'. run_moved js js' \<and> quiet needs groups mp caps js')" using loop_head_moved [OF s] by blast
  show ?case
  proof (cases r)
    case (Inl a)
    with r show ?thesis by (simp add: goods_def loop_end_ok_def)
  next
    case (Inr x)
    with r obtain cx1 js1 where h: "loop_head sy needs groups mp caps cx js = Some (Inr (cx1, js1))"
      and q: "quiet needs groups mp caps js1" by (cases x) (auto simp: goods_def)
    have re: "engine_reach sy needs groups mp caps js0 cx1 js1" using engine_reach.head [OF Suc.prems(1) h] .
    note m = engine_reach_moved [OF re load]
    have ns: "loop_verdict js1 \<noteq> Stuck"
      by (rule verdict_not_stuck [where rank = rank, OF q]) (use n acyc caps mp run_moved_length [OF m] in simp_all)
    show ?thesis
    proof (cases "loop_verdict js1")
      case All_final
      then show ?thesis
        using h m verdict_final [OF All_final] settled_holds moved_ids [OF m] moved_outcomes [OF m load]
        by (simp add: loop_end_ok_def run_moved_def list_all_iff)
    next
      case Waiting
      obtain tags w where w: "sy_wait sy (cx_w cx1) = (tags, w)" by (cases "sy_wait sy (cx_w cx1)")
      have "tags_reportable sy tags (cx1\<lparr>cx_w := w\<rparr>) js1" using Suc.prems(2) h w Waiting by simp
      with handle_tags_reach [OF engine_reach.world [OF re] load] obtain r2 where
        h2: "handle_tags sy tags (cx1\<lparr>cx_w := w\<rparr>) js1 = Some r2" and
        g2: "case r2 of Inl a \<Rightarrow> a = Out_of_memory | Inr (cx', js') \<Rightarrow> engine_reach sy needs groups mp caps js0 cx' js'"
        by blast
      show ?thesis
      proof (cases r2)
        case (Inl a)
        with g2 h h2 w Waiting show ?thesis by (simp add: loop_end_ok_def)
      next
        case (Inr y)
        then obtain cx2 js2 where y: "r2 = Inr (cx2, js2)" by (cases y) simp
        have e: "run_loop (Suc t) sy needs groups mp caps cx js = run_loop t sy needs groups mp caps cx2 js2"
          using h h2 w Waiting y by simp
        show ?thesis
        proof (cases t)
          case 0
          with e h Waiting waiting_runs [OF Waiting] show ?thesis by (simp add: loop_end_ok_def)
        next
          case (Suc t')
          have "honest_loop t sy needs groups mp caps cx2 js2" using Suc.prems(2) h h2 w Waiting y by simp
          with g2 y Suc have "loop_end_ok t sy needs groups mp caps js0 cx2 js2 (run_loop t sy needs groups mp caps cx2 js2)"
            by (intro Suc.IH) simp_all
          moreover have "wait_state (Suc t - 1) sy needs groups mp caps cx js = wait_state (t - 1) sy needs groups mp caps cx2 js2"
            using h h2 w Waiting y Suc by simp
          ultimately show ?thesis unfolding e loop_end_ok_def by (simp only:)
        qed
      qed
    qed (use ns in simp)
  qed
qed simp

lemma find_job_from_bound: "find_job_from i js x = Some d \<Longrightarrow> d < i + length js"
  by (induction js arbitrary: i) (auto split: if_splits, fastforce)

lemma run_all_end:
  assumes "list_all loaded js0" and "0 < turns"
    and needs: "\<forall>i < length js0. \<forall>x \<in> set (jb_needs (js0 ! i)). \<exists>d. find_job js0 x = Some d \<and> rank d < (rank i :: nat)"
    and sess: "\<forall>t. 0 < sy_max_sessions sy t \<and> sy_max_sessions sy t < 2 ^ 63" and mp: "mp < 2 ^ 63"
    and honest: "epoll_honest turns sy mp cx js0"
  shows "run_end_ok turns sy mp cx js0 (run_all turns sy mp cx js0)"
proof (cases "xallocs (sy_alloc sy) (4 + length js0) (cx_k cx)")
  case None
  with xallocs_short [OF None] show ?thesis by (simp add: run_all_def run_end_ok_def split: prod.splits)
next
  case alloc: (Some k)
  obtain groups caps where g: "group_loop (sy_max_sessions sy) js0 [] [] = (groups, caps)"
    by (cases "group_loop (sy_max_sessions sy) js0 [] []")
  let ?needs = "map (needs_idx js0) js0"
  have "list_all settled js0" "list_all (\<lambda>j. jb_state j = QWE_LC_PENDING) js0"
    using assms(1) loaded_settled by (simp_all add: list_all_iff)
  from skip_disabled_moved [OF this, of sy "cx\<lparr>cx_k := k\<rparr>"] obtain r where
    r: "skip_disabled sy (cx\<lparr>cx_k := k\<rparr>) js0 = Some r" "goods r (run_moved js0)" by blast
  have gl: "length groups = length js0" "\<forall>c \<in> set caps. 0 < c \<and> c < 2 ^ 63" "\<forall>g \<in> set groups. g \<le> length caps"
    using group_loop_ok [OF _ _ _ g] sess by simp_all
  then have caps: "\<forall>g \<in> set groups. g \<noteq> 0 \<longrightarrow> 0 < caps ! (g - 1) \<and> caps ! (g - 1) < 2 ^ 63"
    by (metis One_nat_def Suc_pred le_imp_less_Suc less_Suc_eq_le neq0_conv not_less_eq nth_mem)
  have acyc: "\<forall>i < length js0. \<forall>d \<in> set (?needs ! i). d < length js0 \<and> rank d < rank i"
    using needs find_job_from_bound [of 0 js0] by (fastforce simp: needs_idx_def find_job_def)
  show ?thesis
  proof (cases r)
    case (Inl a)
    with r skip_disabled_short [of sy] g alloc show ?thesis by (simp add: run_all_def goods_def run_end_ok_def)
  next
    case (Inr x)
    with r obtain cx1 js1 where k: "skip_disabled sy (cx\<lparr>cx_k := k\<rparr>) js0 = Some (Inr (cx1, js1))" by (cases x) simp
    have b: "run_begins sy cx js0 = Some (cx1, js1)" using alloc k by (simp add: run_begins_def)
    have e: "run_all turns sy mp cx js0 = run_loop turns sy ?needs groups mp caps cx1 js1" using alloc k g by (simp add: run_all_def)
    have "honest_loop turns sy ?needs groups mp caps cx1 js1" using honest b g by (simp add: epoll_honest_def)
    then have "loop_end_ok turns sy ?needs groups mp caps js0 cx1 js1 (run_all turns sy mp cx js0)"
      unfolding e using engine_reach.start [OF k] assms(1,2) gl(1) acyc caps mp
      by (intro run_loop_end [where rank = rank]) auto
    then show ?thesis using b g run_all_short [of turns sy mp cx js0]
      by (cases "run_all turns sy mp cx js0") (auto simp: loop_end_ok_def run_end_ok_def run_waits_def split: option.splits sum.splits)
  qed
qed

section \<open>Properties\<close>

text \<open>Two jobs, one on a target out of service and one that needs it.\<close>

definition jobs_run_ex :: "job list" where
  "jobs_run_ex = [(job_loaded ''a'' ''web'' [] [\<lparr>sp_id = None, sp_name = None, sp_uses = None, sp_coe = False\<rparr>] 0)\<lparr>jb_detail := Some ''down''\<rparr>,
     job_loaded ''b'' ''local'' [''a''] [\<lparr>sp_id = None, sp_name = None, sp_uses = None, sp_coe = False\<rparr>] 0]"

lemma jobs_run_ex_facts:
  "list_all loaded jobs_run_ex" "\<exists>cx' js. skip_disabled sys_ex cx_ex jobs_run_ex = Some (Inr (cx', js))"
  "map_option (map_sum (\<lambda>_. ()) (\<lambda>(ok, cx, js). (ok, map jb_state js))) (run_all 1 sys_ex 0 cx_ex jobs_run_ex)
    = Some (Inr (True, [QWE_LC_SKIPPED, QWE_LC_SKIPPED]))"
proof -
  show "list_all loaded jobs_run_ex" by code_simp
  have "(case skip_disabled sys_ex cx_ex jobs_run_ex of Some (Inr _) \<Rightarrow> True | _ \<Rightarrow> False)" by code_simp
  then show "\<exists>cx' js. skip_disabled sys_ex cx_ex jobs_run_ex = Some (Inr (cx', js))"
    by (auto split: option.splits sum.splits)
  show "map_option (map_sum (\<lambda>_. ()) (\<lambda>(ok, cx, js). (ok, map jb_state js))) (run_all 1 sys_ex 0 cx_ex jobs_run_ex)
    = Some (Inr (True, [QWE_LC_SKIPPED, QWE_LC_SKIPPED]))" by code_simp
qed

text \<open>C2. The engine never aborts on the lifecycle: in every state a run can reach, whatever the
  system answers, the scheduling part of a turn and the handling of every tag that epoll may report
  return, within the bounds of their loops, and never with an event that the state of its job cannot
  have; the only way a turn stops the program is an allocation that must not fail.\<close>

theorem engine_never_impossible:
  assumes "engine_reach sy needs groups mp caps js0 cx js" and "list_all loaded js0"
  shows "safe_turn (loop_head sy needs groups mp caps cx js)
    \<and> (\<forall>tg. tag_reportable js tg \<longrightarrow> safe_turn (handle_tag sy tg cx js))"
proof -
  have s: "list_all settled js" using engine_reach_moved [OF assms] by (simp add: run_moved_def)
  have "safe_turn (loop_head sy needs groups mp caps cx js)"
    using loop_head_moved [OF s, of sy needs groups mp caps cx] goods_safe by blast
  moreover have "safe_turn (handle_tag sy tg cx js)" if "tag_reportable js tg" for tg
    using handle_tag_moved [OF s that, of sy cx] goods_safe by blast
  ultimately show ?thesis by blast
qed

theorem engine_never_impossible_witness:
  "\<exists>cx js. engine_reach sys_ex [[], [0]] [1, 0] 0 [8] jobs_run_ex cx js
     \<and> safe_turn (loop_head sys_ex [[], [0]] [1, 0] 0 [8] cx js) \<and> safe_turn (handle_tag sys_ex (tag_make 0 EV_CHILD 0) cx js)"
proof -
  obtain cx' js where "skip_disabled sys_ex cx_ex jobs_run_ex = Some (Inr (cx', js))" using jobs_run_ex_facts(2) by blast
  then have r: "engine_reach sys_ex [[], [0]] [1, 0] 0 [8] jobs_run_ex cx' js" by (rule engine_reach.start)
  have "tag_kind (tag_make 0 EV_CHILD 0) = Some EV_CHILD" by code_simp
  then have "tag_reportable js (tag_make 0 EV_CHILD 0)" by (simp add: tag_reportable_def)
  with engine_never_impossible [OF r jobs_run_ex_facts(1)] r show ?thesis by blast
qed

text \<open>C3. What a job holds fits its state in every reachable state of a run: a job that has not
  been granted a slot or is final holds no ring, log, timer or process and has no live step; a job
  with a step in flight holds them all and its live step is the one its cursor is at; the results
  are one per step; no job rests between two steps; and a job that was started and has ended has an
  outcome on every step, so the reports can read them. A job keeps its identity, its steps and what
  it was told, keeps a final state, and never moves back to waiting: from the loaded jobs to every reachable state, by the
  scheduling part of a turn, and by the handling of every tag that epoll may report.\<close>

theorem engine_holds_what_its_state_says:
  assumes "engine_reach sy needs groups mp caps js0 cx js" and "list_all loaded js0"
  shows "list_all (\<lambda>j. holds_right j \<and> outcomes_known j) js \<and> list_all2 stable js0 js
    \<and> (\<forall>cx' js'. loop_head sy needs groups mp caps cx js = Some (Inr (cx', js')) \<longrightarrow> list_all2 stable js js')
    \<and> (\<forall>tg cx' js'. tag_reportable js tg \<longrightarrow> handle_tag sy tg cx js = Some (Inr (cx', js')) \<longrightarrow> list_all2 stable js js')"
proof -
  note m = engine_reach_moved [OF assms]
  then have s: "list_all settled js" by (simp add: run_moved_def)
  have st: "list_all2 stable js js'" if "run_moved js js'" for js js' :: "job list"
    using that list_all2_mono [of forward js js' stable] forward_stable by (auto simp: run_moved_def)
  have "list_all2 stable js js'" if "loop_head sy needs groups mp caps cx js = Some (Inr (cx', js'))" for cx' js'
    using loop_head_moved [OF s, of sy needs groups mp caps cx] that st by (auto simp: goods_def)
  moreover have "list_all2 stable js js'" if "tag_reportable js tg" "handle_tag sy tg cx js = Some (Inr (cx', js'))" for tg cx' js'
    using handle_tag_moved [OF s that(1), of sy cx] that(2) st by (auto simp: goods_def)
  ultimately show ?thesis using st [OF m] s settled_holds moved_outcomes [OF m assms(2)] by (simp add: list_all_iff)
qed

theorem engine_holds_what_its_state_says_witness:
  "\<exists>cx js. engine_reach sys_ex [[], [0]] [1, 0] 0 [8] jobs_run_ex cx js \<and> list_all (\<lambda>j. holds_right j \<and> outcomes_known j) js
     \<and> list_all2 stable jobs_run_ex js"
proof -
  obtain cx' js where "skip_disabled sys_ex cx_ex jobs_run_ex = Some (Inr (cx', js))" using jobs_run_ex_facts(2) by blast
  then have r: "engine_reach sys_ex [[], [0]] [1, 0] 0 [8] jobs_run_ex cx' js" by (rule engine_reach.start)
  from engine_holds_what_its_state_says [OF r jobs_run_ex_facts(1)] r show ?thesis by blast
qed

text \<open>
  A live system: the step of the first job stays past its time, so its output, its timer and its grace
  timer are reported, one wait after the other, and then the end of the killed process.
\<close>

definition sys_live :: "nat sys" where
  "sys_live = \<lparr>sy_ask = \<lambda>q w. (q \<noteq> Q_CANCEL_PENDING, w), sy_time = \<lambda>w. (0, w), sy_mono_ns = \<lambda>w. (0, w), sy_errno = \<lambda>_. 12,
     sy_strerrorname = \<lambda>_. None, sy_ring_mem = \<lambda>w. (Some (replicate QWE_RING_CAPACITY (CHR 0x00)), w), sy_open_log = \<lambda>_ w. (Some \<lparr>of_data = [], of_rets = []\<rparr>, w),
     sy_resolve = \<lambda>_ _ _ _ w. (Some (1000, None, False), w), sy_spawn_op = \<lambda>_. [], sy_pid = \<lambda>_. 7,
     sy_read_out = \<lambda>_ w. ([RD_AGAIN], w), sy_read_res = \<lambda>_ w. ([RD_AGAIN], w), sy_decode = \<lambda>_. None,
     sy_store = \<lambda>_ w. (None, w), sy_take_output = \<lambda>_ w. (False, w),
     sy_wait = \<lambda>w. (if w = 0 then [tag_make 0 EV_OUT 0, tag_make 0 EV_STEP_TIMER 0]
                    else if w = 1 then [tag_make 0 EV_GRACE_TIMER 0] else [0xFFFFFFFF05000000], Suc w),
     sy_exits = \<lambda>w. ([(7, W_SIGNALED 9)], w), sy_max_sessions = \<lambda>_. 8, sy_alloc = \<lambda>_. True\<rparr>"

definition cx_live :: "nat run_ctx" where
  "cx_live = \<lparr>cx_w = 0, cx_term = \<lparr>of_data = [], of_rets = []\<rparr>, cx_k = 0, cx_secrets = \<lparr>ss_vals = [], ss_capset = 0\<rparr>,
     cx_cancel_requested = False, cx_grace_ms = 10000, cx_debug = False, cx_trace = [], cx_signals = [],
     cx_run_dir = ''run'', cx_run_dir_abs = ''/run'', cx_run_id = ''r''\<rparr>"

definition jobs_live :: "job list" where
  "jobs_live = [job_loaded ''a'' ''local'' [] [\<lparr>sp_id = None, sp_name = None, sp_uses = None, sp_coe = False\<rparr>] 0,
     job_loaded ''b'' ''local'' [''a''] [\<lparr>sp_id = None, sp_name = None, sp_uses = None, sp_coe = False\<rparr>] 0]"

declare QWE_RING_CAPACITY_def [code del]

lemma jobs_live_honest: "epoll_honest 4 sys_live 0 cx_live jobs_live"
  by code_simp

lemma jobs_live_run:
  "map_option (map_sum (\<lambda>_. ()) (\<lambda>(ok, cx, js). (ok, map jb_state js, cx_signals cx))) (run_all 4 sys_live 0 cx_live jobs_live)
    = Some (Inr (True, [QWE_LC_FAILED, QWE_LC_SKIPPED], [SIGTERM_TO 7, SIGKILL_TO 7]))"
  by code_simp

text \<open>With two turns it is still at its second wait, and with the second job not begun.\<close>

lemma jobs_live_short: "run_all 2 sys_live 0 cx_live jobs_live = None" "run_waits 2 sys_live 0 cx_live jobs_live"
  by code_simp+

text \<open>C4. A run of loaded jobs whose needs name jobs of the run and have no cycle, with positive
  limits, is never stuck: when each tag its waits report is one epoll can report at that moment of
  this run, then the loop ends by itself with success, every job final, holding nothing and with the
  outcome of every step known; or it stops because an allocation that must not fail did fail; or, when the bound on its turns is too small
  for it, the run itself is at a wait, after as many turns as were allowed, with a job still running.\<close>

theorem run_all_outcome:
  assumes "list_all loaded js0" and "0 < turns"
    and "\<forall>i < length js0. \<forall>x \<in> set (jb_needs (js0 ! i)). \<exists>d. find_job js0 x = Some d \<and> rank d < (rank i :: nat)"
    and "\<forall>t. 0 < sy_max_sessions sy t \<and> sy_max_sessions sy t < 2 ^ 63" and "mp < 2 ^ 63"
    and "epoll_honest turns sy mp cx js0"
  shows "run_end_ok turns sy mp cx js0 (run_all turns sy mp cx js0)"
  using assms by (rule run_all_end)

theorem run_all_outcome_witness:
  "epoll_honest 4 sys_live 0 cx_live jobs_live
   \<and> run_end_ok 4 sys_live 0 cx_live jobs_live (run_all 4 sys_live 0 cx_live jobs_live)
   \<and> map_option (map_sum (\<lambda>_. ()) (\<lambda>(ok, cx, js). (ok, map jb_state js, cx_signals cx))) (run_all 4 sys_live 0 cx_live jobs_live)
      = Some (Inr (True, [QWE_LC_FAILED, QWE_LC_SKIPPED], [SIGTERM_TO 7, SIGKILL_TO 7]))"
proof -
  have "list_all loaded jobs_live" by code_simp
  moreover have "\<forall>i < length jobs_live. \<forall>x \<in> set (jb_needs (jobs_live ! i)). \<exists>d. find_job jobs_live x = Some d \<and> id d < id i"
    by (auto simp: jobs_live_def less_Suc_eq job_loaded_def find_job_def)
  moreover have "\<forall>t. 0 < sy_max_sessions sys_live t \<and> sy_max_sessions sys_live t < 2 ^ 63" by (simp add: sys_live_def)
  ultimately have "run_end_ok 4 sys_live 0 cx_live jobs_live (run_all 4 sys_live 0 cx_live jobs_live)"
    using jobs_live_honest by (intro run_all_outcome [where rank = id]) auto
  with jobs_live_run jobs_live_honest show ?thesis by blast
qed

end
