(* ===== verification/Engine_Steps.thy ===== *)
theory Engine_Steps
  imports Engine_Run
begin

unbundle bit_operations_syntax

text \<open>
  What one event carries (\<open>src/kernel/workflow.c\<close>): the tag of an epoll event and its parts,
  the bytes of a step's result pipe, and the event and reason a leader's exit becomes.
\<close>

section \<open>Tags\<close>

lemma bit_below: "(x :: nat) < 2 ^ n \<Longrightarrow> bit x m \<Longrightarrow> m < n"
  using bit_take_bit_iff[of n x m] by (metis take_bit_nat_eq_self)

lemma bit_below_int: "0 \<le> (x :: int) \<Longrightarrow> x < 2 ^ n \<Longrightarrow> bit x m \<Longrightarrow> m < n"
  using bit_take_bit_iff[of n x m] by (metis take_bit_int_eq_self)

lemma evkind_num_bound: "evkind_num k < 7" by (cases k) simp_all

lemma evkind_of_num: "evkind_of (evkind_num k) = Some k"
  by (cases k) (simp_all add: evkind_of_def)

lemma m24: "(0xFFFFFF :: 64 word) = mask 24" "(0xFF :: 64 word) = mask 8"
  by (simp_all add: mask_eq_exp_minus_1)

lemma tag_bits:
  "bit (tag_make job k step) n \<longleftrightarrow> n < 64 \<and> (32 \<le> n \<and> bit job (n - 32) \<or> 24 \<le> n \<and> bit (evkind_num k) (n - 24)
     \<or> n < 24 \<and> bit (step + 1) n)"
proof -
  define s where "s = step + 1"
  show ?thesis unfolding tag_make_def m24 s_def [symmetric] by (auto simp: bit_simps)
qed

lemma tag_drop:
  assumes "job < 2 ^ 32"
  shows "drop_bit 32 (tag_make job k step) = (of_nat job :: 64 word)"
proof (rule bit_word_eqI)
  fix n assume "n < LENGTH(64)"
  have "\<not> bit (evkind_num k) (n + 8)" using bit_below [of "evkind_num k" 3 "n + 8"] evkind_num_bound [of k] by auto
  then show "bit (drop_bit 32 (tag_make job k step)) n = bit (of_nat job :: 64 word) n"
    using bit_below [OF assms] \<open>n < LENGTH(64)\<close> by (auto simp: bit_simps tag_bits add.commute)
qed

lemma tag_kind_bits: "drop_bit 24 (tag_make job k step) AND 0xFF = (of_nat (evkind_num k) :: 64 word)"
proof (rule bit_word_eqI)
  fix n assume "n < LENGTH(64)"
  have "bit (evkind_num k) n \<Longrightarrow> n < 3" using bit_below [of "evkind_num k" 3 n] evkind_num_bound [of k] by auto
  then show "bit (drop_bit 24 (tag_make job k step) AND 0xFF) n = bit (of_nat (evkind_num k) :: 64 word) n"
    using \<open>n < LENGTH(64)\<close> unfolding m24 by (auto simp: bit_simps tag_bits add.commute)
qed

lemma tag_step_bits:
  assumes "-1 \<le> step" "step < 2 ^ 24 - 1"
  shows "tag_make job k step AND 0xFFFFFF = (of_nat (nat (step + 1)) :: 64 word)"
proof (rule bit_word_eqI)
  fix n assume "n < LENGTH(64)"
  have "bit (step + 1) n \<Longrightarrow> n < 24" using bit_below_int [of "step + 1" 24 n] assms by auto
  moreover have "bit (nat (step + 1)) n = bit (step + 1) n" using assms by (simp add: bit_nat_iff)
  ultimately show "bit (tag_make job k step AND 0xFFFFFF) n = bit (of_nat (nat (step + 1)) :: 64 word) n"
    using \<open>n < LENGTH(64)\<close> unfolding m24 by (auto simp: bit_simps tag_bits)
qed

lemma unat_small: "x < 2 ^ 64 \<Longrightarrow> unat (of_nat x :: 64 word) = x"
  by (simp add: unat_of_nat take_bit_nat_eq_self)

section \<open>The result pipe\<close>

text \<open>The bytes of a sequence of reads, up to the end of file or to where the pipe was empty.\<close>

fun pipe_bytes :: "rd_result list \<Rightarrow> byte list" where
  "pipe_bytes [] = []"
| "pipe_bytes (RD_EINTR # rs) = pipe_bytes rs"
| "pipe_bytes (RD_AGAIN # rs) = []"
| "pipe_bytes (RD_DATA d # rs) = (if d = [] then [] else d @ pipe_bytes rs)"

lemma result_loop_overflow_keeps: "result_loop ok rs k j = (e, k', j') \<Longrightarrow> jr_res_overflow j \<Longrightarrow> jr_res_overflow j'"
  by (induction ok rs k j rule: result_loop.induct) (auto split: if_splits)

lemma result_loop_k: "result_loop ok rs k j = (e, k', j') \<Longrightarrow> k \<le> k'"
  by (induction ok rs k j rule: result_loop.induct) (auto split: if_splits dest: Suc_leD)

lemma result_loop_bytes:
  assumes "result_loop ok rs k j = (e, k', j')"
  shows "(length (jr_res_buf j) \<le> RESULT_MAX \<longrightarrow> length (jr_res_buf j') \<le> RESULT_MAX)
    \<and> (\<not> jr_res_overflow j' \<longrightarrow> jr_res_buf j' = jr_res_buf j @ pipe_bytes rs)
    \<and> (jr_res_overflow j' \<longrightarrow> jr_res_overflow j \<or> RESULT_MAX < length (jr_res_buf j @ pipe_bytes rs)
         \<or> (\<exists>i. k \<le> i \<and> i < k' \<and> \<not> ok i))"
  using assms
proof (induction ok rs k j rule: result_loop.induct)
  case (4 ok d rs k j)
  show ?case
  proof (cases "d = [] \<or> RESULT_MAX < length (jr_res_buf j) + length d")
    case True
    then show ?thesis using 4 result_loop_overflow_keeps [of ok rs k "j\<lparr>jr_res_overflow := True\<rparr>"]
      by (auto split: if_splits)
  next
    case False
    consider (fit) "length (jr_res_buf j) + length d \<le> jr_res_cap j"
      | (grow) "jr_res_cap j < length (jr_res_buf j) + length d" "ok k"
      | (fail) "jr_res_cap j < length (jr_res_buf j) + length d" "\<not> ok k" by linarith
    then show ?thesis
    proof cases
      case fit
      with False "4.IH"(4) "4.prems" show ?thesis by auto
    next
      case grow
      let ?j = "j\<lparr>jr_res_buf := jr_res_buf j @ d, jr_res_cap := grow_cap (if jr_res_cap j \<noteq> 0 then jr_res_cap j * 2 else 1024)
          (length (jr_res_buf j) + length d)\<rparr>"
      have r: "result_loop ok rs (Suc k) ?j = (e, k', j')" using grow False "4.prems" by simp
      have h: "\<not> RESULT_MAX < length (jr_res_buf j) + length d" "length (jr_res_buf j) + length d > jr_res_cap j"
        using False grow by auto
      from "4.IH"(2) [OF _ h grow(2) r] False show ?thesis by (auto dest: Suc_leD)
    next
      case fail
      then have r: "result_loop ok rs (Suc k) (j\<lparr>jr_res_overflow := True\<rparr>) = (e, k', j')" using False "4.prems" by simp
      have h: "\<not> RESULT_MAX < length (jr_res_buf j) + length d" "length (jr_res_buf j) + length d > jr_res_cap j"
        using False fail by auto
      have "k < k'" using result_loop_k [OF r] by simp
      with "4.IH"(3) [OF _ h fail(2) r] False fail result_loop_overflow_keeps [OF r] show ?thesis by auto
    qed
  qed
qed auto

section \<open>What a leader's exit leaves of the changed mark\<close>

lemma store_changed: "store_outputs sy cx j = (cx', j') \<Longrightarrow> jr_step_changed j' = jr_step_changed j"
  by (auto simp: store_outputs_def split: prod.splits option.splits)

lemma collect_changed: "collect_file_outputs sy cx j = (cx', j') \<Longrightarrow> jr_step_changed j' = jr_step_changed j"
  by (auto simp: collect_file_outputs_def split: prod.splits option.splits if_splits dest: store_changed)

lemma result_loop_changed: "result_loop ok rs k j = (e, k', j') \<Longrightarrow> jr_step_changed j' = jr_step_changed j"
  by (induction ok rs k j rule: result_loop.induct) (auto split: if_splits)

lemma changed_kept:
  assumes "drain_result sy cx (j\<lparr>jr_step_changed := True\<rparr>) = (e, cx1, j1)" and "read_step_msg sy cx1 j1 = (m, cx2, j2)"
  shows "jr_step_changed j2"
proof -
  have "jr_step_changed j1" using assms(1) by (auto simp: drain_result_def split: prod.splits dest: result_loop_changed)
  then show ?thesis
    using assms(2) by (auto simp: read_step_msg_def Let_def split: prod.splits option.splits if_splits dest: store_changed)
qed

section \<open>Properties\<close>

text \<open>A tag gives back what it was made of: for fewer than 2 to the 32 jobs and 2 to the 24 less
  one steps, the job, the kind and the step of a made tag are the ones it was made with, the step
  -1 of an event that is not a step's included.\<close>

lemma tag_roundtrip:
  assumes "job < 2 ^ 32" and "-1 \<le> step" and "step < 2 ^ 24 - 1"
  shows "tag_job (tag_make job k step) = job \<and> tag_kind (tag_make job k step) = Some k
    \<and> tag_step (tag_make job k step) = step"
proof (intro conjI)
  show "tag_job (tag_make job k step) = job"
    using assms(1) unfolding tag_job_def tag_drop [OF assms(1)] by (intro unat_small) simp
  show "tag_kind (tag_make job k step) = Some k"
    unfolding tag_kind_def tag_kind_bits using evkind_num_bound [of k] evkind_of_num [of k] unat_small [of "evkind_num k"] by simp
  have "unat (of_nat (nat (step + 1)) :: 64 word) = nat (step + 1)" using assms(2,3) by (intro unat_small) simp
  then show "tag_step (tag_make job k step) = step"
    unfolding tag_step_def tag_step_bits [OF assms(2,3)] using assms(2) by simp
qed

text \<open>C16. The result of a step is taken whole or not at all, and never more than a megabyte: a drain
  keeps the buffer within its limit; without the overflow mark the buffer has got exactly the bytes
  that were in the pipe; the mark is set only when they did not fit or memory for them was refused,
  and a result with the mark is never decoded.\<close>

theorem result_pipe_whole_or_marked:
  assumes "sy_read_res sy (jr_pid j) (cx_w cx) = (rs, w')" and "drain_result sy cx j = (eof, cx', j')"
    and "length (jr_res_buf j) \<le> RESULT_MAX"
  shows "length (jr_res_buf j') \<le> RESULT_MAX
    \<and> (\<not> jr_res_overflow j' \<longrightarrow> jr_res_buf j' = jr_res_buf j @ pipe_bytes rs)
    \<and> (jr_res_overflow j' \<longrightarrow> jr_res_overflow j \<or> RESULT_MAX < length (jr_res_buf j @ pipe_bytes rs)
         \<or> (\<exists>i. cx_k cx \<le> i \<and> i < cx_k cx' \<and> \<not> sy_alloc sy i))
    \<and> (jr_res_overflow j' \<longrightarrow> sm_status (fst (read_step_msg sy cx' j')) = MSG_NONE)"
proof -
  obtain k' where r: "result_loop (sy_alloc sy) rs (cx_k cx) j = (eof, k', j')" and k: "cx_k cx' = k'"
    using assms(1,2) by (auto simp: drain_result_def split: prod.splits)
  have "jr_res_overflow j' \<Longrightarrow> sm_status (fst (read_step_msg sy cx' j')) = MSG_NONE"
    by (simp add: read_step_msg_def Let_def)
  with result_loop_bytes [OF r] assms(3) show ?thesis unfolding k by blast
qed

theorem result_pipe_whole_or_marked_witness:
  "jr_res_buf (snd (snd (drain_result (sys_ex\<lparr>sy_read_res := \<lambda>_ w. ([RD_DATA ''ab'', RD_EINTR, RD_DATA ''c'', RD_AGAIN], w)\<rparr>) cx_ex
     (job_loaded ''j'' ''local'' [] [] 0)))) = ''abc''"
proof -
  let ?sy = "sys_ex\<lparr>sy_read_res := \<lambda>_ w. ([RD_DATA ''ab'', RD_EINTR, RD_DATA ''c'', RD_AGAIN], w)\<rparr>"
  let ?j = "job_loaded ''j'' ''local'' [] [] 0"
  obtain e cx' j' where d: "drain_result ?sy cx_ex ?j = (e, cx', j')" by (cases "drain_result ?sy cx_ex ?j")
  have r: "sy_read_res ?sy (jr_pid ?j) (cx_w cx_ex) = ([RD_DATA ''ab'', RD_EINTR, RD_DATA ''c'', RD_AGAIN], ())" by simp
  have b: "jr_res_buf ?j = []" "\<not> jr_res_overflow ?j" "sy_alloc ?sy i" for i
    by (simp_all add: job_loaded_def sys_ex_def)
  then have "length (jr_res_buf ?j) \<le> RESULT_MAX" "\<not> RESULT_MAX < length (jr_res_buf ?j @ pipe_bytes (fst (sy_read_res ?sy (jr_pid ?j) (cx_w cx_ex))))"
    by (simp_all add: RESULT_MAX_def)
  with result_pipe_whole_or_marked [OF r d] b have "jr_res_buf j' = ''abc''" unfolding r by auto
  with d show ?thesis by simp
qed

text \<open>How a step ends is decided by what it said and by its exit: it succeeds exactly when its
  leader exited with 0 and, for a plugin, it sent \<open>ok\<close> or \<open>exec\<close>, and for a \<open>run:\<close> step, it
  did not send \<open>failed\<close>. The reason is always one of the engine's own words, a success has the
  reason \<open>exit-code\<close>, a plugin that ends without a word has \<open>plugin-error\<close>, and a step counts
  as changed unless it said otherwise in a message that decides it.\<close>

lemma leader_exit_verdict:
  assumes "drain_result sy cx (j\<lparr>jr_step_changed := True\<rparr>) = (e, cx1, j1)" and "read_step_msg sy cx1 j1 = (m, cx2, j2)"
    and "leader_exit_event sy status cx j = ((ev, reason), cx', j')"
  defines "plugin \<equiv> jr_step_uses j"
  shows "ev = (if status = W_EXITED 0 \<and> (if plugin then sm_status m \<in> {MSG_EXEC, MSG_OK} else sm_status m \<noteq> MSG_FAILED)
               then QWE_LC_EV_LEADER_EXIT_OK else QWE_LC_EV_LEADER_EXIT_FAIL)
    \<and> reason \<in> Some ` {''exit-code'', ''not-converged'', ''become-denied'', ''engine-error'', ''plugin-error'',
         ''unreachable'', ''connection-lost''}
    \<and> (ev = QWE_LC_EV_LEADER_EXIT_OK \<longrightarrow> reason = Some ''exit-code'')
    \<and> (plugin \<and> sm_status m = MSG_NONE \<longrightarrow> reason = Some ''plugin-error'')
    \<and> jr_step_changed j' = ((if plugin then sm_status m \<in> {MSG_OK, MSG_FAILED} else sm_status m = MSG_FAILED) \<longrightarrow> sm_changed m)"
proof -
  obtain cx3 j3 where c: "collect_file_outputs sy cx2 j2 = (cx3, j3)" by (cases "collect_file_outputs sy cx2 j2")
  have ch: "jr_step_changed j2" "jr_step_changed j3"
    using changed_kept [OF assms(1,2)] collect_changed [OF c] by simp_all
  have sm: "sm_status m = MSG_FAILED \<Longrightarrow> sm_reason m \<in> Some ` {''not-converged'', ''become-denied'', ''engine-error'', ''plugin-error''}"
    using assms(2) by (auto simp: read_step_msg_def Let_def msg_reason_of_def split: prod.splits option.splits if_splits)
  show ?thesis
  proof (cases plugin)
    case True
    then show ?thesis
      using assms(3) sm ch unfolding leader_exit_event_def Let_def assms(1) prod.case assms(2) plugin_def
      by (cases "sm_status m") (auto split: if_splits)
  next
    case False
    obtain lost cx4 where l: "remote_lost sy status cx3 j3 = (lost, cx4)" by (cases "remote_lost sy status cx3 j3")
    then have "status = W_EXITED 0 \<Longrightarrow> \<not> lost" by (auto simp: remote_lost_def split: if_splits)
    with False show ?thesis
      using assms(3) sm ch l c unfolding leader_exit_event_def Let_def assms(1) prod.case assms(2) plugin_def
      by (cases "sm_status m") (auto split: if_splits)
  qed
qed

end
