(* ===== verification/Codecs.thy ===== *)
theory Codecs
  imports Jobs
begin

text \<open>
  The text the engine writes for other programs: JSON strings and \<open>result.json\<close>
  (\<open>src/kernel/result.c\<close>) and the stdin preamble that carries environment variables to a
  remote shell (\<open>src/kernel/preamble.c\<close>), each with its reader: the grammar of JSON, and the
  bootstrap script the preamble is written for.

  A stdio stream keeps its error flag once a write failed (\<open>src/kernel/put.h\<close>), so a writer
  is modelled by the text it writes when none did, and by the flag it returns.
\<close>

section \<open>JSON strings\<close>

abbreviation nl :: char where "nl \<equiv> CHR 0x0A"
abbreviation dq :: char where "dq \<equiv> CHR 0x22"
abbreviation bsl :: char where "bsl \<equiv> CHR 0x5C"

definition hex_digit :: "nat \<Rightarrow> char" where
  "hex_digit n = (if n < 10 then char_of (48 + n) else char_of (87 + n))"

definition json_char :: "char \<Rightarrow> string" where
  "json_char c =
     (if c = dq then [bsl, dq]
      else if c = bsl then [bsl, bsl]
      else if c = nl then [bsl, CHR ''n'']
      else if c = CHR 0x0D then [bsl, CHR ''r'']
      else if c = CHR 0x09 then [bsl, CHR ''t'']
      else if (of_char c :: nat) < 32
           then [bsl, CHR ''u'', CHR ''0'', CHR ''0'', hex_digit (of_char c div 16), hex_digit (of_char c mod 16)]
      else [c])"

definition qwe_json_string :: "cstring \<Rightarrow> string" where
  "qwe_json_string s = [dq] @ concat (map json_char s) @ [dq]"

text \<open>The value of a hexadecimal digit, and the reader of the characters between the quotes.\<close>

definition hex_value :: "char \<Rightarrow> nat" where
  "hex_value c = (if is_digit c then of_char c - 48 else of_char c - 87)"

fun json_unescape :: "string \<Rightarrow> string" where
  "json_unescape [] = []"
| "json_unescape (b # r) =
     (if b \<noteq> bsl then b # json_unescape r
      else case r of
        [] \<Rightarrow> [b]
      | u # r1 \<Rightarrow>
          if u = CHR ''u'' then
            (case r1 of
               h1 # h2 # h3 # h4 # r2 \<Rightarrow>
                 char_of (((hex_value h1 * 16 + hex_value h2) * 16 + hex_value h3) * 16 + hex_value h4) # json_unescape r2
             | _ \<Rightarrow> u # json_unescape r1)
          else (if u = CHR ''n'' then nl else if u = CHR ''r'' then CHR 0x0D else if u = CHR ''t'' then CHR 0x09 else u)
               # json_unescape r1)"

lemma hex_value_digit: "n < 16 \<Longrightarrow> hex_value (hex_digit n) = n"
  by (auto simp: hex_value_def hex_digit_def is_digit_def)

interpretation json_code: charwise_code json_char json_unescape "\<lambda>_. True"
proof
  fix c rest
  have "hex_value CHR ''0'' = 0" by (simp add: hex_value_def is_digit_def)
  moreover have "(of_char c :: nat) < 32 \<Longrightarrow> char_of (of_char c div 16 * 16 + of_char c mod 16 :: nat) = c" by simp
  ultimately show "json_unescape (json_char c @ rest) = c # json_unescape rest"
    by (auto simp: json_char_def hex_value_digit)
qed simp

text \<open>What a JSON reader does with a string literal: the characters between the quotes, unescaped.\<close>

definition json_read_string :: "string \<Rightarrow> string" where
  "json_read_string t = json_unescape (butlast (tl t))"

lemma json_read_string: "json_read_string (qwe_json_string s) = s"
  using json_code.roundtrip [of s] by (simp add: json_read_string_def qwe_json_string_def list_all_iff butlast_append)

section \<open>The grammar of JSON\<close>

datatype json = JNull | JBool bool | JNum int | JStr string | JArr "json list" | JObj "(string \<times> json) list"

definition json_ws :: "string \<Rightarrow> bool" where
  "json_ws s \<longleftrightarrow> list_all (\<lambda>c. c \<in> {CHR 0x20, CHR 0x0A, CHR 0x0D, CHR 0x09}) s"

text \<open>A character that may stand for itself in a string, and the body of a string literal.\<close>

definition json_plain :: "char \<Rightarrow> bool" where
  "json_plain c \<longleftrightarrow> c \<noteq> dq \<and> c \<noteq> bsl \<and> 32 \<le> (of_char c :: nat)"

inductive json_body :: "string \<Rightarrow> string \<Rightarrow> bool" where
  body_nil: "json_body [] []"
| body_plain: "json_plain c \<Longrightarrow> json_body s t \<Longrightarrow> json_body (c # s) (c # t)"
| body_esc: "(c, e) \<in> {(dq, dq), (bsl, bsl), (nl, CHR ''n''), (CHR 0x0D, CHR ''r''), (CHR 0x09, CHR ''t'')} \<Longrightarrow>
    json_body s t \<Longrightarrow> json_body (c # s) (bsl # e # t)"
| body_u: "n < 256 \<Longrightarrow> json_body s t \<Longrightarrow>
    json_body (char_of n # s) (bsl # CHR ''u'' # CHR ''0'' # CHR ''0'' # hex_digit (n div 16) # hex_digit (n mod 16) # t)"

inductive json_text :: "json \<Rightarrow> string \<Rightarrow> bool"
  and json_elems :: "json list \<Rightarrow> string \<Rightarrow> bool"
  and json_members :: "(string \<times> json) list \<Rightarrow> string \<Rightarrow> bool" where
  text_null: "json_text JNull ''null''"
| text_true: "json_text (JBool True) ''true''"
| text_false: "json_text (JBool False) ''false''"
| text_num: "json_text (JNum i) (int_dec i)"
| text_str: "json_body s t \<Longrightarrow> json_text (JStr s) ([dq] @ t @ [dq])"
| text_arr: "json_elems vs t \<Longrightarrow> json_text (JArr vs) (''['' @ t @ '']'')"
| text_obj: "json_members ms t \<Longrightarrow> json_text (JObj ms) (''{'' @ t @ ''}'')"
| elems_none: "json_ws a \<Longrightarrow> json_elems [] a"
| elems_one: "json_ws a \<Longrightarrow> json_text v t \<Longrightarrow> json_ws b \<Longrightarrow> json_elems [v] (a @ t @ b)"
| elems_more: "json_ws a \<Longrightarrow> json_text v t \<Longrightarrow> json_ws b \<Longrightarrow> json_elems vs u \<Longrightarrow> vs \<noteq> [] \<Longrightarrow>
    json_elems (v # vs) (a @ t @ b @ '','' @ u)"
| members_none: "json_ws a \<Longrightarrow> json_members [] a"
| members_one: "json_ws a \<Longrightarrow> json_body k kt \<Longrightarrow> json_ws b \<Longrightarrow> json_ws c \<Longrightarrow> json_text v t \<Longrightarrow> json_ws d \<Longrightarrow>
    json_members [(k, v)] (a @ [dq] @ kt @ [dq] @ b @ '':'' @ c @ t @ d)"
| members_more: "json_ws a \<Longrightarrow> json_body k kt \<Longrightarrow> json_ws b \<Longrightarrow> json_ws c \<Longrightarrow> json_text v t \<Longrightarrow> json_ws d \<Longrightarrow>
    json_members ms u \<Longrightarrow> ms \<noteq> [] \<Longrightarrow> json_members ((k, v) # ms) (a @ [dq] @ kt @ [dq] @ b @ '':'' @ c @ t @ d @ '','' @ u)"

lemma json_body_char:
  assumes "json_body s t"
  shows "json_body (c # s) (json_char c @ t)"
proof -
  consider "c \<in> {dq, bsl, nl, CHR 0x0D, CHR 0x09}" | "c \<notin> {dq, bsl, nl, CHR 0x0D, CHR 0x09}" "(of_char c :: nat) < 32"
    | "json_plain c" "c \<notin> {dq, bsl, nl, CHR 0x0D, CHR 0x09}"
    by (cases "(of_char c :: nat) < 32") (auto simp: json_plain_def)
  then show ?thesis
  proof cases
    case 1
    then show ?thesis using body_esc [OF _ assms] by (elim insertE emptyE) (simp_all add: json_char_def)
  next
    case 2
    then show ?thesis using body_u [OF _ assms, of "of_char c"] by (simp add: json_char_def)
  next
    case 3
    then show ?thesis using body_plain [OF _ assms] by (simp add: json_char_def json_plain_def)
  qed
qed

lemma json_body_map: "json_body s (concat (map json_char s))"
  by (induction s) (simp_all add: body_nil json_body_char)

lemma json_text_string: "json_text (JStr s) (qwe_json_string s)"
  unfolding qwe_json_string_def by (rule text_str) (rule json_body_map)

lemma json_body_plain: "list_all json_plain s \<Longrightarrow> json_body s s"
  by (induction s) (simp_all add: body_nil body_plain)

section \<open>result.json\<close>

record qwe_job_result =
  rj_id :: cstring
  rj_outcome :: cstring
  rj_reason :: "cstring option"
  rj_detail :: "cstring option"
  rj_started :: int
  rj_ended :: int
  rj_duration_ms :: int
  rj_dropped_bytes :: nat
  rj_steps :: "qwe_step_result list"

text \<open>\<open>utc\<close> is \<open>gmtime_r\<close> with \<open>strftime\<close>: the UTC time in ISO 8601, if it has one.\<close>

definition put_time :: "(int \<Rightarrow> string option) \<Rightarrow> int \<Rightarrow> string" where
  "put_time utc t =
     (if t = 0 then ''null''
      else case utc t of
             None \<Rightarrow> [dq] @ int_dec t @ [dq]
           | Some s \<Rightarrow> [dq] @ s @ [dq])"

definition put_opt :: "cstring option \<Rightarrow> string" where
  "put_opt s = (case s of Some x \<Rightarrow> qwe_json_string x | None \<Rightarrow> ''null'')"

definition put_duration :: "int \<Rightarrow> string" where
  "put_duration ms = (if ms < 0 then ''null'' else int_dec ms)"

text \<open>A line break with an indentation, and the name of a field with its colon.\<close>

definition brk :: "nat \<Rightarrow> string" where
  "brk n = nl # replicate n CHR 0x20"

definition key :: "string \<Rightarrow> string" where
  "key k = [dq] @ k @ [dq] @ '': ''"

text \<open>
  One step; \<open>None\<close> stands for the crash on a step with no outcome. \<open>outputs\<close> is written
  as it is: it is JSON already.
\<close>

definition result_step :: "(int \<Rightarrow> string option) \<Rightarrow> qwe_step_result \<Rightarrow> string option" where
  "result_step utc s =
     (case sr_outcome s of
        None \<Rightarrow> None
      | Some outcome \<Rightarrow> Some
         (''{'' @ brk 10 @ key ''id'' @ put_opt (sr_id s)
          @ '','' @ brk 10 @ key ''outcome'' @ qwe_json_string outcome
          @ '','' @ brk 10 @ key ''reason'' @ put_opt (sr_reason s)
          @ '','' @ brk 10 @ key ''changed'' @ (if sr_changed s then ''true'' else ''false'')
          @ '','' @ brk 10 @ key ''started'' @ put_time utc (sr_started s)
          @ '','' @ brk 10 @ key ''ended'' @ put_time utc (sr_ended s)
          @ '','' @ brk 10 @ key ''duration_ms'' @ put_duration (sr_duration_ms s)
          @ (case sr_outputs_json s of None \<Rightarrow> [] | Some o1 \<Rightarrow> '','' @ brk 10 @ key ''outputs'' @ o1)
          @ brk 8 @ ''}''))"

fun result_steps :: "(int \<Rightarrow> string option) \<Rightarrow> bool \<Rightarrow> qwe_step_result list \<Rightarrow> string option" where
  "result_steps utc later [] = Some []"
| "result_steps utc later (s # ss) =
     (case result_step utc s of
        None \<Rightarrow> None
      | Some t \<Rightarrow> map_option (\<lambda>r. (if later then '','' else []) @ brk 8 @ t @ r) (result_steps utc True ss))"

definition result_job :: "(int \<Rightarrow> string option) \<Rightarrow> qwe_job_result \<Rightarrow> string option" where
  "result_job utc j =
     map_option (\<lambda>steps.
       ''{'' @ brk 6 @ key ''outcome'' @ qwe_json_string (rj_outcome j)
       @ '','' @ brk 6 @ key ''reason'' @ put_opt (rj_reason j)
       @ (case rj_detail j of None \<Rightarrow> [] | Some d \<Rightarrow> '','' @ brk 6 @ key ''detail'' @ qwe_json_string d)
       @ '','' @ brk 6 @ key ''started'' @ put_time utc (rj_started j)
       @ '','' @ brk 6 @ key ''ended'' @ put_time utc (rj_ended j)
       @ '','' @ brk 6 @ key ''duration_ms'' @ put_duration (rj_duration_ms j)
       @ '','' @ brk 6 @ key ''dropped_bytes'' @ nat_dec (rj_dropped_bytes j)
       @ '','' @ brk 6 @ key ''steps'' @ ''['' @ steps
       @ (if rj_steps j \<noteq> [] then brk 6 @ '']'' else '']'') @ brk 4 @ ''}'')
     (result_steps utc False (rj_steps j))"

fun result_jobs :: "(int \<Rightarrow> string option) \<Rightarrow> bool \<Rightarrow> qwe_job_result list \<Rightarrow> string option" where
  "result_jobs utc later [] = Some []"
| "result_jobs utc later (j # js) =
     (case result_job utc j of
        None \<Rightarrow> None
      | Some t \<Rightarrow> map_option (\<lambda>r. (if later then '','' else []) @ brk 4 @ qwe_json_string (rj_id j) @ '': '' @ t @ r)
                    (result_jobs utc True js))"

text \<open>The text with the return value, \<open>-1\<close> when the stream has its error flag set.\<close>

definition qwe_result_write ::
    "(int \<Rightarrow> string option) \<Rightarrow> bool \<Rightarrow> cstring \<Rightarrow> qwe_job_result list \<Rightarrow> (string \<times> int) option" where
  "qwe_result_write utc ferror run_id jobs =
     map_option (\<lambda>js.
       (''{'' @ brk 2 @ key ''run_id'' @ qwe_json_string run_id @ '','' @ brk 2 @ key ''jobs'' @ ''{'' @ js
        @ (if jobs \<noteq> [] then brk 2 @ ''}'' else ''}'') @ [nl] @ ''}'' @ [nl],
        if ferror then -1 else 0))
     (result_jobs utc False jobs)"

subsection \<open>What it means\<close>

definition time_value :: "(int \<Rightarrow> string option) \<Rightarrow> int \<Rightarrow> json" where
  "time_value utc t = (if t = 0 then JNull else JStr (case utc t of None \<Rightarrow> int_dec t | Some s \<Rightarrow> s))"

definition opt_value :: "cstring option \<Rightarrow> json" where
  "opt_value s = (case s of None \<Rightarrow> JNull | Some x \<Rightarrow> JStr x)"

definition duration_value :: "int \<Rightarrow> json" where
  "duration_value ms = (if ms < 0 then JNull else JNum ms)"

text \<open>\<open>out\<close> gives the value a text of outputs stands for.\<close>

definition step_value :: "(int \<Rightarrow> string option) \<Rightarrow> (cstring \<Rightarrow> json) \<Rightarrow> qwe_step_result \<Rightarrow> json" where
  "step_value utc out s = JObj
     ([(''id'', opt_value (sr_id s)), (''outcome'', opt_value (sr_outcome s)), (''reason'', opt_value (sr_reason s)),
       (''changed'', JBool (sr_changed s)), (''started'', time_value utc (sr_started s)),
       (''ended'', time_value utc (sr_ended s)), (''duration_ms'', duration_value (sr_duration_ms s))]
      @ (case sr_outputs_json s of None \<Rightarrow> [] | Some o1 \<Rightarrow> [(''outputs'', out o1)]))"

definition job_value :: "(int \<Rightarrow> string option) \<Rightarrow> (cstring \<Rightarrow> json) \<Rightarrow> qwe_job_result \<Rightarrow> json" where
  "job_value utc out j = JObj
     ([(''outcome'', JStr (rj_outcome j)), (''reason'', opt_value (rj_reason j))]
      @ (case rj_detail j of None \<Rightarrow> [] | Some d \<Rightarrow> [(''detail'', JStr d)])
      @ [(''started'', time_value utc (rj_started j)), (''ended'', time_value utc (rj_ended j)),
         (''duration_ms'', duration_value (rj_duration_ms j)), (''dropped_bytes'', JNum (int (rj_dropped_bytes j))),
         (''steps'', JArr (map (step_value utc out) (rj_steps j)))])"

definition result_value :: "(int \<Rightarrow> string option) \<Rightarrow> (cstring \<Rightarrow> json) \<Rightarrow> cstring \<Rightarrow> qwe_job_result list \<Rightarrow> json" where
  "result_value utc out run_id jobs =
     JObj [(''run_id'', JStr run_id), (''jobs'', JObj (map (\<lambda>j. (rj_id j, job_value utc out j)) jobs))]"

text \<open>The members of an object, each on a line of its own.\<close>

fun fields_text :: "string \<Rightarrow> (string \<times> string) list \<Rightarrow> string" where
  "fields_text w [] = []"
| "fields_text w [(kt, t)] = w @ [dq] @ kt @ [dq] @ '': '' @ t"
| "fields_text w ((kt, t) # r) = w @ [dq] @ kt @ [dq] @ '': '' @ t @ '','' @ fields_text w r"

lemma json_ws_brk [simp]: "json_ws (brk n)"
  by (simp add: json_ws_def brk_def list_all_iff)

lemma json_ws_simps [simp]: "json_ws []" "json_ws [CHR 0x20]" "json_ws [nl]"
  by (simp_all add: json_ws_def)

definition field_ok :: "string \<times> json \<Rightarrow> string \<times> string \<Rightarrow> bool" where
  "field_ok kv kt \<longleftrightarrow> json_body (fst kv) (fst kt) \<and> json_text (snd kv) (snd kt)"

lemma members_fields:
  assumes "list_all2 field_ok ms kts" "ms \<noteq> []" "json_ws w" "json_ws d"
  shows "json_members ms (fields_text w kts @ d)"
  using assms(1,2)
proof (induction rule: list_all2_induct)
  case (Cons m ms e kts)
  obtain k v kt t where [simp]: "m = (k, v)" "e = (kt, t)" by (metis prod.exhaust)
  have b: "json_body k kt" "json_text v t" using Cons.hyps(1) by (simp_all add: field_ok_def)
  show ?case
  proof (cases ms)
    case Nil
    then have "kts = []" using Cons.hyps(2) by simp
    with Nil members_one [OF assms(3) b(1) json_ws_simps(1) json_ws_simps(2) b(2) assms(4)] show ?thesis by simp
  next
    case (Cons m2 ms2)
    then obtain e2 kts2 where k: "kts = e2 # kts2" using Cons.hyps(2) by (auto simp: list_all2_Cons1)
    have "json_members ms (fields_text w kts @ d)" using Cons.IH Cons by simp
    with members_more [OF assms(3) b(1) json_ws_simps(1) json_ws_simps(2) b(2) json_ws_simps(1), of ms "fields_text w kts @ d"] Cons k
    show ?thesis by simp
  qed
qed simp

lemma is_digit_plain: "is_digit c \<Longrightarrow> json_plain c"
  by (auto simp: is_digit_def json_plain_def)

lemma int_dec_plain: "list_all json_plain (int_dec i)"
  using nat_dec_digits is_digit_plain by (auto simp: int_dec_def list_all_iff json_plain_def)

definition utc_plain :: "(int \<Rightarrow> string option) \<Rightarrow> bool" where
  "utc_plain utc \<longleftrightarrow> (\<forall>t s. utc t = Some s \<longrightarrow> list_all json_plain s)"

lemma json_text_values:
  "json_text (opt_value x) (put_opt x)" "json_text (duration_value ms) (put_duration ms)"
  "json_text (JBool b) (if b then ''true'' else ''false'')" "json_text (JNum (int n)) (nat_dec n)"
  "utc_plain utc \<Longrightarrow> json_text (time_value utc t) (put_time utc t)"
proof -
  show "json_text (opt_value x) (put_opt x)"
    by (cases x) (simp_all add: opt_value_def put_opt_def json_text_string text_null)
  show "json_text (duration_value ms) (put_duration ms)"
    by (simp add: duration_value_def put_duration_def text_null text_num)
  show "json_text (JBool b) (if b then ''true'' else ''false'')"
    by (cases b) (simp_all add: text_true text_false)
  show "json_text (JNum (int n)) (nat_dec n)" using text_num [of "int n"] by (simp add: int_dec_def)
  assume "utc_plain utc"
  then have "json_body s s" if "utc t = Some s" for s
    using that json_body_plain by (simp add: utc_plain_def)
  then show "json_text (time_value utc t) (put_time utc t)"
    using json_body_plain [OF int_dec_plain, of t] text_str
    by (auto simp: time_value_def put_time_def text_null split: option.splits)
qed

lemma key_bodies [simp]:
  "json_body ''id'' ''id''" "json_body ''outcome'' ''outcome''" "json_body ''reason'' ''reason''"
  "json_body ''changed'' ''changed''" "json_body ''started'' ''started''" "json_body ''ended'' ''ended''"
  "json_body ''duration_ms'' ''duration_ms''" "json_body ''outputs'' ''outputs''" "json_body ''detail'' ''detail''"
  "json_body ''dropped_bytes'' ''dropped_bytes''" "json_body ''steps'' ''steps''" "json_body ''run_id'' ''run_id''"
  "json_body ''jobs'' ''jobs''"
  by (rule json_body_plain; simp add: json_plain_def)+

lemma json_text_step:
  assumes "result_step utc s = Some t" "utc_plain utc" and "\<And>o1. sr_outputs_json s = Some o1 \<Longrightarrow> json_text (out o1) o1"
  shows "json_text (step_value utc out s) t"
proof -
  obtain oc where oc: "sr_outcome s = Some oc" using assms(1) by (cases "sr_outcome s") (auto simp: result_step_def)
  let ?kts = "[(''id'', put_opt (sr_id s)), (''outcome'', qwe_json_string oc), (''reason'', put_opt (sr_reason s)),
      (''changed'', if sr_changed s then ''true'' else ''false''), (''started'', put_time utc (sr_started s)),
      (''ended'', put_time utc (sr_ended s)), (''duration_ms'', put_duration (sr_duration_ms s))]
     @ (case sr_outputs_json s of None \<Rightarrow> [] | Some o1 \<Rightarrow> [(''outputs'', o1)])"
  have t: "t = ''{'' @ (fields_text (brk 10) ?kts @ brk 8) @ ''}''"
    using assms(1) oc by (auto simp: result_step_def key_def split: option.splits)
  have v: "opt_value (sr_outcome s) = JStr oc" using oc by (simp add: opt_value_def)
  show ?thesis unfolding t step_value_def v
    by (rule text_obj, rule members_fields)
      (use assms(2,3) in \<open>auto simp: field_ok_def json_text_values json_text_string split: option.splits\<close>)
qed

text \<open>The elements of an array, each on a line of its own.\<close>

fun elems_text :: "string \<Rightarrow> string list \<Rightarrow> string" where
  "elems_text w [] = []"
| "elems_text w [t] = w @ t"
| "elems_text w (t # r) = w @ t @ '','' @ elems_text w r"

lemma elems_lines:
  assumes "list_all2 json_text vs ts" "vs \<noteq> []" "json_ws w" "json_ws d"
  shows "json_elems vs (elems_text w ts @ d)"
  using assms(1,2)
proof (induction rule: list_all2_induct)
  case (Cons v vs t ts)
  show ?case
  proof (cases vs)
    case Nil
    then have "ts = []" using Cons.hyps(2) by simp
    with Nil elems_one [OF assms(3) Cons.hyps(1) assms(4)] show ?thesis by simp
  next
    case (Cons v2 vs2)
    then obtain t2 ts2 where k: "ts = t2 # ts2" using Cons.hyps(2) by (auto simp: list_all2_Cons1)
    have "json_elems vs (elems_text w ts @ d)" using Cons.IH Cons by simp
    with elems_more [OF assms(3) Cons.hyps(1) json_ws_simps(1), of vs "elems_text w ts @ d"] Cons k
    show ?thesis by simp
  qed
qed simp

lemma result_steps_text:
  "result_steps utc later ss = Some r \<longleftrightarrow>
     (\<exists>ts. those (map (result_step utc) ss) = Some ts
       \<and> r = (if ss = [] then [] else (if later then '','' else []) @ elems_text (brk 8) ts))"
proof (induction ss arbitrary: later r)
  case (Cons s ss)
  show ?case
  proof (cases ss)
    case Nil
    then show ?thesis by (auto split: option.splits)
  next
    case (Cons s2 ss2)
    have "elems_text w (t # ts) = w @ t @ '','' @ elems_text w ts" if "those (map (result_step utc) ss) = Some ts" for w t ts
      using that Cons by (cases ts) (auto split: option.splits)
    then show ?thesis using Cons Cons.IH by (auto split: option.splits)
  qed
qed auto

lemma those_list_all2: "those xs = Some ys \<Longrightarrow> list_all2 (\<lambda>x y. x = Some y) xs ys"
  by (induction xs arbitrary: ys) (auto split: option.splits)

lemma json_text_job:
  assumes "result_job utc j = Some t" "utc_plain utc"
    and out: "\<And>s o1. s \<in> set (rj_steps j) \<Longrightarrow> sr_outputs_json s = Some o1 \<Longrightarrow> json_text (out o1) o1"
  shows "json_text (job_value utc out j) t"
proof -
  obtain steps where st: "result_steps utc False (rj_steps j) = Some steps"
    using assms(1) by (auto simp: result_job_def)
  then obtain ts where ts: "those (map (result_step utc) (rj_steps j)) = Some ts"
    and steps: "steps = (if rj_steps j = [] then [] else elems_text (brk 8) ts)"
    by (auto simp: result_steps_text)
  have "json_text (step_value utc out s) u" if "s \<in> set (rj_steps j)" "result_step utc s = Some u" for s u
    using json_text_step [OF that(2) assms(2)] out [OF that(1)] by blast
  then have "list_all2 json_text (map (step_value utc out) (rj_steps j)) ts"
    using those_list_all2 [OF ts] by (auto simp: list_all2_conv_all_nth)
  then have arr: "json_text (JArr (map (step_value utc out) (rj_steps j)))
      (''['' @ (steps @ (if rj_steps j \<noteq> [] then brk 6 else [])) @ '']'')"
    unfolding steps by (intro text_arr) (auto intro: elems_lines elems_none)
  let ?kts = "[(''outcome'', qwe_json_string (rj_outcome j)), (''reason'', put_opt (rj_reason j))]
     @ (case rj_detail j of None \<Rightarrow> [] | Some d \<Rightarrow> [(''detail'', qwe_json_string d)])
     @ [(''started'', put_time utc (rj_started j)), (''ended'', put_time utc (rj_ended j)),
        (''duration_ms'', put_duration (rj_duration_ms j)), (''dropped_bytes'', nat_dec (rj_dropped_bytes j)),
        (''steps'', ''['' @ (steps @ (if rj_steps j \<noteq> [] then brk 6 else [])) @ '']'')]"
  have t: "t = ''{'' @ (fields_text (brk 6) ?kts @ brk 4) @ ''}''"
    using assms(1) st by (auto simp: result_job_def key_def split: option.splits)
  show ?thesis unfolding t job_value_def
    by (rule text_obj, rule members_fields)
      (use assms(2) arr in \<open>auto simp: field_ok_def json_text_values json_text_string split: option.splits\<close>)
qed

lemma result_jobs_text:
  "result_jobs utc later js = Some r \<longleftrightarrow>
     (\<exists>ts. those (map (result_job utc) js) = Some ts
       \<and> r = (if js = [] then [] else (if later then '','' else [])
              @ fields_text (brk 4) (zip (map (\<lambda>j. concat (map json_char (rj_id j))) js) ts)))"
proof (induction js arbitrary: later r)
  case (Cons j js)
  show ?case
  proof (cases js)
    case Nil
    then show ?thesis by (auto simp: qwe_json_string_def split: option.splits)
  next
    case (Cons j2 js2)
    have "fields_text w ((k, t) # zip (map (\<lambda>j. concat (map json_char (rj_id j))) js) ts)
        = w @ [dq] @ k @ [dq] @ '': '' @ t @ '','' @ fields_text w (zip (map (\<lambda>j. concat (map json_char (rj_id j))) js) ts)"
      if "those (map (result_job utc) js) = Some ts" for w k t ts
      using that Cons by (cases ts) (auto split: option.splits)
    then show ?thesis using Cons Cons.IH by (auto simp: qwe_json_string_def split: option.splits)
  qed
qed auto

lemma json_text_result:
  assumes "qwe_result_write utc ferror run_id jobs = Some (t, rc)" "utc_plain utc"
    and out: "\<And>j s o1. j \<in> set jobs \<Longrightarrow> s \<in> set (rj_steps j) \<Longrightarrow> sr_outputs_json s = Some o1 \<Longrightarrow> json_text (out o1) o1"
  shows "\<exists>u. t = u @ [nl] \<and> json_text (result_value utc out run_id jobs) u"
proof -
  obtain js where js: "result_jobs utc False jobs = Some js" using assms(1) by (auto simp: qwe_result_write_def)
  then obtain ts where ts: "those (map (result_job utc) jobs) = Some ts"
    and j: "js = (if jobs = [] then [] else fields_text (brk 4) (zip (map (\<lambda>j. concat (map json_char (rj_id j))) jobs) ts))"
    by (auto simp: result_jobs_text)
  have "json_text (job_value utc out k) u" if "k \<in> set jobs" "result_job utc k = Some u" for k u
    using json_text_job [OF that(2) assms(2)] out [OF that(1)] by blast
  then have "list_all2 field_ok (map (\<lambda>j. (rj_id j, job_value utc out j)) jobs)
      (zip (map (\<lambda>j. concat (map json_char (rj_id j))) jobs) ts)"
    using those_list_all2 [OF ts] by (auto simp: list_all2_conv_all_nth field_ok_def json_body_map)
  then have "json_members (map (\<lambda>j. (rj_id j, job_value utc out j)) jobs) (js @ (if jobs \<noteq> [] then brk 2 else []))"
    unfolding j by (auto intro: members_fields members_none)
  then have o: "json_text (JObj (map (\<lambda>j. (rj_id j, job_value utc out j)) jobs)) (''{'' @ (js @ (if jobs \<noteq> [] then brk 2 else [])) @ ''}'')"
    by (rule text_obj)
  let ?kts = "[(''run_id'', qwe_json_string run_id), (''jobs'', ''{'' @ (js @ (if jobs \<noteq> [] then brk 2 else [])) @ ''}'')]"
  have "t = (''{'' @ (fields_text (brk 2) ?kts @ [nl]) @ ''}'') @ [nl]"
    using assms(1) js by (auto simp: qwe_result_write_def key_def)
  moreover have "json_text (result_value utc out run_id jobs) (''{'' @ (fields_text (brk 2) ?kts @ [nl]) @ ''}'')"
    unfolding result_value_def
    by (rule text_obj, rule members_fields) (use o in \<open>auto simp: field_ok_def json_text_string\<close>)
  ultimately show ?thesis by blast
qed

lemma result_write_total:
  assumes "list_all (\<lambda>j. list_all (\<lambda>s. sr_outcome s \<noteq> None) (rj_steps j)) jobs"
  shows "\<exists>t. qwe_result_write utc ferror run_id jobs = Some (t, if ferror then -1 else 0)"
proof -
  have "\<exists>u. those xs = Some u" if "list_all (\<lambda>x. x \<noteq> None) xs" for xs :: "string option list"
    using that by (induction xs) (auto split: option.splits)
  note th = this
  have "\<exists>r. result_steps utc False ss = Some r" if "list_all (\<lambda>s. sr_outcome s \<noteq> None) ss" for ss
  proof -
    have "list_all (\<lambda>x. x \<noteq> None) (map (result_step utc) ss)"
      using that by (auto simp: list_all_iff result_step_def)
    with th result_steps_text show ?thesis by blast
  qed
  then have "result_job utc j \<noteq> None" if "list_all (\<lambda>s. sr_outcome s \<noteq> None) (rj_steps j)" for j
    using that by (auto simp: result_job_def)
  then have "list_all (\<lambda>x. x \<noteq> None) (map (result_job utc) jobs)"
    using assms by (simp add: list_all_iff)
  with th result_jobs_text obtain r where "result_jobs utc False jobs = Some r" by blast
  then show ?thesis by (simp add: qwe_result_write_def)
qed

section \<open>The stdin preamble\<close>

definition is_alpha_us :: "char \<Rightarrow> bool" where
  "is_alpha_us c \<longleftrightarrow> (65 \<le> (of_char c :: nat) \<and> (of_char c :: nat) \<le> 90) \<or> (97 \<le> (of_char c :: nat) \<and> (of_char c :: nat) \<le> 122)
     \<or> c = CHR ''_''"

fun name_ok :: "cstring \<Rightarrow> bool" where
  "name_ok [] = False"
| "name_ok (c # cs) = (is_alpha_us c \<and> list_all (\<lambda>c. is_alpha_us c \<or> is_digit c) cs)"

definition preamble_char :: "char \<Rightarrow> string" where
  "preamble_char c = (if c = bsl then [bsl, bsl] else if c = nl then [bsl, CHR ''n''] else [c])"

datatype preamble_result = PR_BAD nat | PR_NOMEM | PR_OK "byte list"

text \<open>The first loop: the index of the first name that is not one, or the size of the buffer.\<close>

fun preamble_cap :: "nat \<Rightarrow> (cstring \<times> cstring) list \<Rightarrow> nat \<Rightarrow> nat + nat" where
  "preamble_cap i [] cap = Inr cap"
| "preamble_cap i ((n, v) # vs) cap =
     (if \<not> name_ok n then Inl i
      else preamble_cap (Suc i) vs (cap + (length n + 2) + length (concat (map preamble_char v))))"

definition preamble_line :: "cstring \<times> cstring \<Rightarrow> string" where
  "preamble_line nv = fst nv @ ''='' @ concat (map preamble_char (snd nv)) @ [nl]"

definition qwe_preamble_build :: "(nat \<Rightarrow> bool) \<Rightarrow> (cstring \<times> cstring) list \<Rightarrow> preamble_result" where
  "qwe_preamble_build mem vars =
     (case preamble_cap 0 vars 1 of
        Inl i \<Rightarrow> PR_BAD i
      | Inr cap \<Rightarrow> if mem (cap + 1) then PR_OK (concat (map preamble_line vars) @ [nl]) else PR_NOMEM)"

text \<open>
  The reader, \<open>qwe_preamble_bootstrap\<close>: lines are read until an empty one; the name is what
  is before the first \<open>=\<close>, the value what \<open>printf '%b'\<close> makes of the rest. What follows
  the empty line is left for the command. \<open>percent_b\<close> undoes the two escapes that are written.
\<close>

fun percent_b :: "string \<Rightarrow> string" where
  "percent_b [] = []"
| "percent_b (b # r) =
     (if b \<noteq> bsl then b # percent_b r
      else case r of
        [] \<Rightarrow> [b]
      | u # r1 \<Rightarrow> (if u = CHR ''n'' then nl # percent_b r1 else if u = bsl then bsl # percent_b r1 else b # percent_b (u # r1)))"

definition shell_line :: "string \<Rightarrow> string \<times> string" where
  "shell_line l = (takeWhile (\<lambda>c. c \<noteq> CHR ''='') l, percent_b (tl (dropWhile (\<lambda>c. c \<noteq> CHR ''='') l)))"

function preamble_bootstrap :: "byte list \<Rightarrow> (cstring \<times> cstring) list \<times> byte list" where
  "preamble_bootstrap input =
     (let l = takeWhile (\<lambda>c. c \<noteq> nl) input; r = dropWhile (\<lambda>c. c \<noteq> nl) input in
      if l = [] \<or> r = [] then ([], tl r)
      else apfst ((#) (shell_line l)) (preamble_bootstrap (tl r)))"
  by pat_completeness auto
termination
proof (relation "measure length", goal_cases)
  case (2 input l r)
  then have "length r \<le> length input" "r \<noteq> []" by (simp_all add: length_dropWhile_le)
  then show ?case by (cases r) auto
qed simp

declare preamble_bootstrap.simps [simp del]

interpretation preamble_code: charwise_code preamble_char percent_b "\<lambda>_. True"
  by unfold_locales (auto simp: preamble_char_def)

lemma name_ok_chars: "name_ok n \<Longrightarrow> n \<noteq> [] \<and> (\<forall>c \<in> set n. c \<noteq> CHR ''='' \<and> c \<noteq> nl)"
  by (cases n) (auto simp: is_alpha_us_def is_digit_def list_all_iff)

lemma preamble_chars_one_line: "nl \<notin> set (concat (map preamble_char v))"
  by (auto simp: preamble_char_def split: if_splits)

lemma preamble_cap_eq:
  "preamble_cap i vars cap =
     (if list_all (\<lambda>nv. name_ok (fst nv)) vars then Inr (cap + length (concat (map preamble_line vars)))
      else Inl (i + length (takeWhile (\<lambda>nv. name_ok (fst nv)) vars)))"
proof (induction i vars cap rule: preamble_cap.induct)
  case (2 i n v vs cap)
  have "length (preamble_line (n, v)) = length n + 2 + length (concat (map preamble_char v))"
    by (simp add: preamble_line_def)
  with 2 show ?case by simp
qed simp

lemma shell_line_var:
  assumes "name_ok n"
  shows "shell_line (n @ ''='' @ concat (map preamble_char v)) = (n, v)"
proof -
  have "\<forall>c \<in> set n. c \<noteq> CHR ''=''" using name_ok_chars [OF assms] by blast
  then show ?thesis
    using preamble_code.roundtrip [of v]
    by (simp add: shell_line_def takeWhile_append2 dropWhile_append2 list_all_iff)
qed

lemma span_stop: "x \<notin> set l \<Longrightarrow> takeWhile (\<lambda>c. c \<noteq> x) (l @ x # r) = l \<and> dropWhile (\<lambda>c. c \<noteq> x) (l @ x # r) = x # r"
  by (induction l) auto

lemma preamble_bootstrap_line:
  assumes "name_ok (fst nv)"
  shows "preamble_bootstrap (preamble_line nv @ rest) = apfst ((#) nv) (preamble_bootstrap rest)"
proof -
  obtain n v where nv: "nv = (n, v)" by (cases nv)
  let ?l = "n @ ''='' @ concat (map preamble_char v)"
  have one: "nl \<notin> set ?l" "?l \<noteq> []"
    using name_ok_chars [OF assms] preamble_chars_one_line [of v] unfolding nv by (simp_all del: set_concat) blast
  have i: "preamble_line nv @ rest = ?l @ nl # rest" by (simp add: preamble_line_def nv)
  have "takeWhile (\<lambda>c. c \<noteq> nl) (?l @ nl # rest) = ?l" "dropWhile (\<lambda>c. c \<noteq> nl) (?l @ nl # rest) = nl # rest"
    using span_stop [OF one(1)] by blast+
  with one(2) shell_line_var [of n v] assms nv show ?thesis
    unfolding i by (subst preamble_bootstrap.simps) simp
qed

lemma preamble_reads_back:
  "list_all (\<lambda>nv. name_ok (fst nv)) vars \<Longrightarrow> preamble_bootstrap (concat (map preamble_line vars) @ nl # rest) = (vars, rest)"
proof (induction vars)
  case Nil
  then show ?case by (simp add: preamble_bootstrap.simps)
next
  case (Cons nv vars)
  then show ?case by (simp add: preamble_bootstrap_line)
qed

section \<open>Properties\<close>

text \<open>C17. \<open>result.json\<close> is JSON and says what happened: when every recorded step has an
  outcome the writer returns, with 0 exactly when the stream took everything; and the text is, up to
  the newline at its end, a JSON text of the object with the run's id and, for every job in order,
  its outcome, reason, times, dropped bytes and steps, whatever bytes the strings hold. The outputs
  of a step, written as they are, are assumed to be JSON.\<close>

theorem result_json_says_what_happened:
  assumes "utc_plain utc"
    and "list_all (\<lambda>j. list_all (\<lambda>s. sr_outcome s \<noteq> None \<and> (\<forall>o1. sr_outputs_json s = Some o1 \<longrightarrow> json_text (out o1) o1)) (rj_steps j)) jobs"
  shows "\<exists>u. qwe_result_write utc ferror run_id jobs = Some (u @ [nl], if ferror then -1 else 0)
    \<and> json_text (result_value utc out run_id jobs) u"
proof -
  have "list_all (\<lambda>j. list_all (\<lambda>s. sr_outcome s \<noteq> None) (rj_steps j)) jobs" using assms(2) by (simp add: list_all_iff)
  from result_write_total [OF this] obtain t where t: "qwe_result_write utc ferror run_id jobs = Some (t, if ferror then -1 else 0)" by blast
  with json_text_result [OF t assms(1), of out] assms(2) show ?thesis by (auto simp: list_all_iff)
qed

definition job_result_ex :: qwe_job_result where
  "job_result_ex = \<lparr>rj_id = [dq, nl], rj_outcome = ''failed'', rj_reason = None, rj_detail = None, rj_started = 5, rj_ended = 0,
     rj_duration_ms = 3, rj_dropped_bytes = 0,
     rj_steps = [step_result_zero\<lparr>sr_outcome := Some ''failed'', sr_outputs_json := Some ''null''\<rparr>]\<rparr>"

theorem result_json_says_what_happened_witness:
  "\<exists>u. qwe_result_write (\<lambda>_. None) False ''r'' [job_result_ex] = Some (u @ [nl], 0)
    \<and> json_text (result_value (\<lambda>_. None) (\<lambda>_. JNull) ''r'' [job_result_ex]) u"
proof -
  have "utc_plain (\<lambda>_. None)" by (simp add: utc_plain_def)
  moreover have "list_all (\<lambda>j. list_all (\<lambda>s. sr_outcome s \<noteq> None \<and> (\<forall>o1. sr_outputs_json s = Some o1 \<longrightarrow> json_text ((\<lambda>_. JNull) o1) o1)) (rj_steps j)) [job_result_ex]"
    by (simp add: job_result_ex_def text_null)
  ultimately show ?thesis using result_json_says_what_happened [of "\<lambda>_. None" "\<lambda>_. JNull" "[job_result_ex]" False "''r''"] by simp
qed

text \<open>A JSON string reads back as the string it was written for, whatever its characters, and
  two different strings are never written alike.\<close>

lemma json_string_roundtrip:
  "json_read_string (qwe_json_string s) = s \<and> (qwe_json_string s = qwe_json_string t \<longrightarrow> s = t)"
  using json_read_string by metis

text \<open>The remote shell gets exactly the variables that were sent: a preamble is refused at the
  first name the shell would not take as a variable; otherwise it fits the buffer that was sized for
  it, and the bootstrap reads back the names and values in order, values with newlines and
  backslashes included, and leaves every byte after the preamble to the command.\<close>

lemma preamble_roundtrip:
  assumes "qwe_preamble_build mem vars = r"
  shows "(r = PR_BAD i \<longrightarrow> i < length vars \<and> \<not> name_ok (fst (vars ! i)) \<and> list_all (\<lambda>nv. name_ok (fst nv)) (take i vars))
    \<and> (r = PR_OK b \<longrightarrow> list_all (\<lambda>nv. name_ok (fst nv)) vars \<and> preamble_cap 0 vars 1 = Inr (length b)
          \<and> preamble_bootstrap (b @ rest) = (vars, rest))"
proof (cases "list_all (\<lambda>nv. name_ok (fst nv)) vars")
  case True
  then have c: "preamble_cap 0 vars 1 = Inr (1 + length (concat (map preamble_line vars)))" by (simp add: preamble_cap_eq)
  show ?thesis
    using assms True c preamble_reads_back [OF True, of rest] unfolding qwe_preamble_build_def c sum.case
    by (auto split: if_splits)
next
  case False
  let ?k = "length (takeWhile (\<lambda>nv. name_ok (fst nv)) vars)"
  have "?k < length vars" using False by (metis (mono_tags, lifting) list_all_iff length_takeWhile_le le_neq_implies_less takeWhile_eq_all_conv takeWhile_eq_take take_all order_refl)
  then have "\<not> name_ok (fst (vars ! ?k))" using nth_length_takeWhile [of "\<lambda>nv. name_ok (fst nv)" vars] by simp
  moreover have "list_all (\<lambda>nv. name_ok (fst nv)) (take ?k vars)"
    by (metis (mono_tags, lifting) list_all_iff set_takeWhileD takeWhile_eq_take)
  moreover have "r = PR_BAD ?k" using assms False by (simp add: qwe_preamble_build_def preamble_cap_eq)
  ultimately show ?thesis using \<open>?k < length vars\<close> by auto
qed

end
