(* ===== verification/Report.thy ===== *)
theory Report
  imports Codecs
begin

text \<open>
  What a run leaves for people to read: the lifecycle trace (\<open>src/kernel/trace.c\<close>), one line
  per event, and the summary in Markdown (\<open>src/kernel/summary.c\<close>), a table of the jobs, a
  table of the steps of every job that started, and the end of the log of every job with a failed
  step.
\<close>

section \<open>The trace\<close>

record qwe_trace =
  tc_open :: bool
  tc_debug :: bool
  tc_t0 :: "int \<times> int"
  tc_job :: "cstring option"
  tc_step :: int
  tc_data :: "byte list"

definition qwe_trace_open :: "bool \<Rightarrow> bool \<Rightarrow> int \<times> int \<Rightarrow> bool \<times> qwe_trace" where
  "qwe_trace_open opened debug now =
     (opened, \<lparr>tc_open = opened, tc_debug = debug, tc_t0 = (if opened then now else (0, 0)), tc_job = None, tc_step = -1, tc_data = []\<rparr>)"

definition qwe_trace_close :: "qwe_trace \<Rightarrow> qwe_trace" where
  "qwe_trace_close t = t\<lparr>tc_open := False\<rparr>"

text \<open>C's division of a \<open>long\<close>, which truncates.\<close>

definition c_div :: "int \<Rightarrow> int \<Rightarrow> int" where
  "c_div a b = (if a < 0 then - ((- a) div b) else a div b)"

definition trace_elapsed :: "int \<times> int \<Rightarrow> int \<times> int \<Rightarrow> int \<times> int" where
  "trace_elapsed t0 now =
     (let sec = fst now - fst t0; usec = c_div (snd now - snd t0) 1000
      in if usec < 0 then (sec - 1, usec + 1000000) else (sec, usec))"

definition pad6 :: "int \<Rightarrow> string" where
  "pad6 u = (let d = int_dec u in replicate (6 - length d) CHR ''0'' @ d)"

definition dash :: "cstring option \<Rightarrow> cstring" where
  "dash s = (case s of None \<Rightarrow> ''-'' | Some x \<Rightarrow> x)"

definition trace_text ::
    "int \<times> int \<Rightarrow> cstring option \<Rightarrow> int \<Rightarrow> qwe_lc_state \<Rightarrow> cstring \<Rightarrow> cstring option \<Rightarrow> cstring \<Rightarrow> cstring option
     \<Rightarrow> cstring option \<Rightarrow> string" where
  "trace_text elapsed job step state event nxt kind reason detail =
     int_dec (fst elapsed) @ ''.'' @ pad6 (snd elapsed) @ '' '' @ dash job @ '' ''
     @ (if step \<ge> 0 then int_dec step else ''-'') @ '' '' @ qwe_lc_state_name state @ '' '' @ event @ '' '' @ dash nxt
     @ '' '' @ kind @ '' '' @ dash reason
     @ (case detail of None \<Rightarrow> [] | Some d \<Rightarrow> '' '' @ d) @ [nl]"

text \<open>The line buffer holds 511 bytes; a record that is longer is cut, and still ends its line.\<close>

definition trace_line :: "string \<Rightarrow> string" where
  "trace_line text = (if length text > 511 then take 510 text @ [nl] else text)"

text \<open>\<open>wrote\<close> is what \<open>write\<close> returned: how many bytes it took, or nothing when it failed.\<close>

definition qwe_trace_record ::
    "nat option \<Rightarrow> int \<times> int \<Rightarrow> qwe_trace \<Rightarrow> cstring option \<Rightarrow> int \<Rightarrow> qwe_lc_state \<Rightarrow> cstring \<Rightarrow> cstring option \<Rightarrow> cstring
     \<Rightarrow> cstring option \<Rightarrow> cstring option \<Rightarrow> qwe_trace" where
  "qwe_trace_record wrote now t job step state event nxt kind reason detail =
     (if \<not> tc_open t then t
      else case wrote of
        None \<Rightarrow> t
      | Some n \<Rightarrow> t\<lparr>tc_data := tc_data t @ take n (trace_line
                    (trace_text (trace_elapsed (tc_t0 t) now) job step state event nxt kind reason detail))\<rparr>)"

definition abort_hook :: "nat option \<Rightarrow> int \<times> int \<Rightarrow> qwe_lc_state \<Rightarrow> qwe_lc_event \<Rightarrow> qwe_trace \<Rightarrow> qwe_trace" where
  "abort_hook wrote now s e t =
     qwe_trace_record wrote now t (tc_job t) (tc_step t) s (qwe_lc_event_name e) None ''impossible'' None None"

section \<open>The summary\<close>

definition CELL_MAX :: nat where "CELL_MAX = 200"
definition LOG_TAIL_LINES :: nat where "LOG_TAIL_LINES = 20"

definition marker :: "cstring \<Rightarrow> string" where
  "marker outcome =
     (if outcome = ''success'' then [CHR 0xE2, CHR 0x9C, CHR 0x85] @ '' success''
      else if outcome = ''failed'' then [CHR 0xE2, CHR 0x9D, CHR 0x8C] @ '' failed''
      else if outcome = ''skipped'' then [CHR 0xE2, CHR 0x8F, CHR 0xAD, CHR 0xEF, CHR 0xB8, CHR 0x8F] @ '' skipped''
      else if outcome = ''cancelled'' then [CHR 0xE2, CHR 0x8F, CHR 0xB9, CHR 0xEF, CHR 0xB8, CHR 0x8F] @ '' cancelled''
      else outcome)"

definition put_ms :: "int \<Rightarrow> string" where
  "put_ms ms = (if ms \<ge> 0 then int_dec ms else [])"

definition changed_cell :: "qwe_step_result \<Rightarrow> string" where
  "changed_cell s =
     (if the (sr_outcome s) \<noteq> ''success'' then [] else if sr_changed s then ''changed'' else ''unchanged'')"

definition cell_char :: "char \<Rightarrow> string" where
  "cell_char c = (if c = CHR ''|'' then [bsl, CHR ''|''] else if c = nl then [CHR 0x20] else [c])"

definition escape_cell :: "cstring \<Rightarrow> string" where
  "escape_cell s =
     (let out = concat (map cell_char s)
      in if length out > CELL_MAX then take CELL_MAX out @ [CHR 0xE2, CHR 0x80, CHR 0xA6] else out)"

definition put_cell :: "cstring option \<Rightarrow> string" where
  "put_cell s = escape_cell (case s of None \<Rightarrow> [] | Some x \<Rightarrow> x)"

fun backtick_loop :: "cstring \<Rightarrow> nat \<Rightarrow> nat \<Rightarrow> nat" where
  "backtick_loop [] longest cur = longest"
| "backtick_loop (c # s) longest cur =
     (if c = CHR 0x60 then backtick_loop s (max longest (Suc cur)) (Suc cur) else backtick_loop s longest 0)"

definition longest_backtick_run :: "cstring \<Rightarrow> nat" where
  "longest_backtick_run s = backtick_loop s 0 0"

text \<open>The walk back over the log: \<open>start\<close> counts down, \<open>left\<close> line ends are passed.\<close>

fun tail_loop :: "byte list \<Rightarrow> nat \<Rightarrow> nat \<Rightarrow> nat" where
  "tail_loop buf 0 left = 0"
| "tail_loop buf (Suc s) left =
     (if left = 0 then Suc s
      else if buf ! s = nl then (if left - 1 = 0 then Suc s else tail_loop buf s (left - 1))
      else tail_loop buf s left)"

definition tail_start :: "byte list \<Rightarrow> nat" where
  "tail_start buf = (if buf \<noteq> [] \<and> last buf = nl then length buf - 1 else length buf)"

text \<open>\<open>file\<close> is the log when it could be opened, measured and read.\<close>

definition log_tail :: "byte list option \<Rightarrow> nat \<Rightarrow> byte list option" where
  "log_tail file n = map_option (\<lambda>buf. drop (tail_loop buf (tail_start buf) n) buf) file"

definition c_str :: "byte list \<Rightarrow> cstring" where
  "c_str b = takeWhile (\<lambda>c. c \<noteq> CHR 0x00) b"

definition summary_fence :: "cstring \<Rightarrow> string" where
  "summary_fence text =
     (let fence_len = longest_backtick_run text + 1
      in replicate (if fence_len < 3 then 3 else fence_len) CHR 0x60)"

definition summary_log :: "byte list option \<Rightarrow> string" where
  "summary_log tail =
     (case tail of
        None \<Rightarrow> []
      | Some b \<Rightarrow>
          let text = c_str b in
          if text = [] then []
          else ''<details><summary>log tail</summary>'' @ [nl, nl] @ summary_fence text @ [nl] @ text
               @ (if last text \<noteq> nl then [nl] else []) @ summary_fence text @ [nl, nl] @ ''</details>'' @ [nl, nl])"

definition summary_job_row :: "qwe_job_result \<Rightarrow> string" where
  "summary_job_row j =
     ''| '' @ put_cell (Some (rj_id j)) @ '' | '' @ marker (rj_outcome j) @ '' | '' @ put_cell (rj_reason j) @ '' | ''
     @ put_ms (rj_duration_ms j) @ '' |'' @ [nl]"

definition summary_step_row :: "nat \<Rightarrow> qwe_step_result \<Rightarrow> string" where
  "summary_step_row k s =
     ''| '' @ nat_dec (k + 1) @ '' | ''
     @ put_cell (case sr_id s of Some x \<Rightarrow> Some x | None \<Rightarrow> sr_name s) @ '' | ''
     @ put_cell (case sr_plugin s of Some x \<Rightarrow> Some x | None \<Rightarrow> Some ''run'') @ '' | ''
     @ marker (the (sr_outcome s)) @ '' | '' @ changed_cell s @ '' | '' @ put_cell (sr_reason s) @ '' | ''
     @ put_ms (sr_duration_ms s) @ '' |'' @ [nl]"

definition step_bad :: "qwe_step_result \<Rightarrow> bool" where
  "step_bad s \<longleftrightarrow> the (sr_outcome s) = ''failed'' \<or> the (sr_outcome s) = ''cancelled''"

definition summary_job :: "(cstring \<Rightarrow> byte list option) option \<Rightarrow> qwe_job_result \<Rightarrow> string" where
  "summary_job logs j =
     (if rj_steps j = [] then []
      else ''#### '' @ put_cell (Some (rj_id j)) @ [nl, nl]
        @ ''| # | id | plugin | outcome | changed | reason | duration (ms) |'' @ [nl]
        @ ''| --- | --- | --- | --- | --- | --- | --- |'' @ [nl]
        @ concat (map (\<lambda>k. summary_step_row k (rj_steps j ! k)) [0..<length (rj_steps j)]) @ [nl]
        @ (if list_ex step_bad (rj_steps j)
           then (case logs of None \<Rightarrow> [] | Some lg \<Rightarrow> summary_log (log_tail (lg (rj_id j)) LOG_TAIL_LINES)) else []))"

text \<open>\<open>logs\<close> are the logs of the run's directory, when there is one.\<close>

definition qwe_summary_render ::
    "(cstring \<Rightarrow> byte list option) option \<Rightarrow> bool \<Rightarrow> cstring \<Rightarrow> cstring \<Rightarrow> int \<Rightarrow> qwe_job_result list \<Rightarrow> string \<times> int" where
  "qwe_summary_render logs ferror workflow_file overall ms jobs =
     (''### '' @ workflow_file @ '': '' @ marker overall @ '' ('' @ put_ms ms @ '' ms)'' @ [nl, nl]
      @ ''| job | outcome | reason | duration (ms) |'' @ [nl] @ ''| --- | --- | --- | --- |'' @ [nl]
      @ concat (map summary_job_row jobs) @ [nl] @ concat (map (summary_job logs) jobs),
      if ferror then -1 else 0)"

definition qwe_summary_write ::
    "byte list option \<Rightarrow> (cstring \<Rightarrow> byte list option) option \<Rightarrow> bool \<Rightarrow> bool \<Rightarrow> cstring \<Rightarrow> cstring \<Rightarrow> int \<Rightarrow> qwe_job_result list
     \<Rightarrow> byte list option \<times> int" where
  "qwe_summary_write file logs ferror closed workflow_file overall ms jobs =
     (case file of
        None \<Rightarrow> (None, -1)
      | Some old \<Rightarrow>
          (case qwe_summary_render logs ferror workflow_file overall ms jobs of (t, rc) \<Rightarrow>
             (Some (old @ t), if \<not> closed then -1 else rc)))"

section \<open>Lines\<close>

text \<open>One line: the newline is at the end and nowhere else.\<close>

definition one_line :: "string \<Rightarrow> bool" where
  "one_line t \<longleftrightarrow> t \<noteq> [] \<and> last t = nl \<and> nl \<notin> set (butlast t)"

lemma one_lineI: "nl \<notin> set b \<Longrightarrow> one_line (b @ [nl])"
  by (simp add: one_line_def)

lemma int_dec_no_nl: "nl \<notin> set (int_dec i)"
  using nat_dec_digits [of "nat i"] nat_dec_digits [of "nat (- i)"]
  by (auto simp: int_dec_def list_all_iff is_digit_def)

lemma nat_dec_no_nl: "nl \<notin> set (nat_dec i)"
  using int_dec_no_nl [of "int i"] by (simp add: int_dec_def)

lemma state_name_no_nl: "nl \<notin> set (qwe_lc_state_name s)"
  by (cases s) simp_all

section \<open>Cells\<close>

text \<open>The number of bars that end a cell: those without a backslash before them.\<close>

fun bars :: "char \<Rightarrow> string \<Rightarrow> nat" where
  "bars p [] = 0"
| "bars p (c # s) = (if c = CHR ''|'' \<and> p \<noteq> bsl then 1 else 0) + bars c s"

lemma bars_append: "bars p (s @ t) = bars p s + bars (if s = [] then p else last s) t"
  by (induction s arbitrary: p) auto

lemma bars_none: "CHR ''|'' \<notin> set s \<Longrightarrow> bars p s = 0"
  by (induction s arbitrary: p) auto

lemma bars_take: "bars p s = 0 \<Longrightarrow> bars p (take n s) = 0"
  by (metis append_take_drop_id bars_append add_is_0)

lemma bars_cells: "bars p (concat (map cell_char s)) = 0"
proof (induction s arbitrary: p)
  case (Cons c s)
  then show ?case by (simp add: cell_char_def)
qed simp

lemma bars_cell: "bars p (escape_cell s) = 0"
  unfolding escape_cell_def Let_def using bars_take [OF bars_cells] by (simp add: bars_append bars_cells bars_none)

lemma cells_no_nl: "nl \<notin> set (concat (map cell_char s))"
  by (auto simp: cell_char_def split: if_splits)

lemma cell_no_nl: "nl \<notin> set (escape_cell s)"
  using cells_no_nl [of s] in_set_takeD [of nl CELL_MAX "concat (map cell_char s)"]
  by (auto simp: escape_cell_def Let_def simp del: set_concat)

lemma cell_length: "length (escape_cell s) \<le> CELL_MAX + 3"
  by (simp add: escape_cell_def Let_def)

lemma marker_plain:
  "oc \<in> {''success'', ''failed'', ''skipped'', ''cancelled''} \<Longrightarrow> CHR ''|'' \<notin> set (marker oc) \<and> nl \<notin> set (marker oc)"
  by (auto simp: marker_def)

lemma int_dec_no_bar: "CHR ''|'' \<notin> set (int_dec i)"
  using nat_dec_digits [of "nat i"] nat_dec_digits [of "nat (- i)"]
  by (auto simp: int_dec_def list_all_iff is_digit_def)

lemma nat_dec_no_bar: "CHR ''|'' \<notin> set (nat_dec i)"
  using int_dec_no_bar [of "int i"] by (simp add: int_dec_def)

text \<open>A bar between two spaces always ends a cell.\<close>

lemma bars_sep: "bars p (s @ '' | '' @ t) = bars p s + 1 + bars CHR 0x20 t"
  by (simp add: bars_append)

lemma bars_end: "bars p (s @ '' |'' @ [nl]) = bars p s + 1"
  by (simp add: bars_append)

lemmas row_simps = bars_sep bars_end bars_cell put_cell_def put_ms_def changed_cell_def marker_plain
  bars_none int_dec_no_bar nat_dec_no_bar

section \<open>The end of a log\<close>

lemma tail_loop_spec:
  assumes "s \<le> length buf" "0 < left"
  shows "tail_loop buf s left \<le> s
    \<and> (tail_loop buf s left = 0 \<longrightarrow> count_list (take s buf) nl < left)
    \<and> (0 < tail_loop buf s left \<longrightarrow> buf ! (tail_loop buf s left - 1) = nl
         \<and> count_list (drop (tail_loop buf s left) (take s buf)) nl = left - 1)"
  using assms
proof (induction s arbitrary: left)
  case (Suc s)
  then have lt: "s < length buf" by simp
  have t: "take (Suc s) buf = take s buf @ [buf ! s]" using lt by (rule take_Suc_conv_app_nth)
  show ?case
  proof (cases "buf ! s = nl")
    case True
    show ?thesis
    proof (cases "left = 1")
      case True
      with \<open>buf ! s = nl\<close> lt show ?thesis by simp
    next
      case False
      let ?r = "tail_loop buf s (left - 1)"
      have r: "tail_loop buf (Suc s) left = ?r" using True False Suc.prems(2) by simp
      from Suc.IH [of "left - 1"] Suc.prems False lt True show ?thesis
        unfolding r t by (auto simp: drop_append)
    qed
  next
    case False
    have r: "tail_loop buf (Suc s) left = tail_loop buf s left" using False Suc.prems(2) by simp
    from Suc.IH [of left] Suc.prems False lt show ?thesis
      unfolding r t by (auto simp: drop_append)
  qed
qed simp

text \<open>The number of lines of a text, whether or not its last line is terminated.\<close>

definition line_count :: "byte list \<Rightarrow> nat" where
  "line_count t = count_list (take (tail_start t) t) nl + 1"

lemma tail_start_le: "tail_start b \<le> length b"
  by (simp add: tail_start_def)

lemma log_tail_lines:
  assumes "0 < n" and r_def: "r = tail_loop buf (tail_start buf) n"
  shows "r \<le> length buf \<and> (0 < r \<longrightarrow> buf ! (r - 1) = nl) \<and> line_count (drop r buf) \<le> n
    \<and> (0 < r \<and> drop r buf \<noteq> [] \<longrightarrow> line_count (drop r buf) = n)"
proof -
  note sp = tail_loop_spec [OF tail_start_le assms(1), of buf, folded r_def]
  have le: "r \<le> tail_start buf" using sp by blast
  have tk: "take (tail_start (drop r buf)) (drop r buf) = drop r (take (tail_start buf) buf)"
  proof (cases "drop r buf = []")
    case True
    then show ?thesis using le tail_start_le [of buf] by simp
  next
    case False
    then have "last (drop r buf) = last buf" "buf \<noteq> []" by auto
    with False le show ?thesis by (auto simp: tail_start_def drop_take diff_diff_left Suc_diff_le algebra_simps)
  qed
  show ?thesis
    using sp le tail_start_le [of buf] assms(1) unfolding line_count_def tk by (cases "r = 0") auto
qed

lemma backtick_mono: "longest \<le> backtick_loop s longest cur"
proof (induction s arbitrary: longest cur)
  case (Cons c s)
  then show ?case by (auto intro: order_trans [OF _ Cons.IH])
qed simp

lemma backtick_run: "cur + k \<le> backtick_loop (replicate k CHR 0x60 @ post) longest cur \<or> k = 0"
proof (induction k arbitrary: longest cur)
  case (Suc k)
  show ?case
  proof (cases k)
    case 0
    then show ?thesis using backtick_mono [of "max longest (Suc cur)" post "Suc cur"] by simp
  next
    case (Suc k')
    then show ?thesis using Suc.IH [of "Suc cur" "max longest (Suc cur)"] by simp
  qed
qed simp

lemma backtick_run_inside: "k \<le> backtick_loop (pre @ replicate k CHR 0x60 @ post) longest cur"
proof (induction pre arbitrary: longest cur)
  case Nil
  then show ?case using backtick_run [of cur k post longest] by auto
qed simp

lemma fence_outruns: "text \<noteq> pre @ summary_fence text @ post"
proof
  assume h: "text = pre @ summary_fence text @ post"
  define k where "k = (if longest_backtick_run text + 1 < 3 then 3 else longest_backtick_run text + 1)"
  have "summary_fence text = replicate k CHR 0x60" by (simp add: summary_fence_def Let_def k_def)
  with h have "text = pre @ replicate k CHR 0x60 @ post" by simp
  then have "k \<le> longest_backtick_run text"
    using backtick_run_inside [of k pre post 0 0] by (simp add: longest_backtick_run_def)
  then show False by (simp add: k_def split: if_splits)
qed

section \<open>Properties\<close>

text \<open>C18. Every row of the summary is one line with the columns of its table, whatever the names,
  reasons and identifiers hold: a job's row ends exactly four cells and a step's exactly seven (one
  more bar each, at the start), and no cell is longer than 203 bytes.\<close>

theorem summary_rows_keep_their_columns:
  assumes "rj_outcome j \<in> {''success'', ''failed'', ''skipped'', ''cancelled''}"
    and "sr_outcome s = Some oc" and "oc \<in> {''success'', ''failed'', ''skipped'', ''cancelled''}"
  shows "one_line (summary_job_row j) \<and> bars nl (summary_job_row j) = 5
    \<and> one_line (summary_step_row k s) \<and> bars nl (summary_step_row k s) = 8
    \<and> length (put_cell x) \<le> 203"
proof (intro conjI)
  let ?jb = "''| '' @ put_cell (Some (rj_id j)) @ '' | '' @ marker (rj_outcome j) @ '' | '' @ put_cell (rj_reason j) @ '' | ''
     @ put_ms (rj_duration_ms j) @ '' |''"
  have "summary_job_row j = ?jb @ [nl]" by (simp add: summary_job_row_def)
  moreover have "nl \<notin> set ?jb"
    using marker_plain [OF assms(1)] cell_no_nl int_dec_no_nl by (simp add: put_cell_def put_ms_def)
  ultimately show "one_line (summary_job_row j)" using one_lineI by metis
  let ?sb = "''| '' @ nat_dec (k + 1) @ '' | ''
     @ put_cell (case sr_id s of Some x \<Rightarrow> Some x | None \<Rightarrow> sr_name s) @ '' | ''
     @ put_cell (case sr_plugin s of Some x \<Rightarrow> Some x | None \<Rightarrow> Some ''run'') @ '' | ''
     @ marker (the (sr_outcome s)) @ '' | '' @ changed_cell s @ '' | '' @ put_cell (sr_reason s) @ '' | ''
     @ put_ms (sr_duration_ms s) @ '' |''"
  have "summary_step_row k s = ?sb @ [nl]" by (simp add: summary_step_row_def)
  moreover have "nl \<notin> set ?sb"
    using marker_plain [OF assms(3)] cell_no_nl int_dec_no_nl nat_dec_no_nl assms(2)
    by (simp add: put_cell_def put_ms_def changed_cell_def)
  ultimately show "one_line (summary_step_row k s)" using one_lineI by metis
  have b: "bars nl (''| '' @ t) = 1 + bars CHR 0x20 t" for t by simp
  show "bars nl (summary_job_row j) = 5"
    unfolding summary_job_row_def b using marker_plain [OF assms(1)] by (simp only: row_simps) (simp add: row_simps)
  show "bars nl (summary_step_row k s) = 8"
    unfolding summary_step_row_def b using marker_plain [OF assms(3)] assms(2) by (simp only: row_simps) (simp add: row_simps)
  show "length (put_cell x) \<le> 203" using cell_length by (simp add: put_cell_def CELL_MAX_def)
qed

theorem summary_rows_keep_their_columns_witness:
  "one_line (summary_job_row (job_result_ex\<lparr>rj_id := [CHR ''|'', nl, bsl]\<rparr>))
   \<and> bars nl (summary_job_row (job_result_ex\<lparr>rj_id := [CHR ''|'', nl, bsl]\<rparr>)) = 5
   \<and> bars nl (summary_step_row 0 (step_result_zero\<lparr>sr_outcome := Some ''failed'', sr_name := Some [CHR ''|'']\<rparr>)) = 8"
  using summary_rows_keep_their_columns [of "job_result_ex\<lparr>rj_id := [CHR ''|'', nl, bsl]\<rparr>"
      "step_result_zero\<lparr>sr_outcome := Some ''failed'', sr_name := Some [CHR ''|'']\<rparr>" "''failed''" 0 None]
  by (simp add: job_result_ex_def)

text \<open>A log that is quoted by \<open>q\<close>, with what is left out before and after it.\<close>

definition log_quote :: "byte list \<Rightarrow> byte list \<Rightarrow> byte list \<Rightarrow> byte list \<Rightarrow> bool" where
  "log_quote buf skipped q rest \<longleftrightarrow> buf = skipped @ q @ rest
    \<and> (skipped \<noteq> [] \<longrightarrow> last skipped = nl)
    \<and> line_count (q @ rest) \<le> LOG_TAIL_LINES
    \<and> (skipped \<noteq> [] \<and> q @ rest \<noteq> [] \<longrightarrow> line_count (q @ rest) = LOG_TAIL_LINES)
    \<and> CHR 0x00 \<notin> set q \<and> (rest \<noteq> [] \<longrightarrow> hd rest = CHR 0x00)"

definition quote_block :: "string \<Rightarrow> byte list \<Rightarrow> string" where
  "quote_block fence q =
     (if q = [] then []
      else ''<details><summary>log tail</summary>'' @ [nl, nl] @ fence @ [nl] @ q @ (if last q = nl then [] else [nl])
           @ fence @ [nl, nl] @ ''</details>'' @ [nl, nl])"

lemma summary_log_block: "summary_log (Some b) = quote_block (summary_fence (c_str b)) (c_str b)"
  by (simp add: summary_log_def quote_block_def Let_def)

text \<open>C19. What the summary quotes of a failed job's log: the quotation begins at the start of a line, with at
  most the last twenty lines of the log ahead of it, exactly twenty when something was left out, and goes to
  the end of the log, or to the first NUL there if it holds one; a log without a NUL is quoted in whole lines.
  The quotation stands between two fences that occur nowhere in it, each on a line of its own, so no line of a
  log can end the block; and nothing is printed when there is nothing to quote.\<close>

theorem summary_log_quotes_the_end:
  "\<exists>skipped q rest fence. log_quote buf skipped q rest \<and> (CHR 0x00 \<notin> set buf \<longrightarrow> rest = [])
    \<and> set fence = {CHR 0x60} \<and> 3 \<le> length fence \<and> \<not> sublist fence q
    \<and> summary_log (log_tail (Some buf) LOG_TAIL_LINES) = quote_block fence q"
proof -
  define r where "r = tail_loop buf (tail_start buf) LOG_TAIL_LINES"
  define t where "t = drop r buf"
  define rest where "rest = dropWhile (\<lambda>c. c \<noteq> CHR 0x00) t"
  have t: "log_tail (Some buf) LOG_TAIL_LINES = Some t" by (simp add: log_tail_def r_def t_def)
  have q: "t = c_str t @ rest" "rest \<noteq> [] \<longrightarrow> hd rest = CHR 0x00" "CHR 0x00 \<notin> set (c_str t)"
    using hd_dropWhile [of "\<lambda>c. c \<noteq> CHR 0x00" t] by (auto simp: c_str_def rest_def dest: set_takeWhileD)
  note l = log_tail_lines [OF _ r_def]
  have l': "r \<le> length buf" "0 < r \<Longrightarrow> buf ! (r - 1) = nl" "line_count t \<le> LOG_TAIL_LINES"
    "0 < r \<Longrightarrow> t \<noteq> [] \<Longrightarrow> line_count t = LOG_TAIL_LINES"
    using l t_def by (simp_all add: LOG_TAIL_LINES_def)
  have cut: "last (take r buf) = nl" if "take r buf \<noteq> []"
    using that l'(1,2) by (cases r) (auto simp: take_Suc_conv_app_nth)
  have b: "buf = take r buf @ c_str t @ rest" using q(1) unfolding t_def by simp
  have fence: "set (summary_fence (c_str t)) = {CHR 0x60}" "3 \<le> length (summary_fence (c_str t))"
    "\<not> sublist (summary_fence (c_str t)) (c_str t)"
    using fence_outruns [of "c_str t"] by (auto simp: summary_fence_def Let_def sublist_def)
  have "log_quote buf (take r buf) (c_str t) rest"
    unfolding log_quote_def q(1) [symmetric] using cut l'(3,4) q(2,3) by (simp add: t_def)
  moreover have "rest = []" if "CHR 0x00 \<notin> set buf"
  proof (rule ccontr)
    assume "rest \<noteq> []"
    with q(2) have "CHR 0x00 \<in> set rest" by (metis list.set_sel(1))
    with b that show False by (metis Un_iff set_append)
  qed
  ultimately show ?thesis using fence summary_log_block [of t] unfolding t by blast
qed

text \<open>A log of two lines, the second cut by a NUL.\<close>

theorem summary_log_quotes_the_end_witness:
  "\<exists>skipped q rest fence. log_quote [CHR 0x60, CHR 0x60, CHR 0x60, nl, CHR ''e'', CHR 0x00, CHR ''n''] skipped q rest
    \<and> \<not> sublist fence q
    \<and> quote_block fence q = quote_block (replicate 4 CHR 0x60) [CHR 0x60, CHR 0x60, CHR 0x60, nl, CHR ''e'']"
proof -
  let ?b = "[CHR 0x60, CHR 0x60, CHR 0x60, nl, CHR ''e'', CHR 0x00, CHR ''n'']"
  have "summary_log (log_tail (Some ?b) LOG_TAIL_LINES) = quote_block (replicate 4 CHR 0x60) [CHR 0x60, CHR 0x60, CHR 0x60, nl, CHR ''e'']"
    by code_simp
  then show ?thesis using summary_log_quotes_the_end [of ?b] by metis
qed

text \<open>A trace record is one line of at most 511 bytes: when its fields have no newline, what is
  written ends with the only newline in it, and a record that fits is written whole.\<close>

lemma trace_record_is_one_line:
  assumes "nl \<notin> set (dash job)" "nl \<notin> set event" "nl \<notin> set (dash nxt)" "nl \<notin> set kind" "nl \<notin> set (dash reason)"
    and "nl \<notin> set (case detail of None \<Rightarrow> [] | Some d \<Rightarrow> d)"
    and text_def: "text = trace_text elapsed job step state event nxt kind reason detail"
  shows "one_line (trace_line text) \<and> length (trace_line text) \<le> 511 \<and> (length text \<le> 511 \<longrightarrow> trace_line text = text)"
proof -
  obtain b where b: "text = b @ [nl]" and n: "nl \<notin> set b"
    using assms(1-6) int_dec_no_nl state_name_no_nl [of state]
    unfolding text_def trace_text_def
    by (auto simp: pad6_def Let_def split: option.splits)
  have "nl \<notin> set (take 510 b)" using n by (meson in_set_takeD)
  then show ?thesis
    using b n one_lineI [of "take 510 b"] one_lineI [OF n] by (auto simp: trace_line_def)
qed

end
