(* ===== verification/Doubles.thy ===== *)
theory Doubles
  imports Complex_Main Qwe_Prelude "HOL-Library.List_Lexorder"
begin

text \<open>
  Doubles and string order, as the kernel meets them in Lua values: a double is not a number, an
  infinity, or a finite value, which is rational (the sign of zero is not kept); \<open>strcmp\<close> orders
  strings by their bytes, unsigned.
\<close>

section \<open>Doubles\<close>

datatype dbl = NaN | PosInf | NegInf | Fin rat

fun dbl_less :: "dbl \<Rightarrow> dbl \<Rightarrow> bool" where
  "dbl_less NaN y = False"
| "dbl_less x NaN = False"
| "dbl_less PosInf y = False"
| "dbl_less x NegInf = False"
| "dbl_less NegInf y = True"
| "dbl_less x PosInf = True"
| "dbl_less (Fin a) (Fin b) = (a < b)"

fun dbl_le :: "dbl \<Rightarrow> dbl \<Rightarrow> bool" where
  "dbl_le NaN y = False"
| "dbl_le x NaN = False"
| "dbl_le x y = (\<not> dbl_less y x)"

text \<open>The cast of a finite double to an integer type it fits: towards zero.\<close>

fun dbl_trunc :: "dbl \<Rightarrow> int" where
  "dbl_trunc (Fin a) = (if a < 0 then - \<lfloor>- a\<rfloor> else \<lfloor>a\<rfloor>)"
| "dbl_trunc _ = 0"

definition LONG_MAX :: int where
  "LONG_MAX = 2 ^ 63 - 1"

section \<open>String order\<close>

definition cmp_key :: "cstring \<Rightarrow> nat list" where
  "cmp_key s = map of_char s"

lemma cmp_key_inj [simp]: "cmp_key s = cmp_key t \<longleftrightarrow> s = t"
proof -
  have "inj (of_char :: char \<Rightarrow> nat)" by (simp add: inj_on_def)
  then show ?thesis by (simp add: cmp_key_def inj_map_eq_map)
qed

text \<open>A string as C reads it: up to its first NUL.\<close>

definition cstr :: "byte list \<Rightarrow> cstring" where
  "cstr s = takeWhile (\<lambda>c. c \<noteq> CHR 0x00) s"

definition nul_free :: "byte list \<Rightarrow> bool" where
  "nul_free s \<longleftrightarrow> CHR 0x00 \<notin> set s"

lemma cstr_id: "nul_free s \<Longrightarrow> cstr s = s"
  by (auto simp: cstr_def nul_free_def takeWhile_eq_all_conv)

lemma nul_free_append [simp]: "nul_free (s @ t) \<longleftrightarrow> nul_free s \<and> nul_free t"
  by (simp add: nul_free_def)

end
