(* ===== verification/Load.thy ===== *)
theory Load
  imports Engine_Safety Doubles "HOL-Library.Multiset"
begin

text \<open>
  The jobs of a run (\<open>src/kernel/jobs.c\<close>, and \<open>select_jobs\<close> in
  \<open>src/kernel/workflow.c\<close>): the list read from the decoded workflow, and the selection by
  \<open>--job\<close>.

  The decoded workflow is given as the fields the engine reads of it.
\<close>

section \<open>Numbers\<close>

definition QWE_TIMEOUT_MAX_SECONDS :: rat where
  "QWE_TIMEOUT_MAX_SECONDS = 604800"

text \<open>
  \<open>fl\<close> is the rounding of a product to a double. \<open>tbl\<close> is the number in the field
  \<open>timeout-seconds\<close>, if the field is one.
\<close>

definition qwe_timeout_ms_at :: "(rat \<Rightarrow> rat) \<Rightarrow> dbl option \<Rightarrow> int" where
  "qwe_timeout_ms_at fl tbl =
     (case tbl of
        None \<Rightarrow> 0
      | Some s0 \<Rightarrow>
          let s = (if dbl_less (Fin QWE_TIMEOUT_MAX_SECONDS) s0 then Fin QWE_TIMEOUT_MAX_SECONDS else s0) in
          if dbl_less (Fin 0) s then
            let ms = dbl_trunc (case s of Fin a \<Rightarrow> Fin (fl (a * 1000)) | x \<Rightarrow> x)
            in if ms < 1 then 1 else ms
          else 0)"

definition qwe_count_from_number :: "dbl \<Rightarrow> int" where
  "qwe_count_from_number v =
     (if \<not> dbl_le (Fin 1) v then 0
      else if dbl_le (Fin (2 ^ 63)) v then LONG_MAX
      else dbl_trunc v)"

section \<open>Loading\<close>

text \<open>A job's table: the entries of \<open>needs\<close> are the strings found there, \<open>None\<close> for anything else.\<close>

record job_table =
  jt_target :: "cstring option"
  jt_timeout :: "dbl option"
  jt_needs :: "cstring option list option"
  jt_steps :: "(bool \<times> step_spec) list"

datatype load_error = LE_NOMEM | LE_REFUSED

text \<open>The first loop: an id and a table reference per entry, in an array that grows from eight.\<close>

fun load_ids :: "(nat \<Rightarrow> bool) \<Rightarrow> (cstring \<times> job_table) list \<Rightarrow> nat \<Rightarrow> nat \<Rightarrow> nat \<Rightarrow> nat option" where
  "load_ids ok [] n cap k = Some k"
| "load_ids ok (e # es) n cap k =
     (let grow = (n = cap);
          k1 = (if grow then Suc k else k);
          cap1 = (if grow then (if cap \<noteq> 0 then cap * 2 else 8) else cap)
      in if (grow \<longrightarrow> ok k) \<and> ok k1 then load_ids ok es (Suc n) cap1 (Suc k1) else None)"

text \<open>The names a job needs: \<open>False\<close> when one is not a string, where the loop stops.\<close>

fun load_needs :: "(nat \<Rightarrow> bool) \<Rightarrow> cstring option list \<Rightarrow> nat \<Rightarrow> (bool \<times> cstring list \<times> nat) option" where
  "load_needs ok [] k = Some (True, [], k)"
| "load_needs ok (None # xs) k = Some (False, [], k)"
| "load_needs ok (Some s # xs) k =
     (if ok k then map_option (\<lambda>(g, ns, k'). (g, s # ns, k')) (load_needs ok xs (Suc k)) else None)"

definition steps_ok :: "job_table \<Rightarrow> bool" where
  "steps_ok t = list_all (\<lambda>(has_run, sp). has_run \<or> sp_uses sp \<noteq> None) (jt_steps t)"

text \<open>One job of the second loop: whether it can be run, and the job.\<close>

definition load_job :: "(rat \<Rightarrow> rat) \<Rightarrow> (nat \<Rightarrow> bool) \<Rightarrow> cstring \<times> job_table \<Rightarrow> nat \<Rightarrow> (bool \<times> job \<times> nat) option" where
  "load_job fl ok e k =
     (case e of (ident, t) \<Rightarrow>
        let target = (case jt_target t of Some s \<Rightarrow> s | None \<Rightarrow> ''local'');
            mk = (\<lambda>ns. job_loaded ident target ns (map snd (jt_steps t)) (qwe_timeout_ms_at fl (jt_timeout t)))
        in if \<not> ok k then None
           else case jt_needs t of
                  None \<Rightarrow> Some (steps_ok t, mk [], Suc k)
                | Some xs \<Rightarrow>
                    if \<not> ok (Suc k) then None
                    else map_option (\<lambda>(g, ns, k'). (g \<and> steps_ok t, mk ns, k')) (load_needs ok xs (Suc (Suc k))))"

fun load_jobs :: "(rat \<Rightarrow> rat) \<Rightarrow> (nat \<Rightarrow> bool) \<Rightarrow> (cstring \<times> job_table) list \<Rightarrow> nat \<Rightarrow> (bool \<times> job list) option" where
  "load_jobs fl ok [] k = Some (True, [])"
| "load_jobs fl ok (e # es) k =
     (case load_job fl ok e k of
        None \<Rightarrow> None
      | Some (g, j, k') \<Rightarrow> map_option (\<lambda>(gs, js). (g \<and> gs, j # js)) (load_jobs fl ok es k'))"

definition qwe_jobs_load ::
    "(rat \<Rightarrow> rat) \<Rightarrow> (nat \<Rightarrow> bool) \<Rightarrow> (cstring \<times> job_table) list \<Rightarrow> load_error + job list" where
  "qwe_jobs_load fl ok tbl =
     (case load_ids ok tbl 0 0 0 of
        None \<Rightarrow> Inl LE_NOMEM
      | Some k \<Rightarrow>
          (case load_jobs fl ok (sort_key (\<lambda>e. cmp_key (fst e)) tbl) k of
             None \<Rightarrow> Inl LE_NOMEM
           | Some (runnable, jobs) \<Rightarrow> if runnable then Inr jobs else Inl LE_REFUSED))"

section \<open>Selection\<close>

fun chosen :: "job list \<Rightarrow> cstring list \<Rightarrow> bool list \<Rightarrow> bool list option" where
  "chosen jobs [] keep = Some keep"
| "chosen jobs (x # xs) keep =
     (case find_job jobs x of None \<Rightarrow> None | Some i \<Rightarrow> chosen jobs xs (keep[i := True]))"

fun keep_needs :: "nat list \<Rightarrow> bool \<times> bool list \<Rightarrow> bool \<times> bool list" where
  "keep_needs [] st = st"
| "keep_needs (d # ds) (changed, keep) =
     keep_needs ds (if \<not> keep ! d then (True, keep[d := True]) else (changed, keep))"

fun keep_pass :: "job list \<Rightarrow> nat list \<Rightarrow> bool \<times> bool list \<Rightarrow> bool \<times> bool list" where
  "keep_pass jobs [] st = st"
| "keep_pass jobs (i # is) st =
     keep_pass jobs is (if snd st ! i then keep_needs (needs_idx jobs (jobs ! i)) st else st)"

text \<open>\<open>do ... while (changed)\<close>, with a bound on the passes.\<close>

fun keep_loop :: "nat \<Rightarrow> job list \<Rightarrow> bool list \<Rightarrow> bool list option" where
  "keep_loop 0 jobs keep = None"
| "keep_loop (Suc f) jobs keep =
     (case keep_pass jobs [0..<length jobs] (False, keep) of
        (changed, keep') \<Rightarrow> if changed then keep_loop f jobs keep' else Some keep')"

datatype select_error = SE_NOMEM | SE_NO_SUCH_JOB

definition select_jobs :: "bool \<Rightarrow> cstring list \<Rightarrow> job list \<Rightarrow> (select_error + job list) option" where
  "select_jobs mem names jobs =
     (if \<not> mem then Some (Inl SE_NOMEM)
      else case chosen jobs names (replicate (length jobs) False) of
        None \<Rightarrow> Some (Inl SE_NO_SUCH_JOB)
      | Some keep \<Rightarrow>
          map_option (\<lambda>keep'. Inr (map ((!) jobs) (filter ((!) keep') [0..<length jobs])))
            (keep_loop (length jobs + 1) jobs keep))"

section \<open>What loading gives\<close>

text \<open>The rounding of doubles as far as it matters here: monotone, and exact on the integers it meets.\<close>

definition rounds_well :: "(rat \<Rightarrow> rat) \<Rightarrow> bool" where
  "rounds_well fl \<longleftrightarrow> (\<forall>a b. a \<le> b \<longrightarrow> fl a \<le> fl b) \<and> fl 0 = 0 \<and> fl 604800000 = 604800000"

lemma dbl_less_Fin0: "dbl_less (Fin 0) v \<longleftrightarrow> v = PosInf \<or> (\<exists>a. v = Fin a \<and> 0 < a)"
  by (cases v) simp_all

lemma timeout_bounds:
  assumes "rounds_well fl"
  shows "0 \<le> qwe_timeout_ms_at fl t \<and> qwe_timeout_ms_at fl t \<le> 604800000
    \<and> (0 < qwe_timeout_ms_at fl t \<longleftrightarrow> (\<exists>v. t = Some v \<and> dbl_less (Fin 0) v))"
proof (cases t)
  case None
  then show ?thesis by (simp add: qwe_timeout_ms_at_def)
next
  case (Some v)
  define s where "s = (if dbl_less (Fin QWE_TIMEOUT_MAX_SECONDS) v then Fin QWE_TIMEOUT_MAX_SECONDS else v)"
  show ?thesis
  proof (cases "dbl_less (Fin 0) v")
    case False
    then have "\<not> dbl_less (Fin 0) s"
      by (cases v) (auto simp: s_def QWE_TIMEOUT_MAX_SECONDS_def)
    with False Some show ?thesis by (simp add: qwe_timeout_ms_at_def s_def [symmetric])
  next
    case True
    have "\<exists>a. s = Fin a \<and> 0 < a \<and> a \<le> 604800"
    proof (cases v)
      case (Fin x)
      with True show ?thesis by (cases "604800 < x") (simp_all add: s_def QWE_TIMEOUT_MAX_SECONDS_def)
    qed (use True in \<open>simp_all add: s_def QWE_TIMEOUT_MAX_SECONDS_def\<close>)
    then obtain a where a: "s = Fin a" "0 < a" "a \<le> 604800" by blast
    have mono: "x \<le> y \<Longrightarrow> fl x \<le> fl y" for x y
      using assms by (simp add: rounds_well_def)
    have "0 \<le> a * 1000" "a * 1000 \<le> 604800000" using a by simp_all
    then have "fl 0 \<le> fl (a * 1000)" "fl (a * 1000) \<le> fl 604800000" using mono by blast+
    then have b: "0 \<le> fl (a * 1000)" "fl (a * 1000) \<le> 604800000" using assms by (simp_all add: rounds_well_def)
    then have "\<lfloor>fl (a * 1000)\<rfloor> \<le> 604800000" by (simp add: floor_le_iff)
    then have e: "qwe_timeout_ms_at fl t = (if \<lfloor>fl (a * 1000)\<rfloor> < 1 then 1 else \<lfloor>fl (a * 1000)\<rfloor>)"
      using Some a b by (simp add: qwe_timeout_ms_at_def s_def [symmetric] Let_def)
    with \<open>\<lfloor>fl (a * 1000)\<rfloor> \<le> 604800000\<close> Some True show ?thesis by simp
  qed
qed

lemma count_bounds:
  "0 \<le> qwe_count_from_number v \<and> qwe_count_from_number v \<le> LONG_MAX
    \<and> (0 < qwe_count_from_number v \<longleftrightarrow> dbl_le (Fin 1) v)
    \<and> (\<forall>n. v = Fin (of_int n) \<longrightarrow> 1 \<le> n \<longrightarrow> n < 2 ^ 63 \<longrightarrow> qwe_count_from_number v = n)"
proof (cases v)
  case (Fin a)
  have "\<lfloor>a\<rfloor> \<le> LONG_MAX" if "a < 2 ^ 63"
  proof -
    have "a < of_int (2 ^ 63)" using that by simp
    then have "\<lfloor>a\<rfloor> < 2 ^ 63" by (simp only: floor_less_iff)
    then show ?thesis by (simp add: LONG_MAX_def)
  qed
  moreover have "1 \<le> \<lfloor>a\<rfloor>" if "1 \<le> a" using that by (simp add: le_floor_iff)
  moreover have "(0 :: int) \<le> LONG_MAX" "(0 :: int) < LONG_MAX" by (simp_all add: LONG_MAX_def)
  moreover have "(1 :: rat) \<le> of_int n \<longleftrightarrow> 1 \<le> n" for n by simp
  moreover have "(2 :: rat) ^ 63 \<le> of_int n \<longleftrightarrow> 2 ^ 63 \<le> n" for n
    using of_int_le_iff [of "2 ^ 63" n, where ?'a = rat] by simp
  ultimately show ?thesis using Fin
    by (auto simp: qwe_count_from_number_def not_less)
qed (simp_all add: qwe_count_from_number_def LONG_MAX_def)

lemma load_jobs_spec:
  assumes "load_jobs fl ok es k = Some (g, js)"
  shows "map jb_id js = map fst es \<and> list_all loaded js
    \<and> (g \<longrightarrow> list_all2 (\<lambda>e j. steps_ok (snd e) \<and> jb_detail j = None \<and> jb_specs j = map snd (jt_steps (snd e))
          \<and> jb_timeout_ms j = qwe_timeout_ms_at fl (jt_timeout (snd e))
          \<and> jb_target j = (case jt_target (snd e) of Some s \<Rightarrow> s | None \<Rightarrow> ''local'')
          \<and> map Some (jb_needs j) = (case jt_needs (snd e) of None \<Rightarrow> [] | Some xs \<Rightarrow> xs)) es js)"
  using assms
proof (induction es arbitrary: k g js)
  case (Cons e es)
  obtain ident t where e: "e = (ident, t)" by (cases e)
  obtain g1 j k1 where l: "load_job fl ok e k = Some (g1, j, k1)"
    using Cons.prems by (auto split: option.splits)
  obtain gs js1 where r: "load_jobs fl ok es k1 = Some (gs, js1)" and eq: "js = j # js1" "g = (g1 \<and> gs)"
    using Cons.prems l by auto
  have needs: "load_needs ok xs k2 = Some (b, ns, k3) \<Longrightarrow> b \<Longrightarrow> map Some ns = xs" for xs k2 b ns k3
    by (induction ok xs k2 arbitrary: b ns k3 rule: load_needs.induct) (auto split: if_splits)
  obtain ns where j: "j = job_loaded ident (case jt_target t of Some s \<Rightarrow> s | None \<Rightarrow> ''local'') ns (map snd (jt_steps t))
      (qwe_timeout_ms_at fl (jt_timeout t))"
    and n: "g1 \<Longrightarrow> steps_ok t \<and> map Some ns = (case jt_needs t of None \<Rightarrow> [] | Some xs \<Rightarrow> xs)"
    using l needs unfolding e load_job_def Let_def prod.case
    by (auto split: if_splits option.splits)
  have "loaded j" unfolding loaded_def j by (simp add: job_loaded_def)
  with Cons.IH [OF r] eq e j n show ?case by (auto simp: job_loaded_def)
qed simp

lemma jobs_load_Inr:
  assumes "qwe_jobs_load fl ok tbl = Inr jobs"
  shows "\<exists>k. load_jobs fl ok (sort_key (\<lambda>e. cmp_key (fst e)) tbl) k = Some (True, jobs)"
  using assms by (auto simp: qwe_jobs_load_def split: option.splits if_splits)

lemma load_total:
  assumes "\<And>i. ok i"
  shows "load_ids ok tbl n cap k \<noteq> None" "load_needs ok xs k \<noteq> None" "load_job fl ok e k \<noteq> None" "load_jobs fl ok es k \<noteq> None"
proof -
  show "load_ids ok tbl n cap k \<noteq> None"
    using assms by (induction ok tbl n cap k rule: load_ids.induct) (auto simp: Let_def)
  show ln: "load_needs ok xs k \<noteq> None" for xs k
    using assms by (induction ok xs k rule: load_needs.induct) auto
  show lj: "load_job fl ok e k \<noteq> None" for e k
  proof (cases "jt_needs (snd e)")
    case (Some xs)
    with assms ln [of xs "Suc (Suc k)"] show ?thesis
      by (simp add: load_job_def Let_def split_beta)
  qed (use assms in \<open>simp add: load_job_def Let_def split_beta\<close>)
  show "load_jobs fl ok es k \<noteq> None"
  proof (induction es arbitrary: k)
    case (Cons e es)
    obtain x where "load_job fl ok e k = Some x" using lj by fast
    with Cons show ?case by (cases x) auto
  qed simp
qed

text \<open>A table the engine can run.\<close>

definition table_ok :: "job_table \<Rightarrow> bool" where
  "table_ok t \<longleftrightarrow> steps_ok t \<and> (case jt_needs t of None \<Rightarrow> True | Some xs \<Rightarrow> None \<notin> set xs)"

lemma load_job_good:
  assumes "load_job fl ok e k = Some (g, j, k')"
  shows "g = table_ok (snd e)"
proof (cases "jt_needs (snd e)")
  case None
  with assms show ?thesis
    by (auto simp: load_job_def table_ok_def Let_def split_beta split: if_splits)
next
  case (Some xs)
  have needs: "load_needs ok xs k = Some (b, ns, k') \<Longrightarrow> b = (None \<notin> set xs)" for xs k b ns k'
    by (induction ok xs k arbitrary: b ns k' rule: load_needs.induct) (auto split: if_splits)
  obtain b ns k2 where n: "load_needs ok xs (Suc (Suc k)) = Some (b, ns, k2)" and "g = (b \<and> steps_ok (snd e))"
    using assms Some by (auto simp: load_job_def Let_def split_beta split: if_splits)
  with needs [OF n] Some show ?thesis by (auto simp: table_ok_def)
qed

lemma load_jobs_good: "load_jobs fl ok es k = Some (g, js) \<Longrightarrow> g = list_all (\<lambda>e. table_ok (snd e)) es"
  by (induction es arbitrary: k g js) (auto split: option.splits dest!: load_job_good)

text \<open>The job has what its entry says.\<close>

definition job_from :: "(rat \<Rightarrow> rat) \<Rightarrow> cstring \<times> job_table \<Rightarrow> job \<Rightarrow> bool" where
  "job_from fl e j \<longleftrightarrow> jb_id j = fst e \<and> jb_detail j = None
     \<and> jb_specs j = map snd (jt_steps (snd e)) \<and> jb_timeout_ms j = qwe_timeout_ms_at fl (jt_timeout (snd e))
     \<and> jb_target j = (case jt_target (snd e) of Some s \<Rightarrow> s | None \<Rightarrow> ''local'')
     \<and> map Some (jb_needs j) = (case jt_needs (snd e) of None \<Rightarrow> [] | Some xs \<Rightarrow> xs)"

lemma jobs_load_spec:
  "case qwe_jobs_load fl ok tbl of
     Inl LE_NOMEM \<Rightarrow> \<exists>i. \<not> ok i
   | Inl LE_REFUSED \<Rightarrow> \<not> list_all (\<lambda>e. table_ok (snd e)) tbl
   | Inr jobs \<Rightarrow> list_all (\<lambda>e. table_ok (snd e)) tbl \<and> list_all loaded jobs
       \<and> sorted (map (\<lambda>j. cmp_key (jb_id j)) jobs)
       \<and> (\<exists>es. mset es = mset tbl \<and> list_all2 (job_from fl) es jobs)"
proof -
  let ?es = "sort_key (\<lambda>e. cmp_key (fst e)) tbl"
  show ?thesis
  proof (cases "qwe_jobs_load fl ok tbl")
    case (Inl e)
    then consider "e = LE_NOMEM" "load_ids ok tbl 0 0 0 = None"
      | k where "e = LE_NOMEM" "load_jobs fl ok ?es k = None"
      | k js where "e = LE_REFUSED" "load_jobs fl ok ?es k = Some (False, js)"
      by (auto simp: qwe_jobs_load_def split: option.splits if_splits)
    then show ?thesis
    proof cases
      case 1
      then have "\<exists>i. \<not> ok i" using load_total(1) by metis
      with Inl 1(1) show ?thesis by simp
    next
      case 2
      then have "\<exists>i. \<not> ok i" using load_total(4) by metis
      with Inl 2(1) show ?thesis by simp
    next
      case 3
      from load_jobs_good [OF this(2)] have "\<not> list_all (\<lambda>e. table_ok (snd e)) tbl" by (simp add: list_all_iff)
      with Inl 3 show ?thesis by simp
    qed
  next
    case (Inr jobs)
    then obtain k where l: "load_jobs fl ok ?es k = Some (True, jobs)" using jobs_load_Inr by blast
    note sp = load_jobs_spec [OF l]
    have "list_all (\<lambda>e. table_ok (snd e)) tbl" using load_jobs_good [OF l] by (simp add: list_all_iff)
    moreover have "map (\<lambda>j. cmp_key (jb_id j)) jobs = map (\<lambda>e. cmp_key (fst e)) ?es"
      using sp by (metis (no_types, lifting) map_map comp_def map_eq_conv)
    then have "sorted (map (\<lambda>j. cmp_key (jb_id j)) jobs)" by simp
    moreover have ids: "list_all2 (\<lambda>e j. jb_id j = fst e) ?es jobs"
      using sp by (simp add: list_all2_conv_all_nth) (metis length_map nth_map)
    moreover have "list_all2 (job_from fl) ?es jobs"
      using sp ids unfolding list_all2_conv_all_nth job_from_def by simp
    moreover have "mset ?es = mset tbl" by simp
    ultimately show ?thesis using Inr sp unfolding Inr sum.case by blast
  qed
qed

section \<open>What selection gives\<close>

text \<open>The needs of a job, as edges between indices.\<close>

definition need_edges :: "job list \<Rightarrow> (nat \<times> nat) set" where
  "need_edges jobs = {(i, d). i < length jobs \<and> d \<in> set (needs_idx jobs (jobs ! i))}"

definition needs_bound :: "job list \<Rightarrow> bool" where
  "needs_bound jobs \<longleftrightarrow> list_all (\<lambda>j. list_all (\<lambda>d. d < length jobs) (needs_idx jobs j)) jobs"

definition kept :: "bool list \<Rightarrow> nat set" where
  "kept keep = {i. i < length keep \<and> keep ! i}"

lemma kept_update: "d < length keep \<Longrightarrow> kept (keep[d := True]) = insert d (kept keep)"
  by (auto simp: kept_def nth_list_update)

lemma kept_bound: "kept keep \<subseteq> {..<length keep}"
  by (auto simp: kept_def)

lemma kept_eq: "length a = length b \<Longrightarrow> kept a = kept b \<longleftrightarrow> a = b"
  by (auto simp: kept_def list_eq_iff_nth_eq set_eq_iff)

lemma keep_needs_spec:
  assumes "keep_needs ds (ch, keep) = (ch', keep')" "list_all (\<lambda>d. d < length keep) ds"
  shows "length keep' = length keep \<and> kept keep' = kept keep \<union> set ds \<and> (ch' \<longleftrightarrow> ch \<or> \<not> set ds \<subseteq> kept keep)"
  using assms
proof (induction ds arbitrary: ch keep)
  case (Cons d ds)
  then have d: "d < length keep" by simp
  show ?case
  proof (cases "keep ! d")
    case True
    with d have "d \<in> kept keep" by (simp add: kept_def)
    with True Cons.IH [of ch keep] Cons.prems show ?thesis by auto
  next
    case False
    then have "d \<notin> kept keep" by (simp add: kept_def)
    with False d Cons.IH [of True "keep[d := True]"] Cons.prems show ?thesis by (auto simp: kept_update)
  qed
qed simp

lemma need_edges_Image: "i < length jobs \<Longrightarrow> need_edges jobs `` {i} = set (needs_idx jobs (jobs ! i))"
  by (auto simp: need_edges_def)

lemma needs_bound_nth: "needs_bound jobs \<Longrightarrow> i < length jobs \<Longrightarrow> list_all (\<lambda>d. d < length jobs) (needs_idx jobs (jobs ! i))"
  by (simp add: needs_bound_def list_all_length)

lemma closure_between:
  assumes "A \<subseteq> B" "B \<subseteq> r\<^sup>* `` A"
  shows "r\<^sup>* `` B = r\<^sup>* `` A"
proof
  have "r\<^sup>* `` B \<subseteq> r\<^sup>* `` (r\<^sup>* `` A)" using assms(2) by (rule Image_mono [OF subset_refl])
  also have "\<dots> = r\<^sup>* `` A" by (simp add: relcomp_Image [symmetric])
  finally show "r\<^sup>* `` B \<subseteq> r\<^sup>* `` A" .
  show "r\<^sup>* `` A \<subseteq> r\<^sup>* `` B" using assms(1) by (rule Image_mono [OF subset_refl])
qed

text \<open>A pass stays within the closure, and one that changes nothing has found it.\<close>

lemma keep_pass_spec:
  assumes "keep_pass jobs is (ch, keep) = (ch', keep')" "needs_bound jobs" "length keep = length jobs"
    and "\<forall>i \<in> set is. i < length jobs"
  shows "length keep' = length jobs \<and> kept keep \<subseteq> kept keep' \<and> kept keep' \<subseteq> (need_edges jobs)\<^sup>* `` kept keep
    \<and> (ch' \<longleftrightarrow> ch \<or> kept keep' \<noteq> kept keep)
    \<and> (kept keep' = kept keep \<longrightarrow> need_edges jobs `` (kept keep \<inter> set is) \<subseteq> kept keep)"
  using assms
proof (induction "is" arbitrary: ch keep)
  case (Cons i "is")
  then have i: "i < length jobs" by simp
  show ?case
  proof (cases "keep ! i")
    case True
    then have ik: "i \<in> kept keep" using Cons.prems i by (simp add: kept_def)
    obtain ch1 keep1 where n: "keep_needs (needs_idx jobs (jobs ! i)) (ch, keep) = (ch1, keep1)" by fastforce
    let ?ds = "need_edges jobs `` {i}"
    have one: "length keep1 = length jobs" "kept keep1 = kept keep \<union> ?ds" "ch1 \<longleftrightarrow> ch \<or> \<not> ?ds \<subseteq> kept keep"
      using keep_needs_spec [OF n] needs_bound_nth [OF Cons.prems(2) i] Cons.prems(3)
      by (simp_all add: need_edges_Image [OF i])
    have rest: "length keep' = length jobs \<and> kept keep1 \<subseteq> kept keep' \<and> kept keep' \<subseteq> (need_edges jobs)\<^sup>* `` kept keep1
        \<and> (ch' \<longleftrightarrow> ch1 \<or> kept keep' \<noteq> kept keep1)
        \<and> (kept keep' = kept keep1 \<longrightarrow> need_edges jobs `` (kept keep1 \<inter> set is) \<subseteq> kept keep1)"
      using Cons.IH [of ch1 keep1] Cons.prems n True one(1) by simp
    have "kept keep1 \<subseteq> (need_edges jobs)\<^sup>* `` kept keep" using ik one(2) by blast
    then have reach: "(need_edges jobs)\<^sup>* `` kept keep1 = (need_edges jobs)\<^sup>* `` kept keep"
      using one(2) by (intro closure_between) simp_all
    have split: "need_edges jobs `` (kept keep \<inter> set (i # is)) \<subseteq> ?ds \<union> need_edges jobs `` (kept keep \<inter> set is)" by auto
    have grow: "kept keep \<subseteq> kept keep1" "kept keep1 \<subseteq> kept keep'" using one(2) rest by simp_all
    show ?thesis
    proof (cases "kept keep' = kept keep")
      case True
      then have same: "kept keep1 = kept keep" using grow by simp
      then have "?ds \<subseteq> kept keep" using one(2) by blast
      with True same rest one(3) split reach show ?thesis by auto
    next
      case False
      then have "ch'" using rest one(2,3) by auto
      with False subset_trans [OF grow] rest reach show ?thesis by simp
    qed
  next
    case False
    then have "i \<notin> kept keep" by (simp add: kept_def)
    then have "kept keep \<inter> set (i # is) = kept keep \<inter> set is" by auto
    with False Cons.IH [of ch keep] Cons.prems show ?thesis by simp
  qed
qed auto

lemma keep_loop_spec:
  assumes "needs_bound jobs" "length keep = length jobs" "length jobs - card (kept keep) < f"
  shows "\<exists>keep'. keep_loop f jobs keep = Some keep' \<and> length keep' = length jobs
    \<and> kept keep' = (need_edges jobs)\<^sup>* `` kept keep"
  using assms
proof (induction f arbitrary: keep)
  case (Suc f)
  obtain ch keep1 where p: "keep_pass jobs [0..<length jobs] (False, keep) = (ch, keep1)" by fastforce
  note one = keep_pass_spec [OF p Suc.prems(1,2)]
  have fin: "finite (kept keep1)" "card (kept keep1) \<le> length jobs"
    using kept_bound [of keep1] one finite_subset card_mono [of "{..<length jobs}" "kept keep1"] by auto
  show ?case
  proof (cases ch)
    case True
    then have "kept keep \<subset> kept keep1" using one by auto
    then have "card (kept keep) < card (kept keep1)" using fin(1) by (rule psubset_card_mono [rotated])
    then have "length jobs - card (kept keep1) < f" using Suc.prems(3) fin(2) by linarith
    then obtain keep' where k: "keep_loop f jobs keep1 = Some keep'" "length keep' = length jobs"
        "kept keep' = (need_edges jobs)\<^sup>* `` kept keep1"
      using Suc.IH [of keep1] Suc.prems(1) one by auto
    moreover have "(need_edges jobs)\<^sup>* `` kept keep1 = (need_edges jobs)\<^sup>* `` kept keep"
      using one by (intro closure_between) simp_all
    ultimately show ?thesis using p True by simp
  next
    case False
    have "kept keep \<inter> set [0..<length jobs] = kept keep" using kept_bound [of keep] Suc.prems(2) by auto
    with False one have same: "kept keep1 = kept keep" and closed: "need_edges jobs `` kept keep \<subseteq> kept keep" by auto
    from closed have "(need_edges jobs)\<^sup>* `` kept keep = kept keep" by (rule Image_closed_trancl)
    with False p same one show ?thesis by simp
  qed
qed simp

lemma chosen_spec:
  assumes "length keep = length jobs"
  shows "chosen jobs names keep = None \<longleftrightarrow> (\<exists>x \<in> set names. find_job jobs x = None)"
    and "chosen jobs names keep = Some keep' \<Longrightarrow>
      length keep' = length jobs \<and> kept keep' = kept keep \<union> {i. \<exists>x \<in> set names. find_job jobs x = Some i}"
  using assms
proof (induction names arbitrary: keep)
  case (Cons x xs)
  have b: "find_job jobs x = Some i \<Longrightarrow> i < length jobs" for i
    using find_job_from_bound [of 0 jobs x] by (simp add: find_job_def)
  { case 1 then show ?case using Cons.IH(1) by (auto split: option.splits) }
  { case 2 then show ?case using Cons.IH(2) b by (auto simp: kept_update split: option.splits) }
qed auto

text \<open>Every need names a job of the list.\<close>

definition needs_named :: "job list \<Rightarrow> bool" where
  "needs_named jobs \<longleftrightarrow> list_all (\<lambda>j. list_all (\<lambda>x. find_job jobs x \<noteq> None) (jb_needs j)) jobs"

lemma find_job_from_Some: "find_job_from i js x = Some d \<Longrightarrow> i \<le> d \<and> d < i + length js \<and> jb_id (js ! (d - i)) = x"
  by (induction js arbitrary: i) (force split: if_splits simp: nth_Cons')+

lemma find_job_Some: "find_job js x = Some d \<Longrightarrow> d < length js \<and> jb_id (js ! d) = x"
  using find_job_from_Some [of 0 js x d] by (simp add: find_job_def)

lemma find_job_None: "find_job js x = None \<longleftrightarrow> x \<notin> jb_id ` set js"
proof -
  have "find_job_from i js x = None \<longleftrightarrow> x \<notin> jb_id ` set js" for i
    by (induction js arbitrary: i) auto
  then show ?thesis by (simp add: find_job_def)
qed

lemma needs_named_bound: "needs_named jobs \<Longrightarrow> needs_bound jobs"
  unfolding needs_named_def needs_bound_def needs_idx_def list_all_iff
  using find_job_Some by fastforce

text \<open>What the option \<open>--job\<close> means: the named jobs and, transitively, what they need.\<close>

definition wanted :: "job list \<Rightarrow> cstring list \<Rightarrow> nat set" where
  "wanted jobs names = (need_edges jobs)\<^sup>* `` {i. \<exists>x \<in> set names. find_job jobs x = Some i}"

lemma select_jobs_eq:
  assumes "needs_named jobs"
  shows "select_jobs mem names jobs = Some
    (if \<not> mem then Inl SE_NOMEM
     else if \<exists>x \<in> set names. x \<notin> jb_id ` set jobs then Inl SE_NO_SUCH_JOB
     else Inr (map ((!) jobs) (filter (\<lambda>i. i \<in> wanted jobs names) [0..<length jobs])))"
proof (cases "chosen jobs names (replicate (length jobs) False)")
  case None
  then show ?thesis
    using chosen_spec(1) [of "replicate (length jobs) False" jobs names] by (simp add: select_jobs_def find_job_None)
next
  case (Some keep)
  have "kept (replicate (length jobs) False) = {}" by (auto simp: kept_def)
  with chosen_spec(2) [OF _ Some]
  have k: "length keep = length jobs" "kept keep = {i. \<exists>x \<in> set names. find_job jobs x = Some i}" by simp_all
  have "\<not> (\<exists>x \<in> set names. x \<notin> jb_id ` set jobs)"
    using chosen_spec(1) [of "replicate (length jobs) False" jobs names] Some by (simp add: find_job_None)
  moreover have "length jobs - card (kept keep) < length jobs + 1" by simp
  from keep_loop_spec [OF needs_named_bound [OF assms] k(1) this] obtain keep' where
    l: "keep_loop (length jobs + 1) jobs keep = Some keep'" "length keep' = length jobs" "kept keep' = wanted jobs names"
    unfolding k(2) wanted_def by blast
  moreover from l(2,3) have "filter ((!) keep') [0..<length jobs] = filter (\<lambda>i. i \<in> wanted jobs names) [0..<length jobs]"
    by (intro filter_cong) (auto simp: kept_def)
  ultimately show ?thesis using Some by (simp add: select_jobs_def)
qed

text \<open>The selection has what its jobs need.\<close>

lemma selection_named:
  assumes "needs_named jobs"
  shows "needs_named (map ((!) jobs) (filter (\<lambda>i. i \<in> wanted jobs names) [0..<length jobs]))"
proof -
  let ?js = "map ((!) jobs) (filter (\<lambda>i. i \<in> wanted jobs names) [0..<length jobs])"
  have "find_job ?js x \<noteq> None" if i: "i < length jobs" "i \<in> wanted jobs names" and x: "x \<in> set (jb_needs (jobs ! i))" for i x
  proof -
    obtain d where d: "find_job jobs x = Some d" using assms nth_mem [OF i(1)] x unfolding needs_named_def list_all_iff by blast
    then have "(i, d) \<in> need_edges jobs" using i(1) x by (force simp: need_edges_def needs_idx_def)
    then have "d \<in> wanted jobs names" using i(2) unfolding wanted_def by (blast intro: rtrancl_into_rtrancl)
    with find_job_Some [OF d] have "jobs ! d \<in> set ?js" "jb_id (jobs ! d) = x" by auto
    then show ?thesis unfolding find_job_None by (metis imageI)
  qed
  then show ?thesis unfolding needs_named_def list_all_iff by fastforce
qed

section \<open>Properties\<close>

text \<open>Numbers of a workflow never leave their range: a timeout, whatever double is written for it
  (fractions, infinities and not-a-number included), becomes between 1 and 604800000 milliseconds when it
  is positive and none otherwise; a count becomes a positive \<open>long\<close> exactly when it is at least
  one, and is itself when it is a whole number that fits. The rounding of the product is any that is
  monotone and exact on zero and on the maximum.\<close>

lemma workflow_numbers:
  assumes "rounds_well fl"
  shows "0 \<le> qwe_timeout_ms_at fl t \<and> qwe_timeout_ms_at fl t \<le> 604800000
    \<and> (0 < qwe_timeout_ms_at fl t \<longleftrightarrow> (\<exists>v. t = Some v \<and> dbl_less (Fin 0) v))
    \<and> 0 \<le> qwe_count_from_number v \<and> qwe_count_from_number v \<le> LONG_MAX
    \<and> (0 < qwe_count_from_number v \<longleftrightarrow> dbl_le (Fin 1) v)
    \<and> (\<forall>n. v = Fin (of_int n) \<longrightarrow> 1 \<le> n \<longrightarrow> n < 2 ^ 63 \<longrightarrow> qwe_count_from_number v = n)"
  using timeout_bounds [OF assms, of t] count_bounds [of v] by blast

text \<open>C20. Loading: the jobs are those of the workflow in the order of their ids, each pending with
  nothing held, with its target (\<open>local\<close> when none is written), its timeout, its steps and its needs
  as the table has them; a workflow is refused exactly because a job has a need that is not a string or a
  step with neither \<open>run\<close> nor \<open>uses\<close>, and loading fails otherwise only when memory does.\<close>

theorem jobs_load_keeps_the_workflow:
  "case qwe_jobs_load fl ok tbl of
     Inl LE_NOMEM \<Rightarrow> \<exists>i. \<not> ok i
   | Inl LE_REFUSED \<Rightarrow> \<not> list_all (\<lambda>e. table_ok (snd e)) tbl
   | Inr jobs \<Rightarrow> list_all (\<lambda>e. table_ok (snd e)) tbl \<and> list_all loaded jobs
       \<and> sorted (map (\<lambda>j. cmp_key (jb_id j)) jobs)
       \<and> (\<exists>es. mset es = mset tbl \<and> list_all2 (job_from fl) es jobs)"
  by (rule jobs_load_spec)

text \<open>C21. \<open>--job\<close> selects the named jobs and everything they need, transitively, and nothing else, in
  the order of the workflow; a name that is no job of the workflow is an error, and so is a failed
  allocation. The loop ends, within one pass more than there are jobs. Every need of a selected job names a
  selected job again.\<close>

theorem select_jobs_is_the_closure:
  assumes "needs_named jobs"
  shows "select_jobs mem names jobs = Some
    (if \<not> mem then Inl SE_NOMEM
     else if \<exists>x \<in> set names. x \<notin> jb_id ` set jobs then Inl SE_NO_SUCH_JOB
     else Inr (map ((!) jobs) (filter (\<lambda>i. i \<in> wanted jobs names) [0..<length jobs])))
    \<and> needs_named (map ((!) jobs) (filter (\<lambda>i. i \<in> wanted jobs names) [0..<length jobs]))"
  using select_jobs_eq [OF assms] selection_named [OF assms] by blast

definition jobs_select_ex :: "job list" where
  "jobs_select_ex = [job_loaded ''a'' ''local'' [''b''] [] 0, job_loaded ''b'' ''local'' [] [] 0, job_loaded ''c'' ''local'' [''a''] [] 0]"

theorem select_jobs_is_the_closure_witness:
  "needs_named jobs_select_ex \<and> 2 \<notin> wanted jobs_select_ex [''a'']
   \<and> select_jobs True [''x''] jobs_select_ex = Some (Inl SE_NO_SUCH_JOB)
   \<and> select_jobs True [''a''] jobs_select_ex = Some (Inr (take 2 jobs_select_ex))"
proof -
  have n: "needs_named jobs_select_ex" by code_simp
  have e: "select_jobs True [''a''] jobs_select_ex = Some (Inr (take 2 jobs_select_ex))" by code_simp
  have "[''a''] = [''a''] \<and> ''a'' \<in> jb_id ` set jobs_select_ex" by code_simp
  with e select_jobs_is_the_closure [OF n, of True "[''a'']"]
  have f: "map ((!) jobs_select_ex) (filter (\<lambda>i. i \<in> wanted jobs_select_ex [''a'']) [0..<length jobs_select_ex]) = take 2 jobs_select_ex"
    by simp
  have "2 \<notin> wanted jobs_select_ex [''a'']"
  proof
    assume "2 \<in> wanted jobs_select_ex [''a'']"
    moreover have "2 < length jobs_select_ex" by code_simp
    ultimately have "jobs_select_ex ! 2 \<in> set (take 2 jobs_select_ex)" unfolding f [symmetric] by auto
    moreover have "jobs_select_ex ! 2 \<notin> set (take 2 jobs_select_ex)" by code_simp
    ultimately show False by blast
  qed
  moreover have "''x'' \<notin> jb_id ` set jobs_select_ex" by code_simp
  then have "select_jobs True [''x''] jobs_select_ex = Some (Inl SE_NO_SUCH_JOB)"
    using select_jobs_is_the_closure [OF n, of True "[''x'']"] by simp
  ultimately show ?thesis using n e by blast
qed

end
