(* ===== verification/Documents.thy ===== *)
theory Documents
  imports Qwe_Prelude
begin

text \<open>
  The documents of a run (\<open>read_file\<close>, \<open>load_inventory\<close>, \<open>load_workflow\<close> and
  \<open>mkdir_p\<close> in \<open>src/kernel/workflow.c\<close>): a file read whole into a buffer that doubles, the
  stages a document goes through, the inventory found next to the workflow, and the directories
  made for a run. The stages themselves (transcoder, decoder, validation) are parameters.
\<close>

section \<open>Reading a file\<close>

text \<open>
  A stream: the bytes \<open>fread\<close> can still deliver, and whether it then ends with an error
  instead of the end of the file. \<open>fread\<close> returns as many bytes as it was asked for unless
  the stream ends; \<open>feof\<close> holds after a short count that was not an error.
\<close>

record istream =
  is_data :: "byte list"
  is_error :: bool

function read_loop :: "(nat \<Rightarrow> bool) \<Rightarrow> istream \<Rightarrow> byte list \<Rightarrow> nat \<Rightarrow> nat \<Rightarrow> byte list option" where
  "read_loop ok st buf cap k =
     (let want = cap - length buf;
          got = take want (is_data st);
          st' = st\<lparr>is_data := drop want (is_data st)\<rparr>;
          buf' = buf @ got
      in if got = [] then Some buf
         else if length got < want \<and> \<not> is_error st then Some buf'
         else if length buf' = cap then (if ok k then read_loop ok st' buf' (cap * 2) (Suc k) else None)
         else read_loop ok st' buf' cap k)"
  by pat_completeness auto
termination
  by (relation "measure (\<lambda>(ok, st, buf, cap, k). length (is_data st))")
    (auto intro!: diff_less)

declare read_loop.simps [simp del]

text \<open>\<open>None\<close> when the file cannot be opened or memory ran out.\<close>

definition read_file :: "(nat \<Rightarrow> bool) \<Rightarrow> istream option \<Rightarrow> byte list option" where
  "read_file ok file =
     (case file of
        None \<Rightarrow> None
      | Some st \<Rightarrow> if ok 0 then read_loop ok st [] 4096 1 else None)"

lemma read_loop_result:
  assumes "length buf < cap"
  shows "read_loop ok st buf cap k = Some (buf @ is_data st) \<or> read_loop ok st buf cap k = None \<and> (\<exists>i. \<not> ok i)"
  using assms
proof (induction ok st buf cap k rule: read_loop.induct)
  case (1 ok st buf cap k)
  let ?want = "cap - length buf"
  let ?got = "take ?want (is_data st)"
  let ?st = "st\<lparr>is_data := drop ?want (is_data st)\<rparr>"
  note u = read_loop.simps [of ok st buf cap k]
  have all: "?got @ is_data ?st = is_data st" by simp
  have len: "length (buf @ ?got) \<le> cap" using "1.prems" by simp
  show ?case
  proof (cases "?got = [] \<or> length ?got < ?want \<and> \<not> is_error st")
    case True
    then have "is_data ?st = []" using "1.prems" by auto
    with True all u show ?thesis by (auto simp: Let_def)
  next
    case False
    show ?thesis
    proof (cases "length (buf @ ?got) = cap")
      case True
      have "length (buf @ ?got) < cap * 2" using True "1.prems" by linarith
      with "1.IH"(1) [OF refl refl refl refl _ _ True] False True all u show ?thesis
        by (cases "ok k") (auto simp: Let_def)
    next
      case ne: False
      have "length (buf @ ?got) < cap" using ne len by linarith
      with "1.IH"(2) [OF refl refl refl refl _ _ ne] False ne all u show ?thesis
        by (auto simp: Let_def)
    qed
  qed
qed

section \<open>Paths\<close>

text \<open>The path up to its last slash, that slash included.\<close>

definition dir_prefix :: "cstring \<Rightarrow> cstring" where
  "dir_prefix path = rev (dropWhile (\<lambda>c. c \<noteq> CHR ''/'') (rev path))"

definition default_inventory :: "cstring \<Rightarrow> cstring" where
  "default_inventory wf_path = dir_prefix wf_path @ ''inventory.yaml''"

definition workflow_dir :: "cstring \<Rightarrow> cstring" where
  "workflow_dir path = (if CHR ''/'' \<in> set path then butlast (dir_prefix path) else ''.'')"

text \<open>
  \<open>mk\<close> is \<open>mkdir\<close> with its mode: whether the directory is there afterwards (made, or
  \<open>EEXIST\<close>). The loop starts behind the first character of a path, which is not empty.
\<close>

fun mkdir_loop :: "(cstring \<Rightarrow> nat \<Rightarrow> 'w \<Rightarrow> bool \<times> 'w) \<Rightarrow> cstring \<Rightarrow> cstring \<Rightarrow> 'w \<Rightarrow> bool \<times> 'w" where
  "mkdir_loop mk pre [] w = (True, w)"
| "mkdir_loop mk pre (c # cs) w =
     (if c \<noteq> CHR ''/'' then mkdir_loop mk (pre @ [c]) cs w
      else case mk pre 493 w of
             (True, w') \<Rightarrow> mkdir_loop mk (pre @ [c]) cs w'
           | (False, w') \<Rightarrow> (False, w'))"

definition mkdir_p :: "bool \<Rightarrow> (cstring \<Rightarrow> nat \<Rightarrow> 'w \<Rightarrow> bool \<times> 'w) \<Rightarrow> cstring \<Rightarrow> nat \<Rightarrow> 'w \<Rightarrow> bool \<times> 'w" where
  "mkdir_p mem mk path mode w =
     (if \<not> mem then (False, w)
      else case mkdir_loop mk (take 1 path) (drop 1 path) w of
             (True, w') \<Rightarrow> mk path mode w'
           | (False, w') \<Rightarrow> (False, w'))"

section \<open>Loading\<close>

text \<open>
  What the stages answer. \<open>'d\<close> is a decoded document; \<open>de_lua\<close> says whether the Lua
  runtime could be started, \<open>de_check_doc\<close> gets the inventory in use.
\<close>

record 'd doc_env =
  de_ok :: "nat \<Rightarrow> bool"
  de_open :: "cstring \<Rightarrow> istream option"
  de_access :: "cstring \<Rightarrow> bool"
  de_path_mem :: bool
  de_yaml :: "byte list \<Rightarrow> byte list option"
  de_lua :: bool
  de_cbor :: "byte list \<Rightarrow> 'd option"
  de_is_table :: "'d \<Rightarrow> bool"
  de_check_inv :: "'d \<Rightarrow> nat"
  de_check_doc :: "'d option \<Rightarrow> 'd \<Rightarrow> nat"

text \<open>Which diagnostic was printed; the return value is \<open>QWE_EXIT_USAGE\<close> for each.\<close>

datatype doc_error = DE_NOMEM | DE_READ cstring | DE_YAML cstring | DE_LUA | DE_CBOR cstring | DE_NOT_A_MAP cstring
  | DE_INVALID cstring nat

definition inventory_path :: "'d doc_env \<Rightarrow> cstring \<Rightarrow> cstring option \<Rightarrow> doc_error + cstring option" where
  "inventory_path de wf_path inv_path =
     (case inv_path of
        Some p \<Rightarrow> Inr (Some p)
      | None \<Rightarrow>
          if \<not> de_path_mem de then Inl DE_NOMEM
          else if \<not> de_access de (default_inventory wf_path) then Inr None
          else Inr (Some (default_inventory wf_path)))"

definition load_inventory :: "'d doc_env \<Rightarrow> cstring \<Rightarrow> cstring option \<Rightarrow> doc_error + 'd option" where
  "load_inventory de wf_path inv_path =
     (case inventory_path de wf_path inv_path of
        Inl e \<Rightarrow> Inl e
      | Inr None \<Rightarrow> Inr None
      | Inr (Some p) \<Rightarrow>
          (case read_file (de_ok de) (de_open de p) of
             None \<Rightarrow> Inl (DE_READ p)
           | Some yaml \<Rightarrow>
               (case de_yaml de yaml of
                  None \<Rightarrow> Inl (DE_YAML p)
                | Some cbor \<Rightarrow>
                    (case de_cbor de cbor of
                       None \<Rightarrow> Inl (DE_CBOR p)
                     | Some d \<Rightarrow>
                         if \<not> de_is_table de d then Inl (DE_NOT_A_MAP p)
                         else if de_check_inv de d > 0 then Inl (DE_INVALID p (de_check_inv de d))
                         else Inr (Some d)))))"

definition load_workflow :: "'d doc_env \<Rightarrow> cstring \<Rightarrow> cstring option \<Rightarrow> doc_error + 'd option \<times> 'd" where
  "load_workflow de path inventory =
     (case read_file (de_ok de) (de_open de path) of
        None \<Rightarrow> Inl (DE_READ path)
      | Some yaml \<Rightarrow>
          (case de_yaml de yaml of
             None \<Rightarrow> Inl (DE_YAML path)
           | Some cbor \<Rightarrow>
               if \<not> de_lua de then Inl DE_LUA
               else case de_cbor de cbor of
                      None \<Rightarrow> Inl (DE_CBOR path)
                    | Some d \<Rightarrow>
                        (case load_inventory de path inventory of
                           Inl e \<Rightarrow> Inl e
                         | Inr invt \<Rightarrow>
                             if de_check_doc de invt d > 0 then Inl (DE_INVALID path (de_check_doc de invt d))
                             else Inr (invt, d))))"

text \<open>A document comes from the bytes its file delivered, and from nothing else.\<close>

lemma read_file_delivered:
  "read_file ok (Some st) = Some (is_data st) \<or> read_file ok (Some st) = None \<and> (\<exists>i. \<not> ok i)"
  using read_loop_result [of "[]" 4096 ok st 1] by (auto simp: read_file_def)

lemma load_workflow_Inr:
  assumes "load_workflow de path inventory = Inr (invt, d)"
  shows "\<exists>st cbor. de_open de path = Some st \<and> de_yaml de (is_data st) = Some cbor \<and> de_cbor de cbor = Some d
    \<and> de_check_doc de invt d = 0"
proof -
  from assms obtain yaml cbor where y: "read_file (de_ok de) (de_open de path) = Some yaml" "de_yaml de yaml = Some cbor"
      "de_cbor de cbor = Some d" "de_check_doc de invt d = 0"
    by (auto simp: load_workflow_def split: option.splits if_splits sum.splits)
  then obtain st where st: "de_open de path = Some st" by (auto simp: read_file_def split: option.splits)
  with y read_file_delivered [of "de_ok de" st] show ?thesis by auto
qed

section \<open>Properties\<close>

text \<open>C22. A file is read whole, however long it is, or the reading fails for want of memory. But the
  bytes a failing stream delivered before its error are taken for the whole file, too: the error of
  \<open>fread\<close> is not looked at, so a document cut short by it goes on to be parsed.\<close>

theorem read_file_takes_what_came:
  "(case read_file ok (Some \<lparr>is_data = d, is_error = False\<rparr>) of Some r \<Rightarrow> r = d | None \<Rightarrow> \<exists>i. \<not> ok i)
   \<and> (case read_file ok (Some \<lparr>is_data = d, is_error = True\<rparr>) of Some r \<Rightarrow> r = d | None \<Rightarrow> \<exists>i. \<not> ok i)
   \<and> read_file ok None = None"
  using read_file_delivered [of ok "\<lparr>is_data = d, is_error = False\<rparr>"] read_file_delivered [of ok "\<lparr>is_data = d, is_error = True\<rparr>"]
  by (auto simp: read_file_def [of ok None] split: option.splits)

end
