(* ===== verification/Workflow.thy ===== *)
theory Workflow
  imports Load Report Documents
begin

text \<open>
  A whole run (the ends of \<open>src/kernel/workflow.c\<close>): the targets that are contacted before
  anything starts, the directory of the run, the options from the environment, and what the run
  reports at its end.
\<close>

section \<open>Targets\<close>

text \<open>\<open>on:\<close> of each step of a job, if it is a string.\<close>

definition job_uses_target :: "cstring option list \<Rightarrow> bool" where
  "job_uses_target ons = list_ex (\<lambda>on. \<not> (on = Some ''local'')) ons"

definition target_max_sessions :: "dbl option \<Rightarrow> int" where
  "target_max_sessions v = (case v of Some x \<Rightarrow> qwe_count_from_number x | None \<Rightarrow> 8)"

definition target_disabled_note :: "(cstring \<Rightarrow> cstring option) \<Rightarrow> cstring \<Rightarrow> cstring option" where
  "target_disabled_note disabled target = (if target = ''local'' then None else disabled target)"

definition note_disabled :: "(cstring \<Rightarrow> cstring option) \<Rightarrow> job list \<Rightarrow> job list" where
  "note_disabled disabled jobs = map (\<lambda>j. j\<lparr>jb_detail := target_disabled_note disabled (jb_target j)\<rparr>) jobs"

text \<open>Whether the loop of \<open>preconnect\<close> contacts the target of its job \<open>i\<close>.\<close>

definition preconnect_at :: "(cstring \<Rightarrow> cstring option list) \<Rightarrow> job list \<Rightarrow> nat \<Rightarrow> bool" where
  "preconnect_at ons jobs i \<longleftrightarrow>
     \<not> (jb_target (jobs ! i) = ''local'' \<or> jb_detail (jobs ! i) \<noteq> None \<or> \<not> job_uses_target (ons (jb_id (jobs ! i))))
     \<and> \<not> list_ex (\<lambda>k. jb_target (jobs ! k) = jb_target (jobs ! i) \<and> job_uses_target (ons (jb_id (jobs ! k)))) [0..<i]"

text \<open>\<open>connect\<close> opens the master of a target, reporting what goes wrong.\<close>

definition preconnect ::
    "(cstring \<Rightarrow> 'w \<Rightarrow> 'w) \<Rightarrow> (cstring \<Rightarrow> cstring option list) \<Rightarrow> job list \<Rightarrow> 'w \<Rightarrow> 'w" where
  "preconnect connect ons jobs w =
     fold connect (map (\<lambda>i. jb_target (jobs ! i)) (filter (preconnect_at ons jobs) [0..<length jobs])) w"

section \<open>The directory and the options\<close>

definition fmt_run_id :: "(int \<Rightarrow> string option) \<Rightarrow> int \<Rightarrow> int \<Rightarrow> cstring" where
  "fmt_run_id stamp now pid = (case stamp now of Some s \<Rightarrow> s | None \<Rightarrow> int_dec now) @ ''-'' @ int_dec pid"

text \<open>
  \<open>strtol\<close> with base 10 in the C locale: \<open>None\<close> when there are no digits, else the value,
  whether it was out of range (then the value is the nearest bound) and what follows the digits.
\<close>

definition c_space :: "char \<Rightarrow> bool" where
  "c_space c \<longleftrightarrow> c = CHR '' '' \<or> (9 \<le> (of_char c :: nat) \<and> (of_char c :: nat) \<le> 13)"

definition strtol10 :: "cstring \<Rightarrow> (int \<times> bool \<times> cstring) option" where
  "strtol10 s =
     (let s1 = dropWhile c_space s;
          neg = (s1 \<noteq> [] \<and> hd s1 = CHR ''-'');
          s2 = (if s1 \<noteq> [] \<and> (hd s1 = CHR ''-'' \<or> hd s1 = CHR ''+'') then tl s1 else s1);
          ds = takeWhile is_digit s2;
          v = (if neg then - int (dec_value ds) else int (dec_value ds))
      in if ds = [] then None
         else if v > LONG_MAX then Some (LONG_MAX, True, dropWhile is_digit s2)
         else if v < - LONG_MAX - 1 then Some (- LONG_MAX - 1, True, dropWhile is_digit s2)
         else Some (v, False, dropWhile is_digit s2))"

definition grace_ms_of :: "cstring option \<Rightarrow> int" where
  "grace_ms_of env =
     (case env of
        None \<Rightarrow> 10000
      | Some s \<Rightarrow>
          (case strtol10 s of
             None \<Rightarrow> 10000
           | Some (ms, erange, rest) \<Rightarrow> if rest \<noteq> [] \<or> erange \<or> ms < 0 then 10000 else ms))"

section \<open>The end\<close>

fun disabled_targets :: "job list \<Rightarrow> job list \<Rightarrow> job list" where
  "disabled_targets [] seen = seen"
| "disabled_targets (j # js) seen =
     disabled_targets js
       (if jb_detail j = None \<or> jb_reason j \<noteq> Some ''target-disabled'' then seen
        else if list_ex (\<lambda>s. jb_target s = jb_target j) seen then seen else seen @ [j])"

definition report_disabled :: "job list \<Rightarrow> string option" where
  "report_disabled jobs =
     (let skipped = length (filter (\<lambda>j. \<not> (jb_detail j = None \<or> jb_reason j \<noteq> Some ''target-disabled'')) jobs);
          seen = disabled_targets jobs []
      in if skipped = 0 then None
         else Some (''qwe run: '' @ nat_dec skipped @ '' job'' @ (if skipped = 1 then [] else ''s'') @ '' skipped, target''
            @ (if length seen = 1 then [] else ''s'') @ '' disabled:''
            @ concat (map (\<lambda>k. (if k \<noteq> 0 then '','' else []) @ '' '' @ jb_target (seen ! k) @ '' ('' @ the (jb_detail (seen ! k)) @ '')'')
                       [0..<length seen]) @ [nl]))"

definition job_result_of :: "job \<Rightarrow> qwe_job_result" where
  "job_result_of j =
     \<lparr>rj_id = jb_id j, rj_outcome = qwe_lc_state_name (jb_state j), rj_reason = jb_reason j, rj_detail = jb_detail j,
      rj_started = jb_started j, rj_ended = jb_ended j, rj_duration_ms = jb_duration_ms j, rj_dropped_bytes = jb_dropped j,
      rj_steps = (case jb_steps j of None \<Rightarrow> [] | Some ss \<Rightarrow> ss)\<rparr>"

definition QWE_EXIT_OK :: int where "QWE_EXIT_OK = 0"
definition QWE_EXIT_FAILED :: int where "QWE_EXIT_FAILED = 1"
definition QWE_EXIT_USAGE :: int where "QWE_EXIT_USAGE = 2"
definition QWE_EXIT_CANCELLED :: int where "QWE_EXIT_CANCELLED = 130"

definition all_ok :: "job list \<Rightarrow> bool" where
  "all_ok jobs \<longleftrightarrow> list_all (\<lambda>j. jb_state j = QWE_LC_SUCCESS \<or> jb_state j = QWE_LC_SKIPPED) jobs"

text \<open>The exit code; \<open>finished\<close> is the return value of \<open>run_all\<close>, \<open>wrote\<close> whether \<open>result.json\<close> is complete.\<close>

definition run_exit :: "bool \<Rightarrow> bool \<Rightarrow> bool \<Rightarrow> job list \<Rightarrow> int" where
  "run_exit finished cancelled wrote jobs =
     (let rc0 = (if \<not> finished then QWE_EXIT_FAILED else QWE_EXIT_OK);
          rc1 = (if \<not> all_ok jobs then QWE_EXIT_FAILED else rc0);
          rc2 = (if cancelled then QWE_EXIT_CANCELLED else rc1)
      in if \<not> wrote then QWE_EXIT_FAILED else rc2)"

definition summary_outcome :: "int \<Rightarrow> job list \<Rightarrow> string" where
  "summary_outcome rc jobs =
     (if rc = QWE_EXIT_CANCELLED then ''cancelled'' else if all_ok jobs then ''success'' else ''failed'')"

section \<open>The run\<close>

text \<open>
  What the outside answers. \<open>we_doc\<close> is what \<open>load_workflow\<close> left, read as the fields of
  its jobs and \<open>max-parallel\<close>; \<open>we_dir_mem\<close> and \<open>we_trace_mem\<close> are the allocations of the
  paths; \<open>we_summary\<close> is the file of \<open>--summary\<close> (\<open>None\<close> inside when it cannot be opened),
  the logs, and whether the stream failed and was closed.
\<close>

record 'w run_env =
  we_path :: cstring
  we_doc :: "((cstring \<times> job_table) list \<times> dbl option) option"
  we_names :: "cstring list option"
  we_select_mem :: bool
  we_dir_mem :: bool
  we_stamp :: "int \<Rightarrow> string option"
  we_now :: int
  we_pid :: int
  we_mkdir :: "cstring \<Rightarrow> nat \<Rightarrow> 'w \<Rightarrow> bool \<times> 'w"
  we_mkdir_mem :: bool
  we_trace_mem :: bool
  we_trace_opens :: bool
  we_debug :: bool
  we_grace :: "cstring option"
  we_realpath :: "cstring \<Rightarrow> cstring option"
  we_disabled :: "cstring \<Rightarrow> cstring option"
  we_ons :: "cstring \<Rightarrow> cstring option list"
  we_connect :: "cstring \<Rightarrow> 'w \<Rightarrow> 'w"
  we_close_masters :: "'w \<Rightarrow> 'w"
  we_utc :: "int \<Rightarrow> string option"
  we_opened :: bool
  we_ferror :: bool
  we_closed :: bool
  we_summary :: "(byte list option \<times> (cstring \<Rightarrow> byte list option) \<times> bool \<times> bool) option"

definition run_select :: "'w run_env \<Rightarrow> job list \<Rightarrow> (select_error + job list) option" where
  "run_select env jobs =
     (case we_names env of None \<Rightarrow> Some (Inr jobs) | Some names \<Rightarrow> select_jobs (we_select_mem env) names jobs)"

text \<open>The directory and the trace: the directory's path, or \<open>None\<close> when one of them cannot be had.\<close>

definition run_prepare :: "'w run_env \<Rightarrow> 'w \<Rightarrow> (cstring \<times> cstring) option \<times> 'w" where
  "run_prepare env w =
     (let run_id = fmt_run_id (we_stamp env) (we_now env) (we_pid env);
          run_dir = workflow_dir (we_path env) @ ''/.qwe/runs/'' @ run_id
      in if \<not> we_dir_mem env then (None, w)
         else case mkdir_p (we_mkdir_mem env) (we_mkdir env) run_dir 448 w of
                (made, w') \<Rightarrow>
                  if \<not> made \<or> \<not> we_trace_mem env \<or> \<not> we_trace_opens env then (None, w')
                  else (Some (run_id, run_dir), w'))"

definition run_context :: "'w run_env \<Rightarrow> cstring \<Rightarrow> cstring \<Rightarrow> 'w run_ctx \<Rightarrow> 'w run_ctx" where
  "run_context env run_id run_dir cx =
     cx\<lparr>cx_grace_ms := grace_ms_of (we_grace env), cx_debug := we_debug env, cx_run_dir := run_dir, cx_run_id := run_id,
        cx_run_dir_abs := (case we_realpath env run_dir of Some p \<Rightarrow> p | None \<Rightarrow> run_dir), cx_cancel_requested := False\<rparr>"

definition run_wrote :: "'w run_env \<Rightarrow> cstring \<Rightarrow> job list \<Rightarrow> (string option \<times> bool) option" where
  "run_wrote env run_id jobs =
     (if \<not> we_opened env then Some (None, False)
      else map_option (\<lambda>(t, rc). (Some t, rc = 0 \<and> we_closed env))
             (qwe_result_write (we_utc env) (we_ferror env) run_id (map job_result_of jobs)))"

text \<open>What a run leaves behind: its exit code, the jobs, and the text of its reports.\<close>

record run_report =
  rp_code :: int
  rp_jobs :: "job list"
  rp_ran :: bool
  rp_cancelled :: bool
  rp_result :: "string option"
  rp_wrote :: bool
  rp_summary :: "(byte list option \<times> int) option"
  rp_disabled :: "string option"

definition refused :: "job list \<Rightarrow> run_report" where
  "refused jobs = \<lparr>rp_code = QWE_EXIT_USAGE, rp_jobs = jobs, rp_ran = False, rp_cancelled = False, rp_result = None,
     rp_wrote = False, rp_summary = None, rp_disabled = None\<rparr>"

datatype run_crash = Run_abort engine_abort | Run_null_outcome

definition run_finish ::
    "'w run_env \<Rightarrow> cstring \<Rightarrow> bool \<Rightarrow> int \<Rightarrow> 'w run_ctx \<Rightarrow> job list \<Rightarrow> (run_crash + run_report)" where
  "run_finish env run_id finished ms cx jobs =
     (case run_wrote env run_id jobs of
        None \<Rightarrow> Inl Run_null_outcome
      | Some (text, wrote) \<Rightarrow>
          let rc = run_exit finished (cx_cancel_requested cx) wrote jobs
          in Inr \<lparr>rp_code = rc, rp_jobs = jobs, rp_ran = True, rp_cancelled = cx_cancel_requested cx, rp_result = text, rp_wrote = wrote,
                  rp_summary = map_option (\<lambda>(file, logs, ferr, closed).
                    qwe_summary_write file (Some logs) ferr closed (we_path env) (summary_outcome rc jobs) ms (map job_result_of jobs))
                    (we_summary env),
                  rp_disabled = report_disabled jobs\<rparr>)"

text \<open>
  The copies that must not fail before the loop: the directory's path when \<open>realpath\<close> has none, and the note of every job
  whose target is out of service.
\<close>

definition run_copies :: "'w run_env \<Rightarrow> cstring \<Rightarrow> job list \<Rightarrow> nat" where
  "run_copies env run_dir jobs =
     (if we_realpath env run_dir = None then 1 else 0) + length (filter (\<lambda>j. jb_detail j \<noteq> None) jobs)"

text \<open>After the loop the results and the targets of the last line are the two allocations that must not fail.\<close>

definition run_jobs ::
    "nat \<Rightarrow> 'w sys \<Rightarrow> 'w run_env \<Rightarrow> dbl option \<Rightarrow> 'w run_ctx \<Rightarrow> job list \<Rightarrow> (run_crash + run_report) option" where
  "run_jobs turns sy env mp cx jobs =
     (let js = note_disabled (we_disabled env) jobs
      in case xallocs (sy_alloc sy) (run_copies env (cx_run_dir cx) js) (cx_k cx) of
           None \<Rightarrow> Some (Inl (Run_abort Out_of_memory))
         | Some k \<Rightarrow>
             (case mono_now_ns sy (cx\<lparr>cx_k := k, cx_w := preconnect (we_connect env) (we_ons env) js (cx_w cx)\<rparr>) of
                (start_ns, cx2) \<Rightarrow>
              case run_all turns sy (case mp of None \<Rightarrow> 0 | Some v \<Rightarrow> qwe_count_from_number v) cx2 js of
                None \<Rightarrow> None
              | Some (Inl a) \<Rightarrow> Some (Inl (Run_abort a))
              | Some (Inr (finished, cx3, js')) \<Rightarrow>
                  (case mono_now_ns sy (cx3\<lparr>cx_w := we_close_masters env (cx_w cx3), cx_secrets := snd (qwe_redact_clear (cx_secrets cx3))\<rparr>) of
                     (end_ns, cx4) \<Rightarrow>
                       (case xallocs (sy_alloc sy) 2 (cx_k cx4) of
                          None \<Rightarrow> Some (Inl (Run_abort Out_of_memory))
                        | Some _ \<Rightarrow> Some (run_finish env (cx_run_id cx) finished (mono_diff_ms start_ns end_ns) cx4 js')))))"

definition qwe_run_workflow ::
    "(rat \<Rightarrow> rat) \<Rightarrow> (nat \<Rightarrow> bool) \<Rightarrow> nat \<Rightarrow> 'w sys \<Rightarrow> 'w run_ctx \<Rightarrow> 'w run_env \<Rightarrow> (run_crash + run_report) option" where
  "qwe_run_workflow fl ok turns sy cx env =
     (case we_doc env of
        None \<Rightarrow> Some (Inr (refused []))
      | Some (tbl, mp) \<Rightarrow>
          (case qwe_jobs_load fl ok tbl of
             Inl _ \<Rightarrow> Some (Inr (refused []))
           | Inr jobs \<Rightarrow>
               (case run_select env jobs of
                  None \<Rightarrow> None
                | Some (Inl _) \<Rightarrow> Some (Inr (refused jobs))
                | Some (Inr js) \<Rightarrow>
                    (case run_prepare env (cx_w cx) of
                       (None, w) \<Rightarrow> Some (Inr (refused js))
                     | (Some (run_id, run_dir), w) \<Rightarrow>
                         run_jobs turns sy env mp (run_context env run_id run_dir (cx\<lparr>cx_w := w\<rparr>)) js))))"

text \<open>\<open>qwe validate\<close>: the code is the load's.\<close>

definition qwe_validate_workflow :: "'d doc_env \<Rightarrow> cstring \<Rightarrow> cstring option \<Rightarrow> int" where
  "qwe_validate_workflow de path inventory =
     (case load_workflow de path inventory of Inl _ \<Rightarrow> QWE_EXIT_USAGE | Inr _ \<Rightarrow> QWE_EXIT_OK)"

section \<open>What a run comes to\<close>

text \<open>What validation has checked of a document: every need names a job of it, and the needs have no cycle.\<close>

definition needs_sound :: "(cstring \<Rightarrow> nat) \<Rightarrow> (cstring \<times> job_table) list \<Rightarrow> bool" where
  "needs_sound rk tbl \<longleftrightarrow>
     list_all (\<lambda>e. case jt_needs (snd e) of None \<Rightarrow> True
        | Some xs \<Rightarrow> list_all (\<lambda>x. case x of None \<Rightarrow> True | Some s \<Rightarrow> s \<in> fst ` set tbl \<and> rk s < rk (fst e)) xs) tbl"

definition jobs_sound :: "(cstring \<Rightarrow> nat) \<Rightarrow> job list \<Rightarrow> bool" where
  "jobs_sound rk jobs \<longleftrightarrow> needs_named jobs \<and> list_all loaded jobs
     \<and> list_all (\<lambda>j. list_all (\<lambda>x. rk x < rk (jb_id j)) (jb_needs j)) jobs"

lemma loaded_jobs_sound:
  assumes "qwe_jobs_load fl ok tbl = Inr jobs" "needs_sound rk tbl"
  shows "jobs_sound rk jobs"
proof -
  from jobs_load_spec [where fl = fl and ok = ok and tbl = tbl] assms(1) obtain es where l: "list_all loaded jobs" and es: "mset es = mset tbl"
    and a: "list_all2 (job_from fl) es jobs" by auto
  have set_es: "set es = set tbl" using es by (metis set_mset_mset)
  have "map jb_id jobs = map fst es" using a by (auto simp: list_all2_conv_all_nth job_from_def intro!: nth_equalityI)
  then have ids: "jb_id ` set jobs = fst ` set tbl" by (metis set_map set_es)
  have "x \<in> jb_id ` set jobs \<and> rk x < rk (jb_id j)" if "j \<in> set jobs" "x \<in> set (jb_needs j)" for j x
  proof -
    from that(1) obtain i where i: "i < length jobs" "j = jobs ! i" by (auto simp: in_set_conv_nth)
    let ?e = "es ! i"
    have e: "?e \<in> set tbl" "jb_id j = fst ?e" "map Some (jb_needs j) = (case jt_needs (snd ?e) of None \<Rightarrow> [] | Some xs \<Rightarrow> xs)"
      using a i set_es by (auto simp: list_all2_conv_all_nth job_from_def)
    moreover have "Some x \<in> set (map Some (jb_needs j))" using that(2) by simp
    ultimately obtain xs where xs: "jt_needs (snd ?e) = Some xs" "Some x \<in> set xs" by (auto split: option.splits)
    with assms(2) e(1) have "x \<in> fst ` set tbl \<and> rk x < rk (fst ?e)" by (auto simp: needs_sound_def list_all_iff split: option.splits)
    with ids e(2) show ?thesis by simp
  qed
  with l show ?thesis by (simp add: jobs_sound_def needs_named_def list_all_iff find_job_None)
qed

lemma selected_sound:
  assumes "jobs_sound rk jobs" "run_select env jobs = Some (Inr js)"
  shows "jobs_sound rk js"
proof (cases "we_names env")
  case None
  with assms show ?thesis by (simp add: run_select_def)
next
  case (Some names)
  have n: "needs_named jobs" using assms(1) by (simp add: jobs_sound_def)
  have js: "js = map ((!) jobs) (filter (\<lambda>i. i \<in> wanted jobs names) [0..<length jobs])"
    using assms(2) Some select_jobs_eq [OF n, of "we_select_mem env" names] by (simp add: run_select_def split: if_splits)
  then have "set js \<subseteq> set jobs" by auto
  with assms(1) selection_named [OF n, of names] show ?thesis by (auto simp: jobs_sound_def js list_all_iff)
qed

lemma select_returns:
  assumes "jobs_sound rk jobs"
  shows "run_select env jobs \<noteq> None"
  using assms select_jobs_eq [of jobs] by (auto simp: run_select_def jobs_sound_def split: option.splits)

lemma find_job_note: "find_job (note_disabled d js) x = find_job js x"
proof -
  have "find_job_from i (note_disabled d js) x = find_job_from i js x" for i
    by (induction js arbitrary: i) (auto simp: note_disabled_def)
  then show ?thesis by (simp add: find_job_def)
qed

text \<open>The jobs, with their notes, meet what the loop asks of them.\<close>

lemma noted_jobs_run:
  assumes "jobs_sound rk js"
  shows "list_all loaded (note_disabled d js)"
    and "\<forall>i < length (note_disabled d js). \<forall>x \<in> set (jb_needs (note_disabled d js ! i)).
      \<exists>k. find_job (note_disabled d js) x = Some k \<and> rk (jb_id (note_disabled d js ! k)) < rk (jb_id (note_disabled d js ! i))"
proof -
  have "loaded (j\<lparr>jb_detail := x\<rparr>)" if "loaded j" for j x
  proof -
    have "(job_loaded a b c e f)\<lparr>jb_detail := y, jb_detail := x\<rparr> = (job_loaded a b c e f)\<lparr>jb_detail := x\<rparr>" for a b c e f y
      by (simp add: job_loaded_def)
    with that show ?thesis unfolding loaded_def by (cases j) (simp add: job_loaded_def)
  qed
  with assms show "list_all loaded (note_disabled d js)" by (simp add: jobs_sound_def note_disabled_def list_all_iff)
  show "\<forall>i < length (note_disabled d js). \<forall>x \<in> set (jb_needs (note_disabled d js ! i)).
      \<exists>k. find_job (note_disabled d js) x = Some k \<and> rk (jb_id (note_disabled d js ! k)) < rk (jb_id (note_disabled d js ! i))"
  proof (intro allI impI ballI)
    fix i x
    assume "i < length (note_disabled d js)" and "x \<in> set (jb_needs (note_disabled d js ! i))"
    then have i: "i < length js" and x: "x \<in> set (jb_needs (js ! i))" by (simp_all add: note_disabled_def)
    have "find_job js x \<noteq> None" "rk x < rk (jb_id (js ! i))"
      using assms nth_mem [OF i] x unfolding jobs_sound_def needs_named_def list_all_iff by blast+
    then obtain k where k: "find_job js x = Some k" "rk x < rk (jb_id (js ! i))" by blast
    have "jb_id (note_disabled d js ! n) = jb_id (js ! n)" if "n < length js" for n
      using that by (simp add: note_disabled_def)
    with find_job_Some [OF k(1)] i k(2) have "rk (jb_id (note_disabled d js ! k)) < rk (jb_id (note_disabled d js ! i))" by simp
    with k(1) show "\<exists>k. find_job (note_disabled d js) x = Some k
        \<and> rk (jb_id (note_disabled d js ! k)) < rk (jb_id (note_disabled d js ! i))" by (auto simp: find_job_note)
  qed
qed

text \<open>
  What the loop of a run is started with, if it comes to that: \<open>max-parallel\<close>, the context, and the
  selected jobs with the notes of the targets that are out of service.
\<close>

definition run_start :: "'w sys \<Rightarrow> 'w run_env \<Rightarrow> dbl option \<Rightarrow> 'w run_ctx \<Rightarrow> job list \<Rightarrow> int \<times> 'w run_ctx \<times> job list" where
  "run_start sy env mp cx jobs =
     (let js = note_disabled (we_disabled env) jobs;
          k = (case xallocs (sy_alloc sy) (run_copies env (cx_run_dir cx) js) (cx_k cx) of None \<Rightarrow> cx_k cx | Some k \<Rightarrow> k)
      in (case mp of None \<Rightarrow> 0 | Some v \<Rightarrow> qwe_count_from_number v,
          snd (mono_now_ns sy (cx\<lparr>cx_k := k, cx_w := preconnect (we_connect env) (we_ons env) js (cx_w cx)\<rparr>)), js))"

definition run_given ::
    "(rat \<Rightarrow> rat) \<Rightarrow> (nat \<Rightarrow> bool) \<Rightarrow> 'w sys \<Rightarrow> 'w run_ctx \<Rightarrow> 'w run_env \<Rightarrow> (int \<times> 'w run_ctx \<times> job list) option" where
  "run_given fl ok sy cx env =
     (case we_doc env of
        None \<Rightarrow> None
      | Some (tbl, mp) \<Rightarrow>
          (case qwe_jobs_load fl ok tbl of
             Inl _ \<Rightarrow> None
           | Inr jobs \<Rightarrow>
               (case run_select env jobs of
                  Some (Inr js) \<Rightarrow>
                    (case run_prepare env (cx_w cx) of
                       (None, w) \<Rightarrow> None
                     | (Some (run_id, run_dir), w) \<Rightarrow>
                         Some (run_start sy env mp (run_context env run_id run_dir (cx\<lparr>cx_w := w\<rparr>)) js))
                | _ \<Rightarrow> None)))"

text \<open>The step outputs of a run are JSON texts, of the values \<open>out\<close>.\<close>

definition outputs_json :: "(string \<Rightarrow> json) \<Rightarrow> qwe_job_result list \<Rightarrow> bool" where
  "outputs_json out js \<longleftrightarrow>
     (\<forall>j \<in> set js. \<forall>s \<in> set (rj_steps j). \<forall>o1. sr_outputs_json s = Some o1 \<longrightarrow> json_text (out o1) o1)"

definition off_target :: "job \<Rightarrow> bool" where
  "off_target j \<longleftrightarrow> jb_detail j \<noteq> None \<and> jb_reason j = Some ''target-disabled''"

text \<open>
  What the reports of a run say: \<open>result.json\<close> is complete exactly when it could be opened, written and
  closed, and is JSON for the jobs as they ended; the summary is that of the same jobs, under the word
  that goes with the code; and the line on the terminal counts the jobs whose target is out of service
  and names each of these targets.
\<close>

definition reports_say :: "'w run_env \<Rightarrow> run_report \<Rightarrow> bool" where
  "reports_say env rp \<longleftrightarrow>
     (let jobs = map job_result_of (rp_jobs rp);
          word = (if rp_code rp = QWE_EXIT_CANCELLED then ''cancelled'' else if all_ok (rp_jobs rp) then ''success'' else ''failed'')
      in (rp_wrote rp \<longleftrightarrow> we_opened env \<and> \<not> we_ferror env \<and> we_closed env)
       \<and> (case rp_result rp of
            None \<Rightarrow> \<not> we_opened env
          | Some t \<Rightarrow> we_opened env \<and>
              (utc_plain (we_utc env) \<longrightarrow> (\<forall>out. outputs_json out jobs \<longrightarrow>
                 (\<exists>u. t = u @ [nl] \<and>
                    json_text (result_value (we_utc env) out (fmt_run_id (we_stamp env) (we_now env) (we_pid env)) jobs) u))))
       \<and> (case we_summary env of
            None \<Rightarrow> rp_summary rp = None
          | Some (file, logs, ferr, shut) \<Rightarrow>
              \<exists>ms. rp_summary rp = Some (qwe_summary_write file (Some logs) ferr shut (we_path env) word ms jobs))
       \<and> (case rp_disabled rp of
            None \<Rightarrow> \<not> list_ex off_target (rp_jobs rp)
          | Some t \<Rightarrow> list_ex off_target (rp_jobs rp)
              \<and> prefix (''qwe run: '' @ nat_dec (length (filter off_target (rp_jobs rp))) @ '' job'') t
              \<and> list_all (\<lambda>j. off_target j \<longrightarrow> sublist ('' '' @ jb_target j @ '' ('') t) (rp_jobs rp)))"

text \<open>What the code of a run that was started says.\<close>

definition report_ok :: "'w run_env \<Rightarrow> run_report \<Rightarrow> bool" where
  "report_ok env rp \<longleftrightarrow>
     (if rp_ran rp then
        list_all (\<lambda>j. qwe_lc_state_is_final (jb_state j) \<and> holds_right j \<and> outcomes_known j) (rp_jobs rp)
        \<and> rp_code rp = (if \<not> rp_wrote rp then QWE_EXIT_FAILED else if rp_cancelled rp then QWE_EXIT_CANCELLED
             else if all_ok (rp_jobs rp) then QWE_EXIT_OK else QWE_EXIT_FAILED)
        \<and> reports_say env rp
      else rp_code rp = QWE_EXIT_USAGE \<and> list_all (\<lambda>j. jb_state j = QWE_LC_PENDING) (rp_jobs rp)
        \<and> rp_result rp = None \<and> \<not> rp_wrote rp \<and> rp_summary rp = None \<and> rp_disabled rp = None)"

lemma disabled_targets_names:
  "(\<forall>s \<in> set seen. off_target s) \<Longrightarrow>
   jb_target ` set (disabled_targets js seen) = jb_target ` set seen \<union> jb_target ` {j \<in> set js. off_target j}"
proof (induction js arbitrary: seen)
  case (Cons j js)
  show ?case
  proof (cases "off_target j")
    case False
    with Cons show ?thesis by (auto simp: off_target_def)
  next
    case True
    then have o: "\<not> (jb_detail j = None \<or> jb_reason j \<noteq> Some ''target-disabled'')" by (simp add: off_target_def)
    show ?thesis
    proof (cases "list_ex (\<lambda>s. jb_target s = jb_target j) seen")
      case True
      with o Cons \<open>off_target j\<close> show ?thesis by (auto simp: list_ex_iff image_iff) metis+
    next
      case False
      with o Cons.IH [of "seen @ [j]"] Cons.prems \<open>off_target j\<close> show ?thesis by auto
    qed
  qed
qed simp

lemma concat_piece:
  assumes "k < length xs"
  shows "\<exists>p q. concat xs = p @ xs ! k @ q"
proof -
  have "concat xs = concat (take k xs) @ xs ! k @ concat (drop (Suc k) xs)"
    by (subst id_take_nth_drop [OF assms]) simp
  then show ?thesis by blast
qed

lemma report_disabled_says:
  "case report_disabled js of
     None \<Rightarrow> \<not> list_ex off_target js
   | Some t \<Rightarrow> list_ex off_target js
       \<and> prefix (''qwe run: '' @ nat_dec (length (filter off_target js)) @ '' job'') t
       \<and> list_all (\<lambda>j. off_target j \<longrightarrow> sublist ('' '' @ jb_target j @ '' ('') t) js"
proof -
  have f: "filter (\<lambda>j. \<not> (jb_detail j = None \<or> jb_reason j \<noteq> Some ''target-disabled'')) js = filter off_target js"
    by (rule filter_cong) (auto simp: off_target_def)
  show ?thesis
  proof (cases "filter off_target js = []")
    case True
    then show ?thesis unfolding report_disabled_def Let_def f by (simp add: list_ex_iff filter_empty_conv)
  next
    case False
    let ?seen = "disabled_targets js []"
    let ?names = "map (\<lambda>k. (if k \<noteq> 0 then '','' else []) @ '' '' @ jb_target (?seen ! k) @ '' ('' @ the (jb_detail (?seen ! k)) @ '')'') [0..<length ?seen]"
    have names: "\<exists>p q. concat ?names = p @ ('' '' @ jb_target j @ '' ('') @ q" if "j \<in> set js" "off_target j" for j
    proof -
      have "jb_target j \<in> jb_target ` set ?seen" using that disabled_targets_names [of "[]" js] by auto
      then obtain k where k: "k < length ?seen" "jb_target (?seen ! k) = jb_target j" by (metis imageE in_set_conv_nth)
      obtain p q where "concat ?names = p @ ?names ! k @ q" using concat_piece [of k ?names] k(1) by auto
      moreover have "?names ! k = (if k \<noteq> 0 then '','' else []) @ ('' '' @ jb_target j @ '' ('') @ the (jb_detail (?seen ! k)) @ '')''"
        using k by simp
      ultimately have "concat ?names = (p @ (if k \<noteq> 0 then '','' else [])) @ ('' '' @ jb_target j @ '' ('') @ (the (jb_detail (?seen ! k)) @ '')'' @ q)"
        by (simp only: append.assoc)
      then show ?thesis by blast
    qed
    have s: "off_target j \<Longrightarrow> sublist ('' '' @ jb_target j @ '' ('') (p @ concat ?names @ q)" if "j \<in> set js" for j p q
    proof -
      assume "off_target j"
      with that names obtain a b where "concat ?names = a @ ('' '' @ jb_target j @ '' ('') @ b" by blast
      then have "p @ concat ?names @ q = (p @ a) @ ('' '' @ jb_target j @ '' ('') @ (b @ q)" by (simp only: append.assoc)
      then show ?thesis unfolding sublist_def by blast
    qed
    let ?n = "length (filter off_target js)"
    let ?a = "''qwe run: '' @ nat_dec ?n @ '' job''"
    let ?b = "(if ?n = 1 then [] else ''s'') @ '' skipped, target'' @ (if length ?seen = 1 then [] else ''s'') @ '' disabled:''"
    have "report_disabled js = Some (?a @ ?b @ concat ?names @ [nl])"
      using False unfolding report_disabled_def Let_def f by (simp only: append.assoc length_0_conv if_False)
    moreover have "list_all (\<lambda>j. off_target j \<longrightarrow> sublist ('' '' @ jb_target j @ '' ('') (?a @ ?b @ concat ?names @ [nl])) js"
      using s [of _ "?a @ ?b"] unfolding list_all_iff append.assoc by blast
    moreover have "list_ex off_target js" using False by (auto simp: list_ex_iff filter_empty_conv)
    ultimately show ?thesis unfolding prefix_def by simp
  qed
qed

text \<open>Everything that happened is recorded, so the writer of \<open>result.json\<close> returns.\<close>

lemma recorded_outcomes:
  assumes "list_all (\<lambda>j. qwe_lc_state_is_final (jb_state j) \<and> holds_right j \<and> outcomes_known j) js"
  shows "list_all (\<lambda>j. list_all (\<lambda>s. sr_outcome s \<noteq> None) (rj_steps j)) (map job_result_of js)"
  unfolding list_all_iff
proof (intro ballI)
  fix r st
  assume "r \<in> set (map job_result_of js)" "st \<in> set (rj_steps r)"
  then obtain j ss where "j \<in> set js" "jb_steps j = Some ss" "st \<in> set ss"
    by (auto simp: job_result_of_def split: option.splits)
  with assms show "sr_outcome st \<noteq> None" by (fastforce simp: list_all_iff outcomes_known_def)
qed

lemma run_wrote_says:
  assumes "list_all (\<lambda>j. qwe_lc_state_is_final (jb_state j) \<and> holds_right j \<and> outcomes_known j) js"
  shows "\<exists>res wrote. run_wrote env run_id js = Some (res, wrote) \<and> (wrote \<longleftrightarrow> we_opened env \<and> \<not> we_ferror env \<and> we_closed env)
    \<and> (case res of None \<Rightarrow> \<not> we_opened env | Some t \<Rightarrow> we_opened env \<and>
         (utc_plain (we_utc env) \<longrightarrow> (\<forall>out. outputs_json out (map job_result_of js) \<longrightarrow>
            (\<exists>u. t = u @ [nl] \<and> json_text (result_value (we_utc env) out run_id (map job_result_of js)) u))))"
proof (cases "we_opened env")
  case True
  from result_write_total [OF recorded_outcomes [OF assms]] obtain t where
    t: "qwe_result_write (we_utc env) (we_ferror env) run_id (map job_result_of js) = Some (t, if we_ferror env then -1 else 0)" by blast
  have "\<exists>u. t = u @ [nl] \<and> json_text (result_value (we_utc env) out run_id (map job_result_of js)) u"
    if "utc_plain (we_utc env)" "outputs_json out (map job_result_of js)" for out
    using json_text_result [OF t that(1)] that(2) unfolding outputs_json_def by blast
  with True t show ?thesis by (simp add: run_wrote_def)
qed (auto simp: run_wrote_def)

lemma run_finish_ok:
  assumes "list_all (\<lambda>j. qwe_lc_state_is_final (jb_state j) \<and> holds_right j \<and> outcomes_known j) js"
    and "run_id = fmt_run_id (we_stamp env) (we_now env) (we_pid env)"
  shows "\<exists>rp. run_finish env run_id True ms cx js = Inr rp \<and> report_ok env rp \<and> rp_ran rp \<and> rp_jobs rp = js"
proof -
  obtain res wrote where w: "run_wrote env run_id js = Some (res, wrote)"
    and says: "wrote \<longleftrightarrow> we_opened env \<and> \<not> we_ferror env \<and> we_closed env"
      "case res of None \<Rightarrow> \<not> we_opened env | Some t \<Rightarrow> we_opened env \<and>
         (utc_plain (we_utc env) \<longrightarrow> (\<forall>out. outputs_json out (map job_result_of js) \<longrightarrow>
            (\<exists>u. t = u @ [nl] \<and> json_text (result_value (we_utc env) out run_id (map job_result_of js)) u)))"
    using run_wrote_says [OF assms(1)] by blast
  let ?rc = "run_exit True (cx_cancel_requested cx) wrote js"
  let ?rp = "\<lparr>rp_code = ?rc, rp_jobs = js, rp_ran = True, rp_cancelled = cx_cancel_requested cx, rp_result = res, rp_wrote = wrote,
      rp_summary = map_option (\<lambda>(file, logs, ferr, shut).
        qwe_summary_write file (Some logs) ferr shut (we_path env) (summary_outcome ?rc js) ms (map job_result_of js)) (we_summary env),
      rp_disabled = report_disabled js\<rparr>"
  have "run_finish env run_id True ms cx js = Inr ?rp" by (simp add: run_finish_def w Let_def)
  moreover have "reports_say env ?rp"
    using says report_disabled_says [of js] unfolding reports_say_def Let_def run_report.simps assms(2) [symmetric]
    by (intro conjI) (auto simp: summary_outcome_def split: option.splits)
  then have "report_ok env ?rp" using assms(1) by (simp add: report_ok_def run_exit_def Let_def)
  ultimately show ?thesis by auto
qed

text \<open>
  What a run comes to. When its turns are used up, the run that the document gave is itself at a wait,
  with a job running; when it stops, an allocation failed; and when it returns, its report is right, it
  ran exactly if the document, the selection and the directory gave it something to run, and the jobs of
  its report are those it was given.
\<close>

definition run_result_ok ::
    "(rat \<Rightarrow> rat) \<Rightarrow> (nat \<Rightarrow> bool) \<Rightarrow> nat \<Rightarrow> 'w sys \<Rightarrow> 'w run_ctx \<Rightarrow> 'w run_env \<Rightarrow> (run_crash + run_report) option \<Rightarrow> bool" where
  "run_result_ok fl ok turns sy cx env r \<longleftrightarrow>
     (case r of
        None \<Rightarrow> (case run_given fl ok sy cx env of None \<Rightarrow> False | Some (mp, cx', js) \<Rightarrow> run_waits turns sy mp cx' js)
      | Some (Inl c) \<Rightarrow> c = Run_abort Out_of_memory \<and> short_of_memory (sy_alloc sy) \<and> run_given fl ok sy cx env \<noteq> None
      | Some (Inr rp) \<Rightarrow> report_ok env rp
          \<and> (case run_given fl ok sy cx env of
               None \<Rightarrow> \<not> rp_ran rp
             | Some (mp, cx', js) \<Rightarrow> rp_ran rp \<and> map jb_id (rp_jobs rp) = map jb_id js))"

lemma refused_ok: "list_all loaded js \<Longrightarrow> report_ok env (refused js) \<and> \<not> rp_ran (refused js)"
  using loaded_settled by (auto simp: report_ok_def refused_def list_all_iff)

lemma run_jobs_ok:
  assumes "jobs_sound rk js" and "0 < turns"
    and "\<forall>t. 0 < sy_max_sessions sy t \<and> sy_max_sessions sy t < 2 ^ 63"
    and g: "run_given fl ok sy cx0 env = Some (run_start sy env mp cx js)"
    and honest: "\<forall>mp cx' js. run_given fl ok sy cx0 env = Some (mp, cx', js) \<longrightarrow> epoll_honest turns sy mp cx' js"
    and id: "cx_run_id cx = fmt_run_id (we_stamp env) (we_now env) (we_pid env)"
  shows "run_result_ok fl ok turns sy cx0 env (run_jobs turns sy env mp cx js)"
proof (cases "xallocs (sy_alloc sy) (run_copies env (cx_run_dir cx) (note_disabled (we_disabled env) js)) (cx_k cx)")
  case None
  with g xallocs_short [OF None] show ?thesis by (simp add: run_jobs_def run_result_ok_def Let_def)
next
  case k: (Some k)
  let ?js = "note_disabled (we_disabled env) js"
  let ?mp = "case mp of None \<Rightarrow> 0 | Some v \<Rightarrow> qwe_count_from_number v"
  let ?cx1 = "cx\<lparr>cx_k := k, cx_w := preconnect (we_connect env) (we_ons env) ?js (cx_w cx)\<rparr>"
  obtain start_ns cx2 where m: "mono_now_ns sy ?cx1 = (start_ns, cx2)" by (cases "mono_now_ns sy ?cx1")
  have g': "run_given fl ok sy cx0 env = Some (?mp, cx2, ?js)" using g m k by (simp add: run_start_def Let_def)
  have "qwe_count_from_number v < 2 ^ 63" for v using count_bounds [of v] by (simp add: LONG_MAX_def)
  then have mp: "?mp < 2 ^ 63" by (simp split: option.splits)
  have e: "run_end_ok turns sy ?mp cx2 ?js (run_all turns sy ?mp cx2 ?js)"
    using honest g' by (intro run_all_end [where rank = "\<lambda>i. rk (jb_id (?js ! i))", OF noted_jobs_run(1) [OF assms(1)] assms(2)
          noted_jobs_run(2) [OF assms(1)] assms(3) mp]) blast
  show ?thesis
  proof (cases "run_all turns sy ?mp cx2 ?js")
    case None
    with e m k g' show ?thesis by (simp add: run_jobs_def run_result_ok_def run_end_ok_def Let_def)
  next
    case (Some r)
    show ?thesis
    proof (cases r)
      case (Inl a)
      with Some e m k g' show ?thesis by (simp add: run_jobs_def run_result_ok_def run_end_ok_def Let_def)
    next
      case (Inr x)
      then obtain cx3 js' where x: "r = Inr (True, cx3, js')"
        and f: "list_all (\<lambda>j. qwe_lc_state_is_final (jb_state j) \<and> holds_right j \<and> outcomes_known j) js'"
        and ids: "map jb_id js' = map jb_id ?js"
        using e Some by (cases x) (auto simp: run_end_ok_def)
      obtain end_ns cx4 where m4: "mono_now_ns sy (cx3\<lparr>cx_w := we_close_masters env (cx_w cx3),
          cx_secrets := snd (qwe_redact_clear (cx_secrets cx3))\<rparr>) = (end_ns, cx4)" by (metis prod.exhaust_sel)
      obtain rp where rp: "run_finish env (cx_run_id cx) True (mono_diff_ms start_ns end_ns) cx4 js' = Inr rp"
          "report_ok env rp" "rp_ran rp" "rp_jobs rp = js'"
        using run_finish_ok [OF f id] by blast
      show ?thesis
      proof (cases "xallocs (sy_alloc sy) 2 (cx_k cx4)")
        case None
        with xallocs_short [OF None] Some x m m4 k g' show ?thesis by (simp add: run_jobs_def run_result_ok_def Let_def)
      next
        case (Some l)
        with rp \<open>run_all turns sy ?mp cx2 ?js = Some r\<close> x m m4 k g' ids show ?thesis
          by (simp add: run_jobs_def run_result_ok_def Let_def)
      qed
    qed
  qed
qed

lemma prepared_id: "run_prepare env w = (Some (i, d), w') \<Longrightarrow> i = fmt_run_id (we_stamp env) (we_now env) (we_pid env)"
  by (auto simp: run_prepare_def Let_def split: if_splits prod.splits)

section \<open>Properties\<close>

text \<open>A run from end to end, for a document whose needs name its jobs and have no cycle, with positive
  session limits, when each tag its waits report is one epoll can report at that moment.\<close>

lemma run_workflow_outcome:
  assumes "needs_sound rk (case we_doc env of None \<Rightarrow> [] | Some d \<Rightarrow> fst d)" and "0 < turns"
    and "\<forall>t. 0 < sy_max_sessions sy t \<and> sy_max_sessions sy t < 2 ^ 63"
    and "\<forall>mp cx' js. run_given fl ok sy cx env = Some (mp, cx', js) \<longrightarrow> epoll_honest turns sy mp cx' js"
  shows "run_result_ok fl ok turns sy cx env (qwe_run_workflow fl ok turns sy cx env)"
proof (cases "we_doc env")
  case None
  then show ?thesis by (simp add: qwe_run_workflow_def run_result_ok_def refused_ok run_given_def)
next
  case (Some d)
  then obtain tbl mp where d: "we_doc env = Some (tbl, mp)" by (cases d) simp
  show ?thesis
  proof (cases "qwe_jobs_load fl ok tbl")
    case (Inl e)
    with d show ?thesis by (simp add: qwe_run_workflow_def run_result_ok_def refused_ok run_given_def)
  next
    case (Inr jobs)
    have s: "jobs_sound rk jobs" using loaded_jobs_sound [OF Inr] assms(1) d by simp
    then have l: "list_all loaded jobs" by (simp add: jobs_sound_def)
    obtain r where r: "run_select env jobs = Some r" using select_returns [OF s, of env] by blast
    show ?thesis
    proof (cases r)
      case (Inl e)
      with d Inr r l show ?thesis by (simp add: qwe_run_workflow_def run_result_ok_def refused_ok run_given_def)
    next
      case sel: (Inr js)
      have sj: "jobs_sound rk js" using selected_sound [OF s] r sel by simp
      then have lj: "list_all loaded js" by (simp add: jobs_sound_def)
      obtain p w where p: "run_prepare env (cx_w cx) = (p, w)" by (cases "run_prepare env (cx_w cx)")
      show ?thesis
      proof (cases p)
        case None
        with d Inr r sel p lj show ?thesis by (simp add: qwe_run_workflow_def run_result_ok_def refused_ok run_given_def)
      next
        case (Some id_dir)
        then obtain i dir where q: "run_prepare env (cx_w cx) = (Some (i, dir), w)" using p by (cases id_dir) simp
        let ?cx = "run_context env i dir (cx\<lparr>cx_w := w\<rparr>)"
        have "run_given fl ok sy cx env = Some (run_start sy env mp ?cx js)" using d Inr r sel q by (simp add: run_given_def)
        from run_jobs_ok [OF sj assms(2,3) this assms(4)] prepared_id [OF q]
        have "run_result_ok fl ok turns sy cx env (run_jobs turns sy env mp ?cx js)" by (simp add: run_context_def)
        with d Inr r sel q show ?thesis by (simp add: qwe_run_workflow_def)
      qed
    qed
  qed
qed

end
