(* ===== verification/Positions.thy ===== *)
theory Positions
  imports Doubles
begin

text \<open>
  The table of source positions (\<open>src/edge/yaml/positions.c\<close>): entries under a JSON pointer, sorted
  once, then searched, and its repeated keys. Where \<open>qsort\<close> is free to choose, entries that compare
  equal keep their order, those without a key first; \<open>bsearch\<close> halves the range as glibc does.
\<close>

section \<open>The table\<close>

record qwe_pos =
  ps_line :: nat
  ps_col :: nat

record entry =
  en_pointer :: cstring
  en_key :: "qwe_pos option"
  en_value :: "qwe_pos option"

record qwe_positions =
  ps_e :: "entry list"
  ps_cap :: nat

definition qwe_positions_new :: "(nat \<Rightarrow> bool) \<Rightarrow> nat \<Rightarrow> qwe_positions option" where
  "qwe_positions_new ok k = (if ok k then Some \<lparr>ps_e = [], ps_cap = 0\<rparr> else None)"

definition qwe_positions_count :: "qwe_positions \<Rightarrow> nat" where
  "qwe_positions_count p = length (ps_e p)"

definition grow_table :: "(nat \<Rightarrow> bool) \<Rightarrow> qwe_positions \<Rightarrow> nat \<Rightarrow> qwe_positions option \<times> nat" where
  "grow_table ok p k =
     (if length (ps_e p) \<noteq> ps_cap p then (Some p, k)
      else if ok k then (Some (p\<lparr>ps_cap := if ps_cap p \<noteq> 0 then ps_cap p * 2 else 64\<rparr>), Suc k)
      else (None, Suc k))"

text \<open>The index of the new entry, or \<open>None\<close> for -1.\<close>

definition qwe_positions_add ::
    "(nat \<Rightarrow> bool) \<Rightarrow> qwe_positions \<Rightarrow> byte list \<Rightarrow> qwe_pos option \<Rightarrow> qwe_pos option \<Rightarrow> nat
     \<Rightarrow> nat option \<times> qwe_positions \<times> nat" where
  "qwe_positions_add ok p pointer key val k =
     (case grow_table ok p k of
        (None, k1) \<Rightarrow> (None, p, k1)
      | (Some p1, k1) \<Rightarrow>
          if \<not> ok k1 then (None, p1, Suc k1)
          else (Some (length (ps_e p1)),
                p1\<lparr>ps_e := ps_e p1 @ [\<lparr>en_pointer = cstr pointer, en_key = key, en_value = val\<rparr>]\<rparr>, Suc k1))"

definition qwe_positions_set_value :: "qwe_positions \<Rightarrow> nat \<Rightarrow> qwe_pos \<Rightarrow> qwe_positions" where
  "qwe_positions_set_value p i v = p\<lparr>ps_e := (ps_e p)[i := (ps_e p ! i)\<lparr>en_value := Some v\<rparr>]\<rparr>"

section \<open>Order and search\<close>

definition pos_key :: "qwe_pos \<Rightarrow> nat list" where
  "pos_key p = [ps_line p, ps_col p]"

definition entry_key :: "entry \<Rightarrow> nat list list" where
  "entry_key e = [cmp_key (en_pointer e), case en_key e of None \<Rightarrow> [] | Some p \<Rightarrow> pos_key p]"

definition qwe_positions_finish :: "qwe_positions \<Rightarrow> qwe_positions" where
  "qwe_positions_finish p = p\<lparr>ps_e := sort_key entry_key (ps_e p)\<rparr>"

fun dup_loop :: "entry \<Rightarrow> entry list \<Rightarrow> (cstring \<times> qwe_pos \<times> qwe_pos) list" where
  "dup_loop f [] = []"
| "dup_loop f (e # es) =
     (if en_pointer e \<noteq> en_pointer f then dup_loop e es
      else (case (en_key f, en_key e) of (Some a, Some b) \<Rightarrow> [(en_pointer e, a, b)] | _ \<Rightarrow> []) @ dup_loop f es)"

definition qwe_positions_duplicates :: "qwe_positions \<Rightarrow> (cstring \<times> qwe_pos \<times> qwe_pos) list" where
  "qwe_positions_duplicates p = (case ps_e p of [] \<Rightarrow> [] | e # es \<Rightarrow> dup_loop e es)"

function bsearch :: "entry list \<Rightarrow> cstring \<Rightarrow> nat \<Rightarrow> nat \<Rightarrow> entry option" where
  "bsearch es x l u =
     (if u \<le> l then None
      else let i = (l + u) div 2
           in if cmp_key x < cmp_key (en_pointer (es ! i)) then bsearch es x l i
              else if x = en_pointer (es ! i) then Some (es ! i)
              else bsearch es x (i + 1) u)"
  by pat_completeness auto
termination by (relation "measure (\<lambda>(es, x, l, u). u - l)") auto

declare bsearch.simps [simp del]

definition find_entry :: "qwe_positions \<Rightarrow> cstring \<Rightarrow> entry option" where
  "find_entry p x = bsearch (ps_e p) x 0 (length (ps_e p))"

definition qwe_positions_value :: "qwe_positions \<Rightarrow> cstring \<Rightarrow> qwe_pos option" where
  "qwe_positions_value p x = (case find_entry p x of None \<Rightarrow> None | Some e \<Rightarrow> en_value e)"

definition qwe_positions_key :: "qwe_positions \<Rightarrow> cstring \<Rightarrow> qwe_pos option" where
  "qwe_positions_key p x = (case find_entry p x of None \<Rightarrow> None | Some e \<Rightarrow> en_key e)"

section \<open>Lookups\<close>

definition by_pointer :: "entry list \<Rightarrow> bool" where
  "by_pointer es \<longleftrightarrow> sorted (map (\<lambda>e. cmp_key (en_pointer e)) es)"

lemma by_pointer_finish: "by_pointer (ps_e (qwe_positions_finish p))"
proof -
  have "sorted (map entry_key (sort_key entry_key (ps_e p)))" by simp
  then have "sorted_wrt (\<lambda>a b. entry_key a \<le> entry_key b) (sort_key entry_key (ps_e p))" by (simp add: sorted_map)
  then have "sorted_wrt (\<lambda>a b. cmp_key (en_pointer a) \<le> cmp_key (en_pointer b)) (sort_key entry_key (ps_e p))"
    by (rule sorted_wrt_mono_rel [rotated]) (auto simp: entry_key_def split: if_splits)
  then show ?thesis by (simp add: by_pointer_def qwe_positions_finish_def sorted_map)
qed

lemma by_pointerD: "by_pointer es \<Longrightarrow> i \<le> j \<Longrightarrow> j < length es \<Longrightarrow> cmp_key (en_pointer (es ! i)) \<le> cmp_key (en_pointer (es ! j))"
  by (auto simp: by_pointer_def sorted_iff_nth_mono)

lemma bsearch_correct:
  assumes "by_pointer es" "u \<le> length es"
  shows "case bsearch es x l u of
      Some e \<Rightarrow> (\<exists>i. l \<le> i \<and> i < u \<and> e = es ! i \<and> en_pointer e = x)
    | None \<Rightarrow> \<forall>i. l \<le> i \<longrightarrow> i < u \<longrightarrow> en_pointer (es ! i) \<noteq> x"
  using assms
proof (induction es x l u rule: bsearch.induct)
  case (1 es x l u)
  show ?case
  proof (cases "u \<le> l")
    case True
    then show ?thesis by (simp add: bsearch.simps)
  next
    case False
    define m where "m = (l + u) div 2"
    have m: "l \<le> m" "m < u" using False by (auto simp: m_def)
    consider "cmp_key x < cmp_key (en_pointer (es ! m))" | "x = en_pointer (es ! m)" | "cmp_key (en_pointer (es ! m)) < cmp_key x"
      using cmp_key_inj [of x "en_pointer (es ! m)"] by (metis linorder_less_linear)
    then show ?thesis
    proof cases
      case 1
      have "en_pointer (es ! i) \<noteq> x" if "m \<le> i" "i < u" for i
        using by_pointerD [OF "1.prems"(1), of m i] that "1.prems"(2) 1 by auto
      moreover have "bsearch es x l u = bsearch es x l m" using False 1 by (simp add: bsearch.simps [of es x l u] m_def)
      ultimately show ?thesis using "1.IH"(1) [OF False m_def 1 "1.prems"(1)] m "1.prems"(2)
        by (cases "bsearch es x l m") (simp, metis not_less, auto)
    next
      case 2
      then have "bsearch es x l u = Some (es ! m)" using False by (subst bsearch.simps) (simp add: m_def Let_def)
      with 2 m show ?thesis by auto
    next
      case 3
      then have n: "\<not> cmp_key x < cmp_key (en_pointer (es ! m))" "x \<noteq> en_pointer (es ! m)" by auto
      have "en_pointer (es ! i) \<noteq> x" if "i \<le> m" for i
        using by_pointerD [OF "1.prems"(1), of i m] that m "1.prems"(2) 3 by auto
      moreover have "bsearch es x l u = bsearch es x (m + 1) u" using False n by (simp add: bsearch.simps [of es x l u] m_def)
      ultimately show ?thesis using "1.IH"(2) [OF False m_def n "1.prems"] m
        by (cases "bsearch es x (m + 1) u") (simp, metis not_less_eq_eq, simp, metis Suc_leD le_trans)
    qed
  qed
qed

lemma find_entry_correct:
  "case find_entry (qwe_positions_finish p) x of
     Some e \<Rightarrow> e \<in> set (ps_e p) \<and> en_pointer e = x
   | None \<Rightarrow> \<forall>e \<in> set (ps_e p). en_pointer e \<noteq> x"
proof -
  let ?es = "ps_e (qwe_positions_finish p)"
  have s: "set ?es = set (ps_e p)" by (simp add: qwe_positions_finish_def)
  have "case bsearch ?es x 0 (length ?es) of
      Some e \<Rightarrow> (\<exists>i. 0 \<le> i \<and> i < length ?es \<and> e = ?es ! i \<and> en_pointer e = x)
    | None \<Rightarrow> \<forall>i. 0 \<le> i \<longrightarrow> i < length ?es \<longrightarrow> en_pointer (?es ! i) \<noteq> x"
    by (rule bsearch_correct) (simp_all add: by_pointer_finish)
  then show ?thesis unfolding s [symmetric] find_entry_def
    by (auto split: option.splits simp: in_set_conv_nth)
qed

lemma positions_lookup:
  assumes "e \<in> set (ps_e p)" and "\<And>e'. e' \<in> set (ps_e p) \<Longrightarrow> en_pointer e' = en_pointer e \<Longrightarrow> e' = e"
  shows "qwe_positions_value (qwe_positions_finish p) (en_pointer e) = en_value e"
    and "qwe_positions_key (qwe_positions_finish p) (en_pointer e) = en_key e"
proof -
  have "find_entry (qwe_positions_finish p) (en_pointer e) = Some e"
    using find_entry_correct [of p "en_pointer e"] assms by (auto split: option.splits)
  then show "qwe_positions_value (qwe_positions_finish p) (en_pointer e) = en_value e"
    and "qwe_positions_key (qwe_positions_finish p) (en_pointer e) = en_key e"
    by (simp_all add: qwe_positions_value_def qwe_positions_key_def)
qed

section \<open>Repeated keys\<close>

text \<open>What one group of entries with the same pointer reports.\<close>

fun reports :: "entry list \<Rightarrow> (cstring \<times> qwe_pos \<times> qwe_pos) list" where
  "reports [] = []"
| "reports (f # es) =
     concat (map (\<lambda>e. case (en_key f, en_key e) of (Some a, Some b) \<Rightarrow> [(en_pointer e, a, b)] | _ \<Rightarrow> []) es)"

lemma dup_loop_groups:
  "by_pointer (f # es) \<Longrightarrow>
   filter (\<lambda>d. fst d = x) (dup_loop f es) = reports (filter (\<lambda>e. en_pointer e = x) (f # es))"
proof (induction es arbitrary: f)
  case (Cons e es)
  have s: "by_pointer (e # es)" "by_pointer (f # es)" using Cons.prems by (auto simp: by_pointer_def)
  show ?case
  proof (cases "en_pointer e = en_pointer f")
    case True
    then show ?thesis using Cons.IH [OF s(2)] by (auto split: option.splits)
  next
    case False
    have "cmp_key (en_pointer f) < cmp_key (en_pointer e)" using Cons.prems False cmp_key_inj [of "en_pointer f" "en_pointer e"]
      by (auto simp: by_pointer_def simp del: cmp_key_inj)
    then have "en_pointer e' \<noteq> en_pointer f" if "e' \<in> set (e # es)" for e'
      using s(1) that by (auto simp: by_pointer_def)
    then have "filter (\<lambda>e. en_pointer e = en_pointer f) (e # es) = []" by (auto simp: filter_empty_conv)
    then show ?thesis using Cons.IH [OF s(1)] False by auto
  qed
qed simp

lemma reports_keyed:
  assumes "\<And>e. e \<in> set es \<Longrightarrow> en_key e \<noteq> None \<and> en_pointer e = x"
  shows "reports es = (case es of [] \<Rightarrow> [] | f # rest \<Rightarrow> map (\<lambda>e. (x, the (en_key f), the (en_key e))) rest)"
proof (cases es)
  case (Cons f rest)
  have "(case (en_key f, en_key e) of (Some a, Some b) \<Rightarrow> [(en_pointer e, a, b)] | _ \<Rightarrow> []) =
      [(x, the (en_key f), the (en_key e))]" if "e \<in> set rest" for e
    using assms [of f] assms [of e] that Cons by auto
  then have "concat (map (\<lambda>e. case (en_key f, en_key e) of (Some a, Some b) \<Rightarrow> [(en_pointer e, a, b)] | _ \<Rightarrow> []) rest) =
      concat (map (\<lambda>e. [(x, the (en_key f), the (en_key e))]) rest)" by (metis (no_types, lifting) map_eq_conv)
  also have "\<dots> = map (\<lambda>e. (x, the (en_key f), the (en_key e))) rest" by (induction rest) simp_all
  finally show ?thesis using Cons by simp
qed simp

lemma insort_key_order_cong:
  "(\<And>b. b \<in> set xs \<Longrightarrow> f a \<le> f b \<longleftrightarrow> g a \<le> g b) \<Longrightarrow> insort_key f a xs = insort_key g a xs"
  by (induction xs) auto

lemma sort_key_order_cong:
  "(\<And>a b. a \<in> set xs \<Longrightarrow> b \<in> set xs \<Longrightarrow> f a \<le> f b \<longleftrightarrow> g a \<le> g b) \<Longrightarrow> sort_key f xs = sort_key g xs"
proof (induction xs)
  case (Cons a xs)
  then have "sort_key f xs = sort_key g xs" by simp
  then show ?case using insort_key_order_cong [of "sort_key g xs" f a g] Cons.prems by simp
qed simp

text \<open>The repeated keys that are reported: for a pointer whose entries all come from keys, every
  entry but the earliest, each against the earliest, in the order of the source.\<close>

lemma positions_duplicates_are_the_repeats:
  assumes "\<forall>e \<in> set (ps_e p). en_pointer e = x \<longrightarrow> en_key e \<noteq> None"
  shows "filter (\<lambda>d. fst d = x) (qwe_positions_duplicates (qwe_positions_finish p)) =
    (case sort_key (\<lambda>e. pos_key (the (en_key e))) (filter (\<lambda>e. en_pointer e = x) (ps_e p)) of
       [] \<Rightarrow> []
     | f # rest \<Rightarrow> map (\<lambda>e. (x, the (en_key f), the (en_key e))) rest)"
proof -
  let ?es = "sort_key entry_key (ps_e p)" and ?grp = "filter (\<lambda>e. en_pointer e = x) (ps_e p)"
  have "filter (\<lambda>d. fst d = x) (qwe_positions_duplicates (qwe_positions_finish p)) =
      reports (filter (\<lambda>e. en_pointer e = x) ?es)"
    using by_pointer_finish [of p] dup_loop_groups
    by (cases ?es) (auto simp: qwe_positions_duplicates_def qwe_positions_finish_def)
  also have "filter (\<lambda>e. en_pointer e = x) ?es = sort_key entry_key ?grp" by (rule filter_sort)
  also have "\<dots> = sort_key (\<lambda>e. pos_key (the (en_key e))) ?grp"
  proof -
    have "entry_key e = [cmp_key x, pos_key (the (en_key e))]" if "e \<in> set ?grp" for e
      using that assms by (auto simp: entry_key_def)
    then show ?thesis by (intro sort_key_order_cong) (simp, metis order.order_iff_strict)
  qed
  finally show ?thesis using reports_keyed [of "sort_key (\<lambda>e. pos_key (the (en_key e))) ?grp" x] assms by auto
qed

end
