(* ===== verification/Cbor.thy ===== *)
theory Cbor
  imports Doubles
begin

text \<open>
  CBOR and Lua values (\<open>src/kernel/luacbor.c\<close>): the conversion in both directions, with the depth
  limit, the exact integers, the secrets and the sorted keys. tinycbor is a parameter: the items its
  cursor shows, and the bytes it writes for them. Lua's own allocation errors unwind the stack and are
  left out.
\<close>

section \<open>Values\<close>

text \<open>
  What tinycbor's cursor shows. \<open>CFail\<close> is an item it cannot step over, with the message the
  kernel gives; the flag of a container says whether its end was found.
\<close>

datatype cbor =
    CInt int | CText "byte list" | CBytes "byte list" | CArr "cbor list" bool | CMap "(cbor \<times> cbor) list" bool
  | CTag nat cbor | CBool bool | CNull | CUndef | CDbl dbl | CFlt dbl | CSimple | CFail cstring

datatype mt = MT_ARRAY | MT_MAP | MT_SECRET | MT_OTHER

text \<open>
  A Lua value. A table has its metatable, its sequence, its string fields in the order of the keys,
  and whether it has other keys. A light userdata is the null of the module when it is NULL.
\<close>

datatype luav =
    LNil | LBool bool | LNum dbl | LStr "byte list" | LLight bool | LOther
  | LTab "mt option" "luav list" "(byte list \<times> luav) list" bool

fun upd_field :: "byte list \<Rightarrow> luav \<Rightarrow> (byte list \<times> luav) list \<Rightarrow> (byte list \<times> luav) list" where
  "upd_field x v [] = [(x, v)]"
| "upd_field x v ((a, b) # fs) =
     (if cmp_key x < cmp_key a then (x, v) # (a, b) # fs
      else if x = a then (x, v) # fs
      else (a, b) # upd_field x v fs)"

definition QWE_LUA_MAX_DEPTH :: nat where "QWE_LUA_MAX_DEPTH = 64"
definition MAX_EXACT :: int where "MAX_EXACT = 9007199254740992"
definition QWE_SECRET_TAG :: nat where "QWE_SECRET_TAG = 32768"

section \<open>CBOR to Lua\<close>

definition secret_of :: "byte list \<Rightarrow> luav" where
  "secret_of s = LTab (Some MT_SECRET) [] [(''value'', LStr s)] False"

definition convert_tagged :: "nat \<Rightarrow> cbor \<Rightarrow> cstring + luav" where
  "convert_tagged tag c =
     (if tag \<noteq> QWE_SECRET_TAG then Inl ''unsupported CBOR tag''
      else case c of CText s \<Rightarrow> Inr (secret_of s) | CFail e \<Rightarrow> Inl e | _ \<Rightarrow> Inl ''a secret must wrap a text string'')"

fun convert_scalar :: "cbor \<Rightarrow> cstring + luav" where
  "convert_scalar (CInt v) =
     (if v > 2 ^ 63 - 1 \<or> v < - (2 ^ 63) \<or> v > MAX_EXACT \<or> v < - MAX_EXACT then Inl ''integer out of range (beyond 2^53)''
      else Inr (LNum (Fin (of_int v))))"
| "convert_scalar (CText s) = Inr (LStr s)"
| "convert_scalar (CBytes s) = Inr (LStr s)"
| "convert_scalar (CTag t c) = convert_tagged t c"
| "convert_scalar (CBool b) = Inr (LBool b)"
| "convert_scalar CNull = Inr (LLight True)"
| "convert_scalar CUndef = Inr (LLight True)"
| "convert_scalar (CDbl d) = Inr (LNum d)"
| "convert_scalar (CFlt d) = Inr (LNum d)"
| "convert_scalar (CFail e) = Inl e"
| "convert_scalar _ = Inl ''unsupported CBOR type''"

text \<open>The loop of a container, over its items or over its keys and values.\<close>

fun convert_items :: "(cbor \<Rightarrow> cstring + luav) \<Rightarrow> cbor list \<Rightarrow> cstring + luav list" where
  "convert_items f [] = Inr []"
| "convert_items f (c # cs) =
     (case f c of Inl e \<Rightarrow> Inl e | Inr v \<Rightarrow> map_sum id ((#) v) (convert_items f cs))"

fun convert_fields ::
    "(cbor \<Rightarrow> cstring + luav) \<Rightarrow> (cbor \<times> cbor) list \<Rightarrow> (byte list \<times> luav) list \<Rightarrow> cstring + (byte list \<times> luav) list" where
  "convert_fields f [] fs = Inr fs"
| "convert_fields f ((k, c) # kcs) fs =
     (case k of
        CText s \<Rightarrow> (case f c of Inl e \<Rightarrow> Inl e | Inr v \<Rightarrow> convert_fields f kcs (upd_field s v fs))
      | CFail e \<Rightarrow> Inl e
      | _ \<Rightarrow> Inl ''map key is not a string'')"

definition convert_container :: "(cbor \<Rightarrow> cstring + luav) \<Rightarrow> cbor \<Rightarrow> cstring + luav" where
  "convert_container f c =
     (case c of
        CArr cs ended \<Rightarrow>
          (case convert_items f cs of
             Inl e \<Rightarrow> Inl e
           | Inr vs \<Rightarrow> if ended then Inr (LTab (Some MT_ARRAY) vs [] False) else Inl ''malformed container'')
      | CMap kcs ended \<Rightarrow>
          (case convert_fields f kcs [] of
             Inl e \<Rightarrow> Inl e
           | Inr fs \<Rightarrow> if ended then Inr (LTab (Some MT_MAP) [] fs False) else Inl ''malformed container'')
      | _ \<Rightarrow> convert_scalar c)"

definition is_container :: "cbor \<Rightarrow> bool" where
  "is_container c = (case c of CArr _ _ \<Rightarrow> True | CMap _ _ \<Rightarrow> True | _ \<Rightarrow> False)"

text \<open>The argument is the depth that is left: \<open>QWE_LUA_MAX_DEPTH\<close> less \<open>depth\<close>.\<close>

primrec convert :: "nat \<Rightarrow> cbor \<Rightarrow> cstring + luav" where
  "convert 0 c = (if is_container c then Inl ''nesting too deep'' else convert_scalar c)"
| "convert (Suc left) c = convert_container (convert left) c"

definition qwe_cbor_to_lua :: "(byte list \<Rightarrow> cbor option) \<Rightarrow> byte list \<Rightarrow> cstring + luav" where
  "qwe_cbor_to_lua cursor buf =
     (case cursor buf of None \<Rightarrow> Inl ''invalid CBOR'' | Some c \<Rightarrow> convert QWE_LUA_MAX_DEPTH c)"

section \<open>Lua to CBOR\<close>

datatype kind = K_ARRAY | K_MAP | K_SECRET

definition classify :: "mt option \<Rightarrow> luav list \<Rightarrow> kind" where
  "classify m sq =
     (case m of
        None \<Rightarrow> if length sq > 0 then K_ARRAY else K_MAP
      | Some MT_ARRAY \<Rightarrow> K_ARRAY
      | Some MT_SECRET \<Rightarrow> K_SECRET
      | Some _ \<Rightarrow> K_MAP)"

definition is_exact_integer :: "dbl \<Rightarrow> bool" where
  "is_exact_integer d =
     (case d of Fin a \<Rightarrow> - of_int MAX_EXACT \<le> a \<and> a \<le> of_int MAX_EXACT \<and> of_int \<lfloor>a\<rfloor> = a | _ \<Rightarrow> False)"

text \<open>Each value is encoded in turn; the counter is that of the allocations.\<close>

fun encode_items ::
    "(luav \<Rightarrow> nat \<Rightarrow> (cstring + cbor) \<times> nat) \<Rightarrow> luav list \<Rightarrow> nat \<Rightarrow> (cstring + cbor list) \<times> nat" where
  "encode_items f [] k = (Inr [], k)"
| "encode_items f (v # vs) k =
     (case f v k of
        (Inl e, k') \<Rightarrow> (Inl e, k')
      | (Inr c, k') \<Rightarrow> (case encode_items f vs k' of (r, k'') \<Rightarrow> (map_sum id ((#) c) r, k'')))"

text \<open>The array of the keys, from eight on: \<open>None\<close> when it cannot grow.\<close>

fun grow_keys :: "(nat \<Rightarrow> bool) \<Rightarrow> nat \<Rightarrow> nat \<Rightarrow> nat \<Rightarrow> nat \<Rightarrow> nat option" where
  "grow_keys ok 0 n cap k = Some k"
| "grow_keys ok (Suc more) n cap k =
     (if n = cap then (if ok k then grow_keys ok more (Suc n) (cap * 2) (Suc k) else None)
      else grow_keys ok more (Suc n) cap k)"

definition field :: "(byte list \<times> luav) list \<Rightarrow> byte list \<Rightarrow> luav" where
  "field fs x = (case map_of fs x of Some v \<Rightarrow> v | None \<Rightarrow> LNil)"

definition encode_table ::
    "(dbl \<Rightarrow> byte list) \<Rightarrow> (nat \<Rightarrow> bool) \<Rightarrow> (luav \<Rightarrow> nat \<Rightarrow> (cstring + cbor) \<times> nat)
     \<Rightarrow> mt option \<Rightarrow> luav list \<Rightarrow> (byte list \<times> luav) list \<Rightarrow> bool \<Rightarrow> nat \<Rightarrow> (cstring + cbor) \<times> nat" where
  "encode_table nstr ok f m sq fs oth k =
     (case classify m sq of
        K_SECRET \<Rightarrow>
          (case field fs ''value'' of
             LStr s \<Rightarrow> (Inr (CTag QWE_SECRET_TAG (CText s)), k)
           | LNum d \<Rightarrow> (Inr (CTag QWE_SECRET_TAG (CText (nstr d))), k)
           | _ \<Rightarrow> (Inl ''a secret needs a string value'', k))
      | K_ARRAY \<Rightarrow> (case encode_items f sq k of (r, k') \<Rightarrow> (map_sum id (\<lambda>cs. CArr cs True) r, k'))
      | K_MAP \<Rightarrow>
          if \<not> ok k then (Inl ''out of memory'', Suc k)
          else if sq \<noteq> [] \<or> oth then (Inl ''map key is not a string'', Suc k)
          else case grow_keys ok (length fs) 0 8 (Suc k) of
                 None \<Rightarrow> (Inl ''out of memory'', Suc k)
               | Some k1 \<Rightarrow>
                   let keys = sort_key cmp_key (map (\<lambda>p. cstr (fst p)) fs)
                   in case encode_items f (map (field fs) keys) k1 of
                        (r, k') \<Rightarrow> (map_sum id (\<lambda>cs. CMap (zip (map CText keys) cs) True) r, k'))"

definition encode_scalar :: "luav \<Rightarrow> cstring + cbor" where
  "encode_scalar v =
     (case v of
        LBool b \<Rightarrow> Inr (CBool b)
      | LNum d \<Rightarrow> Inr (if is_exact_integer d then CInt (dbl_trunc d) else CDbl d)
      | LStr s \<Rightarrow> Inr (CText s)
      | LLight null \<Rightarrow> if null then Inr CNull else Inl ''cannot encode this userdata''
      | _ \<Rightarrow> Inl ''cannot encode this Lua type'')"

primrec encode_value ::
    "(dbl \<Rightarrow> byte list) \<Rightarrow> (nat \<Rightarrow> bool) \<Rightarrow> nat \<Rightarrow> luav \<Rightarrow> nat \<Rightarrow> (cstring + cbor) \<times> nat" where
  "encode_value nstr ok 0 v k =
     (case v of LTab _ _ _ _ \<Rightarrow> (Inl ''nesting too deep'', k) | _ \<Rightarrow> (encode_scalar v, k))"
| "encode_value nstr ok (Suc left) v k =
     (case v of LTab m sq fs oth \<Rightarrow> encode_table nstr ok (encode_value nstr ok left) m sq fs oth k | _ \<Rightarrow> (encode_scalar v, k))"

text \<open>
  The buffer doubles until the encoding fits it; \<open>bytes\<close> is what tinycbor writes. The loop may not
  end as it is written: that it does is a theorem.
\<close>

partial_function (option) to_cbor_loop ::
    "(dbl \<Rightarrow> byte list) \<Rightarrow> (nat \<Rightarrow> bool) \<Rightarrow> (cbor \<Rightarrow> byte list) \<Rightarrow> luav \<Rightarrow> nat \<Rightarrow> nat \<Rightarrow> (cstring + byte list) option" where
  "to_cbor_loop nstr ok bytes v cap k =
     (if \<not> ok k then Some (Inl ''out of memory'')
      else case encode_value nstr ok QWE_LUA_MAX_DEPTH v (Suc k) of
             (Inl e, k') \<Rightarrow> Some (Inl e)
           | (Inr c, k') \<Rightarrow>
               if length (bytes c) \<le> cap then Some (Inr (bytes c)) else to_cbor_loop nstr ok bytes v (cap * 2) k')"

definition qwe_lua_to_cbor ::
    "(dbl \<Rightarrow> byte list) \<Rightarrow> (nat \<Rightarrow> bool) \<Rightarrow> (cbor \<Rightarrow> byte list) \<Rightarrow> luav \<Rightarrow> (cstring + byte list) option" where
  "qwe_lua_to_cbor nstr ok bytes v = to_cbor_loop nstr ok bytes v 256 0"

section \<open>The Lua module\<close>

text \<open>What the functions return: the results, or the type error Lua raises for a wrong argument.\<close>

definition l_decode :: "(byte list \<Rightarrow> cbor option) \<Rightarrow> byte list \<Rightarrow> luav list" where
  "l_decode cursor s = (case qwe_cbor_to_lua cursor s of Inl e \<Rightarrow> [LNil, LStr (take 127 e)] | Inr v \<Rightarrow> [v])"

definition l_encode ::
    "(dbl \<Rightarrow> byte list) \<Rightarrow> (nat \<Rightarrow> bool) \<Rightarrow> (cbor \<Rightarrow> byte list) \<Rightarrow> luav \<Rightarrow> luav list option" where
  "l_encode nstr ok bytes v =
     map_option (\<lambda>r. case r of Inl e \<Rightarrow> [LNil, LStr (take 127 e)] | Inr b \<Rightarrow> [LStr b]) (qwe_lua_to_cbor nstr ok bytes v)"

definition set_mt :: "luav option \<Rightarrow> mt \<Rightarrow> luav option" where
  "set_mt arg m =
     (case arg of
        None \<Rightarrow> Some (LTab (Some m) [] [] False)
      | Some (LTab _ sq fs oth) \<Rightarrow> Some (LTab (Some m) sq fs oth)
      | Some _ \<Rightarrow> None)"

definition l_array :: "luav option \<Rightarrow> luav option" where "l_array arg = set_mt arg MT_ARRAY"
definition l_map :: "luav option \<Rightarrow> luav option" where "l_map arg = set_mt arg MT_MAP"

definition has_mt :: "luav \<Rightarrow> mt \<Rightarrow> bool" where
  "has_mt v m = (case v of LTab (Some m') _ _ _ \<Rightarrow> m' = m | _ \<Rightarrow> False)"

definition l_secret :: "(dbl \<Rightarrow> byte list) \<Rightarrow> luav \<Rightarrow> luav option" where
  "l_secret nstr v = (case v of LStr s \<Rightarrow> Some (secret_of s) | LNum d \<Rightarrow> Some (secret_of (nstr d)) | _ \<Rightarrow> None)"

section \<open>Round trip\<close>

definition fields_ok :: "(byte list \<times> luav) list \<Rightarrow> bool" where
  "fields_ok fs \<longleftrightarrow> sorted_wrt (<) (map (\<lambda>p. cmp_key (fst p)) fs)"

definition scalar :: "luav \<Rightarrow> bool" where
  "scalar v = (case v of LBool _ \<Rightarrow> True | LNum _ \<Rightarrow> True | LStr _ \<Rightarrow> True | LLight null \<Rightarrow> null | _ \<Rightarrow> False)"

text \<open>
  The values a document can hold: scalars, and within the depth arrays, maps and secrets with their
  metatables, the keys of a map in order and each satisfying \<open>key\<close>.
\<close>

primrec wire :: "(byte list \<Rightarrow> bool) \<Rightarrow> nat \<Rightarrow> luav \<Rightarrow> bool" where
  "wire key 0 v = scalar v"
| "wire key (Suc left) v = (scalar v \<or>
     (case v of
        LTab (Some MT_ARRAY) sq fs oth \<Rightarrow> fs = [] \<and> \<not> oth \<and> list_all (wire key left) sq
      | LTab (Some MT_MAP) sq fs oth \<Rightarrow>
          sq = [] \<and> \<not> oth \<and> fields_ok fs \<and> list_all (\<lambda>p. key (fst p) \<and> wire key left (snd p)) fs
      | LTab (Some MT_SECRET) sq fs oth \<Rightarrow> v = secret_of (case field fs ''value'' of LStr s \<Rightarrow> s | _ \<Rightarrow> [])
      | _ \<Rightarrow> False))"

lemma exact_integer_iff: "is_exact_integer d \<longleftrightarrow> (\<exists>n. d = Fin (of_int n) \<and> - MAX_EXACT \<le> n \<and> n \<le> MAX_EXACT)"
proof (cases d)
  case (Fin a)
  have "\<exists>n. a = of_int n \<and> - MAX_EXACT \<le> n \<and> n \<le> MAX_EXACT" if ex: "is_exact_integer (Fin a)"
  proof -
    obtain n where n: "a = of_int n" using ex by (auto simp: is_exact_integer_def)
    have "- of_int MAX_EXACT \<le> (of_int n :: rat)" "(of_int n :: rat) \<le> of_int MAX_EXACT"
      using ex n by (simp_all add: is_exact_integer_def)
    then have "- MAX_EXACT \<le> n" "n \<le> MAX_EXACT" by (metis of_int_le_iff of_int_minus)+
    with n show ?thesis by blast
  qed
  moreover have "is_exact_integer (Fin (of_int n))" if "- MAX_EXACT \<le> n" "n \<le> MAX_EXACT" for n
  proof -
    have "of_int (- MAX_EXACT) \<le> (of_int n :: rat)" "(of_int n :: rat) \<le> of_int MAX_EXACT"
      using that by (simp_all only: of_int_le_iff)
    then show ?thesis by (simp add: is_exact_integer_def)
  qed
  ultimately show ?thesis using Fin by auto
qed (simp_all add: is_exact_integer_def)

lemma dbl_trunc_int: "dbl_trunc (Fin (of_int n)) = n"
proof -
  have "\<lfloor>- (of_int n :: rat)\<rfloor> = - n" by (metis floor_of_int of_int_minus)
  then show ?thesis by simp
qed

lemma scalar_roundtrip:
  assumes "scalar v"
  shows "\<exists>c. encode_scalar v = Inr c \<and> convert_scalar c = Inr v \<and> \<not> is_container c"
proof (cases v)
  case (LNum d)
  show ?thesis
  proof (cases "is_exact_integer d")
    case True
    then obtain n where n: "d = Fin (of_int n)" "- MAX_EXACT \<le> n" "n \<le> MAX_EXACT" by (auto simp: exact_integer_iff)
    then have "\<not> (n > 2 ^ 63 - 1 \<or> n < - (2 ^ 63) \<or> n > MAX_EXACT \<or> n < - MAX_EXACT)" by (simp add: MAX_EXACT_def)
    with LNum True n(1) show ?thesis
      by (simp add: encode_scalar_def dbl_trunc_int is_container_def del: dbl_trunc.simps)
  qed (simp add: LNum encode_scalar_def is_container_def)
qed (use assms in \<open>simp_all add: scalar_def encode_scalar_def is_container_def\<close>)

lemma items_roundtrip:
  assumes "\<And>v k. v \<in> set vs \<Longrightarrow> \<exists>c k'. f v k = (Inr c, k') \<and> g c = Inr v"
  shows "\<exists>cs k'. encode_items f vs k = (Inr cs, k') \<and> list_all2 (\<lambda>c v. g c = Inr v) cs vs"
  using assms
proof (induction vs arbitrary: k)
  case (Cons v vs)
  obtain c k1 where c: "f v k = (Inr c, k1)" "g c = Inr v" using Cons.prems by fastforce
  obtain cs k2 where cs: "encode_items f vs k1 = (Inr cs, k2)" "list_all2 (\<lambda>c v. g c = Inr v) cs vs"
    using Cons.IH [of k1] Cons.prems by fastforce
  from c cs have "encode_items f (v # vs) k = (Inr (c # cs), k2) \<and> list_all2 (\<lambda>c v. g c = Inr v) (c # cs) (v # vs)" by simp
  then show ?case by blast
qed simp

lemma convert_items_all: "list_all2 (\<lambda>c v. g c = Inr v) cs vs \<Longrightarrow> convert_items g cs = Inr vs"
  by (induction rule: list_all2_induct) simp_all

lemma upd_field_last: "fields_ok (fs @ [(x, v)]) \<Longrightarrow> upd_field x v fs = fs @ [(x, v)]"
proof (induction fs)
  case (Cons p fs)
  then have "cmp_key (fst p) < cmp_key x" by (simp add: fields_ok_def sorted_wrt_append)
  moreover have "fields_ok (fs @ [(x, v)])" using Cons.prems by (simp add: fields_ok_def)
  ultimately show ?case using Cons.IH by (cases p) auto
qed simp

lemma convert_fields_all:
  assumes "list_all2 (\<lambda>c v. g c = Inr v) cs (map snd fs)" "fields_ok (gs @ fs)"
  shows "convert_fields g (zip (map (\<lambda>p. CText (fst p)) fs) cs) gs = Inr (gs @ fs)"
  using assms
proof (induction fs arbitrary: cs gs)
  case (Cons p fs)
  obtain x v where p: "p = (x, v)" by (cases p)
  obtain c cs' where cs: "cs = c # cs'" "g c = Inr v" "list_all2 (\<lambda>c v. g c = Inr v) cs' (map snd fs)"
    using Cons.prems(1) p by (auto simp: list_all2_Cons2)
  have "fields_ok (gs @ [(x, v)])" using Cons.prems(2) p by (auto simp: fields_ok_def sorted_wrt_append)
  with Cons.IH [OF cs(3), of "gs @ [(x, v)]"] cs p Cons.prems(2) show ?case by (simp add: upd_field_last)
qed simp

lemma grow_keys_ok: "(\<And>i. ok i) \<Longrightarrow> grow_keys ok m n cap k \<noteq> None"
  by (induction ok m n cap k rule: grow_keys.induct) auto

lemma field_own: "fields_ok fs \<Longrightarrow> map (field fs) (map fst fs) = map snd fs"
proof -
  assume "fields_ok fs"
  then have "distinct (map (\<lambda>p. cmp_key (fst p)) fs)" by (simp add: fields_ok_def strict_sorted_iff)
  then have "distinct (map fst fs)" by (simp add: distinct_map inj_on_def comp_def)
  then show ?thesis by (auto simp: field_def map_of_eq_Some_iff)
qed

lemma keys_in_order:
  assumes "fields_ok fs" "list_all (\<lambda>p. nul_free (fst p)) fs"
  shows "sort_key cmp_key (map (\<lambda>p. cstr (fst p)) fs) = map fst fs"
proof -
  have "map (\<lambda>p. cstr (fst p)) fs = map fst fs" using assms(2) by (auto simp: list_all_iff cstr_id)
  moreover have "sorted (map cmp_key (map fst fs))" using assms(1) by (simp add: fields_ok_def strict_sorted_iff comp_def)
  ultimately show ?thesis by (simp only: sort_key_id_if_sorted)
qed

lemma secret_roundtrip:
  "\<exists>c k'. encode_value nstr ok (Suc left) (secret_of s) k = (Inr c, k') \<and> convert (Suc left) c = Inr (secret_of s)"
  by (simp add: secret_of_def encode_table_def classify_def field_def convert_container_def convert_tagged_def)

lemma map_roundtrip:
  assumes all: "\<And>i. ok i" and fs: "fields_ok fs" "list_all (\<lambda>p. nul_free (fst p)) fs"
    and one: "\<And>p k. p \<in> set fs \<Longrightarrow> \<exists>c k'. encode_value nstr ok left (snd p) k = (Inr c, k') \<and> convert left c = Inr (snd p)"
  shows "\<exists>c k'. encode_value nstr ok (Suc left) (LTab (Some MT_MAP) [] fs False) k = (Inr c, k') \<and>
    convert (Suc left) c = Inr (LTab (Some MT_MAP) [] fs False)"
proof -
  obtain k1 where k1: "grow_keys ok (length fs) 0 8 (Suc k) = Some k1" using grow_keys_ok [of ok] all by blast
  have "\<exists>c k'. encode_value nstr ok left v k = (Inr c, k') \<and> convert left c = Inr v" if "v \<in> set (map snd fs)" for v k
  proof -
    from that obtain p where "p \<in> set fs" "v = snd p" by auto
    with one [of p k] show ?thesis by simp
  qed
  then obtain cs k2 where cs: "encode_items (encode_value nstr ok left) (map snd fs) k1 = (Inr cs, k2)"
      "list_all2 (\<lambda>c v. convert left c = Inr v) cs (map snd fs)"
    using items_roundtrip [of "map snd fs" "encode_value nstr ok left" "convert left" k1] by blast
  have "encode_value nstr ok (Suc left) (LTab (Some MT_MAP) [] fs False) k =
      (Inr (CMap (zip (map CText (map fst fs)) cs) True), k2)"
    using all k1 cs(1) field_own [OF fs(1)] by (simp add: encode_table_def classify_def keys_in_order [OF fs] del: map_map)
  moreover have "convert_fields (convert left) (zip (map CText (map fst fs)) cs) [] = Inr fs"
    using convert_fields_all [OF cs(2), of "[]"] fs(1) by (simp add: comp_def)
  ultimately show ?thesis by (simp add: convert_container_def)
qed

lemma array_roundtrip:
  assumes "\<And>v k. v \<in> set sq \<Longrightarrow> \<exists>c k'. encode_value nstr ok left v k = (Inr c, k') \<and> convert left c = Inr v"
  shows "\<exists>c k'. encode_value nstr ok (Suc left) (LTab (Some MT_ARRAY) sq [] False) k = (Inr c, k') \<and>
    convert (Suc left) c = Inr (LTab (Some MT_ARRAY) sq [] False)"
proof -
  obtain cs k2 where cs: "encode_items (encode_value nstr ok left) sq k = (Inr cs, k2)"
      "list_all2 (\<lambda>c v. convert left c = Inr v) cs sq"
    using items_roundtrip [of sq "encode_value nstr ok left" "convert left" k] assms by blast
  then show ?thesis by (simp add: encode_table_def classify_def convert_container_def convert_items_all)
qed

lemma encode_of_scalar:
  "scalar v \<Longrightarrow> encode_value nstr ok left v k = (encode_scalar v, k)"
  by (cases left; cases v) (simp_all add: scalar_def)

lemma convert_of_scalar: "\<not> is_container c \<Longrightarrow> convert left c = convert_scalar c"
  by (cases left; cases c) (simp_all add: is_container_def convert_container_def)

lemma value_roundtrip:
  assumes "wire nul_free left v" and all: "\<And>i. ok i"
  shows "\<exists>c k'. encode_value nstr ok left v k = (Inr c, k') \<and> convert left c = Inr v"
  using assms(1)
proof (induction left arbitrary: v k)
  case 0
  then show ?case using scalar_roundtrip [of v] encode_of_scalar [of v] convert_of_scalar by fastforce
next
  case (Suc left)
  show ?case
  proof (cases "scalar v")
    case True
    then show ?thesis using scalar_roundtrip [of v] encode_of_scalar [of v] convert_of_scalar by (metis (no_types))
  next
    case False
    with Suc.prems obtain m sq fs oth where v: "v = LTab (Some m) sq fs oth"
      by (auto split: luav.splits option.splits)
    show ?thesis
    proof (cases m)
      case MT_ARRAY
      with v False Suc.prems show ?thesis
        using array_roundtrip [of sq nstr ok left k] Suc.IH by (simp add: list_all_iff)
    next
      case MT_MAP
      with v False Suc.prems have fs: "v = LTab (Some MT_MAP) [] fs False" "fields_ok fs"
          "list_all (\<lambda>p. nul_free (fst p)) fs" "\<forall>p \<in> set fs. wire nul_free left (snd p)"
        by (auto simp: list_all_iff)
      show ?thesis unfolding fs(1)
        by (rule map_roundtrip [OF all fs(2,3)]) (use fs(4) Suc.IH in blast)
    next
      case MT_SECRET
      with v False Suc.prems obtain s where "v = secret_of s" by auto
      then show ?thesis using secret_roundtrip by blast
    qed (use v False Suc.prems in simp)
  qed
qed

section \<open>What decoding yields\<close>

lemma upd_field_ok:
  assumes "fields_ok fs"
  shows "fields_ok (upd_field x v fs)" "set (upd_field x v fs) \<subseteq> insert (x, v) (set fs)"
proof -
  have "fst ` set (upd_field x v fs) \<subseteq> insert x (fst ` set fs)" for fs
    by (induction x v fs rule: upd_field.induct) auto
  then show "fields_ok (upd_field x v fs)" using assms
  proof (induction x v fs rule: upd_field.induct)
    case (2 x v a b fs)
    have "cmp_key x < cmp_key a \<or> x = a \<or> cmp_key a < cmp_key x" using cmp_key_inj [of x a] by (metis linorder_less_linear)
    then consider "cmp_key x < cmp_key a" | "x = a" | "cmp_key a < cmp_key x" "\<not> cmp_key x < cmp_key a" "x \<noteq> a" by fastforce
    then show ?case
    proof cases
      case 3
      then have "fields_ok (upd_field x v fs)" using 2 by (simp add: fields_ok_def)
      with 3 2 show ?thesis by (fastforce simp: fields_ok_def)
    qed (use 2 in \<open>auto simp: fields_ok_def\<close>)
  qed (simp add: fields_ok_def)
  show "set (upd_field x v fs) \<subseteq> insert (x, v) (set fs)"
    by (induction x v fs rule: upd_field.induct) auto
qed

lemma convert_items_wire:
  "convert_items g cs = Inr vs \<Longrightarrow> (\<And>c v. g c = Inr v \<Longrightarrow> P v) \<Longrightarrow> list_all P vs"
proof (induction cs arbitrary: vs)
  case (Cons c cs)
  then obtain v ws where "g c = Inr v" "convert_items g cs = Inr ws" "vs = v # ws"
    by (auto split: sum.splits simp: map_sum_def)
  then show ?case using Cons by simp
qed simp

lemma convert_fields_wire:
  assumes "convert_fields g kcs fs = Inr fs'" "\<And>c v. g c = Inr v \<Longrightarrow> P v"
    "fields_ok fs" "list_all (\<lambda>p. P (snd p)) fs"
  shows "fields_ok fs' \<and> list_all (\<lambda>p. P (snd p)) fs'"
  using assms
proof (induction g kcs fs rule: convert_fields.induct)
  case (2 f k c kcs fs)
  from "2.prems"(1) obtain s v where kv: "k = CText s" "f c = Inr v" "convert_fields f kcs (upd_field s v fs) = Inr fs'"
    by (auto split: cbor.splits sum.splits)
  have "list_all (\<lambda>p. P (snd p)) (upd_field s v fs)"
    using upd_field_ok(2) [OF "2.prems"(3), of s v] "2.prems"(2,4) kv(2) by (auto simp: list_all_iff)
  with "2.IH" [OF kv(1,2) kv(3)] upd_field_ok(1) [OF "2.prems"(3)] "2.prems"(2) show ?case by blast
qed simp

lemma convert_scalar_wire: "convert_scalar c = Inr v \<Longrightarrow> scalar v \<or> (\<exists>s. v = secret_of s)"
  by (cases c) (auto simp: scalar_def convert_tagged_def split: if_splits cbor.splits)

lemma wire_secret: "wire key (Suc left) (secret_of s)"
  by (simp add: secret_of_def field_def)

lemma wire_scalar: "scalar v \<Longrightarrow> wire key left v"
  by (cases left) simp_all

lemma convert_wire: "convert left c = Inr v \<Longrightarrow> wire (\<lambda>_. True) (Suc left) v"
proof (induction left arbitrary: c v)
  case 0
  then have "convert_scalar c = Inr v" by (simp split: if_splits)
  then show ?case using convert_scalar_wire wire_scalar wire_secret by blast
next
  case (Suc left)
  show ?case
  proof (cases "is_container c")
    case False
    then have "convert_scalar c = Inr v" using Suc.prems convert_of_scalar by metis
    then show ?thesis using convert_scalar_wire wire_scalar wire_secret by blast
  next
    case True
    then consider cs e where "c = CArr cs e" | kcs e where "c = CMap kcs e"
      by (auto simp: is_container_def split: cbor.splits)
    then show ?thesis
    proof cases
      case (1 cs e)
      then obtain vs where "convert_items (convert left) cs = Inr vs" "v = LTab (Some MT_ARRAY) vs [] False"
        using Suc.prems by (auto simp: convert_container_def split: sum.splits if_splits)
      then show ?thesis using convert_items_wire [of "convert left" cs vs "wire (\<lambda>_. True) (Suc left)"] Suc.IH
        by (simp del: wire.simps(2) add: wire.simps(2) [of _ "Suc left"])
    next
      case (2 kcs e)
      then obtain fs where "convert_fields (convert left) kcs [] = Inr fs" "v = LTab (Some MT_MAP) [] fs False"
        using Suc.prems by (auto simp: convert_container_def split: sum.splits if_splits)
      then show ?thesis using convert_fields_wire [of "convert left" kcs "[]" fs "wire (\<lambda>_. True) (Suc left)"] Suc.IH
        by (simp del: wire.simps(2) add: wire.simps(2) [of _ "Suc left"] fields_ok_def)
    qed
  qed
qed

section \<open>The encoding always ends\<close>

text \<open>What a value is written as does not depend on where in the allocations it starts.\<close>

definition settled :: "('a \<Rightarrow> nat \<Rightarrow> (cstring + 'b) \<times> nat) \<Rightarrow> bool" where
  "settled f \<longleftrightarrow> (\<forall>v k k' c c'. fst (f v k) = Inr c \<longrightarrow> fst (f v k') = Inr c' \<longrightarrow> c = c')"

lemma encode_items_settled:
  assumes "settled f"
  shows "settled (encode_items f)"
proof -
  have "c = c'" if "fst (encode_items f vs k) = Inr c" "fst (encode_items f vs k') = Inr c'" for vs k k' c c'
    using that
  proof (induction vs arbitrary: k k' c c')
    case (Cons v vs)
    obtain a b i where "f v k = (Inr a, i)" "fst (encode_items f vs i) = Inr b" "c = a # b"
      using Cons.prems(1) by (auto split: prod.splits sum.splits simp: map_sum_def)
    moreover obtain a' b' i' where "f v k' = (Inr a', i')" "fst (encode_items f vs i') = Inr b'" "c' = a' # b'"
      using Cons.prems(2) by (auto split: prod.splits sum.splits simp: map_sum_def)
    moreover have "a = a'" using assms calculation unfolding settled_def by (metis fst_conv)
    ultimately show ?case using Cons.IH by blast
  qed simp
  then show ?thesis unfolding settled_def by blast
qed

lemma settledD: "settled f \<Longrightarrow> f v k = (Inr c, i) \<Longrightarrow> f v k' = (Inr c', i') \<Longrightarrow> c = c'"
  unfolding settled_def by (metis fst_conv)

lemma encode_table_settled:
  assumes f: "settled f" and t: "encode_table nstr ok f m sq fs oth k = (Inr c, i)" "encode_table nstr ok f m sq fs oth k' = (Inr c', i')"
  shows "c = c'"
proof (cases "classify m sq")
  case K_ARRAY
  obtain cs cs' where "encode_items f sq k = (Inr cs, i)" "c = CArr cs True" "encode_items f sq k' = (Inr cs', i')" "c' = CArr cs' True"
    using t K_ARRAY by (auto simp: encode_table_def map_sum_def split: prod.splits sum.splits)
  then show ?thesis using settledD [OF encode_items_settled [OF f]] by blast
next
  case K_MAP
  define keys where "keys = sort_key cmp_key (map (\<lambda>p. cstr (fst p)) fs)"
  have "\<exists>j cs. encode_items f (map (field fs) keys) j = (Inr cs, l) \<and> d = CMap (zip (map CText keys) cs) True"
    if "encode_table nstr ok f m sq fs oth q = (Inr d, l)" for q d l
    using that K_MAP by (auto simp: encode_table_def keys_def Let_def map_sum_def split: prod.splits sum.splits if_splits option.splits)
  then obtain j cs j' cs' where "encode_items f (map (field fs) keys) j = (Inr cs, i)" "c = CMap (zip (map CText keys) cs) True"
      "encode_items f (map (field fs) keys) j' = (Inr cs', i')" "c' = CMap (zip (map CText keys) cs') True"
    using t by meson
  then show ?thesis using settledD [OF encode_items_settled [OF f]] by blast
next
  case K_SECRET
  then show ?thesis using t by (auto simp: encode_table_def split: luav.splits)
qed

lemma encode_value_settled: "settled (encode_value nstr ok left)"
proof (induction left)
  case 0
  show ?case by (auto simp: settled_def split: luav.splits)
next
  case (Suc left)
  have "c = c'" if "encode_value nstr ok (Suc left) v k = (Inr c, i)" "encode_value nstr ok (Suc left) v k' = (Inr c', i')"
    for v k k' c c' i i'
  proof (cases v)
    case (LTab m sq fs oth)
    then show ?thesis using encode_table_settled [OF Suc.IH] that by simp
  qed (use that in simp_all)
  then show ?case unfolding settled_def by (metis prod.collapse)
qed

definition encoded :: "(dbl \<Rightarrow> byte list) \<Rightarrow> (nat \<Rightarrow> bool) \<Rightarrow> (cbor \<Rightarrow> byte list) \<Rightarrow> luav \<Rightarrow> cstring + byte list \<Rightarrow> bool" where
  "encoded nstr ok bytes v r =
     (case r of
        Inl e \<Rightarrow> (\<exists>k. \<not> ok k) \<and> e = ''out of memory'' \<or> (\<exists>k. fst (encode_value nstr ok QWE_LUA_MAX_DEPTH v k) = Inl e)
      | Inr b \<Rightarrow> \<exists>c k. fst (encode_value nstr ok QWE_LUA_MAX_DEPTH v k) = Inr c \<and> b = bytes c)"

lemma to_cbor_loop_step:
  assumes "\<And>c i. encode_value nstr ok QWE_LUA_MAX_DEPTH v (Suc k) = (Inr c, i) \<Longrightarrow> cap < length (bytes c) \<Longrightarrow>
    \<exists>r. to_cbor_loop nstr ok bytes v (cap * 2) i = Some r \<and> encoded nstr ok bytes v r"
  shows "\<exists>r. to_cbor_loop nstr ok bytes v cap k = Some r \<and> encoded nstr ok bytes v r"
proof -
  obtain r i where r: "encode_value nstr ok QWE_LUA_MAX_DEPTH v (Suc k) = (r, i)" by fastforce
  then have f: "fst (encode_value nstr ok QWE_LUA_MAX_DEPTH v (Suc k)) = r" by simp
  show ?thesis
  proof (cases "ok k")
    case False
    then have "encoded nstr ok bytes v (Inl ''out of memory'')" by (auto simp: encoded_def)
    then show ?thesis using False by (simp add: to_cbor_loop.simps)
  next
    case True
    show ?thesis
    proof (cases r)
      case (Inl e)
      then have "encoded nstr ok bytes v (Inl e)" using f by (auto simp: encoded_def)
      then show ?thesis using r Inl True by (simp add: to_cbor_loop.simps)
    next
      case (Inr c)
      then have "encoded nstr ok bytes v (Inr (bytes c))" using f by (auto simp: encoded_def)
      then show ?thesis using r Inr True assms by (subst to_cbor_loop.simps) auto
    qed
  qed
qed

lemma to_cbor_loop_ends:
  assumes "\<And>k c. fst (encode_value nstr ok QWE_LUA_MAX_DEPTH v k) = Inr c \<Longrightarrow> length (bytes c) \<le> cap * 2 ^ n"
  shows "\<exists>r. to_cbor_loop nstr ok bytes v cap k = Some r \<and> encoded nstr ok bytes v r"
  using assms
proof (induction n arbitrary: cap k)
  case 0
  show ?case by (rule to_cbor_loop_step) (use 0 [of "Suc k"] in fastforce)
next
  case (Suc n)
  show ?case by (rule to_cbor_loop_step) (rule Suc.IH, use Suc.prems in \<open>simp add: mult.assoc\<close>)
qed

lemma qwe_lua_to_cbor_ends: "\<exists>r. qwe_lua_to_cbor nstr ok bytes v = Some r \<and> encoded nstr ok bytes v r"
proof -
  obtain n where n: "\<And>k c. fst (encode_value nstr ok QWE_LUA_MAX_DEPTH v k) = Inr c \<Longrightarrow> length (bytes c) \<le> 256 * 2 ^ n"
  proof (cases "\<exists>k c. fst (encode_value nstr ok QWE_LUA_MAX_DEPTH v k) = Inr c")
    case True
    then obtain k c where kc: "fst (encode_value nstr ok QWE_LUA_MAX_DEPTH v k) = Inr c" by blast
    have "length (bytes c') \<le> 256 * 2 ^ length (bytes c)"
      if "fst (encode_value nstr ok QWE_LUA_MAX_DEPTH v k') = Inr c'" for k' c'
    proof -
      have "c' = c" using encode_value_settled kc that unfolding settled_def by blast
      moreover have "length (bytes c) \<le> 256 * 2 ^ length (bytes c)"
        using less_exp [of "length (bytes c)"] by linarith
      ultimately show ?thesis by (simp only:)
    qed
    then show ?thesis by (rule that)
  qed (use that in blast)
  show ?thesis unfolding qwe_lua_to_cbor_def by (rule to_cbor_loop_ends [of nstr ok v bytes 256 n, OF n])
qed

section \<open>Properties\<close>

text \<open>Encoding a Lua value always returns: the buffer stops doubling. What comes back is the bytes
  of the one item the value encodes to, wherever the allocations stand; and an error is either memory
  that was not there or one the value itself has.
\<close>

lemma lua_to_cbor_returns:
  "\<exists>r. qwe_lua_to_cbor nstr ok bytes v = Some r \<and>
     (case r of
        Inl e \<Rightarrow> (\<exists>k. \<not> ok k) \<and> e = ''out of memory'' \<or> (\<exists>k. fst (encode_value nstr ok QWE_LUA_MAX_DEPTH v k) = Inl e)
      | Inr b \<Rightarrow> \<exists>c. b = bytes c \<and> Inr c \<in> range (\<lambda>k. fst (encode_value nstr ok QWE_LUA_MAX_DEPTH v k)) \<and>
          (\<forall>k. fst (encode_value nstr ok QWE_LUA_MAX_DEPTH v k) \<in> insert (Inr c) (range Inl)))"
proof -
  obtain r where r: "qwe_lua_to_cbor nstr ok bytes v = Some r" "encoded nstr ok bytes v r"
    using qwe_lua_to_cbor_ends by blast
  show ?thesis
  proof (cases r)
    case (Inr b)
    then obtain c k where c: "fst (encode_value nstr ok QWE_LUA_MAX_DEPTH v k) = Inr c" "b = bytes c"
      using r(2) by (auto simp: encoded_def)
    have one: "fst (encode_value nstr ok QWE_LUA_MAX_DEPTH v k') \<in> insert (Inr c) (range Inl)" for k'
    proof (cases "fst (encode_value nstr ok QWE_LUA_MAX_DEPTH v k')")
      case (Inr c')
      then show ?thesis using encode_value_settled c(1) unfolding settled_def by fastforce
    qed simp
    have "Inr c \<in> range (\<lambda>k. fst (encode_value nstr ok QWE_LUA_MAX_DEPTH v k))" using c(1) by (metis rangeI)
    then show ?thesis using r(1) Inr one c(2) by auto
  qed (use r in \<open>simp add: encoded_def\<close>)
qed

text \<open>C23. A value that a document can hold, the keys of its maps without NUL, is encoded when there is
  memory, and the item that is written reads back as the value: the integers, the doubles, the nulls,
  the secrets, the order of arrays and the keys of maps all return as they were.
\<close>

theorem cbor_roundtrip:
  assumes "wire nul_free QWE_LUA_MAX_DEPTH v" and "\<forall>i. ok i"
  shows "\<exists>c. qwe_lua_to_cbor nstr ok bytes v = Some (Inr (bytes c)) \<and> convert QWE_LUA_MAX_DEPTH c = Inr v \<and>
    (cursor (bytes c) = Some c \<longrightarrow> qwe_cbor_to_lua cursor (bytes c) = Inr v)"
proof -
  have rt: "\<exists>c. fst (encode_value nstr ok QWE_LUA_MAX_DEPTH v k) = Inr c \<and> convert QWE_LUA_MAX_DEPTH c = Inr v" for k
    using value_roundtrip [OF assms(1), of ok nstr k] assms(2) by (metis fst_conv)
  obtain r where r: "qwe_lua_to_cbor nstr ok bytes v = Some r" "encoded nstr ok bytes v r"
    using qwe_lua_to_cbor_ends by blast
  have "r \<noteq> Inl e" for e
  proof
    assume "r = Inl e"
    then obtain k where "fst (encode_value nstr ok QWE_LUA_MAX_DEPTH v k) = Inl e"
      using r(2) assms(2) by (auto simp: encoded_def)
    then show False using rt [of k] by simp
  qed
  then obtain b where b: "r = Inr b" by (cases r) auto
  then obtain c k where c: "fst (encode_value nstr ok QWE_LUA_MAX_DEPTH v k) = Inr c" "b = bytes c"
    using r(2) by (auto simp: encoded_def)
  have "convert QWE_LUA_MAX_DEPTH c = Inr v" using rt [of k] c(1) by simp
  then show ?thesis using r(1) b c(2) by (auto simp: qwe_cbor_to_lua_def)
qed

definition sample_value :: luav where
  "sample_value = LTab (Some MT_MAP) []
     [(''key'', secret_of ''s3cret''), (''retries'', LTab (Some MT_ARRAY) [LNum (Fin 3), LLight True, LNum NaN] [] False)] False"

lemma max_depth_Suc: "QWE_LUA_MAX_DEPTH = Suc (Suc (Suc 61))"
  by (simp add: QWE_LUA_MAX_DEPTH_def)

theorem cbor_roundtrip_witness:
  "\<exists>c. qwe_lua_to_cbor (\<lambda>_. ''3'') (\<lambda>_. True) (\<lambda>_. ''encoded'') sample_value = Some (Inr ''encoded'') \<and>
     qwe_cbor_to_lua (\<lambda>_. Some c) ''encoded'' = Inr sample_value"
proof -
  have "wire nul_free QWE_LUA_MAX_DEPTH sample_value"
    unfolding max_depth_Suc sample_value_def wire.simps(2)
    by (simp add: wire_scalar scalar_def fields_ok_def nul_free_def cmp_key_def secret_of_def field_def)
  from cbor_roundtrip [OF this, of "\<lambda>_. True" "\<lambda>_. ''3''" "\<lambda>_. ''encoded''"] show ?thesis
    by (auto simp: qwe_cbor_to_lua_def)
qed

text \<open>C24. Decoding yields only values of the wire: scalars, arrays without fields, maps whose keys are
  distinct and ordered, secrets with their one field, at most one level deeper than the limit.
\<close>

theorem cbor_decoded_values:
  assumes "qwe_cbor_to_lua cursor buf = Inr v"
  shows "wire (\<lambda>_. True) (Suc QWE_LUA_MAX_DEPTH) v"
  using assms convert_wire by (simp add: qwe_cbor_to_lua_def split: option.splits del: wire.simps)

theorem cbor_decoded_values_witness:
  "wire (\<lambda>_. True) (Suc QWE_LUA_MAX_DEPTH) (secret_of ''s3cret'')"
proof -
  have "qwe_cbor_to_lua (\<lambda>b. Some (CTag QWE_SECRET_TAG (CText b))) ''s3cret'' = Inr (secret_of ''s3cret'')"
    unfolding qwe_cbor_to_lua_def max_depth_Suc convert.simps(2)
    by (simp add: convert_container_def convert_tagged_def)
  then show ?thesis by (rule cbor_decoded_values)
qed

section \<open>Where the two directions differ\<close>

text \<open>
  A secret at the limit is decoded, since it is no container of CBOR, and is refused when it is
  encoded, since it is a table of Lua.
\<close>

lemma secret_at_the_limit:
  "convert 0 (CTag QWE_SECRET_TAG (CText s)) = Inr (secret_of s) \<and>
   encode_value nstr ok 0 (secret_of s) k = (Inl ''nesting too deep'', k)"
  by (simp add: is_container_def convert_tagged_def secret_of_def)

text \<open>
  Two keys that agree up to a NUL are decoded apart, and written back as one key twice, with the value
  of the shorter.
\<close>

definition nul_map :: "cbor" where
  "nul_map = CMap [(CText ''a'', CBool True), (CText [CHR ''a'', CHR 0x00, CHR ''b''], CBool False)] True"

lemma nul_keys_collide:
  "\<exists>v. convert (Suc (Suc left)) nul_map = Inr v \<and>
     encode_value nstr (\<lambda>_. True) (Suc (Suc left)) v 0 = (Inr (CMap [(CText ''a'', CBool True), (CText ''a'', CBool True)] True), 1)"
  by (simp add: nul_map_def convert_container_def encode_table_def classify_def cstr_def cmp_key_def field_def
    encode_scalar_def)

end
