(* ===== verification/Yaml.thy ===== *)
theory Yaml
  imports Positions Cbor
begin

text \<open>
  From YAML to CBOR (\<open>src/edge/yaml/transcode.c\<close>): the events of the parser drive a stack of open
  containers, which writes CBOR and keeps the positions. libyaml is a parameter, the events it reports
  and how they end; tinycbor is one, the bytes of a sequence of its calls.
\<close>

section \<open>Events and calls\<close>

record mark =
  mk_line :: nat
  mk_col :: nat

datatype yevent =
    YAML_DOCUMENT_START_EVENT mark
  | YAML_ALIAS_EVENT mark
  | YAML_SCALAR_EVENT mark "cstring option" "cstring option" bool "byte list"
  | YAML_START_EVENT bool mark "cstring option" "cstring option"
  | YAML_END_EVENT bool mark
  | YAML_OTHER_EVENT

text \<open>How the events end: the end of the stream, no memory, or a problem at its mark.\<close>

datatype yend = YAML_STREAM_END | YAML_MEMORY_ERROR | YAML_PROBLEM mark "cstring option"

text \<open>The calls of the encoder; the flag of an opened container says that it is a map.\<close>

datatype tok =
  T_NULL | T_BOOL bool | T_INT int | T_DOUBLE dbl | T_TEXT "byte list" | T_TAG nat | T_OPEN bool | T_CLOSE

datatype yrc = Y_OK | Y_ERR | Y_NOMEM

definition ENCRYPTED_TAG :: cstring where "ENCRYPTED_TAG = ''!encrypted''"
definition QWE_YAML_MAX_DEPTH :: nat where "QWE_YAML_MAX_DEPTH = 64"
definition QWE_YAML_MAX_SIZE :: nat where "QWE_YAML_MAX_SIZE = 1024 * 1024"
definition CBOR_MAX_SIZE :: nat where "CBOR_MAX_SIZE = QWE_YAML_MAX_SIZE * 64"

text \<open>
  The surroundings: which allocations succeed, the bytes of a sequence of calls, and how a decimal
  fraction is rounded to a double.
\<close>

record yenv =
  ye_ok :: "nat \<Rightarrow> bool"
  ye_bytes :: "tok list \<Rightarrow> byte list"
  ye_round :: "rat \<Rightarrow> dbl"

text \<open>
  The context. \<open>cx_path\<close> is the pointer up to \<open>path_len\<close>; \<open>cx_out\<close> the calls made and \<open>cx_cap\<close> the
  size of the buffer they go to; \<open>cx_k\<close> counts the allocations.
\<close>

record ctx =
  cx_depth :: nat
  cx_is_map :: "bool list"
  cx_expect_key :: "bool list"
  cx_have_root :: bool
  cx_err :: cstring
  cx_err_size :: nat
  cx_pos :: qwe_positions
  cx_path :: "byte list"
  cx_path_cap :: nat
  cx_container_len :: "nat list"
  cx_next_index :: "nat list"
  cx_key_entry :: "int list"
  cx_out :: "tok list"
  cx_cap :: nat
  cx_k :: nat

definition ctx_new :: "nat \<Rightarrow> nat \<Rightarrow> ctx" where
  "ctx_new err_size k =
     \<lparr>cx_depth = 0, cx_is_map = replicate (QWE_YAML_MAX_DEPTH + 1) False,
      cx_expect_key = replicate (QWE_YAML_MAX_DEPTH + 1) False, cx_have_root = False, cx_err = [],
      cx_err_size = err_size, cx_pos = \<lparr>ps_e = [], ps_cap = 0\<rparr>, cx_path = [], cx_path_cap = 0,
      cx_container_len = replicate (QWE_YAML_MAX_DEPTH + 2) 0, cx_next_index = replicate (QWE_YAML_MAX_DEPTH + 2) 0,
      cx_key_entry = replicate (QWE_YAML_MAX_DEPTH + 2) 0, cx_out = [], cx_cap = 0, cx_k = k\<rparr>"

definition set_err :: "ctx \<Rightarrow> cstring \<Rightarrow> ctx" where
  "set_err c msg = c\<lparr>cx_err := take (cx_err_size c - 1) msg\<rparr>"

definition fail_text :: "mark \<Rightarrow> cstring \<Rightarrow> cstring" where
  "fail_text m msg = nat_dec (mk_line m + 1) @ '':'' @ nat_dec (mk_col m + 1) @ '': '' @ msg"

definition fail :: "ctx \<Rightarrow> mark \<Rightarrow> cstring \<Rightarrow> yrc \<times> ctx" where
  "fail c m msg = (Y_ERR, set_err c (fail_text m msg))"

definition to_pos :: "mark \<Rightarrow> qwe_pos" where
  "to_pos m = \<lparr>ps_line = (mk_line m mod 2 ^ 32 + 1) mod 2 ^ 32, ps_col = (mk_col m mod 2 ^ 32 + 1) mod 2 ^ 32\<rparr>"

definition oom :: "ctx \<Rightarrow> yrc \<times> ctx" where
  "oom c = (Y_ERR, set_err c ''out of memory'')"

text \<open>A call of the encoder: it counts even when the buffer has no room for it.\<close>

definition put_tok :: "yenv \<Rightarrow> tok \<Rightarrow> ctx \<Rightarrow> yrc \<times> ctx" where
  "put_tok e t c =
     (let out = cx_out c @ [t]
      in (if length (ye_bytes e out) \<le> cx_cap c then Y_OK else Y_NOMEM, c\<lparr>cx_out := out\<rparr>))"

definition y_then :: "yrc \<times> ctx \<Rightarrow> (ctx \<Rightarrow> yrc \<times> ctx) \<Rightarrow> yrc \<times> ctx" where
  "y_then r f = (case r of (rc, c) \<Rightarrow> if rc = Y_OK then f c else (rc, c))"

section \<open>The JSON pointer\<close>

definition path_append :: "yenv \<Rightarrow> ctx \<Rightarrow> byte list \<Rightarrow> yrc \<times> ctx" where
  "path_append e c s =
     (let need = length (cx_path c) + length s + 1
      in if need > cx_path_cap c
         then let cap = grow_cap (if cx_path_cap c \<noteq> 0 then cx_path_cap c * 2 else 128) need
              in if ye_ok e (cx_k c)
                 then (Y_OK, c\<lparr>cx_path := cx_path c @ s, cx_path_cap := cap, cx_k := Suc (cx_k c)\<rparr>)
                 else oom (c\<lparr>cx_k := Suc (cx_k c)\<rparr>)
         else (Y_OK, c\<lparr>cx_path := cx_path c @ s\<rparr>))"

definition key_char :: "byte \<Rightarrow> byte list" where
  "key_char ch = (if ch = CHR ''~'' then ''~0'' else if ch = CHR ''/'' then ''~1'' else [ch])"

fun push_chars :: "yenv \<Rightarrow> byte list \<Rightarrow> ctx \<Rightarrow> yrc \<times> ctx" where
  "push_chars e [] c = (Y_OK, c)"
| "push_chars e (ch # key) c = y_then (path_append e c (key_char ch)) (push_chars e key)"

definition path_push_key :: "yenv \<Rightarrow> ctx \<Rightarrow> byte list \<Rightarrow> yrc \<times> ctx" where
  "path_push_key e c key = y_then (path_append e c ''/'') (push_chars e key)"

definition path_push_index :: "yenv \<Rightarrow> ctx \<Rightarrow> nat \<Rightarrow> yrc \<times> ctx" where
  "path_push_index e c i = path_append e c (CHR ''/'' # nat_dec i)"

definition path_reset :: "ctx \<Rightarrow> ctx" where
  "path_reset c = c\<lparr>cx_path := if cx_depth c > 0 then take (cx_container_len c ! cx_depth c) (cx_path c) else []\<rparr>"

definition add_position :: "yenv \<Rightarrow> byte list \<Rightarrow> qwe_pos option \<Rightarrow> qwe_pos option \<Rightarrow> ctx \<Rightarrow> int \<times> ctx" where
  "add_position e pointer key val c =
     (case qwe_positions_add (ye_ok e) (cx_pos c) pointer key val (cx_k c) of
        (r, p, k) \<Rightarrow> (case r of None \<Rightarrow> -1 | Some i \<Rightarrow> int i, c\<lparr>cx_pos := p, cx_k := k\<rparr>))"

definition note_value :: "yenv \<Rightarrow> ctx \<Rightarrow> mark \<Rightarrow> yrc \<times> ctx" where
  "note_value e c m =
     (let d = cx_depth c
      in if d = 0
         then (case add_position e [] None (Some (to_pos m)) (c\<lparr>cx_path := []\<rparr>) of
                 (i, c1) \<Rightarrow> if i < 0 then oom c1 else (Y_OK, c1))
         else if cx_is_map c ! d
         then (Y_OK, c\<lparr>cx_pos := qwe_positions_set_value (cx_pos c) (nat (cx_key_entry c ! d)) (to_pos m)\<rparr>)
         else y_then
           (path_push_index e ((path_reset c)\<lparr>cx_next_index := (cx_next_index c)[d := cx_next_index c ! d + 1]\<rparr>)
             (cx_next_index c ! d))
           (\<lambda>c1. case add_position e (cx_path c1) None (Some (to_pos m)) c1 of
                   (i, c2) \<Rightarrow> if i < 0 then oom c2 else (Y_OK, c2)))"

definition note_key :: "yenv \<Rightarrow> ctx \<Rightarrow> mark \<Rightarrow> byte list \<Rightarrow> yrc \<times> ctx" where
  "note_key e c m key =
     y_then (path_push_key e (path_reset c) key)
       (\<lambda>c1. case add_position e (cx_path c1) (Some (to_pos m)) None c1 of
          (i, c2) \<Rightarrow>
            let c3 = c2\<lparr>cx_key_entry := (cx_key_entry c2)[cx_depth c2 := i]\<rparr>
            in if i < 0 then oom c3 else (Y_OK, c3))"

section \<open>Scalars\<close>

definition skip_sign :: "byte list \<Rightarrow> byte list" where
  "skip_sign s = (case s of [] \<Rightarrow> [] | ch # t \<Rightarrow> if ch = CHR ''-'' \<or> ch = CHR ''+'' then t else s)"

definition is_int :: "byte list \<Rightarrow> bool" where
  "is_int s = (let t = skip_sign s in t \<noteq> [] \<and> length t \<le> 18 \<and> list_all is_digit t)"

text \<open>The digits before and after the point, whether there is a point, and what follows.\<close>

definition float_mantissa :: "byte list \<Rightarrow> byte list \<times> byte list \<times> bool \<times> byte list" where
  "float_mantissa s =
     (let t = skip_sign s; a = takeWhile is_digit t; r = dropWhile is_digit t
      in if r \<noteq> [] \<and> hd r = CHR ''.''
         then (a, takeWhile is_digit (tl r), True, dropWhile is_digit (tl r))
         else (a, [], False, r))"

definition exp_start :: "byte list \<Rightarrow> bool" where
  "exp_start r \<longleftrightarrow> r \<noteq> [] \<and> (hd r = CHR ''e'' \<or> hd r = CHR ''E'')"

definition is_float :: "byte list \<Rightarrow> bool" where
  "is_float s =
     (case float_mantissa s of (a, b, dot, r) \<Rightarrow>
        if a = [] \<and> b = [] then False
        else if exp_start r
        then let x = skip_sign (tl r) in takeWhile is_digit x \<noteq> [] \<and> dropWhile is_digit x = []
        else r = [] \<and> dot)"

text \<open>The values \<open>strtoll\<close> and \<open>strtod\<close> give for them; the second before it is rounded.\<close>

definition negative :: "byte list \<Rightarrow> bool" where
  "negative s \<longleftrightarrow> s \<noteq> [] \<and> hd s = CHR ''-''"

definition int_value :: "byte list \<Rightarrow> int" where
  "int_value s = (if negative s then - int (dec_value (skip_sign s)) else int (dec_value (skip_sign s)))"

definition exp_value :: "byte list \<Rightarrow> rat" where
  "exp_value r =
     (if exp_start r
      then let n = dec_value (skip_sign (tl r)) in if negative (tl r) then 1 / 10 ^ n else 10 ^ n
      else 1)"

definition float_value :: "byte list \<Rightarrow> rat" where
  "float_value s =
     (case float_mantissa s of (a, b, dot, r) \<Rightarrow>
        (if negative s then -1 else 1) * (of_nat (dec_value (a @ b)) / 10 ^ length b) * exp_value r)"

definition is_null :: "byte list \<Rightarrow> bool" where
  "is_null v \<longleftrightarrow> v = [] \<or> v \<in> {''~'', ''null'', ''Null'', ''NULL''}"

definition plain_tok :: "yenv \<Rightarrow> byte list \<Rightarrow> tok" where
  "plain_tok e v =
     (if is_null v then T_NULL
      else if v \<in> {''true'', ''True'', ''TRUE''} then T_BOOL True
      else if v \<in> {''false'', ''False'', ''FALSE''} then T_BOOL False
      else if is_int v then T_INT (int_value v)
      else if is_float v then T_DOUBLE (ye_round e (float_value v))
      else T_TEXT v)"

definition scalar_event ::
    "yenv \<Rightarrow> ctx \<Rightarrow> mark \<Rightarrow> cstring option \<Rightarrow> bool \<Rightarrow> byte list \<Rightarrow> bool \<Rightarrow> yrc \<times> ctx" where
  "scalar_event e c m tag plain v as_key =
     (case tag of
        Some t \<Rightarrow>
          if as_key \<or> t \<noteq> ENCRYPTED_TAG then fail c m ''unknown tag''
          else y_then (put_tok e (T_TAG QWE_SECRET_TAG) c) (put_tok e (T_TEXT v))
      | None \<Rightarrow> put_tok e (if \<not> as_key \<and> plain then plain_tok e v else T_TEXT v) c)"

section \<open>Events\<close>

definition open_container :: "yenv \<Rightarrow> ctx \<Rightarrow> mark \<Rightarrow> bool \<Rightarrow> yrc \<times> ctx" where
  "open_container e c m mp =
     (if cx_depth c \<ge> QWE_YAML_MAX_DEPTH then fail c m ''nesting too deep''
      else case put_tok e (T_OPEN mp) c of
        (rc, c1) \<Rightarrow>
          let d = Suc (cx_depth c1)
          in (rc, c1\<lparr>cx_depth := d, cx_is_map := (cx_is_map c1)[d := mp], cx_expect_key := (cx_expect_key c1)[d := True],
                cx_container_len := (cx_container_len c1)[d := length (cx_path c1)],
                cx_next_index := (cx_next_index c1)[d := 0]\<rparr>))"

definition value_done :: "ctx \<Rightarrow> ctx" where
  "value_done c =
     (let d = cx_depth c
      in if d > 0 \<and> cx_is_map c ! d then c\<lparr>cx_expect_key := (cx_expect_key c)[d := \<not> cx_expect_key c ! d]\<rparr> else c)"

definition tag_text :: "cstring \<Rightarrow> cstring" where
  "tag_text t = take 127 (''unknown tag '' @ take 80 t)"

definition check_props :: "ctx \<Rightarrow> mark \<Rightarrow> cstring option \<Rightarrow> cstring option \<Rightarrow> bool \<Rightarrow> yrc \<times> ctx" where
  "check_props c m anchor tag tag_ok =
     (if anchor \<noteq> None then fail c m ''anchors are not supported''
      else case tag of
        None \<Rightarrow> (Y_OK, c)
      | Some t \<Rightarrow> if tag_ok \<and> t = ENCRYPTED_TAG then (Y_OK, c) else fail c m (tag_text t))"

definition is_key :: "ctx \<Rightarrow> bool" where
  "is_key c \<longleftrightarrow> cx_depth c > 0 \<and> cx_is_map c ! cx_depth c \<and> cx_expect_key c ! cx_depth c"

definition on_scalar ::
    "yenv \<Rightarrow> ctx \<Rightarrow> mark \<Rightarrow> cstring option \<Rightarrow> cstring option \<Rightarrow> bool \<Rightarrow> byte list \<Rightarrow> yrc \<times> ctx" where
  "on_scalar e c m anchor tag plain v =
     y_then (check_props c m anchor tag (\<not> is_key c))
       (\<lambda>c. if is_key c \<and> plain \<and> v = ''<<'' then fail c m ''merge keys are not supported''
            else case y_then (if is_key c then note_key e c m v else note_value e c m)
                        (\<lambda>c1. scalar_event e c1 m tag plain v (is_key c)) of
                   (rc, c2) \<Rightarrow> (rc, value_done (c2\<lparr>cx_have_root := True\<rparr>)))"

definition on_start ::
    "yenv \<Rightarrow> ctx \<Rightarrow> bool \<Rightarrow> mark \<Rightarrow> cstring option \<Rightarrow> cstring option \<Rightarrow> yrc \<times> ctx" where
  "on_start e c mp m anchor tag =
     y_then (check_props c m anchor tag False)
       (\<lambda>c. if is_key c then fail c m ''map keys must be scalars''
            else if cx_depth c \<ge> QWE_YAML_MAX_DEPTH then fail c m ''nesting too deep''
            else case y_then (note_value e c m) (\<lambda>c1. open_container e c1 m mp) of
                   (rc, c2) \<Rightarrow> (rc, c2\<lparr>cx_have_root := True\<rparr>))"

definition on_end :: "yenv \<Rightarrow> ctx \<Rightarrow> bool \<Rightarrow> mark \<Rightarrow> yrc \<times> ctx" where
  "on_end e c mp m =
     (if cx_depth c = 0 \<or> mp \<noteq> cx_is_map c ! cx_depth c then fail c m ''unbalanced end of a map or sequence''
      else case put_tok e T_CLOSE (c\<lparr>cx_depth := cx_depth c - 1\<rparr>) of (rc, c1) \<Rightarrow> (rc, value_done c1))"

fun handle_event :: "yenv \<Rightarrow> ctx \<Rightarrow> nat \<Rightarrow> yevent \<Rightarrow> (yrc \<times> ctx) \<times> nat" where
  "handle_event e c docs (YAML_DOCUMENT_START_EVENT m) =
     (if docs + 1 > 1 then fail c m ''more than one YAML document'' else (Y_OK, c), docs + 1)"
| "handle_event e c docs (YAML_ALIAS_EVENT m) = (fail c m ''aliases are not supported'', docs)"
| "handle_event e c docs (YAML_SCALAR_EVENT m anchor tag plain v) = (on_scalar e c m anchor tag plain v, docs)"
| "handle_event e c docs (YAML_START_EVENT mp m anchor tag) = (on_start e c mp m anchor tag, docs)"
| "handle_event e c docs (YAML_END_EVENT mp m) = (on_end e c mp m, docs)"
| "handle_event e c docs YAML_OTHER_EVENT = ((Y_OK, c), docs)"

fun event_loop :: "yenv \<Rightarrow> yevent list \<Rightarrow> ctx \<Rightarrow> nat \<Rightarrow> yrc \<times> ctx" where
  "event_loop e [] c docs = (Y_OK, c)"
| "event_loop e (ev # evs) c docs =
     (case handle_event e c docs ev of ((rc, c1), docs1) \<Rightarrow> if rc = Y_OK then event_loop e evs c1 docs1 else (rc, c1))"

definition on_yend :: "yend \<Rightarrow> ctx \<Rightarrow> yrc \<times> ctx" where
  "on_yend en c =
     (case en of
        YAML_STREAM_END \<Rightarrow> (Y_OK, c)
      | YAML_MEMORY_ERROR \<Rightarrow> oom c
      | YAML_PROBLEM m problem \<Rightarrow> fail c m (case problem of None \<Rightarrow> ''invalid YAML'' | Some t \<Rightarrow> t))"

section \<open>Documents\<close>

text \<open>
  One pass. \<open>parse\<close> is what the parser reports from the allocations made so far on: \<open>None\<close> when it
  cannot be set up.
\<close>

definition reset_ctx :: "ctx \<Rightarrow> ctx" where
  "reset_ctx c = c\<lparr>cx_is_map := replicate (QWE_YAML_MAX_DEPTH + 1) False, cx_depth := 0, cx_have_root := False, cx_path := []\<rparr>"

definition start_ctx :: "qwe_positions \<Rightarrow> nat \<Rightarrow> ctx \<Rightarrow> ctx" where
  "start_ctx p cap c = (reset_ctx c)\<lparr>cx_pos := p, cx_k := Suc (cx_k c), cx_out := [], cx_cap := cap\<rparr>"

definition encode :: "yenv \<Rightarrow> (nat \<Rightarrow> (yevent list \<times> yend) option) \<Rightarrow> nat \<Rightarrow> ctx \<Rightarrow> yrc \<times> ctx" where
  "encode e parse cap c =
     (case qwe_positions_new (ye_ok e) (cx_k c) of
        None \<Rightarrow> oom ((reset_ctx c)\<lparr>cx_k := Suc (cx_k c)\<rparr>)
      | Some p \<Rightarrow>
          case parse (Suc (cx_k c)) of
            None \<Rightarrow> oom (start_ctx p cap c)
          | Some (evs, en) \<Rightarrow>
              y_then (y_then (event_loop e evs (start_ctx p cap c) 0) (on_yend en))
                (\<lambda>c. if \<not> cx_have_root c then (Y_ERR, set_err c ''1:1: empty document'') else (Y_OK, c)))"

lemma doublings_bounded:
  assumes "\<not> CBOR_MAX_SIZE < (len * 2 + 64) * 2 ^ n"
  shows "n < CBOR_MAX_SIZE"
proof -
  have "n < 2 ^ n" by (rule less_exp)
  moreover have "1 * 2 ^ n \<le> (len * 2 + 64) * 2 ^ n" by (rule mult_le_mono1) simp
  ultimately show ?thesis using assms by linarith
qed

text \<open>The loop that doubles the buffer, after \<open>n\<close> doublings of its first size.\<close>

function yaml_loop ::
    "yenv \<Rightarrow> (nat \<Rightarrow> (yevent list \<times> yend) option) \<Rightarrow> nat \<Rightarrow> nat \<Rightarrow> ctx \<Rightarrow> yrc \<times> ctx" where
  "yaml_loop e parse len n c =
     (if (len * 2 + 64) * 2 ^ n > CBOR_MAX_SIZE
      then (Y_ERR, set_err c (''1:1: document is larger than '' @ nat_dec CBOR_MAX_SIZE @ '' bytes once encoded''))
      else if \<not> ye_ok e (cx_k c) then oom (c\<lparr>cx_k := Suc (cx_k c)\<rparr>)
      else case encode e parse ((len * 2 + 64) * 2 ^ n) (c\<lparr>cx_k := Suc (cx_k c)\<rparr>) of
             (rc, c1) \<Rightarrow> if rc = Y_NOMEM then yaml_loop e parse len (Suc n) c1 else (rc, c1))"
  by pat_completeness auto
termination
  by (relation "measure (\<lambda>(e, parse, len, n, c). CBOR_MAX_SIZE - n)") (auto dest!: doublings_bounded)

declare yaml_loop.simps [simp del]

definition qwe_yaml_to_cbor ::
    "yenv \<Rightarrow> (nat \<Rightarrow> (yevent list \<times> yend) option) \<Rightarrow> nat \<Rightarrow> nat \<Rightarrow> cstring + byte list \<times> qwe_positions" where
  "qwe_yaml_to_cbor e parse len err_size =
     (if len > QWE_YAML_MAX_SIZE
      then Inl (take (err_size - 1) (''1:1: document is larger than '' @ nat_dec QWE_YAML_MAX_SIZE @ '' bytes''))
      else if \<not> ye_ok e 0 then Inl (take (err_size - 1) ''out of memory'')
      else case yaml_loop e parse len 0 (ctx_new err_size 1) of
             (rc, c) \<Rightarrow>
               if rc \<noteq> Y_OK
               then Inl (if cx_err c = [] then take (err_size - 1) ''cannot encode document'' else cx_err c)
               else Inr (ye_bytes e (cx_out c), qwe_positions_finish (cx_pos c)))"

text \<open>The hook of the tests: events that no parser vouches for, and a buffer of 4096 bytes.\<close>

definition qwe_yaml_events_for_test :: "yenv \<Rightarrow> yevent list \<Rightarrow> nat \<Rightarrow> (byte list) option \<times> cstring" where
  "qwe_yaml_events_for_test e events err_size =
     (if \<not> ye_ok e 0 then (None, [])
      else case qwe_positions_new (ye_ok e) 1 of
             None \<Rightarrow> (None, [])
           | Some p \<Rightarrow>
               case event_loop e events (start_ctx p 4096 (ctx_new err_size 1)) 0 of
                 (rc, c) \<Rightarrow> (if rc = Y_OK then Some (ye_bytes e (cx_out c)) else None, cx_err c))"

end
