(* ===== verification/Yaml_Safety.thy ===== *)
theory Yaml_Safety
  imports Yaml
begin

text \<open>
  What each event does to the context, up to the memory it holds, and that no sequence of events takes
  the stack out of its arrays.
\<close>

section \<open>Effects\<close>

text \<open>The context without what only says how much memory it holds.\<close>

definition core :: "ctx \<Rightarrow> ctx" where
  "core c = c\<lparr>cx_path_cap := 0, cx_k := 0, cx_pos := (cx_pos c)\<lparr>ps_cap := 0\<rparr>\<rparr>"

abbreviation entries :: "ctx \<Rightarrow> entry list" where
  "entries c \<equiv> ps_e (cx_pos c)"

definition with_entries :: "entry list \<Rightarrow> ctx \<Rightarrow> ctx" where
  "with_entries es c = c\<lparr>cx_pos := \<lparr>ps_e = es, ps_cap = 0\<rparr>\<rparr>"

lemma core_simps [simp]:
  "cx_depth (core c) = cx_depth c" "cx_is_map (core c) = cx_is_map c" "cx_expect_key (core c) = cx_expect_key c"
  "cx_have_root (core c) = cx_have_root c" "cx_err (core c) = cx_err c" "cx_err_size (core c) = cx_err_size c"
  "cx_path (core c) = cx_path c" "cx_container_len (core c) = cx_container_len c"
  "cx_next_index (core c) = cx_next_index c" "cx_key_entry (core c) = cx_key_entry c"
  "cx_out (core c) = cx_out c" "cx_cap (core c) = cx_cap c" "entries (core c) = entries c"
  by (simp_all add: core_def)

lemma with_entries_simps [simp]:
  "cx_depth (with_entries es c) = cx_depth c" "cx_is_map (with_entries es c) = cx_is_map c"
  "cx_expect_key (with_entries es c) = cx_expect_key c" "cx_have_root (with_entries es c) = cx_have_root c"
  "cx_err (with_entries es c) = cx_err c" "cx_err_size (with_entries es c) = cx_err_size c"
  "cx_path (with_entries es c) = cx_path c" "cx_container_len (with_entries es c) = cx_container_len c"
  "cx_next_index (with_entries es c) = cx_next_index c" "cx_key_entry (with_entries es c) = cx_key_entry c"
  "cx_out (with_entries es c) = cx_out c" "cx_cap (with_entries es c) = cx_cap c" "entries (with_entries es c) = es"
  by (simp_all add: with_entries_def)

lemma core_eqD:
  assumes "core c' = core c"
  shows "cx_depth c' = cx_depth c" "cx_is_map c' = cx_is_map c" "cx_expect_key c' = cx_expect_key c"
    "cx_have_root c' = cx_have_root c" "cx_err c' = cx_err c" "cx_err_size c' = cx_err_size c"
    "cx_path c' = cx_path c" "cx_container_len c' = cx_container_len c"
    "cx_next_index c' = cx_next_index c" "cx_key_entry c' = cx_key_entry c"
    "cx_out c' = cx_out c" "cx_cap c' = cx_cap c" "entries c' = entries c"
  using assms core_simps by metis+

lemma y_then_OK [simp]: "y_then r f = (Y_OK, c') \<longleftrightarrow> (\<exists>c1. r = (Y_OK, c1) \<and> f c1 = (Y_OK, c'))"
  by (auto simp: y_then_def split: prod.splits)

lemma not_OK [simp]: "fail c m msg \<noteq> (Y_OK, c')" "oom c \<noteq> (Y_OK, c')"
  by (simp_all add: fail_def oom_def)

lemma path_append_core:
  "path_append e c s = (Y_OK, c') \<Longrightarrow> core c' = core (c\<lparr>cx_path := cx_path c @ s\<rparr>)"
  by (auto simp: path_append_def Let_def core_def split: if_splits)

lemma path_append_all: "(\<And>i. ye_ok e i) \<Longrightarrow> \<exists>c'. path_append e c s = (Y_OK, c')"
  by (simp add: path_append_def Let_def)

lemma core_path: "core c1 = core c \<Longrightarrow> core (c1\<lparr>cx_path := p\<rparr>) = core (c\<lparr>cx_path := p\<rparr>)"
  by (cases c; cases c1) (auto simp: core_def)

lemma push_chars_core:
  "push_chars e key c = (Y_OK, c') \<Longrightarrow> core c' = core (c\<lparr>cx_path := cx_path c @ concat (map key_char key)\<rparr>)"
proof (induction key arbitrary: c)
  case Nil
  then show ?case by (simp add: core_def)
next
  case (Cons ch key)
  then obtain c1 where c1: "path_append e c (key_char ch) = (Y_OK, c1)" "push_chars e key c1 = (Y_OK, c')" by auto
  have a: "core c1 = core (c\<lparr>cx_path := cx_path c @ key_char ch\<rparr>)" by (rule path_append_core [OF c1(1)])
  have p: "cx_path c1 = cx_path c @ key_char ch" using core_eqD(7) [OF a] by simp
  have "core c' = core (c1\<lparr>cx_path := cx_path c1 @ concat (map key_char key)\<rparr>)" by (rule Cons.IH [OF c1(2)])
  also have "\<dots> = core (c\<lparr>cx_path := cx_path c @ concat (map key_char (ch # key))\<rparr>)"
    using core_path [OF a] p by simp
  finally show ?case .
qed

lemma push_chars_all: "(\<And>i. ye_ok e i) \<Longrightarrow> \<exists>c'. push_chars e key c = (Y_OK, c')"
proof (induction key arbitrary: c)
  case (Cons ch key)
  then show ?case using path_append_all by (metis push_chars.simps(2) y_then_OK)
qed simp

definition key_token :: "byte list \<Rightarrow> byte list" where
  "key_token key = CHR ''/'' # concat (map key_char key)"

lemma path_push_key_core:
  assumes "path_push_key e c key = (Y_OK, c')"
  shows "core c' = core (c\<lparr>cx_path := cx_path c @ key_token key\<rparr>)"
proof -
  from assms obtain c1 where c1: "path_append e c ''/'' = (Y_OK, c1)" "push_chars e key c1 = (Y_OK, c')"
    by (auto simp: path_push_key_def)
  have a: "core c1 = core (c\<lparr>cx_path := cx_path c @ ''/''\<rparr>)" by (rule path_append_core [OF c1(1)])
  have p: "cx_path c1 = cx_path c @ ''/''" using core_eqD(7) [OF a] by simp
  show ?thesis using push_chars_core [OF c1(2)] core_path [OF a] p by (simp add: key_token_def)
qed

lemma path_push_key_all: "(\<And>i. ye_ok e i) \<Longrightarrow> \<exists>c'. path_push_key e c key = (Y_OK, c')"
  using path_append_all [of e c "''/''"] push_chars_all [of e key] by (auto simp: path_push_key_def)

lemma add_position_core:
  assumes "add_position e pointer key val c = (i, c')" "0 \<le> i"
  shows "core c' = core (with_entries (entries c @ [\<lparr>en_pointer = cstr pointer, en_key = key, en_value = val\<rparr>]) c)"
    and "i = int (length (entries c))"
  using assms
  by (auto simp: add_position_def qwe_positions_add_def grow_table_def core_def with_entries_def
      split: if_splits option.splits prod.splits)

lemma add_position_all:
  "(\<And>i. ye_ok e i) \<Longrightarrow> \<exists>i c'. add_position e pointer key val c = (i, c') \<and> 0 \<le> i"
  by (auto simp: add_position_def qwe_positions_add_def grow_table_def)

definition index_token :: "nat \<Rightarrow> byte list" where
  "index_token i = CHR ''/'' # nat_dec i"

text \<open>The pointer of the innermost open container.\<close>

definition here :: "ctx \<Rightarrow> byte list" where
  "here c = (if cx_depth c > 0 then take (cx_container_len c ! cx_depth c) (cx_path c) else [])"

lemma path_reset_here: "path_reset c = c\<lparr>cx_path := here c\<rparr>"
  by (simp add: path_reset_def here_def)

lemma core_congs:
  assumes "core c1 = core c"
  shows "core (c1\<lparr>cx_path := p\<rparr>) = core (c\<lparr>cx_path := p\<rparr>)"
    "core (with_entries es c1) = core (with_entries es c)"
    "core (c1\<lparr>cx_out := ts\<rparr>) = core (c\<lparr>cx_out := ts\<rparr>)"
    "core (c1\<lparr>cx_key_entry := ks\<rparr>) = core (c\<lparr>cx_key_entry := ks\<rparr>)"
    "core (c1\<lparr>cx_have_root := b\<rparr>) = core (c\<lparr>cx_have_root := b\<rparr>)"
    "core (c1\<lparr>cx_expect_key := bs\<rparr>) = core (c\<lparr>cx_expect_key := bs\<rparr>)"
    "core (c1\<lparr>cx_depth := d\<rparr>) = core (c\<lparr>cx_depth := d\<rparr>)"
    "core (c1\<lparr>cx_is_map := bs\<rparr>) = core (c\<lparr>cx_is_map := bs\<rparr>)"
    "core (c1\<lparr>cx_container_len := ns\<rparr>) = core (c\<lparr>cx_container_len := ns\<rparr>)"
    "core (c1\<lparr>cx_next_index := ns\<rparr>) = core (c\<lparr>cx_next_index := ns\<rparr>)"
  using assms by (cases c; cases c1; auto simp: core_def with_entries_def)+

section \<open>Values and keys\<close>

text \<open>What noting a value leaves, by where the value stands.\<close>

definition value_noted :: "ctx \<Rightarrow> mark \<Rightarrow> ctx" where
  "value_noted c m =
     (let d = cx_depth c
      in if d = 0 then with_entries (entries c @ [\<lparr>en_pointer = [], en_key = None, en_value = Some (to_pos m)\<rparr>]) (c\<lparr>cx_path := []\<rparr>)
         else if cx_is_map c ! d
         then with_entries ((entries c)[nat (cx_key_entry c ! d) := (entries c ! nat (cx_key_entry c ! d))\<lparr>en_value := Some (to_pos m)\<rparr>]) c
         else let p = here c @ index_token (cx_next_index c ! d)
              in with_entries (entries c @ [\<lparr>en_pointer = cstr p, en_key = None, en_value = Some (to_pos m)\<rparr>])
                   (c\<lparr>cx_next_index := (cx_next_index c)[d := cx_next_index c ! d + 1], cx_path := p\<rparr>))"

definition key_noted :: "ctx \<Rightarrow> mark \<Rightarrow> byte list \<Rightarrow> ctx" where
  "key_noted c m key =
     (let p = here c @ key_token key
      in (with_entries (entries c @ [\<lparr>en_pointer = cstr p, en_key = Some (to_pos m), en_value = None\<rparr>]) (c\<lparr>cx_path := p\<rparr>))
           \<lparr>cx_key_entry := (cx_key_entry c)[cx_depth c := int (length (entries c))]\<rparr>)"

lemma add_then_core:
  assumes "(case add_position e pointer key val c of (i, c1) \<Rightarrow> if i < 0 then oom c1 else (Y_OK, c1)) = (Y_OK, c')"
  shows "core c' = core (with_entries (entries c @ [\<lparr>en_pointer = cstr pointer, en_key = key, en_value = val\<rparr>]) c)"
proof -
  obtain i c1 where a: "add_position e pointer key val c = (i, c1)" by fastforce
  with assms have "0 \<le> i" "c' = c1" by (auto split: if_splits)
  with add_position_core(1) [OF a] show ?thesis by simp
qed

lemma note_value_core:
  assumes "note_value e c m = (Y_OK, c')"
  shows "core c' = core (value_noted c m)"
proof -
  consider "cx_depth c = 0" | "cx_depth c \<noteq> 0" "cx_is_map c ! cx_depth c" | "cx_depth c \<noteq> 0" "\<not> cx_is_map c ! cx_depth c" by blast
  then show ?thesis
  proof cases
    case 1
    then have "(case add_position e [] None (Some (to_pos m)) (c\<lparr>cx_path := []\<rparr>) of (i, c1) \<Rightarrow> if i < 0 then oom c1 else (Y_OK, c1)) = (Y_OK, c')"
      using assms by (simp add: note_value_def)
    from add_then_core [OF this] 1 show ?thesis by (simp add: value_noted_def cstr_def)
  next
    case 2
    then show ?thesis using assms
      by (auto simp: note_value_def value_noted_def Let_def qwe_positions_set_value_def core_def with_entries_def)
  next
    case 3
    define c0 where "c0 = (path_reset c)\<lparr>cx_next_index := (cx_next_index c)[cx_depth c := cx_next_index c ! cx_depth c + 1]\<rparr>"
    obtain c1 where c1: "path_push_index e c0 (cx_next_index c ! cx_depth c) = (Y_OK, c1)"
        "(case add_position e (cx_path c1) None (Some (to_pos m)) c1 of (i, c2) \<Rightarrow> if i < 0 then oom c2 else (Y_OK, c2)) = (Y_OK, c')"
      using assms 3 by (auto simp: note_value_def Let_def c0_def)
    have a: "core c1 = core (c0\<lparr>cx_path := cx_path c0 @ index_token (cx_next_index c ! cx_depth c)\<rparr>)"
      using path_append_core c1(1) by (simp add: path_push_index_def index_token_def)
    have f: "cx_path c1 = here c @ index_token (cx_next_index c ! cx_depth c)" "entries c1 = entries c"
      using core_eqD(7,13) [OF a] by (simp_all add: c0_def path_reset_here)
    show ?thesis using add_then_core [OF c1(2)] core_congs(2) [OF a] 3 f
      by (simp add: value_noted_def c0_def path_reset_here Let_def)
  qed
qed

lemma note_value_all:
  assumes "\<And>i. ye_ok e i"
  shows "\<exists>c'. note_value e c m = (Y_OK, c')"
proof -
  have add: "\<exists>c'. (case add_position e pointer key val c of (i, c1) \<Rightarrow> if i < 0 then oom c1 else (Y_OK, c1)) = (Y_OK, c')"
    for pointer key val c using add_position_all [OF assms, of pointer key val c] by (auto split: prod.splits)
  obtain c1 where "path_append e ((path_reset c)\<lparr>cx_next_index := (cx_next_index c)[cx_depth c := cx_next_index c ! cx_depth c + 1]\<rparr>)
      (CHR ''/'' # nat_dec (cx_next_index c ! cx_depth c)) = (Y_OK, c1)" using path_append_all [OF assms] by blast
  then show ?thesis using add by (auto simp: note_value_def Let_def path_push_index_def y_then_def)
qed

lemma note_key_core:
  assumes "note_key e c m key = (Y_OK, c')"
  shows "core c' = core (key_noted c m key)"
proof -
  obtain c1 where c1: "path_push_key e (path_reset c) key = (Y_OK, c1)"
      "(case add_position e (cx_path c1) (Some (to_pos m)) None c1 of
          (i, c2) \<Rightarrow> let c3 = c2\<lparr>cx_key_entry := (cx_key_entry c2)[cx_depth c2 := i]\<rparr>
            in if i < 0 then oom c3 else (Y_OK, c3)) = (Y_OK, c')"
    using assms by (auto simp: note_key_def)
  obtain i c2 where a: "add_position e (cx_path c1) (Some (to_pos m)) None c1 = (i, c2)" by fastforce
  have i: "0 \<le> i" "c' = c2\<lparr>cx_key_entry := (cx_key_entry c2)[cx_depth c2 := i]\<rparr>"
    using c1(2) a by (auto simp: Let_def split: if_splits)
  have p: "core c1 = core ((path_reset c)\<lparr>cx_path := cx_path (path_reset c) @ key_token key\<rparr>)"
    by (rule path_push_key_core [OF c1(1)])
  have f: "cx_path c1 = here c @ key_token key" "entries c1 = entries c"
    using core_eqD(7,13) [OF p] by (simp_all add: path_reset_here)
  have b: "core c2 = core (with_entries (entries c @ [\<lparr>en_pointer = cstr (here c @ key_token key), en_key = Some (to_pos m), en_value = None\<rparr>])
      (c\<lparr>cx_path := here c @ key_token key\<rparr>))"
    using add_position_core(1) [OF a i(1)] core_congs(2) [OF p] f by (simp add: path_reset_here)
  have g: "cx_key_entry c2 = cx_key_entry c" "cx_depth c2 = cx_depth c" "i = int (length (entries c))"
    using core_eqD(10,1) [OF b] add_position_core(2) [OF a i(1)] f by simp_all
  have "core c' = core ((with_entries (entries c @ [\<lparr>en_pointer = cstr (here c @ key_token key), en_key = Some (to_pos m), en_value = None\<rparr>])
      (c\<lparr>cx_path := here c @ key_token key\<rparr>))\<lparr>cx_key_entry := (cx_key_entry c)[cx_depth c := i]\<rparr>)"
    using core_congs(4) [OF b] i(2) g by simp
  then show ?thesis using g(3) by (simp add: key_noted_def Let_def)
qed

lemma note_key_all:
  assumes "\<And>i. ye_ok e i"
  shows "\<exists>c'. note_key e c m key = (Y_OK, c')"
proof -
  obtain c1 where c1: "path_push_key e (path_reset c) key = (Y_OK, c1)" using path_push_key_all [OF assms] by blast
  obtain i c2 where "add_position e (cx_path c1) (Some (to_pos m)) None c1 = (i, c2)" "0 \<le> i"
    using add_position_all [OF assms] by blast
  with c1 show ?thesis by (simp add: note_key_def y_then_def Let_def)
qed

section \<open>Events\<close>

definition scalar_toks :: "yenv \<Rightarrow> cstring option \<Rightarrow> bool \<Rightarrow> byte list \<Rightarrow> bool \<Rightarrow> tok list" where
  "scalar_toks e tag plain v as_key =
     (case tag of
        Some _ \<Rightarrow> [T_TAG QWE_SECRET_TAG, T_TEXT v]
      | None \<Rightarrow> [if \<not> as_key \<and> plain then plain_tok e v else T_TEXT v])"

definition after_scalar :: "yenv \<Rightarrow> ctx \<Rightarrow> mark \<Rightarrow> cstring option \<Rightarrow> bool \<Rightarrow> byte list \<Rightarrow> ctx" where
  "after_scalar e c m tag plain v =
     value_done ((if is_key c then key_noted c m v else value_noted c m)
       \<lparr>cx_out := cx_out c @ scalar_toks e tag plain v (is_key c), cx_have_root := True\<rparr>)"

definition after_start :: "ctx \<Rightarrow> bool \<Rightarrow> mark \<Rightarrow> ctx" where
  "after_start c mp m =
     (let c1 = value_noted c m; d = Suc (cx_depth c)
      in c1\<lparr>cx_out := cx_out c @ [T_OPEN mp], cx_depth := d, cx_is_map := (cx_is_map c)[d := mp],
            cx_expect_key := (cx_expect_key c)[d := True], cx_container_len := (cx_container_len c)[d := length (cx_path c1)],
            cx_next_index := (cx_next_index c1)[d := 0], cx_have_root := True\<rparr>)"

definition after_end :: "ctx \<Rightarrow> ctx" where
  "after_end c = value_done (c\<lparr>cx_depth := cx_depth c - 1, cx_out := cx_out c @ [T_CLOSE]\<rparr>)"

lemma noted_keeps [simp]:
  "cx_depth (value_noted c m) = cx_depth c" "cx_is_map (value_noted c m) = cx_is_map c"
  "cx_expect_key (value_noted c m) = cx_expect_key c" "cx_container_len (value_noted c m) = cx_container_len c"
  "cx_out (value_noted c m) = cx_out c" "cx_key_entry (value_noted c m) = cx_key_entry c"
  "cx_cap (value_noted c m) = cx_cap c" "cx_err (value_noted c m) = cx_err c" "cx_err_size (value_noted c m) = cx_err_size c"
  "cx_depth (key_noted c m v) = cx_depth c" "cx_is_map (key_noted c m v) = cx_is_map c"
  "cx_expect_key (key_noted c m v) = cx_expect_key c" "cx_container_len (key_noted c m v) = cx_container_len c"
  "cx_out (key_noted c m v) = cx_out c" "cx_next_index (key_noted c m v) = cx_next_index c"
  "cx_cap (key_noted c m v) = cx_cap c" "cx_err (key_noted c m v) = cx_err c" "cx_err_size (key_noted c m v) = cx_err_size c"
  by (simp_all add: value_noted_def key_noted_def Let_def)

lemma value_done_core: "core c1 = core c \<Longrightarrow> core (value_done c1) = core (value_done c)"
  using core_congs(6) [of c1 c] core_eqD(1-3) [of c1 c] by (auto simp: value_done_def Let_def)

lemma put_tok_OK: "put_tok e t c = (Y_OK, c') \<Longrightarrow> c' = c\<lparr>cx_out := cx_out c @ [t]\<rparr>"
  by (simp add: put_tok_def Let_def)

lemma scalar_event_OK:
  "scalar_event e c m tag plain v as_key = (Y_OK, c') \<Longrightarrow> c' = c\<lparr>cx_out := cx_out c @ scalar_toks e tag plain v as_key\<rparr>"
  by (auto simp: scalar_event_def scalar_toks_def put_tok_def Let_def split: option.splits if_splits)

lemma check_props_OK: "check_props c m anchor tag tag_ok = (Y_OK, c') \<Longrightarrow> c' = c"
  by (auto simp: check_props_def split: if_splits option.splits)

lemma on_scalar_core:
  assumes "on_scalar e c m anchor tag plain v = (Y_OK, c')"
  shows "core c' = core (after_scalar e c m tag plain v)"
proof -
  obtain c2 where c2: "y_then (if is_key c then note_key e c m v else note_value e c m)
      (\<lambda>c1. scalar_event e c1 m tag plain v (is_key c)) = (Y_OK, c2)" "c' = value_done (c2\<lparr>cx_have_root := True\<rparr>)"
    using assms by (auto simp: on_scalar_def dest!: check_props_OK split: if_splits prod.splits)
  then obtain c1 where c1: "(if is_key c then note_key e c m v else note_value e c m) = (Y_OK, c1)"
      "scalar_event e c1 m tag plain v (is_key c) = (Y_OK, c2)" by auto
  let ?n = "if is_key c then key_noted c m v else value_noted c m"
  have n: "core c1 = core ?n" using c1(1) note_key_core note_value_core by (auto split: if_splits)
  have o: "cx_out c1 = cx_out c" using core_eqD(11) [OF n] by simp
  have "core c2 = core (?n\<lparr>cx_out := cx_out c @ scalar_toks e tag plain v (is_key c)\<rparr>)"
    using scalar_event_OK [OF c1(2)] core_congs(3) [OF n] o by simp
  from value_done_core [OF core_congs(5) [OF this]] c2(2) show ?thesis by (simp add: after_scalar_def)
qed

lemma on_start_core:
  assumes "on_start e c mp m anchor tag = (Y_OK, c')"
  shows "core c' = core (after_start c mp m)" "\<not> is_key c" "cx_depth c < QWE_YAML_MAX_DEPTH"
proof -
  show k: "\<not> is_key c" "cx_depth c < QWE_YAML_MAX_DEPTH"
    using assms by (auto simp: on_start_def dest!: check_props_OK split: if_splits)
  obtain c2 where c2: "y_then (note_value e c m) (\<lambda>c1. open_container e c1 m mp) = (Y_OK, c2)" "c' = c2\<lparr>cx_have_root := True\<rparr>"
    using assms by (auto simp: on_start_def dest!: check_props_OK split: if_splits prod.splits)
  then obtain c1 where c1: "note_value e c m = (Y_OK, c1)" "open_container e c1 m mp = (Y_OK, c2)" by auto
  have n: "core c1 = core (value_noted c m)" by (rule note_value_core [OF c1(1)])
  note f = core_eqD [OF n]
  have c2': "c2 = c1\<lparr>cx_out := cx_out c1 @ [T_OPEN mp], cx_depth := Suc (cx_depth c1), cx_is_map := (cx_is_map c1)[Suc (cx_depth c1) := mp],
      cx_expect_key := (cx_expect_key c1)[Suc (cx_depth c1) := True],
      cx_container_len := (cx_container_len c1)[Suc (cx_depth c1) := length (cx_path c1)],
      cx_next_index := (cx_next_index c1)[Suc (cx_depth c1) := 0]\<rparr>"
    using c1(2) by (auto simp: open_container_def put_tok_def Let_def split: if_splits)
  show "core c' = core (after_start c mp m)"
    using core_congs(5) [OF core_congs(10) [OF core_congs(9) [OF core_congs(6) [OF core_congs(8) [OF core_congs(7)
      [OF core_congs(3) [OF n]]]]]]] f c2(2) c2' by (simp add: after_start_def Let_def)
qed

lemma on_end_core:
  assumes "on_end e c mp m = (Y_OK, c')"
  shows "c' = after_end c" "cx_depth c > 0" "mp = cx_is_map c ! cx_depth c"
  using assms by (auto simp: on_end_def after_end_def put_tok_def Let_def split: if_splits)

section \<open>The stack stays in its arrays\<close>

definition stack_ok :: "ctx \<Rightarrow> bool" where
  "stack_ok c \<longleftrightarrow>
     cx_depth c \<le> QWE_YAML_MAX_DEPTH \<and>
     length (cx_is_map c) = QWE_YAML_MAX_DEPTH + 1 \<and> length (cx_expect_key c) = QWE_YAML_MAX_DEPTH + 1 \<and>
     length (cx_container_len c) = QWE_YAML_MAX_DEPTH + 2 \<and> length (cx_next_index c) = QWE_YAML_MAX_DEPTH + 2 \<and>
     length (cx_key_entry c) = QWE_YAML_MAX_DEPTH + 2 \<and>
     (\<forall>i j. 0 < i \<longrightarrow> i \<le> j \<longrightarrow> j \<le> cx_depth c \<longrightarrow> cx_container_len c ! i \<le> cx_container_len c ! j) \<and>
     (0 < cx_depth c \<longrightarrow> cx_container_len c ! cx_depth c \<le> length (cx_path c)) \<and>
     (\<forall>i. 0 < i \<longrightarrow> i < cx_depth c \<longrightarrow> cx_is_map c ! i \<longrightarrow> \<not> cx_expect_key c ! i) \<and>
     (\<forall>i. 0 < i \<longrightarrow> i \<le> cx_depth c \<longrightarrow> cx_is_map c ! i \<longrightarrow> \<not> cx_expect_key c ! i \<longrightarrow>
        0 \<le> cx_key_entry c ! i \<and> nat (cx_key_entry c ! i) < length (entries c))"

lemma stack_ok_core: "core c' = core c \<Longrightarrow> stack_ok c' \<longleftrightarrow> stack_ok c"
  using core_eqD [of c' c] unfolding stack_ok_def by simp

lemma stack_okD:
  assumes "stack_ok c"
  shows "cx_depth c \<le> QWE_YAML_MAX_DEPTH" "length (cx_is_map c) = QWE_YAML_MAX_DEPTH + 1"
    "length (cx_expect_key c) = QWE_YAML_MAX_DEPTH + 1" "length (cx_container_len c) = QWE_YAML_MAX_DEPTH + 2"
    "length (cx_next_index c) = QWE_YAML_MAX_DEPTH + 2" "length (cx_key_entry c) = QWE_YAML_MAX_DEPTH + 2"
    "0 < cx_depth c \<Longrightarrow> length (here c) = cx_container_len c ! cx_depth c"
  using assms by (auto simp: stack_ok_def here_def)

lemma key_entry_ok:
  assumes "stack_ok c" "0 < cx_depth c" "cx_is_map c ! cx_depth c" "\<not> is_key c"
  shows "0 \<le> cx_key_entry c ! cx_depth c" "nat (cx_key_entry c ! cx_depth c) < length (entries c)"
  using assms unfolding stack_ok_def is_key_def by auto

lemma value_noted_grows: "length (entries c) \<le> length (entries (value_noted c m))"
  by (simp add: value_noted_def Let_def)

lemma value_noted_path:
  assumes "stack_ok c" "0 < cx_depth c"
  shows "cx_container_len c ! cx_depth c \<le> length (cx_path (value_noted c m))"
  using assms stack_okD(7) [OF assms] by (auto simp: value_noted_def Let_def stack_ok_def)

lemma stack_ok_noted:
  assumes "stack_ok c"
  shows "stack_ok (value_noted c m)"
proof -
  have "length (cx_next_index (value_noted c m)) = QWE_YAML_MAX_DEPTH + 2"
    using stack_okD(5) [OF assms] by (simp add: value_noted_def Let_def)
  moreover have "nat x < length (entries (value_noted c m))" if "nat x < length (entries c)" for x
    using that value_noted_grows by (rule less_le_trans)
  ultimately show ?thesis using assms value_noted_path [OF assms, of m]
    unfolding stack_ok_def by simp
qed

lemma stack_ok_flags:
  assumes "stack_ok c"
  shows "stack_ok (c\<lparr>cx_out := ts\<rparr>)" "stack_ok (c\<lparr>cx_have_root := b\<rparr>)" "stack_ok (set_err c msg)"
  using assms unfolding stack_ok_def set_err_def by simp_all

lemma value_done_ok:
  assumes "stack_ok c"
    and "0 < cx_depth c \<Longrightarrow> cx_is_map c ! cx_depth c \<Longrightarrow> cx_expect_key c ! cx_depth c \<Longrightarrow>
      0 \<le> cx_key_entry c ! cx_depth c \<and> nat (cx_key_entry c ! cx_depth c) < length (entries c)"
  shows "stack_ok (value_done c)"
proof (cases "0 < cx_depth c \<and> cx_is_map c ! cx_depth c")
  case True
  have "i < length (cx_expect_key c)" if "i \<le> cx_depth c" for i using that stack_okD(1,3) [OF assms(1)] by simp
  then show ?thesis using True assms unfolding stack_ok_def value_done_def by (auto simp: Let_def nth_list_update)
qed (use assms in \<open>auto simp: value_done_def Let_def\<close>)

lemma key_noted_ok:
  assumes "stack_ok c" "is_key c"
  shows "stack_ok (key_noted c m v)"
    "cx_key_entry (key_noted c m v) ! cx_depth c = int (length (entries c))"
    "length (entries (key_noted c m v)) = Suc (length (entries c))"
proof -
  have d: "0 < cx_depth c" "cx_expect_key c ! cx_depth c" using assms(2) by (auto simp: is_key_def)
  have l: "cx_depth c < length (cx_key_entry c)" using stack_okD(1,6) [OF assms(1)] by simp
  then show "cx_key_entry (key_noted c m v) ! cx_depth c = int (length (entries c))"
    "length (entries (key_noted c m v)) = Suc (length (entries c))" by (simp_all add: key_noted_def Let_def)
  have "cx_container_len c ! cx_depth c \<le> length (cx_path (key_noted c m v))"
    using stack_okD(7) [OF assms(1) d(1)] by (simp add: key_noted_def Let_def)
  moreover have "cx_key_entry (key_noted c m v) ! i = cx_key_entry c ! i" if "i \<noteq> cx_depth c" for i
    using that by (simp add: key_noted_def Let_def)
  moreover have "length (cx_key_entry (key_noted c m v)) = length (cx_key_entry c)" by (simp add: key_noted_def Let_def)
  moreover have "length (entries (key_noted c m v)) = Suc (length (entries c))" by (simp add: key_noted_def Let_def)
  ultimately show "stack_ok (key_noted c m v)" using assms(1) d unfolding stack_ok_def
    by simp (metis less_SucI)
qed

lemma after_scalar_ok:
  assumes "stack_ok c"
  shows "stack_ok (after_scalar e c m tag plain v)"
proof (cases "is_key c")
  case True
  show ?thesis unfolding after_scalar_def using True
    by (simp, intro value_done_ok stack_ok_flags key_noted_ok(1) assms True) (simp add: key_noted_ok [OF assms True])
next
  case False
  have "stack_ok (value_noted c m)" by (rule stack_ok_noted [OF assms])
  then show ?thesis unfolding after_scalar_def using False
    by (simp, intro value_done_ok stack_ok_flags) (auto simp: is_key_def)
qed

lemma after_end_ok:
  assumes "stack_ok c" "0 < cx_depth c"
  shows "stack_ok (after_end c)"
proof -
  have len: "cx_container_len c ! (cx_depth c - 1) \<le> length (cx_path c)" if "1 < cx_depth c"
  proof -
    have "cx_container_len c ! (cx_depth c - 1) \<le> cx_container_len c ! cx_depth c"
      using assms(1) that unfolding stack_ok_def by auto
    then show ?thesis using assms unfolding stack_ok_def by linarith
  qed
  have "stack_ok (c\<lparr>cx_depth := cx_depth c - 1, cx_out := cx_out c @ [T_CLOSE]\<rparr>)"
    using assms len unfolding stack_ok_def by auto
  moreover have "\<not> cx_expect_key c ! (cx_depth c - 1)" if "1 < cx_depth c" "cx_is_map c ! (cx_depth c - 1)"
    using assms(1) that unfolding stack_ok_def by simp
  ultimately show ?thesis unfolding after_end_def by (intro value_done_ok) auto
qed

lemma after_start_ok:
  assumes "stack_ok c" "\<not> is_key c" "cx_depth c < QWE_YAML_MAX_DEPTH"
  shows "stack_ok (after_start c mp m)"
proof -
  let ?d = "Suc (cx_depth c)" and ?p = "cx_path (value_noted c m)"
  note n = stack_ok_noted [OF assms(1), of m]
  note l = stack_okD(2-6) [OF n, simplified]
  have clen: "(cx_container_len c)[?d := length ?p] ! i \<le> (cx_container_len c)[?d := length ?p] ! j"
    if "0 < i" "i \<le> j" "j \<le> ?d" for i j
  proof (cases "j = ?d")
    case True
    have "cx_container_len c ! i \<le> length ?p" if "i \<le> cx_depth c"
      using value_noted_path [OF assms(1), of m] assms(1) that \<open>0 < i\<close> unfolding stack_ok_def by (meson le_trans less_le_trans order_refl)
    then show ?thesis using True that l assms(3) by (cases "i = ?d") (simp_all add: nth_list_update)
  next
    case False
    then show ?thesis using that assms(1) unfolding stack_ok_def by (simp add: nth_list_update)
  qed
  have maps: "\<not> (cx_expect_key c)[?d := True] ! i" if "0 < i" "i < ?d" "(cx_is_map c)[?d := mp] ! i" for i
    using that assms(1,2) unfolding stack_ok_def is_key_def by (cases "i = cx_depth c") auto
  have keys: "0 \<le> cx_key_entry c ! i \<and> nat (cx_key_entry c ! i) < length (entries (value_noted c m))"
    if "0 < i" "i \<le> ?d" "(cx_is_map c)[?d := mp] ! i" "\<not> (cx_expect_key c)[?d := True] ! i" for i
  proof -
    have "i \<noteq> ?d" using that(4) l(2) assms(3) by auto
    then show ?thesis using that n unfolding stack_ok_def by simp
  qed
  show ?thesis unfolding stack_ok_def after_start_def Let_def
    using clen maps keys l assms(3) by simp
qed

lemma handle_event_ok:
  assumes "stack_ok c" "handle_event e c docs ev = ((Y_OK, c'), docs')"
  shows "stack_ok c'"
proof (cases ev)
  case (YAML_SCALAR_EVENT m anchor tag plain v)
  then show ?thesis using assms on_scalar_core stack_ok_core after_scalar_ok by (metis Pair_inject handle_event.simps(3))
next
  case (YAML_START_EVENT mp m anchor tag)
  then show ?thesis using assms on_start_core stack_ok_core after_start_ok by (metis Pair_inject handle_event.simps(4))
next
  case (YAML_END_EVENT mp m)
  then show ?thesis using assms on_end_core after_end_ok by (metis Pair_inject handle_event.simps(5))
qed (use assms in \<open>auto split: if_splits\<close>)

lemma event_loop_ok:
  "stack_ok c \<Longrightarrow> event_loop e evs c docs = (Y_OK, c') \<Longrightarrow> stack_ok c'"
proof (induction evs arbitrary: c docs)
  case (Cons ev evs)
  obtain c1 docs1 where "handle_event e c docs ev = ((Y_OK, c1), docs1)" "event_loop e evs c1 docs1 = (Y_OK, c')"
    using Cons.prems(2) by (auto split: prod.splits if_splits)
  then show ?case using Cons.IH handle_event_ok [OF Cons.prems(1)] by blast
qed simp

section \<open>The arrays and the room for a message keep their sizes\<close>

definition arrays_ok :: "nat \<Rightarrow> ctx \<Rightarrow> bool" where
  "arrays_ok z c \<longleftrightarrow>
     length (cx_is_map c) = QWE_YAML_MAX_DEPTH + 1 \<and> length (cx_expect_key c) = QWE_YAML_MAX_DEPTH + 1 \<and>
     length (cx_container_len c) = QWE_YAML_MAX_DEPTH + 2 \<and> length (cx_next_index c) = QWE_YAML_MAX_DEPTH + 2 \<and>
     length (cx_key_entry c) = QWE_YAML_MAX_DEPTH + 2 \<and> cx_err_size c = z"

lemma stack_ok_start: "arrays_ok z c \<Longrightarrow> stack_ok (start_ctx p cap c)"
  by (simp add: arrays_ok_def stack_ok_def start_ctx_def reset_ctx_def)

lemma arrays_ok_new: "arrays_ok err_size (ctx_new err_size k)"
  by (simp add: arrays_ok_def ctx_new_def)

lemma arrays_ok_small [simp]:
  "arrays_ok z (set_err c msg) \<longleftrightarrow> arrays_ok z c" "arrays_ok z (c\<lparr>cx_k := k\<rparr>) \<longleftrightarrow> arrays_ok z c"
  "arrays_ok z (c\<lparr>cx_path := q\<rparr>) \<longleftrightarrow> arrays_ok z c" "arrays_ok z (c\<lparr>cx_out := ts\<rparr>) \<longleftrightarrow> arrays_ok z c"
  "arrays_ok z (c\<lparr>cx_pos := p\<rparr>) \<longleftrightarrow> arrays_ok z c" "arrays_ok z (c\<lparr>cx_have_root := b\<rparr>) \<longleftrightarrow> arrays_ok z c"
  "arrays_ok z (c\<lparr>cx_path_cap := n\<rparr>) \<longleftrightarrow> arrays_ok z c" "arrays_ok z (c\<lparr>cx_depth := n\<rparr>) \<longleftrightarrow> arrays_ok z c"
  "arrays_ok z (c\<lparr>cx_next_index := (cx_next_index c)[i := n]\<rparr>) \<longleftrightarrow> arrays_ok z c"
  "arrays_ok z (c\<lparr>cx_key_entry := (cx_key_entry c)[i := x]\<rparr>) \<longleftrightarrow> arrays_ok z c"
  "arrays_ok z (c\<lparr>cx_expect_key := (cx_expect_key c)[i := b]\<rparr>) \<longleftrightarrow> arrays_ok z c"
  "arrays_ok z (path_reset c) \<longleftrightarrow> arrays_ok z c" "arrays_ok z (value_done c) \<longleftrightarrow> arrays_ok z c"
  by (simp_all add: arrays_ok_def set_err_def path_reset_def value_done_def Let_def)

lemma arrays_ok_snd:
  "arrays_ok z (snd (fail c m msg)) \<longleftrightarrow> arrays_ok z c" "arrays_ok z (snd (oom c)) \<longleftrightarrow> arrays_ok z c"
  "arrays_ok z (snd (put_tok e t c)) \<longleftrightarrow> arrays_ok z c" "arrays_ok z (snd (add_position e q key val c)) \<longleftrightarrow> arrays_ok z c"
  "arrays_ok z (snd (check_props c m anchor tag b)) \<longleftrightarrow> arrays_ok z c" "arrays_ok z (snd (path_append e c s)) \<longleftrightarrow> arrays_ok z c"
  by (auto simp: fail_def oom_def put_tok_def add_position_def check_props_def path_append_def Let_def
      split: prod.splits option.splits)

lemma arrays_ok_then: "arrays_ok z (snd r) \<Longrightarrow> (\<And>c. arrays_ok z c \<Longrightarrow> arrays_ok z (snd (f c))) \<Longrightarrow> arrays_ok z (snd (y_then r f))"
  by (cases r) (simp add: y_then_def)

lemma arrays_ok_case: "arrays_ok z (snd r) \<Longrightarrow> (\<And>rc c. arrays_ok z c \<Longrightarrow> arrays_ok z (snd (f rc c))) \<Longrightarrow> arrays_ok z (snd (case r of (rc, c) \<Rightarrow> f rc c))"
  by (cases r) simp

lemma push_chars_arrays: "arrays_ok z c \<Longrightarrow> arrays_ok z (snd (push_chars e key c))"
  by (induction key arbitrary: c) (auto intro!: arrays_ok_then simp: arrays_ok_snd)

lemma note_key_arrays: "arrays_ok z c \<Longrightarrow> arrays_ok z (snd (note_key e c m key))"
  unfolding note_key_def path_push_key_def
  by (intro arrays_ok_then arrays_ok_case push_chars_arrays) (auto simp: arrays_ok_snd Let_def)

lemma note_value_arrays: "arrays_ok z c \<Longrightarrow> arrays_ok z (snd (note_value e c m))"
  unfolding note_value_def Let_def path_push_index_def
  by (auto intro!: arrays_ok_then arrays_ok_case simp: arrays_ok_snd)
    (simp_all add: arrays_ok_def path_reset_def)

lemma scalar_event_arrays: "arrays_ok z c \<Longrightarrow> arrays_ok z (snd (scalar_event e c m tag plain v as_key))"
  unfolding scalar_event_def by (auto intro!: arrays_ok_then simp: arrays_ok_snd split: option.splits)

lemma open_container_arrays: "arrays_ok z c \<Longrightarrow> arrays_ok z (snd (open_container e c m mp))"
  by (simp add: open_container_def fail_def put_tok_def Let_def) (simp add: arrays_ok_def)

lemma handle_event_arrays:
  assumes "arrays_ok z c"
  shows "arrays_ok z (snd (fst (handle_event e c docs ev)))"
proof (cases ev)
  case (YAML_SCALAR_EVENT m anchor tag plain v)
  have "arrays_ok z (snd (on_scalar e c m anchor tag plain v))" unfolding on_scalar_def
    by (rule arrays_ok_then) (auto intro!: arrays_ok_case arrays_ok_then note_key_arrays note_value_arrays scalar_event_arrays simp: arrays_ok_snd assms)
  then show ?thesis using YAML_SCALAR_EVENT by simp
next
  case (YAML_START_EVENT mp m anchor tag)
  have "arrays_ok z (snd (on_start e c mp m anchor tag))" unfolding on_start_def
    by (rule arrays_ok_then) (auto intro!: arrays_ok_case arrays_ok_then note_value_arrays open_container_arrays simp: arrays_ok_snd assms)
  then show ?thesis using YAML_START_EVENT by simp
next
  case (YAML_END_EVENT mp m)
  have "arrays_ok z (snd (on_end e c mp m))" unfolding on_end_def
    by (auto intro!: arrays_ok_case simp: arrays_ok_snd assms)
  then show ?thesis using YAML_END_EVENT by simp
qed (use assms in \<open>auto simp: arrays_ok_snd\<close>)

lemma event_loop_arrays: "arrays_ok z c \<Longrightarrow> arrays_ok z (snd (event_loop e evs c docs))"
proof (induction evs arbitrary: c docs)
  case (Cons ev evs)
  obtain rc c1 docs1 where h: "handle_event e c docs ev = ((rc, c1), docs1)" by (metis surj_pair)
  then have "arrays_ok z c1" using handle_event_arrays [OF Cons.prems, of e docs ev] by simp
  then show ?case using h Cons.IH by simp
qed simp

lemma encode_arrays:
  assumes "arrays_ok z c"
  shows "arrays_ok z (snd (encode e parse cap c))"
proof -
  have r: "arrays_ok z (reset_ctx c)" "arrays_ok z (start_ctx p cap c)" for p
    using assms by (simp_all add: arrays_ok_def reset_ctx_def start_ctx_def)
  have "arrays_ok z (snd (on_yend en c))" if "arrays_ok z c" for en c
    using that by (simp add: on_yend_def arrays_ok_snd split: yend.splits)
  then show ?thesis unfolding encode_def
    by (auto intro!: arrays_ok_then event_loop_arrays simp: arrays_ok_snd r split: option.splits)
qed

text \<open>C26. Whatever events arrive, balanced or not, and whatever memory and room there is: while events
  are taken the depth stays within the limit and so within every array of the stack, the pointer of
  the open container is a prefix of the current one, and a map that waits for a value has the entry of
  its key in the table.\<close>

theorem yaml_stack_in_bounds:
  assumes "arrays_ok z c" and "event_loop e evs (start_ctx p cap c) 0 = (Y_OK, c')"
  shows "cx_depth c' \<le> QWE_YAML_MAX_DEPTH \<and>
    (\<forall>n \<in> {length (cx_is_map c'), length (cx_expect_key c'), length (cx_container_len c'), length (cx_next_index c'),
       length (cx_key_entry c')}. cx_depth c' < n) \<and>
    (cx_depth c' > 0 \<longrightarrow> cx_container_len c' ! cx_depth c' \<le> length (cx_path c')) \<and>
    (cx_depth c' > 0 \<longrightarrow> cx_is_map c' ! cx_depth c' \<longrightarrow> \<not> cx_expect_key c' ! cx_depth c' \<longrightarrow>
       0 \<le> cx_key_entry c' ! cx_depth c' \<and> nat (cx_key_entry c' ! cx_depth c') < length (entries c'))"
proof -
  have "stack_ok c'" by (rule event_loop_ok [OF stack_ok_start [OF assms(1)] assms(2)])
  then show ?thesis unfolding stack_ok_def by simp
qed

definition events_ex :: "yevent list" where
  "events_ex = [YAML_START_EVENT True \<lparr>mk_line = 0, mk_col = 0\<rparr> None None,
     YAML_SCALAR_EVENT \<lparr>mk_line = 0, mk_col = 0\<rparr> None None True ''a'']"

definition test_ex :: "yrc \<times> ctx" where
  "test_ex = event_loop \<lparr>ye_ok = (\<lambda>_. True), ye_bytes = (\<lambda>_. []), ye_round = Fin\<rparr> events_ex
     (start_ctx \<lparr>ps_e = [], ps_cap = 0\<rparr> 64 (ctx_new 80 1)) 0"

theorem yaml_stack_in_bounds_witness:
  "fst test_ex = Y_OK \<and> cx_depth (snd test_ex) = 1 \<and> nat (cx_key_entry (snd test_ex) ! 1) < length (entries (snd test_ex))"
proof -
  have e: "fst test_ex = Y_OK" "cx_depth (snd test_ex) = 1" "cx_is_map (snd test_ex) ! 1" "\<not> cx_expect_key (snd test_ex) ! 1"
    by (simp_all add: test_ex_def events_ex_def on_start_def on_scalar_def check_props_def is_key_def start_ctx_def reset_ctx_def
      ctx_new_def note_value_def note_key_def path_push_key_def path_append_def path_reset_def key_char_def add_position_def
      qwe_positions_add_def grow_table_def open_container_def scalar_event_def put_tok_def value_done_def y_then_def
      QWE_YAML_MAX_DEPTH_def Let_def)
  have "event_loop \<lparr>ye_ok = (\<lambda>_. True), ye_bytes = (\<lambda>_. []), ye_round = Fin\<rparr> events_ex
      (start_ctx \<lparr>ps_e = [], ps_cap = 0\<rparr> 64 (ctx_new 80 1)) 0 = (Y_OK, snd test_ex)"
    using e(1) by (metis test_ex_def prod.collapse)
  from yaml_stack_in_bounds [OF arrays_ok_new this] e show ?thesis by simp
qed

end
