(* ===== verification/Yaml_Doc.thy ===== *)
theory Yaml_Doc
  imports Yaml_Safety
begin

text \<open>
  The documents: a tree of nodes, its events as a parser reports them, and what the transcoder is to
  make of it, by recursion on the tree: the first error, or the CBOR and the positions. The event
  machine is shown to compute it.
\<close>

section \<open>Documents and their meaning\<close>

datatype ynode =
    YScalar mark "cstring option" "cstring option" bool "byte list"
  | YSeq mark "cstring option" "cstring option" "ynode list" mark
  | YMap mark "cstring option" "cstring option" "(ynode \<times> ynode) list" mark

fun events_of :: "ynode \<Rightarrow> yevent list" where
  "events_of (YScalar m a t plain v) = [YAML_SCALAR_EVENT m a t plain v]"
| "events_of (YSeq m a t ns m') = YAML_START_EVENT False m a t # concat (map events_of ns) @ [YAML_END_EVENT False m']"
| "events_of (YMap m a t kvs m') =
     YAML_START_EVENT True m a t # concat (map (\<lambda>(k, v). events_of k @ events_of v) kvs) @ [YAML_END_EVENT True m']"

definition props_error :: "mark \<Rightarrow> cstring option \<Rightarrow> cstring option \<Rightarrow> bool \<Rightarrow> (mark \<times> cstring) option" where
  "props_error m a t tag_ok =
     (if a \<noteq> None then Some (m, ''anchors are not supported'')
      else case t of None \<Rightarrow> None | Some x \<Rightarrow> if tag_ok \<and> x = ENCRYPTED_TAG then None else Some (m, tag_text x))"

definition or_else :: "'a option \<Rightarrow> 'a option \<Rightarrow> 'a option" where
  "or_else a b = (case a of None \<Rightarrow> b | Some x \<Rightarrow> Some x)"

fun key_error :: "ynode \<Rightarrow> (mark \<times> cstring) option" where
  "key_error (YScalar m a t plain v) =
     or_else (props_error m a t False) (if plain \<and> v = ''<<'' then Some (m, ''merge keys are not supported'') else None)"
| "key_error (YSeq m a t ns m') = or_else (props_error m a t False) (Some (m, ''map keys must be scalars''))"
| "key_error (YMap m a t kvs m') = or_else (props_error m a t False) (Some (m, ''map keys must be scalars''))"

fun node_error :: "nat \<Rightarrow> ynode \<Rightarrow> (mark \<times> cstring) option"
  and items_error :: "nat \<Rightarrow> ynode list \<Rightarrow> (mark \<times> cstring) option"
  and pairs_error :: "nat \<Rightarrow> (ynode \<times> ynode) list \<Rightarrow> (mark \<times> cstring) option" where
  "node_error d (YScalar m a t plain v) = props_error m a t True"
| "node_error d (YSeq m a t ns m') =
     or_else (props_error m a t False)
       (if d \<ge> QWE_YAML_MAX_DEPTH then Some (m, ''nesting too deep'') else items_error (Suc d) ns)"
| "node_error d (YMap m a t kvs m') =
     or_else (props_error m a t False)
       (if d \<ge> QWE_YAML_MAX_DEPTH then Some (m, ''nesting too deep'') else pairs_error (Suc d) kvs)"
| "items_error d [] = None"
| "items_error d (n # ns) = or_else (node_error d n) (items_error d ns)"
| "pairs_error d [] = None"
| "pairs_error d ((k, v) # kvs) = or_else (key_error k) (or_else (node_error d v) (pairs_error d kvs))"

fun key_bytes :: "ynode \<Rightarrow> byte list" where
  "key_bytes (YScalar m a t plain v) = v"
| "key_bytes _ = []"

fun node_mark :: "ynode \<Rightarrow> mark" where
  "node_mark (YScalar m a t plain v) = m"
| "node_mark (YSeq m a t ns m') = m"
| "node_mark (YMap m a t kvs m') = m"

fun node_toks :: "yenv \<Rightarrow> ynode \<Rightarrow> tok list"
  and items_toks :: "yenv \<Rightarrow> ynode list \<Rightarrow> tok list"
  and pairs_toks :: "yenv \<Rightarrow> (ynode \<times> ynode) list \<Rightarrow> tok list" where
  "node_toks e (YScalar m a t plain v) = scalar_toks e t plain v False"
| "node_toks e (YSeq m a t ns m') = T_OPEN False # items_toks e ns @ [T_CLOSE]"
| "node_toks e (YMap m a t kvs m') = T_OPEN True # pairs_toks e kvs @ [T_CLOSE]"
| "items_toks e [] = []"
| "items_toks e (n # ns) = node_toks e n @ items_toks e ns"
| "pairs_toks e [] = []"
| "pairs_toks e ((k, v) # kvs) = T_TEXT (key_bytes k) # node_toks e v @ pairs_toks e kvs"

text \<open>The entries of the value with pointer \<open>p\<close> whose key, if it has one, is at \<open>kp\<close>.\<close>

fun node_entries :: "byte list \<Rightarrow> qwe_pos option \<Rightarrow> ynode \<Rightarrow> entry list"
  and items_entries :: "byte list \<Rightarrow> nat \<Rightarrow> ynode list \<Rightarrow> entry list"
  and pairs_entries :: "byte list \<Rightarrow> (ynode \<times> ynode) list \<Rightarrow> entry list" where
  "node_entries p kp (YScalar m a t plain v) = [\<lparr>en_pointer = cstr p, en_key = kp, en_value = Some (to_pos m)\<rparr>]"
| "node_entries p kp (YSeq m a t ns m') =
     \<lparr>en_pointer = cstr p, en_key = kp, en_value = Some (to_pos m)\<rparr> # items_entries p 0 ns"
| "node_entries p kp (YMap m a t kvs m') =
     \<lparr>en_pointer = cstr p, en_key = kp, en_value = Some (to_pos m)\<rparr> # pairs_entries p kvs"
| "items_entries p i [] = []"
| "items_entries p i (n # ns) = node_entries (p @ index_token i) None n @ items_entries p (Suc i) ns"
| "pairs_entries p [] = []"
| "pairs_entries p ((k, v) # kvs) =
     node_entries (p @ key_token (key_bytes k)) (Some (to_pos (node_mark k))) v @ pairs_entries p kvs"

section \<open>The context around a value\<close>

text \<open>What handling a whole node leaves as it was.\<close>

definition kept :: "ctx \<Rightarrow> ctx \<Rightarrow> bool" where
  "kept c c' \<longleftrightarrow>
     cx_depth c' = cx_depth c \<and> cx_err_size c' = cx_err_size c \<and> cx_cap c' = cx_cap c \<and> here c' = here c \<and>
     (cx_have_root c \<longrightarrow> cx_have_root c') \<and>
     (\<forall>i \<le> cx_depth c. cx_is_map c' ! i = cx_is_map c ! i \<and> cx_container_len c' ! i = cx_container_len c ! i) \<and>
     (\<forall>i < cx_depth c. cx_expect_key c' ! i = cx_expect_key c ! i \<and> cx_next_index c' ! i = cx_next_index c ! i \<and>
        cx_key_entry c' ! i = cx_key_entry c ! i)"

lemma kept_refl: "kept c c"
  by (simp add: kept_def)

lemma kept_trans: "kept c c1 \<Longrightarrow> kept c1 c2 \<Longrightarrow> kept c c2"
  by (simp add: kept_def)

text \<open>
  The next value has the pointer \<open>p\<close> and the key position \<open>kp\<close>, and \<open>es\<close> are the entries before it;
  the entry its key has made is not among them.
\<close>

definition at_value :: "ctx \<Rightarrow> byte list \<Rightarrow> qwe_pos option \<Rightarrow> entry list \<Rightarrow> bool" where
  "at_value c p kp es \<longleftrightarrow>
     (if cx_depth c = 0 then p = [] \<and> kp = None \<and> entries c = es
      else if cx_is_map c ! cx_depth c
      then \<not> cx_expect_key c ! cx_depth c \<and> cx_path c = p \<and> kp \<noteq> None \<and>
        entries c = es @ [\<lparr>en_pointer = cstr p, en_key = kp, en_value = None\<rparr>] \<and>
        cx_key_entry c ! cx_depth c = int (length es)
      else p = here c @ index_token (cx_next_index c ! cx_depth c) \<and> kp = None \<and> entries c = es)"

text \<open>After the value: its place in the container is used up.\<close>

definition value_passed :: "ctx \<Rightarrow> ctx \<Rightarrow> bool" where
  "value_passed c c' \<longleftrightarrow>
     kept c c' \<and> cx_have_root c' \<and>
     (cx_depth c > 0 \<longrightarrow>
        (if cx_is_map c ! cx_depth c then cx_expect_key c' ! cx_depth c
         else cx_next_index c' ! cx_depth c = Suc (cx_next_index c ! cx_depth c)))"

lemma at_value_not_key: "at_value c p kp es \<Longrightarrow> \<not> is_key c"
  by (auto simp: at_value_def is_key_def split: if_splits)

lemma value_noted_at:
  assumes "at_value c p kp es"
  shows "cx_path (value_noted c m) = p"
    and "entries (value_noted c m) = es @ [\<lparr>en_pointer = cstr p, en_key = kp, en_value = Some (to_pos m)\<rparr>]"
  using assms by (auto simp: at_value_def value_noted_def Let_def cstr_def split: if_splits)

lemma here_noted:
  assumes "stack_ok c"
  shows "here (value_noted c m) = here c"
  using assms stack_okD(7) [OF assms] by (auto simp: here_def value_noted_def Let_def stack_ok_def)

section \<open>Outcomes\<close>

definition monotone_bytes :: "yenv \<Rightarrow> bool" where
  "monotone_bytes e \<longleftrightarrow> (\<forall>ts us. length (ye_bytes e ts) \<le> length (ye_bytes e (ts @ us)))"

text \<open>
  What handling the events of a part may come to: its first error; not enough room for its CBOR; or
  its CBOR and positions, and the context kept.
\<close>

definition outcome :: "yenv \<Rightarrow> ctx \<Rightarrow> yrc \<times> ctx \<Rightarrow> (mark \<times> cstring) option \<Rightarrow> tok list \<Rightarrow> entry list \<Rightarrow> bool" where
  "outcome e c r err ts es \<longleftrightarrow>
     (case r of (rc, c') \<Rightarrow>
        case rc of
          Y_OK \<Rightarrow> err = None \<and> cx_out c' = cx_out c @ ts \<and> entries c' = es \<and> kept c c' \<and>
            (ts \<noteq> [] \<longrightarrow> length (ye_bytes e (cx_out c')) \<le> cx_cap c)
        | Y_ERR \<Rightarrow> \<exists>m msg. err = Some (m, msg) \<and> cx_err c' = take (cx_err_size c - 1) (fail_text m msg)
        | Y_NOMEM \<Rightarrow> cx_cap c < length (ye_bytes e (cx_out c @ ts)))"

lemma outcome_fail: "outcome e c (fail c m msg) (Some (m, msg)) ts es"
  by (simp add: outcome_def fail_def set_err_def)

lemma outcome_then:
  assumes "monotone_bytes e" "outcome e c r err ts es"
    and "\<And>c1. r = (Y_OK, c1) \<Longrightarrow> outcome e c1 (f c1) err' us es'"
  shows "outcome e c (y_then r f) (or_else err err') (ts @ us) es'"
proof -
  obtain rc c1 where r: "r = (rc, c1)" by fastforce
  show ?thesis
  proof (cases rc)
    case Y_OK
    have a: "err = None" "cx_out c1 = cx_out c @ ts" "kept c c1" "us = [] \<longrightarrow> ts \<noteq> [] \<longrightarrow> length (ye_bytes e (cx_out c1)) \<le> cx_cap c"
      using assms(2) r Y_OK by (auto simp: outcome_def)
    have b: "outcome e c1 (f c1) err' us es'" using assms(3) r Y_OK by simp
    obtain rc2 c2 where f: "f c1 = (rc2, c2)" by fastforce
    show ?thesis using a b f r Y_OK kept_trans [of c c1 c2]
      by (auto simp: outcome_def y_then_def or_else_def kept_def split: yrc.splits)
  next
    case Y_ERR
    then show ?thesis using assms(2) r by (auto simp: outcome_def y_then_def or_else_def)
  next
    case Y_NOMEM
    have "length (ye_bytes e (cx_out c @ ts)) \<le> length (ye_bytes e ((cx_out c @ ts) @ us))"
      using assms(1) unfolding monotone_bytes_def by blast
    then show ?thesis using assms(2) r Y_NOMEM by (auto simp: outcome_def y_then_def)
  qed
qed

lemma event_loop_append:
  assumes "\<And>ev m. ev \<in> set xs \<Longrightarrow> ev \<noteq> YAML_DOCUMENT_START_EVENT m"
  shows "event_loop e (xs @ ys) c docs = y_then (event_loop e xs c docs) (\<lambda>c1. event_loop e ys c1 docs)"
  using assms
proof (induction xs arbitrary: c)
  case (Cons ev xs)
  have "snd (handle_event e c docs ev) = docs" using Cons.prems [of ev] by (cases ev) auto
  then obtain rc c1 where h: "handle_event e c docs ev = ((rc, c1), docs)" by (metis prod.collapse)
  then show ?case using Cons.IH [of c1] Cons.prems by (simp add: y_then_def)
qed (simp add: y_then_def)

lemma no_document_start: "ev \<in> set (events_of n) \<Longrightarrow> ev \<noteq> YAML_DOCUMENT_START_EVENT m"
  by (induction n rule: events_of.induct) fastforce+

lemma put_tok_outcome:
  "outcome e c (put_tok e t c) None [t] (entries c)"
  by (auto simp: outcome_def put_tok_def Let_def kept_def here_def)

lemma scalar_event_outcome:
  assumes "monotone_bytes e" "t = None \<or> t = Some ENCRYPTED_TAG \<and> \<not> as_key"
  shows "outcome e c (scalar_event e c m t plain v as_key) None (scalar_toks e t plain v as_key) (entries c)"
proof (cases t)
  case None
  then show ?thesis using put_tok_outcome by (simp add: scalar_event_def scalar_toks_def)
next
  case (Some x)
  have "outcome e c (y_then (put_tok e (T_TAG QWE_SECRET_TAG) c) (put_tok e (T_TEXT v))) (or_else None None)
      ([T_TAG QWE_SECRET_TAG] @ [T_TEXT v]) (entries c)"
  proof (rule outcome_then [OF assms(1) put_tok_outcome])
    fix c1
    assume "put_tok e (T_TAG QWE_SECRET_TAG) c = (Y_OK, c1)"
    then have "entries c1 = entries c" using put_tok_OK by fastforce
    then show "outcome e c1 (put_tok e (T_TEXT v) c1) None [T_TEXT v] (entries c)" using put_tok_outcome [of e c1] by simp
  qed
  then show ?thesis using Some assms(2) by (simp add: scalar_event_def scalar_toks_def or_else_def)
qed

section \<open>Scalars\<close>

lemma value_done_keeps [simp]:
  "cx_depth (value_done c) = cx_depth c" "cx_is_map (value_done c) = cx_is_map c" "cx_container_len (value_done c) = cx_container_len c"
  "cx_next_index (value_done c) = cx_next_index c" "cx_key_entry (value_done c) = cx_key_entry c" "cx_out (value_done c) = cx_out c"
  "cx_cap (value_done c) = cx_cap c" "cx_err_size (value_done c) = cx_err_size c" "entries (value_done c) = entries c"
  "cx_path (value_done c) = cx_path c" "cx_have_root (value_done c) = cx_have_root c" "here (value_done c) = here c"
  by (simp_all add: value_done_def Let_def here_def)

lemma value_done_expect:
  "cx_expect_key (value_done c) = (if 0 < cx_depth c \<and> cx_is_map c ! cx_depth c
     then (cx_expect_key c)[cx_depth c := \<not> cx_expect_key c ! cx_depth c] else cx_expect_key c)"
  by (simp add: value_done_def Let_def)

lemma core_here: "core c' = core c \<Longrightarrow> here c' = here c"
  using core_eqD [of c' c] by (simp add: here_def)

lemma kept_core: "core c' = core c1 \<Longrightarrow> kept c c1 \<Longrightarrow> kept c c'"
  using core_eqD [of c' c1] core_here [of c' c1] unfolding kept_def by simp

lemma value_passed_core: "core c' = core c1 \<Longrightarrow> value_passed c c1 \<Longrightarrow> value_passed c c'"
  using core_eqD [of c' c1] kept_core [of c' c1 c] unfolding value_passed_def by simp

lemma next_noted:
  "cx_next_index (value_noted c m) =
     (if 0 < cx_depth c \<and> \<not> cx_is_map c ! cx_depth c
      then (cx_next_index c)[cx_depth c := Suc (cx_next_index c ! cx_depth c)] else cx_next_index c)"
  by (simp add: value_noted_def Let_def)

lemma after_scalar_value:
  assumes "stack_ok c" "at_value c p kp es"
  shows "value_passed c (after_scalar e c m t plain v)"
    and "entries (after_scalar e c m t plain v) = es @ node_entries p kp (YScalar m a t plain v)"
    and "cx_out (after_scalar e c m t plain v) = cx_out c @ scalar_toks e t plain v False"
proof -
  note k = at_value_not_key [OF assms(2)] and l = stack_okD(1-6) [OF assms(1)]
  show "entries (after_scalar e c m t plain v) = es @ node_entries p kp (YScalar m a t plain v)"
    "cx_out (after_scalar e c m t plain v) = cx_out c @ scalar_toks e t plain v False"
    using k value_noted_at [OF assms(2)] by (simp_all add: after_scalar_def)
  have h: "here ((value_noted c m)\<lparr>cx_out := ts, cx_have_root := b\<rparr>) = here c" for ts b
    using here_noted [OF assms(1), of m] by (simp add: here_def split: if_splits)
  show "value_passed c (after_scalar e c m t plain v)"
    using k l h assms(2) unfolding value_passed_def kept_def after_scalar_def at_value_def
    by (auto simp: value_done_expect next_noted is_key_def split: if_splits)
qed

lemma check_props_cases:
  "check_props c m a t b = (case props_error m a t b of None \<Rightarrow> (Y_OK, c) | Some (m', msg) \<Rightarrow> fail c m' msg)"
  by (simp add: check_props_def props_error_def split: option.splits)

lemma props_error_tag: "props_error m a t b = None \<Longrightarrow> t = None \<or> t = Some ENCRYPTED_TAG \<and> b"
  by (auto simp: props_error_def split: if_splits option.splits)

lemma y_then_fail: "y_then (fail c m msg) f = fail c m msg"
  by (simp add: y_then_def fail_def)

lemma on_scalar_room:
  assumes "monotone_bytes e" "\<And>i. ye_ok e i" "props_error m a t (\<not> is_key c) = None" "\<not> (is_key c \<and> plain \<and> v = ''<<'')"
  shows "case on_scalar e c m a t plain v of (rc, c') \<Rightarrow>
    rc \<noteq> Y_ERR \<and>
    (rc = Y_NOMEM \<longrightarrow> cx_cap c < length (ye_bytes e (cx_out c @ scalar_toks e t plain v (is_key c)))) \<and>
    (rc = Y_OK \<longrightarrow> length (ye_bytes e (cx_out c')) \<le> cx_cap c)"
proof -
  let ?n = "if is_key c then key_noted c m v else value_noted c m"
  obtain c1 where c1: "(if is_key c then note_key e c m v else note_value e c m) = (Y_OK, c1)"
    using note_value_all note_key_all assms(2) by metis
  have n: "core c1 = core ?n" using c1 note_key_core note_value_core by (auto split: if_splits)
  have f: "cx_out c1 = cx_out c" "cx_cap c1 = cx_cap c" using core_eqD(11,12) [OF n] by simp_all
  obtain rc c2 where s: "scalar_event e c1 m t plain v (is_key c) = (rc, c2)" by fastforce
  have o: "outcome e c1 (rc, c2) None (scalar_toks e t plain v (is_key c)) (entries c1)"
    using scalar_event_outcome [OF assms(1), of t "is_key c" c1 m plain v] props_error_tag [OF assms(3)] s by simp
  have r: "on_scalar e c m a t plain v = (rc, value_done (c2\<lparr>cx_have_root := True\<rparr>))"
    using assms(3,4) c1 s by (auto simp: on_scalar_def check_props_cases y_then_def)
  show ?thesis using o r f by (cases rc) (auto simp: outcome_def scalar_toks_def split: option.splits)
qed

text \<open>A scalar that meets no error of its own: the outcome follows from what it leaves.\<close>

lemma on_scalar_outcome:
  assumes "monotone_bytes e" "\<And>i. ye_ok e i" "props_error m a t (\<not> is_key c) = None" "\<not> (is_key c \<and> plain \<and> v = ''<<'')"
    and "kept c (after_scalar e c m t plain v)" "entries (after_scalar e c m t plain v) = es"
  shows "outcome e c (on_scalar e c m a t plain v) None (scalar_toks e t plain v (is_key c)) es"
proof -
  obtain rc c' where r: "on_scalar e c m a t plain v = (rc, c')" by fastforce
  have room: "rc \<noteq> Y_ERR" "rc = Y_NOMEM \<Longrightarrow> cx_cap c < length (ye_bytes e (cx_out c @ scalar_toks e t plain v (is_key c)))"
      "rc = Y_OK \<Longrightarrow> length (ye_bytes e (cx_out c')) \<le> cx_cap c"
    using on_scalar_room [OF assms(1-4)] r by auto
  show ?thesis
  proof (cases rc)
    case Y_OK
    note q = on_scalar_core [OF r [unfolded Y_OK]]
    have "cx_out (after_scalar e c m t plain v) = cx_out c @ scalar_toks e t plain v (is_key c)" by (simp add: after_scalar_def)
    then show ?thesis using r Y_OK room(3) kept_core [OF q assms(5)] core_eqD(11,13) [OF q] assms(6)
      by (simp add: outcome_def)
  qed (use r room in \<open>simp_all add: outcome_def\<close>)
qed

lemma scalar_value:
  assumes "monotone_bytes e" "\<And>i. ye_ok e i" "stack_ok c" "at_value c p kp es"
  shows "outcome e c (on_scalar e c m a t plain v) (props_error m a t True) (scalar_toks e t plain v False)
      (es @ node_entries p kp (YScalar m a t plain v))"
    and "on_scalar e c m a t plain v = (Y_OK, c') \<Longrightarrow> value_passed c c'"
proof -
  note k = at_value_not_key [OF assms(4)]
  show "value_passed c c'" if "on_scalar e c m a t plain v = (Y_OK, c')"
    using on_scalar_core [OF that] after_scalar_value(1) [OF assms(3,4)] value_passed_core by blast
  show "outcome e c (on_scalar e c m a t plain v) (props_error m a t True) (scalar_toks e t plain v False)
      (es @ node_entries p kp (YScalar m a t plain v))"
  proof (cases "props_error m a t True")
    case (Some x)
    then show ?thesis using k by (cases x) (simp add: on_scalar_def check_props_cases y_then_fail outcome_fail)
  next
    case None
    show ?thesis using on_scalar_outcome [OF assms(1,2), of m a t c plain v] k None after_scalar_value(1,2) [OF assms(3,4)]
      by (simp add: value_passed_def)
  qed
qed

section \<open>Keys\<close>

lemma after_key:
  assumes "stack_ok c" "is_key c"
  shows "kept c (after_scalar e c m t plain v)"
    and "entries (after_scalar e c m t plain v) =
      entries c @ [\<lparr>en_pointer = cstr (here c @ key_token v), en_key = Some (to_pos m), en_value = None\<rparr>]"
    and "at_value (after_scalar e c m t plain v) (here c @ key_token v) (Some (to_pos m)) (entries c)"
proof -
  have d: "0 < cx_depth c" "cx_is_map c ! cx_depth c" "cx_expect_key c ! cx_depth c" using assms(2) by (auto simp: is_key_def)
  note l = stack_okD(1-6) [OF assms(1)]
  let ?c1 = "(key_noted c m v)\<lparr>cx_out := cx_out c @ scalar_toks e t plain v True, cx_have_root := True\<rparr>"
  have after: "after_scalar e c m t plain v = value_done ?c1" using assms(2) by (simp add: after_scalar_def)
  have h: "here ?c1 = here c" using assms(1) d by (simp add: here_def key_noted_def Let_def stack_ok_def)
  show "kept c (after_scalar e c m t plain v)"
    using l h d unfolding kept_def after by (auto simp: value_done_expect) (simp add: key_noted_def Let_def)
  show "entries (after_scalar e c m t plain v) =
      entries c @ [\<lparr>en_pointer = cstr (here c @ key_token v), en_key = Some (to_pos m), en_value = None\<rparr>]"
    unfolding after by (simp add: key_noted_def Let_def)
  show "at_value (after_scalar e c m t plain v) (here c @ key_token v) (Some (to_pos m)) (entries c)"
    using d l by (simp add: at_value_def after value_done_expect) (simp add: key_noted_def Let_def)
qed

lemma at_value_core: "core c' = core c \<Longrightarrow> at_value c' p kp es \<longleftrightarrow> at_value c p kp es"
  using core_eqD [of c' c] core_here [of c' c] by (simp add: at_value_def)

lemma key_value:
  assumes "monotone_bytes e" "\<And>i. ye_ok e i" "stack_ok c" "is_key c"
  shows "outcome e c (on_scalar e c m a t plain v) (key_error (YScalar m a t plain v)) [T_TEXT v]
      (entries c @ [\<lparr>en_pointer = cstr (here c @ key_token v), en_key = Some (to_pos m), en_value = None\<rparr>])"
    and "on_scalar e c m a t plain v = (Y_OK, c') \<Longrightarrow> at_value c' (here c @ key_token v) (Some (to_pos m)) (entries c)"
proof -
  show "at_value c' (here c @ key_token v) (Some (to_pos m)) (entries c)" if "on_scalar e c m a t plain v = (Y_OK, c')"
    using at_value_core [OF on_scalar_core [OF that]] after_key(3) [OF assms(3,4)] by simp
  show "outcome e c (on_scalar e c m a t plain v) (key_error (YScalar m a t plain v)) [T_TEXT v]
      (entries c @ [\<lparr>en_pointer = cstr (here c @ key_token v), en_key = Some (to_pos m), en_value = None\<rparr>])"
  proof (cases "props_error m a t False")
    case (Some x)
    then show ?thesis using assms(4)
      by (cases x) (simp add: on_scalar_def check_props_cases y_then_fail outcome_fail or_else_def)
  next
    case None
    show ?thesis
    proof (cases "plain \<and> v = ''<<''")
      case True
      then show ?thesis using assms(4) None by (simp add: on_scalar_def check_props_cases y_then_def outcome_fail or_else_def)
    next
      case False
      have "t = None" using props_error_tag [OF None] by simp
      then show ?thesis using on_scalar_outcome [OF assms(1,2), of m a t c plain v] None False assms(4) after_key(1,2) [OF assms(3,4)]
        by (auto simp: scalar_toks_def or_else_def)
    qed
  qed
qed

section \<open>Containers\<close>

lemma on_start_cases:
  assumes "\<And>i. ye_ok e i" "\<not> is_key c" "props_error m a t False = None" "cx_depth c < QWE_YAML_MAX_DEPTH"
  shows "\<exists>c1. on_start e c mp m a t =
      (if length (ye_bytes e (cx_out c @ [T_OPEN mp])) \<le> cx_cap c then Y_OK else Y_NOMEM, c1) \<and> cx_out c1 = cx_out c @ [T_OPEN mp]"
proof -
  obtain c1 where c1: "note_value e c m = (Y_OK, c1)" using note_value_all assms(1) by blast
  have f: "cx_out c1 = cx_out c" "cx_cap c1 = cx_cap c" "cx_depth c1 = cx_depth c"
    using core_eqD(11,12,1) [OF note_value_core [OF c1]] by simp_all
  show ?thesis using assms(2-4) c1 f
    by (simp add: on_start_def check_props_cases y_then_def open_container_def put_tok_def Let_def)
qed

lemma on_start_refuses:
  assumes "\<not> is_key c" "or_else (props_error m a t False) (if QWE_YAML_MAX_DEPTH \<le> cx_depth c then Some (m, ''nesting too deep'') else None) = Some (m', msg)"
  shows "on_start e c mp m a t = fail c m' msg"
  using assms by (auto simp: on_start_def check_props_cases or_else_def fail_def y_then_def split: option.splits if_splits)

lemma after_start_at:
  assumes "at_value c p kp es" "stack_ok c" "cx_depth c < QWE_YAML_MAX_DEPTH"
  shows "here (after_start c mp m) = p"
    and "entries (after_start c mp m) = es @ [\<lparr>en_pointer = cstr p, en_key = kp, en_value = Some (to_pos m)\<rparr>]"
    and "cx_is_map (after_start c mp m) ! Suc (cx_depth c) = mp"
    and "cx_expect_key (after_start c mp m) ! Suc (cx_depth c)"
    and "cx_next_index (after_start c mp m) ! Suc (cx_depth c) = 0"
  using assms(3) stack_okD(2-5) [OF assms(2)] value_noted_at [OF assms(1), of m]
  by (simp_all add: after_start_def Let_def here_def next_noted)

lemma closing:
  assumes "stack_ok c" "at_value c p kp es" "cx_depth c < QWE_YAML_MAX_DEPTH" "kept (after_start c mp m) c2" "stack_ok c2"
  shows "value_passed c (after_end c2)"
proof -
  let ?d = "cx_depth c" and ?c1 = "after_start c mp m" and ?n = "value_noted c m"
  note l = stack_okD(2-6) [OF assms(1)]
  have d2: "cx_depth c2 = Suc ?d" and root: "cx_have_root c2" and h2: "here c2 = here ?c1"
    using assms(4) unfolding kept_def by (simp_all add: after_start_def Let_def)
  have same: "cx_is_map c2 ! i = cx_is_map c ! i \<and> cx_container_len c2 ! i = cx_container_len c ! i \<and>
      cx_expect_key c2 ! i = cx_expect_key c ! i \<and> cx_next_index c2 ! i = cx_next_index ?n ! i \<and>
      cx_key_entry c2 ! i = cx_key_entry c ! i" if "i \<le> ?d" for i
    using assms(4) that unfolding kept_def by (simp add: after_start_def Let_def)
  have sz: "cx_err_size c2 = cx_err_size c" "cx_cap c2 = cx_cap c"
    using assms(4) unfolding kept_def by (simp_all add: after_start_def Let_def)
  have "take (length (cx_path ?n)) (cx_path c2) = cx_path ?n"
    using h2 d2 assms(4) l(3) assms(3) unfolding kept_def by (simp add: here_def after_start_def Let_def)
  then have "here c = take (cx_container_len c ! ?d) (cx_path c2)" if "0 < ?d"
    using here_noted [OF assms(1), of m] value_noted_path [OF assms(1) that, of m] that
    by (simp add: here_def) (metis min.absorb1 take_take)
  then have h: "here (c2\<lparr>cx_depth := ?d, cx_out := ts\<rparr>) = here c" for ts
    using same by (simp add: here_def)
  show ?thesis unfolding value_passed_def kept_def after_end_def
    using d2 root same sz h l stack_okD(3) [OF assms(5)] assms(2,3)
    by (auto simp: value_done_expect next_noted at_value_def split: if_splits)
qed

lemma on_end_cases:
  assumes "0 < cx_depth c" "cx_is_map c ! cx_depth c = mp"
  shows "on_end e c mp m = (if length (ye_bytes e (cx_out c @ [T_CLOSE])) \<le> cx_cap c then Y_OK else Y_NOMEM, after_end c)"
  using assms by (simp add: on_end_def after_end_def put_tok_def Let_def)

lemma event_loop_single: "(\<And>m. ev \<noteq> YAML_DOCUMENT_START_EVENT m) \<Longrightarrow> event_loop e (ev # evs) c docs =
    y_then (fst (handle_event e c docs ev)) (\<lambda>c1. event_loop e evs c1 docs)"
  using event_loop_append [of "[ev]" e evs c docs]
  by (cases "handle_event e c docs ev") (auto simp: y_then_def)

lemma kept_core_left: "core c' = core c \<Longrightarrow> kept c' c2 \<longleftrightarrow> kept c c2"
  using core_eqD [of c' c] core_here [of c' c] unfolding kept_def by simp

lemma mono_drop: "monotone_bytes e \<Longrightarrow> n < length (ye_bytes e ts) \<Longrightarrow> n < length (ye_bytes e (ts @ us))"
  unfolding monotone_bytes_def by (meson less_le_trans)

text \<open>The kids and the end of a container whose start has been handled.\<close>

lemma container_rest:
  assumes mono: "monotone_bytes e" and c: "stack_ok c" "at_value c p kp es" "cx_depth c < QWE_YAML_MAX_DEPTH"
    and c1: "core c1 = core (after_start c mp m)" "stack_ok c1"
    and kids: "outcome e c1 (event_loop e kevs c1 docs) kerr kts (entries c1 @ kes)"
    and r: "r = y_then (event_loop e kevs c1 docs) (\<lambda>c2. on_end e c2 mp m')"
  shows "outcome e c r kerr (T_OPEN mp # kts @ [T_CLOSE])
      (es @ \<lparr>en_pointer = cstr p, en_key = kp, en_value = Some (to_pos m)\<rparr> # kes)"
    and "r = (Y_OK, c') \<Longrightarrow> value_passed c c'"
proof -
  obtain rc2 c2 where l: "event_loop e kevs c1 docs = (rc2, c2)" by fastforce
  note q = core_eqD [OF c1(1)]
  have f: "cx_out c1 = cx_out c @ [T_OPEN mp]" "cx_cap c1 = cx_cap c" "cx_err_size c1 = cx_err_size c" "cx_depth c1 = Suc (cx_depth c)"
    using q by (simp_all add: after_start_def Let_def)
  have "outcome e c r kerr (T_OPEN mp # kts @ [T_CLOSE])
      (es @ \<lparr>en_pointer = cstr p, en_key = kp, en_value = Some (to_pos m)\<rparr> # kes) \<and> (r = (Y_OK, c') \<longrightarrow> value_passed c c')"
  proof (cases rc2)
    case Y_OK
    have k: "kerr = None" "cx_out c2 = cx_out c1 @ kts" "entries c2 = entries c1 @ kes" "kept c1 c2"
      using kids l Y_OK by (auto simp: outcome_def)
    have d: "0 < cx_depth c2" "cx_is_map c2 ! cx_depth c2 = mp" "cx_cap c2 = cx_cap c"
      using k(4) f q(2) after_start_at(3) [OF c(2,1,3)] unfolding kept_def by simp_all
    have pass: "value_passed c (after_end c2)"
      using closing [OF c _ event_loop_ok [OF c1(2) l [unfolded Y_OK]]] k(4) kept_core_left [OF c1(1)] by blast
    have e2: "entries (after_end c2) = es @ \<lparr>en_pointer = cstr p, en_key = kp, en_value = Some (to_pos m)\<rparr> # kes"
      "cx_out (after_end c2) = cx_out c @ T_OPEN mp # kts @ [T_CLOSE]"
      using k f q(13) after_start_at(2) [OF c(2,1,3)] by (simp_all add: after_end_def)
    show ?thesis using on_end_cases [OF d(1,2)] l Y_OK r pass e2 k(1,2) f(1) d(3)
      by (auto simp: outcome_def y_then_def value_passed_def)
  next
    case Y_ERR
    then show ?thesis using kids l r f(3) by (auto simp: outcome_def y_then_def)
  next
    case Y_NOMEM
    then have "cx_cap c < length (ye_bytes e (cx_out c @ T_OPEN mp # kts))" using kids l f by (simp add: outcome_def)
    from mono_drop [OF mono this, of "[T_CLOSE]"] show ?thesis using l r Y_NOMEM by (simp add: outcome_def y_then_def)
  qed
  then show "outcome e c r kerr (T_OPEN mp # kts @ [T_CLOSE])
      (es @ \<lparr>en_pointer = cstr p, en_key = kp, en_value = Some (to_pos m)\<rparr> # kes)"
    and "r = (Y_OK, c') \<Longrightarrow> value_passed c c'" by blast+
qed

lemma container_outcome:
  assumes mono: "monotone_bytes e" and ok: "\<And>i. ye_ok e i" and c: "stack_ok c" "at_value c p kp es"
    and kids: "\<And>ev x. ev \<in> set kevs \<Longrightarrow> ev \<noteq> YAML_DOCUMENT_START_EVENT x"
      "\<And>c1. cx_depth c < QWE_YAML_MAX_DEPTH \<Longrightarrow> stack_ok c1 \<Longrightarrow> core c1 = core (after_start c mp m) \<Longrightarrow>
        outcome e c1 (event_loop e kevs c1 docs) kerr kts (entries c1 @ kes)"
    and r: "r = event_loop e (YAML_START_EVENT mp m a t # kevs @ [YAML_END_EVENT mp m']) c docs"
  shows "outcome e c r
      (or_else (props_error m a t False) (if QWE_YAML_MAX_DEPTH \<le> cx_depth c then Some (m, ''nesting too deep'') else kerr))
      (T_OPEN mp # kts @ [T_CLOSE]) (es @ \<lparr>en_pointer = cstr p, en_key = kp, en_value = Some (to_pos m)\<rparr> # kes)"
    and "r = (Y_OK, c') \<Longrightarrow> value_passed c c'"
proof -
  note k = at_value_not_key [OF c(2)]
  have "event_loop e [YAML_END_EVENT mp m'] c2 docs = on_end e c2 mp m'" for c2 by (simp split: prod.splits)
  then have r': "r = y_then (on_start e c mp m a t) (\<lambda>c1. y_then (event_loop e kevs c1 docs) (\<lambda>c2. on_end e c2 mp m'))"
    using event_loop_append [of kevs e "[YAML_END_EVENT mp m']" _ docs] kids(1) r
    by (simp add: event_loop_single del: event_loop.simps)
  let ?own = "or_else (props_error m a t False) (if QWE_YAML_MAX_DEPTH \<le> cx_depth c then Some (m, ''nesting too deep'') else None)"
  let ?err = "or_else (props_error m a t False) (if QWE_YAML_MAX_DEPTH \<le> cx_depth c then Some (m, ''nesting too deep'') else kerr)"
  have "outcome e c r ?err (T_OPEN mp # kts @ [T_CLOSE])
      (es @ \<lparr>en_pointer = cstr p, en_key = kp, en_value = Some (to_pos m)\<rparr> # kes) \<and> (r = (Y_OK, c') \<longrightarrow> value_passed c c')"
  proof (cases ?own)
    case (Some x)
    obtain m1 msg where x: "x = (m1, msg)" by fastforce
    have "r = fail c m1 msg" using on_start_refuses [OF k] Some x r' by (simp add: y_then_fail)
    moreover have "?err = Some (m1, msg)" using Some x by (auto simp: or_else_def split: option.splits if_splits)
    ultimately show ?thesis using outcome_fail by simp
  next
    case None
    then have n: "props_error m a t False = None" "cx_depth c < QWE_YAML_MAX_DEPTH" "?err = kerr"
      by (auto simp: or_else_def split: option.splits if_splits)
    obtain c1 where c1: "on_start e c mp m a t =
        (if length (ye_bytes e (cx_out c @ [T_OPEN mp])) \<le> cx_cap c then Y_OK else Y_NOMEM, c1)"
      using on_start_cases [OF ok k n(1,2)] by blast
    show ?thesis
    proof (cases "length (ye_bytes e (cx_out c @ [T_OPEN mp])) \<le> cx_cap c")
      case True
      then have s: "on_start e c mp m a t = (Y_OK, c1)" using c1 by simp
      have q: "core c1 = core (after_start c mp m)" "stack_ok c1"
        using on_start_core(1) [OF s] stack_ok_core after_start_ok [OF c(1) k n(2)] by blast+
      show ?thesis using container_rest [OF mono c n(2) q kids(2) [OF n(2) q(2,1)] refl] r' s n(3) by (simp add: y_then_def)
    next
      case False
      then have "cx_cap c < length (ye_bytes e (cx_out c @ [T_OPEN mp]))" by simp
      from mono_drop [OF mono this, of "kts @ [T_CLOSE]"] show ?thesis using False c1 r' by (simp add: outcome_def y_then_def)
    qed
  qed
  then show "outcome e c r ?err (T_OPEN mp # kts @ [T_CLOSE])
      (es @ \<lparr>en_pointer = cstr p, en_key = kp, en_value = Some (to_pos m)\<rparr> # kes)"
    and "r = (Y_OK, c') \<Longrightarrow> value_passed c c'" by blast+
qed

section \<open>Whole documents\<close>

lemma key_outcome:
  assumes "monotone_bytes e" "\<And>i. ye_ok e i" "stack_ok c" "is_key c"
  shows "outcome e c (event_loop e (events_of k) c docs) (key_error k) [T_TEXT (key_bytes k)]
      (entries c @ [\<lparr>en_pointer = cstr (here c @ key_token (key_bytes k)), en_key = Some (to_pos (node_mark k)), en_value = None\<rparr>])"
    and "event_loop e (events_of k) c docs = (Y_OK, c') \<Longrightarrow>
      at_value c' (here c @ key_token (key_bytes k)) (Some (to_pos (node_mark k))) (entries c)"
proof -
  have start: "on_start e c mp m a t = (case or_else (props_error m a t False) (Some (m, ''map keys must be scalars'')) of
      Some (m', msg) \<Rightarrow> fail c m' msg)" for mp m a t
    using assms(4) by (auto simp: on_start_def check_props_cases or_else_def fail_def y_then_def split: option.splits)
  have refused: "\<exists>m' msg. key_error k = Some (m', msg) \<and> event_loop e (events_of k) c docs = fail c m' msg"
    if "\<And>m a t plain v. k \<noteq> YScalar m a t plain v"
  proof (cases k)
    case (YScalar m a t plain v)
    then show ?thesis using that by blast
  qed (auto simp: start or_else_def fail_def split: option.splits)
  have "outcome e c (event_loop e (events_of k) c docs) (key_error k) [T_TEXT (key_bytes k)]
      (entries c @ [\<lparr>en_pointer = cstr (here c @ key_token (key_bytes k)), en_key = Some (to_pos (node_mark k)), en_value = None\<rparr>]) \<and>
    (event_loop e (events_of k) c docs = (Y_OK, c') \<longrightarrow>
      at_value c' (here c @ key_token (key_bytes k)) (Some (to_pos (node_mark k))) (entries c))"
  proof (cases "\<exists>m a t plain v. k = YScalar m a t plain v")
    case True
    then obtain m a t plain v where k: "k = YScalar m a t plain v" by blast
    have "event_loop e (events_of k) c docs = on_scalar e c m a t plain v" using k by (simp split: prod.splits)
    then show ?thesis using key_value [OF assms, where m = m and a = a and t = t and plain = plain and v = v] k by simp
  next
    case False
    then show ?thesis using refused outcome_fail not_OK(1) by metis
  qed
  then show "outcome e c (event_loop e (events_of k) c docs) (key_error k) [T_TEXT (key_bytes k)]
      (entries c @ [\<lparr>en_pointer = cstr (here c @ key_token (key_bytes k)), en_key = Some (to_pos (node_mark k)), en_value = None\<rparr>])"
    and "event_loop e (events_of k) c docs = (Y_OK, c') \<Longrightarrow>
      at_value c' (here c @ key_token (key_bytes k)) (Some (to_pos (node_mark k))) (entries c)" by blast+
qed

lemma node_outcome:
  assumes mono: "monotone_bytes e" and ok: "\<And>i. ye_ok e i"
  shows "stack_ok c \<Longrightarrow> at_value c p kp es \<Longrightarrow> cx_depth c = d \<Longrightarrow>
      outcome e c (event_loop e (events_of n) c docs) (node_error d n) (node_toks e n) (es @ node_entries p kp n) \<and>
      (\<forall>c'. event_loop e (events_of n) c docs = (Y_OK, c') \<longrightarrow> value_passed c c')"
    and "stack_ok c \<Longrightarrow> cx_depth c = d \<Longrightarrow> 0 < d \<Longrightarrow> \<not> cx_is_map c ! d \<Longrightarrow>
      outcome e c (event_loop e (concat (map events_of ns)) c docs) (items_error d ns) (items_toks e ns)
        (entries c @ items_entries (here c) (cx_next_index c ! d) ns)"
    and "stack_ok c \<Longrightarrow> cx_depth c = d \<Longrightarrow> is_key c \<Longrightarrow>
      outcome e c (event_loop e (concat (map (\<lambda>(k, v). events_of k @ events_of v) kvs)) c docs) (pairs_error d kvs) (pairs_toks e kvs)
        (entries c @ pairs_entries (here c) kvs)"
proof (induction d n and d ns and d kvs arbitrary: c p kp es and c and c rule: node_error_items_error_pairs_error.induct)
  case (1 d m a t plain v)
  have "event_loop e (events_of (YScalar m a t plain v)) c docs = on_scalar e c m a t plain v" by (simp split: prod.splits)
  then show ?case using scalar_value [OF mono ok 1(1,2), where m = m and a = a and t = t and plain = plain and v = v] by simp
next
  case (2 d m a t ns m')
  have kids: "outcome e c1 (event_loop e (concat (map events_of ns)) c1 docs) (items_error (Suc d) ns) (items_toks e ns)
      (entries c1 @ items_entries p 0 ns)"
    if "cx_depth c < QWE_YAML_MAX_DEPTH" "stack_ok c1" "core c1 = core (after_start c False m)" for c1
    using "2.IH" [of c1] after_start_at [OF "2.prems"(2,1) that(1), of False m] core_eqD(1,2,9) [OF that(3)] core_here [OF that(3)]
      that "2.prems"(3) by (simp add: after_start_def Let_def)
  have none: "ev \<noteq> YAML_DOCUMENT_START_EVENT x" if "ev \<in> set (concat (map events_of ns))" for ev x
    using that no_document_start by fastforce
  show ?case
    using container_outcome [OF mono ok "2.prems"(1,2) none kids refl, where a = a and t = t and m' = m'] "2.prems"(3)
    by (auto simp del: event_loop.simps)
next
  case (3 d m a t kvs m')
  let ?evs = "concat (map (\<lambda>(k, v). events_of k @ events_of v) kvs)"
  have kids: "outcome e c1 (event_loop e ?evs c1 docs) (pairs_error (Suc d) kvs) (pairs_toks e kvs)
      (entries c1 @ pairs_entries p kvs)"
    if "cx_depth c < QWE_YAML_MAX_DEPTH" "stack_ok c1" "core c1 = core (after_start c True m)" for c1
    using "3.IH" [of c1] after_start_at [OF "3.prems"(2,1) that(1), of True m] core_eqD(1,2,3) [OF that(3)] core_here [OF that(3)]
      that "3.prems"(3) by (simp add: after_start_def Let_def is_key_def)
  have none: "ev \<noteq> YAML_DOCUMENT_START_EVENT x" if "ev \<in> set ?evs" for ev x
    using that no_document_start by fastforce
  show ?case
    using container_outcome [OF mono ok "3.prems"(1,2) none kids refl, where a = a and t = t and m' = m'] "3.prems"(3)
    by (auto simp del: event_loop.simps)
next
  case (4 d)
  then show ?case by (simp add: outcome_def kept_refl)
next
  case (5 d n ns)
  have at: "at_value c (here c @ index_token (cx_next_index c ! d)) None (entries c)"
    using "5.prems" by (simp add: at_value_def)
  note one = "5.IH"(1) [OF "5.prems"(1) at "5.prems"(2)]
  have "outcome e c (y_then (event_loop e (events_of n) c docs) (\<lambda>c1. event_loop e (concat (map events_of ns)) c1 docs))
      (or_else (node_error d n) (items_error d ns)) (node_toks e n @ items_toks e ns)
      (entries c @ items_entries (here c) (cx_next_index c ! d) (n # ns))"
  proof (rule outcome_then [OF mono conjunct1 [OF one]])
    fix c1
    assume r: "event_loop e (events_of n) c docs = (Y_OK, c1)"
    have s: "stack_ok c1" by (rule event_loop_ok [OF "5.prems"(1) r])
    have v: "cx_depth c1 = d" "\<not> cx_is_map c1 ! d" "here c1 = here c" "cx_next_index c1 ! d = Suc (cx_next_index c ! d)"
      using one r "5.prems" by (auto simp: value_passed_def kept_def)
    have "entries c1 = entries c @ node_entries (here c @ index_token (cx_next_index c ! d)) None n"
      using one r by (simp add: outcome_def)
    then show "outcome e c1 (event_loop e (concat (map events_of ns)) c1 docs) (items_error d ns) (items_toks e ns)
        (entries c @ items_entries (here c) (cx_next_index c ! d) (n # ns))"
      using "5.IH"(2) [OF s v(1) "5.prems"(3) v(2)] v by simp
  qed
  then show ?case using event_loop_append [of "events_of n" e _ c docs] no_document_start by simp
next
  case (6 d)
  then show ?case by (simp add: outcome_def kept_refl)
next
  case (7 d k v kvs)
  let ?rest = "concat (map (\<lambda>(k, v). events_of k @ events_of v) kvs)"
  let ?p = "here c @ key_token (key_bytes k)" and ?kp = "Some (to_pos (node_mark k))"
  note key = key_outcome [OF mono ok "7.prems"(1,3), where k = k and docs = docs]
  have "outcome e c (y_then (event_loop e (events_of k) c docs) (\<lambda>c1. y_then (event_loop e (events_of v) c1 docs)
      (\<lambda>c2. event_loop e ?rest c2 docs)))
      (or_else (key_error k) (or_else (node_error d v) (pairs_error d kvs))) ([T_TEXT (key_bytes k)] @ node_toks e v @ pairs_toks e kvs)
      (entries c @ pairs_entries (here c) ((k, v) # kvs))"
  proof (intro outcome_then [OF mono key(1)] outcome_then [OF mono])
    fix c1
    assume r1: "event_loop e (events_of k) c docs = (Y_OK, c1)"
    have s1: "stack_ok c1" by (rule event_loop_ok [OF "7.prems"(1) r1])
    have k1: "cx_depth c1 = d" "cx_is_map c1 ! d" "here c1 = here c"
      using key(1) r1 "7.prems" by (auto simp: outcome_def kept_def is_key_def)
    note val = "7.IH"(1) [OF s1 key(2) [OF r1] k1(1)]
    show "outcome e c1 (event_loop e (events_of v) c1 docs) (node_error d v) (node_toks e v) (entries c @ node_entries ?p ?kp v)"
      using val by simp
    fix c2
    assume r2: "event_loop e (events_of v) c1 docs = (Y_OK, c2)"
    have s2: "stack_ok c2" by (rule event_loop_ok [OF s1 r2])
    have k2: "cx_depth c2 = d" "is_key c2" "here c2 = here c" "entries c2 = entries c @ node_entries ?p ?kp v"
      using val r2 k1 "7.prems"(2,3) by (auto simp: value_passed_def kept_def is_key_def outcome_def)
    show "outcome e c2 (event_loop e ?rest c2 docs) (pairs_error d kvs) (pairs_toks e kvs)
        (entries c @ pairs_entries (here c) ((k, v) # kvs))"
      using "7.IH"(2) [OF s2 k2(1,2)] k2(3,4) by simp
  qed
  then show ?case using event_loop_append [of "events_of k" e _ c docs] event_loop_append [of "events_of v" e _ _ docs] no_document_start by simp
qed

text \<open>What the parser reports for a file that holds one document.\<close>

definition document_events :: "mark \<Rightarrow> ynode \<Rightarrow> yevent list" where
  "document_events m n = [YAML_OTHER_EVENT, YAML_DOCUMENT_START_EVENT m] @ events_of n @ [YAML_OTHER_EVENT]"

definition parses_to :: "(nat \<Rightarrow> (yevent list \<times> yend) option) \<Rightarrow> ynode \<Rightarrow> bool" where
  "parses_to parse n \<longleftrightarrow> (\<exists>m. \<forall>k. parse k = Some (document_events m n, YAML_STREAM_END))"

lemma document_loop: "event_loop e (document_events m n) c 0 = event_loop e (events_of n) c 1"
proof -
  have "event_loop e (document_events m n) c 0 = event_loop e (events_of n @ [YAML_OTHER_EVENT]) c 1"
    by (simp add: document_events_def)
  also have "\<dots> = y_then (event_loop e (events_of n) c 1) (\<lambda>c1. event_loop e [YAML_OTHER_EVENT] c1 1)"
    by (rule event_loop_append) (rule no_document_start)
  finally show ?thesis by (simp add: y_then_def split: prod.splits)
qed

definition pass_outcome :: "yenv \<Rightarrow> ynode \<Rightarrow> nat \<Rightarrow> nat \<Rightarrow> yrc \<times> ctx \<Rightarrow> bool" where
  "pass_outcome e n z cap r \<longleftrightarrow>
     (case r of (rc, c') \<Rightarrow>
        case rc of
          Y_OK \<Rightarrow> node_error 0 n = None \<and> cx_out c' = node_toks e n \<and> entries c' = node_entries [] None n
        | Y_ERR \<Rightarrow> \<exists>m msg. node_error 0 n = Some (m, msg) \<and> cx_err c' = take (z - 1) (fail_text m msg)
        | Y_NOMEM \<Rightarrow> cap < length (ye_bytes e (node_toks e n)))"

lemma encode_document:
  assumes "monotone_bytes e" "\<And>i. ye_ok e i" "parses_to parse n" "arrays_ok z c"
  shows "pass_outcome e n z cap (encode e parse cap c)"
proof -
  define c0 where "c0 = start_ctx \<lparr>ps_e = [], ps_cap = 0\<rparr> cap c"
  have f: "cx_depth c0 = 0" "entries c0 = []" "cx_out c0 = []" "cx_cap c0 = cap" "cx_err_size c0 = z"
    using assms(4) by (simp_all add: c0_def start_ctx_def reset_ctx_def arrays_ok_def)
  have at: "at_value c0 [] None []" using f by (simp add: at_value_def)
  have s: "stack_ok c0" unfolding c0_def by (rule stack_ok_start [OF assms(4)])
  obtain rc c1 where r: "event_loop e (events_of n) c0 1 = (rc, c1)" by fastforce
  have o: "outcome e c0 (rc, c1) (node_error 0 n) (node_toks e n) (node_entries [] None n)" "rc = Y_OK \<Longrightarrow> value_passed c0 c1"
    using node_outcome(1) [OF assms(1,2) s at f(1), where n = n and docs = 1] r by auto
  have "encode e parse cap c = (rc, c1)"
    using assms(2,3) r o(2) by (auto simp: encode_def qwe_positions_new_def parses_to_def document_loop y_then_def on_yend_def
      value_passed_def simp flip: c0_def)
  then show ?thesis using o(1) f by (cases rc) (simp_all add: pass_outcome_def outcome_def)
qed

lemma yaml_loop_document:
  assumes "monotone_bytes e" "\<And>i. ye_ok e i" "parses_to parse n"
    and "len \<le> QWE_YAML_MAX_SIZE" "length (ye_bytes e (node_toks e n)) \<le> CBOR_MAX_SIZE div 2"
    and "arrays_ok z c" "k = 0 \<or> (len * 2 + 64) * 2 ^ (k - 1) < length (ye_bytes e (node_toks e n))"
  shows "pass_outcome e n z 0 (yaml_loop e parse len k c) \<and> fst (yaml_loop e parse len k c) \<noteq> Y_NOMEM"
  using assms(6,7)
proof (induction "CBOR_MAX_SIZE - k" arbitrary: k c rule: less_induct)
  case less
  let ?cap = "(len * 2 + 64) * 2 ^ k"
  have fits: "\<not> CBOR_MAX_SIZE < ?cap"
  proof (cases k)
    case 0
    then show ?thesis using assms(4) by (simp add: CBOR_MAX_SIZE_def QWE_YAML_MAX_SIZE_def)
  next
    case (Suc j)
    then show ?thesis using less.prems(2) assms(5) by simp
  qed
  define r where "r = encode e parse ?cap (c\<lparr>cx_k := Suc (cx_k c)\<rparr>)"
  have a: "arrays_ok z (c\<lparr>cx_k := Suc (cx_k c)\<rparr>)" using less.prems(1) by simp
  have p: "pass_outcome e n z ?cap r" "arrays_ok z (snd r)"
    unfolding r_def by (rule encode_document [OF assms(1-3) a], rule encode_arrays [OF a])
  obtain rc c1 where rc: "r = (rc, c1)" by fastforce
  have l: "yaml_loop e parse len k c = (if rc = Y_NOMEM then yaml_loop e parse len (Suc k) c1 else (rc, c1))"
    using fits assms(2) rc by (subst yaml_loop.simps) (simp flip: r_def)
  show ?case
  proof (cases "rc = Y_NOMEM")
    case True
    have "CBOR_MAX_SIZE - Suc k < CBOR_MAX_SIZE - k" using doublings_bounded [OF fits] by simp
    moreover have "arrays_ok z c1" "Suc k = 0 \<or> (len * 2 + 64) * 2 ^ (Suc k - 1) < length (ye_bytes e (node_toks e n))"
      using p rc True by (simp_all add: pass_outcome_def)
    ultimately show ?thesis using less.hyps l True by simp
  next
    case False
    then show ?thesis using p(1) rc l by (cases rc) (simp_all add: pass_outcome_def)
  qed
qed

lemma qwe_yaml_to_cbor_document:
  assumes "parses_to parse n" and "\<forall>i. ye_ok e i" and "monotone_bytes e"
    and "len \<le> QWE_YAML_MAX_SIZE" and "length (ye_bytes e (node_toks e n)) \<le> CBOR_MAX_SIZE div 2"
  shows "case node_error 0 n of
      Some (m, msg) \<Rightarrow> qwe_yaml_to_cbor e parse len z = Inl (take (z - 1) (fail_text m msg))
    | None \<Rightarrow> \<exists>ps. qwe_yaml_to_cbor e parse len z = Inr (ye_bytes e (node_toks e n), ps) \<and>
        ps_e ps = sort_key entry_key (node_entries [] None n)"
proof -
  obtain rc c where r: "yaml_loop e parse len 0 (ctx_new z 1) = (rc, c)" by fastforce
  have p: "pass_outcome e n z 0 (rc, c)" "rc \<noteq> Y_NOMEM"
    using yaml_loop_document [OF assms(3) _ assms(1,4,5) arrays_ok_new [of z 1], of 0] assms(2) r by auto
  have "fail_text m msg \<noteq> []" for m msg by (simp add: fail_text_def)
  then show ?thesis using assms(2,4) r p
    by (cases rc) (auto simp: pass_outcome_def qwe_yaml_to_cbor_def qwe_positions_finish_def)
qed

section \<open>An example\<close>

definition env_ex :: yenv where
  "env_ex = \<lparr>ye_ok = (\<lambda>_. True), ye_bytes = (\<lambda>ts. replicate (length ts) CHR ''.''), ye_round = Fin\<rparr>"

definition at_ex :: "nat \<Rightarrow> nat \<Rightarrow> mark" where
  "at_ex l c = \<lparr>mk_line = l, mk_col = c\<rparr>"

definition doc_ex :: ynode where
  "doc_ex = YMap (at_ex 0 0) None None
     [(YScalar (at_ex 0 0) None None True ''jobs'',
       YSeq (at_ex 1 2) None None
         [YScalar (at_ex 1 4) None None True ''42'', YScalar (at_ex 2 4) None (Some ENCRYPTED_TAG) False ''s''] (at_ex 3 0))]
     (at_ex 3 0)"

definition parse_ex :: "ynode \<Rightarrow> nat \<Rightarrow> (yevent list \<times> yend) option" where
  "parse_ex n k = Some (document_events (at_ex 0 0) n, YAML_STREAM_END)"

lemma env_ex_ok: "\<forall>i. ye_ok env_ex i" "monotone_bytes env_ex"
  by (simp_all add: env_ex_def monotone_bytes_def)

lemma parse_ex_ok: "parses_to (parse_ex n) n"
  unfolding parses_to_def parse_ex_def by blast

lemma doc_ex_ok: "node_error 0 doc_ex = None" "length (ye_bytes env_ex (node_toks env_ex doc_ex)) \<le> CBOR_MAX_SIZE div 2"
    "(40 :: nat) \<le> QWE_YAML_MAX_SIZE"
  by (simp_all add: doc_ex_def env_ex_def props_error_def or_else_def QWE_YAML_MAX_DEPTH_def QWE_YAML_MAX_SIZE_def CBOR_MAX_SIZE_def
    scalar_toks_def plain_tok_def is_null_def is_int_def skip_sign_def Let_def is_digit_def)

section \<open>Property\<close>

text \<open>C25. Transcoding a document: when it holds an anchor, a tag other than \<open>!encrypted\<close> on a scalar
  value, a merge key, a key that is no scalar or too deep a nesting, the error is the first of these
  in the order of the text, at its line and column; otherwise the CBOR is that of the tree and the
  table has the entries of the tree, sorted. The buffer is found large enough on the way.\<close>

theorem yaml_document:
  assumes "parses_to parse n" and "\<forall>i. ye_ok e i" and "monotone_bytes e"
    and "len \<le> QWE_YAML_MAX_SIZE" and "length (ye_bytes e (node_toks e n)) \<le> CBOR_MAX_SIZE div 2"
  shows "case node_error 0 n of
      Some (m, msg) \<Rightarrow> qwe_yaml_to_cbor e parse len z = Inl (take (z - 1) (fail_text m msg))
    | None \<Rightarrow> \<exists>ps. qwe_yaml_to_cbor e parse len z = Inr (ye_bytes e (node_toks e n), ps) \<and>
        ps_e ps = sort_key entry_key (node_entries [] None n)"
  using assms by (rule qwe_yaml_to_cbor_document)

theorem yaml_document_witness:
  "\<exists>ps. qwe_yaml_to_cbor env_ex (parse_ex doc_ex) 40 128 = Inr (''........'', ps) \<and>
     ps_e ps = sort_key entry_key (node_entries [] None doc_ex)"
proof -
  have "ye_bytes env_ex (node_toks env_ex doc_ex) = ''........''"
    by (simp add: doc_ex_def env_ex_def scalar_toks_def)
  then show ?thesis using yaml_document [OF parse_ex_ok env_ex_ok doc_ex_ok(3,2), of 128] doc_ex_ok(1) by simp
qed

end
