(* ===== verification/Yaml_Pointers.thy ===== *)
theory Yaml_Pointers
  imports Yaml_Doc
begin

text \<open>
  The positions of a document: JSON pointers name its nodes one to one, and looking a pointer up in
  the finished table gives the place of the node it names.
\<close>

section \<open>Reference tokens\<close>

text \<open>How RFC 6901 reads a token.\<close>

fun pointer_unescape :: "byte list \<Rightarrow> byte list" where
  "pointer_unescape [] = []"
| "pointer_unescape [c] = [c]"
| "pointer_unescape (c # d # s) =
     (if c = CHR ''~'' then (if d = CHR ''0'' then CHR ''~'' else CHR ''/'') # pointer_unescape s
      else c # pointer_unescape (d # s))"

lemma unescape_plain: "c \<noteq> CHR ''~'' \<Longrightarrow> pointer_unescape (c # s) = c # pointer_unescape s"
  by (cases s) simp_all

interpretation pointer_code: charwise_code key_char pointer_unescape "\<lambda>_. True"
  by unfold_locales (simp_all add: key_char_def unescape_plain)

lemma key_token_inj: "key_token k = key_token k' \<longleftrightarrow> k = k'"
  using pointer_code.encode_inj [of k k'] by (auto simp: key_token_def list_all_iff)

lemma key_token_no_slash: "CHR ''/'' \<notin> set (tl (key_token k))"
  by (auto simp: key_token_def key_char_def split: if_splits)

lemma key_token_Cons: "key_token k = CHR ''/'' # tl (key_token k)"
  by (simp add: key_token_def)

lemma key_token_digits: "list_all is_digit s \<Longrightarrow> concat (map key_char s) = s"
  by (induction s) (auto simp: key_char_def is_digit_def)

lemma index_token_key: "index_token i = key_token (nat_dec i)"
  by (simp add: index_token_def key_token_def key_token_digits nat_dec_digits)

lemma nul_free_key_token: "nul_free k \<Longrightarrow> nul_free (key_token k)"
  by (auto simp: nul_free_def key_token_def key_char_def split: if_splits)

lemma nul_free_dec: "nul_free (nat_dec i)"
  using nat_dec_digits [of i] by (auto simp: nul_free_def list_all_iff is_digit_def)

section \<open>Pointers are distinct\<close>

definition below :: "byte list \<Rightarrow> byte list \<Rightarrow> bool" where
  "below p q \<longleftrightarrow> (\<exists>r. q = p @ r \<and> (r = [] \<or> hd r = CHR ''/''))"

lemma below_refl [simp]: "below p p"
  by (simp add: below_def)

lemma below_token: "below (p @ key_token k) q \<Longrightarrow> below p q \<and> q \<noteq> p"
  by (auto simp: below_def key_token_def)

lemma below_token_unique:
  assumes "below (p @ key_token k) q" "below (p @ key_token k') q"
  shows "k = k'"
proof -
  have cut: "takeWhile (\<lambda>c. c \<noteq> CHR ''/'') (tl (key_token k) @ r) = tl (key_token k)" if "r = [] \<or> hd r = CHR ''/''" for k r
    using that key_token_no_slash [of k] by (cases r) (auto simp: takeWhile_append takeWhile_eq_all_conv)
  obtain r where r1: "q = p @ key_token k @ r" "r = [] \<or> hd r = CHR ''/''" using assms(1) by (auto simp: below_def)
  obtain r' where r2: "q = p @ key_token k' @ r'" "r' = [] \<or> hd r' = CHR ''/''" using assms(2) by (auto simp: below_def)
  note r = r1 r2
  then have "tl (key_token k) @ r = tl (key_token k') @ r'" by (simp add: key_token_def)
  then have "tl (key_token k) = tl (key_token k')" using cut [OF r(2), of k] cut [OF r(4), of k'] by simp
  then show ?thesis using key_token_inj key_token_Cons by metis
qed

text \<open>No key is repeated in a map, and no key has a NUL.\<close>

fun clean :: "ynode \<Rightarrow> bool" where
  "clean (YScalar m a t plain v) = True"
| "clean (YSeq m a t ns m') = (\<forall>n \<in> set ns. clean n)"
| "clean (YMap m a t kvs m') =
     (distinct (map (\<lambda>kv. key_bytes (fst kv)) kvs) \<and> (\<forall>kv \<in> set kvs. nul_free (key_bytes (fst kv)) \<and> clean (snd kv)))"

lemma entries_pointers:
  shows "nul_free p \<Longrightarrow> clean n \<Longrightarrow>
      (\<forall>q \<in> set (map en_pointer (node_entries p kp n)). below p q) \<and> distinct (map en_pointer (node_entries p kp n))"
    and "nul_free p \<Longrightarrow> \<forall>n \<in> set ns. clean n \<Longrightarrow>
      (\<forall>q \<in> set (map en_pointer (items_entries p i ns)). \<exists>j \<ge> i. below (p @ key_token (nat_dec j)) q) \<and>
      distinct (map en_pointer (items_entries p i ns))"
    and "nul_free p \<Longrightarrow> distinct (map (\<lambda>kv. key_bytes (fst kv)) kvs) \<Longrightarrow>
      \<forall>kv \<in> set kvs. nul_free (key_bytes (fst kv)) \<and> clean (snd kv) \<Longrightarrow>
      (\<forall>q \<in> set (map en_pointer (pairs_entries p kvs)). \<exists>kv \<in> set kvs. below (p @ key_token (key_bytes (fst kv))) q) \<and>
      distinct (map en_pointer (pairs_entries p kvs))"
proof (induction p kp n and p i ns and p kvs rule: node_entries_items_entries_pairs_entries.induct)
  case (2 p kp m a t ns m')
  then have "\<forall>q \<in> set (map en_pointer (items_entries p 0 ns)). below p q \<and> q \<noteq> p" using below_token by fastforce
  then show ?case using 2 by (auto simp: cstr_id)
next
  case (3 p kp m a t kvs m')
  then have "\<forall>q \<in> set (map en_pointer (pairs_entries p kvs)). below p q \<and> q \<noteq> p" using below_token by fastforce
  then show ?case using 3 by (auto simp: cstr_id)
next
  case (5 p i n ns)
  let ?one = "map en_pointer (node_entries (p @ index_token i) None n)" and ?rest = "map en_pointer (items_entries p (Suc i) ns)"
  have nf: "nul_free (p @ index_token i)" using "5.prems"(1) by (simp add: index_token_key nul_free_key_token nul_free_dec)
  have one: "\<forall>q \<in> set ?one. below (p @ key_token (nat_dec i)) q" "distinct ?one"
    using "5.IH"(1) [OF nf] "5.prems"(2) by (simp_all add: index_token_key)
  have rest: "\<forall>q \<in> set ?rest. \<exists>j \<ge> Suc i. below (p @ key_token (nat_dec j)) q" "distinct ?rest"
    using "5.IH"(2) "5.prems" by simp_all
  have "q \<notin> set ?rest" if "q \<in> set ?one" for q
    using one(1) rest(1) that below_token_unique nat_dec_inj by (metis not_less_eq_eq order_refl)
  moreover have "\<forall>q \<in> set ?rest. \<exists>j \<ge> i. below (p @ key_token (nat_dec j)) q" using rest(1) Suc_leD by blast
  ultimately show ?case using one rest(2) by auto
next
  case (7 p k v kvs)
  let ?one = "map en_pointer (node_entries (p @ key_token (key_bytes k)) (Some (to_pos (node_mark k))) v)"
    and ?rest = "map en_pointer (pairs_entries p kvs)"
  have nf: "nul_free (p @ key_token (key_bytes k))" using "7.prems"(1,3) by (simp add: nul_free_key_token)
  have one: "\<forall>q \<in> set ?one. below (p @ key_token (key_bytes k)) q" "distinct ?one"
    using "7.IH"(1) [OF nf] "7.prems"(3) by simp_all
  have rest: "\<forall>q \<in> set ?rest. \<exists>kv \<in> set kvs. below (p @ key_token (key_bytes (fst kv))) q" "distinct ?rest"
    using "7.IH"(2) "7.prems" by simp_all
  have other: "key_bytes (fst kv) \<noteq> key_bytes k" if "kv \<in> set kvs" for kv using "7.prems"(2) that by force
  have "q \<notin> set ?rest" if "q \<in> set ?one" for q
    using one(1) rest(1) that below_token_unique other by metis
  then show ?case using one rest by auto
qed (simp_all add: cstr_id)

section \<open>Looking up\<close>

definition pointer_text :: "byte list list \<Rightarrow> byte list" where
  "pointer_text xs = concat (map key_token xs)"

text \<open>The node a pointer names, by its tokens: an index in a sequence, a key in a map.\<close>

fun resolve :: "ynode \<Rightarrow> byte list list \<Rightarrow> ynode option" where
  "resolve n [] = Some n"
| "resolve (YScalar m a t plain v) (x # xs) = None"
| "resolve (YSeq m a t ns m') (x # xs) =
     (case filter (\<lambda>i. nat_dec i = x) [0..<length ns] of [] \<Rightarrow> None | i # _ \<Rightarrow> resolve (ns ! i) xs)"
| "resolve (YMap m a t kvs m') (x # xs) =
     (case find (\<lambda>kv. key_bytes (fst kv) = x) kvs of None \<Rightarrow> None | Some kv \<Rightarrow> resolve (snd kv) xs)"

lemma items_entries_nth:
  "j < length ns \<Longrightarrow> set (node_entries (p @ index_token (i + j)) None (ns ! j)) \<subseteq> set (items_entries p i ns)"
proof (induction ns arbitrary: i j)
  case (Cons n ns)
  show ?case
  proof (cases j)
    case (Suc l)
    then show ?thesis using Cons.IH [of l "Suc i"] Cons.prems by auto
  qed simp
qed simp

lemma pairs_entries_member:
  "(k, v) \<in> set kvs \<Longrightarrow>
   set (node_entries (p @ key_token (key_bytes k)) (Some (to_pos (node_mark k))) v) \<subseteq> set (pairs_entries p kvs)"
  by (induction kvs) auto

lemma resolve_entry:
  "resolve n xs = Some n' \<Longrightarrow>
   \<exists>kp'. \<lparr>en_pointer = cstr (p @ pointer_text xs), en_key = kp', en_value = Some (to_pos (node_mark n'))\<rparr> \<in> set (node_entries p kp n)"
proof (induction n xs arbitrary: p kp rule: resolve.induct)
  case (1 n)
  then show ?case by (cases n) (auto simp: pointer_text_def)
next
  case (3 m a t ns m' x xs)
  then obtain i rest where i: "filter (\<lambda>i. nat_dec i = x) [0..<length ns] = i # rest" "resolve (ns ! i) xs = Some n'"
    by (auto split: list.splits)
  then have "i \<in> set (filter (\<lambda>i. nat_dec i = x) [0..<length ns])" by simp
  then have x: "i < length ns" "nat_dec i = x" by auto
  obtain kp' where "\<lparr>en_pointer = cstr ((p @ index_token i) @ pointer_text xs), en_key = kp', en_value = Some (to_pos (node_mark n'))\<rparr>
      \<in> set (node_entries (p @ index_token i) None (ns ! i))"
    using "3.IH" [OF i(1,2)] by blast
  then show ?case using items_entries_nth [OF x(1), of p 0] x(2) by (auto simp: pointer_text_def index_token_key)
next
  case (4 m a t kvs m' x xs)
  then obtain kv where kv: "find (\<lambda>kv. key_bytes (fst kv) = x) kvs = Some kv" "resolve (snd kv) xs = Some n'"
    by (auto split: option.splits)
  then have m: "kv \<in> set kvs" "key_bytes (fst kv) = x" by (auto simp: find_Some_iff)
  obtain kp' where "\<lparr>en_pointer = cstr ((p @ key_token x) @ pointer_text xs), en_key = kp', en_value = Some (to_pos (node_mark n'))\<rparr>
      \<in> set (node_entries (p @ key_token x) (Some (to_pos (node_mark (fst kv)))) (snd kv))"
    using "4.IH" [OF kv(1,2)] by blast
  then show ?case using pairs_entries_member [of "fst kv" "snd kv" kvs p] m by (auto simp: pointer_text_def)
qed simp

lemma resolve_position:
  assumes "clean n" "resolve n xs = Some n'" "ps_e q = node_entries [] None n"
  shows "qwe_positions_value (qwe_positions_finish q) (cstr (pointer_text xs)) = Some (to_pos (node_mark n'))"
proof -
  obtain kp' where e: "\<lparr>en_pointer = cstr (pointer_text xs), en_key = kp', en_value = Some (to_pos (node_mark n'))\<rparr> \<in> set (ps_e q)"
    using resolve_entry [OF assms(2), of "[]"] assms(3) by auto
  have "distinct (map en_pointer (ps_e q))" using entries_pointers(1) [of "[]" n None] assms(1,3) by (simp add: nul_free_def)
  then have "e1 = e2" if "e1 \<in> set (ps_e q)" "e2 \<in> set (ps_e q)" "en_pointer e1 = en_pointer e2" for e1 e2
    using that by (simp add: distinct_map inj_on_def)
  from positions_lookup(1) [OF e] this e show ?thesis by (metis entry.select_convs(1,3))
qed

text \<open>Positions: after a document without repeated keys has been transcoded, looking up the JSON
  pointer of any of its nodes gives the line and column of that node.\<close>

lemma yaml_positions:
  assumes "parses_to parse n" and "\<forall>i. ye_ok e i" and "monotone_bytes e"
    and "len \<le> QWE_YAML_MAX_SIZE" and "length (ye_bytes e (node_toks e n)) \<le> CBOR_MAX_SIZE div 2"
    and "node_error 0 n = None" and "clean n" and "resolve n xs = Some n'"
  shows "\<exists>b ps. qwe_yaml_to_cbor e parse len z = Inr (b, ps) \<and>
    qwe_positions_value ps (cstr (pointer_text xs)) = Some (to_pos (node_mark n'))"
proof -
  obtain ps where ps: "qwe_yaml_to_cbor e parse len z = Inr (ye_bytes e (node_toks e n), ps)"
      "ps_e ps = sort_key entry_key (node_entries [] None n)"
    using qwe_yaml_to_cbor_document [OF assms(1-5), of z] assms(6) by auto
  have "qwe_positions_value ps x = qwe_positions_value (qwe_positions_finish \<lparr>ps_e = node_entries [] None n, ps_cap = 0\<rparr>) x" for x
    using ps(2) by (simp add: qwe_positions_value_def find_entry_def qwe_positions_finish_def)
  then show ?thesis using ps(1) resolve_position [OF assms(7,8), of "\<lparr>ps_e = node_entries [] None n, ps_cap = 0\<rparr>"] by simp
qed

end
