(* ===== verification/Yaml_Values.thy ===== *)
theory Yaml_Values
  imports Yaml_Doc
begin

text \<open>
  What the values of a document become: the literals the transcoder takes for numbers, and the Lua
  value that the kernel makes of the CBOR.
\<close>

section \<open>Number literals\<close>

text \<open>The floats of the YAML core schema, as the comment in the source gives them.\<close>

definition a_sign :: "byte list \<Rightarrow> bool" where
  "a_sign s \<longleftrightarrow> s = [] \<or> s = ''-'' \<or> s = ''+''"

definition digits1 :: "byte list \<Rightarrow> bool" where
  "digits1 s \<longleftrightarrow> s \<noteq> [] \<and> list_all is_digit s"

definition exponent :: "byte list \<Rightarrow> bool" where
  "exponent s \<longleftrightarrow> s = [] \<or> (\<exists>x sg ds. s = x # sg @ ds \<and> (x = CHR ''e'' \<or> x = CHR ''E'') \<and> a_sign sg \<and> digits1 ds)"

definition mantissa :: "byte list \<Rightarrow> bool" where
  "mantissa s \<longleftrightarrow> (\<exists>b. s = CHR ''.'' # b \<and> digits1 b) \<or> digits1 s \<or>
     (\<exists>a b. s = a @ CHR ''.'' # b \<and> digits1 a \<and> list_all is_digit b)"

definition float_literal :: "byte list \<Rightarrow> bool" where
  "float_literal s \<longleftrightarrow>
     (\<exists>sg m x. s = sg @ m @ x \<and> a_sign sg \<and> mantissa m \<and> exponent x \<and> (CHR ''.'' \<in> set m \<or> x \<noteq> []))"

lemma skip_sign_app: "a_sign sg \<Longrightarrow> s \<noteq> [] \<Longrightarrow> hd s \<noteq> CHR ''-'' \<Longrightarrow> hd s \<noteq> CHR ''+'' \<Longrightarrow> skip_sign (sg @ s) = s"
  by (cases s) (auto simp: a_sign_def skip_sign_def)

lemma skip_sign_split: "\<exists>sg. a_sign sg \<and> s = sg @ skip_sign s"
proof (cases s)
  case (Cons ch t)
  show ?thesis
  proof (cases "ch = CHR ''-'' \<or> ch = CHR ''+''")
    case True
    then have "a_sign [ch] \<and> s = [ch] @ skip_sign s" using Cons by (auto simp: skip_sign_def a_sign_def)
    then show ?thesis by blast
  qed (use Cons in \<open>auto simp: skip_sign_def a_sign_def\<close>)
qed (simp add: skip_sign_def a_sign_def)

lemma digit_span:
  assumes "list_all is_digit ds" "r = [] \<or> \<not> is_digit (hd r)"
  shows "takeWhile is_digit (ds @ r) = ds" "dropWhile is_digit (ds @ r) = r"
  using assms by (induction ds; cases r; simp)+

lemma not_digits: "\<not> is_digit (CHR ''-'')" "\<not> is_digit (CHR ''+'')" "\<not> is_digit (CHR ''.'')"
    "\<not> is_digit (CHR ''e'')" "\<not> is_digit (CHR ''E'')"
  by (simp_all add: is_digit_def)

lemma takeWhile_digits: "list_all is_digit (takeWhile is_digit s)"
  by (induction s) auto

lemma exponent_iff:
  "exponent r \<and> r \<noteq> [] \<longleftrightarrow>
     exp_start r \<and> takeWhile is_digit (skip_sign (tl r)) \<noteq> [] \<and> dropWhile is_digit (skip_sign (tl r)) = []"
    (is "?L \<longleftrightarrow> ?R")
proof
  assume ?L
  then obtain x sg ds where r: "r = x # sg @ ds" "x = CHR ''e'' \<or> x = CHR ''E''" "a_sign sg" "digits1 ds"
    by (auto simp: exponent_def)
  have "hd ds \<noteq> CHR ''-''" "hd ds \<noteq> CHR ''+''" using r(4) not_digits by (cases ds; auto simp: digits1_def)+
  then have "skip_sign (tl r) = ds" using r by (simp add: skip_sign_app digits1_def)
  moreover have "takeWhile is_digit ds = ds" "dropWhile is_digit ds = []"
    using digit_span [of ds "[]"] r(4) by (simp_all add: digits1_def)
  moreover have "ds \<noteq> []" using r(4) by (simp add: digits1_def)
  ultimately show ?R using r(1,2) by (cases ds) (auto simp: exp_start_def)
next
  assume R: ?R
  obtain sg where sg: "a_sign sg" "tl r = sg @ skip_sign (tl r)" using skip_sign_split by blast
  have "digits1 (skip_sign (tl r))" using R by (auto simp: digits1_def list_all_iff dropWhile_eq_Nil_conv)
  moreover have "r = hd r # sg @ skip_sign (tl r)" using R sg(2) by (cases r) (auto simp: exp_start_def)
  ultimately show ?L using R sg(1) by (auto simp: exponent_def exp_start_def)
qed

lemma exponent_start: "exponent x \<Longrightarrow> x = [] \<or> \<not> is_digit (hd x) \<and> hd x \<noteq> CHR ''.''"
  using not_digits by (auto simp: exponent_def)

lemma float_mantissa_of:
  assumes "a_sign sg" "exponent x" "list_all is_digit a" "list_all is_digit b"
  shows "a @ b \<noteq> [] \<Longrightarrow> float_mantissa (sg @ a @ CHR ''.'' # b @ x) = (a, b, True, x)"
    and "a \<noteq> [] \<Longrightarrow> float_mantissa (sg @ a @ x) = (a, [], False, x)"
proof -
  have hd: "hd (a @ r) \<noteq> CHR ''-'' \<and> hd (a @ r) \<noteq> CHR ''+''" if "a \<noteq> [] \<or> hd r = CHR ''.''" for r
    using assms(3) that not_digits by (cases a) auto
  note x = exponent_start [OF assms(2)]
  show "float_mantissa (sg @ a @ CHR ''.'' # b @ x) = (a, b, True, x)"
    using hd [of "CHR ''.'' # b @ x"] skip_sign_app [OF assms(1), of "a @ CHR ''.'' # b @ x"]
      digit_span [OF assms(3), of "CHR ''.'' # b @ x"] digit_span [OF assms(4), of x] x not_digits
    by (auto simp: float_mantissa_def Let_def)
  show "float_mantissa (sg @ a @ x) = (a, [], False, x)" if "a \<noteq> []"
    using hd [of x] that skip_sign_app [OF assms(1), of "a @ x"] digit_span [OF assms(3), of x] x
    by (auto simp: float_mantissa_def Let_def)
qed

lemma float_mantissa_split:
  assumes "float_mantissa s = (a, b, dot, r)"
  shows "\<exists>sg. a_sign sg \<and> s = sg @ a @ (if dot then CHR ''.'' # b else []) @ r" "list_all is_digit a" "list_all is_digit b"
    "\<not> dot \<Longrightarrow> b = []"
proof -
  obtain sg where sg: "a_sign sg" "s = sg @ skip_sign s" using skip_sign_split by blast
  show "list_all is_digit a" "list_all is_digit b" "\<not> dot \<Longrightarrow> b = []"
    using assms takeWhile_digits by (auto simp: float_mantissa_def Let_def split: if_splits)
  define r0 where "r0 = dropWhile is_digit (skip_sign s)"
  have t: "skip_sign s = takeWhile is_digit (skip_sign s) @ r0" by (simp add: r0_def)
  have "skip_sign s = a @ (if dot then CHR ''.'' # b else []) @ r"
  proof (cases "r0 \<noteq> [] \<and> hd r0 = CHR ''.''")
    case True
    then have "r0 = CHR ''.'' # takeWhile is_digit (tl r0) @ dropWhile is_digit (tl r0)" by (cases r0) simp_all
    moreover have "a = takeWhile is_digit (skip_sign s)" "b = takeWhile is_digit (tl r0)" "dot" "r = dropWhile is_digit (tl r0)"
      using assms True by (simp_all only: float_mantissa_def Let_def r0_def [symmetric] simp_thms if_True prod.inject)
    ultimately show ?thesis using t by simp
  next
    case False
    then have "a = takeWhile is_digit (skip_sign s)" "b = []" "\<not> dot" "r = r0"
      using assms by (simp_all only: float_mantissa_def Let_def r0_def [symmetric] if_False prod.inject simp_thms)
    then show ?thesis using t by simp
  qed
  then show "\<exists>sg. a_sign sg \<and> s = sg @ a @ (if dot then CHR ''.'' # b else []) @ r" using sg by metis
qed

lemma is_float_iff: "is_float s \<longleftrightarrow> float_literal s"
proof
  assume f: "is_float s"
  obtain a b dot r where m: "float_mantissa s = (a, b, dot, r)" by (metis surj_pair)
  obtain sg where sg: "a_sign sg" "s = sg @ (a @ (if dot then CHR ''.'' # b else [])) @ r"
    using float_mantissa_split(1) [OF m] by auto
  have "exponent r \<and> (dot \<or> r \<noteq> [])"
  proof (cases "exp_start r")
    case True
    then show ?thesis using f m exponent_iff [of r] by (auto simp: is_float_def Let_def split: if_splits)
  next
    case False
    then show ?thesis using f m by (auto simp: is_float_def exponent_def split: if_splits)
  qed
  moreover have "mantissa (a @ (if dot then CHR ''.'' # b else []))"
    using f m float_mantissa_split(2-4) [OF m] by (cases "a = []") (auto simp: is_float_def mantissa_def digits1_def split: if_splits)
  ultimately show "float_literal s" using sg unfolding float_literal_def
    by (intro exI [of _ sg] exI [of _ "a @ (if dot then CHR ''.'' # b else [])"] exI [of _ r]) auto
next
  assume "float_literal s"
  then obtain sg m x where s: "s = sg @ m @ x" "a_sign sg" "mantissa m" "exponent x" "CHR ''.'' \<in> set m \<or> x \<noteq> []"
    by (auto simp: float_literal_def)
  consider b where "m = [] @ CHR ''.'' # b" "digits1 b" | "digits1 m" | a b where "m = a @ CHR ''.'' # b" "digits1 a" "list_all is_digit b"
    using s(3) by (auto simp: mantissa_def)
  then have "\<exists>a b. list_all is_digit a \<and> list_all is_digit b \<and> a @ b \<noteq> [] \<and> (m = a @ CHR ''.'' # b \<or> m = a \<and> b = [] \<and> CHR ''.'' \<notin> set m)"
  proof cases
    case 1
    then show ?thesis by (intro exI [of _ "[]"] exI [of _ b]) (simp add: digits1_def)
  next
    case 2
    then show ?thesis using not_digits(3) by (intro exI [of _ m] exI [of _ "[]"]) (auto simp: digits1_def list_all_iff)
  next
    case 3
    then show ?thesis by (intro exI [of _ a] exI [of _ b]) (simp add: digits1_def)
  qed
  then obtain a b where ab: "list_all is_digit a" "list_all is_digit b" "a @ b \<noteq> []"
      "m = a @ CHR ''.'' # b \<or> m = a \<and> b = [] \<and> CHR ''.'' \<notin> set m" by blast
  have r: "exp_start x \<and> takeWhile is_digit (skip_sign (tl x)) \<noteq> [] \<and> dropWhile is_digit (skip_sign (tl x)) = []" if "x \<noteq> []"
    using s(4) that exponent_iff by blast
  have "\<not> exp_start []" by (simp add: exp_start_def)
  then show "is_float s" using ab(4)
  proof (elim disjE)
    assume "m = a @ CHR ''.'' # b"
    then have "float_mantissa s = (a, b, True, x)" using float_mantissa_of(1) [OF s(2,4) ab(1,2,3)] s(1) by simp
    then show ?thesis using ab(3) r \<open>\<not> exp_start []\<close> by (cases "x = []") (auto simp: is_float_def)
  next
    assume m: "m = a \<and> b = [] \<and> CHR ''.'' \<notin> set m"
    then have "float_mantissa s = (a, [], False, x)" using float_mantissa_of(2) [OF s(2,4) ab(1,2)] s(1) ab(3) by simp
    then show ?thesis using ab(3) m r s(5) by (auto simp: is_float_def)
  qed
qed

lemma int_value_bound:
  assumes "is_int s"
  shows "\<bar>int_value s\<bar> < 10 ^ 18"
proof -
  have "dec_value t < 10 ^ length t" if "list_all is_digit t" for t
    using that
  proof (induction t rule: rev_induct)
    case (snoc c t)
    then have "of_char c - 48 < (10 :: nat)" "dec_value t < 10 ^ length t" by (auto simp: is_digit_def)
    then show ?case by (simp add: dec_value_def)
  qed (simp add: dec_value_def)
  from this [of "skip_sign s"] have "dec_value (skip_sign s) < 10 ^ length (skip_sign s)"
    using assms by (simp add: is_int_def Let_def)
  also have "(10 :: nat) ^ length (skip_sign s) \<le> 10 ^ 18" using assms by (intro power_increasing) (auto simp: is_int_def Let_def)
  finally have "int (dec_value (skip_sign s)) < 10 ^ 18" by simp
  then show ?thesis by (simp add: int_value_def)
qed

section \<open>Documents as CBOR and as Lua values\<close>

fun tok_cbor :: "tok \<Rightarrow> cbor" where
  "tok_cbor T_NULL = CNull"
| "tok_cbor (T_BOOL b) = CBool b"
| "tok_cbor (T_INT i) = CInt i"
| "tok_cbor (T_DOUBLE d) = CDbl d"
| "tok_cbor (T_TEXT s) = CText s"
| "tok_cbor _ = CSimple"

fun node_cbor :: "yenv \<Rightarrow> ynode \<Rightarrow> cbor" where
  "node_cbor e (YScalar m a t plain v) =
     (case t of Some _ \<Rightarrow> CTag QWE_SECRET_TAG (CText v) | None \<Rightarrow> if plain then tok_cbor (plain_tok e v) else CText v)"
| "node_cbor e (YSeq m a t ns m') = CArr (map (node_cbor e) ns) True"
| "node_cbor e (YMap m a t kvs m') = CMap (map (\<lambda>kv. (CText (key_bytes (fst kv)), node_cbor e (snd kv))) kvs) True"

text \<open>The calls that write an item.\<close>

fun flat :: "cbor \<Rightarrow> tok list" where
  "flat (CInt i) = [T_INT i]"
| "flat (CText s) = [T_TEXT s]"
| "flat (CArr cs ended) = T_OPEN False # concat (map flat cs) @ [T_CLOSE]"
| "flat (CMap kcs ended) = T_OPEN True # concat (map (\<lambda>kc. flat (fst kc) @ flat (snd kc)) kcs) @ [T_CLOSE]"
| "flat (CTag t c) = T_TAG t # flat c"
| "flat (CBool b) = [T_BOOL b]"
| "flat CNull = [T_NULL]"
| "flat (CDbl d) = [T_DOUBLE d]"
| "flat _ = []"

lemma flat_plain: "flat (tok_cbor (plain_tok e v)) = [plain_tok e v]"
  by (simp add: plain_tok_def)

lemma flat_node:
  "node_toks e n = flat (node_cbor e n)"
  "items_toks e ns = concat (map flat (map (node_cbor e) ns))"
  "pairs_toks e kvs = concat (map (\<lambda>kc. flat (fst kc) @ flat (snd kc)) (map (\<lambda>kv. (CText (key_bytes (fst kv)), node_cbor e (snd kv))) kvs))"
  by (induction e n and e ns and e kvs rule: node_toks_items_toks_pairs_toks.induct)
    (auto simp: scalar_toks_def flat_plain split: option.splits)

text \<open>
  A whole number as YAML writes it, of any length; the transcoder takes one of up to 18 digits as an integer and a longer
  one as text.
\<close>

definition whole_lit :: "byte list \<Rightarrow> bool" where
  "whole_lit v \<longleftrightarrow> (\<exists>sg ds. v = sg @ ds \<and> a_sign sg \<and> digits1 ds)"

lemma whole_lit_iff: "whole_lit v \<longleftrightarrow> skip_sign v \<noteq> [] \<and> list_all is_digit (skip_sign v)"
proof
  assume "whole_lit v"
  then obtain sg ds where v: "v = sg @ ds" "a_sign sg" "digits1 ds" by (auto simp: whole_lit_def)
  then have "skip_sign v = ds" by (cases ds) (auto simp: a_sign_def skip_sign_def digits1_def is_digit_def)
  with v show "skip_sign v \<noteq> [] \<and> list_all is_digit (skip_sign v)" by (simp add: digits1_def)
next
  assume "skip_sign v \<noteq> [] \<and> list_all is_digit (skip_sign v)"
  then show "whole_lit v" using skip_sign_split [of v] by (auto simp: whole_lit_def digits1_def)
qed

lemma whole_lit_int: "is_int v \<longleftrightarrow> whole_lit v \<and> length (skip_sign v) \<le> 18"
  by (auto simp: is_int_def whole_lit_iff Let_def)

lemma whole_lit_tok:
  assumes "whole_lit v"
  shows "plain_tok e v = (if length (skip_sign v) \<le> 18 then T_INT (int_value v) else T_TEXT v)"
proof -
  have d: "skip_sign v \<noteq> []" "list_all is_digit (skip_sign v)" using assms by (simp_all add: whole_lit_iff)
  have "\<not> is_null v" "v \<notin> {''true'', ''True'', ''TRUE''}" "v \<notin> {''false'', ''False'', ''FALSE''}"
    using d by (auto simp: is_null_def skip_sign_def is_digit_def)
  moreover have "\<not> is_float v"
  proof -
    have w: "takeWhile is_digit (skip_sign v) = skip_sign v" "dropWhile is_digit (skip_sign v) = []"
      using d(2) by (simp_all add: list_all_iff takeWhile_eq_all_conv dropWhile_eq_Nil_conv)
    show ?thesis unfolding is_float_def float_mantissa_def Let_def w by (simp add: exp_start_def)
  qed
  ultimately show ?thesis using assms by (simp add: plain_tok_def whole_lit_int)
qed

text \<open>A whole number of the document, taken as an integer, that no Lua number holds exactly.\<close>

fun has_big :: "ynode \<Rightarrow> bool" where
  "has_big (YScalar m a t plain v) =
     (t = None \<and> plain \<and> whole_lit v \<and> length (skip_sign v) \<le> 18 \<and> \<bar>int_value v\<bar> > 2 ^ 53)"
| "has_big (YSeq m a t ns m') = (\<exists>n \<in> set ns. has_big n)"
| "has_big (YMap m a t kvs m') = (\<exists>kv \<in> set kvs. has_big (snd kv))"

lemma big_tok:
  "(case plain_tok e v of T_INT i \<Rightarrow> i > MAX_EXACT \<or> i < - MAX_EXACT | _ \<Rightarrow> False) \<longleftrightarrow>
     whole_lit v \<and> length (skip_sign v) \<le> 18 \<and> \<bar>int_value v\<bar> > 2 ^ 53"
proof (cases "is_int v")
  case True
  then show ?thesis using whole_lit_tok [of v e] by (auto simp: whole_lit_int MAX_EXACT_def)
next
  case False
  then have "plain_tok e v \<noteq> T_INT i" for i by (simp add: plain_tok_def)
  with False show ?thesis by (auto simp: whole_lit_int split: tok.splits)
qed

definition converts :: "bool \<Rightarrow> cstring + 'a \<Rightarrow> bool" where
  "converts big r = (case r of Inl m \<Rightarrow> big \<and> m = ''integer out of range (beyond 2^53)'' | Inr _ \<Rightarrow> \<not> big)"

lemma plain_tok_kinds: "plain_tok e v \<noteq> T_TAG x" "plain_tok e v \<noteq> T_OPEN b" "plain_tok e v \<noteq> T_CLOSE"
  by (simp_all add: plain_tok_def)

lemma convert_int: "converts (i > MAX_EXACT \<or> i < - MAX_EXACT) (convert_scalar (CInt i))"
proof -
  have "i > 2 ^ 63 - 1 \<or> i < - (2 ^ 63) \<or> i > MAX_EXACT \<or> i < - MAX_EXACT \<longleftrightarrow> i > MAX_EXACT \<or> i < - MAX_EXACT"
    by (auto simp: MAX_EXACT_def)
  then show ?thesis by (simp add: converts_def)
qed

lemma convert_plain:
  "converts (case plain_tok e v of T_INT i \<Rightarrow> i > MAX_EXACT \<or> i < - MAX_EXACT | _ \<Rightarrow> False) (convert_scalar (tok_cbor (plain_tok e v)))"
proof (cases "plain_tok e v")
  case (T_INT i)
  then show ?thesis using convert_int by simp
qed (use plain_tok_kinds in \<open>auto simp: converts_def\<close>)

lemma convert_scalar_node:
  assumes "node_error d (YScalar m a t plain v) = None"
  shows "converts (has_big (YScalar m a t plain v)) (convert left (node_cbor e (YScalar m a t plain v)))"
proof -
  let ?c = "node_cbor e (YScalar m a t plain v)"
  have t: "t = None \<or> t = Some ENCRYPTED_TAG" using assms props_error_tag [of m a t True] by auto
  have "\<not> is_container (tok_cbor (plain_tok e v))" by (cases "plain_tok e v") (simp_all add: is_container_def)
  then have "\<not> is_container ?c" by (simp add: is_container_def split: option.splits)
  then have "convert left ?c = convert_scalar ?c" by (rule convert_of_scalar)
  moreover have "converts (has_big (YScalar m a t plain v)) (convert_scalar ?c)"
  proof (cases "t = None \<and> plain")
    case True
    then show ?thesis using convert_plain [of e v, unfolded big_tok] by simp
  next
    case False
    then show ?thesis using t by (auto simp: convert_tagged_def converts_def)
  qed
  ultimately show ?thesis by simp
qed

lemma convert_node:
  "node_error d n = None \<Longrightarrow> d + left = QWE_LUA_MAX_DEPTH \<Longrightarrow> converts (has_big n) (convert left (node_cbor e n))"
  "items_error d ns = None \<Longrightarrow> d + left = QWE_LUA_MAX_DEPTH \<Longrightarrow>
     converts (\<exists>n \<in> set ns. has_big n) (convert_items (convert left) (map (node_cbor e) ns))"
  "pairs_error d kvs = None \<Longrightarrow> d + left = QWE_LUA_MAX_DEPTH \<Longrightarrow>
     converts (\<exists>kv \<in> set kvs. has_big (snd kv))
       (convert_fields (convert left) (map (\<lambda>kv. (CText (key_bytes (fst kv)), node_cbor e (snd kv))) kvs) fs)"
proof (induction d n and d ns and d kvs arbitrary: left and left and left fs rule: node_error_items_error_pairs_error.induct)
  case (1 d m a t plain v)
  then show ?case using convert_scalar_node by blast
next
  case (2 d m a t ns m')
  then have d: "d < QWE_YAML_MAX_DEPTH" "items_error (Suc d) ns = None" by (auto simp: or_else_def split: option.splits if_splits)
  then obtain l where l: "left = Suc l" using "2.prems"(2) by (cases left) (auto simp: QWE_YAML_MAX_DEPTH_def QWE_LUA_MAX_DEPTH_def)
  have "converts (\<exists>n \<in> set ns. has_big n) (convert_items (convert l) (map (node_cbor e) ns))"
    using "2.IH" [of l] d l "2.prems"(2) by simp
  then show ?case using l by (auto simp: converts_def convert_container_def split: sum.splits)
next
  case (3 d m a t kvs m')
  then have d: "d < QWE_YAML_MAX_DEPTH" "pairs_error (Suc d) kvs = None" by (auto simp: or_else_def split: option.splits if_splits)
  then obtain l where l: "left = Suc l" using "3.prems"(2) by (cases left) (auto simp: QWE_YAML_MAX_DEPTH_def QWE_LUA_MAX_DEPTH_def)
  have "converts (\<exists>kv \<in> set kvs. has_big (snd kv))
      (convert_fields (convert l) (map (\<lambda>kv. (CText (key_bytes (fst kv)), node_cbor e (snd kv))) kvs) [])"
    using "3.IH" [of l] d l "3.prems"(2) by simp
  then show ?case using l by (auto simp: converts_def convert_container_def split: sum.splits)
next
  case (5 d n ns)
  then have "converts (has_big n) (convert left (node_cbor e n))"
      "converts (\<exists>n \<in> set ns. has_big n) (convert_items (convert left) (map (node_cbor e) ns))"
    by (auto simp: or_else_def split: option.splits)
  then show ?case by (auto simp: converts_def map_sum_def split: sum.splits)
next
  case (7 d k v kvs)
  then have one: "converts (has_big v) (convert left (node_cbor e v))"
    and rest: "converts (\<exists>kv \<in> set kvs. has_big (snd kv))
        (convert_fields (convert left) (map (\<lambda>kv. (CText (key_bytes (fst kv)), node_cbor e (snd kv))) kvs) gs)" for gs
    by (auto simp: or_else_def split: option.splits)
  show ?case
  proof (cases "convert left (node_cbor e v)")
    case (Inr x)
    then show ?thesis using one rest [of "upd_field (key_bytes k) x fs"] by (simp add: converts_def)
  qed (use one in \<open>simp add: converts_def\<close>)
qed (simp_all add: converts_def)

text \<open>C27. From the text of a document to Lua. A document the transcoder takes becomes a Lua value, with the
  two depth limits in agreement, unless it has a plain whole number beyond \<open>2^53\<close> of at most 18 digits, which
  is the one thing that is refused then. What a plain whole number is taken as depends on its length alone: up
  to 18 digits it is the integer it denotes, and beyond that it is text, so it is never refused.\<close>

theorem yaml_reaches_lua:
  assumes "parses_to parse n" and "\<forall>i. ye_ok e i" and "monotone_bytes e"
    and "len \<le> QWE_YAML_MAX_SIZE" and "length (ye_bytes e (node_toks e n)) \<le> CBOR_MAX_SIZE div 2"
    and "node_error 0 n = None" and "cursor (ye_bytes e (flat (node_cbor e n))) = Some (node_cbor e n)"
  shows "(\<exists>b ps. qwe_yaml_to_cbor e parse len z = Inr (b, ps) \<and>
      (if has_big n then qwe_cbor_to_lua cursor b = Inl ''integer out of range (beyond 2^53)''
       else \<exists>v. qwe_cbor_to_lua cursor b = Inr v \<and> wire (\<lambda>_. True) (Suc QWE_LUA_MAX_DEPTH) v))
    \<and> (\<forall>v. whole_lit v \<longrightarrow> plain_tok e v = (if length (skip_sign v) \<le> 18 then T_INT (int_value v) else T_TEXT v))"
proof -
  obtain ps where ps: "qwe_yaml_to_cbor e parse len z = Inr (ye_bytes e (node_toks e n), ps)"
    using qwe_yaml_to_cbor_document [OF assms(1-5), of z] assms(6) by auto
  have r: "qwe_cbor_to_lua cursor (ye_bytes e (node_toks e n)) = convert QWE_LUA_MAX_DEPTH (node_cbor e n)"
    using assms(7) by (simp add: qwe_cbor_to_lua_def flat_node(1))
  have "converts (has_big n) (convert QWE_LUA_MAX_DEPTH (node_cbor e n))" using convert_node(1) [OF assms(6)] by simp
  then have "\<exists>b ps. qwe_yaml_to_cbor e parse len z = Inr (b, ps) \<and>
      (if has_big n then qwe_cbor_to_lua cursor b = Inl ''integer out of range (beyond 2^53)''
       else \<exists>v. qwe_cbor_to_lua cursor b = Inr v \<and> wire (\<lambda>_. True) (Suc QWE_LUA_MAX_DEPTH) v)"
    using ps r convert_wire by (auto simp: converts_def simp del: wire.simps split: sum.splits)
  with whole_lit_tok show ?thesis by blast
qed

lemma doc_ex_small: "\<not> has_big doc_ex"
  by (simp add: doc_ex_def env_ex_def plain_tok_def is_null_def is_int_def skip_sign_def Let_def is_digit_def int_value_def
    negative_def dec_value_def MAX_EXACT_def)

theorem yaml_reaches_lua_witness:
  "\<exists>b ps v. qwe_yaml_to_cbor env_ex (parse_ex doc_ex) 40 128 = Inr (b, ps) \<and>
     qwe_cbor_to_lua (\<lambda>_. Some (node_cbor env_ex doc_ex)) b = Inr v"
  using yaml_reaches_lua [OF parse_ex_ok env_ex_ok doc_ex_ok(3,2,1) refl, of 128] doc_ex_small by auto

end
