(* ===== verification/Validate.thy ===== *)
theory Validate
  imports Positions Dag Workflow
begin

text \<open>
  Validation (\<open>src/kernel/validate.c\<close>): the problems found in a document, their places, the check of
  the \<open>needs:\<close> graph and what is printed. The validators written in Lua are parameters: what they
  answer for the document. The jobs of the document are given as in the loading of a workflow. Every
  allocation is numbered, as it is made.
\<close>

section \<open>Problems\<close>

record problem =
  pb_pos :: qwe_pos
  pb_message :: cstring

record problems =
  pv_v :: "problem list"
  pv_cap :: nat
  pv_oom :: bool

definition problems_zero :: problems where
  "problems_zero = \<lparr>pv_v = [], pv_cap = 0, pv_oom = False\<rparr>"

definition add_problem :: "(nat \<Rightarrow> bool) \<Rightarrow> problems \<Rightarrow> qwe_pos \<Rightarrow> cstring \<Rightarrow> nat \<Rightarrow> problems \<times> nat" where
  "add_problem ok ps pos message k =
     (let full = (length (pv_v ps) = pv_cap ps);
          k1 = (if full then Suc k else k);
          ps1 = (if full then ps\<lparr>pv_cap := if pv_cap ps \<noteq> 0 then pv_cap ps * 2 else 16\<rparr> else ps)
      in if full \<and> \<not> ok k then (ps\<lparr>pv_oom := True\<rparr>, k1)
         else if \<not> ok k1 then (ps1\<lparr>pv_oom := True\<rparr>, Suc k1)
         else (ps1\<lparr>pv_v := pv_v ps1 @ [\<lparr>pb_pos = pos, pb_message = message\<rparr>]\<rparr>, Suc k1))"

section \<open>Places\<close>

text \<open>\<open>strrchr\<close> for a slash: what is before the last one, and what is behind it (all, if there is none).\<close>

definition before_slash :: "cstring \<Rightarrow> cstring" where
  "before_slash p = rev (drop 1 (dropWhile (\<lambda>c. c \<noteq> CHR ''/'') (rev p)))"

definition after_slash :: "cstring \<Rightarrow> cstring" where
  "after_slash p = rev (takeWhile (\<lambda>c. c \<noteq> CHR ''/'') (rev p))"

lemma before_slash_shorter: "CHR ''/'' \<in> set p \<Longrightarrow> length (before_slash p) < length p"
proof -
  assume s: "CHR ''/'' \<in> set p"
  have "dropWhile (\<lambda>c. c \<noteq> CHR ''/'') (rev p) \<noteq> []" using s by (simp add: dropWhile_eq_Nil_conv)
  then have "length (drop 1 (dropWhile (\<lambda>c. c \<noteq> CHR ''/'') (rev p))) < length (dropWhile (\<lambda>c. c \<noteq> CHR ''/'') (rev p))"
    by (cases "dropWhile (\<lambda>c. c \<noteq> CHR ''/'') (rev p)") auto
  also have "\<dots> \<le> length p" using length_dropWhile_le [of "\<lambda>c. c \<noteq> CHR ''/''" "rev p"] by simp
  finally show ?thesis by (simp add: before_slash_def)
qed

definition first_pos :: qwe_pos where
  "first_pos = \<lparr>ps_line = 1, ps_col = 1\<rparr>"

function locate_loop :: "qwe_positions \<Rightarrow> cstring \<Rightarrow> bool \<Rightarrow> bool \<Rightarrow> qwe_pos" where
  "locate_loop pos p fst_round want_key =
     (case (if fst_round \<and> want_key then qwe_positions_key pos p else qwe_positions_value pos p) of
        Some q \<Rightarrow> q
      | None \<Rightarrow> if CHR ''/'' \<notin> set p then first_pos else locate_loop pos (before_slash p) False want_key)"
  by pat_completeness auto
termination
  by (relation "measure (\<lambda>(pos, p, f, w). length p)") (simp_all add: before_slash_shorter)

declare locate_loop.simps [simp del]

definition locate ::
    "(nat \<Rightarrow> bool) \<Rightarrow> qwe_positions \<Rightarrow> cstring \<Rightarrow> bool \<Rightarrow> problems \<Rightarrow> nat \<Rightarrow> qwe_pos \<times> problems \<times> nat" where
  "locate ok pos pointer want_key ps k =
     (if \<not> ok k then (first_pos, ps\<lparr>pv_oom := True\<rparr>, Suc k)
      else (locate_loop pos pointer True want_key, ps, Suc k))"

fun escape_loop :: "cstring \<Rightarrow> cstring" where
  "escape_loop [] = []"
| "escape_loop (c # s) =
     (if c = CHR ''~'' then CHR ''~'' # CHR ''0'' # escape_loop s
      else if c = CHR ''/'' then CHR ''~'' # CHR ''1'' # escape_loop s
      else c # escape_loop s)"

definition escape_token :: "(nat \<Rightarrow> bool) \<Rightarrow> cstring option \<Rightarrow> nat \<Rightarrow> cstring option \<times> nat" where
  "escape_token ok s k = (if \<not> ok k then (None, Suc k) else (Some (escape_loop (case s of None \<Rightarrow> [] | Some t \<Rightarrow> t)), Suc k))"

fun unescape_loop :: "cstring \<Rightarrow> cstring" where
  "unescape_loop [] = []"
| "unescape_loop [c] = [c]"
| "unescape_loop (c # d # s) =
     (if c = CHR ''~'' \<and> d = CHR ''1'' then CHR ''/'' # unescape_loop s
      else if c = CHR ''~'' \<and> d = CHR ''0'' then CHR ''~'' # unescape_loop s
      else c # unescape_loop (d # s))"

definition last_token :: "(nat \<Rightarrow> bool) \<Rightarrow> cstring \<Rightarrow> nat \<Rightarrow> cstring option \<times> nat" where
  "last_token ok pointer k = (if \<not> ok k then (None, Suc k) else (Some (unescape_loop (after_slash pointer)), Suc k))"

section \<open>The needs graph of a document\<close>

text \<open>\<open>qwe_xfmt\<close>: the text, or the abort of the program when it does not fit.\<close>

definition xfmt :: "nat \<Rightarrow> cstring \<Rightarrow> cstring option" where
  "xfmt sz s = (if length s < sz then Some s else None)"

text \<open>The copies of the needs; an entry that is not a string gives \<open>strdup\<close> a null pointer, which is the
  \<open>None\<close> of the result. Its inner \<open>None\<close> is a failed allocation.\<close>

fun copy_need_list :: "(nat \<Rightarrow> bool) \<Rightarrow> cstring option list \<Rightarrow> nat \<Rightarrow> (cstring list \<times> nat) option option" where
  "copy_need_list ok [] k = Some (Some ([], k))"
| "copy_need_list ok (None # xs) k = None"
| "copy_need_list ok (Some s # xs) k =
     (if \<not> ok k then Some None
      else map_option (map_option (\<lambda>(ns, k'). (s # ns, k'))) (copy_need_list ok xs (Suc k)))"

fun dag_jobs :: "(nat \<Rightarrow> bool) \<Rightarrow> (cstring \<times> job_table) list \<Rightarrow> nat \<Rightarrow> (qwe_dag_job list \<times> nat) option option" where
  "dag_jobs ok [] k = Some (Some ([], k))"
| "dag_jobs ok ((i, t) # es) k =
     (case (case jt_needs t of
              None \<Rightarrow> Some (Some ([], k))
            | Some xs \<Rightarrow> if \<not> ok k then Some None else copy_need_list ok xs (Suc k)) of
        None \<Rightarrow> None
      | Some None \<Rightarrow> Some None
      | Some (Some (ns, k1)) \<Rightarrow>
          map_option (map_option (\<lambda>(js, k2). (\<lparr>dj_id = i, dj_needs = ns\<rparr> # js, k2))) (dag_jobs ok es k1))"

definition dag_pointer :: "qwe_dag_status \<Rightarrow> cstring \<Rightarrow> nat \<Rightarrow> cstring" where
  "dag_pointer st tok need =
     (case st of
        QWE_DAG_NO_MEMORY \<Rightarrow> ''/jobs''
      | QWE_DAG_UNKNOWN_NEED \<Rightarrow> ''/jobs/'' @ tok @ ''/needs/'' @ nat_dec need
      | _ \<Rightarrow> ''/jobs/'' @ tok)"

text \<open>The problem of a verdict other than OK.\<close>

definition report_dag ::
    "(nat \<Rightarrow> bool) \<Rightarrow> qwe_positions \<Rightarrow> qwe_dag_job list \<Rightarrow> qwe_dag_status \<Rightarrow> qwe_dag_error \<Rightarrow> problems \<Rightarrow> nat \<Rightarrow> problems option" where
  "report_dag ok pos jobs st err ps k =
     (case (if st = QWE_DAG_NO_MEMORY then (if ok k then (Some [], Suc k) else (None, Suc k))
            else escape_token ok (Some (dj_id (jobs ! de_job err))) k) of
        (None, k1) \<Rightarrow> Some (ps\<lparr>pv_oom := True\<rparr>)
      | (Some tok, k1) \<Rightarrow>
          if \<not> ok k1 then Some (ps\<lparr>pv_oom := True\<rparr>)
          else (case xfmt (length tok + 64) (dag_pointer st tok (de_need err)) of
                  None \<Rightarrow> None
                | Some ptr \<Rightarrow>
                    (case locate ok pos ptr (st = QWE_DAG_CYCLE) ps (Suc k1) of
                       (p, ps1, k2) \<Rightarrow> Some (fst (add_problem ok ps1 p (de_message err) k2)))))"

text \<open>
  The ids are copied into an array that grows from eight, as when the jobs are loaded, and sorted.
  \<open>None\<close> is the end of the program: an abort, or a null pointer that was not expected.
\<close>

definition check_dag ::
    "(nat \<Rightarrow> bool) \<Rightarrow> (cstring \<times> job_table) list \<Rightarrow> qwe_positions \<Rightarrow> problems \<Rightarrow> nat \<Rightarrow> problems option" where
  "check_dag ok tbl pos ps k =
     (case load_ids ok tbl 0 0 k of
        None \<Rightarrow> Some (ps\<lparr>pv_oom := True\<rparr>)
      | Some k1 \<Rightarrow>
          if \<not> ok k1 \<or> \<not> ok (Suc k1) then Some (ps\<lparr>pv_oom := True\<rparr>)
          else (case dag_jobs ok (sort_key (\<lambda>e. cmp_key (fst e)) tbl) (Suc (Suc k1)) of
                  None \<Rightarrow> None
                | Some None \<Rightarrow> Some (ps\<lparr>pv_oom := True\<rparr>)
                | Some (Some (jobs, k2)) \<Rightarrow>
                    (case qwe_dag_check (\<lambda>i. ok (k2 + i)) jobs of
                       None \<Rightarrow> None
                     | Some (st, err) \<Rightarrow>
                         if st = QWE_DAG_OK then Some ps
                         else report_dag ok pos jobs st err ps (if st = QWE_DAG_UNKNOWN_NEED then k2 else k2 + 2))))"

section \<open>Collecting and printing\<close>

text \<open>The directory of the workflow: the empty string for the current one.\<close>

definition validate_dir :: "cstring \<Rightarrow> cstring" where
  "validate_dir path = (if CHR ''/'' \<in> set path then before_slash path else [])"

text \<open>An error of a validator: \<open>None\<close> for a field that is not a string.\<close>

record verr =
  ve_pointer :: "cstring option"
  ve_kind :: "cstring option"
  ve_message :: "cstring option"

fun collect_errors ::
    "(nat \<Rightarrow> bool) \<Rightarrow> verr list \<Rightarrow> qwe_positions \<Rightarrow> problems \<Rightarrow> nat \<Rightarrow> problems \<times> nat" where
  "collect_errors ok [] pos ps k = (ps, k)"
| "collect_errors ok (e # es) pos ps k =
     (case locate ok pos (case ve_pointer e of None \<Rightarrow> [] | Some p \<Rightarrow> p) (ve_kind e = Some ''key'') ps k of
        (p, ps1, k1) \<Rightarrow>
          (case add_problem ok ps1 p (case ve_message e of None \<Rightarrow> ''invalid'' | Some m \<Rightarrow> m) k1 of
             (ps2, k2) \<Rightarrow> collect_errors ok es pos ps2 k2))"

text \<open>The message is cut to a buffer of 512 bytes.\<close>

definition duplicate_text :: "cstring \<Rightarrow> nat \<Rightarrow> cstring" where
  "duplicate_text x l1 = take 511 (''duplicate key \"'' @ x @ ''\" (first at line '' @ nat_dec l1 @ '')'')"

definition add_duplicate ::
    "(nat \<Rightarrow> bool) \<Rightarrow> cstring \<times> qwe_pos \<times> qwe_pos \<Rightarrow> problems \<Rightarrow> nat \<Rightarrow> problems \<times> nat" where
  "add_duplicate ok d ps k =
     (case d of (pointer, one, two) \<Rightarrow>
        (case last_token ok pointer k of
           (None, k1) \<Rightarrow> (ps\<lparr>pv_oom := True\<rparr>, k1)
         | (Some tok, k1) \<Rightarrow> add_problem ok ps two (duplicate_text tok (ps_line one)) k1))"

fun collect_duplicates ::
    "(nat \<Rightarrow> bool) \<Rightarrow> (cstring \<times> qwe_pos \<times> qwe_pos) list \<Rightarrow> problems \<Rightarrow> nat \<Rightarrow> problems \<times> nat" where
  "collect_duplicates ok [] ps k = (ps, k)"
| "collect_duplicates ok (d # ds) ps k = (case add_duplicate ok d ps k of (ps1, k1) \<Rightarrow> collect_duplicates ok ds ps1 k1)"

text \<open>\<open>cmp_problem\<close> orders by line, column and message.\<close>

definition problem_key :: "problem \<Rightarrow> nat list list" where
  "problem_key p = [[ps_line (pb_pos p), ps_col (pb_pos p)], cmp_key (pb_message p)]"

definition problem_line :: "cstring \<Rightarrow> cstring \<Rightarrow> problem \<Rightarrow> cstring" where
  "problem_line cmd path p = cmd @ '': '' @ path @ '':'' @ nat_dec (ps_line (pb_pos p)) @ '':''
     @ nat_dec (ps_col (pb_pos p)) @ '': '' @ pb_message p"

definition oom_line :: "cstring \<Rightarrow> cstring \<Rightarrow> cstring" where
  "oom_line cmd path = cmd @ '': '' @ path @ '': out of memory while checking the workflow''"

text \<open>What is printed to the standard error: a line for each element, without its newline.\<close>

definition print_problems :: "problems \<Rightarrow> cstring \<Rightarrow> cstring \<Rightarrow> cstring list" where
  "print_problems ps cmd path =
     map (problem_line cmd path) (sort_key problem_key (pv_v ps)) @ (if pv_oom ps then [oom_line cmd path] else [])"

definition print_plugin_problems :: "cstring \<Rightarrow> (cstring \<times> cstring) list \<Rightarrow> cstring list" where
  "print_plugin_problems cmd pps = map (\<lambda>(where, message). cmd @ '': '' @ where @ '': '' @ message) pps"

fun strstr :: "cstring \<Rightarrow> cstring \<Rightarrow> bool" where
  "strstr [] x = (x = [])"
| "strstr (c # s) x = (take (length x) (c # s) = x \<or> strstr s x)"

definition report_internal_error :: "cstring option \<Rightarrow> cstring \<Rightarrow> cstring \<Rightarrow> cstring \<Rightarrow> cstring list" where
  "report_internal_error msg cmd label path =
     (case msg of
        Some m \<Rightarrow> if strstr m ''malloc failed'' \<or> strstr m ''memory'' then [oom_line cmd path]
                  else [cmd @ '': '' @ path @ '': internal error in the '' @ label @ '': '' @ m]
      | None \<Rightarrow> [cmd @ '': '' @ path @ '': internal error in the '' @ label @ '': unknown error''])"

section \<open>Validation\<close>

text \<open>
  What Lua answers: a call that fails leaves its error value, a string or not. The project validator
  gets the directory and gives the errors of the workflow and the problems of the plugins.
\<close>

record validator =
  vl_ok :: "nat \<Rightarrow> bool"
  vl_require :: "cstring \<Rightarrow> cstring option + unit"
  vl_project :: "cstring \<Rightarrow> cstring option + verr list \<times> (cstring \<times> cstring) list"
  vl_inventory :: "cstring option + verr list"

definition int_of_size :: "nat \<Rightarrow> int" where
  "int_of_size n = (int n + 2 ^ 31) mod 2 ^ 32 - 2 ^ 31"

definition collect :: "validator \<Rightarrow> verr list \<Rightarrow> qwe_positions \<Rightarrow> nat \<Rightarrow> problems \<times> nat" where
  "collect vl es pos k =
     (case collect_errors (vl_ok vl) es pos problems_zero k of
        (ps, k1) \<Rightarrow> collect_duplicates (vl_ok vl) (qwe_positions_duplicates pos) ps k1)"

text \<open>The number of problems and the lines printed.\<close>

definition qwe_validate_doc ::
    "validator \<Rightarrow> cstring \<Rightarrow> cstring \<Rightarrow> qwe_positions \<Rightarrow> (cstring \<times> job_table) list \<Rightarrow> (int \<times> cstring list) option" where
  "qwe_validate_doc vl cmd path pos tbl =
     (case vl_require vl ''qwe.validate'' of
        Inl e \<Rightarrow> Some (1, report_internal_error e cmd ''validator'' path)
      | Inr _ \<Rightarrow>
          if \<not> vl_ok vl 0 then Some (1, [cmd @ '': '' @ path @ '': out of memory''])
          else (case vl_project vl (validate_dir path) of
                  Inl e \<Rightarrow> Some (1, report_internal_error e cmd ''validator'' path)
                | Inr (es, pps) \<Rightarrow>
                    (case collect vl es pos 1 of
                       (ps, k) \<Rightarrow>
                         (case (if pv_v ps = [] \<and> \<not> pv_oom ps then check_dag (vl_ok vl) tbl pos ps k else Some ps) of
                            None \<Rightarrow> None
                          | Some ps' \<Rightarrow>
                              Some (int_of_size (length (pv_v ps') + (if pv_oom ps' then 1 else 0) + length pps),
                                    print_plugin_problems cmd pps @ print_problems ps' cmd path)))))"

definition qwe_validate_inventory ::
    "validator \<Rightarrow> cstring \<Rightarrow> cstring \<Rightarrow> qwe_positions \<Rightarrow> int \<times> cstring list" where
  "qwe_validate_inventory vl cmd path pos =
     (case vl_require vl ''qwe.inventory'' of
        Inl e \<Rightarrow> (1, report_internal_error e cmd ''inventory reader'' path)
      | Inr _ \<Rightarrow>
          (case vl_inventory vl of
             Inl e \<Rightarrow> (1, report_internal_error e cmd ''inventory reader'' path)
           | Inr es \<Rightarrow>
               (case collect vl es pos 0 of
                  (ps, k) \<Rightarrow> (int_of_size (length (pv_v ps) + (if pv_oom ps then 1 else 0)), print_problems ps cmd path))))"

section \<open>What is collected\<close>

definition clear :: "problems \<Rightarrow> bool" where
  "clear ps \<longleftrightarrow> pv_v ps = [] \<and> \<not> pv_oom ps"

lemma add_problem_result:
  obtains "pv_v (fst (add_problem ok ps p m k)) = pv_v ps @ [\<lparr>pb_pos = p, pb_message = m\<rparr>]" "pv_oom (fst (add_problem ok ps p m k)) = pv_oom ps"
  | "pv_v (fst (add_problem ok ps p m k)) = pv_v ps" "pv_oom (fst (add_problem ok ps p m k))" "\<exists>i. \<not> ok i"
  by (cases "length (pv_v ps) = pv_cap ps"; cases "ok k"; cases "ok (Suc k)") (auto simp: add_problem_def Let_def)

lemma add_problem_not_clear: "\<not> clear (fst (add_problem ok ps p m k))"
  by (rule add_problem_result [of ok ps p m k]) (simp_all add: clear_def)

lemma locate_result:
  "fst (locate ok pos q w ps k) = (if ok k then locate_loop pos q True w else first_pos)"
  "pv_v (fst (snd (locate ok pos q w ps k))) = pv_v ps"
  "pv_oom (fst (snd (locate ok pos q w ps k))) = (pv_oom ps \<or> \<not> ok k)"
  by (simp_all add: locate_def)

lemma collect_errors_clear: "clear (fst (collect_errors ok es pos ps k)) \<longleftrightarrow> clear ps \<and> es = []"
  by (induction es arbitrary: ps k) (simp_all add: case_prod_beta add_problem_not_clear)

lemma add_duplicate_not_clear: "\<not> clear (fst (add_duplicate ok d ps k))"
  using add_problem_not_clear by (simp add: add_duplicate_def last_token_def clear_def split: prod.splits)

lemma collect_duplicates_clear: "clear (fst (collect_duplicates ok ds ps k)) \<longleftrightarrow> clear ps \<and> ds = []"
  by (induction ds arbitrary: ps k) (simp_all add: case_prod_beta add_duplicate_not_clear)

lemma collect_clear: "clear (fst (collect vl es pos k)) \<longleftrightarrow> es = [] \<and> qwe_positions_duplicates pos = []"
  by (simp add: collect_def case_prod_beta collect_duplicates_clear collect_errors_clear) (simp add: clear_def problems_zero_def)

text \<open>With memory, the problems are the errors and the repeated keys.\<close>

definition error_problem :: "qwe_positions \<Rightarrow> verr \<Rightarrow> problem" where
  "error_problem pos e =
     \<lparr>pb_pos = locate_loop pos (case ve_pointer e of None \<Rightarrow> [] | Some p \<Rightarrow> p) True (ve_kind e = Some ''key''),
      pb_message = (case ve_message e of None \<Rightarrow> ''invalid'' | Some m \<Rightarrow> m)\<rparr>"

definition duplicate_problem :: "cstring \<times> qwe_pos \<times> qwe_pos \<Rightarrow> problem" where
  "duplicate_problem d =
     (case d of (pointer, one, two) \<Rightarrow>
        \<lparr>pb_pos = two, pb_message = duplicate_text (unescape_loop (after_slash pointer)) (ps_line one)\<rparr>)"

lemma add_problem_memory:
  assumes "\<And>i. ok i"
  shows "pv_v (fst (add_problem ok ps p m k)) = pv_v ps @ [\<lparr>pb_pos = p, pb_message = m\<rparr>]"
    and "pv_oom (fst (add_problem ok ps p m k)) = pv_oom ps"
  using assms by (rule_tac [!] add_problem_result [of ok ps p m k]) auto

lemma collect_errors_memory:
  assumes "\<And>i. ok i"
  shows "pv_v (fst (collect_errors ok es pos ps k)) = pv_v ps @ map (error_problem pos) es
    \<and> pv_oom (fst (collect_errors ok es pos ps k)) = pv_oom ps"
  by (induction es arbitrary: ps k)
    (simp_all add: case_prod_beta add_problem_memory [OF assms] locate_result assms error_problem_def)

lemma collect_duplicates_memory:
  assumes "\<And>i. ok i"
  shows "pv_v (fst (collect_duplicates ok ds ps k)) = pv_v ps @ map duplicate_problem ds
    \<and> pv_oom (fst (collect_duplicates ok ds ps k)) = pv_oom ps"
  by (induction ds arbitrary: ps k)
    (simp_all add: case_prod_beta add_duplicate_def last_token_def add_problem_memory [OF assms] assms duplicate_problem_def)

lemma collect_memory:
  assumes "\<And>i. vl_ok vl i"
  shows "pv_v (fst (collect vl es pos k)) = map (error_problem pos) es @ map duplicate_problem (qwe_positions_duplicates pos)"
    and "\<not> pv_oom (fst (collect vl es pos k))"
  by (simp_all add: collect_def case_prod_beta collect_duplicates_memory [OF assms] collect_errors_memory [OF assms] problems_zero_def)

section \<open>The graph that is checked\<close>

text \<open>Every entry of a \<open>needs\<close> is a string, as the schema demands.\<close>

definition string_needs :: "(cstring \<times> job_table) list \<Rightarrow> bool" where
  "string_needs tbl \<longleftrightarrow>
     list_all (\<lambda>e. case jt_needs (snd e) of None \<Rightarrow> True | Some xs \<Rightarrow> None \<notin> set xs \<and> length xs < 2 ^ 64) tbl"

definition need_names :: "job_table \<Rightarrow> cstring list" where
  "need_names t = (case jt_needs t of None \<Rightarrow> [] | Some xs \<Rightarrow> map the xs)"

definition graph_of :: "(cstring \<times> job_table) list \<Rightarrow> qwe_dag_job list" where
  "graph_of es = map (\<lambda>e. \<lparr>dj_id = fst e, dj_needs = need_names (snd e)\<rparr>) es"

lemma copy_need_list_result:
  "None \<notin> set xs \<Longrightarrow>
   (\<exists>k'. copy_need_list ok xs k = Some (Some (map the xs, k'))) \<or> copy_need_list ok xs k = Some None \<and> (\<exists>i. \<not> ok i)"
proof (induction xs arbitrary: k)
  case (Cons x xs)
  then obtain s where "x = Some s" by (cases x) auto
  with Cons show ?case by (cases "ok k") fastforce+
qed simp

lemma dag_jobs_result:
  "string_needs es \<Longrightarrow>
   (\<exists>k'. dag_jobs ok es k = Some (Some (graph_of es, k'))) \<or> dag_jobs ok es k = Some None \<and> (\<exists>i. \<not> ok i)"
proof (induction es arbitrary: k)
  case (Cons e es)
  obtain i t where e: "e = (i, t)" by (cases e)
  let ?one = "case jt_needs t of None \<Rightarrow> Some (Some ([], k)) | Some xs \<Rightarrow> if \<not> ok k then Some None else copy_need_list ok xs (Suc k)"
  have "(\<exists>k'. ?one = Some (Some (need_names t, k'))) \<or> ?one = Some None \<and> (\<exists>i. \<not> ok i)"
    using Cons.prems copy_need_list_result [of _ ok "Suc k"] e
    by (cases "jt_needs t") (auto simp: string_needs_def need_names_def)
  moreover have "string_needs es" using Cons.prems by (simp add: string_needs_def)
  ultimately show ?case using Cons.IH e by (fastforce simp: graph_of_def)
qed (simp add: graph_of_def)

lemma nat_dec_length: "n < 10 ^ Suc d \<Longrightarrow> length (nat_dec n) \<le> Suc d"
proof (induction d arbitrary: n)
  case 0
  then show ?case by (simp add: nat_dec.simps)
next
  case (Suc d)
  show ?case
  proof (cases "n < 10")
    case False
    have "n div 10 < 10 ^ Suc d" using Suc.prems by (simp add: less_mult_imp_div_less mult.commute)
    from Suc.IH [OF this] False show ?thesis by (simp add: nat_dec.simps [of n])
  qed (simp add: nat_dec.simps)
qed

lemma dag_pointer_fits: "need < 2 ^ 64 \<Longrightarrow> xfmt (length tok + 64) (dag_pointer st tok need) = Some (dag_pointer st tok need)"
  using nat_dec_length [of need 19] by (cases st) (simp_all add: xfmt_def dag_pointer_def)

lemma load_ids_memory: "(\<And>i. ok i) \<Longrightarrow> load_ids ok es n cap k \<noteq> None"
  by (induction es arbitrary: n cap k) (simp_all add: Let_def)

lemma report_dag_result:
  assumes "de_need err < 2 ^ 64"
  shows "\<exists>ps'. report_dag ok pos jobs st err ps k = Some ps' \<and> \<not> clear ps'"
proof -
  have oom: "\<not> clear (ps\<lparr>pv_oom := True\<rparr>)" by (simp add: clear_def)
  let ?tok = "if st = QWE_DAG_NO_MEMORY then (if ok k then (Some [], Suc k) else (None, Suc k))
            else escape_token ok (Some (dj_id (jobs ! de_job err))) k"
  show ?thesis
  proof (cases ?tok)
    case (Pair tok k1)
    then show ?thesis
      using oom by (cases tok) (simp_all add: report_dag_def case_prod_beta dag_pointer_fits [OF assms] add_problem_not_clear)
  qed
qed

lemma graph_needs_small:
  assumes "string_needs es" "j \<in> set (graph_of es)"
  shows "length (dj_needs j) < 2 ^ 64"
  using assms by (force simp: graph_of_def string_needs_def need_names_def list_all_iff split: option.splits)

lemma dag_error_need:
  assumes "string_needs es" "qwe_dag_check ok (graph_of es) = Some (st, err)"
  shows "de_need err < 2 ^ 64"
proof (cases "needs_known (graph_of es)")
  case False
  then obtain i k where ik: "unknown_need (graph_of es) 0 (graph_of es) = Some (i, k)" "de_need err = k"
    using assms(2) by (auto elim!: dag_check_unknown [of "graph_of es" ok])
  from unknown_need_Some [OF ik(1)] have k: "k < length (dj_needs (graph_of es ! i))" "i < length (graph_of es)" by simp_all
  then have "length (dj_needs (graph_of es ! i)) < 2 ^ 64" by (intro graph_needs_small [OF assms(1)]) simp
  with k(1) ik(2) show ?thesis by linarith
next
  case k: True
  show ?thesis
  proof (cases "ok 0 \<and> ok 1")
    case True
    then obtain b w where "qwe_dag_check ok (graph_of es) = Some (if b then QWE_DAG_CYCLE else QWE_DAG_OK, wk_err w)"
      "if b then walk_cycle (graph_of es) w else wk_err w = dag_error_zero \<and> acyclic (dag_rel (graph_of es))"
      using dag_check_known [OF k] by blast
    with assms(2) have "err = dag_error_zero \<or> walk_cycle (graph_of es) w \<and> err = wk_err w" by (auto split: if_splits)
    then show ?thesis by (auto simp: dag_error_zero_def walk_cycle_def)
  qed (use assms(2) dag_check_no_memory [OF k, of ok] in \<open>auto simp: dag_error_zero_def\<close>)
qed

lemma dag_check_decides:
  "\<exists>st err. qwe_dag_check ok jobs = Some (st, err) \<and> (st = QWE_DAG_OK \<longrightarrow> needs_known jobs \<and> acyclic (dag_rel jobs))
    \<and> (ok 0 \<and> ok 1 \<and> needs_known jobs \<and> acyclic (dag_rel jobs) \<longrightarrow> st = QWE_DAG_OK)"
proof (cases "needs_known jobs")
  case k: True
  show ?thesis
  proof (cases "ok 0 \<and> ok 1")
    case True
    then obtain b w where "qwe_dag_check ok jobs = Some (if b then QWE_DAG_CYCLE else QWE_DAG_OK, wk_err w)"
      "if b then walk_cycle jobs w else wk_err w = dag_error_zero \<and> acyclic (dag_rel jobs)"
      using dag_check_known [OF k] by blast
    with k walk_cycle_status [of jobs w] show ?thesis by (cases b) auto
  qed (use dag_check_no_memory [OF k, of ok] in auto)
next
  case False
  then show ?thesis by (rule dag_check_unknown [of jobs ok]) (use False in auto)
qed

definition graph_sound :: "(cstring \<times> job_table) list \<Rightarrow> bool" where
  "graph_sound tbl \<longleftrightarrow>
     (let g = graph_of (sort_key (\<lambda>e. cmp_key (fst e)) tbl) in needs_known g \<and> acyclic (dag_rel g))"

lemma check_dag_result:
  assumes "string_needs tbl"
  shows "\<exists>ps'. check_dag ok tbl pos ps k = Some ps' \<and> (clear ps' \<longrightarrow> graph_sound tbl)
    \<and> ((\<forall>i. ok i) \<longrightarrow> graph_sound tbl \<longrightarrow> ps' = ps)"
proof -
  let ?es = "sort_key (\<lambda>e. cmp_key (fst e)) tbl"
  have es: "string_needs ?es" using assms by (simp add: string_needs_def list_all_iff)
  have oom: "\<not> clear (ps\<lparr>pv_oom := True\<rparr>)" by (simp add: clear_def)
  show ?thesis
  proof (cases "load_ids ok tbl 0 0 k")
    case None
    then have "\<exists>i. \<not> ok i" using load_ids_memory by blast
    with None oom show ?thesis by (auto simp: check_dag_def)
  next
    case (Some k1)
    show ?thesis
    proof (cases "ok k1 \<and> ok (Suc k1)")
      case False
      with Some oom show ?thesis by (auto simp: check_dag_def)
    next
      case ok1: True
      from dag_jobs_result [OF es, of ok "Suc (Suc k1)"] show ?thesis
      proof (elim disjE exE conjE)
        fix i assume "dag_jobs ok ?es (Suc (Suc k1)) = Some None" "\<not> ok i"
        with Some ok1 oom show ?thesis by (auto simp: check_dag_def)
      next
        fix k2 assume j: "dag_jobs ok ?es (Suc (Suc k1)) = Some (Some (graph_of ?es, k2))"
        let ?g = "graph_of ?es" and ?ok = "\<lambda>i. ok (k2 + i)"
        obtain st err where g: "qwe_dag_check ?ok ?g = Some (st, err)"
            "st = QWE_DAG_OK \<longrightarrow> needs_known ?g \<and> acyclic (dag_rel ?g)"
            "ok (k2 + 0) \<and> ok (k2 + 1) \<and> needs_known ?g \<and> acyclic (dag_rel ?g) \<longrightarrow> st = QWE_DAG_OK"
          using dag_check_decides [of ?ok ?g] by blast
        let ?k = "if st = QWE_DAG_UNKNOWN_NEED then k2 else k2 + 2"
        obtain ps' where r: "report_dag ok pos ?g st err ps ?k = Some ps'" "\<not> clear ps'"
          using report_dag_result [OF dag_error_need [OF es g(1)]] by blast
        have c: "check_dag ok tbl pos ps k = Some (if st = QWE_DAG_OK then ps else ps')"
          using Some ok1 j g(1) r(1) by (simp add: check_dag_def del: report_dag_def)
        have s: "graph_sound tbl \<longleftrightarrow> needs_known ?g \<and> acyclic (dag_rel ?g)" by (simp add: graph_sound_def Let_def)
        show ?thesis
        proof (cases "st = QWE_DAG_OK")
          case True
          then show ?thesis using c g(2) by (intro exI [of _ ps]) (simp add: s)
        next
          case False
          then show ?thesis using c g(3) r(2) by (intro exI [of _ ps']) (auto simp: s)
        qed
      qed
    qed
  qed
qed

text \<open>A finite graph without a cycle has a rank: how many nodes can be reached.\<close>

lemma acyclic_rank:
  assumes "finite r" "acyclic r" "(i, d) \<in> r"
  shows "card (r\<^sup>+ `` {d}) < card (r\<^sup>+ `` {i})"
proof (rule psubset_card_mono)
  show "finite (r\<^sup>+ `` {i})" using assms(1) by (simp add: finite_trancl finite_Image)
  have "d \<in> r\<^sup>+ `` {i}" using assms(3) by auto
  moreover have "d \<notin> r\<^sup>+ `` {d}" using assms(2) by (auto simp: acyclic_def)
  moreover have "r\<^sup>+ `` {d} \<subseteq> r\<^sup>+ `` {i}" using assms(3) by (auto intro: trancl_into_trancl2)
  ultimately show "r\<^sup>+ `` {d} \<subset> r\<^sup>+ `` {i}" by blast
qed

lemma rank_acyclic: "(\<And>i d. (i, d) \<in> r \<Longrightarrow> (f d :: nat) < f i) \<Longrightarrow> acyclic r"
proof -
  assume a: "\<And>i d. (i, d) \<in> r \<Longrightarrow> (f d :: nat) < f i"
  then have "r\<inverse> \<subseteq> measure f" by auto
  then have "wf (r\<inverse>)" by (rule wf_subset [OF wf_measure])
  then have "acyclic (r\<inverse>)" by (rule wf_acyclic)
  then show "acyclic r" by simp
qed

lemma graph_of_nth: "i < length es \<Longrightarrow> graph_of es ! i = \<lparr>dj_id = fst (es ! i), dj_needs = need_names (snd (es ! i))\<rparr>"
  by (simp add: graph_of_def)

lemma dag_ix_graph:
  assumes "distinct (map fst es)" "i < length es"
  shows "dag_ix (graph_of es) (fst (es ! i)) = i"
proof (cases "dag_find (graph_of es) (fst (es ! i))")
  case None
  then show ?thesis using assms(2) by (auto simp: dag_find_None graph_of_def image_iff)
next
  case (Some d)
  from dag_find_Some [OF Some] have "d < length es" by (simp add: graph_of_def)
  with dag_find_Some [OF Some] have "d < length es" "fst (es ! d) = fst (es ! i)" by (simp_all add: graph_of_def)
  then have "d = i" using assms nth_eq_iff_index_eq [OF assms(1), of d i] by simp
  with Some show ?thesis by (simp add: dag_ix_def)
qed

lemma needs_sound_names:
  "string_needs tbl \<Longrightarrow>
   needs_sound rk tbl \<longleftrightarrow> (\<forall>e \<in> set tbl. \<forall>s \<in> set (need_names (snd e)). s \<in> fst ` set tbl \<and> rk s < rk (fst e))"
proof -
  assume s: "string_needs tbl"
  have "(case jt_needs (snd e) of None \<Rightarrow> True | Some xs \<Rightarrow> list_all (\<lambda>x. case x of None \<Rightarrow> True | Some s \<Rightarrow> P s) xs) \<longleftrightarrow>
      (\<forall>s \<in> set (need_names (snd e)). P s)" if e: "e \<in> set tbl" for e P
  proof (cases "jt_needs (snd e)")
    case (Some xs)
    then have "None \<notin> set xs" using s e by (auto simp: string_needs_def list_all_iff)
    then have "(case x of None \<Rightarrow> True | Some s \<Rightarrow> P s) = P (the x)" if "x \<in> set xs" for x using that by (cases x) auto
    then show ?thesis using Some by (simp add: need_names_def list_all_iff)
  qed (simp add: need_names_def)
  then show ?thesis by (simp add: needs_sound_def list_all_iff [of _ tbl])
qed

lemma dag_rel_graph:
  "(i, d) \<in> dag_rel (graph_of es) \<longleftrightarrow> i < length es \<and> (\<exists>s \<in> set (need_names (snd (es ! i))). d = dag_ix (graph_of es) s)"
  by (auto simp: dag_rel_def graph_of_def)

lemma graph_sound_ranked:
  assumes "string_needs tbl" "distinct (map fst tbl)"
  shows "graph_sound tbl \<longleftrightarrow> (\<exists>rk. needs_sound rk tbl)"
proof -
  let ?es = "sort_key (\<lambda>e. cmp_key (fst e)) tbl"
  let ?g = "graph_of ?es"
  have d: "distinct (map fst ?es)" using assms(2) by (simp add: distinct_map)
  have known: "needs_known ?g \<longleftrightarrow> (\<forall>e \<in> set tbl. \<forall>s \<in> set (need_names (snd e)). s \<in> fst ` set tbl)"
    by (auto simp: needs_known_def dag_find_None graph_of_def image_iff)
  have fin: "finite (dag_rel ?g)" if "needs_known ?g"
    by (rule finite_subset [of _ "{..<length ?g} \<times> {..<length ?g}"]) (use dag_rel_less [OF that] in auto)
  show ?thesis
  proof
    assume s: "graph_sound tbl"
    let ?rk = "\<lambda>s. card ((dag_rel ?g)\<^sup>+ `` {dag_ix ?g s})"
    have "?rk s < ?rk (fst e)" if e: "e \<in> set tbl" "s \<in> set (need_names (snd e))" for e s
    proof -
      obtain i where i: "i < length ?es" "?es ! i = e" using e(1) by (metis in_set_conv_nth set_sort)
      have "(i, dag_ix ?g s) \<in> dag_rel ?g" using i e(2) by (auto simp: dag_rel_graph)
      moreover have "dag_ix ?g (fst e) = i" using dag_ix_graph [OF d i(1)] i(2) by simp
      ultimately show ?thesis using s fin by (simp add: acyclic_rank graph_sound_def Let_def)
    qed
    then show "\<exists>rk. needs_sound rk tbl"
      using s known by (intro exI [of _ ?rk]) (simp add: needs_sound_names [OF assms(1)] graph_sound_def Let_def)
  next
    assume "\<exists>rk. needs_sound rk tbl"
    then obtain rk where "needs_sound rk tbl" ..
    then have rk: "\<forall>e \<in> set tbl. \<forall>s \<in> set (need_names (snd e)). s \<in> fst ` set tbl \<and> rk s < rk (fst e)"
      by (simp add: needs_sound_names [OF assms(1)])
    have "rk (fst (?es ! d)) < rk (fst (?es ! i))" if r: "(i, d) \<in> dag_rel ?g" for i d
    proof -
      obtain s where s: "i < length ?es" "s \<in> set (need_names (snd (?es ! i)))" "d = dag_ix ?g s"
        using r by (auto simp: dag_rel_graph)
      then have e: "?es ! i \<in> set tbl" by (metis nth_mem set_sort)
      with rk s(2) have "s \<in> fst ` set ?es" "rk s < rk (fst (?es ! i))" by auto
      then obtain j where "j < length ?es" "s = fst (?es ! j)" by (metis (no_types, lifting) imageE in_set_conv_nth)
      with s(3) dag_ix_graph [OF d] \<open>rk s < rk (fst (?es ! i))\<close> show ?thesis by simp
    qed
    then have "acyclic (dag_rel ?g)" by (rule rank_acyclic)
    with rk known show "graph_sound tbl" by (auto simp: graph_sound_def Let_def)
  qed
qed

section \<open>Properties\<close>

lemma print_problems_length: "length (print_problems ps cmd path) = length (pv_v ps) + (if pv_oom ps then 1 else 0)"
  by (simp add: print_problems_def)

lemma print_problems_clear: "print_problems ps cmd path = [] \<longleftrightarrow> clear ps"
  by (simp flip: length_0_conv add: print_problems_length clear_def)

lemma report_internal_error_length: "length (report_internal_error e cmd label path) = 1"
  by (simp add: report_internal_error_def split: option.splits)

lemma int_of_size_small: "n < 2 ^ 31 \<Longrightarrow> int_of_size n = int n"
  by (simp add: int_of_size_def)

definition accepted :: "validator \<Rightarrow> cstring \<Rightarrow> qwe_positions \<Rightarrow> bool" where
  "accepted vl path pos \<longleftrightarrow>
     (case vl_require vl ''qwe.validate'' of Inl _ \<Rightarrow> False | Inr _ \<Rightarrow> True)
     \<and> vl_project vl (validate_dir path) = Inr ([], []) \<and> qwe_positions_duplicates pos = []"

lemma validate_doc_internal:
  assumes "vl_require vl ''qwe.validate'' = Inl e \<or> \<not> vl_ok vl 0 \<or> vl_project vl (validate_dir path) = Inl e"
  shows "\<exists>line. qwe_validate_doc vl cmd path pos tbl = Some (1, [line])"
proof -
  have "\<exists>line. report_internal_error e' cmd label path = [line]" for e' label
    using report_internal_error_length [of e' cmd label path] by (simp add: length_Suc_conv)
  with assms show ?thesis
    by (cases "vl_require vl ''qwe.validate''"; cases "vl_project vl (validate_dir path)") (auto simp: qwe_validate_doc_def)
qed

lemma validate_doc_checked:
  assumes "vl_require vl ''qwe.validate'' = Inr u" "vl_ok vl 0" "vl_project vl (validate_dir path) = Inr (es, pps)"
    and "es = [] \<Longrightarrow> string_needs tbl"
  obtains ps where "qwe_validate_doc vl cmd path pos tbl =
      Some (int_of_size (length (print_plugin_problems cmd pps @ print_problems ps cmd path)),
            print_plugin_problems cmd pps @ print_problems ps cmd path)"
    "clear ps \<Longrightarrow> es = [] \<and> qwe_positions_duplicates pos = [] \<and> graph_sound tbl"
    "es = [] \<and> qwe_positions_duplicates pos = [] \<and> graph_sound tbl \<and> (\<forall>i. vl_ok vl i) \<Longrightarrow> clear ps"
    "es \<noteq> [] \<or> qwe_positions_duplicates pos \<noteq> [] \<Longrightarrow> ps = fst (collect vl es pos 1)"
proof -
  let ?c = "fst (collect vl es pos 1)" and ?k = "snd (collect vl es pos 1)"
  have len: "length (print_plugin_problems cmd pps @ print_problems ps cmd path) =
      length (pv_v ps) + (if pv_oom ps then 1 else 0) + length pps" for ps
    by (simp add: print_problems_length print_plugin_problems_def)
  show ?thesis
  proof (cases "clear ?c")
    case True
    then have e: "es = [] \<and> qwe_positions_duplicates pos = []" by (simp add: collect_clear)
    then obtain ps where ps: "check_dag (vl_ok vl) tbl pos ?c ?k = Some ps" "clear ps \<longrightarrow> graph_sound tbl"
        "(\<forall>i. vl_ok vl i) \<longrightarrow> graph_sound tbl \<longrightarrow> ps = ?c"
      using check_dag_result [of tbl "vl_ok vl" pos ?c ?k] assms(4) by blast
    then have "qwe_validate_doc vl cmd path pos tbl =
        Some (int_of_size (length (print_plugin_problems cmd pps @ print_problems ps cmd path)),
              print_plugin_problems cmd pps @ print_problems ps cmd path)"
      using assms(1-3) True unfolding len by (simp add: qwe_validate_doc_def case_prod_beta clear_def)
    then show ?thesis by (rule that) (use e ps True in auto)
  next
    case False
    then have "(pv_v ?c = [] \<and> \<not> pv_oom ?c) = False" by (simp add: clear_def)
    then have "qwe_validate_doc vl cmd path pos tbl =
        Some (int_of_size (length (print_plugin_problems cmd pps @ print_problems ?c cmd path)),
              print_plugin_problems cmd pps @ print_problems ?c cmd path)"
      using assms(1-3) unfolding len by (simp add: qwe_validate_doc_def case_prod_beta del: de_Morgan_conj)
    then show ?thesis by (rule that) (use False collect_clear [of vl es pos 1] in auto)
  qed
qed

text \<open>The verdict, with a rank of the jobs in place of the graph.\<close>

lemma validate_doc_decides:
  assumes "\<forall>pps. vl_project vl (validate_dir path) = Inr ([], pps) \<longrightarrow> string_needs tbl" and "distinct (map fst tbl)"
  shows "\<exists>out. qwe_validate_doc vl cmd path pos tbl = Some (int_of_size (length out), out)
    \<and> (out = [] \<longrightarrow> accepted vl path pos \<and> (\<exists>rk. needs_sound rk tbl))
    \<and> ((\<forall>i. vl_ok vl i) \<and> accepted vl path pos \<and> (\<exists>rk. needs_sound rk tbl) \<longrightarrow> out = [])"
proof (cases "(\<exists>e. vl_require vl ''qwe.validate'' = Inl e) \<or> \<not> vl_ok vl 0 \<or> (\<exists>e. vl_project vl (validate_dir path) = Inl e)")
  case True
  then obtain line where "qwe_validate_doc vl cmd path pos tbl = Some (1, [line])"
    using validate_doc_internal [of vl _ path cmd pos tbl] by blast
  with True show ?thesis by (intro exI [of _ "[line]"]) (auto simp: int_of_size_small accepted_def)
next
  case False
  then obtain u es pps where c: "vl_require vl ''qwe.validate'' = Inr u" "vl_ok vl 0" "vl_project vl (validate_dir path) = Inr (es, pps)"
    by (metis old.sum.exhaust surj_pair)
  have s: "string_needs tbl" if "es = []" using assms(1) c(3) that by blast
  then have g: "graph_sound tbl \<longleftrightarrow> (\<exists>rk. needs_sound rk tbl)" if "es = []" using graph_sound_ranked assms(2) that by blast
  obtain ps where ps: "qwe_validate_doc vl cmd path pos tbl =
      Some (int_of_size (length (print_plugin_problems cmd pps @ print_problems ps cmd path)),
            print_plugin_problems cmd pps @ print_problems ps cmd path)"
    "clear ps \<Longrightarrow> es = [] \<and> qwe_positions_duplicates pos = [] \<and> graph_sound tbl"
    "es = [] \<and> qwe_positions_duplicates pos = [] \<and> graph_sound tbl \<and> (\<forall>i. vl_ok vl i) \<Longrightarrow> clear ps"
    using validate_doc_checked [OF c s, of cmd pos] by metis
  let ?out = "print_plugin_problems cmd pps @ print_problems ps cmd path"
  have o: "?out = [] \<longleftrightarrow> pps = [] \<and> clear ps" by (simp add: print_problems_clear print_plugin_problems_def)
  have a: "accepted vl path pos \<longleftrightarrow> es = [] \<and> pps = [] \<and> qwe_positions_duplicates pos = []"
    using c by (simp add: accepted_def)
  show ?thesis
  proof (intro exI [of _ ?out] conjI impI)
    assume "?out = []"
    then show "accepted vl path pos" "\<exists>rk. needs_sound rk tbl" using o a ps(2) g by blast+
  next
    assume "(\<forall>i. vl_ok vl i) \<and> accepted vl path pos \<and> (\<exists>rk. needs_sound rk tbl)"
    then show "?out = []" using o a ps(3) g by blast
  qed (rule ps(1))
qed

text \<open>C28. The verdict on a workflow. Validation always comes to an end and returns the number of lines it
  printed. If it printed nothing, everything was checked and found right, however little memory there was:
  the validator reported nothing, no key is repeated, every need names a job and the needs have no cycle
  (the jobs have a rank that grows along them). With memory, the converse holds as well.\<close>

theorem validate_doc_verdict:
  assumes "\<forall>pps. vl_project vl (validate_dir path) = Inr ([], pps) \<longrightarrow> string_needs tbl" and "distinct (map fst tbl)"
  shows "\<exists>r out. qwe_validate_doc vl cmd path pos tbl = Some (r, out)
    \<and> (length out < 2 ^ 31 \<longrightarrow> r = int (length out))
    \<and> (out = [] \<longrightarrow> vl_project vl (validate_dir path) = Inr ([], []) \<and> qwe_positions_duplicates pos = []
         \<and> (\<exists>rk. needs_sound rk tbl))
    \<and> ((\<forall>i. vl_ok vl i) \<and> accepted vl path pos \<and> (\<exists>rk. needs_sound rk tbl) \<longrightarrow> out = [])"
proof -
  obtain out where o: "qwe_validate_doc vl cmd path pos tbl = Some (int_of_size (length out), out)"
      "out = [] \<longrightarrow> accepted vl path pos \<and> (\<exists>rk. needs_sound rk tbl)"
      "(\<forall>i. vl_ok vl i) \<and> accepted vl path pos \<and> (\<exists>rk. needs_sound rk tbl) \<longrightarrow> out = []"
    using validate_doc_decides [where cmd = cmd and pos = pos, OF assms] by blast
  then show ?thesis unfolding accepted_def using int_of_size_small [of "length out"] by blast
qed

definition tables_ex :: "(cstring \<times> job_table) list" where
  "tables_ex = [(''b'', \<lparr>jt_target = None, jt_timeout = None, jt_needs = Some [Some ''a''], jt_steps = []\<rparr>),
     (''a'', \<lparr>jt_target = None, jt_timeout = None, jt_needs = None, jt_steps = []\<rparr>)]"

definition validator_ex :: validator where
  "validator_ex = \<lparr>vl_ok = (\<lambda>_. True), vl_require = (\<lambda>_. Inr ()), vl_project = (\<lambda>_. Inr ([], [])), vl_inventory = Inr []\<rparr>"

lemma tables_ex_ok: "string_needs tables_ex" "distinct (map fst tables_ex)" "needs_sound (\<lambda>s. if s = ''b'' then 1 else 0) tables_ex"
  by (simp_all add: string_needs_def tables_ex_def needs_sound_def)

theorem validate_doc_verdict_witness:
  "qwe_validate_doc validator_ex ''qwe run'' ''w.yaml'' \<lparr>ps_e = [], ps_cap = 0\<rparr> tables_ex = Some (0, [])"
proof -
  let ?pos = "\<lparr>ps_e = [], ps_cap = 0\<rparr>"
  have "accepted validator_ex ''w.yaml'' ?pos" by (simp add: accepted_def validator_ex_def qwe_positions_duplicates_def)
  moreover have "\<forall>i. vl_ok validator_ex i" by (simp add: validator_ex_def)
  moreover have "\<exists>rk. needs_sound rk tables_ex" using tables_ex_ok(3) by blast
  ultimately show ?thesis
    using validate_doc_verdict [where vl = validator_ex and path = "''w.yaml''" and cmd = "''qwe run''" and pos = ?pos and tbl = tables_ex]
      tables_ex_ok(1,2) by auto
qed

text \<open>C30. What is printed. With memory, a workflow with errors or repeated keys gets one line for each of
  them, and no others, in the order of the source, behind the lines of the plugins: an error at the
  place of its pointer, a repeated key at its own place with the line of the first one.\<close>

theorem validate_doc_report:
  assumes "\<forall>i. vl_ok vl i" and "vl_require vl ''qwe.validate'' = Inr u" and "vl_project vl (validate_dir path) = Inr (es, pps)"
    and "es \<noteq> [] \<or> qwe_positions_duplicates pos \<noteq> []" and "es = [] \<longrightarrow> string_needs tbl"
  shows "\<exists>r qs. qwe_validate_doc vl cmd path pos tbl = Some (r, print_plugin_problems cmd pps @ map (problem_line cmd path) qs)
    \<and> mset qs = mset (map (error_problem pos) es @ map duplicate_problem (qwe_positions_duplicates pos))
    \<and> sorted (map (\<lambda>q. [ps_line (pb_pos q), ps_col (pb_pos q)]) qs)"
proof -
  let ?qs = "sort_key problem_key (pv_v (fst (collect vl es pos 1)))"
  have ok: "vl_ok vl i" for i using assms(1) by simp
  obtain ps where ps: "qwe_validate_doc vl cmd path pos tbl =
      Some (int_of_size (length (print_plugin_problems cmd pps @ print_problems ps cmd path)),
            print_plugin_problems cmd pps @ print_problems ps cmd path)" "ps = fst (collect vl es pos 1)"
    using validate_doc_checked [OF assms(2) ok assms(3), where tbl = tbl and cmd = cmd and pos = pos] assms(4,5) by metis
  then have "print_problems ps cmd path = map (problem_line cmd path) ?qs"
    using collect_memory(2) [OF ok] by (simp add: print_problems_def)
  moreover have "mset ?qs = mset (map (error_problem pos) es @ map duplicate_problem (qwe_positions_duplicates pos))"
    using collect_memory(1) [OF ok] by simp
  moreover have "sorted (map (\<lambda>q. [ps_line (pb_pos q), ps_col (pb_pos q)]) ?qs)"
  proof -
    have "sorted_wrt (\<lambda>a b. problem_key a \<le> problem_key b) ?qs" using sorted_sort_key by (simp add: sorted_map)
    then show ?thesis unfolding sorted_map
      by (rule sorted_wrt_mono_rel [rotated]) (auto simp: problem_key_def split: if_splits)
  qed
  ultimately show ?thesis using ps(1) by (intro exI [of _ "int_of_size _"] exI [of _ ?qs]) simp
qed

theorem validate_doc_report_witness:
  "\<exists>r qs. qwe_validate_doc (validator_ex\<lparr>vl_project := \<lambda>_. Inr ([\<lparr>ve_pointer = None, ve_kind = None, ve_message = None\<rparr>], [])\<rparr>)
      ''qwe run'' ''w.yaml'' \<lparr>ps_e = [], ps_cap = 0\<rparr> tables_ex = Some (r, map (problem_line ''qwe run'' ''w.yaml'') qs)
    \<and> map pb_message qs = [''invalid'']"
proof -
  let ?e = "\<lparr>ve_pointer = None, ve_kind = None, ve_message = None\<rparr>" and ?pos = "\<lparr>ps_e = [], ps_cap = 0\<rparr>"
  let ?vl = "validator_ex\<lparr>vl_project := \<lambda>_. Inr ([?e], [])\<rparr>"
  have h: "\<forall>i. vl_ok ?vl i" "vl_require ?vl ''qwe.validate'' = Inr ()" "vl_project ?vl (validate_dir ''w.yaml'') = Inr ([?e], [])"
    by (simp_all add: validator_ex_def)
  obtain r qs where q: "qwe_validate_doc ?vl ''qwe run'' ''w.yaml'' ?pos tables_ex =
        Some (r, print_plugin_problems ''qwe run'' [] @ map (problem_line ''qwe run'' ''w.yaml'') qs)"
      "mset qs = mset (map (error_problem ?pos) [?e] @ map duplicate_problem (qwe_positions_duplicates ?pos))"
    using validate_doc_report [OF h, of ?pos tables_ex "''qwe run''"] by auto
  then have "qs = [error_problem ?pos ?e]" by (simp add: qwe_positions_duplicates_def)
  with q(1) show ?thesis by (intro exI [of _ r] exI [of _ qs]) (simp add: print_plugin_problems_def error_problem_def)
qed

end
