(* ===== verification/Validate_Places.thy ===== *)
theory Validate_Places
  imports Validate Yaml_Pointers
begin

text \<open>
  Where validation reports a problem: pointers and their tokens, the nearest ancestor that has a place,
  and the places of a transcoded document.
\<close>

section \<open>Tokens\<close>

lemma escape_loop_token: "escape_loop s = concat (map key_char s)"
  by (induction s) (simp_all add: key_char_def)

lemma unescape_plain_char: "c \<noteq> CHR ''~'' \<Longrightarrow> unescape_loop (c # s) = c # unescape_loop s"
  by (cases s) simp_all

interpretation token_code: charwise_code key_char unescape_loop "\<lambda>_. True"
  by unfold_locales (simp_all add: key_char_def unescape_plain_char)

lemma slash_split:
  assumes "CHR ''/'' \<notin> set t"
  shows "before_slash (q @ CHR ''/'' # t) = q" and "after_slash (q @ CHR ''/'' # t) = t"
proof -
  have n: "\<forall>c \<in> set (rev t). c \<noteq> CHR ''/''" using assms by auto
  have "takeWhile (\<lambda>c. c \<noteq> CHR ''/'') (rev t @ CHR ''/'' # rev q) = rev t" using n by (simp add: takeWhile_append)
  moreover have "dropWhile (\<lambda>c. c \<noteq> CHR ''/'') (rev t @ CHR ''/'' # rev q) = CHR ''/'' # rev q"
    using n by (simp add: dropWhile_append)
  ultimately show "before_slash (q @ CHR ''/'' # t) = q" "after_slash (q @ CHR ''/'' # t) = t"
    by (simp_all add: before_slash_def after_slash_def)
qed

lemma slash_split_token:
  "before_slash (q @ key_token x) = q" "after_slash (q @ key_token x) = concat (map key_char x)" "CHR ''/'' \<in> set (q @ key_token x)"
proof -
  have t: "q @ key_token x = q @ CHR ''/'' # tl (key_token x)" by (subst key_token_Cons) simp
  show "before_slash (q @ key_token x) = q" unfolding t by (rule slash_split(1)) (rule key_token_no_slash)
  show "after_slash (q @ key_token x) = concat (map key_char x)"
    unfolding t slash_split(2) [OF key_token_no_slash] by (simp add: key_token_def)
  show "CHR ''/'' \<in> set (q @ key_token x)" by (simp add: key_token_def)
qed

lemma pointer_text_snoc: "pointer_text (xs @ [x]) = pointer_text xs @ key_token x"
  by (simp add: pointer_text_def)

lemma pointer_text_append: "pointer_text (xs @ ys) = pointer_text xs @ pointer_text ys"
  by (simp add: pointer_text_def)

text \<open>The last token of the pointer of a key is the key.\<close>

lemma last_token_of_pointer:
  "last_token ok (pointer_text (xs @ [x])) k = (if ok k then (Some x, Suc k) else (None, Suc k))"
  using token_code.roundtrip [of x] by (simp add: last_token_def pointer_text_snoc slash_split_token list_all_iff)

lemma pointer_text_inj: "pointer_text xs = pointer_text ys \<longleftrightarrow> xs = ys"
proof (induction xs arbitrary: ys rule: rev_induct)
  case Nil
  then show ?case by (cases ys) (simp_all add: pointer_text_def key_token_def)
next
  case (snoc x xs)
  note IH = snoc.IH
  show ?case
  proof (cases ys rule: rev_cases)
    case Nil
    then show ?thesis by (simp add: pointer_text_def key_token_def)
  next
    case (snoc zs z)
    have "xs = zs \<and> x = z" if t: "pointer_text (xs @ [x]) = pointer_text (zs @ [z])"
    proof -
      have e: "pointer_text xs @ key_token x = pointer_text zs @ key_token z" using t by (simp only: pointer_text_snoc)
      have "pointer_text xs = before_slash (pointer_text xs @ key_token x)" by (rule slash_split_token(1) [symmetric])
      also have "\<dots> = pointer_text zs" unfolding e by (rule slash_split_token(1))
      finally have p: "pointer_text xs = pointer_text zs" .
      with e have "key_token x = key_token z" by simp
      with p show ?thesis by (simp only: key_token_inj IH)
    qed
    then show ?thesis using snoc by blast
  qed
qed

section \<open>The nearest ancestor\<close>

text \<open>The place of the longest prefix of a path that has one.\<close>

fun nearest :: "(byte list list \<Rightarrow> qwe_pos option) \<Rightarrow> byte list list \<Rightarrow> qwe_pos" where
  "nearest f rs = (case f (rev rs) of Some q \<Rightarrow> q | None \<Rightarrow> (case rs of [] \<Rightarrow> first_pos | r # rs' \<Rightarrow> nearest f rs'))"

declare nearest.simps [simp del]

lemma locate_loop_nearest:
  "locate_loop pos (pointer_text (rev rs)) False w = nearest (\<lambda>xs. qwe_positions_value pos (pointer_text xs)) rs"
proof (induction rs)
  case Nil
  then show ?case
    by (subst locate_loop.simps, subst nearest.simps) (simp add: pointer_text_def split: option.splits)
next
  case (Cons r rs)
  then show ?case
    using slash_split_token [of "pointer_text (rev rs)" r]
    by (subst locate_loop.simps, subst nearest.simps) (simp add: pointer_text_snoc split: option.splits)
qed

lemma locate_loop_first:
  "locate_loop pos (pointer_text xs) True w =
     (if w then (case qwe_positions_key pos (pointer_text xs) of
                   Some q \<Rightarrow> q
                 | None \<Rightarrow> if xs = [] then first_pos else nearest (\<lambda>ys. qwe_positions_value pos (pointer_text ys)) (drop 1 (rev xs)))
      else nearest (\<lambda>ys. qwe_positions_value pos (pointer_text ys)) (rev xs))"
proof (cases w)
  case True
  show ?thesis
  proof (cases xs rule: rev_cases)
    case Nil
    then show ?thesis using True by (subst locate_loop.simps) (simp add: pointer_text_def split: option.splits)
  next
    case (snoc ys y)
    then show ?thesis
      using True slash_split_token [of "pointer_text ys" y] locate_loop_nearest [of pos "rev ys" True]
      by (subst locate_loop.simps) (simp add: pointer_text_snoc split: option.splits)
  qed
next
  case False
  then have "locate_loop pos (pointer_text xs) True w = locate_loop pos (pointer_text xs) False w"
    by (subst (1 2) locate_loop.simps) simp
  then show ?thesis using False locate_loop_nearest [of pos "rev xs" w] by simp
qed

lemma nearest_skips:
  assumes "f xs = Some q" and "\<And>n. n < length ys \<Longrightarrow> f (xs @ take (Suc n) ys) = None"
  shows "nearest f (rev (xs @ ys)) = q"
  using assms(2)
proof (induction ys rule: rev_induct)
  case Nil
  then show ?case using assms(1) by (subst nearest.simps) simp
next
  case (snoc y ys)
  have "f (xs @ ys @ [y]) = None" using snoc.prems [of "length ys"] by simp
  moreover have "f (xs @ take (Suc n) ys) = None" if "n < length ys" for n using snoc.prems [of n] that by simp
  then have "nearest f (rev (xs @ ys)) = q" by (rule snoc.IH)
  ultimately show ?case by (subst nearest.simps) simp
qed

section \<open>The places of a document\<close>

lemma filter_nat_dec: "filter (\<lambda>i. nat_dec i = nat_dec j) [0..<n] = (if j < n then [j] else [])"
  by (induction n) (auto simp: nat_dec_inj less_Suc_eq)

lemma resolve_seq: "resolve (YSeq m a t ns m') (nat_dec j # xs) = (if j < length ns then resolve (ns ! j) xs else None)"
  by (simp add: filter_nat_dec)

lemma find_distinct:
  assumes "distinct (map g kvs)" "kv \<in> set kvs"
  shows "find (\<lambda>kv'. g kv' = g kv) kvs = Some kv"
  using assms by (induction kvs) auto

lemma resolve_map:
  assumes "clean (YMap m a t kvs m')" "kv \<in> set kvs"
  shows "resolve (YMap m a t kvs m') (key_bytes (fst kv) # xs) = resolve (snd kv) xs"
  using assms find_distinct [of "\<lambda>kv. key_bytes (fst kv)" kvs kv] by simp

lemma resolve_None_append: "resolve n xs = None \<Longrightarrow> resolve n (xs @ ys) = None"
  by (induction n xs rule: resolve.induct) (auto split: list.splits option.splits)

lemma resolve_ConsE:
  assumes "resolve n (x # xs) = Some n'"
  obtains (seq) m a t ns m' i where "n = YSeq m a t ns m'" "i < length ns" "x = nat_dec i" "resolve (ns ! i) xs = Some n'"
  | (map) m a t kvs m' kv where "n = YMap m a t kvs m'" "kv \<in> set kvs" "x = key_bytes (fst kv)"
      "find (\<lambda>kv. key_bytes (fst kv) = x) kvs = Some kv" "resolve (snd kv) xs = Some n'"
proof (cases n)
  case (YSeq m a t ns m')
  with assms obtain i rest where i: "filter (\<lambda>i. nat_dec i = x) [0..<length ns] = i # rest" "resolve (ns ! i) xs = Some n'"
    by (auto split: list.splits)
  then have "i \<in> set (filter (\<lambda>i. nat_dec i = x) [0..<length ns])" by simp
  with YSeq i(2) show ?thesis by (intro seq [of m a t ns m' i]) auto
next
  case (YMap m a t kvs m')
  with assms obtain kv where kv: "find (\<lambda>kv. key_bytes (fst kv) = x) kvs = Some kv" "resolve (snd kv) xs = Some n'"
    by (auto split: option.splits)
  then have "kv \<in> set kvs" "x = key_bytes (fst kv)" by (auto simp: find_Some_iff)
  with YMap kv show ?thesis by (intro map [of m a t kvs m' kv])
qed (use assms in simp)

lemma resolve_nul_free: "clean n \<Longrightarrow> resolve n xs = Some n' \<Longrightarrow> nul_free (pointer_text xs)"
proof (induction xs arbitrary: n)
  case (Cons x xs)
  from Cons.prems(2) show ?case
  proof (cases rule: resolve_ConsE)
    case (seq m a t ns m' i)
    then have "nul_free (pointer_text xs)" using Cons.IH [of "ns ! i"] Cons.prems(1) by simp
    then show ?thesis using seq nul_free_key_token [OF nul_free_dec [of i]] by (simp add: pointer_text_def)
  next
    case (map m a t kvs m' kv)
    then have "nul_free (pointer_text xs)" "nul_free x" using Cons.IH [of "snd kv"] Cons.prems(1) by auto
    then show ?thesis using nul_free_key_token [of x] by (simp add: pointer_text_def)
  qed
qed (simp add: pointer_text_def nul_free_def)

lemma resolve_clean: "clean n \<Longrightarrow> resolve n xs = Some n' \<Longrightarrow> clean n'"
proof (induction xs arbitrary: n)
  case (Cons x xs)
  from Cons.prems(2) show ?case
    by (cases rule: resolve_ConsE) (use Cons.prems(1) in \<open>auto intro: Cons.IH\<close>)
qed simp

lemma resolve_append: "resolve n xs = Some n' \<Longrightarrow> resolve n (xs @ ys) = resolve n' ys"
proof (induction xs arbitrary: n)
  case (Cons x xs)
  from Cons.prems show ?case
    by (cases rule: resolve_ConsE) (simp_all add: Cons.IH resolve_seq del: resolve.simps, simp add: Cons.IH)
qed simp

lemma entries_resolve:
  shows "nul_free p \<Longrightarrow> clean n \<Longrightarrow> e \<in> set (node_entries p kp n) \<Longrightarrow>
      \<exists>xs. en_pointer e = p @ pointer_text xs \<and> resolve n xs \<noteq> None"
    and "nul_free p \<Longrightarrow> \<forall>n \<in> set ns. clean n \<Longrightarrow> e \<in> set (items_entries p i ns) \<Longrightarrow>
      \<exists>j xs. j < length ns \<and> en_pointer e = p @ key_token (nat_dec (i + j)) @ pointer_text xs \<and> resolve (ns ! j) xs \<noteq> None"
    and "nul_free p \<Longrightarrow> \<forall>kv \<in> set kvs. nul_free (key_bytes (fst kv)) \<and> clean (snd kv) \<Longrightarrow> e \<in> set (pairs_entries p kvs) \<Longrightarrow>
      \<exists>kv xs. kv \<in> set kvs \<and> en_pointer e = p @ key_token (key_bytes (fst kv)) @ pointer_text xs \<and> resolve (snd kv) xs \<noteq> None"
proof (induction p kp n and p i ns and p kvs rule: node_entries_items_entries_pairs_entries.induct)
  case (1 p kp m a t plain v)
  then show ?case by (intro exI [of _ "[]"]) (simp add: pointer_text_def cstr_id)
next
  case (2 p kp m a t ns m')
  show ?case
  proof (cases "e \<in> set (items_entries p 0 ns)")
    case True
    then obtain j xs where "j < length ns" "en_pointer e = p @ key_token (nat_dec j) @ pointer_text xs" "resolve (ns ! j) xs \<noteq> None"
      using "2.IH" "2.prems" by auto
    then show ?thesis by (intro exI [of _ "nat_dec j # xs"]) (simp add: resolve_seq pointer_text_def del: resolve.simps)
  next
    case False
    then show ?thesis using "2.prems" by (intro exI [of _ "[]"]) (simp add: pointer_text_def cstr_id)
  qed
next
  case (3 p kp m a t kvs m')
  show ?case
  proof (cases "e \<in> set (pairs_entries p kvs)")
    case True
    then obtain kv xs where "kv \<in> set kvs" "en_pointer e = p @ key_token (key_bytes (fst kv)) @ pointer_text xs" "resolve (snd kv) xs \<noteq> None"
      using "3.IH" "3.prems" by auto
    then show ?thesis using resolve_map [OF "3.prems"(2), of kv xs]
      by (intro exI [of _ "key_bytes (fst kv) # xs"]) (simp add: pointer_text_def del: resolve.simps)
  next
    case False
    then show ?thesis using "3.prems" by (intro exI [of _ "[]"]) (simp add: pointer_text_def cstr_id)
  qed
next
  case (5 p i n ns)
  show ?case
  proof (cases "e \<in> set (items_entries p (Suc i) ns)")
    case True
    then obtain j xs where "j < length ns" "en_pointer e = p @ key_token (nat_dec (Suc i + j)) @ pointer_text xs" "resolve (ns ! j) xs \<noteq> None"
      using "5.IH"(2) "5.prems" by auto
    then show ?thesis by (intro exI [of _ "Suc j"] exI [of _ xs]) simp
  next
    case False
    have "nul_free (p @ index_token i)" using "5.prems"(1) by (simp add: index_token_key nul_free_key_token nul_free_dec)
    then obtain xs where "en_pointer e = (p @ index_token i) @ pointer_text xs" "resolve n xs \<noteq> None"
      using "5.IH"(1) "5.prems" False by auto
    then show ?thesis by (intro exI [of _ 0] exI [of _ xs]) (simp add: index_token_key)
  qed
next
  case (7 p k v kvs)
  show ?case
  proof (cases "e \<in> set (pairs_entries p kvs)")
    case True
    then show ?thesis using "7.IH"(2) "7.prems" by fastforce
  next
    case False
    have "nul_free (p @ key_token (key_bytes k))" using "7.prems"(1,2) by (simp add: nul_free_key_token)
    then obtain xs where "en_pointer e = (p @ key_token (key_bytes k)) @ pointer_text xs" "resolve v xs \<noteq> None"
      using "7.IH"(1) "7.prems" False by auto
    then show ?thesis by (intro exI [of _ "(k, v)"] exI [of _ xs]) simp
  qed
qed simp_all

text \<open>The place of the key a path ends with.\<close>

definition key_place :: "ynode \<Rightarrow> byte list list \<Rightarrow> qwe_pos option" where
  "key_place n xs =
     (if xs = [] then None
      else case resolve n (butlast xs) of
             Some (YMap m a t kvs m') \<Rightarrow>
               map_option (\<lambda>kv. to_pos (node_mark (fst kv))) (find (\<lambda>kv. key_bytes (fst kv) = last xs) kvs)
           | _ \<Rightarrow> None)"

lemma key_place_Cons_Cons:
  "key_place n (x # y # ys) = (case resolve n [x] of None \<Rightarrow> None | Some n' \<Rightarrow> key_place n' (y # ys))"
proof -
  have e: "last (x # y # ys) = last (y # ys)" "butlast (x # y # ys) = [x] @ butlast (y # ys)" by simp_all
  show ?thesis
  proof (cases "resolve n [x]")
    case None
    then show ?thesis using resolve_None_append [of n "[x]" "butlast (y # ys)"]
      by (simp only: key_place_def e list.distinct if_False option.case)
  next
    case (Some n')
    then show ?thesis using resolve_append [OF Some, of "butlast (y # ys)"]
      by (simp only: key_place_def e list.distinct if_False option.case)
  qed
qed

lemma key_place_seq: "i < length ns \<Longrightarrow> key_place (YSeq m a t ns m') (nat_dec i # xs) = (if xs = [] then None else key_place (ns ! i) xs)"
  by (cases xs) (simp_all add: key_place_Cons_Cons resolve_seq del: resolve.simps(3), simp add: key_place_def)

lemma key_place_map:
  "find (\<lambda>kv. key_bytes (fst kv) = x) kvs = Some kv \<Longrightarrow>
   key_place (YMap m a t kvs m') (x # xs) = (if xs = [] then Some (to_pos (node_mark (fst kv))) else key_place (snd kv) xs)"
  by (cases xs) (simp_all add: key_place_Cons_Cons, simp add: key_place_def)

lemma resolve_entry_key:
  "resolve n xs = Some n' \<Longrightarrow>
   \<lparr>en_pointer = cstr (p @ pointer_text xs), en_key = (if xs = [] then kp else key_place n xs),
     en_value = Some (to_pos (node_mark n'))\<rparr> \<in> set (node_entries p kp n)"
proof (induction xs arbitrary: n p kp)
  case Nil
  then show ?case by (cases n) (auto simp: pointer_text_def)
next
  case (Cons x xs)
  from Cons.prems show ?case
  proof (cases rule: resolve_ConsE)
    case (seq m a t ns m' i)
    show ?thesis
      using Cons.IH [OF seq(4), of "p @ index_token i" None] items_entries_nth [OF seq(2), of p 0] seq
      by (auto simp: pointer_text_def index_token_key key_place_seq)
  next
    case (map m a t kvs m' kv)
    show ?thesis
      using Cons.IH [OF map(5), of "p @ key_token x" "Some (to_pos (node_mark (fst kv)))"]
        pairs_entries_member [of "fst kv" "snd kv" kvs p] map key_place_map [OF map(4), of m a t m' xs]
      by (auto simp: pointer_text_def)
  qed
qed

text \<open>The table of a document.\<close>

definition table_of :: "ynode \<Rightarrow> qwe_positions \<Rightarrow> bool" where
  "table_of n ps \<longleftrightarrow> ps_e ps = sort_key entry_key (node_entries [] None n)"

lemma find_entry_document:
  assumes "clean n" "table_of n ps"
  shows "find_entry ps (pointer_text xs) =
    map_option (\<lambda>n'. \<lparr>en_pointer = pointer_text xs, en_key = key_place n xs, en_value = Some (to_pos (node_mark n'))\<rparr>) (resolve n xs)"
proof -
  let ?es = "node_entries [] None n"
  have f: "find_entry ps x = find_entry (qwe_positions_finish \<lparr>ps_e = ?es, ps_cap = 0\<rparr>) x" for x
    using assms(2) by (simp add: table_of_def find_entry_def qwe_positions_finish_def)
  have nf: "nul_free []" by (simp add: nul_free_def)
  show ?thesis
  proof (cases "resolve n xs")
    case None
    have False if "find_entry ps (pointer_text xs) = Some e" for e
      using that find_entry_correct [of "\<lparr>ps_e = ?es, ps_cap = 0\<rparr>" "pointer_text xs"] f
        entries_resolve(1) [OF nf assms(1), of e None] None by (auto simp: pointer_text_inj)
    with None show ?thesis by fastforce
  next
    case (Some n')
    let ?e = "\<lparr>en_pointer = pointer_text xs, en_key = key_place n xs, en_value = Some (to_pos (node_mark n'))\<rparr>"
    have k: "(if xs = [] then None else key_place n xs) = key_place n xs" by (simp add: key_place_def)
    have e: "?e \<in> set ?es" using resolve_entry_key [OF Some, of "[]" None] cstr_id [OF resolve_nul_free [OF assms(1) Some]] k by simp
    have d: "inj_on en_pointer (set ?es)" using entries_pointers(1) [OF nf assms(1), of None] by (simp add: distinct_map)
    have c: "case find_entry ps (pointer_text xs) of Some e' \<Rightarrow> e' \<in> set ?es \<and> en_pointer e' = pointer_text xs
        | None \<Rightarrow> \<forall>e' \<in> set ?es. en_pointer e' \<noteq> pointer_text xs"
      using find_entry_correct [of "\<lparr>ps_e = ?es, ps_cap = 0\<rparr>" "pointer_text xs"] unfolding f qwe_positions.select_convs .
    show ?thesis
    proof (cases "find_entry ps (pointer_text xs)")
      case None
      with c e show ?thesis by force
    next
      case (Some e')
      then have "e' = ?e" using c e by (intro inj_onD [OF d]) simp_all
      with Some \<open>resolve n xs = Some n'\<close> show ?thesis by simp
    qed
  qed
qed

lemma document_lookups:
  assumes "clean n" "table_of n ps"
  shows "qwe_positions_value ps (pointer_text xs) = map_option (\<lambda>n'. to_pos (node_mark n')) (resolve n xs)"
    and "resolve n xs \<noteq> None \<Longrightarrow> qwe_positions_key ps (pointer_text xs) = key_place n xs"
  using find_entry_document [OF assms, of xs]
  by (auto simp: qwe_positions_value_def qwe_positions_key_def split: option.splits)

lemma locate_node:
  assumes "clean n" "table_of n ps" "resolve n xs = Some n'" "ys = [] \<or> resolve n (xs @ [hd ys]) = None"
  shows "locate_loop ps (pointer_text (xs @ ys)) True False = to_pos (node_mark n')"
proof -
  have "resolve n (xs @ take (Suc j) ys) = None" if "j < length ys" for j
    using that assms(4) resolve_None_append [of n "xs @ [hd ys]" "take j (tl ys)"] by (cases ys) auto
  then show ?thesis
    unfolding locate_loop_first document_lookups(1) [OF assms(1,2)]
    using nearest_skips [of "\<lambda>zs. map_option (\<lambda>n'. to_pos (node_mark n')) (resolve n zs)" xs "to_pos (node_mark n')" ys] assms(3) by simp
qed

lemma resolve_snoc_map:
  assumes "clean n" "resolve n xs = Some (YMap m a t kvs m')" "kv \<in> set kvs"
  shows "resolve n (xs @ [key_bytes (fst kv)]) = Some (snd kv)" and "key_place n (xs @ [key_bytes (fst kv)]) = Some (to_pos (node_mark (fst kv)))"
proof -
  have "clean (YMap m a t kvs m')" using assms(1,2) by (rule resolve_clean)
  then have f: "find (\<lambda>kv'. key_bytes (fst kv') = key_bytes (fst kv)) kvs = Some kv"
    using find_distinct [of "\<lambda>kv. key_bytes (fst kv)" kvs kv] assms(3) by simp
  show "resolve n (xs @ [key_bytes (fst kv)]) = Some (snd kv)" using resolve_append [OF assms(2)] f by simp
  show "key_place n (xs @ [key_bytes (fst kv)]) = Some (to_pos (node_mark (fst kv)))" using assms(2) f by (simp add: key_place_def)
qed

lemma locate_key:
  assumes "clean n" "table_of n ps" "resolve n xs = Some (YMap m a t kvs m')" "kv \<in> set kvs"
  shows "locate_loop ps (pointer_text (xs @ [key_bytes (fst kv)])) True True = to_pos (node_mark (fst kv))"
  unfolding locate_loop_first
  using document_lookups(2) [OF assms(1,2), of "xs @ [key_bytes (fst kv)]"] resolve_snoc_map [OF assms(1,3,4)] by simp

section \<open>Property\<close>

text \<open>C29. Where a problem is reported. In the table of a transcoded document, a problem whose pointer names a
  node is placed at that node; one whose pointer leads past the end of the document, as that of a
  missing key does, at the last node on the way; and a problem of a key at the key itself.\<close>

theorem problems_at_their_place:
  assumes "parses_to parse n" and "\<forall>i. ye_ok e i" and "monotone_bytes e"
    and "len \<le> QWE_YAML_MAX_SIZE" and "length (ye_bytes e (node_toks e n)) \<le> CBOR_MAX_SIZE div 2"
    and "node_error 0 n = None" and "clean n" and "resolve n xs = Some n'" and "ok k"
  shows "\<exists>b ps. qwe_yaml_to_cbor e parse len z = Inr (b, ps)
    \<and> locate ok ps (pointer_text xs) False pr k = (to_pos (node_mark n'), pr, Suc k)
    \<and> (\<forall>x ys. resolve n (xs @ [x]) = None \<longrightarrow> locate ok ps (pointer_text (xs @ x # ys)) False pr k = (to_pos (node_mark n'), pr, Suc k))
    \<and> (\<forall>m a t kvs m' kv. n' = YMap m a t kvs m' \<longrightarrow> kv \<in> set kvs \<longrightarrow>
         locate ok ps (pointer_text (xs @ [key_bytes (fst kv)])) True pr k = (to_pos (node_mark (fst kv)), pr, Suc k))"
proof -
  obtain ps where ps: "qwe_yaml_to_cbor e parse len z = Inr (ye_bytes e (node_toks e n), ps)" and t: "table_of n ps"
    using qwe_yaml_to_cbor_document [OF assms(1-5), of z] assms(6) by (auto simp: table_of_def)
  have l: "locate ok ps q w pr k = (locate_loop ps q True w, pr, Suc k)" for q w using assms(9) by (simp add: locate_def)
  show ?thesis
  proof (intro exI conjI allI impI, rule ps)
    show "locate ok ps (pointer_text xs) False pr k = (to_pos (node_mark n'), pr, Suc k)"
      using locate_node [OF assms(7) t assms(8), of "[]"] by (simp add: l)
    show "locate ok ps (pointer_text (xs @ x # ys)) False pr k = (to_pos (node_mark n'), pr, Suc k)"
      if "resolve n (xs @ [x]) = None" for x ys
      using locate_node [OF assms(7) t assms(8), of "x # ys"] that by (simp add: l)
    show "locate ok ps (pointer_text (xs @ [key_bytes (fst kv)])) True pr k = (to_pos (node_mark (fst kv)), pr, Suc k)"
      if "n' = YMap m a t kvs m'" "kv \<in> set kvs" for m a t kvs m' kv
      using locate_key [OF assms(7) t _ that(2), of xs m a t m'] assms(8) that by (simp add: l)
  qed
qed

theorem problems_at_their_place_witness:
  "\<exists>b ps. qwe_yaml_to_cbor Yaml_Doc.env_ex (parse_ex doc_ex) 40 128 = Inr (b, ps)
    \<and> locate (\<lambda>_. True) ps ''/jobs/1/name'' False problems_zero 0 = (\<lparr>ps_line = 3, ps_col = 5\<rparr>, problems_zero, 1)"
proof -
  have c: "clean doc_ex" by (simp add: doc_ex_def nul_free_def)
  have d: "nat_dec 0 = ''0''" "nat_dec (Suc 0) = ''1''" by code_simp+
  have r: "resolve doc_ex [''jobs'', ''1''] = Some (YScalar (at_ex 2 4) None (Some ENCRYPTED_TAG) False ''s'')"
    "resolve doc_ex ([''jobs'', ''1''] @ [''name'']) = None"
    using d by (simp_all add: doc_ex_def upt_rec)
  have p: "pointer_text ([''jobs'', ''1''] @ ''name'' # []) = ''/jobs/1/name''" by (simp add: pointer_text_def key_token_def key_char_def)
  have "to_pos (node_mark (YScalar (at_ex 2 4) None (Some ENCRYPTED_TAG) False ''s'')) = \<lparr>ps_line = 3, ps_col = 5\<rparr>"
    by (simp add: to_pos_def at_ex_def)
  then show ?thesis
    using problems_at_their_place [OF parse_ex_ok env_ex_ok doc_ex_ok(3,2,1) c r(1), where ok = "\<lambda>_. True" and k = 0 and z = 128 and pr = problems_zero]
      r(2) p by (metis One_nat_def)
qed

end
