(* ===== verification/Secrets.thy ===== *)
theory Secrets
  imports Redact Doubles "HOL-Library.Word"
begin

text \<open>
  Secrets (\<open>src/secrets/envelope.c\<close>, \<open>src/secrets/keyfile.c\<close>, \<open>src/kernel/luasecrets.c\<close>): sealed
  values, the key file and the functions Lua gets. libsodium is a parameter with the laws the code
  relies on. Files are nodes under their paths; every system call first takes the next answer of the
  system, which may be an error, an interruption or a short count, and does its work otherwise.
\<close>

section \<open>libsodium\<close>

text \<open>
  \<open>so_seal\<close> and \<open>so_open\<close> take the key, the nonce and the additional data; the ciphertext has
  the tag behind it. \<open>so_unb64\<close> takes the size of the buffer it decodes into.
\<close>

record sodium =
  so_init :: int
  so_seal :: "byte list \<Rightarrow> byte list \<Rightarrow> byte list \<Rightarrow> byte list \<Rightarrow> byte list"
  so_open :: "byte list \<Rightarrow> byte list \<Rightarrow> byte list \<Rightarrow> byte list \<Rightarrow> byte list option"
  so_b64 :: "byte list \<Rightarrow> cstring"
  so_unb64 :: "nat \<Rightarrow> cstring \<Rightarrow> byte list option"

definition NPUB :: nat where "NPUB = 24"
definition ABYTES :: nat where "ABYTES = 16"
definition QWE_KEY_BYTES :: nat where "QWE_KEY_BYTES = 32"

definition PREFIX :: cstring where
  "PREFIX = ''qwe:1:xchacha20poly1305:''"

text \<open>What the manual of libsodium says: the authenticated cipher opens exactly what was sealed, and adds its
  tag to the length; base64 reads back what it wrote, if it fits, in groups of four characters.\<close>

definition sodium_laws :: "sodium \<Rightarrow> bool" where
  "sodium_laws so \<longleftrightarrow>
     (\<forall>key nonce ad p. length key = QWE_KEY_BYTES \<longrightarrow> length nonce = NPUB \<longrightarrow>
        length (so_seal so key nonce ad p) = length p + ABYTES \<and>
        so_open so key nonce ad (so_seal so key nonce ad p) = Some p) \<and>
     (\<forall>key nonce ad c p. length key = QWE_KEY_BYTES \<longrightarrow> length nonce = NPUB \<longrightarrow>
        so_open so key nonce ad c = Some p \<longrightarrow> c = so_seal so key nonce ad p) \<and>
     (\<forall>b. length (so_b64 so b) = (length b + 2) div 3 * 4 \<and> nul_free (so_b64 so b)) \<and>
     (\<forall>b n. length b \<le> n \<longrightarrow> so_unb64 so n (so_b64 so b) = Some b)"

definition qwe_secrets_init :: "sodium \<Rightarrow> int" where
  "qwe_secrets_init so = (if so_init so < 0 then - 1 else 0)"

section \<open>Envelopes\<close>

text \<open>The additional data is the prefix without its last colon.\<close>

definition envelope_ad :: "byte list" where
  "envelope_ad = take (length PREFIX - 1) PREFIX"

text \<open>\<open>nonce\<close> is what the random generator gives.\<close>

definition qwe_envelope_seal ::
    "sodium \<Rightarrow> (nat \<Rightarrow> bool) \<Rightarrow> byte list \<Rightarrow> byte list \<Rightarrow> byte list \<Rightarrow> cstring option" where
  "qwe_envelope_seal so ok nonce key plain =
     (if qwe_secrets_init so < 0 then None
      else if \<not> ok 0 \<or> \<not> ok 1 then None
      else Some (PREFIX @ so_b64 so (nonce @ so_seal so key nonce envelope_ad plain)))"

definition decode :: "sodium \<Rightarrow> (nat \<Rightarrow> bool) \<Rightarrow> cstring \<Rightarrow> cstring + byte list" where
  "decode so ok text =
     (if take (length PREFIX) text \<noteq> PREFIX then Inl ''not a qwe envelope (expected qwe:1:xchacha20poly1305:...)''
      else let b64 = drop (length PREFIX) text;
               cap = length b64 div 4 * 3 + 3
           in if \<not> ok 0 then Inl ''out of memory''
              else case so_unb64 so cap b64 of
                     None \<Rightarrow> Inl ''the envelope is not valid base64''
                   | Some blob \<Rightarrow> if length blob < NPUB + ABYTES then Inl ''the envelope is too short'' else Inr blob)"

definition qwe_envelope_check :: "sodium \<Rightarrow> (nat \<Rightarrow> bool) \<Rightarrow> cstring \<Rightarrow> cstring + unit" where
  "qwe_envelope_check so ok text =
     (if qwe_secrets_init so < 0 then Inl ''cannot initialize libsodium''
      else map_sum id (\<lambda>_. ()) (decode so ok text))"

definition qwe_envelope_open :: "sodium \<Rightarrow> (nat \<Rightarrow> bool) \<Rightarrow> byte list \<Rightarrow> cstring \<Rightarrow> cstring + byte list" where
  "qwe_envelope_open so ok key text =
     (if qwe_secrets_init so < 0 then Inl ''cannot initialize libsodium''
      else case decode so ok text of
             Inl why \<Rightarrow> Inl why
           | Inr blob \<Rightarrow>
               if \<not> ok 1 then Inl ''out of memory''
               else case so_open so key (take NPUB blob) envelope_ad (drop NPUB blob) of
                      None \<Rightarrow> Inl ''authentication failed (wrong key, or the envelope was modified)''
                    | Some plain \<Rightarrow> Inr plain)"

section \<open>Files\<close>

datatype ftype = F_REG | F_DIR | F_OTHER

record knode =
  kn_type :: ftype
  kn_uid :: nat
  kn_mode :: nat
  kn_data :: "byte list"

datatype answer = A_OK | A_EINTR | A_ERR nat | A_N nat

record kworld =
  kw_nodes :: "cstring \<Rightarrow> knode option"
  kw_answers :: "answer list"

text \<open>The process: its user, its \<open>umask\<close> and \<open>HOME\<close>; the texts of the error numbers; the random bytes.\<close>

record kenv =
  ke_euid :: nat
  ke_umask :: nat
  ke_home :: "cstring option"
  ke_strerror :: "nat \<Rightarrow> cstring"
  ke_random :: "byte list"

definition EINTR :: nat where "EINTR = 4"
definition EEXIST :: nat where "EEXIST = 17"
definition ENOENT :: nat where "ENOENT = 2"

definition next_answer :: "kworld \<Rightarrow> answer \<times> kworld" where
  "next_answer w = (case kw_answers w of [] \<Rightarrow> (A_OK, w) | a # as \<Rightarrow> (a, w\<lparr>kw_answers := as\<rparr>))"

definition answer_errno :: "answer \<Rightarrow> nat option" where
  "answer_errno a = (case a of A_EINTR \<Rightarrow> Some EINTR | A_ERR e \<Rightarrow> Some e | _ \<Rightarrow> None)"

definition created_mode :: "kenv \<Rightarrow> nat \<Rightarrow> nat" where
  "created_mode ke mode = and mode (xor 511 (take_bit 9 (ke_umask ke)))"

text \<open>\<open>mkdir\<close>, and \<open>open\<close> with \<open>O_CREAT | O_EXCL\<close>: a new node, or the error number.\<close>

definition sys_create :: "kenv \<Rightarrow> ftype \<Rightarrow> nat \<Rightarrow> cstring \<Rightarrow> kworld \<Rightarrow> nat option \<times> kworld" where
  "sys_create ke ty mode path w =
     (case next_answer w of (a, w1) \<Rightarrow>
        (case answer_errno a of
           Some e \<Rightarrow> (Some e, w1)
         | None \<Rightarrow>
             (case kw_nodes w1 path of
                Some _ \<Rightarrow> (Some EEXIST, w1)
              | None \<Rightarrow> (None, w1\<lparr>kw_nodes := (kw_nodes w1)(path \<mapsto>
                  \<lparr>kn_type = ty, kn_uid = ke_euid ke, kn_mode = created_mode ke mode, kn_data = []\<rparr>)\<rparr>))))"

text \<open>
  Whether the permissions let the caller in is not decided here: a refusal, of the owner by a mode without the read bit
  or of anyone else, is one of the system's answers, as every error number is. An answer without an error is that of a
  system that lets the caller in, root for one.
\<close>

definition sys_open_read :: "cstring \<Rightarrow> kworld \<Rightarrow> (nat + knode) \<times> kworld" where
  "sys_open_read path w =
     (case next_answer w of (a, w1) \<Rightarrow>
        (case answer_errno a of
           Some e \<Rightarrow> (Inl e, w1)
         | None \<Rightarrow> (case kw_nodes w1 path of None \<Rightarrow> (Inl ENOENT, w1) | Some n \<Rightarrow> (Inr n, w1))))"

text \<open>\<open>None\<close> is a failure, whose error number is not looked at.\<close>

definition sys_fstat :: "knode \<Rightarrow> kworld \<Rightarrow> knode option \<times> kworld" where
  "sys_fstat n w = (case next_answer w of (a, w1) \<Rightarrow> (if answer_errno a = None then Some n else None, w1))"

definition sys_read :: "knode \<Rightarrow> nat \<Rightarrow> kworld \<Rightarrow> byte list option \<times> kworld" where
  "sys_read n sz w =
     (case next_answer w of (a, w1) \<Rightarrow>
        ((if answer_errno a \<noteq> None then None
          else Some (take (case a of A_N m \<Rightarrow> min m sz | _ \<Rightarrow> sz) (kn_data n))), w1))"

definition sys_unlink :: "cstring \<Rightarrow> kworld \<Rightarrow> kworld" where
  "sys_unlink path w =
     (case next_answer w of (a, w1) \<Rightarrow>
        if answer_errno a = None then w1\<lparr>kw_nodes := (kw_nodes w1)(path := None)\<rparr> else w1)"

section \<open>The key file\<close>

definition qwe_msg :: "nat \<Rightarrow> cstring \<Rightarrow> cstring" where
  "qwe_msg sz s = take (sz - 1) s"

definition qwe_key_default_path :: "kenv \<Rightarrow> nat \<Rightarrow> cstring option" where
  "qwe_key_default_path ke n =
     (case ke_home ke of
        None \<Rightarrow> None
      | Some home \<Rightarrow>
          if home = [] then None
          else let s = home @ ''/.config/qwe/secret'' in if length s < n then Some s else None)"

definition resolve_key :: "kenv \<Rightarrow> cstring option \<Rightarrow> nat \<Rightarrow> cstring + cstring" where
  "resolve_key ke path err_size =
     (case path of
        Some p \<Rightarrow> Inr p
      | None \<Rightarrow>
          (case qwe_key_default_path ke 1024 of
             Some p \<Rightarrow> Inr p
           | None \<Rightarrow> Inl (qwe_msg err_size (if ke_home ke \<noteq> None \<and> ke_home ke \<noteq> Some []
               then ''no key file: HOME is too long'' else ''no key file: HOME is not set''))))"

text \<open>\<open>%04o\<close> for a number below 01000.\<close>

definition oct4 :: "nat \<Rightarrow> cstring" where
  "oct4 m = map (\<lambda>d. char_of (48 + d)) [m div 512 mod 8, m div 64 mod 8, m div 8 mod 8, m mod 8]"

definition qwe_private_check :: "kenv \<Rightarrow> knode \<Rightarrow> cstring \<Rightarrow> cstring \<Rightarrow> nat \<Rightarrow> cstring + unit" where
  "qwe_private_check ke st what path err_size =
     (if kn_uid st \<noteq> ke_euid ke then
        Inl (qwe_msg err_size (what @ '' '' @ path @ '' is owned by uid '' @ nat_dec (kn_uid st)
          @ '', not by you (uid '' @ nat_dec (ke_euid ke) @ '')''))
      else if kn_mode st mod 64 \<noteq> 0 then
        Inl (qwe_msg err_size (what @ '' '' @ path @ '' has mode '' @ oct4 (kn_mode st mod 512)
          @ '': it must not be accessible by group or others (chmod ''
          @ (if kn_type st = F_DIR then ''700'' else ''600'') @ '')''))
      else Inr ())"

definition trim_raw :: "byte list \<Rightarrow> byte list" where
  "trim_raw raw = rev (dropWhile (\<lambda>c. c = CHR 0x0A \<or> c = CHR 0x0D \<or> c = CHR '' '') (rev raw))"

definition key_of_raw :: "sodium \<Rightarrow> byte list option \<Rightarrow> byte list option" where
  "key_of_raw so got =
     (case got of
        None \<Rightarrow> None
      | Some raw \<Rightarrow>
          if length raw = QWE_KEY_BYTES then Some raw
          else if trim_raw raw = [] then None
          else case so_unb64 so QWE_KEY_BYTES (trim_raw raw) of
                 None \<Rightarrow> None
               | Some key \<Rightarrow> if length key \<noteq> QWE_KEY_BYTES then None else Some key)"

definition qwe_key_load ::
    "sodium \<Rightarrow> kenv \<Rightarrow> cstring option \<Rightarrow> nat \<Rightarrow> kworld \<Rightarrow> (cstring + byte list) \<times> kworld" where
  "qwe_key_load so ke path err_size w =
     (case resolve_key ke path err_size of
        Inl e \<Rightarrow> (Inl e, w)
      | Inr p \<Rightarrow>
          (case sys_open_read p w of
             (Inl e, w1) \<Rightarrow> (Inl (qwe_msg err_size (''cannot read the key file '' @ p @ '': '' @ ke_strerror ke e
                 @ '' (make one with qwe keygen)'')), w1)
           | (Inr n, w1) \<Rightarrow>
               (case sys_fstat n w1 of
                  (st, w2) \<Rightarrow>
                    if st = None \<or> kn_type n \<noteq> F_REG
                    then (Inl (qwe_msg err_size (''the key file '' @ p @ '' is not a regular file'')), w2)
                    else (case qwe_private_check ke n ''the key file'' p err_size of
                            Inl e \<Rightarrow> (Inl e, w2)
                          | Inr _ \<Rightarrow>
                              (case sys_read n 256 w2 of
                                 (got, w3) \<Rightarrow>
                                   (case key_of_raw so got of
                                      None \<Rightarrow> (Inl (qwe_msg err_size (''the key file '' @ p
                                        @ '' is neither 32 raw bytes nor base64 of 32 bytes'')), w3)
                                    | Some key \<Rightarrow> (Inr key, w3)))))))"

section \<open>Making a key\<close>

text \<open>The loop over the directories of the path, behind its first character; the prefix is made at each
  slash and at the end.\<close>

fun key_mkdirs :: "kenv \<Rightarrow> nat \<Rightarrow> cstring \<Rightarrow> cstring \<Rightarrow> kworld \<Rightarrow> (cstring + unit) \<times> kworld" where
  "key_mkdirs ke err_size pre [] w =
     (case sys_create ke F_DIR 448 pre w of
        (Some e, w1) \<Rightarrow>
          if e \<noteq> EEXIST then (Inl (qwe_msg err_size (''cannot create '' @ pre @ '': '' @ ke_strerror ke e)), w1) else (Inr (), w1)
      | (None, w1) \<Rightarrow> (Inr (), w1))"
| "key_mkdirs ke err_size pre (c # cs) w =
     (if c \<noteq> CHR ''/'' then key_mkdirs ke err_size (pre @ [c]) cs w
      else case sys_create ke F_DIR 448 pre w of
             (Some e, w1) \<Rightarrow>
               if e \<noteq> EEXIST then (Inl (qwe_msg err_size (''cannot create '' @ pre @ '': '' @ ke_strerror ke e)), w1)
               else key_mkdirs ke err_size (pre @ [c]) cs w1
           | (None, w1) \<Rightarrow> key_mkdirs ke err_size (pre @ [c]) cs w1)"

definition append_node :: "cstring \<Rightarrow> byte list \<Rightarrow> kworld \<Rightarrow> kworld" where
  "append_node path b w =
     w\<lparr>kw_nodes := (kw_nodes w)(path := map_option (\<lambda>n. n\<lparr>kn_data := kn_data n @ b\<rparr>) (kw_nodes w path))\<rparr>"

text \<open>The loop that writes the key: the error number, or \<open>None\<close> when all of it is written.\<close>

function write_key :: "cstring \<Rightarrow> byte list \<Rightarrow> kworld \<Rightarrow> nat option \<times> kworld" where
  "write_key path key w =
     (if key = [] then (None, w)
      else case next_answer w of (a, w1) \<Rightarrow>
        (case answer_errno a of
           Some e \<Rightarrow> if e = EINTR then write_key path key w1 else (Some e, w1)
         | None \<Rightarrow>
             let n = (case a of A_N m \<Rightarrow> min m (length key) | _ \<Rightarrow> length key)
             in write_key path (drop n key) (append_node path (take n key) w1)))"
  by pat_completeness auto
termination
  by (relation "measures [\<lambda>(path, key, w). length (kw_answers w), \<lambda>(path, key, w). length key]")
    (auto simp: next_answer_def answer_errno_def append_node_def split: list.splits answer.splits)

declare write_key.simps [simp del]

definition qwe_key_generate ::
    "sodium \<Rightarrow> kenv \<Rightarrow> cstring option \<Rightarrow> nat \<Rightarrow> kworld \<Rightarrow> (cstring + unit) \<times> kworld" where
  "qwe_key_generate so ke path err_size w =
     (case resolve_key ke path err_size of
        Inl e \<Rightarrow> (Inl e, w)
      | Inr p \<Rightarrow>
          if qwe_secrets_init so < 0 then (Inl (qwe_msg err_size ''cannot initialize libsodium''), w)
          else if \<not> length p < 1024 then
            (Inl (qwe_msg err_size (''the key file path is too long (over 1023 bytes): '' @ take 64 p @ ''...'')), w)
          else
            let dir = rev (drop 1 (dropWhile (\<lambda>c. c \<noteq> CHR ''/'') (rev p)))
            in case (if CHR ''/'' \<in> set p \<and> dir \<noteq> [] then key_mkdirs ke err_size (take 1 dir) (drop 1 dir) w else (Inr (), w)) of
                 (Inl e, w1) \<Rightarrow> (Inl e, w1)
               | (Inr _, w1) \<Rightarrow>
                   (case sys_create ke F_REG 384 p w1 of
                      (Some e, w2) \<Rightarrow>
                        (Inl (qwe_msg err_size (if e = EEXIST then ''the key file '' @ p @ '' already exists: not overwriting it''
                           else ''cannot create the key file '' @ p @ '': '' @ ke_strerror ke e)), w2)
                    | (None, w2) \<Rightarrow>
                        (case write_key p (ke_random ke) w2 of
                           (Some e, w3) \<Rightarrow>
                             (Inl (qwe_msg err_size (''cannot write '' @ p @ '': '' @ ke_strerror ke e)), sys_unlink p w3)
                         | (None, w3) \<Rightarrow> (Inr (), w3))))"

section \<open>What Lua gets\<close>

text \<open>The key, once it was read, and the set of the values that are masked; \<open>None\<close> is an abort for want of memory.\<close>

record lua_secrets =
  ls_key :: "byte list option"
  ls_set :: secret_set
  ls_world :: kworld

definition ensure_key :: "sodium \<Rightarrow> kenv \<Rightarrow> lua_secrets \<Rightarrow> (cstring + byte list) \<times> lua_secrets" where
  "ensure_key so ke ls =
     (case ls_key ls of
        Some key \<Rightarrow> (Inr key, ls)
      | None \<Rightarrow>
          (case qwe_key_load so ke None 512 (ls_world ls) of
             (Inl e, w) \<Rightarrow> (Inl e, ls\<lparr>ls_world := w\<rparr>)
           | (Inr key, w) \<Rightarrow> (Inr key, ls\<lparr>ls_world := w, ls_key := Some key\<rparr>)))"

text \<open>\<open>value\<close> is the field of the table, if it is a string; an error is raised with the text of an \<open>Inl\<close>.
  The envelope has the allocations of \<open>ok1\<close>, the set those of \<open>ok2\<close>.\<close>

definition secrets_reveal ::
    "sodium \<Rightarrow> kenv \<Rightarrow> (nat \<Rightarrow> bool) \<Rightarrow> (nat \<Rightarrow> bool) \<Rightarrow> byte list option \<Rightarrow> lua_secrets
     \<Rightarrow> ((cstring + byte list) \<times> lua_secrets) option" where
  "secrets_reveal so ke ok1 ok2 val ls =
     (case val of
        None \<Rightarrow> Some (Inl ''not a secret'', ls)
      | Some text \<Rightarrow>
          (case ensure_key so ke ls of
             (Inl e, ls1) \<Rightarrow> Some (Inl e, ls1)
           | (Inr key, ls1) \<Rightarrow>
               (case qwe_envelope_open so ok1 key (cstr text) of
                  Inl why \<Rightarrow> Some (Inl (''cannot decrypt a secret: '' @ why), ls1)
                | Inr plain \<Rightarrow>
                    (case qwe_redact_add ok2 (ls_set ls1) plain 0 of
                       None \<Rightarrow> None
                     | Some (ss, k) \<Rightarrow> Some (Inr plain, ls1\<lparr>ls_set := ss\<rparr>)))))"

definition secrets_mask :: "(nat \<Rightarrow> bool) \<Rightarrow> byte list \<Rightarrow> lua_secrets \<Rightarrow> lua_secrets option" where
  "secrets_mask ok s ls = map_option (\<lambda>(ss, k). ls\<lparr>ls_set := ss\<rparr>) (qwe_redact_add ok (ls_set ls) s 0)"

definition secrets_check :: "sodium \<Rightarrow> (nat \<Rightarrow> bool) \<Rightarrow> byte list \<Rightarrow> cstring option \<times> bool" where
  "secrets_check so ok s = (case qwe_envelope_check so ok (cstr s) of Inl why \<Rightarrow> (Some why, False) | Inr _ \<Rightarrow> (None, True))"

section \<open>Sealing and opening\<close>

lemma sodium_lawsD:
  assumes "sodium_laws so"
  shows "length key = QWE_KEY_BYTES \<Longrightarrow> length nonce = NPUB \<Longrightarrow> length (so_seal so key nonce ad p) = length p + ABYTES"
    and "length key = QWE_KEY_BYTES \<Longrightarrow> length nonce = NPUB \<Longrightarrow> so_open so key nonce ad (so_seal so key nonce ad p) = Some p"
    and "length key = QWE_KEY_BYTES \<Longrightarrow> length nonce = NPUB \<Longrightarrow> so_open so key nonce ad c = Some p \<Longrightarrow> c = so_seal so key nonce ad p"
    and "length (so_b64 so b) = (length b + 2) div 3 * 4" and "nul_free (so_b64 so b)"
    and "length b \<le> n \<Longrightarrow> so_unb64 so n (so_b64 so b) = Some b"
proof -
  note l = assms [unfolded sodium_laws_def, THEN conjunct1] assms [unfolded sodium_laws_def, THEN conjunct2, THEN conjunct1]
    assms [unfolded sodium_laws_def, THEN conjunct2, THEN conjunct2, THEN conjunct1]
    assms [unfolded sodium_laws_def, THEN conjunct2, THEN conjunct2, THEN conjunct2]
  show "length key = QWE_KEY_BYTES \<Longrightarrow> length nonce = NPUB \<Longrightarrow> length (so_seal so key nonce ad p) = length p + ABYTES"
    "length key = QWE_KEY_BYTES \<Longrightarrow> length nonce = NPUB \<Longrightarrow> so_open so key nonce ad (so_seal so key nonce ad p) = Some p"
    using l(1) by simp_all
  show "length key = QWE_KEY_BYTES \<Longrightarrow> length nonce = NPUB \<Longrightarrow> so_open so key nonce ad c = Some p \<Longrightarrow> c = so_seal so key nonce ad p"
    using l(2) by blast
  show "length (so_b64 so b) = (length b + 2) div 3 * 4" "nul_free (so_b64 so b)" using l(3) by simp_all
  show "length b \<le> n \<Longrightarrow> so_unb64 so n (so_b64 so b) = Some b" using l(4) by simp
qed

lemma decode_encoded:
  assumes "sodium_laws so" "ok 0" "NPUB + ABYTES \<le> length b"
  shows "decode so ok (PREFIX @ so_b64 so b) = Inr b"
proof -
  have "length b \<le> length (so_b64 so b) div 4 * 3 + 3" using sodium_lawsD(4) [OF assms(1), of b] by simp
  then show ?thesis using sodium_lawsD(6) [OF assms(1)] assms(2,3) by (simp add: decode_def Let_def)
qed

lemma decode_Inr:
  assumes "decode so ok text = Inr blob"
  shows "\<exists>s. text = PREFIX @ s \<and> so_unb64 so (length s div 4 * 3 + 3) s = Some blob \<and> NPUB + ABYTES \<le> length blob"
proof -
  from assms have t: "take (length PREFIX) text = PREFIX" and
    u: "so_unb64 so (length (drop (length PREFIX) text) div 4 * 3 + 3) (drop (length PREFIX) text) = Some blob" and
    l: "NPUB + ABYTES \<le> length blob"
    by (auto simp: decode_def Let_def split: if_splits option.splits)
  have "text = PREFIX @ drop (length PREFIX) text" using t append_take_drop_id [of "length PREFIX" "text"] by simp
  with u l show ?thesis by blast
qed

text \<open>What is opened was sealed under this key and this version.\<close>

definition sealed_under :: "sodium \<Rightarrow> byte list \<Rightarrow> cstring \<Rightarrow> byte list \<Rightarrow> bool" where
  "sealed_under so key text p \<longleftrightarrow>
     (\<exists>s nonce n. text = PREFIX @ s \<and> length nonce = NPUB
        \<and> so_unb64 so n s = Some (nonce @ so_seal so key nonce envelope_ad p))"

lemma envelope_open_sealed:
  assumes "sodium_laws so" "length key = QWE_KEY_BYTES" "qwe_envelope_open so ok key text = Inr p"
  shows "sealed_under so key text p"
proof -
  from assms(3) obtain blob where b: "decode so ok text = Inr blob"
      "so_open so key (take NPUB blob) envelope_ad (drop NPUB blob) = Some p"
    by (auto simp: qwe_envelope_open_def split: if_splits sum.splits option.splits)
  from decode_Inr [OF b(1)] obtain s where s: "text = PREFIX @ s" "so_unb64 so (length s div 4 * 3 + 3) s = Some blob"
      "NPUB + ABYTES \<le> length blob" by blast
  then have n: "length (take NPUB blob) = NPUB" by simp
  have "drop NPUB blob = so_seal so key (take NPUB blob) envelope_ad p" by (rule sodium_lawsD(3) [OF assms(1,2) n b(2)])
  then have "blob = take NPUB blob @ so_seal so key (take NPUB blob) envelope_ad p" by (metis append_take_drop_id)
  with s n show ?thesis unfolding sealed_under_def by metis
qed

section \<open>Keys\<close>

lemma next_answer_nodes [simp]: "next_answer w = (a, w') \<Longrightarrow> kw_nodes w' = kw_nodes w"
  by (auto simp: next_answer_def split: list.splits)

lemma key_of_raw_length: "key_of_raw so got = Some key \<Longrightarrow> length key = QWE_KEY_BYTES"
  by (auto simp: key_of_raw_def split: option.splits if_splits)

definition private_key_file :: "sodium \<Rightarrow> kenv \<Rightarrow> knode \<Rightarrow> byte list \<Rightarrow> bool" where
  "private_key_file so ke n key \<longleftrightarrow>
     kn_type n = F_REG \<and> kn_uid n = ke_euid ke \<and> kn_mode n mod 64 = 0 \<and>
     (\<exists>m \<le> 256. key_of_raw so (Some (take m (kn_data n))) = Some key)"

lemma key_load_file:
  assumes "qwe_key_load so ke path err_size w = (Inr key, w')"
  shows "\<exists>p n. resolve_key ke path err_size = Inr p \<and> kw_nodes w p = Some n \<and> private_key_file so ke n key"
    and "length key = QWE_KEY_BYTES"
proof -
  from assms obtain p where p: "resolve_key ke path err_size = Inr p"
    by (cases "resolve_key ke path err_size") (auto simp: qwe_key_load_def)
  with assms obtain n w1 where n: "sys_open_read p w = (Inr n, w1)"
    by (cases "sys_open_read p w"; cases "fst (sys_open_read p w)") (auto simp: qwe_key_load_def)
  obtain st w2 where st: "sys_fstat n w1 = (st, w2)" by (cases "sys_fstat n w1")
  obtain got w3 where got: "sys_read n 256 w2 = (got, w3)" by (cases "sys_read n 256 w2")
  have c: "kn_type n = F_REG" "qwe_private_check ke n ''the key file'' p err_size = Inr ()" "key_of_raw so got = Some key"
    using assms p n st got by (auto simp: qwe_key_load_def split: if_splits sum.splits option.splits)
  have f: "kw_nodes w p = Some n" using n by (auto simp: sys_open_read_def split: prod.splits option.splits)
  have u: "kn_uid n = ke_euid ke" "kn_mode n mod 64 = 0" using c(2) by (auto simp: qwe_private_check_def split: if_splits)
  obtain a w4 where a: "next_answer w2 = (a, w4)" by (cases "next_answer w2")
  have "got \<noteq> None" using c(3) by (cases got) (simp_all add: key_of_raw_def)
  then have "got = Some (take (case a of A_N m \<Rightarrow> min m 256 | _ \<Rightarrow> 256) (kn_data n))"
    using got a by (auto simp: sys_read_def split: if_splits)
  moreover have "(case a of A_N m \<Rightarrow> min m 256 | _ \<Rightarrow> 256) \<le> (256 :: nat)" by (simp split: answer.splits)
  ultimately have "\<exists>m \<le> 256. key_of_raw so (Some (take m (kn_data n))) = Some key" using c(3) by blast
  with p f c(1) u show "\<exists>p n. resolve_key ke path err_size = Inr p \<and> kw_nodes w p = Some n \<and> private_key_file so ke n key"
    by (auto simp: private_key_file_def)
  show "length key = QWE_KEY_BYTES" using c(3) by (rule key_of_raw_length)
qed

text \<open>A file made with mode 0600 is private whatever the \<open>umask\<close>.\<close>

lemma created_mode_private: "created_mode ke 384 mod 64 = 0" "created_mode ke 448 mod 64 = 0"
proof -
  have "take_bit 6 (384 :: nat) = 0" "take_bit 6 (448 :: nat) = 0" by (simp_all add: take_bit_eq_mod)
  then have "take_bit 6 (created_mode ke 384) = 0" "take_bit 6 (created_mode ke 448) = 0"
    by (simp_all add: created_mode_def)
  then show "created_mode ke 384 mod 64 = 0" "created_mode ke 448 mod 64 = 0" by (simp_all add: take_bit_eq_mod)
qed

lemma sys_create_nodes:
  assumes "sys_create ke ty mode path w = (r, w')"
  shows "r = None \<Longrightarrow> kw_nodes w path = None \<and> kw_nodes w' = (kw_nodes w)(path \<mapsto>
      \<lparr>kn_type = ty, kn_uid = ke_euid ke, kn_mode = created_mode ke mode, kn_data = []\<rparr>)"
    and "r \<noteq> None \<Longrightarrow> kw_nodes w' = kw_nodes w"
  using assms by (auto simp: sys_create_def split: prod.splits option.splits)

text \<open>Nothing that is there is changed.\<close>

definition keeps :: "kworld \<Rightarrow> kworld \<Rightarrow> bool" where
  "keeps w w' \<longleftrightarrow> (\<forall>q n. kw_nodes w q = Some n \<longrightarrow> kw_nodes w' q = Some n)"

lemma keeps_trans: "keeps w1 w2 \<Longrightarrow> keeps w2 w3 \<Longrightarrow> keeps w1 w3"
  by (simp add: keeps_def)

lemma sys_create_keeps: "sys_create ke ty mode path w = (r, w') \<Longrightarrow> keeps w w'"
  using sys_create_nodes [of ke ty mode path w r w'] by (cases r) (auto simp: keeps_def)

lemma key_mkdirs_frame:
  "key_mkdirs ke err_size pre cs w = (r, w') \<Longrightarrow>
   keeps w w' \<and> (\<forall>q. length (pre @ cs) < length q \<longrightarrow> kw_nodes w' q = kw_nodes w q)"
proof (induction cs arbitrary: pre w)
  case Nil
  obtain e w1 where c: "sys_create ke F_DIR 448 pre w = (e, w1)" by (cases "sys_create ke F_DIR 448 pre w")
  with Nil have "w' = w1" by (auto split: option.splits if_splits)
  then show ?case using sys_create_keeps [OF c] sys_create_nodes [OF c] by (cases e) auto
next
  case (Cons c cs)
  show ?case
  proof (cases "c = CHR ''/''")
    case False
    with Cons.IH [of "pre @ [c]" w] Cons.prems show ?thesis by simp
  next
    case True
    obtain e w1 where cr: "sys_create ke F_DIR 448 pre w = (e, w1)" by (cases "sys_create ke F_DIR 448 pre w")
    have f: "keeps w w1 \<and> (\<forall>q. length (pre @ c # cs) < length q \<longrightarrow> kw_nodes w1 q = kw_nodes w q)"
      using sys_create_keeps [OF cr] sys_create_nodes [OF cr] by (cases e) auto
    show ?thesis
    proof (cases "e \<noteq> None \<and> e \<noteq> Some EEXIST")
      case stop: True
      with Cons.prems cr True have "w' = w1" by (auto split: option.splits)
      with f show ?thesis by simp
    next
      case False
      then have "key_mkdirs ke err_size (pre @ [c]) cs w1 = (r, w')" using Cons.prems cr True by (auto split: option.splits)
      from Cons.IH [OF this] f show ?thesis using keeps_trans by auto
    qed
  qed
qed

lemma append_node_nodes:
  "kw_nodes w path = Some n \<Longrightarrow> kw_nodes (append_node path b w) = (kw_nodes w)(path \<mapsto> n\<lparr>kn_data := kn_data n @ b\<rparr>)"
  by (simp add: append_node_def)

text \<open>The loop writes all of the key, or stops at an error with a part of it.\<close>

lemma write_key_nodes:
  assumes "write_key path key w = (r, w')" "kw_nodes w path = Some n"
  shows "\<exists>m. kw_nodes w' = (kw_nodes w)(path \<mapsto> n\<lparr>kn_data := kn_data n @ take m key\<rparr>)
    \<and> (r = None \<longrightarrow> take m key = key) \<and> (r \<noteq> None \<longrightarrow> m < length key)"
  using assms
proof (induction path key w arbitrary: r w' n rule: write_key.induct)
  case (1 path key w)
  obtain a w1 where a: "next_answer w = (a, w1)" by (cases "next_answer w")
  note u = "1.prems"(1) [unfolded write_key.simps [of path key w] a prod.case]
  have n1: "kw_nodes w1 = kw_nodes w" using a by simp
  have same: "(kw_nodes w)(path \<mapsto> n\<lparr>kn_data := kn_data n @ take 0 key\<rparr>) = kw_nodes w" using "1.prems"(2) by auto
  show ?case
  proof (cases "key = []")
    case True
    then show ?thesis using u same by (intro exI [of _ 0]) simp
  next
    case ne: False
    show ?thesis
    proof (cases "answer_errno a")
      case (Some e)
      show ?thesis
      proof (cases "e = EINTR")
        case True
        with u ne Some have "write_key path key w1 = (r, w')" by simp
        from "1.IH"(2) [OF ne a [symmetric] Some True this] "1.prems"(2) n1 show ?thesis by simp
      next
        case False
        with u ne Some have "r = Some e" "w' = w1" by auto
        then show ?thesis using same n1 ne by (intro exI [of _ 0]) simp
      qed
    next
      case None
      define k where "k = (case a of A_N m \<Rightarrow> min m (length key) | _ \<Rightarrow> length key)"
      let ?w = "append_node path (take k key) w1" and ?n = "n\<lparr>kn_data := kn_data n @ take k key\<rparr>"
      have kl: "k \<le> length key" by (simp add: k_def split: answer.splits)
      have step: "write_key path (drop k key) ?w = (r, w')" using u ne None by (simp add: k_def Let_def)
      have nodes: "kw_nodes ?w = (kw_nodes w)(path \<mapsto> ?n)" using append_node_nodes [of w1 path n] n1 "1.prems"(2) by simp
      then have "kw_nodes ?w path = Some ?n" by simp
      from "1.IH"(1) [OF ne a [symmetric] None k_def step this] obtain m where
        m: "kw_nodes w' = (kw_nodes ?w)(path \<mapsto> ?n\<lparr>kn_data := kn_data ?n @ take m (drop k key)\<rparr>)"
          "r = None \<longrightarrow> take m (drop k key) = drop k key" "r \<noteq> None \<longrightarrow> m < length (drop k key)" by blast
      have t: "take k key @ take m (drop k key) = take (k + m) key" by (simp add: take_add)
      show ?thesis
      proof (intro exI [of _ "k + m"] conjI impI)
        show "kw_nodes w' = (kw_nodes w)(path \<mapsto> n\<lparr>kn_data := kn_data n @ take (k + m) key\<rparr>)"
          using m(1) nodes t by simp
        show "take (k + m) key = key" if "r = None" using m(2) that t by (metis append_take_drop_id)
        show "k + m < length key" if "r \<noteq> None" using m(3) that by simp
      qed
    qed
  qed
qed

lemma sys_unlink_nodes: "kw_nodes (sys_unlink path w) = kw_nodes w \<or> kw_nodes (sys_unlink path w) = (kw_nodes w)(path := None)"
  by (auto simp: sys_unlink_def split: prod.splits)

lemma sys_unlink_keeps: "keeps w w' \<Longrightarrow> kw_nodes w path = None \<Longrightarrow> keeps w (sys_unlink path w')"
  unfolding keeps_def using sys_unlink_nodes [of path w'] by (metis fun_upd_other option.distinct(1))

lemma generate_dirs:
  assumes "(if CHR ''/'' \<in> set p \<and> dir \<noteq> [] then key_mkdirs ke err_size (take 1 dir) (drop 1 dir) w else (Inr (), w)) = (d, w1)"
    and "dir = rev (drop 1 (dropWhile (\<lambda>c. c \<noteq> CHR ''/'') (rev p)))"
  shows "keeps w w1" and "kw_nodes w1 p = kw_nodes w p"
proof -
  have "keeps w w1 \<and> kw_nodes w1 p = kw_nodes w p"
  proof (cases "CHR ''/'' \<in> set p \<and> dir \<noteq> []")
    case True
    with assms(1) have k: "key_mkdirs ke err_size (take 1 dir) (drop 1 dir) w = (d, w1)" by simp
    have "dropWhile (\<lambda>c. c \<noteq> CHR ''/'') (rev p) \<noteq> []" using True by (simp add: dropWhile_eq_Nil_conv)
    then have "length (drop 1 (dropWhile (\<lambda>c. c \<noteq> CHR ''/'') (rev p))) < length (dropWhile (\<lambda>c. c \<noteq> CHR ''/'') (rev p))" by simp
    also have "\<dots> \<le> length p" using length_dropWhile_le [of "\<lambda>c. c \<noteq> CHR ''/''" "rev p"] by simp
    finally have "length (take 1 dir @ drop 1 dir) < length p" using assms(2) by simp
    with key_mkdirs_frame [OF k] show ?thesis by blast
  next
    case False
    with assms(1) show ?thesis by (auto simp: keeps_def)
  qed
  then show "keeps w w1" "kw_nodes w1 p = kw_nodes w p" by auto
qed

text \<open>What making a key leaves of its path, and of everything else.\<close>

definition new_key_node :: "kenv \<Rightarrow> byte list \<Rightarrow> knode" where
  "new_key_node ke b = \<lparr>kn_type = F_REG, kn_uid = ke_euid ke, kn_mode = created_mode ke 384, kn_data = b\<rparr>"

lemma key_generate_nodes:
  assumes "qwe_key_generate so ke path err_size w = (r, w')" "resolve_key ke path err_size = Inr p"
  shows "keeps w w'"
    and "r = Inr () \<Longrightarrow> kw_nodes w p = None \<and> kw_nodes w' p = Some (new_key_node ke (ke_random ke))"
    and "r \<noteq> Inr () \<Longrightarrow> kw_nodes w p = None \<Longrightarrow>
      kw_nodes w' p = None \<or> (\<exists>m < length (ke_random ke). kw_nodes w' p = Some (new_key_node ke (take m (ke_random ke))))"
proof -
  let ?goal = "keeps w w' \<and> (r = Inr () \<longrightarrow> kw_nodes w p = None \<and> kw_nodes w' p = Some (new_key_node ke (ke_random ke))) \<and>
    (r \<noteq> Inr () \<longrightarrow> kw_nodes w p = None \<longrightarrow>
      kw_nodes w' p = None \<or> (\<exists>m < length (ke_random ke). kw_nodes w' p = Some (new_key_node ke (take m (ke_random ke)))))"
  have ?goal
  proof (cases "qwe_secrets_init so < 0 \<or> \<not> length p < 1024")
    case True
    then have "w' = w" "r \<noteq> Inr ()" using assms by (auto simp: qwe_key_generate_def split: if_splits)
    then show ?thesis by (simp add: keeps_def)
  next
    case ok: False
    define dir where "dir = rev (drop 1 (dropWhile (\<lambda>c. c \<noteq> CHR ''/'') (rev p)))"
    obtain d w1 where d: "(if CHR ''/'' \<in> set p \<and> dir \<noteq> [] then key_mkdirs ke err_size (take 1 dir) (drop 1 dir) w else (Inr (), w)) = (d, w1)"
      by (metis prod.exhaust_sel)
    note f = generate_dirs [OF d dir_def]
    obtain e w2 where c: "sys_create ke F_REG 384 p w1 = (e, w2)" by (cases "sys_create ke F_REG 384 p w1")
    note g = assms(1) [unfolded qwe_key_generate_def assms(2) sum.case Let_def dir_def [symmetric] d]
    show ?thesis
    proof (cases "\<exists>u. d = Inr u \<and> e = None")
      case False
      have "w' = w1 \<or> w' = w2 \<and> e \<noteq> None" "r \<noteq> Inr ()" using g ok c False by (auto split: sum.splits option.splits)
      then have "kw_nodes w' = kw_nodes w1" using sys_create_nodes(2) [OF c] by auto
      with f \<open>r \<noteq> Inr ()\<close> show ?thesis by (simp add: keeps_def)
    next
      case True
      then have e: "e = None" and du: "d = Inr ()" by auto
      have n2: "kw_nodes w1 p = None" "kw_nodes w2 = (kw_nodes w1)(p \<mapsto> new_key_node ke [])"
        using sys_create_nodes(1) [OF c e] by (simp_all add: new_key_node_def)
      obtain x w3 where x: "write_key p (ke_random ke) w2 = (x, w3)" by (cases "write_key p (ke_random ke) w2")
      from write_key_nodes [OF x, of "new_key_node ke []"] n2 obtain m where
        m: "kw_nodes w3 = (kw_nodes w1)(p \<mapsto> new_key_node ke (take m (ke_random ke)))"
          "x = None \<longrightarrow> take m (ke_random ke) = ke_random ke" "x \<noteq> None \<longrightarrow> m < length (ke_random ke)"
        by (auto simp: new_key_node_def)
      have k3: "keeps w w3" "kw_nodes w p = None" using f n2(1) m(1) by (auto simp: keeps_def)
      show ?thesis
      proof (cases x)
        case None
        then have "r = Inr ()" "w' = w3" using g ok c e du x by auto
        with k3 m None show ?thesis by simp
      next
        case (Some y)
        then have r: "r \<noteq> Inr ()" "w' = sys_unlink p w3" using g ok c e du x by auto
        have "kw_nodes w' p = None \<or> kw_nodes w' p = Some (new_key_node ke (take m (ke_random ke)))"
          using sys_unlink_nodes [of p w3] r(2) m(1) by auto
        with r k3 m(3) Some sys_unlink_keeps [OF k3] show ?thesis by auto
      qed
    qed
  qed
  then show "keeps w w'" "r = Inr () \<Longrightarrow> kw_nodes w p = None \<and> kw_nodes w' p = Some (new_key_node ke (ke_random ke))"
    "r \<noteq> Inr () \<Longrightarrow> kw_nodes w p = None \<Longrightarrow>
      kw_nodes w' p = None \<or> (\<exists>m < length (ke_random ke). kw_nodes w' p = Some (new_key_node ke (take m (ke_random ke))))"
    by blast+
qed

lemma key_load_new:
  assumes "resolve_key ke path err_size = Inr p" "kw_nodes w p = Some (new_key_node ke key)" "length key = QWE_KEY_BYTES"
    and "kw_answers w = []"
  shows "qwe_key_load so ke path err_size w = (Inr key, w)"
  using assms created_mode_private(1) [of ke]
  by (simp add: qwe_key_load_def sys_open_read_def sys_fstat_def sys_read_def next_answer_def answer_errno_def
      new_key_node_def qwe_private_check_def key_of_raw_def QWE_KEY_BYTES_def)

section \<open>A small cipher\<close>

text \<open>A cipher and a code that have the laws: the tag is half of the key; three bytes become themselves, with
  their NULs replaced, and a character that says how many they are and where the NULs were.\<close>

definition nz :: "char \<Rightarrow> char" where "nz c = (if c = CHR 0x00 then CHR ''A'' else c)"
definition zb :: "char \<Rightarrow> nat" where "zb c = (if c = CHR 0x00 then 1 else 0)"

definition enc3 :: "nat \<Rightarrow> char \<Rightarrow> char \<Rightarrow> char \<Rightarrow> cstring" where
  "enc3 n a b c = [nz a, nz b, nz c, char_of (1 + n + 4 * (zb a + 2 * zb b + 4 * zb c))]"

fun b64_ex :: "byte list \<Rightarrow> cstring" where
  "b64_ex [] = []"
| "b64_ex [a] = enc3 1 a CHR ''A'' CHR ''A''"
| "b64_ex [a, b] = enc3 2 a b CHR ''A''"
| "b64_ex (a # b # c # r) = enc3 3 a b c @ b64_ex r"

definition unz :: "nat \<Rightarrow> char \<Rightarrow> char" where
  "unz f c = (if f mod 2 = 1 then CHR 0x00 else c)"

fun unb64_ex :: "cstring \<Rightarrow> byte list option" where
  "unb64_ex [] = Some []"
| "unb64_ex (p # q # r # s # t) =
     (let f = of_char s - 1; a = unz (f div 4) p; b = unz (f div 8) q; c = unz (f div 16) r
      in if f mod 4 = 1 then Some [a]
         else if f mod 4 = 2 then Some [a, b]
         else map_option (\<lambda>u. a # b # c # u) (unb64_ex t))"
| "unb64_ex _ = None"

lemma unb64_enc3:
  "unb64_ex (enc3 1 a b c @ t) = Some [a]" "unb64_ex (enc3 2 a b c @ t) = Some [a, b]"
  "unb64_ex (enc3 3 a b c @ t) = map_option (\<lambda>u. a # b # c # u) (unb64_ex t)"
  by (cases "a = CHR 0x00"; cases "b = CHR 0x00"; cases "c = CHR 0x00"; simp add: enc3_def nz_def zb_def unz_def Let_def)+

lemma unb64_b64_ex: "unb64_ex (b64_ex b) = Some b"
proof (induction b rule: b64_ex.induct)
  case (2 a)
  then show ?case using unb64_enc3(1) [where t = "[]"] by simp
next
  case (3 a b)
  then show ?case using unb64_enc3(2) [where t = "[]"] by simp
qed (simp_all add: unb64_enc3(3))

lemma char_of_not_nul: "0 < (m :: nat) \<Longrightarrow> m < 256 \<Longrightarrow> (char_of m :: char) \<noteq> CHR 0x00"
proof
  assume m: "0 < m" "m < 256" "(char_of m :: char) = CHR 0x00"
  then have "(of_char (char_of m :: char) :: nat) = 0" by simp
  with m(1,2) show False by simp
qed

lemma enc3_text: "length (enc3 n a b c) = 4" "n < 4 \<Longrightarrow> nul_free (enc3 n a b c)"
proof -
  show "length (enc3 n a b c) = 4" by (simp add: enc3_def)
  assume n: "n < 4"
  have "zb x \<le> 1" for x by (simp add: zb_def)
  then have "zb a \<le> 1" "zb b \<le> 1" "zb c \<le> 1" by blast+
  with n have "(char_of (1 + n + 4 * (zb a + 2 * zb b + 4 * zb c)) :: char) \<noteq> CHR 0x00" by (intro char_of_not_nul) simp_all
  moreover have "nz x \<noteq> CHR 0x00" for x by (simp add: nz_def)
  ultimately show "nul_free (enc3 n a b c)" unfolding enc3_def nul_free_def by (metis list.set_cases list.distinct(1) set_ConsD)
qed

lemma b64_ex_text: "length (b64_ex b) = (length b + 2) div 3 * 4 \<and> nul_free (b64_ex b)"
proof (induction b rule: b64_ex.induct)
  case (4 a b c r)
  have "(length (a # b # c # r) + 2) div 3 = Suc ((length r + 2) div 3)" by simp
  with 4 show ?case by (simp add: enc3_text)
qed (simp_all add: enc3_text nul_free_def [of "[]"])

definition sodium_ex :: sodium where
  "sodium_ex = \<lparr>so_init = 1, so_seal = (\<lambda>key nonce ad p. p @ take 16 key),
     so_open = (\<lambda>key nonce ad c. if length c \<ge> 16 \<and> drop (length c - 16) c = take 16 key then Some (take (length c - 16) c) else None),
     so_b64 = b64_ex, so_unb64 = (\<lambda>n s. case unb64_ex s of None \<Rightarrow> None | Some b \<Rightarrow> if length b \<le> n then Some b else None)\<rparr>"

lemma sodium_ex_laws: "sodium_laws sodium_ex"
  unfolding sodium_laws_def
proof (intro conjI allI impI)
  fix key nonce ad c p
  assume o: "so_open sodium_ex key nonce ad c = Some p"
  then have "drop (length c - 16) c = take 16 key" "p = take (length c - 16) c" by (auto simp: sodium_ex_def split: if_splits)
  then show "c = so_seal sodium_ex key nonce ad p" by (simp add: sodium_ex_def) (metis append_take_drop_id)
qed (simp_all add: sodium_ex_def b64_ex_text unb64_b64_ex NPUB_def ABYTES_def QWE_KEY_BYTES_def)

section \<open>Properties\<close>

text \<open>Sealing and opening: with memory, what is sealed under a key is an envelope that passes the check,
  has no NUL in it and opens under the same key to the value that was sealed, of any length.\<close>

lemma envelope_roundtrip:
  assumes "sodium_laws so" and "0 \<le> so_init so" and "\<forall>i. ok i"
    and "length key = QWE_KEY_BYTES" and "length nonce = NPUB"
  shows "\<exists>t. qwe_envelope_seal so ok nonce key plain = Some t \<and> nul_free t
    \<and> qwe_envelope_check so ok t = Inr () \<and> qwe_envelope_open so ok key t = Inr plain"
proof -
  let ?blob = "nonce @ so_seal so key nonce envelope_ad plain"
  have d: "decode so ok (PREFIX @ so_b64 so ?blob) = Inr ?blob"
    using assms sodium_lawsD(1) [OF assms(1,4,5)] by (intro decode_encoded) simp_all
  have "nul_free (PREFIX @ so_b64 so ?blob)" using sodium_lawsD(5) [OF assms(1)] by (simp add: PREFIX_def nul_free_def)
  with d assms sodium_lawsD(2) [OF assms(1,4,5)] show ?thesis
    by (simp add: qwe_envelope_seal_def qwe_envelope_check_def qwe_envelope_open_def qwe_secrets_init_def)
qed

text \<open>C31. Revealing a secret. What Lua gets in clear was sealed under the key in use and under this version of
  the envelope, and it is in the set of values that are masked before Lua sees it; no value leaves that
  set. The key was read from a regular file of this user that nobody else can access, and has 32 bytes.\<close>

theorem secrets_reveal_masked:
  assumes "sodium_laws so" and "\<forall>key. ls_key ls = Some key \<longrightarrow> length key = QWE_KEY_BYTES"
    and "secrets_reveal so ke ok1 ok2 (Some t) ls = Some (Inr p, ls')"
  shows "\<exists>key. ls_key ls' = Some key \<and> length key = QWE_KEY_BYTES \<and> sealed_under so key (cstr t) p
    \<and> set (ss_vals (ls_set ls')) = set (ss_vals (ls_set ls)) \<union> ({p} - {[]})
    \<and> (ls_key ls = None \<longrightarrow> (\<exists>path n. qwe_key_default_path ke 1024 = Some path \<and> kw_nodes (ls_world ls) path = Some n
         \<and> private_key_file so ke n key))"
proof -
  obtain x ls1 where x: "ensure_key so ke ls = (x, ls1)" by (cases "ensure_key so ke ls")
  with assms(3) obtain key where key: "x = Inr key" by (cases x) (auto simp: secrets_reveal_def)
  with x assms(3) have o: "qwe_envelope_open so ok1 key (cstr t) = Inr p"
    by (auto simp: secrets_reveal_def split: sum.splits option.splits)
  with x key assms(3) obtain ss k where a: "qwe_redact_add ok2 (ls_set ls1) p 0 = Some (ss, k)" "ls' = ls1\<lparr>ls_set := ss\<rparr>"
    by (auto simp: secrets_reveal_def split: option.splits)
  have set: "set (ss_vals ss) = set (ss_vals (ls_set ls1)) \<union> ({p} - {[]})"
    using a(1) by (auto simp: qwe_redact_add_def Let_def split: if_splits)
  have k: "ls_key ls1 = Some key \<and> ls_set ls1 = ls_set ls \<and> length key = QWE_KEY_BYTES
    \<and> (ls_key ls = None \<longrightarrow> (\<exists>path n. qwe_key_default_path ke 1024 = Some path \<and> kw_nodes (ls_world ls) path = Some n
         \<and> private_key_file so ke n key))"
  proof (cases "ls_key ls")
    case (Some key')
    with x key assms(2) show ?thesis by (auto simp: ensure_key_def)
  next
    case None
    obtain y w where y: "qwe_key_load so ke None 512 (ls_world ls) = (y, w)" by (cases "qwe_key_load so ke None 512 (ls_world ls)")
    with None x key have l: "y = Inr key" "ls1 = ls\<lparr>ls_world := w, ls_key := Some key\<rparr>"
      by (auto simp: ensure_key_def split: sum.splits)
    from key_load_file [OF y [unfolded l(1)]] obtain path n where
      "resolve_key ke None 512 = Inr path" "kw_nodes (ls_world ls) path = Some n" "private_key_file so ke n key"
      "length key = QWE_KEY_BYTES" by blast
    then show ?thesis using l(2) by (auto simp: resolve_key_def split: option.splits)
  qed
  have "sealed_under so key (cstr t) p" using envelope_open_sealed [OF assms(1) _ o] k by blast
  with k set a(2) show ?thesis by simp
qed

definition key_ex :: "byte list" where "key_ex = replicate 32 CHR ''k''"

definition kenv_ex :: kenv where
  "kenv_ex = \<lparr>ke_euid = 7, ke_umask = 18, ke_home = Some ''/h'', ke_strerror = (\<lambda>_. ''No such file''), ke_random = key_ex\<rparr>"

definition world_ex :: "(cstring \<times> knode) list \<Rightarrow> answer list \<Rightarrow> kworld" where
  "world_ex fs as = \<lparr>kw_nodes = map_of fs, kw_answers = as\<rparr>"

theorem secrets_reveal_masked_witness:
  "\<exists>ls'. secrets_reveal sodium_ex kenv_ex (\<lambda>_. True) (\<lambda>_. True)
       (Some (PREFIX @ b64_ex (replicate 24 CHR ''n'' @ ''hunter2'' @ take 16 key_ex)))
       \<lparr>ls_key = None, ls_set = \<lparr>ss_vals = [], ss_capset = 0\<rparr>, ls_world = world_ex [(''/h/.config/qwe/secret'', new_key_node kenv_ex key_ex)] []\<rparr>
     = Some (Inr ''hunter2'', ls') \<and> set (ss_vals (ls_set ls')) = {''hunter2''}"
proof -
  let ?t = "PREFIX @ b64_ex (replicate 24 CHR ''n'' @ ''hunter2'' @ take 16 key_ex)"
  let ?ls = "\<lparr>ls_key = None, ls_set = \<lparr>ss_vals = [], ss_capset = 0\<rparr>, ls_world = world_ex [(''/h/.config/qwe/secret'', new_key_node kenv_ex key_ex)] []\<rparr>"
  have "map_option fst (secrets_reveal sodium_ex kenv_ex (\<lambda>_. True) (\<lambda>_. True) (Some ?t) ?ls) = Some (Inr ''hunter2'')" by code_simp
  then obtain ls' where r: "secrets_reveal sodium_ex kenv_ex (\<lambda>_. True) (\<lambda>_. True) (Some ?t) ?ls = Some (Inr ''hunter2'', ls')"
    by (auto simp: map_option_case split: option.splits)
  from secrets_reveal_masked [OF sodium_ex_laws _ r] have "set (ss_vals (ls_set ls')) = {''hunter2''}" by auto
  with r show ?thesis by blast
qed

text \<open>C32. Making a key. Whatever the system answers, no file and no directory that was there is changed, an
  existing key least of all. When a key was made, its file is new, private whatever the umask, holds the
  32 random bytes, and loading it gives them back when the system lets the file be opened and read. When making it failed, its path holds nothing that was
  not there before, or, where it could not be removed again, a part of the key that is not all of it.\<close>

theorem key_generate_outcome:
  assumes "qwe_key_generate so ke path err_size w = (r, w')" and "resolve_key ke path err_size = Inr p"
    and "length (ke_random ke) = QWE_KEY_BYTES"
  shows "(\<forall>q n. kw_nodes w q = Some n \<longrightarrow> kw_nodes w' q = Some n)
    \<and> (r = Inr () \<longrightarrow> kw_nodes w p = None \<and> (\<exists>n. kw_nodes w' p = Some n \<and> private_key_file so ke n (ke_random ke))
         \<and> (\<forall>w2. kw_nodes w2 = kw_nodes w' \<longrightarrow> kw_answers w2 = [] \<longrightarrow> qwe_key_load so ke path err_size w2 = (Inr (ke_random ke), w2)))
    \<and> (r \<noteq> Inr () \<longrightarrow> kw_nodes w p = None \<longrightarrow> (\<forall>n. kw_nodes w' p = Some n \<longrightarrow>
         kn_mode n mod 64 = 0 \<and> (\<exists>m < length (ke_random ke). kn_data n = take m (ke_random ke))))"
proof -
  note g = key_generate_nodes [OF assms(1,2)]
  have pf: "private_key_file so ke (new_key_node ke (ke_random ke)) (ke_random ke)"
    unfolding private_key_file_def using created_mode_private(1) [of ke] assms(3)
    by (auto simp: new_key_node_def key_of_raw_def QWE_KEY_BYTES_def intro!: exI [of _ 32])
  have c: "kn_mode (new_key_node ke b) mod 64 = 0" "kn_data (new_key_node ke b) = b" for b
    using created_mode_private(1) [of ke] by (simp_all add: new_key_node_def)
  show ?thesis
  proof (intro conjI allI impI)
    show "kw_nodes w' q = Some n" if "kw_nodes w q = Some n" for q n using g(1) that by (simp add: keeps_def)
    assume r: "r = Inr ()"
    show "kw_nodes w p = None" "\<exists>n. kw_nodes w' p = Some n \<and> private_key_file so ke n (ke_random ke)"
      using g(2) [OF r] pf by auto
    show "qwe_key_load so ke path err_size w2 = (Inr (ke_random ke), w2)" if "kw_nodes w2 = kw_nodes w'" "kw_answers w2 = []" for w2
      using key_load_new [OF assms(2) _ assms(3) that(2)] g(2) [OF r] that(1) by simp
  next
    fix n assume r: "r \<noteq> Inr ()" "kw_nodes w p = None" "kw_nodes w' p = Some n"
    with g(3) [OF r(1,2)] obtain m where "m < length (ke_random ke)" "n = new_key_node ke (take m (ke_random ke))" by auto
    then show "kn_mode n mod 64 = 0" "\<exists>m < length (ke_random ke). kn_data n = take m (ke_random ke)" using c by auto
  qed
qed

theorem key_generate_outcome_witness:
  "\<exists>w'. qwe_key_generate sodium_ex kenv_ex None 100 (world_ex [] [A_OK, A_OK, A_OK, A_OK, A_EINTR, A_N 5]) = (Inr (), w')
     \<and> (\<exists>n. kw_nodes w' ''/h/.config/qwe/secret'' = Some n \<and> private_key_file sodium_ex kenv_ex n key_ex)"
proof -
  let ?w = "world_ex [] [A_OK, A_OK, A_OK, A_OK, A_EINTR, A_N 5]"
  have "fst (qwe_key_generate sodium_ex kenv_ex None 100 ?w) = Inr ()" by code_simp
  then obtain w' where g: "qwe_key_generate sodium_ex kenv_ex None 100 ?w = (Inr (), w')"
    by (cases "qwe_key_generate sodium_ex kenv_ex None 100 ?w") simp
  have r: "resolve_key kenv_ex None 100 = Inr ''/h/.config/qwe/secret''"
    by (simp add: resolve_key_def qwe_key_default_path_def kenv_ex_def)
  have l: "length (ke_random kenv_ex) = QWE_KEY_BYTES" "ke_random kenv_ex = key_ex"
    by (simp_all add: kenv_ex_def key_ex_def QWE_KEY_BYTES_def)
  from key_generate_outcome [OF g r l(1)] l(2) g show ?thesis by auto
qed

end
