(* ===== verification/Cli.thy ===== *)
theory Cli
  imports Workflow Secrets
begin

text \<open>
  The command line (\<open>src/cli\<close>): the dispatch of a subcommand, the arguments of \<open>run\<close> and
  \<open>validate\<close>, and the whole of \<open>encrypt\<close> and \<open>keygen\<close>. The kernel's entry points are
  arguments of the commands that call them. A command gives its exit code and what it printed: lines on
  the standard output and lines on the standard error.
\<close>

section \<open>Commands\<close>

record shown =
  sh_code :: int
  sh_out :: "cstring list"
  sh_err :: "cstring list"

definition fails :: "int \<Rightarrow> cstring list \<Rightarrow> shown" where
  "fails code msgs = \<lparr>sh_code = code, sh_out = [], sh_err = msgs\<rparr>"

record qwe_run_options =
  ro_debug :: bool
  ro_inventory :: "cstring option"
  ro_jobs :: "cstring list option"
  ro_summary :: "cstring option"

definition run_usage :: shown where
  "run_usage = fails QWE_EXIT_USAGE
     [''usage: qwe run <workflow.yaml> [-i <inventory.yaml>] [--job <id>]... [--debug] [--summary <file>]'']"

text \<open>The loop over the arguments: the file, the options and the jobs so far. \<open>None\<close> is the way to the usage text.\<close>

fun run_loop_args ::
    "cstring list \<Rightarrow> cstring option \<Rightarrow> qwe_run_options \<Rightarrow> cstring list \<Rightarrow> (cstring option \<times> qwe_run_options \<times> cstring list) option" where
  "run_loop_args [] path opts jobs = Some (path, opts, jobs)"
| "run_loop_args (a # as) path opts jobs =
     (if a = ''--debug'' then run_loop_args as path (opts\<lparr>ro_debug := True\<rparr>) jobs
      else if a = ''-i'' then
        (case as of
           [] \<Rightarrow> None
         | v # as' \<Rightarrow> if ro_inventory opts \<noteq> None then None else run_loop_args as' path (opts\<lparr>ro_inventory := Some v\<rparr>) jobs)
      else if a = ''--job'' then
        (case as of [] \<Rightarrow> None | v # as' \<Rightarrow> run_loop_args as' path opts (jobs @ [v]))
      else if a = ''--summary'' then
        (case as of
           [] \<Rightarrow> None
         | v # as' \<Rightarrow> if ro_summary opts \<noteq> None then None else run_loop_args as' path (opts\<lparr>ro_summary := Some v\<rparr>) jobs)
      else if take 1 a = ''-'' \<or> path \<noteq> None then None
      else run_loop_args as (Some a) opts jobs)"

definition opts_zero :: qwe_run_options where
  "opts_zero = \<lparr>ro_debug = False, ro_inventory = None, ro_jobs = None, ro_summary = None\<rparr>"

definition qwe_cmd_run :: "bool \<Rightarrow> (cstring \<Rightarrow> qwe_run_options \<Rightarrow> shown) \<Rightarrow> cstring list \<Rightarrow> shown" where
  "qwe_cmd_run mem run args =
     (if \<not> mem then fails QWE_EXIT_USAGE [''qwe run: out of memory'']
      else case run_loop_args args None opts_zero [] of
             Some (Some path, opts, jobs) \<Rightarrow> run path (opts\<lparr>ro_jobs := if jobs \<noteq> [] then Some jobs else None\<rparr>)
           | _ \<Rightarrow> run_usage)"

definition validate_usage :: shown where
  "validate_usage = fails QWE_EXIT_USAGE [''usage: qwe validate <workflow.yaml> [-i <inventory.yaml>]'']"

fun validate_args :: "cstring list \<Rightarrow> cstring option \<Rightarrow> cstring option \<Rightarrow> (cstring option \<times> cstring option) option" where
  "validate_args [] path inventory = Some (path, inventory)"
| "validate_args (a # as) path inventory =
     (if a = ''-i'' then
        (case as of [] \<Rightarrow> None | v # as' \<Rightarrow> if inventory \<noteq> None then None else validate_args as' path (Some v))
      else if take 1 a = ''-'' \<or> path \<noteq> None then None
      else validate_args as (Some a) inventory)"

definition qwe_cmd_validate :: "(cstring \<Rightarrow> cstring option \<Rightarrow> shown) \<Rightarrow> cstring list \<Rightarrow> shown" where
  "qwe_cmd_validate validate args =
     (case validate_args args None None of
        Some (Some path, inventory) \<Rightarrow> validate path inventory
      | _ \<Rightarrow> validate_usage)"

section \<open>Sealing a value\<close>

definition MAX_PLAIN :: nat where "MAX_PLAIN = 64 * 1024"

text \<open>The standard input: its bytes, and the answers of the system to the reads.\<close>

record input =
  in_data :: "byte list"
  in_answers :: "answer list"

definition sys_read_input :: "nat \<Rightarrow> input \<Rightarrow> byte list option \<times> input" where
  "sys_read_input sz i =
     (let a = (case in_answers i of [] \<Rightarrow> A_OK | a # _ \<Rightarrow> a);
          i1 = i\<lparr>in_answers := drop 1 (in_answers i)\<rparr>;
          m = (case a of A_N m \<Rightarrow> max 1 (min m sz) | _ \<Rightarrow> sz)
      in if answer_errno a \<noteq> None then (None, i1)
         else (Some (take m (in_data i)), i1\<lparr>in_data := drop m (in_data i)\<rparr>))"

lemma sys_read_input_data: "sys_read_input sz i = (Some got, i1) \<Longrightarrow> in_data i = got @ in_data i1"
  by (auto simp: sys_read_input_def Let_def split: if_splits)

text \<open>\<open>Inl\<close> is the negative status.\<close>

function read_stdin_loop :: "byte list \<Rightarrow> input \<Rightarrow> int + byte list" where
  "read_stdin_loop buf i =
     (case sys_read_input (MAX_PLAIN + 1 - length buf) i of
        (None, i1) \<Rightarrow> Inl (- 1)
      | (Some got, i1) \<Rightarrow>
          if got = [] then Inr buf
          else if length (buf @ got) > MAX_PLAIN then Inl (- 2)
          else read_stdin_loop (buf @ got) i1)"
  by pat_completeness auto
termination
  by (relation "measure (\<lambda>(buf, i). length (in_data i))")
    (auto dest!: sys_read_input_data [OF sym])

declare read_stdin_loop.simps [simp del]

definition read_stdin :: "bool \<Rightarrow> input \<Rightarrow> int + byte list" where
  "read_stdin mem i = (if \<not> mem then Inl (- 1) else read_stdin_loop [] i)"

definition strip_newline :: "byte list \<Rightarrow> byte list" where
  "strip_newline b = (if b \<noteq> [] \<and> last b = CHR 0x0A then butlast b else b)"

text \<open>
  \<open>ok\<close> has the allocations of the envelope, \<open>mem\<close> that of the buffer. \<open>reaches\<close> is what the standard output takes
  of a line given to \<open>puts\<close>, at once or when its buffer is flushed: the line, or less when it cannot be written; the
  result of \<open>puts\<close> is not looked at.
\<close>

definition qwe_cmd_encrypt ::
    "sodium \<Rightarrow> kenv \<Rightarrow> (nat \<Rightarrow> bool) \<Rightarrow> bool \<Rightarrow> (cstring \<Rightarrow> cstring list) \<Rightarrow> byte list \<Rightarrow> kworld \<Rightarrow> input \<Rightarrow> cstring list \<Rightarrow> shown" where
  "qwe_cmd_encrypt so ke ok mem reaches nonce w i args =
     (if args \<noteq> [] then
        fails QWE_EXIT_USAGE [''qwe encrypt: takes no arguments: the plaintext is read from stdin, so it never'',
          ''appears in a command line (echo -n \"...\" | qwe encrypt)'']
      else if qwe_secrets_init so < 0 then fails QWE_EXIT_FAILED [''qwe encrypt: cannot initialize libsodium'']
      else case qwe_key_load so ke None 512 w of
             (Inl err, w1) \<Rightarrow> fails QWE_EXIT_USAGE [''qwe encrypt: '' @ err]
           | (Inr k32, w1) \<Rightarrow>
               (case read_stdin mem i of
                  Inl rc \<Rightarrow> fails QWE_EXIT_USAGE [if rc = - 2 then ''qwe encrypt: the secret is longer than '' @ nat_dec MAX_PLAIN @ '' bytes''
                                                 else ''qwe encrypt: cannot read stdin'']
                | Inr plain \<Rightarrow>
                    (case qwe_envelope_seal so ok nonce k32 (strip_newline plain) of
                       None \<Rightarrow> fails QWE_EXIT_FAILED [''qwe encrypt: encryption failed'']
                     | Some envelope \<Rightarrow> \<lparr>sh_code = QWE_EXIT_OK, sh_out = reaches envelope, sh_err = []\<rparr>)))"

definition qwe_cmd_keygen :: "sodium \<Rightarrow> kenv \<Rightarrow> kworld \<Rightarrow> cstring list \<Rightarrow> shown \<times> kworld" where
  "qwe_cmd_keygen so ke w args =
     (if args \<noteq> [] then (fails QWE_EXIT_USAGE [''usage: qwe keygen''], w)
      else case qwe_key_default_path ke 1024 of
             None \<Rightarrow>
               (fails QWE_EXIT_USAGE [if ke_home ke \<noteq> None \<and> ke_home ke \<noteq> Some []
                  then ''qwe keygen: HOME is too long for ~/.config/qwe/secret''
                  else ''qwe keygen: HOME is not set, so there is nowhere to put ~/.config/qwe/secret''], w)
           | Some path \<Rightarrow>
               (case qwe_key_generate so ke (Some path) 512 w of
                  (Inl err, w1) \<Rightarrow> (fails QWE_EXIT_USAGE [''qwe keygen: '' @ err], w1)
                | (Inr _, w1) \<Rightarrow>
                    (\<lparr>sh_code = QWE_EXIT_OK, sh_out = [], sh_err = [''qwe keygen: wrote a new key to '' @ path @ '' (mode 0600)'']\<rparr>, w1)))"

section \<open>Dispatch\<close>

definition qwe_version_string :: cstring where
  "qwe_version_string = ''qwe 0.3.1''"

definition qwe_not_implemented :: "cstring \<Rightarrow> shown" where
  "qwe_not_implemented cmd = fails QWE_EXIT_USAGE [''qwe '' @ cmd @ '': not implemented'']"

definition qwe_cmd_serve :: "cstring list \<Rightarrow> shown" where
  "qwe_cmd_serve args = qwe_not_implemented ''serve''"

definition dispatch_usage :: "cstring list" where
  "dispatch_usage =
     [''usage: qwe run <workflow.yaml> [-i <inventory.yaml>] [--job <id>]...'',
      ''       qwe validate <workflow.yaml> [-i <inventory.yaml>]'',
      ''       qwe encrypt'',
      ''       qwe keygen'',
      ''       qwe serve'',
      ''       qwe --version'']"

text \<open>The table of the subcommands, with what each runs given its arguments.\<close>

fun qwe_find_subcommand :: "(cstring \<times> 'f) list \<Rightarrow> cstring \<Rightarrow> 'f option" where
  "qwe_find_subcommand [] name = None"
| "qwe_find_subcommand ((n, f) # cmds) name = (if n = name then Some f else qwe_find_subcommand cmds name)"

definition subcommands ::
    "(cstring list \<Rightarrow> 'r) \<Rightarrow> (cstring list \<Rightarrow> 'r) \<Rightarrow> (cstring list \<Rightarrow> 'r) \<Rightarrow> (cstring list \<Rightarrow> 'r) \<Rightarrow> (cstring list \<Rightarrow> 'r)
     \<Rightarrow> (cstring \<times> (cstring list \<Rightarrow> 'r)) list" where
  "subcommands run validate encrypt keygen serve =
     [(''run'', run), (''validate'', validate), (''encrypt'', encrypt), (''keygen'', keygen), (''serve'', serve)]"

text \<open>\<open>argv\<close> with the name of the program.\<close>

definition qwe_dispatch :: "(cstring \<times> (cstring list \<Rightarrow> shown)) list \<Rightarrow> cstring list \<Rightarrow> shown" where
  "qwe_dispatch cmds argv =
     (case drop 1 argv of
        [] \<Rightarrow> fails QWE_EXIT_USAGE dispatch_usage
      | a # args \<Rightarrow>
          if a = ''--version'' then \<lparr>sh_code = QWE_EXIT_OK, sh_out = [qwe_version_string], sh_err = []\<rparr>
          else case qwe_find_subcommand cmds a of
                 None \<Rightarrow> fails QWE_EXIT_USAGE ((''qwe: unknown subcommand '' @ [CHR 0x27] @ a @ [CHR 0x27]) # dispatch_usage)
               | Some f \<Rightarrow> f args)"

section \<open>The grammar of the arguments\<close>

text \<open>A command line is a sequence of items, in any order.\<close>

datatype run_item = I_DEBUG | I_INVENTORY cstring | I_JOB cstring | I_SUMMARY cstring | I_FILE cstring

fun item_words :: "run_item \<Rightarrow> cstring list" where
  "item_words I_DEBUG = [''--debug'']"
| "item_words (I_INVENTORY v) = [''-i'', v]"
| "item_words (I_JOB v) = [''--job'', v]"
| "item_words (I_SUMMARY v) = [''--summary'', v]"
| "item_words (I_FILE v) = [v]"

fun item_files :: "run_item list \<Rightarrow> cstring list" where
  "item_files [] = []"
| "item_files (I_FILE v # is) = v # item_files is"
| "item_files (_ # is) = item_files is"

fun item_inventories :: "run_item list \<Rightarrow> cstring list" where
  "item_inventories [] = []"
| "item_inventories (I_INVENTORY v # is) = v # item_inventories is"
| "item_inventories (_ # is) = item_inventories is"

fun item_jobs :: "run_item list \<Rightarrow> cstring list" where
  "item_jobs [] = []"
| "item_jobs (I_JOB v # is) = v # item_jobs is"
| "item_jobs (_ # is) = item_jobs is"

fun item_summaries :: "run_item list \<Rightarrow> cstring list" where
  "item_summaries [] = []"
| "item_summaries (I_SUMMARY v # is) = v # item_summaries is"
| "item_summaries (_ # is) = item_summaries is"

definition opt_list :: "'a option \<Rightarrow> 'a list" where
  "opt_list x = (case x of None \<Rightarrow> [] | Some v \<Rightarrow> [v])"

lemma opt_list_simps [simp]: "opt_list None = []" "opt_list (Some v) = [v]"
  by (simp_all add: opt_list_def)

text \<open>What the items add to the file, the options and the jobs found before them.\<close>

definition items_give ::
    "run_item list \<Rightarrow> cstring option \<times> qwe_run_options \<times> cstring list \<Rightarrow> cstring option \<times> qwe_run_options \<times> cstring list \<Rightarrow> bool" where
  "items_give is s s' \<longleftrightarrow>
     (case s of (path, opts, jobs) \<Rightarrow> case s' of (path', opts', jobs') \<Rightarrow>
        list_all (\<lambda>v. take 1 v \<noteq> ''-'') (item_files is) \<and>
        opt_list path' = opt_list path @ item_files is \<and>
        opt_list (ro_inventory opts') = opt_list (ro_inventory opts) @ item_inventories is \<and>
        opt_list (ro_summary opts') = opt_list (ro_summary opts) @ item_summaries is \<and>
        (ro_debug opts' \<longleftrightarrow> ro_debug opts \<or> I_DEBUG \<in> set is) \<and> ro_jobs opts' = ro_jobs opts \<and>
        jobs' = jobs @ item_jobs is)"

lemma opt_list_snoc: "opt_list y = opt_list x @ v # vs \<longleftrightarrow> x = None \<and> y = Some v \<and> vs = []"
  by (cases x; cases y) auto

lemma opt_list_same: "opt_list y = opt_list x \<longleftrightarrow> y = x"
  by (cases x; cases y) auto

lemma run_loop_args_sound:
  "run_loop_args args path opts jobs = Some s' \<Longrightarrow>
   \<exists>is. args = concat (map item_words is) \<and> items_give is (path, opts, jobs) s'"
proof (induction args path opts jobs rule: run_loop_args.induct)
  case (1 path opts jobs)
  then show ?case by (intro exI [of _ "[]"]) (auto simp: items_give_def)
next
  case (2 a as path opts jobs)
  consider "a = ''--debug''" | "a = ''-i''" | "a = ''--job''" | "a = ''--summary''"
    | "a \<noteq> ''--debug''" "a \<noteq> ''-i''" "a \<noteq> ''--job''" "a \<noteq> ''--summary''" by blast
  then show ?case
  proof cases
    case 1
    with "2.IH"(1) "2.prems" obtain "is" where "as = concat (map item_words is)" "items_give is (path, opts\<lparr>ro_debug := True\<rparr>, jobs) s'" by auto
    then show ?thesis using 1 by (intro exI [of _ "I_DEBUG # is"]) (auto simp: items_give_def)
  next
    case 2
    then obtain v as' where v: "as = v # as'" "ro_inventory opts = None" "run_loop_args as' path (opts\<lparr>ro_inventory := Some v\<rparr>) jobs = Some s'"
      using "2.prems" by (auto split: list.splits if_splits)
    with "2.IH"(2) 2 obtain "is" where "as' = concat (map item_words is)" "items_give is (path, opts\<lparr>ro_inventory := Some v\<rparr>, jobs) s'" by auto
    then show ?thesis using 2 v by (intro exI [of _ "I_INVENTORY v # is"]) (auto simp: items_give_def)
  next
    case 3
    then obtain v as' where v: "as = v # as'" "run_loop_args as' path opts (jobs @ [v]) = Some s'"
      using "2.prems" by (auto split: list.splits if_splits)
    with "2.IH"(3) 3 obtain "is" where "as' = concat (map item_words is)" "items_give is (path, opts, jobs @ [v]) s'" by auto
    then show ?thesis using 3 v by (intro exI [of _ "I_JOB v # is"]) (auto simp: items_give_def)
  next
    case 4
    then obtain v as' where v: "as = v # as'" "ro_summary opts = None" "run_loop_args as' path (opts\<lparr>ro_summary := Some v\<rparr>) jobs = Some s'"
      using "2.prems" by (auto split: list.splits if_splits)
    with "2.IH"(4) 4 obtain "is" where "as' = concat (map item_words is)" "items_give is (path, opts\<lparr>ro_summary := Some v\<rparr>, jobs) s'" by auto
    then show ?thesis using 4 v by (intro exI [of _ "I_SUMMARY v # is"]) (auto simp: items_give_def)
  next
    case 5
    then have v: "take 1 a \<noteq> ''-''" "path = None" "run_loop_args as (Some a) opts jobs = Some s'"
      using "2.prems" by (auto split: if_splits)
    with "2.IH"(5) 5 obtain "is" where "as = concat (map item_words is)" "items_give is (Some a, opts, jobs) s'" by auto
    then show ?thesis using v by (intro exI [of _ "I_FILE a # is"]) (auto simp: items_give_def)
  qed
qed

lemma run_loop_args_complete:
  "items_give is (path, opts, jobs) s' \<Longrightarrow> run_loop_args (concat (map item_words is)) path opts jobs = Some s'"
proof (induction "is" arbitrary: path opts jobs)
  case Nil
  obtain path' opts' jobs' where s: "s' = (path', opts', jobs')" by (cases s')
  with Nil have "path' = path" "jobs' = jobs" "ro_inventory opts' = ro_inventory opts" "ro_summary opts' = ro_summary opts"
    "ro_debug opts' = ro_debug opts" "ro_jobs opts' = ro_jobs opts"
    by (auto simp: items_give_def opt_list_same)
  with s show ?case by (simp add: qwe_run_options.equality)
next
  case (Cons x "is")
  obtain path' opts' jobs' where s: "s' = (path', opts', jobs')" by (cases s')
  show ?case
  proof (cases x)
    case (I_FILE v)
    with Cons.prems s have "path = None" "take 1 v \<noteq> ''-''" "items_give is (Some v, opts, jobs) s'"
      by (auto simp: items_give_def opt_list_snoc)
    moreover from this have "v \<noteq> ''--debug''" "v \<noteq> ''-i''" "v \<noteq> ''--job''" "v \<noteq> ''--summary''" by auto
    ultimately show ?thesis using Cons.IH I_FILE by simp
  next
    case (I_INVENTORY v)
    with Cons.prems s have "ro_inventory opts = None" "items_give is (path, opts\<lparr>ro_inventory := Some v\<rparr>, jobs) s'"
      by (auto simp: items_give_def opt_list_snoc)
    with Cons.IH I_INVENTORY show ?thesis by simp
  next
    case (I_SUMMARY v)
    with Cons.prems s have "ro_summary opts = None" "items_give is (path, opts\<lparr>ro_summary := Some v\<rparr>, jobs) s'"
      by (auto simp: items_give_def opt_list_snoc)
    with Cons.IH I_SUMMARY show ?thesis by simp
  qed (use Cons.prems Cons.IH s in \<open>auto simp: items_give_def\<close>)
qed

definition line_ok :: "run_item list \<Rightarrow> cstring \<Rightarrow> bool" where
  "line_ok is path \<longleftrightarrow> item_files is = [path] \<and> take 1 path \<noteq> ''-''
     \<and> length (item_inventories is) \<le> 1 \<and> length (item_summaries is) \<le> 1"

definition list_opt :: "'a list \<Rightarrow> 'a option" where
  "list_opt xs = (case xs of [] \<Rightarrow> None | v # _ \<Rightarrow> Some v)"

definition line_options :: "run_item list \<Rightarrow> qwe_run_options" where
  "line_options is = \<lparr>ro_debug = (I_DEBUG \<in> set is), ro_inventory = list_opt (item_inventories is),
     ro_jobs = (if item_jobs is \<noteq> [] then Some (item_jobs is) else None), ro_summary = list_opt (item_summaries is)\<rparr>"

lemma opt_list_list_opt: "length xs \<le> 1 \<Longrightarrow> opt_list (list_opt xs) = xs"
  by (cases xs) (auto simp: list_opt_def)

lemma list_opt_opt_list: "list_opt (opt_list x) = x"
  by (cases x) (auto simp: list_opt_def)

lemma line_gives:
  assumes "line_ok is path"
  shows "items_give is (None, opts_zero, []) (Some path, (line_options is)\<lparr>ro_jobs := None\<rparr>, item_jobs is)"
  using assms by (simp add: line_ok_def items_give_def line_options_def opts_zero_def opt_list_list_opt)

lemma gives_line:
  assumes "items_give is (None, opts_zero, []) (Some path, opts, jobs)"
  shows "line_ok is path" "opts = (line_options is)\<lparr>ro_jobs := None\<rparr>" "jobs = item_jobs is"
proof -
  from assms have e: "[path] = item_files is" "opt_list (ro_inventory opts) = item_inventories is"
      "opt_list (ro_summary opts) = item_summaries is" "ro_debug opts \<longleftrightarrow> I_DEBUG \<in> set is" "ro_jobs opts = None"
      "list_all (\<lambda>v. take 1 v \<noteq> ''-'') (item_files is)" and j: "jobs = item_jobs is"
    by (auto simp: items_give_def opts_zero_def)
  have "length (opt_list x) \<le> 1" for x :: "cstring option" by (cases x) auto
  then have "length (item_inventories is) \<le> 1" "length (item_summaries is) \<le> 1" using e(2,3) by metis+
  then show "line_ok is path" using e(6) by (simp add: line_ok_def e(1) [symmetric])
  show "opts = (line_options is)\<lparr>ro_jobs := None\<rparr>"
    using e(4,5) by (simp add: line_options_def e(2,3) [symmetric] list_opt_opt_list)
  show "jobs = item_jobs is" by (rule j)
qed

section \<open>Reading and sealing\<close>

lemma read_stdin_loop_all:
  "length buf \<le> MAX_PLAIN \<Longrightarrow> read_stdin_loop buf i = Inr b \<Longrightarrow> b = buf @ in_data i \<and> length b \<le> MAX_PLAIN"
proof (induction buf i rule: read_stdin_loop.induct)
  case (1 buf i)
  obtain g i1 where g: "sys_read_input (MAX_PLAIN + 1 - length buf) i = (g, i1)" by (cases "sys_read_input (MAX_PLAIN + 1 - length buf) i")
  note u = "1.prems"(2) [unfolded read_stdin_loop.simps [of buf i] g prod.case]
  from u obtain got where got: "g = Some got" by (cases g) auto
  have d: "in_data i = got @ in_data i1" by (rule sys_read_input_data) (use g got in simp)
  show ?case
  proof (cases "got = []")
    case True
    have "in_data i = []" using g got True "1.prems"(1) by (auto simp: sys_read_input_def Let_def split: if_splits answer.splits list.splits)
    with u got True "1.prems"(1) show ?thesis by simp
  next
    case False
    have s: "\<not> length (buf @ got) > MAX_PLAIN" using u got False by (auto split: if_splits)
    with u got False have "read_stdin_loop (buf @ got) i1 = Inr b" by simp
    from "1.IH" [OF g [symmetric] got False s _ this] s d show ?thesis by auto
  qed
qed

lemma read_stdin_loop_short:
  "length buf + length (in_data i) \<le> MAX_PLAIN \<Longrightarrow> list_all (\<lambda>a. answer_errno a = None) (in_answers i) \<Longrightarrow>
   read_stdin_loop buf i = Inr (buf @ in_data i)"
proof (induction buf i rule: read_stdin_loop.induct)
  case (1 buf i)
  have "list_all (\<lambda>a. answer_errno a = None) (drop 1 (in_answers i))" using "1.prems"(2) by (cases "in_answers i") auto
  then obtain got i1 where g: "sys_read_input (MAX_PLAIN + 1 - length buf) i = (Some got, i1)"
      "list_all (\<lambda>a. answer_errno a = None) (in_answers i1)"
    using "1.prems"(2) by (cases "in_answers i") (auto simp: sys_read_input_def Let_def answer_errno_def)
  have d: "in_data i = got @ in_data i1" by (rule sys_read_input_data [OF g(1)])
  show ?case
  proof (cases "got = []")
    case True
    have "in_data i = []" using g(1) True "1.prems"(1) by (auto simp: sys_read_input_def Let_def split: if_splits answer.splits list.splits)
    with g(1) True show ?thesis by (simp add: read_stdin_loop.simps [of buf i])
  next
    case False
    have s: "\<not> length (buf @ got) > MAX_PLAIN" using "1.prems"(1) d by simp
    have "read_stdin_loop (buf @ got) i1 = Inr ((buf @ got) @ in_data i1)"
      using "1.IH" [OF g(1) [symmetric] refl False s] "1.prems"(1) g(2) d by simp
    with g(1) False s d show ?thesis by (simp add: read_stdin_loop.simps [of buf i])
  qed
qed

section \<open>Properties\<close>

text \<open>C33. The command line of \<open>qwe run\<close>. The arguments may come in any order; when they are one file, at
  most one inventory and one summary, and any number of jobs and \<open>--debug\<close>, the run gets exactly these,
  the jobs in their order; with anything else, a missing value or an unknown option, the usage is
  printed and nothing is run.\<close>

theorem run_command_line:
  "(\<forall>is path. args = concat (map item_words is) \<and> line_ok is path \<longrightarrow> qwe_cmd_run True run args = run path (line_options is))
   \<and> ((\<nexists>is path. args = concat (map item_words is) \<and> line_ok is path) \<longrightarrow> qwe_cmd_run True run args = run_usage)"
proof (intro conjI allI impI)
  fix "is" path assume a: "args = concat (map item_words is) \<and> line_ok is path"
  have "run_loop_args args None opts_zero [] = Some (Some path, (line_options is)\<lparr>ro_jobs := None\<rparr>, item_jobs is)"
    using run_loop_args_complete [OF line_gives] a by blast
  then show "qwe_cmd_run True run args = run path (line_options is)" by (simp add: qwe_cmd_run_def line_options_def)
next
  assume n: "\<nexists>is path. args = concat (map item_words is) \<and> line_ok is path"
  have "run_loop_args args None opts_zero [] \<noteq> Some (Some path, opts, jobs)" for path opts jobs
    using run_loop_args_sound [of args None opts_zero "[]" "(Some path, opts, jobs)"] gives_line(1) n by blast
  then show "qwe_cmd_run True run args = run_usage" by (auto simp: qwe_cmd_run_def split: option.splits)
qed

definition echo_run :: "cstring \<Rightarrow> qwe_run_options \<Rightarrow> shown" where
  "echo_run path opts = \<lparr>sh_code = (if ro_debug opts then 1 else 0), sh_out = path # concat (opt_list (ro_jobs opts)), sh_err = []\<rparr>"

theorem run_command_line_witness:
  "qwe_cmd_run True echo_run [''--job'', ''b'', ''w.yaml'', ''--debug'', ''--job'', ''a''] =
     \<lparr>sh_code = 1, sh_out = [''w.yaml'', ''b'', ''a''], sh_err = []\<rparr>"
proof -
  let ?is = "[I_JOB ''b'', I_FILE ''w.yaml'', I_DEBUG, I_JOB ''a'']"
  have a: "concat (map item_words ?is) = [''--job'', ''b'', ''w.yaml'', ''--debug'', ''--job'', ''a'']" "line_ok ?is ''w.yaml''"
    by (simp_all add: line_ok_def)
  have "qwe_cmd_run True echo_run (concat (map item_words ?is)) = echo_run ''w.yaml'' (line_options ?is)"
    using a(2) by (intro run_command_line [THEN conjunct1, rule_format]) blast
  then show ?thesis by (simp add: echo_run_def line_options_def list_opt_def)
qed

text \<open>C34. \<open>qwe encrypt\<close>. The code 0 means that the whole of the standard input was read, at most 64 KiB,
  however it arrived, and sealed: the one line given to the standard output is an envelope which opens, under a
  key of 32 bytes from the private key file, to the input less one newline at its end, and what the reader
  gets is what the standard output takes of that line, the line itself if it can be written. The code does not
  depend on that: it is the same whether or not the line could be written. With any other code nothing is printed
  to the standard output. With a key, memory and no read error, an input that is not too long does end with 0.\<close>

theorem encrypt_seals_stdin:
  assumes "sodium_laws so" and "length nonce = NPUB" and "r = qwe_cmd_encrypt so ke ok mem reaches nonce w i args"
  shows "(sh_code r = QWE_EXIT_OK \<longrightarrow> length (in_data i) \<le> MAX_PLAIN \<and>
      (\<exists>t k32 path n. sh_out r = reaches t \<and> qwe_key_default_path ke 1024 = Some path
        \<and> kw_nodes w path = Some n \<and> private_key_file so ke n k32
        \<and> qwe_envelope_open so (\<lambda>_. True) k32 t = Inr (strip_newline (in_data i))))
    \<and> (\<forall>lost. sh_code (qwe_cmd_encrypt so ke ok mem lost nonce w i args) = sh_code r)
    \<and> (sh_code r \<noteq> QWE_EXIT_OK \<longrightarrow> sh_out r = [])
    \<and> (args = [] \<and> mem \<and> ok 0 \<and> ok 1 \<and> 0 \<le> so_init so \<and> (\<exists>k32 w1. qwe_key_load so ke None 512 w = (Inr k32, w1))
         \<and> list_all (\<lambda>a. answer_errno a = None) (in_answers i) \<and> length (in_data i) \<le> MAX_PLAIN \<longrightarrow> sh_code r = QWE_EXIT_OK)"
proof (intro conjI)
  let ?r = "qwe_cmd_encrypt so ke ok mem reaches nonce w i args"
  have codes: "QWE_EXIT_USAGE \<noteq> QWE_EXIT_OK" "QWE_EXIT_FAILED \<noteq> QWE_EXIT_OK"
    by (simp_all add: QWE_EXIT_USAGE_def QWE_EXIT_FAILED_def QWE_EXIT_OK_def)
  show "sh_code r = QWE_EXIT_OK \<longrightarrow> length (in_data i) \<le> MAX_PLAIN \<and>
      (\<exists>t k32 path n. sh_out r = reaches t \<and> qwe_key_default_path ke 1024 = Some path
        \<and> kw_nodes w path = Some n \<and> private_key_file so ke n k32
        \<and> qwe_envelope_open so (\<lambda>_. True) k32 t = Inr (strip_newline (in_data i)))"
  proof
    assume "sh_code r = QWE_EXIT_OK"
    then have r: "sh_code ?r = QWE_EXIT_OK" by (simp add: assms(3))
    from r codes obtain k32 w1 where k: "qwe_key_load so ke None 512 w = (Inr k32, w1)" and z: "\<not> qwe_secrets_init so < 0"
      by (auto simp: qwe_cmd_encrypt_def fails_def split: if_splits prod.splits sum.splits)
    from r codes k z obtain b where b: "read_stdin mem i = Inr b"
      by (auto simp: qwe_cmd_encrypt_def fails_def split: if_splits sum.splits)
    from r codes k z b obtain t where t: "qwe_envelope_seal so ok nonce k32 (strip_newline b) = Some t" "sh_out ?r = reaches t"
      by (auto simp: qwe_cmd_encrypt_def fails_def split: if_splits option.splits)
    have d: "b = in_data i" "length b \<le> MAX_PLAIN" using b read_stdin_loop_all [of "[]" i b] by (auto simp: read_stdin_def split: if_splits)
    obtain path n where f: "resolve_key ke None 512 = Inr path" "kw_nodes w path = Some n" "private_key_file so ke n k32"
      and l: "length k32 = QWE_KEY_BYTES" using key_load_file [OF k] by blast
    let ?blob = "nonce @ so_seal so k32 nonce envelope_ad (strip_newline b)"
    have "t = PREFIX @ so_b64 so ?blob" using t(1) by (auto simp: qwe_envelope_seal_def split: if_splits)
    moreover have "decode so (\<lambda>_. True) (PREFIX @ so_b64 so ?blob) = Inr ?blob"
      using assms sodium_lawsD(1) [OF assms(1) l assms(2)] by (intro decode_encoded) simp_all
    ultimately have "qwe_envelope_open so (\<lambda>_. True) k32 t = Inr (strip_newline b)"
      using z sodium_lawsD(2) [OF assms(1) l assms(2)] assms(2) by (simp add: qwe_envelope_open_def)
    moreover have "qwe_key_default_path ke 1024 = Some path" using f(1) by (auto simp: resolve_key_def split: option.splits)
    ultimately show "length (in_data i) \<le> MAX_PLAIN \<and> (\<exists>t k32 path n. sh_out r = reaches t \<and> qwe_key_default_path ke 1024 = Some path
        \<and> kw_nodes w path = Some n \<and> private_key_file so ke n k32
        \<and> qwe_envelope_open so (\<lambda>_. True) k32 t = Inr (strip_newline (in_data i)))"
      using t(2) d f(2,3) assms(3) by blast
  qed
  show "\<forall>lost. sh_code (qwe_cmd_encrypt so ke ok mem lost nonce w i args) = sh_code r"
    unfolding assms(3) by (auto simp: qwe_cmd_encrypt_def split: prod.splits sum.splits option.splits)
  show "sh_code r \<noteq> QWE_EXIT_OK \<longrightarrow> sh_out r = []"
    unfolding assms(3) by (auto simp: qwe_cmd_encrypt_def fails_def split: prod.splits sum.splits option.splits)
  show "args = [] \<and> mem \<and> ok 0 \<and> ok 1 \<and> 0 \<le> so_init so \<and> (\<exists>k32 w1. qwe_key_load so ke None 512 w = (Inr k32, w1))
      \<and> list_all (\<lambda>a. answer_errno a = None) (in_answers i) \<and> length (in_data i) \<le> MAX_PLAIN \<longrightarrow> sh_code r = QWE_EXIT_OK"
    unfolding assms(3) using read_stdin_loop_short [of "[]" i]
    by (auto simp: qwe_cmd_encrypt_def read_stdin_def qwe_secrets_init_def qwe_envelope_seal_def)
qed

text \<open>The same input with the standard output open, and with one that takes nothing.\<close>

theorem encrypt_seals_stdin_witness:
  "(\<exists>t k32. sh_out (qwe_cmd_encrypt sodium_ex kenv_ex (\<lambda>_. True) True (\<lambda>t. [t]) (replicate 24 CHR ''n'')
       (world_ex [(''/h/.config/qwe/secret'', new_key_node kenv_ex key_ex)] []) \<lparr>in_data = ''hunter2'' @ [CHR 0x0A], in_answers = [A_N 3]\<rparr> []) = [t]
     \<and> qwe_envelope_open sodium_ex (\<lambda>_. True) k32 t = Inr ''hunter2'')
   \<and> sh_code (qwe_cmd_encrypt sodium_ex kenv_ex (\<lambda>_. True) True (\<lambda>_. []) (replicate 24 CHR ''n'')
       (world_ex [(''/h/.config/qwe/secret'', new_key_node kenv_ex key_ex)] []) \<lparr>in_data = ''hunter2'' @ [CHR 0x0A], in_answers = [A_N 3]\<rparr> []) = QWE_EXIT_OK"
proof -
  let ?w = "world_ex [(''/h/.config/qwe/secret'', new_key_node kenv_ex key_ex)] []"
  let ?i = "\<lparr>in_data = ''hunter2'' @ [CHR 0x0A], in_answers = [A_N 3]\<rparr>"
  have n: "length (replicate 24 CHR ''n'') = NPUB" by (simp add: NPUB_def)
  have l: "resolve_key kenv_ex None 512 = Inr ''/h/.config/qwe/secret''" "kw_nodes ?w ''/h/.config/qwe/secret'' = Some (new_key_node kenv_ex key_ex)"
      "length key_ex = QWE_KEY_BYTES" "kw_answers ?w = []"
    by (simp_all add: resolve_key_def qwe_key_default_path_def kenv_ex_def world_ex_def key_ex_def QWE_KEY_BYTES_def)
  have k: "qwe_key_load sodium_ex kenv_ex None 512 ?w = (Inr key_ex, ?w)" by (rule key_load_new [OF l])
  have "list_all (\<lambda>a. answer_errno a = None) (in_answers ?i)" "length (in_data ?i) \<le> MAX_PLAIN" "0 \<le> so_init sodium_ex"
    "strip_newline (in_data ?i) = ''hunter2''"
    by (simp_all add: answer_errno_def MAX_PLAIN_def sodium_ex_def strip_newline_def)
  with k encrypt_seals_stdin [OF sodium_ex_laws n refl, where ke = kenv_ex and ok = "\<lambda>_. True" and mem = True and reaches = "\<lambda>t. [t]" and w = ?w and i = ?i and args = "[]"]
  show ?thesis by fastforce
qed

end
