(* ===== verification/Exec.thy ===== *)
theory Exec
  imports Codecs Doubles "HOL-Library.Multiset"
begin

text \<open>
  Commands that Lua runs (\<open>src/kernel/luaexec.c\<close>): \<open>exec.run\<close> with its pipes, its poll loop and its
  timeout, \<open>exec.wait\<close> and \<open>exec.preamble\<close>. The system's answers are a parameter: what \<open>pipe2\<close> and
  \<open>fork\<close> return, the rounds of the poll loop, the answers of \<open>waitpid\<close>. What the code does to
  descriptors, signals and the child is logged. The C strings of the arguments are freed on every path; that is left out.
\<close>

section \<open>Buffers and pipes\<close>

text \<open>A buffer that was never grown has no data: its capacity is zero.\<close>

record xbuf =
  xb_data :: "byte list"
  xb_cap :: nat

definition xbuf_empty :: xbuf where
  "xbuf_empty = \<lparr>xb_data = [], xb_cap = 0\<rparr>"

definition xbuf_add :: "(nat \<Rightarrow> bool) \<Rightarrow> xbuf \<Rightarrow> byte list \<Rightarrow> nat \<Rightarrow> bool \<times> xbuf \<times> nat" where
  "xbuf_add ok b src k =
     (if xb_cap b = 0 \<or> length src > xb_cap b - length (xb_data b)
      then let cap = grow_cap (if xb_cap b \<noteq> 0 then xb_cap b else 4096) (length (xb_data b) + length src)
           in if \<not> ok k then (False, b, Suc k)
              else (True, \<lparr>xb_data = xb_data b @ src, xb_cap = cap\<rparr>, Suc k)
      else (True, b\<lparr>xb_data := xb_data b @ src\<rparr>, k))"

datatype xend = IN_R | IN_W | OUT_R | OUT_W | ERR_R | ERR_W

datatype xev = X_OPEN xend | X_CLOSE xend | X_SIGPIPE_OFF | X_SIGPIPE_BACK | X_FORK | X_KILL | X_REAP

text \<open>\<open>pipe_errno i\<close> is the error of the \<open>i\<close>th \<open>pipe2\<close>, if it fails.\<close>

definition open_pipes :: "(nat \<Rightarrow> nat option) \<Rightarrow> nat option \<times> xev list" where
  "open_pipes pipe_errno =
     (case pipe_errno 0 of
        Some e \<Rightarrow> (Some e, [])
      | None \<Rightarrow>
          (case pipe_errno 1 of
             Some e \<Rightarrow> (Some e, [X_OPEN IN_R, X_OPEN IN_W, X_CLOSE IN_R, X_CLOSE IN_W])
           | None \<Rightarrow>
               (case pipe_errno 2 of
                  Some e \<Rightarrow> (Some e, [X_OPEN IN_R, X_OPEN IN_W, X_OPEN OUT_R, X_OPEN OUT_W,
                                     X_CLOSE OUT_R, X_CLOSE OUT_W, X_CLOSE IN_R, X_CLOSE IN_W])
                | None \<Rightarrow> (None, [X_OPEN IN_R, X_OPEN IN_W, X_OPEN OUT_R, X_OPEN OUT_W, X_OPEN ERR_R, X_OPEN ERR_W]))))"

definition close_pipes :: "xev list" where
  "close_pipes = [X_CLOSE IN_R, X_CLOSE IN_W, X_CLOSE OUT_R, X_CLOSE OUT_W, X_CLOSE ERR_R, X_CLOSE ERR_W]"

section \<open>The poll loop\<close>

datatype xwrite = XW_N nat | XW_AGAIN | XW_ERR
datatype xread = XR_DATA "byte list" | XR_EOF | XR_AGAIN | XR_ERR

text \<open>What \<open>poll\<close> reports: an error, or for each of the three ends what its call returns, if it is ready.\<close>

datatype xpoll = XP_EINTR | XP_FAIL | XP_READY "xwrite option" "xread option" "xread option"

text \<open>A round: the milliseconds since the start, and the answer of \<open>poll\<close> to its timeout argument.\<close>

record round =
  rd_ms :: int
  rd_poll :: "int \<Rightarrow> xpoll"

record xst =
  xs_in :: bool
  xs_out :: bool
  xs_err :: bool
  xs_in_off :: nat
  xs_outb :: xbuf
  xs_errb :: xbuf
  xs_failed :: bool
  xs_k :: nat
  xs_log :: "xev list"

definition end_close :: "xend \<Rightarrow> bool \<Rightarrow> xev list" where
  "end_close e is_open = (if is_open then [X_CLOSE e] else [])"

definition handle_write :: "nat \<Rightarrow> xwrite option \<Rightarrow> xst \<Rightarrow> xst" where
  "handle_write in_len r s =
     (case r of
        None \<Rightarrow> s
      | Some a \<Rightarrow>
          if \<not> xs_in s then s
          else let off = (case a of XW_N n \<Rightarrow> xs_in_off s + min n (in_len - xs_in_off s) | _ \<Rightarrow> xs_in_off s)
               in if a = XW_ERR \<or> off = in_len
                  then s\<lparr>xs_in_off := off, xs_in := False, xs_log := xs_log s @ [X_CLOSE IN_W]\<rparr>
                  else s\<lparr>xs_in_off := off\<rparr>)"

text \<open>A read of one of the other two ends: whether it is still open, its buffer, whether memory ran out.\<close>

definition handle_read :: "(nat \<Rightarrow> bool) \<Rightarrow> xread option \<Rightarrow> bool \<Rightarrow> xbuf \<Rightarrow> nat \<Rightarrow> bool \<times> xbuf \<times> bool \<times> nat" where
  "handle_read ok r is_open b k =
     (case r of
        None \<Rightarrow> (is_open, b, False, k)
      | Some a \<Rightarrow>
          if \<not> is_open then (is_open, b, False, k)
          else (case a of
                  XR_DATA d \<Rightarrow> (case xbuf_add ok b d k of (rc, b', k') \<Rightarrow> (True, b', \<not> rc, k'))
                | XR_AGAIN \<Rightarrow> (True, b, False, k)
                | _ \<Rightarrow> (False, b, False, k)))"

definition handle_out :: "(nat \<Rightarrow> bool) \<Rightarrow> xread option \<Rightarrow> xst \<Rightarrow> xst" where
  "handle_out ok r s =
     (case handle_read ok r (xs_out s) (xs_outb s) (xs_k s) of
        (still, b, nomem, k) \<Rightarrow>
          s\<lparr>xs_out := still, xs_outb := b, xs_failed := xs_failed s \<or> nomem, xs_k := k,
            xs_log := xs_log s @ end_close OUT_R (xs_out s \<and> \<not> still)\<rparr>)"

definition handle_err :: "(nat \<Rightarrow> bool) \<Rightarrow> xread option \<Rightarrow> xst \<Rightarrow> xst" where
  "handle_err ok r s =
     (case handle_read ok r (xs_err s) (xs_errb s) (xs_k s) of
        (still, b, nomem, k) \<Rightarrow>
          s\<lparr>xs_err := still, xs_errb := b, xs_failed := xs_failed s \<or> nomem, xs_k := k,
            xs_log := xs_log s @ end_close ERR_R (xs_err s \<and> \<not> still)\<rparr>)"

text \<open>The conversion of a \<open>long\<close> to an \<open>int\<close> keeps the low 32 bits.\<close>

definition int_of_long :: "int \<Rightarrow> int" where
  "int_of_long v = (v + 2 ^ 31) mod 2 ^ 32 - 2 ^ 31"

definition poll_wait :: "int \<Rightarrow> int \<Rightarrow> int" where
  "poll_wait timeout_ms ms = (if timeout_ms \<ge> 0 then int_of_long (timeout_ms - ms) else - 1)"

datatype loop_end = L_CLOSED | L_TIMEOUT | L_POLL_FAILED

text \<open>The loop; \<open>None\<close> when the rounds run out while it waits.\<close>

fun exec_loop :: "(nat \<Rightarrow> bool) \<Rightarrow> nat \<Rightarrow> int \<Rightarrow> round list \<Rightarrow> xst \<Rightarrow> (loop_end \<times> xst) option" where
  "exec_loop ok in_len timeout_ms [] s =
     (if \<not> (xs_out s \<or> xs_err s \<or> xs_in s) then Some (L_CLOSED, s) else None)"
| "exec_loop ok in_len timeout_ms (r # rs) s =
     (if \<not> (xs_out s \<or> xs_err s \<or> xs_in s) then Some (L_CLOSED, s)
      else if timeout_ms \<ge> 0 \<and> timeout_ms - rd_ms r \<le> 0 then Some (L_TIMEOUT, s)
      else case rd_poll r (poll_wait timeout_ms (rd_ms r)) of
             XP_EINTR \<Rightarrow> exec_loop ok in_len timeout_ms rs s
           | XP_FAIL \<Rightarrow> Some (L_POLL_FAILED, s)
           | XP_READY w o1 e1 \<Rightarrow>
               exec_loop ok in_len timeout_ms rs (handle_err ok e1 (handle_out ok o1 (handle_write in_len w s))))"

section \<open>Waiting for the command\<close>

text \<open>\<open>waitpid\<close> without blocking: still running, with the milliseconds since the start; the status; or an error.\<close>

datatype xwait = XT_RUNNING int | XT_STATUS wstatus | XT_ECHILD

text \<open>\<open>Inl\<close> when the bound is over, \<open>Inr\<close> with the status when the child is gone.\<close>

fun wait_loop :: "int \<Rightarrow> xwait list \<Rightarrow> (unit + wstatus) option" where
  "wait_loop timeout_ms [] = None"
| "wait_loop timeout_ms (a # as) =
     (case a of
        XT_RUNNING ms \<Rightarrow> if ms \<ge> timeout_ms then Some (Inl ()) else wait_loop timeout_ms as
      | XT_STATUS st \<Rightarrow> Some (Inr st)
      | XT_ECHILD \<Rightarrow> Some (Inr (W_EXITED 0)))"

text \<open>The blocking wait, which an interruption repeats; \<open>None\<close> in the list is an interruption.\<close>

fun wait_blocking :: "xwait option list \<Rightarrow> wstatus option" where
  "wait_blocking [] = None"
| "wait_blocking (None # as) = wait_blocking as"
| "wait_blocking (Some (XT_STATUS st) # as) = Some st"
| "wait_blocking (Some _ # as) = Some (W_EXITED 0)"

section \<open>exec.run\<close>

record exec_opts =
  eo_detach :: bool
  eo_background :: bool
  eo_timeout :: "dbl option"

text \<open>
  The timeout in milliseconds. \<open>fl\<close> rounds the product to a double; a value beyond a \<open>long\<close> becomes the
  smallest one, as the conversion instruction has it.
\<close>

definition exec_timeout :: "(rat \<Rightarrow> rat) \<Rightarrow> dbl option \<Rightarrow> int" where
  "exec_timeout fl t =
     (case t of
        None \<Rightarrow> - 1
      | Some d \<Rightarrow>
          if \<not> dbl_less (Fin 0) d then - 1
          else case d of
                 Fin a \<Rightarrow> (if fl (a * 1000) < 2 ^ 63 then dbl_trunc (Fin (fl (a * 1000))) else - (2 ^ 63))
               | _ \<Rightarrow> - (2 ^ 63))"

record exec_sys =
  es_ok :: "nat \<Rightarrow> bool"
  es_pipe :: "nat \<Rightarrow> nat option"
  es_fork :: "nat + int"
  es_rounds :: "round list"
  es_waits :: "xwait list"
  es_final :: "xwait option list"
  es_strerror :: "nat \<Rightarrow> cstring"

datatype exec_result = ER_RAISE cstring | ER_NIL cstring | ER_PID int | ER_DONE int "byte list" "byte list"

definition exec_code :: "wstatus \<Rightarrow> int" where
  "exec_code st = (case st of W_EXITED n \<Rightarrow> int n | W_SIGNALED n \<Rightarrow> - int n)"

text \<open>\<open>%d\<close> of an \<open>int\<close>.\<close>

definition timed_out_text :: "int \<Rightarrow> cstring" where
  "timed_out_text ms = ''timed out after '' @ int_dec (int_of_long ms) @ '' ms''"

text \<open>The end of the call, once the child is reaped.\<close>

definition exec_finish :: "int \<Rightarrow> bool \<Rightarrow> wstatus \<Rightarrow> xst \<Rightarrow> exec_result \<times> xev list" where
  "exec_finish timeout_ms timed_out st s =
     ((if xs_failed s then ER_RAISE ''qwe.exec.run: out of memory''
       else if timed_out then ER_NIL (timed_out_text timeout_ms)
       else ER_DONE (exec_code st) (xb_data (xs_outb s)) (xb_data (xs_errb s))),
      xs_log s @ [X_SIGPIPE_BACK])"

definition exec_wait_child :: "exec_sys \<Rightarrow> int \<Rightarrow> loop_end \<Rightarrow> xst \<Rightarrow> (exec_result \<times> xev list) option" where
  "exec_wait_child es timeout_ms le s0 =
     (let s = s0\<lparr>xs_log := xs_log s0 @ end_close IN_W (xs_in s0) @ end_close OUT_R (xs_out s0) @ end_close ERR_R (xs_err s0),
                 xs_in := False, xs_out := False, xs_err := False\<rparr>;
          blocking = (\<lambda>timed_out. map_option (\<lambda>st. exec_finish timeout_ms timed_out st
             (s\<lparr>xs_log := xs_log s @ (if timed_out then [X_KILL] else []) @ [X_REAP]\<rparr>)) (wait_blocking (es_final es)))
      in if timeout_ms \<ge> 0 \<and> le \<noteq> L_TIMEOUT
         then (case wait_loop timeout_ms (es_waits es) of
                 None \<Rightarrow> None
               | Some (Inr st) \<Rightarrow> Some (exec_finish timeout_ms False st (s\<lparr>xs_log := xs_log s @ [X_REAP]\<rparr>))
               | Some (Inl _) \<Rightarrow> blocking True)
         else blocking (le = L_TIMEOUT))"

text \<open>\<open>args\<close> has \<open>None\<close> for an element that is no string; the message of that error is Lua's own.\<close>

definition exec_run ::
    "(rat \<Rightarrow> rat) \<Rightarrow> exec_sys \<Rightarrow> cstring option list \<Rightarrow> byte list \<Rightarrow> exec_opts \<Rightarrow> (exec_result \<times> xev list) option" where
  "exec_run fl es args input opts =
     (let timeout_ms = exec_timeout fl (eo_timeout opts);
          n = length args
      in if args = [] then Some (ER_RAISE ''qwe.exec.run: empty argv'', [])
         else if None \<in> set args then Some (ER_RAISE ''string expected'', [])
         else if \<not> list_all (es_ok es) [0..<Suc n] then Some (ER_RAISE ''qwe.exec.run: out of memory'', [])
         else (case open_pipes (es_pipe es) of
                 (Some e, lg) \<Rightarrow> Some (ER_NIL (es_strerror es e), lg)
               | (None, lg) \<Rightarrow>
                   (case es_fork es of
                      Inl e \<Rightarrow> Some (ER_NIL (es_strerror es e), lg @ [X_SIGPIPE_OFF, X_SIGPIPE_BACK] @ close_pipes)
                    | Inr pid \<Rightarrow>
                        (let lg1 = lg @ [X_SIGPIPE_OFF, X_FORK, X_CLOSE IN_R, X_CLOSE OUT_W, X_CLOSE ERR_W]
                               @ end_close IN_W (input = []);
                             s = \<lparr>xs_in = (input \<noteq> []), xs_out = True, xs_err = True, xs_in_off = 0, xs_outb = xbuf_empty,
                                  xs_errb = xbuf_empty, xs_failed = False, xs_k = Suc n, xs_log = lg1\<rparr>
                         in if eo_background opts
                            then Some (ER_PID pid, lg1 @ end_close IN_W (input \<noteq> []) @ [X_CLOSE OUT_R, X_CLOSE ERR_R, X_SIGPIPE_BACK])
                            else (case exec_loop (es_ok es) (length input) timeout_ms (es_rounds es) s of
                                    None \<Rightarrow> None
                                  | Some (le, s1) \<Rightarrow> exec_wait_child es timeout_ms le s1)))))"

text \<open>
  The child's side of the fork, up to \<open>execvp\<close>: what its three streams are, whether it has a session of its
  own, its signal mask (none is blocked) and whether \<open>SIGPIPE\<close> is as the caller had it. \<open>nul\<close> tells whether
  \<open>/dev/null\<close> opens. \<open>exec_status\<close> is the status when \<open>execvp\<close> fails.
\<close>

datatype xstream = XS_PIPE xend | XS_NULL

record xchild =
  xc_fds :: "nat \<rightharpoonup> xstream"
  xc_session :: bool
  xc_blocked :: "nat set"
  xc_sigpipe_back :: bool
  xc_argv :: "cstring list"

definition exec_child :: "bool \<Rightarrow> exec_opts \<Rightarrow> cstring list \<Rightarrow> xchild" where
  "exec_child nul opts argv =
     (let c = \<lparr>xc_fds = [0 \<mapsto> XS_PIPE IN_R, 1 \<mapsto> XS_PIPE OUT_W, 2 \<mapsto> XS_PIPE ERR_W], xc_session = False, xc_blocked = {},
               xc_sigpipe_back = True, xc_argv = argv\<rparr>
      in if eo_detach opts \<or> eo_background opts
         then let c1 = (if eo_detach opts then c\<lparr>xc_session := True\<rparr> else c)
              in if nul then c1\<lparr>xc_fds := (xc_fds c1)(1 \<mapsto> XS_NULL, 2 \<mapsto> XS_NULL)\<rparr> else c1
         else c)"

definition exec_status :: wstatus where
  "exec_status = W_EXITED 127"

lemma exec_child_streams:
  "xc_fds (exec_child nul opts argv) 0 = Some (XS_PIPE IN_R)"
  "\<not> eo_detach opts \<Longrightarrow> \<not> eo_background opts \<Longrightarrow>
     xc_fds (exec_child nul opts argv) 1 = Some (XS_PIPE OUT_W) \<and> xc_fds (exec_child nul opts argv) 2 = Some (XS_PIPE ERR_W)"
  "eo_detach opts \<or> eo_background opts \<Longrightarrow> nul \<Longrightarrow>
     xc_fds (exec_child nul opts argv) 1 = Some XS_NULL \<and> xc_fds (exec_child nul opts argv) 2 = Some XS_NULL"
  "xc_session (exec_child nul opts argv) \<longleftrightarrow> eo_detach opts"
  by (simp_all add: exec_child_def Let_def)

section \<open>exec.wait\<close>

text \<open>\<open>gone i\<close> is the answer of the \<open>i\<close>th \<open>waitpid\<close>; \<open>ms\<close> is the bound in milliseconds.\<close>

function exec_wait_loop :: "(nat \<Rightarrow> bool) \<Rightarrow> int \<Rightarrow> int \<Rightarrow> nat \<Rightarrow> bool" where
  "exec_wait_loop gone ms waited i =
     (if gone i then True
      else if waited \<ge> ms then False
      else exec_wait_loop gone ms (waited + 2) (Suc i))"
  by pat_completeness auto
termination by (relation "measure (\<lambda>(gone, ms, waited, i). nat (ms - waited))") auto

declare exec_wait_loop.simps [simp del]

definition exec_wait :: "(nat \<Rightarrow> bool) \<Rightarrow> int \<Rightarrow> bool" where
  "exec_wait gone ms = exec_wait_loop gone ms 0 0"

section \<open>exec.preamble\<close>

text \<open>Names and values are exchanged together, from \<open>j\<close> down.\<close>

fun swap_down :: "(cstring \<times> cstring) list \<Rightarrow> nat \<Rightarrow> (cstring \<times> cstring) list" where
  "swap_down xs 0 = xs"
| "swap_down xs (Suc j) =
     (if cmp_key (fst (xs ! Suc j)) < cmp_key (fst (xs ! j)) then swap_down (xs[Suc j := xs ! j, j := xs ! Suc j]) j else xs)"

definition sort_vars :: "(cstring \<times> cstring) list \<Rightarrow> (cstring \<times> cstring) list" where
  "sort_vars xs = foldl swap_down xs [1..<length xs]"

text \<open>
  \<open>env\<close> has the entries in the order of \<open>lua_next\<close>, \<open>None\<close> for a name or a value that is no string;
  both are C strings from there on. \<open>mem\<close> is the memory of the two arrays, \<open>pmem\<close> that of the preamble.
\<close>

definition exec_preamble ::
    "bool \<Rightarrow> (nat \<Rightarrow> bool) \<Rightarrow> (byte list option \<times> byte list option) list \<Rightarrow> cstring + byte list" where
  "exec_preamble mem pmem env =
     (if \<not> list_all (\<lambda>(n, v). n \<noteq> None \<and> v \<noteq> None) env
      then Inl ''qwe.exec.preamble: env variable name and value must both be strings''
      else if env \<noteq> [] \<and> \<not> mem then Inl ''qwe.exec.preamble: out of memory''
      else let vars = sort_vars (map (\<lambda>(n, v). (cstr (the n), cstr (the v))) env);
               bad_name = (\<lambda>i. ''env variable '' @ [CHR 0x27] @ (if vars \<noteq> [] then fst (vars ! (if i < length vars then i else 0)) else [])
                  @ [CHR 0x27] @ '': not a valid name'')
           in case qwe_preamble_build pmem vars of
                PR_BAD i \<Rightarrow> Inl (bad_name i)
              | PR_NOMEM \<Rightarrow> Inl (bad_name 0)
              | PR_OK b \<Rightarrow> Inr b)"

section \<open>What is left open\<close>

text \<open>The ends that are open, after a log.\<close>

definition opened :: "xev list \<Rightarrow> xend \<Rightarrow> nat" where
  "opened lg e = count_list lg (X_OPEN e)"

definition closed_ends :: "xev list \<Rightarrow> xend \<Rightarrow> nat" where
  "closed_ends lg e = count_list lg (X_CLOSE e)"

text \<open>In the loop: the three outer ends were opened once and are closed exactly when their flag is off;
  the three inner ones are closed; the signal is off, the child runs.\<close>

definition log_ok :: "xst \<Rightarrow> bool" where
  "log_ok s \<longleftrightarrow>
     (\<forall>e. opened (xs_log s) e = 1) \<and>
     (\<forall>e \<in> {IN_R, OUT_W, ERR_W}. closed_ends (xs_log s) e = 1) \<and>
     closed_ends (xs_log s) IN_W = (if xs_in s then 0 else 1) \<and>
     closed_ends (xs_log s) OUT_R = (if xs_out s then 0 else 1) \<and>
     closed_ends (xs_log s) ERR_R = (if xs_err s then 0 else 1) \<and>
     count_list (xs_log s) X_SIGPIPE_OFF = 1 \<and> count_list (xs_log s) X_SIGPIPE_BACK = 0 \<and>
     count_list (xs_log s) X_FORK = 1 \<and> count_list (xs_log s) X_REAP = 0 \<and> count_list (xs_log s) X_KILL = 0"

lemma handle_write_log: "log_ok s \<Longrightarrow> log_ok (handle_write in_len w s)"
  by (auto simp: handle_write_def log_ok_def opened_def closed_ends_def Let_def split: option.splits)

lemma handle_read_shut: "handle_read ok r False b k = (False, b, False, k)"
  by (simp add: handle_read_def split: option.splits)

lemma handle_out_log: "log_ok s \<Longrightarrow> log_ok (handle_out ok r s)"
  by (cases "xs_out s"; cases "handle_read ok r (xs_out s) (xs_outb s) (xs_k s)")
    (simp_all add: handle_out_def log_ok_def opened_def closed_ends_def end_close_def handle_read_shut)

lemma handle_err_log: "log_ok s \<Longrightarrow> log_ok (handle_err ok r s)"
  by (cases "xs_err s"; cases "handle_read ok r (xs_err s) (xs_errb s) (xs_k s)")
    (simp_all add: handle_err_def log_ok_def opened_def closed_ends_def end_close_def handle_read_shut)

lemma exec_loop_log: "exec_loop ok in_len timeout_ms rs s = Some (le, s') \<Longrightarrow> log_ok s \<Longrightarrow> log_ok s'"
proof (induction ok in_len timeout_ms rs s rule: exec_loop.induct)
  case (2 ok in_len timeout_ms r rs s)
  then show ?case
    using handle_write_log handle_out_log handle_err_log by (auto split: if_splits xpoll.splits)
qed (auto split: if_splits)

lemma exec_loop_timeout: "exec_loop ok in_len timeout_ms rs s = Some (L_TIMEOUT, s') \<Longrightarrow> timeout_ms \<ge> 0"
  by (induction ok in_len timeout_ms rs s rule: exec_loop.induct) (auto split: if_splits xpoll.splits)

text \<open>At the end: everything that was opened is closed, once, the signal is as it was, and the child is reaped.\<close>

definition log_done :: "xev list \<Rightarrow> bool \<Rightarrow> bool" where
  "log_done lg reaped \<longleftrightarrow>
     (\<forall>e. closed_ends lg e = opened lg e \<and> opened lg e \<le> 1) \<and>
     count_list lg X_SIGPIPE_BACK = count_list lg X_SIGPIPE_OFF \<and> count_list lg X_SIGPIPE_OFF \<le> 1 \<and>
     count_list lg X_FORK \<le> 1 \<and> count_list lg X_REAP = (if reaped then count_list lg X_FORK else 0) \<and> count_list lg X_KILL \<le> 1"

lemma all_ends: "(\<forall>e. P e) \<longleftrightarrow> P IN_R \<and> P IN_W \<and> P OUT_R \<and> P OUT_W \<and> P ERR_R \<and> P ERR_W"
  by (metis xend.exhaust)

text \<open>What a call that killed its command returns.\<close>

definition killed_result :: "int \<Rightarrow> exec_result \<Rightarrow> bool" where
  "killed_result timeout_ms r \<longleftrightarrow> r = ER_NIL (timed_out_text timeout_ms) \<or> r = ER_RAISE ''qwe.exec.run: out of memory''"

lemma exec_wait_child_log:
  assumes "exec_wait_child es timeout_ms le s = Some (r, lg)" "log_ok s"
  shows "log_done lg True \<and> (X_KILL \<in> set lg \<longrightarrow> (timeout_ms \<ge> 0 \<or> le = L_TIMEOUT) \<and> killed_result timeout_ms r) \<and> (\<forall>pid. r \<noteq> ER_PID pid)"
proof -
  let ?c = "xs_log s @ end_close IN_W (xs_in s) @ end_close OUT_R (xs_out s) @ end_close ERR_R (xs_err s)"
  have lg: "lg = ?c @ [X_REAP, X_SIGPIPE_BACK] \<or> lg = ?c @ [X_KILL, X_REAP, X_SIGPIPE_BACK] \<and> (timeout_ms \<ge> 0 \<or> le = L_TIMEOUT) \<and> killed_result timeout_ms r"
    and r: "\<forall>pid. r \<noteq> ER_PID pid"
    using assms(1) by (auto simp: exec_wait_child_def exec_finish_def killed_result_def Let_def split: if_splits option.splits sum.splits)
  have k: "X_KILL \<notin> set (xs_log s)" using assms(2) by (auto simp: log_ok_def count_list_0_iff)
  have "X_KILL \<notin> set ?c" using k by (simp add: end_close_def)
  moreover have "log_done lg True"
    using lg assms(2) unfolding log_done_def log_ok_def opened_def closed_ends_def all_ends
    by (elim disjE conjE) (simp_all add: end_close_def)
  ultimately show ?thesis using lg r by auto
qed

lemma exec_run_log:
  assumes "exec_run fl es args input opts = Some (r, lg)"
  shows "log_done lg (\<forall>pid. r \<noteq> ER_PID pid) \<and> (X_KILL \<in> set lg \<longrightarrow>
    exec_timeout fl (eo_timeout opts) \<ge> 0 \<and> killed_result (exec_timeout fl (eo_timeout opts)) r)"
proof (cases "args = [] \<or> None \<in> set args \<or> \<not> list_all (es_ok es) [0..<Suc (length args)]")
  case True
  then have "lg = []" "\<forall>pid. r \<noteq> ER_PID pid" using assms by (auto simp: exec_run_def Let_def split: if_splits)
  then show ?thesis by (simp add: log_done_def opened_def closed_ends_def)
next
  case go: False
  obtain e lg0 where o: "open_pipes (es_pipe es) = (e, lg0)" by (cases "open_pipes (es_pipe es)")
  show ?thesis
  proof (cases e)
    case (Some n)
    then have "lg = lg0" "r = ER_NIL (es_strerror es n)" using assms go o by (auto simp: exec_run_def Let_def)
    moreover have "lg0 \<in> {[], [X_OPEN IN_R, X_OPEN IN_W, X_CLOSE IN_R, X_CLOSE IN_W], [X_OPEN IN_R, X_OPEN IN_W, X_OPEN OUT_R, X_OPEN OUT_W,
        X_CLOSE OUT_R, X_CLOSE OUT_W, X_CLOSE IN_R, X_CLOSE IN_W]}"
      using o Some by (auto simp: open_pipes_def split: option.splits)
    ultimately show ?thesis unfolding log_done_def opened_def closed_ends_def all_ends by auto
  next
    case None
    then have lg0: "lg0 = [X_OPEN IN_R, X_OPEN IN_W, X_OPEN OUT_R, X_OPEN OUT_W, X_OPEN ERR_R, X_OPEN ERR_W]"
      using o by (auto simp: open_pipes_def split: option.splits)
    show ?thesis
    proof (cases "es_fork es")
      case (Inl n)
      then have "r = ER_NIL (es_strerror es n)" "lg = lg0 @ [X_SIGPIPE_OFF, X_SIGPIPE_BACK] @ close_pipes"
        using assms go o None by (auto simp: exec_run_def Let_def)
      then show ?thesis unfolding log_done_def opened_def closed_ends_def all_ends lg0 close_pipes_def by simp
    next
      case (Inr pid)
      define lg1 where "lg1 = lg0 @ [X_SIGPIPE_OFF, X_FORK, X_CLOSE IN_R, X_CLOSE OUT_W, X_CLOSE ERR_W] @ end_close IN_W (input = [])"
      define s where "s = \<lparr>xs_in = (input \<noteq> []), xs_out = True, xs_err = True, xs_in_off = 0, xs_outb = xbuf_empty,
          xs_errb = xbuf_empty, xs_failed = False, xs_k = Suc (length args), xs_log = lg1\<rparr>"
      have f: "log_ok s" unfolding log_ok_def opened_def closed_ends_def all_ends s_def lg1_def lg0 by (simp add: end_close_def)
      note r0 = assms [unfolded exec_run_def Let_def o None Inr prod.case option.case sum.case, folded lg1_def, folded s_def]
      show ?thesis
      proof (cases "eo_background opts")
        case True
        then have "r = ER_PID pid" "lg = lg1 @ end_close IN_W (input \<noteq> []) @ [X_CLOSE OUT_R, X_CLOSE ERR_R, X_SIGPIPE_BACK]"
          using r0 go by auto
        then show ?thesis unfolding log_done_def opened_def closed_ends_def all_ends lg1_def lg0 by (simp add: end_close_def)
      next
        case False
        then obtain le s1 where l: "exec_loop (es_ok es) (length input) (exec_timeout fl (eo_timeout opts)) (es_rounds es) s = Some (le, s1)"
            "exec_wait_child es (exec_timeout fl (eo_timeout opts)) le s1 = Some (r, lg)"
          using r0 go by (auto split: option.splits prod.splits)
        have "le = L_TIMEOUT \<Longrightarrow> exec_timeout fl (eo_timeout opts) \<ge> 0" using exec_loop_timeout l(1) by simp
        with exec_wait_child_log [OF l(2) exec_loop_log [OF l(1) f]] show ?thesis by auto
      qed
    qed
  qed
qed

text \<open>The raise for want of memory comes only from an allocation that failed.\<close>

lemma handle_read_room: "handle_read ok r is_open b k = (st, b', True, k') \<Longrightarrow> \<exists>i. \<not> ok i"
  by (auto simp: handle_read_def xbuf_add_def Let_def split: option.splits xread.splits if_splits prod.splits)

lemma handle_room:
  "xs_failed (handle_err ok e1 (handle_out ok o1 (handle_write in_len w s))) \<Longrightarrow> xs_failed s \<or> (\<exists>i. \<not> ok i)"
proof -
  have "xs_failed (handle_err ok r s) \<Longrightarrow> xs_failed s \<or> (\<exists>i. \<not> ok i)" for r s
    by (cases "handle_read ok r (xs_err s) (xs_errb s) (xs_k s)") (auto simp: handle_err_def dest!: handle_read_room)
  moreover have "xs_failed (handle_out ok r s) \<Longrightarrow> xs_failed s \<or> (\<exists>i. \<not> ok i)" for r s
    by (cases "handle_read ok r (xs_out s) (xs_outb s) (xs_k s)") (auto simp: handle_out_def dest!: handle_read_room)
  moreover have "xs_failed (handle_write in_len w s) = xs_failed s"
    by (auto simp: handle_write_def Let_def split: option.splits xwrite.splits)
  ultimately show "xs_failed (handle_err ok e1 (handle_out ok o1 (handle_write in_len w s))) \<Longrightarrow> xs_failed s \<or> (\<exists>i. \<not> ok i)" by blast
qed

lemma exec_loop_room: "exec_loop ok in_len ms rs s = Some (le, s') \<Longrightarrow> xs_failed s' \<Longrightarrow> xs_failed s \<or> (\<exists>i. \<not> ok i)"
proof (induction rs arbitrary: s)
  case (Cons r rs)
  then show ?case by (auto split: if_splits xpoll.splits dest: handle_room)
qed (auto split: if_splits)

lemma exec_wait_child_room: "exec_wait_child es ms le s = Some (ER_RAISE m, lg) \<Longrightarrow> xs_failed s"
  by (auto simp: exec_wait_child_def exec_finish_def Let_def split: if_splits option.splits sum.splits)

lemma exec_run_room:
  assumes "exec_run fl es args input opts = Some (ER_RAISE ''qwe.exec.run: out of memory'', lg)"
  shows "\<exists>i. \<not> es_ok es i"
proof (rule ccontr)
  assume "\<nexists>i. \<not> es_ok es i"
  then have ok: "es_ok es i" for i by blast
  with assms show False
    by (auto simp: exec_run_def Let_def list_all_iff split: if_splits option.splits prod.splits sum.splits
        dest: exec_wait_child_room exec_loop_room)
qed

section \<open>What is heard\<close>

definition polls :: "int \<Rightarrow> round list \<Rightarrow> xpoll list" where
  "polls timeout_ms rs = map (\<lambda>r. rd_poll r (poll_wait timeout_ms (rd_ms r))) rs"

text \<open>The reads of each pipe, in order, without those that had to be repeated.\<close>

definition out_reads :: "xpoll list \<Rightarrow> xread list" where
  "out_reads ps = filter (\<lambda>a. a \<noteq> XR_AGAIN) (concat (map (\<lambda>p. case p of XP_READY w (Some a) e \<Rightarrow> [a] | _ \<Rightarrow> []) ps))"

definition err_reads :: "xpoll list \<Rightarrow> xread list" where
  "err_reads ps = filter (\<lambda>a. a \<noteq> XR_AGAIN) (concat (map (\<lambda>p. case p of XP_READY w r (Some a) \<Rightarrow> [a] | _ \<Rightarrow> []) ps))"

lemma reads_simps [simp]:
  "out_reads [] = []" "err_reads [] = []"
  "out_reads (XP_EINTR # ps) = out_reads ps" "err_reads (XP_EINTR # ps) = err_reads ps"
  "out_reads (XP_READY w None e # ps) = out_reads ps" "err_reads (XP_READY w r None # ps) = err_reads ps"
  "out_reads (XP_READY w (Some a) e # ps) = (if a = XR_AGAIN then out_reads ps else a # out_reads ps)"
  "err_reads (XP_READY w r (Some a) # ps) = (if a = XR_AGAIN then err_reads ps else a # err_reads ps)"
  by (simp_all add: out_reads_def err_reads_def)

text \<open>What a pipe still has to say: pieces and then its end, or nothing when it is closed.\<close>

definition says :: "bool \<Rightarrow> xread list \<Rightarrow> byte list \<Rightarrow> bool" where
  "says is_open reads d \<longleftrightarrow>
     (if is_open then \<exists>cs. reads = map XR_DATA cs @ [XR_EOF] \<and> d = concat cs else d = [])"

lemma says_open: "says True (a # as) d \<longleftrightarrow>
    (a = XR_EOF \<and> as = [] \<and> d = []) \<or> (\<exists>c d'. a = XR_DATA c \<and> d = c @ d' \<and> says True as d')"
proof
  assume "says True (a # as) d"
  then obtain cs where c: "a # as = map XR_DATA cs @ [XR_EOF]" "d = concat cs" by (auto simp: says_def)
  show "(a = XR_EOF \<and> as = [] \<and> d = []) \<or> (\<exists>c d'. a = XR_DATA c \<and> d = c @ d' \<and> says True as d')"
    using c by (cases cs) (auto simp: says_def)
next
  assume "(a = XR_EOF \<and> as = [] \<and> d = []) \<or> (\<exists>c d'. a = XR_DATA c \<and> d = c @ d' \<and> says True as d')"
  then show "says True (a # as) d"
  proof (elim disjE exE conjE)
    fix c d' assume a: "a = XR_DATA c" "d = c @ d'" "says True as d'"
    then obtain cs where "as = map XR_DATA cs @ [XR_EOF]" "d' = concat cs" by (auto simp: says_def)
    with a show ?thesis unfolding says_def by (simp, intro exI [of _ "c # cs"]) simp
  qed (simp add: says_def)
qed

text \<open>One read: what was said moves from the pipe to the buffer.\<close>

lemma handle_read_says:
  assumes "ok k" "says is_open (case r of Some a \<Rightarrow> if a = XR_AGAIN then as else a # as | None \<Rightarrow> as) d"
    and "handle_read ok r is_open b k = (still, b', nomem, k')"
  shows "\<not> nomem \<and> (\<exists>d'. xb_data b' @ d' = xb_data b @ d \<and> says still as d')"
proof (cases "is_open \<and> r \<noteq> None \<and> r \<noteq> Some XR_AGAIN")
  case False
  then have "still = is_open" "b' = b" "\<not> nomem" using assms(3) by (auto simp: handle_read_def split: if_splits option.splits)
  then show ?thesis using assms(2) False by (auto simp: says_def split: if_splits option.splits)
next
  case True
  then obtain a where a: "r = Some a" "a \<noteq> XR_AGAIN" by auto
  then have "says True (a # as) d" using True assms(2) by simp
  then consider "a = XR_EOF" "d = []" | c d' where "a = XR_DATA c" "d = c @ d'" "says True as d'" unfolding says_open by blast
  then show ?thesis
  proof cases
    case 1
    then show ?thesis using True a assms(3) by (auto simp: handle_read_def says_def)
  next
    case 2
    then have "still" "\<not> nomem" "xb_data b' = xb_data b @ c"
      using True a assms(1,3) by (auto simp: handle_read_def xbuf_add_def Let_def split: if_splits)
    then show ?thesis using 2 by (intro conjI exI [of _ d']) simp_all
  qed
qed

lemma handle_out_says:
  assumes "\<And>i. ok i" "says (xs_out s) (out_reads (XP_READY w r e # ps)) d"
  shows "xs_failed (handle_out ok r s) = xs_failed s \<and>
    (\<exists>d'. xb_data (xs_outb (handle_out ok r s)) @ d' = xb_data (xs_outb s) @ d \<and> says (xs_out (handle_out ok r s)) (out_reads ps) d')"
proof -
  obtain still b n k where h: "handle_read ok r (xs_out s) (xs_outb s) (xs_k s) = (still, b, n, k)" by (metis prod_cases4)
  have "says (xs_out s) (case r of Some a \<Rightarrow> if a = XR_AGAIN then out_reads ps else a # out_reads ps | None \<Rightarrow> out_reads ps) d"
    using assms(2) by (cases r) simp_all
  from handle_read_says [OF assms(1) this h] h show ?thesis by (simp add: handle_out_def)
qed

lemma handle_err_says:
  assumes "\<And>i. ok i" "says (xs_err s) (err_reads (XP_READY w r0 r # ps)) d"
  shows "xs_failed (handle_err ok r s) = xs_failed s \<and>
    (\<exists>d'. xb_data (xs_errb (handle_err ok r s)) @ d' = xb_data (xs_errb s) @ d \<and> says (xs_err (handle_err ok r s)) (err_reads ps) d')"
proof -
  obtain still b n k where h: "handle_read ok r (xs_err s) (xs_errb s) (xs_k s) = (still, b, n, k)" by (metis prod_cases4)
  have "says (xs_err s) (case r of Some a \<Rightarrow> if a = XR_AGAIN then err_reads ps else a # err_reads ps | None \<Rightarrow> err_reads ps) d"
    using assms(2) by (cases r) simp_all
  from handle_read_says [OF assms(1) this h] h show ?thesis by (simp add: handle_err_def)
qed

lemma handle_frames:
  "xs_out (handle_write n w s) = xs_out s" "xs_err (handle_write n w s) = xs_err s" "xs_outb (handle_write n w s) = xs_outb s"
  "xs_errb (handle_write n w s) = xs_errb s" "xs_failed (handle_write n w s) = xs_failed s"
  "xs_err (handle_out ok r s) = xs_err s" "xs_errb (handle_out ok r s) = xs_errb s" "xs_in (handle_out ok r s) = xs_in s"
  "xs_in_off (handle_out ok r s) = xs_in_off s"
  "xs_out (handle_err ok r s) = xs_out s" "xs_outb (handle_err ok r s) = xs_outb s" "xs_in (handle_err ok r s) = xs_in s"
  "xs_in_off (handle_err ok r s) = xs_in_off s"
  by (simp_all add: handle_write_def handle_out_def handle_err_def Let_def split: option.splits prod.splits)

text \<open>What the command still takes of its input: it stops reading, or what it reads adds up.\<close>

definition writes :: "xpoll list \<Rightarrow> xwrite list" where
  "writes ps = concat (map (\<lambda>p. case p of XP_READY (Some a) r e \<Rightarrow> [a] | _ \<Rightarrow> []) ps)"

definition written :: "xwrite \<Rightarrow> nat" where
  "written a = (case a of XW_N n \<Rightarrow> n | _ \<Rightarrow> 0)"

definition takes :: "xwrite list \<Rightarrow> nat \<Rightarrow> bool" where
  "takes ws left \<longleftrightarrow> XW_ERR \<in> set ws \<or> left \<le> sum_list (map written ws)"

lemma writes_simps [simp]:
  "writes [] = []" "writes (XP_EINTR # ps) = writes ps" "writes (XP_READY None r e # ps) = writes ps"
  "writes (XP_READY (Some a) r e # ps) = a # writes ps"
  by (simp_all add: writes_def)

definition feeds :: "nat \<Rightarrow> xpoll list \<Rightarrow> xst \<Rightarrow> bool" where
  "feeds in_len ps s \<longleftrightarrow> (xs_in s \<longrightarrow> xs_in_off s < in_len \<and> takes (writes ps) (in_len - xs_in_off s))"

lemma handle_write_feeds:
  assumes "feeds in_len (XP_READY w r e # ps) s"
  shows "feeds in_len ps (handle_write in_len w s)"
proof (cases "xs_in s \<and> w \<noteq> None")
  case False
  then show ?thesis using assms by (cases w) (auto simp: feeds_def handle_write_def)
next
  case True
  then obtain a where a: "w = Some a" by auto
  with True assms have l: "xs_in_off s < in_len" "takes (a # writes ps) (in_len - xs_in_off s)" by (simp_all add: feeds_def)
  show ?thesis
    using l True a by (cases a) (auto simp: feeds_def handle_write_def Let_def takes_def written_def)
qed

text \<open>A loop that no timeout cuts short, and whose pipes say all they have to say, ends with it in the buffers.\<close>

definition in_time :: "int \<Rightarrow> round list \<Rightarrow> bool" where
  "in_time timeout_ms rs \<longleftrightarrow> timeout_ms < 0 \<or> list_all (\<lambda>r. rd_ms r < timeout_ms) rs"

lemma exec_loop_captures:
  assumes "\<And>i. ok i" "in_time timeout_ms rs" "XP_FAIL \<notin> set (polls timeout_ms rs)"
    and "says (xs_out s) (out_reads (polls timeout_ms rs)) d" "says (xs_err s) (err_reads (polls timeout_ms rs)) e"
    and "feeds in_len (polls timeout_ms rs) s"
  shows "\<exists>s'. exec_loop ok in_len timeout_ms rs s = Some (L_CLOSED, s') \<and> xs_failed s' = xs_failed s
    \<and> xb_data (xs_outb s') = xb_data (xs_outb s) @ d \<and> xb_data (xs_errb s') = xb_data (xs_errb s) @ e"
  using assms(2-)
proof (induction rs arbitrary: s d e)
  case Nil
  then have "\<not> xs_out s" "\<not> xs_err s" "\<not> xs_in s" "d = []" "e = []"
    by (auto simp: polls_def says_def feeds_def takes_def split: if_splits)
  then show ?case by simp
next
  case (Cons r rs)
  let ?p = "rd_poll r (poll_wait timeout_ms (rd_ms r))"
  have ps: "polls timeout_ms (r # rs) = ?p # polls timeout_ms rs" by (simp add: polls_def)
  have t: "in_time timeout_ms rs" "\<not> (timeout_ms \<ge> 0 \<and> timeout_ms - rd_ms r \<le> 0)" using Cons.prems(1) by (auto simp: in_time_def)
  have f: "XP_FAIL \<notin> set (polls timeout_ms rs)" "?p \<noteq> XP_FAIL" using Cons.prems(2) unfolding ps by auto
  show ?case
  proof (cases "xs_out s \<or> xs_err s \<or> xs_in s")
    case False
    then show ?thesis using Cons.prems(3,4) by (simp add: says_def)
  next
    case True
    show ?thesis
    proof (cases ?p)
      case XP_EINTR
      have "says (xs_out s) (out_reads (polls timeout_ms rs)) d" "says (xs_err s) (err_reads (polls timeout_ms rs)) e"
          "feeds in_len (polls timeout_ms rs) s"
        using Cons.prems(3-5) unfolding ps XP_EINTR by (simp_all add: feeds_def)
      from Cons.IH [OF t(1) f(1) this] show ?thesis using True t(2) XP_EINTR by auto
    next
      case XP_FAIL
      then show ?thesis using f(2) by simp
    next
      case (XP_READY w o1 e1)
      let ?s1 = "handle_write in_len w s"
      let ?s2 = "handle_out ok o1 ?s1"
      let ?s3 = "handle_err ok e1 ?s2"
      note pr = Cons.prems(3-5) [unfolded ps XP_READY]
      obtain d' where o: "xs_failed ?s2 = xs_failed s" "xb_data (xs_outb ?s2) @ d' = xb_data (xs_outb s) @ d"
          "says (xs_out ?s2) (out_reads (polls timeout_ms rs)) d'"
        using handle_out_says [where ok = ok and s = ?s1, OF assms(1), of w o1 e1 "polls timeout_ms rs" d] pr(1) by (auto simp: handle_frames)
      obtain e' where e: "xs_failed ?s3 = xs_failed s" "xb_data (xs_errb ?s3) @ e' = xb_data (xs_errb s) @ e"
          "says (xs_err ?s3) (err_reads (polls timeout_ms rs)) e'"
        using handle_err_says [where ok = ok and s = ?s2, OF assms(1), of w o1 e1 "polls timeout_ms rs" e] pr(2) o(1) by (auto simp: handle_frames)
      have i: "feeds in_len (polls timeout_ms rs) ?s3"
        using handle_write_feeds [OF pr(3)] by (simp add: feeds_def handle_frames)
      have "says (xs_out ?s3) (out_reads (polls timeout_ms rs)) d'" using o(3) by (simp add: handle_frames)
      from Cons.IH [OF t(1) f(1) this e(3) i] obtain s' where
        "exec_loop ok in_len timeout_ms rs ?s3 = Some (L_CLOSED, s')" "xs_failed s' = xs_failed s"
        "xb_data (xs_outb s') = xb_data (xs_outb ?s2) @ d'" "xb_data (xs_errb s') = xb_data (xs_errb ?s3) @ e'"
        using e(1) by (auto simp: handle_frames)
      then show ?thesis using True t(2) XP_READY o(2) e(2) by auto
    qed
  qed
qed

text \<open>The child ends with a status, in time if there is a bound.\<close>

definition child_ends :: "exec_sys \<Rightarrow> int \<Rightarrow> wstatus \<Rightarrow> bool" where
  "child_ends es timeout_ms st \<longleftrightarrow>
     (if timeout_ms \<ge> 0 then wait_loop timeout_ms (es_waits es) = Some (Inr st) else wait_blocking (es_final es) = Some st)"

lemma exec_wait_child_ends:
  assumes "child_ends es timeout_ms st" "\<not> xs_failed s"
  shows "\<exists>lg. exec_wait_child es timeout_ms L_CLOSED s
    = Some (ER_DONE (exec_code st) (xb_data (xs_outb s)) (xb_data (xs_errb s)), lg)"
  using assms by (cases "timeout_ms \<ge> 0") (simp_all add: exec_wait_child_def child_ends_def exec_finish_def Let_def)

section \<open>Sorting the variables\<close>

definition var_key :: "cstring \<times> cstring \<Rightarrow> nat list" where
  "var_key nv = cmp_key (fst nv)"

text \<open>Insertion behind everything that is not greater.\<close>

definition ins_var :: "cstring \<times> cstring \<Rightarrow> (cstring \<times> cstring) list \<Rightarrow> (cstring \<times> cstring) list" where
  "ins_var x ys = takeWhile (\<lambda>y. var_key y \<le> var_key x) ys @ x # dropWhile (\<lambda>y. var_key y \<le> var_key x) ys"

lemma swap_down_ins:
  "sorted (map var_key ps) \<Longrightarrow> swap_down (ps @ x # rest) (length ps) = ins_var x ps @ rest"
proof (induction ps arbitrary: rest rule: rev_induct)
  case (snoc p ps)
  have sw: "((ps @ [p]) @ x # rest)[Suc (length ps) := p, length ps := x] = ps @ x # p # rest"
    by (simp add: list_update_append)
  have nth: "((ps @ [p]) @ x # rest) ! Suc (length ps) = x" "((ps @ [p]) @ x # rest) ! length ps = p"
    by (simp_all add: nth_append)
  show ?case
  proof (cases "var_key x < var_key p")
    case True
    have "swap_down ((ps @ [p]) @ x # rest) (length (ps @ [p])) = swap_down (ps @ x # p # rest) (length ps)"
      using True sw nth by (simp add: var_key_def)
    also have "\<dots> = ins_var x ps @ p # rest" using snoc by (simp add: sorted_append)
    also have "\<dots> = ins_var x (ps @ [p]) @ rest"
      using True by (auto simp: ins_var_def takeWhile_append dropWhile_append not_le [symmetric])
    finally show ?thesis .
  next
    case False
    then have "\<forall>y \<in> set (ps @ [p]). var_key y \<le> var_key x" using snoc.prems by (auto simp: sorted_append)
    then have "ins_var x (ps @ [p]) = ps @ [p, x]"
      unfolding ins_var_def by (simp add: takeWhile_eq_all_conv [THEN iffD2] dropWhile_eq_Nil_conv [THEN iffD2])
    then show ?thesis using False nth by (simp add: var_key_def)
  qed
qed (simp add: ins_var_def)

lemma dropWhile_sorted_gt:
  fixes c :: "'b :: linorder"
  shows "sorted (map f zs) \<Longrightarrow> y \<in> set (dropWhile (\<lambda>y. f y \<le> c) zs) \<Longrightarrow> c < f y"
  by (induction zs) (auto simp: not_le split: if_splits intro: less_le_trans)

lemma ins_var_sort: "ins_var x (sort_key var_key ys) = sort_key var_key (ys @ [x])"
proof (rule properties_for_sort_key [symmetric])
  let ?z = "sort_key var_key ys" and ?P = "\<lambda>y. var_key y \<le> var_key x"
  have zs: "takeWhile ?P ?z @ dropWhile ?P ?z = ?z" by simp
  have "mset (ins_var x ?z) = mset (takeWhile ?P ?z @ dropWhile ?P ?z) + {#x#}" unfolding ins_var_def by (simp del: takeWhile_dropWhile_id)
  then show "mset (ins_var x ?z) = mset (ys @ [x])" by (simp only: zs) simp
  have big: "var_key x < var_key y" if "y \<in> set (dropWhile ?P ?z)" for y
    using dropWhile_sorted_gt [OF sorted_sort_key that] .
  have small: "?P y" if "y \<in> set (takeWhile ?P ?z)" for y using that set_takeWhileD by fastforce
  have "sorted (map var_key (takeWhile ?P ?z @ dropWhile ?P ?z))" by (simp only: zs sorted_sort_key)
  then have "sorted (map var_key (takeWhile ?P ?z))" "sorted (map var_key (dropWhile ?P ?z))"
    unfolding map_append sorted_append by blast+
  then show "sorted (map var_key (ins_var x ?z))"
    unfolding ins_var_def map_append list.map sorted_append sorted_simps set_map
    using big small by (fastforce intro: less_imp_le order_trans)
  fix k assume "k \<in> set (ins_var x ?z)"
  have st: "filter (\<lambda>y. var_key k = var_key y) ?z = filter (\<lambda>y. var_key k = var_key y) ys"
    using sort_key_stable [of var_key "var_key k" ys] by (simp add: eq_commute)
  show "filter (\<lambda>y. var_key k = var_key y) (ins_var x ?z) = filter (\<lambda>y. var_key k = var_key y) (ys @ [x])"
  proof (cases "var_key k = var_key x")
    case True
    then have "filter (\<lambda>y. var_key k = var_key y) (dropWhile ?P ?z) = []" unfolding filter_empty_conv using big less_irrefl by metis
    with st True zs show ?thesis unfolding ins_var_def by (metis (no_types, lifting) append_Nil2 filter.simps filter_append)
  next
    case False
    then have "filter (\<lambda>y. var_key k = var_key y) (ins_var x ?z) = filter (\<lambda>y. var_key k = var_key y) (takeWhile ?P ?z @ dropWhile ?P ?z)"
      unfolding ins_var_def by (simp del: takeWhile_dropWhile_id)
    with st False zs show ?thesis by simp
  qed
qed

lemma sort_vars_upto: "k < length xs \<Longrightarrow> foldl swap_down xs [1..<Suc k] = sort_key var_key (take (Suc k) xs) @ drop (Suc k) xs"
proof (induction k)
  case 0
  then show ?case by (cases xs) simp_all
next
  case (Suc k)
  let ?s = "sort_key var_key (take (Suc k) xs)"
  have d: "drop (Suc k) xs = xs ! Suc k # drop (Suc (Suc k)) xs" using Suc.prems by (rule Cons_nth_drop_Suc [symmetric])
  have l: "length ?s = Suc k" using Suc.prems by simp
  have "foldl swap_down xs [1..<Suc (Suc k)] = swap_down (?s @ xs ! Suc k # drop (Suc (Suc k)) xs) (length ?s)"
    using Suc d l by simp
  also have "\<dots> = ins_var (xs ! Suc k) ?s @ drop (Suc (Suc k)) xs" by (rule swap_down_ins) simp
  also have "\<dots> = sort_key var_key (take (Suc (Suc k)) xs) @ drop (Suc (Suc k)) xs"
    using Suc.prems by (simp only: ins_var_sort take_Suc_conv_app_nth)
  finally show ?case .
qed

lemma sort_vars_eq: "sort_vars xs = sort_key var_key xs"
proof (cases "length xs")
  case (Suc k)
  then show ?thesis using sort_vars_upto [of k xs] by (simp add: sort_vars_def)
qed (simp add: sort_vars_def)

lemma sort_vars_any_order:
  assumes "mset xs = mset ys" "inj_on var_key (set xs)" "distinct xs"
  shows "sort_vars xs = sort_vars ys"
  unfolding sort_vars_eq
proof (rule map_sorted_distinct_set_unique [of var_key])
  have s: "set xs = set ys" "distinct ys" using assms(1,3) mset_eq_setD mset_eq_imp_distinct_iff by blast+
  then show "inj_on var_key (set (sort_key var_key xs) \<union> set (sort_key var_key ys))" using assms(2) by simp
  show "distinct (map var_key (sort_key var_key xs))" "distinct (map var_key (sort_key var_key ys))"
    using assms(2,3) s by (simp_all add: distinct_map)
  show "set (sort_key var_key xs) = set (sort_key var_key ys)" using s by simp
qed simp_all

section \<open>The bounds of the waits\<close>

text \<open>\<open>poll\<close> is given what is left of the timeout while that fits an \<open>int\<close>; beyond, it can wait without a bound.\<close>

lemma poll_wait_left: "0 \<le> t \<Longrightarrow> 0 < t - ms \<Longrightarrow> t - ms < 2 ^ 31 \<Longrightarrow> poll_wait t ms = t - ms"
  by (simp add: poll_wait_def int_of_long_def)

lemma poll_wait_unbounded:
  assumes "2 ^ 31 \<le> t - ms" "t - ms < 2 ^ 32" "0 \<le> t"
  shows "poll_wait t ms < 0"
proof -
  have "(t - ms + 2 ^ 31) mod 2 ^ 32 = (t - ms + 2 ^ 31 - 2 ^ 32) mod 2 ^ 32" by (metis minus_mod_self2)
  also have "\<dots> = t - ms + 2 ^ 31 - 2 ^ 32" using assms by (simp add: mod_pos_pos_trivial)
  finally show ?thesis using assms by (simp add: poll_wait_def int_of_long_def)
qed

text \<open>\<open>exec.wait\<close> asks once more after every two milliseconds, until the bound is reached.\<close>

lemma exec_wait_loop_iff:
  "exec_wait_loop gone ms waited i \<longleftrightarrow> (\<exists>j. gone (i + j) \<and> (\<forall>k<j. waited + 2 * int k < ms))"
proof (induction gone ms waited i rule: exec_wait_loop.induct)
  case (1 gone ms waited i)
  show ?case
  proof (cases "gone i \<or> waited \<ge> ms")
    case True
    have "\<not> gone i \<Longrightarrow> gone (i + j) \<Longrightarrow> \<exists>k<j. \<not> waited + 2 * int k < ms" for j using True by (cases j) (auto intro!: exI [of _ 0])
    moreover have "gone i \<Longrightarrow> \<exists>j. gone (i + j) \<and> (\<forall>k<j. waited + 2 * int k < ms)" by (intro exI [of _ 0]) simp
    ultimately show ?thesis using True by (subst exec_wait_loop.simps) auto
  next
    case False
    have step: "(\<exists>j. gone (Suc i + j) \<and> (\<forall>k<j. waited + 2 + 2 * int k < ms)) \<longleftrightarrow> (\<exists>j. gone (i + j) \<and> (\<forall>k<j. waited + 2 * int k < ms))"
    proof
      assume "\<exists>j. gone (Suc i + j) \<and> (\<forall>k<j. waited + 2 + 2 * int k < ms)"
      then obtain j where "gone (i + Suc j)" "\<forall>k<j. waited + 2 + 2 * int k < ms" by auto
      then have "gone (i + Suc j) \<and> (\<forall>k<Suc j. waited + 2 * int k < ms)" using False by (auto simp: less_Suc_eq_0_disj)
      then show "\<exists>j. gone (i + j) \<and> (\<forall>k<j. waited + 2 * int k < ms)" by blast
    next
      assume "\<exists>j. gone (i + j) \<and> (\<forall>k<j. waited + 2 * int k < ms)"
      then obtain j where j: "gone (i + j)" "\<forall>k<j. waited + 2 * int k < ms" by auto
      then obtain j' where j': "j = Suc j'" using False by (cases j) auto
      have "waited + 2 + 2 * int k < ms" if "k < j'" for k using j(2) j' that by (auto dest: spec [of _ "Suc k"])
      then show "\<exists>j. gone (Suc i + j) \<and> (\<forall>k<j. waited + 2 + 2 * int k < ms)" using j(1) j' by (intro exI [of _ j']) simp
    qed
    have "exec_wait_loop gone ms waited i = exec_wait_loop gone ms (waited + 2) (Suc i)" using False by (subst exec_wait_loop.simps) simp
    then show ?thesis using 1 False step by simp
  qed
qed

lemma exec_preamble_strings:
  "exec_preamble mem pmem (map (map_prod Some Some) kvs) =
     (if kvs \<noteq> [] \<and> \<not> mem then Inl ''qwe.exec.preamble: out of memory''
      else let vars = sort_vars (map (map_prod cstr cstr) kvs);
               bad_name = (\<lambda>i. ''env variable '' @ [CHR 0x27] @ (if vars \<noteq> [] then fst (vars ! (if i < length vars then i else 0)) else [])
                  @ [CHR 0x27] @ '': not a valid name'')
           in case qwe_preamble_build pmem vars of PR_BAD i \<Rightarrow> Inl (bad_name i) | PR_NOMEM \<Rightarrow> Inl (bad_name 0) | PR_OK b \<Rightarrow> Inr b)"
proof -
  have "list_all (\<lambda>(n, v). n \<noteq> None \<and> v \<noteq> None) (map (map_prod Some Some) kvs)" by (auto simp: list_all_iff)
  moreover have "map (\<lambda>(n, v). (cstr (the n), cstr (the v))) (map (map_prod Some Some) kvs) = map (map_prod cstr cstr) kvs" by auto
  ultimately show ?thesis unfolding exec_preamble_def by (simp only: map_is_Nil_conv) simp
qed

section \<open>Properties\<close>

text \<open>C38. A call of \<open>exec.run\<close> leaves nothing behind, on every path: every end of a pipe that was opened is
  closed, exactly once; the handling of \<open>SIGPIPE\<close> is put back; a command that was started and is not in
  the background is reaped. A command is killed only under a timeout, and then the call says that it timed out, or
  raises \<open>out of memory\<close> and says nothing of the timeout; it raises that only when an allocation failed, so with
  memory a caller is always told of the kill.\<close>

theorem exec_run_leaves_nothing:
  assumes "exec_run fl es args input opts = Some (r, lg)"
  shows "(\<forall>e. count_list lg (X_CLOSE e) = count_list lg (X_OPEN e) \<and> count_list lg (X_OPEN e) \<le> 1)
    \<and> count_list lg X_SIGPIPE_BACK = count_list lg X_SIGPIPE_OFF
    \<and> count_list lg X_REAP = (if \<exists>pid. r = ER_PID pid then 0 else count_list lg X_FORK)
    \<and> count_list lg X_KILL \<le> 1
    \<and> (X_KILL \<in> set lg \<longrightarrow> exec_timeout fl (eo_timeout opts) \<ge> 0 \<and>
         r \<in> {ER_NIL (timed_out_text (exec_timeout fl (eo_timeout opts))), ER_RAISE ''qwe.exec.run: out of memory''})
    \<and> (r = ER_RAISE ''qwe.exec.run: out of memory'' \<longrightarrow> (\<exists>i. \<not> es_ok es i))
    \<and> (X_KILL \<in> set lg \<and> (\<forall>i. es_ok es i) \<longrightarrow> r = ER_NIL (timed_out_text (exec_timeout fl (eo_timeout opts))))"
proof -
  have l: "log_done lg (\<forall>pid. r \<noteq> ER_PID pid)"
    "X_KILL \<in> set lg \<longrightarrow> exec_timeout fl (eo_timeout opts) \<ge> 0 \<and> killed_result (exec_timeout fl (eo_timeout opts)) r"
    using exec_run_log [OF assms] by blast+
  have m: "r = ER_RAISE ''qwe.exec.run: out of memory'' \<longrightarrow> (\<exists>i. \<not> es_ok es i)" using exec_run_room assms by blast
  show ?thesis using l m unfolding log_done_def opened_def closed_ends_def killed_result_def by auto
qed

definition exec_sys_ex :: "round list \<Rightarrow> exec_sys" where
  "exec_sys_ex rs = \<lparr>es_ok = \<lambda>_. True, es_pipe = \<lambda>_. None, es_fork = Inr 7, es_rounds = rs, es_waits = [XT_RUNNING 20, XT_STATUS (W_EXITED 3)],
     es_final = [None, Some (XT_STATUS (W_SIGNALED 9))], es_strerror = \<lambda>_. []\<rparr>"

definition exec_opts_ex :: exec_opts where
  "exec_opts_ex = \<lparr>eo_detach = False, eo_background = False, eo_timeout = Some (Fin 1)\<rparr>"

theorem exec_run_leaves_nothing_witness:
  "\<exists>lg. exec_run id (exec_sys_ex [\<lparr>rd_ms = 5, rd_poll = \<lambda>_. XP_READY (Some (XW_N 1)) None None\<rparr>, \<lparr>rd_ms = 1000, rd_poll = \<lambda>_. XP_FAIL\<rparr>])
      [Some ''sh''] ''ab'' exec_opts_ex = Some (ER_NIL ''timed out after 1000 ms'', lg)
    \<and> X_KILL \<in> set lg \<and> count_list lg X_REAP = count_list lg X_FORK \<and> count_list lg (X_CLOSE IN_W) = count_list lg (X_OPEN IN_W)"
proof -
  let ?r = "exec_run id (exec_sys_ex [\<lparr>rd_ms = 5, rd_poll = \<lambda>_. XP_READY (Some (XW_N 1)) None None\<rparr>, \<lparr>rd_ms = 1000, rd_poll = \<lambda>_. XP_FAIL\<rparr>])
      [Some ''sh''] ''ab'' exec_opts_ex"
  have r: "case ?r of Some (e, lg) \<Rightarrow> e = ER_NIL ''timed out after 1000 ms'' \<and> X_KILL \<in> set lg | None \<Rightarrow> False"
    by code_simp
  then obtain lg where lg: "?r = Some (ER_NIL ''timed out after 1000 ms'', lg)" "X_KILL \<in> set lg"
    by (cases ?r) auto
  from exec_run_leaves_nothing [OF lg(1)] lg show ?thesis by auto
qed

text \<open>C37. \<open>exec.run\<close> returns what the command wrote and how it ended: with memory, pipes and a process to be had, when
  the command takes its input or stops reading it, writes pieces to its two outputs and closes them, and
  ends with a status, all within the timeout if there is one, then the call returns, with the exit code (or the
  signal, negated) and the two outputs whole, however the pieces of the two and the input were interleaved.\<close>

theorem exec_run_captures:
  assumes "args \<noteq> []" "None \<notin> set args" "\<And>i. es_ok es i" "\<And>i. es_pipe es i = None" "es_fork es = Inr pid" "\<not> eo_background opts"
    and "timeout_ms = exec_timeout fl (eo_timeout opts)" "ps = polls timeout_ms (es_rounds es)"
    and "in_time timeout_ms (es_rounds es)" "XP_FAIL \<notin> set ps" "input = [] \<or> takes (writes ps) (length input)"
    and "out_reads ps = map XR_DATA cs @ [XR_EOF]" "err_reads ps = map XR_DATA ds @ [XR_EOF]" "child_ends es timeout_ms st"
  shows "\<exists>lg. exec_run fl es args input opts = Some (ER_DONE (exec_code st) (concat cs) (concat ds), lg)"
proof -
  obtain lg where o: "open_pipes (es_pipe es) = (None, lg)" using assms(4) by (simp add: open_pipes_def)
  define lg1 where "lg1 = lg @ [X_SIGPIPE_OFF, X_FORK, X_CLOSE IN_R, X_CLOSE OUT_W, X_CLOSE ERR_W] @ end_close IN_W (input = [])"
  define s where "s = \<lparr>xs_in = (input \<noteq> []), xs_out = True, xs_err = True, xs_in_off = 0, xs_outb = xbuf_empty,
      xs_errb = xbuf_empty, xs_failed = False, xs_k = Suc (length args), xs_log = lg1\<rparr>"
  have r: "exec_run fl es args input opts =
      (case exec_loop (es_ok es) (length input) timeout_ms (es_rounds es) s of None \<Rightarrow> None | Some (le, s1) \<Rightarrow> exec_wait_child es timeout_ms le s1)"
    unfolding exec_run_def Let_def o s_def lg1_def assms(7) using assms(1-6) by (simp add: list_all_iff)
  have h: "says (xs_out s) (out_reads (polls timeout_ms (es_rounds es))) (concat cs)"
      "says (xs_err s) (err_reads (polls timeout_ms (es_rounds es))) (concat ds)"
      "feeds (length input) (polls timeout_ms (es_rounds es)) s"
    using assms(8,11-13) by (auto simp: says_def feeds_def s_def)
  obtain s' where "exec_loop (es_ok es) (length input) timeout_ms (es_rounds es) s = Some (L_CLOSED, s')" "\<not> xs_failed s'"
      "xb_data (xs_outb s') = concat cs" "xb_data (xs_errb s') = concat ds"
    using exec_loop_captures [where ok = "es_ok es" and s = s, OF assms(3,9) _ h] assms(8,10) by (auto simp: s_def xbuf_empty_def)
  then show ?thesis using exec_wait_child_ends [OF assms(14), of s'] r by simp
qed

definition exec_rounds_ex :: "round list" where
  "exec_rounds_ex = [\<lparr>rd_ms = 0, rd_poll = \<lambda>w. if w = 1000 then XP_READY (Some (XW_N 1)) (Some (XR_DATA ''o'')) None else XP_FAIL\<rparr>,
     \<lparr>rd_ms = 3, rd_poll = \<lambda>w. XP_EINTR\<rparr>,
     \<lparr>rd_ms = 5, rd_poll = \<lambda>w. XP_READY (Some XW_ERR) (Some XR_AGAIN) (Some (XR_DATA ''e''))\<rparr>,
     \<lparr>rd_ms = 6, rd_poll = \<lambda>w. XP_READY None (Some (XR_DATA ''ut'')) (Some XR_EOF)\<rparr>,
     \<lparr>rd_ms = 7, rd_poll = \<lambda>w. XP_READY None (Some XR_EOF) None\<rparr>]"

theorem exec_run_captures_witness:
  "\<exists>lg. exec_run id (exec_sys_ex exec_rounds_ex) [Some ''sh''] ''ab'' exec_opts_ex = Some (ER_DONE 3 ''out'' ''e'', lg)"
proof -
  have t: "exec_timeout id (eo_timeout exec_opts_ex) = 1000" by code_simp
  have p: "polls 1000 exec_rounds_ex = [XP_READY (Some (XW_N 1)) (Some (XR_DATA ''o'')) None, XP_EINTR,
      XP_READY (Some XW_ERR) (Some XR_AGAIN) (Some (XR_DATA ''e'')), XP_READY None (Some (XR_DATA ''ut'')) (Some XR_EOF),
      XP_READY None (Some XR_EOF) None]"
    by code_simp
  have "in_time 1000 exec_rounds_ex" "child_ends (exec_sys_ex exec_rounds_ex) 1000 (W_EXITED 3)" by code_simp+
  moreover have "es_ok (exec_sys_ex exec_rounds_ex) i" "es_pipe (exec_sys_ex exec_rounds_ex) i = None"
      "es_fork (exec_sys_ex exec_rounds_ex) = Inr 7" "es_rounds (exec_sys_ex exec_rounds_ex) = exec_rounds_ex" for i
    by (simp_all add: exec_sys_ex_def)
  ultimately show ?thesis
    using exec_run_captures [of "[Some ''sh'']" "exec_sys_ex exec_rounds_ex" 7 exec_opts_ex 1000 id "polls 1000 exec_rounds_ex" "''ab''"
      "[''o'', ''ut'']" "[''e'']" "W_EXITED 3"]
    by (simp add: t p exec_code_def takes_def) (simp add: exec_opts_ex_def)
qed

text \<open>C40. \<open>exec.preamble\<close> does not depend on the order of the table: with memory, a table of names and values gives a
  preamble from which the shell reads the variables back, sorted by name, and leaves the rest of its input to the
  command; the first name in that order that is not a valid one is the one reported; and two tables with the
  same entries, in any order, give the same result, if no two names agree up to a NUL byte.\<close>

theorem exec_preamble_sorted:
  assumes "vars = sort_key (\<lambda>nv. cmp_key (fst nv)) (map (map_prod cstr cstr) kvs)"
  shows "(list_all (\<lambda>nv. name_ok (fst nv)) vars \<longrightarrow>
      (\<exists>b. exec_preamble True (\<lambda>_. True) (map (map_prod Some Some) kvs) = Inr b \<and> (\<forall>rest. preamble_bootstrap (b @ rest) = (vars, rest))))
    \<and> (\<forall>i<length vars. list_all (\<lambda>nv. name_ok (fst nv)) (take i vars) \<and> \<not> name_ok (fst (vars ! i)) \<longrightarrow>
      exec_preamble True pmem (map (map_prod Some Some) kvs)
        = Inl (''env variable '' @ [CHR 0x27] @ fst (vars ! i) @ [CHR 0x27] @ '': not a valid name''))
    \<and> (\<forall>kvs'. mset kvs' = mset kvs \<and> distinct (map (\<lambda>nv. cstr (fst nv)) kvs) \<longrightarrow>
      exec_preamble mem pmem (map (map_prod Some Some) kvs') = exec_preamble mem pmem (map (map_prod Some Some) kvs))"
proof (intro conjI impI allI)
  have vk: "(\<lambda>nv. cmp_key (fst nv)) = var_key" by (simp add: fun_eq_iff var_key_def)
  have vars: "vars = sort_vars (map (map_prod cstr cstr) kvs)" unfolding assms vk sort_vars_eq ..
  {
    assume ok: "list_all (\<lambda>nv. name_ok (fst nv)) vars"
    then have "qwe_preamble_build (\<lambda>_. True) vars = PR_OK (concat (map preamble_line vars) @ [nl])"
      by (simp add: qwe_preamble_build_def preamble_cap_eq)
    then show "\<exists>b. exec_preamble True (\<lambda>_. True) (map (map_prod Some Some) kvs) = Inr b \<and> (\<forall>rest. preamble_bootstrap (b @ rest) = (vars, rest))"
      using preamble_reads_back [OF ok] unfolding exec_preamble_strings vars by simp
  next
    fix i assume i: "i < length vars" and b: "list_all (\<lambda>nv. name_ok (fst nv)) (take i vars) \<and> \<not> name_ok (fst (vars ! i))"
    have "length (takeWhile (\<lambda>nv. name_ok (fst nv)) vars) = i"
      using i b by (subst takeWhile_eq_take_P_nth [of i]) (auto simp: list_all_length)
    then have "qwe_preamble_build pmem vars = PR_BAD i"
      using i b by (auto simp: qwe_preamble_build_def preamble_cap_eq list_all_length)
    then show "exec_preamble True pmem (map (map_prod Some Some) kvs)
        = Inl (''env variable '' @ [CHR 0x27] @ fst (vars ! i) @ [CHR 0x27] @ '': not a valid name'')"
      using i unfolding exec_preamble_strings vars by (auto simp: Let_def)
  next
    fix kvs' assume k: "mset kvs' = mset kvs \<and> distinct (map (\<lambda>nv. cstr (fst nv)) kvs)"
    let ?m = "map (map_prod cstr cstr)"
    have d: "distinct (map fst (?m kvs))" using k by (simp add: comp_def)
    then have "distinct (?m kvs)" unfolding distinct_map [of fst] by blast
    moreover have "inj_on var_key (set (?m kvs))"
      using d unfolding distinct_map by (simp add: inj_on_def var_key_def del: set_map)
    moreover have "mset (?m kvs) = mset (?m kvs')" using k by simp
    ultimately have "sort_vars (?m kvs) = sort_vars (?m kvs')" by (intro sort_vars_any_order)
    moreover have "(map (map_prod Some Some) kvs' = []) = (map (map_prod Some Some) kvs = [])" using k by auto
    ultimately show "exec_preamble mem pmem (map (map_prod Some Some) kvs') = exec_preamble mem pmem (map (map_prod Some Some) kvs)"
      unfolding exec_preamble_strings by simp
  }
qed

theorem exec_preamble_sorted_witness:
  "exec_preamble True (\<lambda>_. True) [(Some ''B'', Some [nl]), (Some ''A'', Some [])] = exec_preamble True (\<lambda>_. True) [(Some ''A'', Some []), (Some ''B'', Some [nl])]
    \<and> (\<exists>b. exec_preamble True (\<lambda>_. True) [(Some ''A'', Some []), (Some ''B'', Some [nl])] = Inr b
         \<and> preamble_bootstrap (b @ ''rest'') = ([(''A'', []), (''B'', [nl])], ''rest''))"
proof -
  let ?k = "[(''A'', []), (''B'', [nl])]"
  have s: "[(''A'', []), (''B'', [nl])] = sort_key (\<lambda>nv. cmp_key (fst nv)) (map (map_prod cstr cstr) ?k)"
    by (simp add: cmp_key_def cstr_def)
  have "list_all (\<lambda>nv. name_ok (fst nv)) ?k" by (simp add: is_alpha_us_def)
  moreover have "mset [(''B'', [nl]), (''A'', [])] = mset ?k" "distinct (map (\<lambda>nv. cstr (fst nv)) ?k)" by (simp_all add: cstr_def)
  ultimately show ?thesis
    using exec_preamble_sorted [OF s, of "\<lambda>_. True" True] by (auto dest!: spec [of _ "[(''B'', [nl]), (''A'', [])]"])
qed

end
