(* ===== verification/Child.thy ===== *)
theory Child
  imports Engine_Steps Cbor
begin

text \<open>
  The child of a step (\<open>src/kernel/proc.c\<close>, and \<open>child_argv\<close>, \<open>send_result\<close> and \<open>send_status\<close> of
  \<open>src/kernel/workflow.c\<close>): the fork into a process group with its two pipes, what the child does before
  the command, and what it tells the parent on the result pipe. The answer of the plugin
  (\<open>qwe.plugins.run_step\<close>, in Lua) is a parameter, as are the system's answers; tinycbor is the parameter it
  is in the theory of the CBOR values.
\<close>

section \<open>Sending\<close>

datatype cwrite = CW_N nat | CW_EINTR | CW_ERR

text \<open>The loop of \<open>write\<close>: the bytes that went into the pipe, and whether they were all of them; \<open>None\<close>
  when the answers run out while it still waits.\<close>

fun send_loop :: "cwrite list \<Rightarrow> byte list \<Rightarrow> (byte list \<times> bool) option" where
  "send_loop ws [] = Some ([], True)"
| "send_loop [] (b # r) = None"
| "send_loop (CW_EINTR # ws) (b # r) = send_loop ws (b # r)"
| "send_loop (CW_ERR # ws) (b # r) = Some ([], False)"
| "send_loop (CW_N n # ws) (b # r) = map_option (apfst ((@) (take n (b # r)))) (send_loop ws (drop n (b # r)))"

text \<open>
  \<open>cs_mem i\<close> and \<open>cs_write i\<close> are the memory and the writes of the \<open>i\<close>th message, \<open>cs_argv_mem\<close> the
  memory of the command: the array first, then its strings. \<open>cs_run_step\<close> is \<open>Inl\<close> the error that was
  raised, or the two values returned.
\<close>

record child_sys =
  cs_nstr :: "dbl \<Rightarrow> byte list"
  cs_bytes :: "cbor \<Rightarrow> byte list"
  cs_mem :: "nat \<Rightarrow> nat \<Rightarrow> bool"
  cs_write :: "nat \<Rightarrow> cwrite list"
  cs_run_step :: "luav + luav \<times> luav"
  cs_flush :: bool
  cs_argv_mem :: "nat \<Rightarrow> bool"
  cs_stdin_error :: "cstring option"
  cs_other_type :: cstring

text \<open>What the child has done so far: the bytes in the pipe, the messages on its standard error, and the number of sends.\<close>

record child_st =
  ch_pipe :: "byte list"
  ch_diag :: "cstring list"
  ch_sent :: nat

definition diag :: "cstring \<Rightarrow> child_st \<Rightarrow> child_st" where
  "diag s st = st\<lparr>ch_diag := ch_diag st @ [s]\<rparr>"

definition send_result :: "child_sys \<Rightarrow> luav \<Rightarrow> child_st \<Rightarrow> (bool \<times> child_st) option" where
  "send_result cs v st =
     (let i = ch_sent st; st1 = st\<lparr>ch_sent := Suc i\<rparr>
      in case qwe_lua_to_cbor (cs_nstr cs) (cs_mem cs i) (cs_bytes cs) v of
           None \<Rightarrow> None
         | Some (Inl e) \<Rightarrow> Some (False, diag (''qwe: cannot encode the step result: '' @ take 127 e) st1)
         | Some (Inr b) \<Rightarrow>
             map_option (\<lambda>(w, all). (all, st1\<lparr>ch_pipe := ch_pipe st1 @ w\<rparr>)) (send_loop (cs_write cs i) b))"

definition status_table :: "cstring \<Rightarrow> cstring option \<Rightarrow> luav" where
  "status_table status reason =
     LTab None [] ((case reason of None \<Rightarrow> [] | Some r \<Rightarrow> [(''reason'', LStr r)]) @ [(''status'', LStr status)]) False"

definition send_status :: "child_sys \<Rightarrow> cstring \<Rightarrow> cstring option \<Rightarrow> child_st \<Rightarrow> (bool \<times> child_st) option" where
  "send_status cs status reason st = send_result cs (status_table status reason) st"

section \<open>What the child does\<close>

text \<open>\<open>lua_isstring\<close> and \<open>lua_tostring\<close>: a number counts as the string it prints as.\<close>

definition lua_tostring :: "(dbl \<Rightarrow> byte list) \<Rightarrow> luav \<Rightarrow> cstring option" where
  "lua_tostring nstr v = (case v of LStr s \<Rightarrow> Some (cstr s) | LNum d \<Rightarrow> Some (cstr (nstr d)) | _ \<Rightarrow> None)"

definition luaL_typename :: "cstring \<Rightarrow> luav \<Rightarrow> cstring" where
  "luaL_typename other v =
     (case v of LNil \<Rightarrow> ''nil'' | LBool _ \<Rightarrow> ''boolean'' | LNum _ \<Rightarrow> ''number'' | LStr _ \<Rightarrow> ''string''
      | LLight _ \<Rightarrow> ''userdata'' | LOther \<Rightarrow> other | LTab _ _ _ _ \<Rightarrow> ''table'')"

definition lua_getfield :: "luav \<Rightarrow> byte list \<Rightarrow> luav" where
  "lua_getfield v x = (case v of LTab m sq fs oth \<Rightarrow> field fs x | _ \<Rightarrow> LNil)"

definition lua_istable :: "luav \<Rightarrow> bool" where
  "lua_istable v = (case v of LTab _ _ _ _ \<Rightarrow> True | _ \<Rightarrow> False)"

definition step_uses_plugin :: "(dbl \<Rightarrow> byte list) \<Rightarrow> luav \<Rightarrow> bool" where
  "step_uses_plugin nstr step = (lua_tostring nstr (lua_getfield step ''uses'') \<noteq> None)"

text \<open>The loop over the arguments: the index of one that is no string, memory, or the strings.\<close>

datatype argv_error = AE_TYPE nat luav | AE_NOMEM

fun argv_loop :: "child_sys \<Rightarrow> nat \<Rightarrow> luav list \<Rightarrow> argv_error + cstring list" where
  "argv_loop cs i [] = Inr []"
| "argv_loop cs i (v # vs) =
     (case lua_tostring (cs_nstr cs) v of
        None \<Rightarrow> Inl (AE_TYPE i v)
      | Some s \<Rightarrow> if \<not> cs_argv_mem cs (Suc i) then Inl AE_NOMEM else map_sum id ((#) s) (argv_loop cs (Suc i) vs))"

definition build_argv :: "child_sys \<Rightarrow> luav list \<Rightarrow> argv_error + cstring list" where
  "build_argv cs sq = (if \<not> cs_argv_mem cs 0 then Inl AE_NOMEM else argv_loop cs 0 sq)"

text \<open>How \<open>child_argv\<close> ends: by \<open>_exit\<close>, with \<open>NULL\<close>, or with a command and what its standard input is to hold.\<close>

datatype child_end = CA_EXIT nat | CA_NULL | CA_ARGV "cstring list" "byte list option"

definition child_result :: "child_sys \<Rightarrow> luav \<Rightarrow> child_st \<Rightarrow> (child_end \<times> child_st) option" where
  "child_result cs r st =
     (let ok = (lua_tostring (cs_nstr cs) (lua_getfield r ''status'') = Some ''ok'')
      in case send_result cs r st of
           None \<Rightarrow> None
         | Some (True, st1) \<Rightarrow> Some (CA_EXIT (if ok \<and> cs_flush cs then 0 else 1), st1)
         | Some (False, st1) \<Rightarrow>
             map_option (\<lambda>(_, st2). (CA_EXIT 1, st2)) (send_status cs ''failed'' (Some ''engine-error'') st1))"

definition child_command :: "child_sys \<Rightarrow> luav list \<Rightarrow> luav \<Rightarrow> child_st \<Rightarrow> (child_end \<times> child_st) option" where
  "child_command cs sq input st =
     (if sq = [] then Some (CA_NULL, diag ''qwe: the plugin returned an empty argv'' st)
      else case build_argv cs sq of
             Inl (AE_TYPE i v) \<Rightarrow>
               Some (CA_NULL, diag (''qwe: argument '' @ nat_dec (Suc i) @ '' of the plugin'' @ [CHR 0x27] @ ''s argv is a ''
                 @ luaL_typename (cs_other_type cs) v @ '', not a string'') st)
           | Inl AE_NOMEM \<Rightarrow>
               map_option (\<lambda>(_, st1). (CA_NULL, st1)) (send_status cs ''failed'' (Some ''engine-error'')
                 (diag (''qwe: out of memory building the step'' @ [CHR 0x27] @ ''s command'') st))
           | Inr argv \<Rightarrow>
               (case send_status cs ''exec'' None st of
                  None \<Rightarrow> None
                | Some (False, st1) \<Rightarrow>
                    map_option (\<lambda>(_, st2). (CA_NULL, st2)) (send_status cs ''failed'' (Some ''engine-error'') st1)
                | Some (True, st1) \<Rightarrow>
                    (case input of
                       LStr s \<Rightarrow>
                         (case cs_stdin_error cs of
                            Some e \<Rightarrow> Some (CA_NULL, diag (''qwe: cannot set up the step'' @ [CHR 0x27] @ ''s stdin: '' @ e) st1)
                          | None \<Rightarrow> Some (CA_ARGV argv (Some s), st1))
                     | _ \<Rightarrow> Some (CA_ARGV argv None, st1))))"

definition child_argv :: "child_sys \<Rightarrow> luav \<Rightarrow> child_st \<Rightarrow> (child_end \<times> child_st) option" where
  "child_argv cs step st =
     (case cs_run_step cs of
        Inl e \<Rightarrow>
          (let st1 = diag (''qwe: plugin failed: '' @ (case lua_tostring (cs_nstr cs) e of Some s \<Rightarrow> s | None \<Rightarrow> ''(null)'')) st
           in if step_uses_plugin (cs_nstr cs) step
              then map_option (\<lambda>(_, st2). (CA_EXIT 1, st2)) (send_status cs ''failed'' (Some ''plugin-error'') st1)
              else Some (CA_NULL, st1))
      | Inr (argv, r) \<Rightarrow>
          if lua_istable r then child_result cs r st
          else case argv of
                 LTab m sq fs oth \<Rightarrow> child_command cs sq r st
               | _ \<Rightarrow> Some (CA_NULL, diag ''qwe: the plugin returned no argv'' st))"

section \<open>Spawning\<close>

text \<open>The two pipes of a step: its merged output and its result.\<close>

datatype pfd = OUT_RD | OUT_WR | RES_RD | RES_WR
datatype pev = P_OPEN pfd | P_CLOSE pfd

record proc_sys =
  ps_pipe :: "nat option"
  ps_pipe2 :: "nat option"
  ps_fork :: "nat + nat"

text \<open>The error, with the operation that failed, or the process; and what the parent did to the descriptors.\<close>

definition qwe_proc_spawn :: "proc_sys \<Rightarrow> (cstring \<times> nat + nat) \<times> pev list" where
  "qwe_proc_spawn ps =
     (case ps_pipe ps of
        Some e \<Rightarrow> (Inl (''pipe'', e), [])
      | None \<Rightarrow>
          (case ps_pipe2 ps of
             Some e \<Rightarrow> (Inl (''pipe'', e), [P_OPEN OUT_RD, P_OPEN OUT_WR, P_CLOSE OUT_RD, P_CLOSE OUT_WR])
           | None \<Rightarrow>
               let lg = [P_OPEN OUT_RD, P_OPEN OUT_WR, P_OPEN RES_RD, P_OPEN RES_WR]
               in case ps_fork ps of
                    Inl e \<Rightarrow> (Inl (''fork'', e), lg @ [P_CLOSE OUT_RD, P_CLOSE OUT_WR, P_CLOSE RES_RD, P_CLOSE RES_WR])
                  | Inr pid \<Rightarrow> (Inr pid, lg @ [P_CLOSE OUT_WR, P_CLOSE RES_WR])))"

text \<open>The child's descriptors when \<open>child_argv\<close> runs: the three streams and the pipe ends left open. \<open>null\<close> tells whether \<open>/dev/null\<close> opens.\<close>

datatype cstream = ST_INHERITED | ST_NULL | ST_OUT

definition proc_child_fds :: "bool \<Rightarrow> (nat \<rightharpoonup> cstream) \<times> pfd set" where
  "proc_child_fds null =
     (let fds = [0 \<mapsto> ST_INHERITED, 1 \<mapsto> ST_INHERITED, 2 \<mapsto> ST_INHERITED];
          fds1 = (if null then fds(0 \<mapsto> ST_NULL) else fds)
      in (fds1(1 \<mapsto> ST_OUT, 2 \<mapsto> ST_OUT), {OUT_RD, OUT_WR, RES_RD, RES_WR} - {OUT_RD} - {OUT_WR} - {RES_RD}))"

text \<open>How the child ends, unless a signal ends it: by itself, or as the command it becomes.\<close>

definition proc_child_status :: "child_end \<Rightarrow> bool \<Rightarrow> wstatus option" where
  "proc_child_status ce execs =
     (case ce of
        CA_EXIT n \<Rightarrow> Some (W_EXITED n)
      | CA_NULL \<Rightarrow> Some (W_EXITED 126)
      | CA_ARGV argv input \<Rightarrow> if execs then None else Some (W_EXITED 127))"

text \<open>A process group: those still running, those that have ended and are ours to wait for, and those that
  have ended and are not.\<close>

record pgroup =
  pg_running :: nat
  pg_ended :: nat
  pg_foreign :: nat

fun group_reap :: "nat \<Rightarrow> nat" where
  "group_reap 0 = 0"
| "group_reap (Suc n) = group_reap n"

definition qwe_proc_group_empty :: "pgroup \<Rightarrow> bool \<times> pgroup" where
  "qwe_proc_group_empty g =
     (let g1 = g\<lparr>pg_ended := group_reap (pg_ended g)\<rparr> in (pg_running g1 + pg_ended g1 + pg_foreign g1 = 0, g1))"

text \<open>A spawn that fails leaves no end of a pipe open in the parent; one that succeeds leaves the two it reads.
  The child keeps only the end it writes its result to.\<close>

lemma proc_spawn_ends:
  assumes "qwe_proc_spawn ps = (r, lg)"
  shows "count_list lg (P_OPEN f) = count_list lg (P_CLOSE f) + (if (\<exists>pid. r = Inr pid) \<and> f \<in> {OUT_RD, RES_RD} then 1 else 0)"
  using assms by (cases f) (auto simp: qwe_proc_spawn_def Let_def split: option.splits sum.splits)

lemma proc_child_keeps: "snd (proc_child_fds null) = {RES_WR}" "fst (proc_child_fds null) 1 = Some ST_OUT" "fst (proc_child_fds null) 2 = Some ST_OUT"
  by (auto simp: proc_child_fds_def Let_def)

text \<open>A group is empty exactly when nothing of it runs and nothing that ended waits for another parent.\<close>

lemma group_empty_iff: "fst (qwe_proc_group_empty g) \<longleftrightarrow> pg_running g = 0 \<and> pg_foreign g = 0"
proof -
  have "group_reap n = 0" for n by (induction n) simp_all
  then show ?thesis by (simp add: qwe_proc_group_empty_def)
qed

section \<open>What the parent reads\<close>

text \<open>The fields of the decoded message, as \<open>read_step_msg\<close> takes them.\<close>

definition res_table_of :: "(dbl \<Rightarrow> byte list) \<Rightarrow> luav \<Rightarrow> res_table option" where
  "res_table_of nstr v =
     (if lua_istable v
      then Some \<lparr>rt_status = lua_tostring nstr (lua_getfield v ''status''), rt_reason = lua_tostring nstr (lua_getfield v ''reason''),
                 rt_changed = (case lua_getfield v ''changed'' of LBool b \<Rightarrow> Some b | _ \<Rightarrow> None),
                 rt_outputs = lua_istable (lua_getfield v ''outputs'')\<rparr>
      else None)"

definition decodes_with :: "(byte list \<Rightarrow> cbor option) \<Rightarrow> (dbl \<Rightarrow> byte list) \<Rightarrow> 'w sys \<Rightarrow> bool" where
  "decodes_with cursor nstr sy \<longleftrightarrow>
     (\<forall>b. sy_decode sy b = (case qwe_cbor_to_lua cursor b of Inl e \<Rightarrow> None | Inr v \<Rightarrow> Some (res_table_of nstr v)))"

section \<open>A message comes back as it was sent\<close>

text \<open>What is written is read back with the same scalars, and tables for tables.\<close>

definition like :: "luav \<Rightarrow> luav \<Rightarrow> bool" where
  "like v v' \<longleftrightarrow> (scalar v \<longrightarrow> v' = v) \<and> lua_istable v = lua_istable v' \<and> (scalar v \<or> lua_istable v)"

lemma map_sum_Inr: "map_sum id f r = Inr c \<Longrightarrow> \<exists>x. r = Inr x \<and> c = f x"
  by (cases r) auto

lemma encode_items_each:
  "encode_items f vs k = (Inr cs, k') \<Longrightarrow> list_all2 (\<lambda>v c. \<exists>i i'. f v i = (Inr c, i')) vs cs"
proof (induction vs arbitrary: k cs k')
  case (Cons v vs)
  obtain r k1 where r: "f v k = (r, k1)" by (cases "f v k")
  obtain rs k2 where rs: "encode_items f vs k1 = (rs, k2)" by (cases "encode_items f vs k1")
  from Cons.prems r rs obtain c cs' where "r = Inr c" "rs = Inr cs'" "cs = c # cs'" by (cases r; cases rs) auto
  with Cons.IH [of k1 cs' k2] r rs show ?case by auto
qed simp

lemma map_of_upd_field: "map_of (upd_field x v fs) = (map_of fs)(x \<mapsto> v)"
  by (induction x v fs rule: upd_field.induct) auto

lemma convert_fields_values:
  assumes "list_all2 (\<lambda>x c. \<exists>v. g c = Inr v \<and> P x v) xs cs"
  shows "\<exists>gs'. convert_fields g (zip (map CText xs) cs) gs = Inr gs' \<and> (\<forall>x \<in> set xs. \<exists>v. map_of gs' x = Some v \<and> P x v)
    \<and> (\<forall>x. x \<notin> set xs \<longrightarrow> map_of gs' x = map_of gs x)"
  using assms
proof (induction xs cs arbitrary: gs rule: list_all2_induct)
  case (Cons x xs c cs)
  from Cons(1) obtain v where v: "g c = Inr v" "P x v" by blast
  from Cons(3) [of "upd_field x v gs"] obtain gs' where
    g: "convert_fields g (zip (map CText xs) cs) (upd_field x v gs) = Inr gs'" "\<forall>y \<in> set xs. \<exists>v. map_of gs' y = Some v \<and> P y v"
      "\<forall>y. y \<notin> set xs \<longrightarrow> map_of gs' y = map_of (upd_field x v gs) y" by blast
  have "\<exists>w. map_of gs' y = Some w \<and> P y w" if "y \<in> set (x # xs)" for y
    using that g(2,3) v(2) by (cases "y \<in> set xs") (auto simp: map_of_upd_field)
  moreover have "map_of gs' y = map_of gs y" if "y \<notin> set (x # xs)" for y
    using that g(3) by (simp add: map_of_upd_field)
  ultimately show ?case using g(1) v(1) by auto
qed simp

lemma convert_items_like:
  "list_all2 (\<lambda>v c. \<exists>v'. g c = Inr v' \<and> like v v') vs cs \<Longrightarrow> \<exists>vs'. convert_items g cs = Inr vs'"
  by (induction rule: list_all2_induct) auto

text \<open>The fields of a table that is written as a map.\<close>

definition fields_like :: "luav \<Rightarrow> luav \<Rightarrow> bool" where
  "fields_like v v' \<longleftrightarrow>
     (\<forall>m sq fs oth x. v = LTab m sq fs oth \<and> classify m sq = K_MAP \<and> nul_free x \<longrightarrow>
        (field fs x = LNil \<and> lua_getfield v' x = LNil) \<or> like (field fs x) (lua_getfield v' x))"

lemma encode_map_back:
  assumes "\<And>v c k k'. encode_value nstr ok left v k = (Inr c, k') \<Longrightarrow> \<exists>v'. convert left c = Inr v' \<and> like v v'"
    and "encode_value nstr ok (Suc left) (LTab m sq fs oth) k = (Inr c, k')" "classify m sq = K_MAP"
  shows "\<exists>v'. convert (Suc left) c = Inr v' \<and> like (LTab m sq fs oth) v' \<and> fields_like (LTab m sq fs oth) v'"
proof -
  define xs where "xs = sort_key cmp_key (map (\<lambda>p. cstr (fst p)) fs)"
  obtain k1 cs k2 where cs: "encode_items (encode_value nstr ok left) (map (field fs) xs) k1 = (Inr cs, k2)"
      and c: "c = CMap (zip (map CText xs) cs) True"
    using assms(2,3) unfolding encode_value.simps luav.case encode_table_def kind.case xs_def [symmetric] Let_def
    by (auto split: if_splits option.splits prod.splits dest!: map_sum_Inr)
  have "list_all2 (\<lambda>x c. \<exists>v'. convert left c = Inr v' \<and> like (field fs x) v') xs cs"
    using encode_items_each [OF cs] unfolding list_all2_map1 by (rule list_all2_mono) (use assms(1) in blast)
  from convert_fields_values [OF this, of "[]"] obtain gs' where
    g: "convert_fields (convert left) (zip (map CText xs) cs) [] = Inr gs'"
      "\<forall>x \<in> set xs. \<exists>v. map_of gs' x = Some v \<and> like (field fs x) v" "\<forall>x. x \<notin> set xs \<longrightarrow> map_of gs' x = None" by auto
  have "field fs x = LNil \<and> field gs' x = LNil \<or> like (field fs x) (field gs' x)" if "nul_free x" for x
  proof (cases "x \<in> set xs")
    case True
    then show ?thesis using g(2) by (fastforce simp: field_def [of gs'])
  next
    case False
    then have "x \<notin> fst ` set fs" using cstr_id [OF that] unfolding xs_def by force
    then show ?thesis using g(3) False by (simp add: field_def map_of_eq_None_iff [symmetric])
  qed
  then have "fields_like (LTab m sq fs oth) (LTab (Some MT_MAP) [] gs' False)" by (simp add: fields_like_def lua_getfield_def)
  moreover have "like (LTab m sq fs oth) (LTab (Some MT_MAP) [] gs' False)" by (simp add: like_def scalar_def lua_istable_def)
  ultimately show ?thesis using g(1) c by (simp add: convert_container_def)
qed

lemma encode_back:
  "encode_value nstr ok left v k = (Inr c, k') \<Longrightarrow> \<exists>v'. convert left c = Inr v' \<and> like v v'"
proof (induction left arbitrary: v c k k')
  case 0
  then have "scalar v" "encode_scalar v = Inr c" by (auto simp: scalar_def encode_scalar_def split: luav.splits if_splits)
  with scalar_roundtrip [of v] convert_of_scalar [of c 0] show ?case by (auto simp: like_def scalar_def)
next
  case (Suc left)
  show ?case
  proof (cases v)
    case (LTab m sq fs oth)
    show ?thesis
    proof (cases "classify m sq")
      case K_MAP
      have "\<exists>v'. convert (Suc left) c = Inr v' \<and> like (LTab m sq fs oth) v' \<and> fields_like (LTab m sq fs oth) v'"
        by (rule encode_map_back [where nstr = nstr and ok = ok and k = k and k' = k'])
          (use Suc LTab K_MAP in blast)+
      with LTab show ?thesis by blast
    next
      case K_ARRAY
      then obtain k1 cs k2 where cs: "encode_items (encode_value nstr ok left) sq k1 = (Inr cs, k2)" "c = CArr cs True"
        using Suc.prems LTab by (auto simp: encode_table_def split: prod.splits dest!: map_sum_Inr)
      have "list_all2 (\<lambda>v c. \<exists>v'. convert left c = Inr v' \<and> like v v') sq cs"
        using encode_items_each [OF cs(1)] by (rule list_all2_mono) (use Suc.IH in blast)
      with convert_items_like cs(2) LTab show ?thesis
        by (fastforce simp: convert_container_def like_def scalar_def lua_istable_def)
    next
      case K_SECRET
      then show ?thesis using Suc.prems LTab
        by (auto simp: encode_table_def convert_container_def convert_tagged_def secret_of_def like_def scalar_def lua_istable_def
            split: luav.splits)
    qed
  next
    case (LLight b)
    then show ?thesis using Suc.prems scalar_roundtrip [of v] convert_of_scalar [of c "Suc left"]
      by (auto simp: encode_scalar_def like_def scalar_def split: if_splits)
  qed (use Suc.prems scalar_roundtrip [of v] convert_of_scalar [of c "Suc left"] in
      \<open>auto simp: encode_scalar_def like_def scalar_def\<close>)
qed

lemma encode_table_back:
  assumes "encode_value nstr ok (Suc left) v k = (Inr c, k')"
  shows "\<exists>v'. convert (Suc left) c = Inr v' \<and> like v v' \<and> fields_like v v'"
proof (cases "\<exists>m sq fs oth. v = LTab m sq fs oth \<and> classify m sq = K_MAP")
  case True
  then obtain m sq fs oth where "v = LTab m sq fs oth" "classify m sq = K_MAP" by blast
  then show ?thesis using encode_map_back [of nstr ok left m sq fs oth k c k'] encode_back [of nstr ok left] assms by blast
next
  case False
  then have "fields_like v v'" for v' unfolding fields_like_def by blast
  then show ?thesis using encode_back [OF assms] by blast
qed

section \<open>From the child to the event\<close>

lemma send_loop_whole: "CW_ERR \<notin> set ws \<Longrightarrow> send_loop ws b = Some (w, all) \<Longrightarrow> w = b \<and> all"
proof (induction ws b arbitrary: w rule: send_loop.induct)
  case (5 n ws b r)
  then obtain w' where w: "send_loop ws (drop n (b # r)) = Some (w', all)" "w = take n (b # r) @ w'" by auto
  then show ?case using "5.IH" [OF _ w(1)] "5.prems"(1) by (metis append_take_drop_id list.set_intros(2))
qed auto

text \<open>A send without a write error: the encoding goes into the pipe, or the value has none.\<close>

lemma send_result_whole:
  assumes "CW_ERR \<notin> set (cs_write cs (ch_sent st))" "send_result cs v st = Some (sent, st1)"
  shows "(sent \<and> (\<exists>b. qwe_lua_to_cbor (cs_nstr cs) (cs_mem cs (ch_sent st)) (cs_bytes cs) v = Some (Inr b) \<and> ch_pipe st1 = ch_pipe st @ b)
    \<or> \<not> sent \<and> (\<exists>e. qwe_lua_to_cbor (cs_nstr cs) (cs_mem cs (ch_sent st)) (cs_bytes cs) v = Some (Inl e)) \<and> ch_pipe st1 = ch_pipe st)
    \<and> ch_sent st1 = Suc (ch_sent st)"
  using assms send_loop_whole
  by (fastforce simp: send_result_def Let_def diag_def split: option.splits sum.splits prod.splits)

text \<open>What tinycbor wrote for a message, its cursor shows.\<close>

definition carries :: "(byte list \<Rightarrow> cbor option) \<Rightarrow> child_sys \<Rightarrow> luav \<Rightarrow> bool" where
  "carries cursor cs v \<longleftrightarrow>
     (\<forall>i k c. fst (encode_value (cs_nstr cs) (cs_mem cs i) QWE_LUA_MAX_DEPTH v k) = Inr c \<longrightarrow>
        cs_bytes cs c \<noteq> [] \<and> cursor (cs_bytes cs c) = Some c)"

lemma sent_is_read:
  assumes "qwe_lua_to_cbor (cs_nstr cs) (cs_mem cs i) (cs_bytes cs) v = Some (Inr b)" "carries cursor cs v"
  shows "b \<noteq> [] \<and> (\<exists>v'. qwe_cbor_to_lua cursor b = Inr v' \<and> like v v' \<and> fields_like v v')"
proof -
  obtain c k where c: "fst (encode_value (cs_nstr cs) (cs_mem cs i) QWE_LUA_MAX_DEPTH v k) = Inr c" "b = cs_bytes cs c"
    using qwe_lua_to_cbor_ends [of "cs_nstr cs" "cs_mem cs i" "cs_bytes cs" v] assms(1) by (auto simp: encoded_def)
  obtain left where d: "QWE_LUA_MAX_DEPTH = Suc left" unfolding max_depth_Suc by blast
  obtain k' where "encode_value (cs_nstr cs) (cs_mem cs i) (Suc left) v k = (Inr c, k')"
    using c(1) unfolding d by (metis prod.collapse)
  from encode_table_back [OF this] have "\<exists>v'. convert QWE_LUA_MAX_DEPTH c = Inr v' \<and> like v v' \<and> fields_like v v'"
    unfolding d .
  then show ?thesis using assms(2) c by (auto simp: carries_def qwe_cbor_to_lua_def)
qed

lemma status_table_cbor:
  assumes "\<And>k. ok k"
  shows "fst (encode_value nstr ok QWE_LUA_MAX_DEPTH (status_table s r) k)
    = Inr (CMap ((case r of None \<Rightarrow> [] | Some t \<Rightarrow> [(CText ''reason'', CText t)]) @ [(CText ''status'', CText s)]) True)"
proof -
  obtain left where d: "QWE_LUA_MAX_DEPTH = Suc left" unfolding max_depth_Suc by blast
  have str: "encode_value nstr ok left (LStr t) k = (Inr (CText t), k)" for t k by (cases left) (simp_all add: encode_scalar_def)
  show ?thesis using assms str grow_keys_ok [of ok] unfolding d status_table_def
    by (cases r) (auto simp: encode_table_def classify_def Let_def cmp_key_def cstr_def field_def
        simp del: grow_keys.simps split: option.splits)
qed

lemma status_table_encodes:
  assumes "\<And>k. ok k"
  shows "\<exists>b. qwe_lua_to_cbor nstr ok bytes (status_table status reason) = Some (Inr b)"
proof -
  obtain r where r: "qwe_lua_to_cbor nstr ok bytes (status_table status reason) = Some r"
      "encoded nstr ok bytes (status_table status reason) r" using qwe_lua_to_cbor_ends by blast
  have "\<exists>c. fst (encode_value nstr ok QWE_LUA_MAX_DEPTH (status_table status reason) k) = Inr c" for k
    using status_table_cbor assms by blast
  then show ?thesis using r assms by (cases r) (auto simp: encoded_def, metis sum.distinct(1))
qed

lemma status_table_sent:
  assumes "\<And>k. ok k"
  shows "qwe_lua_to_cbor nstr ok bytes (status_table s r) = Some (Inr (bytes
    (CMap ((case r of None \<Rightarrow> [] | Some t \<Rightarrow> [(CText ''reason'', CText t)]) @ [(CText ''status'', CText s)]) True)))"
  using qwe_lua_to_cbor_ends [of nstr ok bytes "status_table s r"] status_table_encodes [of ok nstr bytes s r, OF assms]
    status_table_cbor [of ok, OF assms] by (auto simp: encoded_def)

lemma status_table_fields:
  "lua_istable (status_table s r)" "lua_getfield (status_table s r) ''status'' = LStr s"
  "lua_getfield (status_table s r) ''reason'' = (case r of None \<Rightarrow> LNil | Some t \<Rightarrow> LStr t)"
  "\<exists>fs. status_table s r = LTab None [] fs False"
  by (simp_all add: status_table_def lua_istable_def lua_getfield_def field_def split: option.splits)

text \<open>The message the parent reads, from the fields the child had put into it.\<close>

lemma lua_tostring_like:
  "v = LNil \<and> v' = LNil \<or> like v v' \<Longrightarrow> lua_tostring nstr v' = lua_tostring nstr v"
  by (cases v; cases v') (auto simp: like_def scalar_def lua_istable_def lua_tostring_def)

lemma msg_of_sent:
  assumes "qwe_lua_to_cbor (cs_nstr cs) (cs_mem cs i) (cs_bytes cs) v = Some (Inr b)" "carries cursor cs v"
    and "v = LTab m sq fs oth" "classify m sq = K_MAP"
    and "decodes_with cursor (cs_nstr cs) sy" "jr_res_buf j = b" "\<not> jr_res_overflow j" "read_step_msg sy cx j = (msg, cx', j')"
  shows "sm_status msg = msg_status_of (lua_tostring (cs_nstr cs) (lua_getfield v ''status''))
    \<and> sm_reason msg = Some (msg_reason_of (lua_tostring (cs_nstr cs) (lua_getfield v ''reason'')))"
proof -
  obtain v' where b: "b \<noteq> []" and v: "qwe_cbor_to_lua cursor b = Inr v'" "like v v'" "fields_like v v'"
    using sent_is_read [OF assms(1,2)] by blast
  have t: "lua_istable v'" using v(2) assms(3) by (simp add: like_def lua_istable_def)
  have f: "lua_tostring (cs_nstr cs) (lua_getfield v' x) = lua_tostring (cs_nstr cs) (lua_getfield v x)" if "nul_free x" for x
    using v(3) that assms(3,4) unfolding fields_like_def
    by (intro lua_tostring_like) (simp add: lua_getfield_def [of "LTab m sq fs oth"])
  have "sy_decode sy b = Some (res_table_of (cs_nstr cs) v')" using assms(5) v(1) by (simp add: decodes_with_def)
  then show ?thesis
    using assms(6-8) b t f [of "''status''"] f [of "''reason''"]
    by (auto simp: read_step_msg_def res_table_of_def Let_def nul_free_def split: prod.splits if_splits)
qed

lemma msg_of_status:
  assumes "\<And>k. cs_mem cs (ch_sent st) k" "CW_ERR \<notin> set (cs_write cs (ch_sent st))"
    and "send_status cs s r st = Some (sent, st1)" "ch_pipe st = []"
    and "carries cursor cs (status_table s r)" "nul_free s" "\<And>t. r = Some t \<Longrightarrow> nul_free t"
    and "decodes_with cursor (cs_nstr cs) sy" "jr_res_buf j = ch_pipe st1" "\<not> jr_res_overflow j" "read_step_msg sy cx j = (msg, cx', j')"
  shows "sent \<and> sm_status msg = msg_status_of (Some s) \<and> sm_reason msg = Some (msg_reason_of r)"
proof -
  obtain b where b: "qwe_lua_to_cbor (cs_nstr cs) (cs_mem cs (ch_sent st)) (cs_bytes cs) (status_table s r) = Some (Inr b)"
    using status_table_encodes [of "cs_mem cs (ch_sent st)"] assms(1) by blast
  have w: "sent" "ch_pipe st1 = b"
    using send_result_whole [OF assms(2) assms(3) [unfolded send_status_def]] b assms(4) by auto
  obtain fs where t: "status_table s r = LTab None [] fs False" using status_table_fields(4) by blast
  have "jr_res_buf j = b" using assms(9) w(2) by simp
  note m = msg_of_sent [OF b assms(5) t _ assms(8) this assms(10,11)]
  have "lua_tostring (cs_nstr cs) (lua_getfield (status_table s r) ''reason'') = r"
    using assms(7) by (auto simp: status_table_fields lua_tostring_def cstr_id split: option.splits)
  then show ?thesis using m w(1) assms(6) by (simp add: classify_def status_table_fields lua_tostring_def cstr_id)
qed

text \<open>The event of a plugin step, from the message alone.\<close>

definition by_code :: "wstatus \<Rightarrow> qwe_lc_event \<times> cstring option" where
  "by_code status = (if status = W_EXITED 0 then QWE_LC_EV_LEADER_EXIT_OK else QWE_LC_EV_LEADER_EXIT_FAIL, Some ''exit-code'')"

lemma plugin_event:
  assumes "jr_step_uses j" "drain_result sy cx (j\<lparr>jr_step_changed := True\<rparr>) = (eof, cx1, j1)"
    and "read_step_msg sy cx1 j1 = (m, cx2, j2)"
  shows "fst (leader_exit_event sy status cx j) =
    (case sm_status m of
       MSG_EXEC \<Rightarrow> by_code status
     | MSG_OK \<Rightarrow> if status = W_EXITED 0 then by_code status else (QWE_LC_EV_LEADER_EXIT_FAIL, Some ''plugin-error'')
     | MSG_FAILED \<Rightarrow> (QWE_LC_EV_LEADER_EXIT_FAIL, sm_reason m)
     | MSG_NONE \<Rightarrow> (QWE_LC_EV_LEADER_EXIT_FAIL, Some ''plugin-error''))"
  using assms by (cases "sm_status m") (auto simp: leader_exit_event_def Let_def by_code_def)

text \<open>What a plugin step comes to, from what the plugin answered.\<close>

definition plugin_verdict :: "child_sys \<Rightarrow> wstatus \<Rightarrow> qwe_lc_event \<times> cstring option" where
  "plugin_verdict cs status =
     (let fail = (\<lambda>r. (QWE_LC_EV_LEADER_EXIT_FAIL, Some r))
      in case cs_run_step cs of
           Inl e \<Rightarrow> fail ''plugin-error''
         | Inr (argv, r) \<Rightarrow>
             if lua_istable r
             then (if \<exists>e. qwe_lua_to_cbor (cs_nstr cs) (cs_mem cs 0) (cs_bytes cs) r = Some (Inl e) then fail ''engine-error''
                   else case msg_status_of (lua_tostring (cs_nstr cs) (lua_getfield r ''status'')) of
                          MSG_OK \<Rightarrow> if cs_flush cs then (QWE_LC_EV_LEADER_EXIT_OK, Some ''exit-code'') else fail ''plugin-error''
                        | MSG_FAILED \<Rightarrow> fail (msg_reason_of (lua_tostring (cs_nstr cs) (lua_getfield r ''reason'')))
                        | MSG_EXEC \<Rightarrow> fail ''exit-code''
                        | MSG_NONE \<Rightarrow> fail ''plugin-error'')
             else case argv of
                    LTab m sq fs oth \<Rightarrow>
                      if sq \<noteq> [] \<and> list_all (\<lambda>v. lua_tostring (cs_nstr cs) v \<noteq> None) sq then by_code status else fail ''plugin-error''
                  | _ \<Rightarrow> fail ''plugin-error'')"

lemma argv_loop_all:
  "(\<And>i. cs_argv_mem cs i) \<Longrightarrow>
   (\<exists>argv. argv_loop cs i sq = Inr argv) \<and> list_all (\<lambda>v. lua_tostring (cs_nstr cs) v \<noteq> None) sq
   \<or> (\<exists>n v. argv_loop cs i sq = Inl (AE_TYPE n v)) \<and> \<not> list_all (\<lambda>v. lua_tostring (cs_nstr cs) v \<noteq> None) sq"
  by (induction cs i sq rule: argv_loop.induct) (fastforce split: option.splits)+

definition child_start :: child_st where
  "child_start = \<lparr>ch_pipe = [], ch_diag = [], ch_sent = 0\<rparr>"

text \<open>The messages a child can send.\<close>

definition child_messages :: "child_sys \<Rightarrow> luav set" where
  "child_messages cs =
     {status_table ''exec'' None, status_table ''failed'' (Some ''engine-error''), status_table ''failed'' (Some ''plugin-error'')}
     \<union> (case cs_run_step cs of Inr (argv, r) \<Rightarrow> {r} | _ \<Rightarrow> {})"

text \<open>Nothing fails on the way: memory, the pipe, and tinycbor reads what it wrote.\<close>

definition untroubled :: "(byte list \<Rightarrow> cbor option) \<Rightarrow> child_sys \<Rightarrow> bool" where
  "untroubled cursor cs \<longleftrightarrow>
     (\<forall>i k. cs_mem cs i k) \<and> (\<forall>i. cs_argv_mem cs i) \<and> (\<forall>i. CW_ERR \<notin> set (cs_write cs i))
     \<and> (\<forall>v \<in> child_messages cs. carries cursor cs v)"

text \<open>The parent has the whole pipe, and decodes it with the same library.\<close>

definition hears :: "(byte list \<Rightarrow> cbor option) \<Rightarrow> child_sys \<Rightarrow> 'w sys \<Rightarrow> child_st \<Rightarrow> job \<Rightarrow> bool" where
  "hears cursor cs sy st j \<longleftrightarrow> decodes_with cursor (cs_nstr cs) sy \<and> jr_res_buf j = ch_pipe st \<and> \<not> jr_res_overflow j"

lemma status_sent:
  assumes "untroubled cursor cs" "send_status cs s r st = Some (sent, st1)"
  shows "sent"
proof -
  obtain b where b: "qwe_lua_to_cbor (cs_nstr cs) (cs_mem cs (ch_sent st)) (cs_bytes cs) (status_table s r) = Some (Inr b)"
    using status_table_encodes [of "cs_mem cs (ch_sent st)"] assms(1) unfolding untroubled_def by blast
  have "CW_ERR \<notin> set (cs_write cs (ch_sent st))" using assms(1) by (simp add: untroubled_def)
  from send_result_whole [OF this assms(2) [unfolded send_status_def]] b show ?thesis by auto
qed

lemma status_heard:
  assumes "untroubled cursor cs" "hears cursor cs sy st1 j" "read_step_msg sy cx j = (msg, cx', j')"
    and "send_status cs s r st = Some (sent, st1)" "ch_pipe st = []"
    and "(s, r) \<in> {(''exec'', None), (''failed'', Some ''engine-error''), (''failed'', Some ''plugin-error'')}"
  shows "sent \<and> sm_status msg = msg_status_of (Some s) \<and> sm_reason msg = Some (msg_reason_of r)"
proof (rule msg_of_status [OF _ _ assms(4,5) _ _ _ _ _ _ assms(3)])
  show "carries cursor cs (status_table s r)" using assms(1,6) by (auto simp: untroubled_def child_messages_def)
  show "nul_free s" "\<And>t. r = Some t \<Longrightarrow> nul_free t" using assms(6) by (auto simp: nul_free_def)
qed (use assms(1,2) in \<open>simp_all add: untroubled_def hears_def\<close>)

lemma silence_heard:
  assumes "hears cursor cs sy st j" "ch_pipe st = []" "read_step_msg sy cx j = (msg, cx', j')"
  shows "sm_status msg = MSG_NONE"
  using assms by (auto simp: hears_def read_step_msg_def Let_def)

lemma child_result_heard:
  assumes "untroubled cursor cs" "hears cursor cs sy st j" "read_step_msg sy cx j = (msg, cx', j')"
    and "child_result cs r child_start = Some (ce, st)" "cs_run_step cs = Inr (argv, r)"
    and "r = LTab m sq fs oth" "classify m sq = K_MAP"
  shows "(if \<exists>e. qwe_lua_to_cbor (cs_nstr cs) (cs_mem cs 0) (cs_bytes cs) r = Some (Inl e)
      then sm_status msg = MSG_FAILED \<and> sm_reason msg = Some ''engine-error''
      else sm_status msg = msg_status_of (lua_tostring (cs_nstr cs) (lua_getfield r ''status''))
        \<and> sm_reason msg = Some (msg_reason_of (lua_tostring (cs_nstr cs) (lua_getfield r ''reason'')))
        \<and> ce = CA_EXIT (if lua_tostring (cs_nstr cs) (lua_getfield r ''status'') = Some ''ok'' \<and> cs_flush cs then 0 else 1))"
proof -
  have start: "ch_sent child_start = 0" "ch_pipe child_start = []" by (simp_all add: child_start_def)
  have t: "CW_ERR \<notin> set (cs_write cs i)" "carries cursor cs r" for i
    using assms(1,5) by (auto simp: untroubled_def child_messages_def)
  obtain sent st1 where s: "send_result cs r child_start = Some (sent, st1)"
    using assms(4) by (cases "send_result cs r child_start") (auto simp: child_result_def Let_def)
  note w = send_result_whole [OF t(1) s, unfolded start]
  show ?thesis
  proof (cases sent)
    case True
    then obtain b where b: "qwe_lua_to_cbor (cs_nstr cs) (cs_mem cs 0) (cs_bytes cs) r = Some (Inr b)" "ch_pipe st1 = b" using w by auto
    have st: "st1 = st" "ce = CA_EXIT (if lua_tostring (cs_nstr cs) (lua_getfield r ''status'') = Some ''ok'' \<and> cs_flush cs then 0 else 1)"
      using assms(4) s True by (auto simp: child_result_def Let_def)
    have h: "decodes_with cursor (cs_nstr cs) sy" "jr_res_buf j = b" "\<not> jr_res_overflow j" using assms(2) b(2) st(1) by (auto simp: hears_def)
    from msg_of_sent [OF b(1) t(2) assms(6,7) h assms(3)] st(2) b(1) show ?thesis by simp
  next
    case False
    then obtain x where x: "send_status cs ''failed'' (Some ''engine-error'') st1 = Some (x, st)"
      using assms(4) s by (auto simp: child_result_def Let_def)
    have "\<exists>e. qwe_lua_to_cbor (cs_nstr cs) (cs_mem cs 0) (cs_bytes cs) r = Some (Inl e)" "ch_pipe st1 = []" using w False by auto
    with status_heard [OF assms(1-3) x] show ?thesis by (simp add: msg_status_of_def msg_reason_of_def)
  qed
qed

lemma child_command_heard:
  assumes "untroubled cursor cs" "hears cursor cs sy st j" "read_step_msg sy cx j = (msg, cx', j')"
    and "child_command cs sq r child_start = Some (ce, st)"
  shows "sm_status msg = (if sq \<noteq> [] \<and> list_all (\<lambda>v. lua_tostring (cs_nstr cs) v \<noteq> None) sq then MSG_EXEC else MSG_NONE)"
proof (cases "sq \<noteq> [] \<and> list_all (\<lambda>v. lua_tostring (cs_nstr cs) v \<noteq> None) sq")
  case True
  have start: "ch_pipe child_start = []" by (simp add: child_start_def)
  have "\<exists>argv. build_argv cs sq = Inr argv"
    using argv_loop_all [of cs 0 sq] assms(1) True by (auto simp: build_argv_def untroubled_def)
  then obtain argv where a: "build_argv cs sq = Inr argv" ..
  obtain sent st1 where s: "send_status cs ''exec'' None child_start = Some (sent, st1)"
    using assms(4) a True by (cases "send_status cs ''exec'' None child_start") (auto simp: child_command_def)
  have "sent" by (rule status_sent [OF assms(1) s])
  then have p: "ch_pipe st1 = ch_pipe st"
    using assms(4) a s True by (auto simp: child_command_def diag_def split: luav.splits option.splits)
  have "hears cursor cs sy st1 j" using assms(2) p by (simp add: hears_def)
  from status_heard [OF assms(1) this assms(3) s start] True show ?thesis by (simp add: msg_status_of_def)
next
  case False
  have "ch_pipe st = []"
    using argv_loop_all [of cs 0 sq] assms(1,4) False
    by (auto simp: child_command_def build_argv_def untroubled_def diag_def child_start_def split: if_splits)
  with silence_heard [OF assms(2) _ assms(3)] False show ?thesis by simp
qed

text \<open>
  What the parent can see of the child's end: the status the child exits with by itself, or any end, a signal included,
  of the command it became. A child that is killed before it comes to its own end is not one of these.
\<close>

definition ends_as :: "child_end \<Rightarrow> bool \<Rightarrow> wstatus \<Rightarrow> bool" where
  "ends_as ce execs status \<longleftrightarrow>
     (case proc_child_status ce execs of None \<Rightarrow> True | Some s \<Rightarrow> status = s)"

lemma send_loop_all: "send_loop ws b = Some (w, True) \<Longrightarrow> w = b"
proof (induction ws b arbitrary: w rule: send_loop.induct)
  case (5 n ws b r)
  then obtain w' where w: "send_loop ws (drop n (b # r)) = Some (w', True)" "w = take n (b # r) @ w'" by auto
  then show ?case using "5.IH" [OF w(1)] by (metis append_take_drop_id)
qed auto

lemma send_result_sent:
  assumes "send_result cs v st = Some (True, st1)"
  shows "\<exists>b. qwe_lua_to_cbor (cs_nstr cs) (cs_mem cs (ch_sent st)) (cs_bytes cs) v = Some (Inr b) \<and> ch_pipe st1 = ch_pipe st @ b"
  using assms send_loop_all by (fastforce simp: send_result_def Let_def split: option.splits sum.splits prod.splits)

text \<open>A message that is in the pipe whole.\<close>

definition whole_message :: "child_sys \<Rightarrow> luav \<Rightarrow> child_st \<Rightarrow> bool" where
  "whole_message cs v st \<longleftrightarrow> qwe_lua_to_cbor (cs_nstr cs) (cs_mem cs 0) (cs_bytes cs) v = Some (Inr (ch_pipe st))"

lemma child_result_zero:
  assumes "child_result cs r child_start = Some (CA_EXIT 0, st)"
  shows "lua_tostring (cs_nstr cs) (lua_getfield r ''status'') = Some ''ok'' \<and> cs_flush cs \<and> whole_message cs r st"
proof -
  have "send_result cs r child_start = Some (True, st)" "lua_tostring (cs_nstr cs) (lua_getfield r ''status'') = Some ''ok'' \<and> cs_flush cs"
    using assms by (auto simp: child_result_def Let_def split: option.splits prod.splits bool.splits if_splits)
  with send_result_sent [OF this(1)] show ?thesis by (simp add: whole_message_def child_start_def)
qed

lemma child_command_end:
  assumes "child_command cs sq r child_start = Some (ce, st)"
  shows "ce = CA_NULL \<or> (\<exists>argv input. ce = CA_ARGV argv input \<and> build_argv cs sq = Inr argv \<and> whole_message cs (status_table ''exec'' None) st)"
proof (cases "\<exists>argv. sq \<noteq> [] \<and> build_argv cs sq = Inr argv \<and> send_status cs ''exec'' None child_start = Some (True, st)")
  case True
  then obtain argv where a: "sq \<noteq> []" "build_argv cs sq = Inr argv" "send_status cs ''exec'' None child_start = Some (True, st)" by blast
  have "whole_message cs (status_table ''exec'' None) st"
    using send_result_sent [OF a(3) [unfolded send_status_def]] by (simp add: whole_message_def child_start_def)
  then show ?thesis using assms a by (auto simp: child_command_def split: luav.splits option.splits)
next
  case False
  then show ?thesis using assms
    by (auto simp: child_command_def split: if_splits sum.splits argv_error.splits option.splits prod.splits bool.splits luav.splits)
qed

lemma ok_needs_zero: "fst (leader_exit_event sy status cx j) = (QWE_LC_EV_LEADER_EXIT_OK, reason) \<Longrightarrow> status = W_EXITED 0"
  by (auto simp: leader_exit_event_def Let_def split: prod.splits if_splits)

section \<open>Properties\<close>

text \<open>C35. The parent hears what the plugin of a step answered. When nothing fails on the way and the parent has the
  whole result pipe, the event and the reason it sends the job are those of the answer: an error raised is a
  \<open>plugin-error\<close>; a result with status ok is a success if the output could be flushed; one with status failed
  fails with its reason, if that is one a plugin may give; a result that has no encoding is an
  \<open>engine-error\<close>; and a command is judged by how it ended.\<close>

theorem plugin_step_is_heard:
  assumes "untroubled cursor cs" "hears cursor cs sy st j1" "step_uses_plugin (cs_nstr cs) step"
    and "child_argv cs step child_start = Some (ce, st)" "ends_as ce execs status"
    and "\<And>argv m sq fs oth. cs_run_step cs = Inr (argv, LTab m sq fs oth) \<Longrightarrow> classify m sq = K_MAP"
    and "jr_step_uses j" "drain_result sy cx (j\<lparr>jr_step_changed := True\<rparr>) = (eof, cx1, j1)"
  shows "fst (leader_exit_event sy status cx j) = plugin_verdict cs status"
proof -
  obtain msg cx2 j2 where m: "read_step_msg sy cx1 j1 = (msg, cx2, j2)" by (cases "read_step_msg sy cx1 j1")
  note ev = plugin_event [OF assms(7,8) m, of status]
  note child = assms(4) [unfolded child_argv_def]
  show ?thesis
  proof (cases "cs_run_step cs")
    case (Inl e)
    let ?st0 = "diag (''qwe: plugin failed: '' @ (case lua_tostring (cs_nstr cs) e of Some s \<Rightarrow> s | None \<Rightarrow> ''(null)'')) child_start"
    obtain x where "send_status cs ''failed'' (Some ''plugin-error'') ?st0 = Some (x, st)"
      using child Inl assms(3) by (auto simp: Let_def)
    moreover have "ch_pipe ?st0 = []" by (simp add: diag_def child_start_def)
    ultimately show ?thesis using status_heard [OF assms(1,2) m]
      by (simp add: ev plugin_verdict_def Inl msg_status_of_def msg_reason_of_def)
  next
    case (Inr p)
    obtain argv r where p: "p = (argv, r)" by (cases p)
    show ?thesis
    proof (cases "lua_istable r")
      case True
      then obtain k sq fs oth where t: "r = LTab k sq fs oth" by (auto simp: lua_istable_def split: luav.splits)
      then have "classify k sq = K_MAP" using assms(6) Inr p by blast
      have "child_result cs r child_start = Some (ce, st)" using child Inr p True by simp
      note h = child_result_heard [OF assms(1,2) m this Inr [unfolded p] t \<open>classify k sq = K_MAP\<close>]
      show ?thesis using h assms(5) True ev
        by (auto simp: plugin_verdict_def Inr p ends_as_def proc_child_status_def by_code_def Let_def msg_status_of_def split: if_splits)
    next
      case False
      show ?thesis
      proof (cases argv)
        case (LTab k sq fs oth)
        then have "child_command cs sq r child_start = Some (ce, st)" using child Inr p False by simp
        from child_command_heard [OF assms(1,2) m this] ev show ?thesis
          by (simp add: plugin_verdict_def Inr p False LTab Let_def)
      qed (use child Inr p False silence_heard [OF assms(2) _ m] ev in \<open>auto simp: plugin_verdict_def diag_def child_start_def\<close>)
    qed
  qed
qed

definition child_sys_ex :: child_sys where
  "child_sys_ex = \<lparr>cs_nstr = \<lambda>_. [], cs_bytes = \<lambda>c. if c = CMap [(CText ''status'', CText ''exec'')] True then ''x''
       else if c = CMap [(CText ''status'', CText ''ok'')] True then ''k''
       else if c = CMap [(CText ''reason'', CText ''engine-error''), (CText ''status'', CText ''failed'')] True then ''e'' else ''p'',
     cs_mem = \<lambda>_ _. True, cs_write = \<lambda>_. [CW_EINTR, CW_N 5], cs_run_step = Inr (LNil, status_table ''ok'' None), cs_flush = True,
     cs_argv_mem = \<lambda>_. True, cs_stdin_error = None, cs_other_type = ''function''\<rparr>"

definition cursor_ex :: "byte list \<Rightarrow> cbor option" where
  "cursor_ex b = (if b = ''x'' then Some (CMap [(CText ''status'', CText ''exec'')] True)
     else if b = ''k'' then Some (CMap [(CText ''status'', CText ''ok'')] True)
     else if b = ''e'' then Some (CMap [(CText ''reason'', CText ''engine-error''), (CText ''status'', CText ''failed'')] True)
     else if b = ''p'' then Some (CMap [(CText ''reason'', CText ''plugin-error''), (CText ''status'', CText ''failed'')] True)
     else None)"

lemma child_sys_ex_facts:
  "untroubled cursor_ex child_sys_ex"
  "child_argv child_sys_ex (LTab None [] [(''uses'', LStr ''p'')] False) child_start = Some (CA_EXIT 0, \<lparr>ch_pipe = ''k'', ch_diag = [], ch_sent = 1\<rparr>)"
proof -
  have m: "cs_mem child_sys_ex i k" for i k by (simp add: child_sys_ex_def)
  note c = status_table_cbor [OF m]
  have "carries cursor_ex child_sys_ex (status_table s r)"
    if "(s, r) \<in> {(''exec'', None), (''ok'', None), (''failed'', Some ''engine-error''), (''failed'', Some ''plugin-error'')}" for s r
    unfolding carries_def c using that by (elim insertE) (simp_all add: child_sys_ex_def cursor_ex_def)
  then show "untroubled cursor_ex child_sys_ex"
    unfolding untroubled_def child_messages_def by (simp add: child_sys_ex_def)
  have "qwe_lua_to_cbor (cs_nstr child_sys_ex) (cs_mem child_sys_ex 0) (cs_bytes child_sys_ex) (status_table ''ok'' None) = Some (Inr ''k'')"
    using status_table_sent [of "cs_mem child_sys_ex 0", OF m] by (simp add: child_sys_ex_def)
  then show "child_argv child_sys_ex (LTab None [] [(''uses'', LStr ''p'')] False) child_start = Some (CA_EXIT 0, \<lparr>ch_pipe = ''k'', ch_diag = [], ch_sent = 1\<rparr>)"
    by (simp add: child_argv_def child_result_def send_result_def child_start_def child_sys_ex_def status_table_fields lua_tostring_def cstr_def)
qed

theorem plugin_step_is_heard_witness:
  "fst (leader_exit_event (sys_ex\<lparr>sy_read_res := \<lambda>_ w. ([RD_DATA ''k'', RD_AGAIN], w),
       sy_decode := \<lambda>b. case qwe_cbor_to_lua cursor_ex b of Inl e \<Rightarrow> None | Inr v \<Rightarrow> Some (res_table_of (\<lambda>_. []) v)\<rparr>)
     (W_EXITED 0) cx_ex ((job_loaded ''j'' ''local'' [] [\<lparr>sp_id = None, sp_name = None, sp_uses = Some ''p'', sp_coe = False\<rparr>] 0)\<lparr>jr_step_uses := True\<rparr>))
   = plugin_verdict child_sys_ex (W_EXITED 0)"
proof -
  let ?sy = "sys_ex\<lparr>sy_read_res := \<lambda>_ w. ([RD_DATA ''k'', RD_AGAIN], w),
       sy_decode := \<lambda>b. case qwe_cbor_to_lua cursor_ex b of Inl e \<Rightarrow> None | Inr v \<Rightarrow> Some (res_table_of (\<lambda>_. []) v)\<rparr>"
  let ?j = "(job_loaded ''j'' ''local'' [] [\<lparr>sp_id = None, sp_name = None, sp_uses = Some ''p'', sp_coe = False\<rparr>] 0)\<lparr>jr_step_uses := True\<rparr>"
  obtain e cx1 j1 where d: "drain_result ?sy cx_ex (?j\<lparr>jr_step_changed := True\<rparr>) = (e, cx1, j1)"
    by (cases "drain_result ?sy cx_ex (?j\<lparr>jr_step_changed := True\<rparr>)")
  have "jr_res_buf j1 = ''k''" "\<not> jr_res_overflow j1"
    using d by (auto simp: drain_result_def job_loaded_def sys_ex_def cx_ex_def RESULT_MAX_def)
  then have h: "hears cursor_ex child_sys_ex ?sy \<lparr>ch_pipe = ''k'', ch_diag = [], ch_sent = 1\<rparr> j1"
    by (simp add: hears_def decodes_with_def child_sys_ex_def)
  show ?thesis
  proof (rule plugin_step_is_heard [OF child_sys_ex_facts(1) h _ child_sys_ex_facts(2) _ _ _ d])
    show "step_uses_plugin (cs_nstr child_sys_ex) (LTab None [] [(''uses'', LStr ''p'')] False)"
      by (simp add: step_uses_plugin_def lua_getfield_def field_def lua_tostring_def)
    show "ends_as (CA_EXIT 0) True (W_EXITED 0)" by (simp add: ends_as_def proc_child_status_def)
    show "jr_step_uses ?j" by (simp add: job_loaded_def)
    show "\<And>argv m sq fs oth. cs_run_step child_sys_ex = Inr (argv, LTab m sq fs oth) \<Longrightarrow> classify m sq = K_MAP"
      by (auto simp: child_sys_ex_def status_table_def classify_def)
  qed
qed

text \<open>C36. No step succeeds unearned, whatever fails in the child, in its memory or on its pipe: when the exit of a step's
  child makes the event of success, its status was 0, and either the plugin answered a result with status ok
  that is in the pipe whole and its output was flushed, or every argument of its command could be built and the
  message that the command starts is in the pipe whole.\<close>

theorem step_success_is_earned:
  assumes "child_argv cs step child_start = Some (ce, st)" "ends_as ce execs status"
    and "fst (leader_exit_event sy status cx j) = (QWE_LC_EV_LEADER_EXIT_OK, reason)"
  shows "status = W_EXITED 0 \<and> (\<exists>argv r. cs_run_step cs = Inr (argv, r) \<and>
    (lua_istable r \<and> lua_tostring (cs_nstr cs) (lua_getfield r ''status'') = Some ''ok'' \<and> cs_flush cs \<and> whole_message cs r st
     \<or> (\<exists>m sq fs oth args input. argv = LTab m sq fs oth \<and> build_argv cs sq = Inr args \<and> ce = CA_ARGV args input
          \<and> whole_message cs (status_table ''exec'' None) st)))"
proof -
  have s: "status = W_EXITED 0" by (rule ok_needs_zero [OF assms(3)])
  then have ce: "ce = CA_EXIT 0 \<or> (\<exists>args input. ce = CA_ARGV args input)"
    using assms(2) by (cases ce) (auto simp: ends_as_def proc_child_status_def)
  note child = assms(1) [unfolded child_argv_def]
  show ?thesis
  proof (cases "cs_run_step cs")
    case (Inl e)
    then show ?thesis using child ce by (auto simp: Let_def split: if_splits)
  next
    case (Inr p)
    obtain argv r where p: "p = (argv, r)" by (cases p)
    show ?thesis
    proof (cases "lua_istable r")
      case True
      then have r: "child_result cs r child_start = Some (ce, st)" using child Inr p by simp
      then have "ce = CA_EXIT 0" using ce by (auto simp: child_result_def Let_def split: option.splits prod.splits bool.splits)
      with child_result_zero r True Inr p s show ?thesis by blast
    next
      case False
      then obtain m sq fs oth where a: "argv = LTab m sq fs oth" using child Inr p ce by (cases argv) auto
      then have "child_command cs sq r child_start = Some (ce, st)" using child Inr p False by simp
      from child_command_end [OF this] ce a Inr p s show ?thesis by auto
    qed
  qed
qed

theorem step_success_is_earned_witness:
  "whole_message child_sys_ex (status_table ''ok'' None) \<lparr>ch_pipe = ''k'', ch_diag = [], ch_sent = 1\<rparr>"
proof -
  let ?sy = "sys_ex\<lparr>sy_decode := \<lambda>b. Some (Some \<lparr>rt_status = Some ''ok'', rt_reason = None, rt_changed = None, rt_outputs = False\<rparr>),
       sy_read_res := \<lambda>_ w. ([RD_DATA ''k'', RD_AGAIN], w)\<rparr>"
  let ?j = "(job_loaded ''j'' ''local'' [] [\<lparr>sp_id = None, sp_name = None, sp_uses = Some ''p'', sp_coe = False\<rparr>] 0)\<lparr>jr_step_uses := True\<rparr>"
  obtain e0 cx1 j1 where d: "drain_result ?sy cx_ex (?j\<lparr>jr_step_changed := True\<rparr>) = (e0, cx1, j1)"
    by (cases "drain_result ?sy cx_ex (?j\<lparr>jr_step_changed := True\<rparr>)")
  have b: "jr_res_buf j1 = ''k''" "\<not> jr_res_overflow j1"
    using d by (auto simp: drain_result_def job_loaded_def sys_ex_def cx_ex_def RESULT_MAX_def)
  obtain m cx2 j2 where r: "read_step_msg ?sy cx1 j1 = (m, cx2, j2)" by (cases "read_step_msg ?sy cx1 j1")
  have st: "sm_status m = MSG_OK" using r b by (auto simp: read_step_msg_def msg_status_of_def)
  have e: "fst (leader_exit_event ?sy (W_EXITED 0) cx_ex ?j) = (QWE_LC_EV_LEADER_EXIT_OK, Some ''exit-code'')"
    using plugin_event [OF _ d r] st by (simp add: job_loaded_def by_code_def)
  have "ends_as (CA_EXIT 0) True (W_EXITED 0)" by (simp add: ends_as_def proc_child_status_def)
  from step_success_is_earned [OF child_sys_ex_facts(2) this e] show ?thesis
    by (auto simp: child_sys_ex_def)
qed

end
