(* ===== verification/Fs.thy ===== *)
theory Fs
  imports Secrets Cbor
begin

text \<open>
  The file system functions Lua gets (\<open>src/kernel/luafs.c\<close>) and the hand-over of C memory to Lua
  (\<open>src/kernel/luaown.c\<close>), with what \<open>src/kernel/luacbor.c\<close> does with it and the metatables it registers,
  and the wrapper of a revealed secret of \<open>src/kernel/luasecrets.c\<close>. Files are those of the theory of the secrets. The hand-over is modelled with the
  calls of the Lua library that can raise, and with what the collector frees.
\<close>

section \<open>Listing a directory\<close>

text \<open>The loop over the entries that \<open>readdir\<close> gives before its first NULL: \<open>None\<close> when memory runs out.\<close>

fun list_loop :: "(nat \<Rightarrow> bool) \<Rightarrow> cstring list \<Rightarrow> cstring list \<Rightarrow> nat \<Rightarrow> nat \<Rightarrow> cstring list option" where
  "list_loop ok [] names cap k = Some names"
| "list_loop ok (e # es) names cap k =
     (if e = ''.'' \<or> e = ''..'' then list_loop ok es names cap k
      else if length names = cap
      then (if \<not> ok k then None
            else if \<not> ok (Suc k) then None
            else list_loop ok es (names @ [e]) (if cap \<noteq> 0 then cap * 2 else 16) (Suc (Suc k)))
      else if \<not> ok k then None
      else list_loop ok es (names @ [e]) cap (Suc k))"

definition ENOMEM :: nat where "ENOMEM = 12"

text \<open>\<open>dir\<close> is the error of \<open>opendir\<close> or the entries.\<close>

definition fs_list :: "kenv \<Rightarrow> (nat \<Rightarrow> bool) \<Rightarrow> nat + cstring list \<Rightarrow> luav list" where
  "fs_list ke ok dir =
     (case dir of
        Inl e \<Rightarrow> [LNil, LStr (ke_strerror ke e)]
      | Inr es \<Rightarrow>
          (case list_loop ok es [] 0 0 of
             None \<Rightarrow> [LNil, LStr (ke_strerror ke ENOMEM)]
           | Some names \<Rightarrow>
               let sorted_names = (if length names > 1 then sort_key cmp_key names else names)
               in [LTab None (map LStr sorted_names) [] False]))"

definition fs_isdir :: "knode option \<Rightarrow> luav list" where
  "fs_isdir st = [LBool (case st of Some n \<Rightarrow> kn_type n = F_DIR | None \<Rightarrow> False)]"

lemma list_loop_names:
  "list_loop ok es names cap k = Some r \<Longrightarrow> r = names @ filter (\<lambda>e. e \<noteq> ''.'' \<and> e \<noteq> ''..'') es"
  by (induction ok es names cap k rule: list_loop.induct) (auto split: if_splits)

lemma list_loop_memory: "list_loop ok es names cap k = None \<Longrightarrow> \<exists>i. \<not> ok i"
  by (induction ok es names cap k rule: list_loop.induct) (auto split: if_splits)

text \<open>A listing is the entries but the two dots, sorted, or an error for memory that was not there.\<close>

lemma fs_list_sorted:
  "fs_list ke ok (Inr es) = [LTab None (map LStr (sort_key cmp_key (filter (\<lambda>e. e \<noteq> ''.'' \<and> e \<noteq> ''..'') es))) [] False]
   \<or> fs_list ke ok (Inr es) = [LNil, LStr (ke_strerror ke ENOMEM)] \<and> (\<exists>i. \<not> ok i)"
proof (cases "list_loop ok es [] 0 0")
  case None
  then show ?thesis using list_loop_memory by (simp add: fs_list_def)
next
  case (Some names)
  then have n: "names = filter (\<lambda>e. e \<noteq> ''.'' \<and> e \<noteq> ''..'') es" using list_loop_names by fastforce
  have "\<not> length names > 1 \<Longrightarrow> sort_key cmp_key names = names" by (cases names; cases "tl names") auto
  then show ?thesis using Some n by (simp add: fs_list_def Let_def)
qed

section \<open>A private directory\<close>

definition sys_lstat :: "cstring \<Rightarrow> kworld \<Rightarrow> knode option \<times> kworld" where
  "sys_lstat path w =
     (case next_answer w of (a, w1) \<Rightarrow> (if answer_errno a = None then kw_nodes w1 path else None, w1))"

definition private_dir_check :: "kenv \<Rightarrow> cstring \<Rightarrow> cstring \<Rightarrow> kworld \<Rightarrow> luav list \<times> kworld" where
  "private_dir_check ke path what w =
     (case sys_lstat path w of (st, w1) \<Rightarrow>
        (case st of
           None \<Rightarrow> ([LNil, LStr (what @ '' '' @ path @ '' is not a directory'')], w1)
         | Some n \<Rightarrow>
             if kn_type n \<noteq> F_DIR then ([LNil, LStr (what @ '' '' @ path @ '' is not a directory'')], w1)
             else (case qwe_private_check ke n what path 512 of
                     Inl e \<Rightarrow> ([LNil, LStr e], w1)
                   | Inr _ \<Rightarrow> ([LBool True], w1))))"

definition fs_private_dir :: "kenv \<Rightarrow> cstring \<Rightarrow> cstring option \<Rightarrow> kworld \<Rightarrow> luav list \<times> kworld" where
  "fs_private_dir ke path what0 w =
     (let what = (case what0 of Some s \<Rightarrow> s | None \<Rightarrow> ''the directory'')
      in case sys_create ke F_DIR 448 path w of (r, w1) \<Rightarrow>
           (case r of
              Some e \<Rightarrow>
                if e \<noteq> EEXIST
                then ([LNil, LStr (''cannot create '' @ what @ '' '' @ path @ '': '' @ ke_strerror ke e), LStr ''create''], w1)
                else private_dir_check ke path what w1
            | None \<Rightarrow> private_dir_check ke path what w1))"

definition private_dir :: "kenv \<Rightarrow> knode \<Rightarrow> bool" where
  "private_dir ke n \<longleftrightarrow> kn_type n = F_DIR \<and> kn_uid n = ke_euid ke \<and> kn_mode n mod 64 = 0"

lemma private_check_iff: "(\<exists>u. qwe_private_check ke n what path sz = Inr u) \<longleftrightarrow> kn_uid n = ke_euid ke \<and> kn_mode n mod 64 = 0"
  by (simp add: qwe_private_check_def)

lemma private_dir_check_outcome:
  assumes "private_dir_check ke path what w = (rs, w')"
  shows "kw_nodes w' = kw_nodes w \<and> (rs = [LBool True] \<or> (\<exists>e. rs = [LNil, LStr e]))
    \<and> (rs = [LBool True] \<longrightarrow> (\<exists>n. kw_nodes w path = Some n \<and> private_dir ke n))
    \<and> (kw_answers w = [] \<and> (\<exists>n. kw_nodes w path = Some n \<and> private_dir ke n) \<longrightarrow> rs = [LBool True])"
proof -
  obtain st w1 where st: "sys_lstat path w = (st, w1)" by (cases "sys_lstat path w")
  obtain a w0 where a: "next_answer w = (a, w0)" by (cases "next_answer w")
  have n: "kw_nodes w0 = kw_nodes w" "kw_answers w = [] \<Longrightarrow> answer_errno a = None"
    using a by (cases "kw_answers w"; force simp: next_answer_def answer_errno_def)+
  have l: "st = (if answer_errno a = None then kw_nodes w0 path else None)" "w1 = w0" using st a by (simp_all add: sys_lstat_def)
  have w: "kw_nodes w1 = kw_nodes w" "st \<noteq> None \<Longrightarrow> st = kw_nodes w path" "kw_answers w = [] \<Longrightarrow> st = kw_nodes w path"
    using l n by (auto split: if_splits)
  show ?thesis
  proof (cases st)
    case None
    then have "rs = [LNil, LStr (what @ '' '' @ path @ '' is not a directory'')]" "w' = w1" using assms st by (simp_all add: private_dir_check_def)
    then show ?thesis using None w(1,3) by simp
  next
    case (Some n)
    then have n: "kw_nodes w path = Some n" using w(2) by simp
    have "rs = (if kn_type n \<noteq> F_DIR then [LNil, LStr (what @ '' '' @ path @ '' is not a directory'')]
        else case qwe_private_check ke n what path 512 of Inl e \<Rightarrow> [LNil, LStr e] | Inr _ \<Rightarrow> [LBool True])" "w' = w1"
      using assms st Some by (auto simp: private_dir_check_def split: if_splits sum.splits)
    then show ?thesis using n w(1) private_check_iff [of ke n what path 512] unfolding private_dir_def
      by (cases "qwe_private_check ke n what path 512") auto
  qed
qed

text \<open>The directory is there afterwards and private, or there is a reason; nothing that was there changes; a
  directory that is missing is made, and one that is private already is taken.\<close>

lemma fs_private_dir_outcome:
  assumes "fs_private_dir ke path what w = (rs, w')"
  shows "keeps w w' \<and> (rs = [LBool True] \<or> (\<exists>e. rs = [LNil, LStr e] \<or> rs = [LNil, LStr e, LStr ''create'']))
    \<and> (rs = [LBool True] \<longrightarrow> (\<exists>n. kw_nodes w' path = Some n \<and> private_dir ke n))
    \<and> (kw_answers w = [] \<and> (\<forall>n. kw_nodes w path = Some n \<longrightarrow> private_dir ke n) \<longrightarrow> rs = [LBool True])"
proof -
  let ?what = "case what of Some s \<Rightarrow> s | None \<Rightarrow> ''the directory''"
  obtain r w1 where c: "sys_create ke F_DIR 448 path w = (r, w1)" by (cases "sys_create ke F_DIR 448 path w")
  have k: "keeps w w1" and new: "r = None \<Longrightarrow> \<exists>n. kw_nodes w1 path = Some n \<and> private_dir ke n"
    using sys_create_nodes [OF c] created_mode_private(2) [of ke] by (cases r; force simp: keeps_def private_dir_def)+
  have quiet: "kw_answers w1 = [] \<and> (r = None \<or> r = Some EEXIST \<and> kw_nodes w1 path = kw_nodes w path \<and> kw_nodes w path \<noteq> None)" if "kw_answers w = []"
    using c that by (auto simp: sys_create_def next_answer_def answer_errno_def split: option.splits)
  show ?thesis
  proof (cases "r = None \<or> r = Some EEXIST")
    case True
    then have p: "private_dir_check ke path ?what w1 = (rs, w')" using assms c by (auto simp: fs_private_dir_def Let_def)
    note o = private_dir_check_outcome [OF p]
    have "keeps w w'" using k o by (simp add: keeps_def)
    moreover have "rs = [LBool True]" if "kw_answers w = []" "\<forall>n. kw_nodes w path = Some n \<longrightarrow> private_dir ke n"
      using quiet [OF that(1)] that(2) new o by auto
    ultimately show ?thesis using o by auto
  next
    case False
    then obtain e where e: "r = Some e" "e \<noteq> EEXIST" by auto
    then have "rs = [LNil, LStr (''cannot create '' @ ?what @ '' '' @ path @ '': '' @ ke_strerror ke e), LStr ''create'']" "w' = w1"
      using assms c by (simp_all add: fs_private_dir_def Let_def)
    then show ?thesis using k quiet False by auto
  qed
qed

section \<open>Handing memory to Lua\<close>

text \<open>
  A wrapper is a userdata: the block it holds, if any, and whether its metatable is set. The metatable of the
  registry, once it is there, has its \<open>__gc\<close> or not. \<open>ow_freed\<close> is the list of the blocks freed. A call of
  the Lua library that allocates can raise: \<open>rz i\<close> tells so of the \<open>i\<close>th of a function; the raise leaves the
  function, and the wrapper stays with Lua.
\<close>

text \<open>What a wrapper holds: one block, or an array of strings with its elements.\<close>

datatype held = H_BLOCK nat | H_STRV "nat list" nat

record owner =
  ow_meta :: "bool option"
  ow_objs :: "(held option \<times> bool) list"
  ow_freed :: "held list"

text \<open>The result is the index of the wrapper, or \<open>None\<close> when Lua raised.\<close>

definition own_block :: "(nat \<Rightarrow> bool) \<Rightarrow> held option \<Rightarrow> owner \<Rightarrow> nat option \<times> owner" where
  "own_block rz p ow =
     (if rz 0 then (None, ow)
      else let i = length (ow_objs ow);
               ow1 = ow\<lparr>ow_objs := ow_objs ow @ [(p, False)]\<rparr>;
               done = (\<lambda>o1. (Some i, o1\<lparr>ow_objs := (ow_objs o1)[i := (p, True)]\<rparr>))
           in if ow_meta ow1 \<noteq> None then done ow1
              else if rz 1 then (None, ow1)
              else let ow2 = ow1\<lparr>ow_meta := Some False\<rparr>
                   in if rz 2 \<or> rz 3 then (None, ow2)
                      else done (ow2\<lparr>ow_meta := Some True\<rparr>))"

definition qwe_lua_own :: "(nat \<Rightarrow> bool) \<Rightarrow> held option \<Rightarrow> owner \<Rightarrow> nat option \<times> owner" where
  "qwe_lua_own rz p ow = own_block rz p ow"

definition qwe_lua_own_block :: "(nat \<Rightarrow> bool) \<Rightarrow> held option \<Rightarrow> owner \<Rightarrow> nat option \<times> owner" where
  "qwe_lua_own_block rz p ow = own_block rz p ow"

text \<open>The collector, at the latest when the state is closed: every wrapper whose metatable has a \<open>__gc\<close> frees its block.\<close>

fun gc_frees :: "bool \<Rightarrow> (held option \<times> bool) list \<Rightarrow> held list" where
  "gc_frees live [] = []"
| "gc_frees live ((Some b, m) # objs) = (if m \<and> live then b # gc_frees live objs else gc_frees live objs)"
| "gc_frees live ((None, m) # objs) = gc_frees live objs"

definition owned_gc :: "owner \<Rightarrow> owner" where
  "owned_gc ow =
     ow\<lparr>ow_objs := map (\<lambda>(p, m). if m \<and> ow_meta ow = Some True then (None, m) else (p, m)) (ow_objs ow),
        ow_freed := ow_freed ow @ gc_frees (ow_meta ow = Some True) (ow_objs ow)\<rparr>"

lemma gc_frees_append [simp]: "gc_frees live (xs @ ys) = gc_frees live xs @ gc_frees live ys"
  by (induction live xs rule: gc_frees.induct) simp_all

lemma gc_frees_dead [simp]: "gc_frees False xs = []"
  by (induction False xs rule: gc_frees.induct) simp_all

lemma gc_frees_held: "Some b \<notin> fst ` set objs \<Longrightarrow> b \<notin> set (gc_frees live objs)"
  by (induction live objs rule: gc_frees.induct) auto

lemma freed_gc [simp]: "ow_freed (owned_gc ow) = ow_freed ow @ gc_frees (ow_meta ow = Some True) (ow_objs ow)"
  by (cases ow) (simp add: owned_gc_def)

definition qwe_lua_own_take :: "nat \<Rightarrow> owner \<Rightarrow> held option \<times> owner" where
  "qwe_lua_own_take i ow = (fst (ow_objs ow ! i), ow\<lparr>ow_objs := (ow_objs ow)[i := (None, snd (ow_objs ow ! i))]\<rparr>)"

text \<open>The push of the string, which can raise; the wrapper is dropped from the stack but still holds the block.\<close>

definition qwe_lua_own_finish :: "(nat \<Rightarrow> bool) \<Rightarrow> (held \<Rightarrow> byte list) \<Rightarrow> nat \<Rightarrow> nat \<Rightarrow> owner \<Rightarrow> luav option \<times> owner" where
  "qwe_lua_own_finish rz mem i len ow =
     (if rz 4 then (None, ow)
      else (Some (LStr (take len (case fst (ow_objs ow ! i) of Some b \<Rightarrow> mem b | None \<Rightarrow> []))), ow))"

definition qwe_lua_own_pushlstring ::
    "(nat \<Rightarrow> bool) \<Rightarrow> (held \<Rightarrow> byte list) \<Rightarrow> held option \<Rightarrow> nat \<Rightarrow> owner \<Rightarrow> luav option \<times> owner" where
  "qwe_lua_own_pushlstring rz mem p len ow =
     (case qwe_lua_own rz p ow of
        (None, ow1) \<Rightarrow> (None, ow1)
      | (Some i, ow1) \<Rightarrow> qwe_lua_own_finish rz mem i len ow1)"

text \<open>
  An array of strings: the wrapper holds the strings and the array, and frees the strings one by one and the array
  last. It is made with the same calls as the other wrapper, and can be released at once. Its metatable is one of its
  own: an \<open>owner\<close> is the state of one of the two.
\<close>

fun free_held :: "held \<Rightarrow> nat list" where
  "free_held (H_BLOCK b) = [b]"
| "free_held (H_STRV bs a) = bs @ [a]"

definition qwe_lua_own_strv :: "(nat \<Rightarrow> bool) \<Rightarrow> held option \<Rightarrow> owner \<Rightarrow> nat option \<times> owner" where
  "qwe_lua_own_strv rz v ow = own_block rz v ow"

definition qwe_lua_own_strv_release :: "nat \<Rightarrow> owner \<Rightarrow> owner" where
  "qwe_lua_own_strv_release i ow =
     ow\<lparr>ow_objs := (ow_objs ow)[i := (None, snd (ow_objs ow ! i))],
        ow_freed := ow_freed ow @ (case fst (ow_objs ow ! i) of None \<Rightarrow> [] | Some v \<Rightarrow> [v])\<rparr>"

text \<open>The registry is sound: its metatable, if it is there, has its \<open>__gc\<close>.\<close>

definition meta_sound :: "owner \<Rightarrow> bool" where
  "meta_sound ow \<longleftrightarrow> ow_meta ow \<noteq> Some False"

text \<open>Once the transfer is through, the block is freed exactly once, whether the push raises or not.\<close>

lemma pushlstring_frees_once:
  assumes "qwe_lua_own_pushlstring rz mem (Some b) len ow = (r, ow')" "meta_sound ow" "\<not> rz 0" "\<not> rz 1" "\<not> rz 2" "\<not> rz 3"
    and "b \<notin> set (ow_freed ow)" "Some b \<notin> fst ` set (ow_objs ow)"
  shows "count_list (ow_freed (owned_gc ow')) b = 1 \<and> r = (if rz 4 then None else Some (LStr (take len (mem b)))) \<and> meta_sound ow'"
proof -
  have n: "count_list (ow_freed ow) b = 0" using assms(7) by (simp add: count_list_0_iff)
  have o: "ow_meta ow' = Some True" "ow_objs ow' = ow_objs ow @ [(Some b, True)]" "ow_freed ow' = ow_freed ow"
      "r = (if rz 4 then None else Some (LStr (take len (mem b))))"
    using assms(1-6) by (auto simp: qwe_lua_own_pushlstring_def qwe_lua_own_def own_block_def qwe_lua_own_finish_def Let_def meta_sound_def
        list_update_append split: if_splits option.splits)
  then show ?thesis using n gc_frees_held [OF assms(8)] by (simp add: count_list_0_iff meta_sound_def)
qed

text \<open>Before that, a raise of \<open>lua_newuserdata\<close> or of the making of the metatable leaves the block to nobody; and a
  metatable that is left without its \<open>__gc\<close> is taken as it is from then on, so that no later block is freed.\<close>

lemma own_block_can_lose:
  "rz 0 \<or> ow_meta ow = None \<and> (rz 1 \<or> rz 2 \<or> rz 3) \<Longrightarrow> fst (own_block rz (Some b) ow) = None
     \<and> (b \<notin> set (ow_freed ow) \<and> Some b \<notin> fst ` set (ow_objs ow) \<longrightarrow> b \<notin> set (ow_freed (owned_gc (snd (own_block rz (Some b) ow)))))"
  by (auto simp: own_block_def Let_def gc_frees_held)

lemma own_block_half_made:
  assumes "ow_meta ow = Some False" "qwe_lua_own_pushlstring rz mem (Some b) len ow = (r, ow')"
  shows "ow_freed (owned_gc ow') = ow_freed ow \<and> ow_meta ow' = Some False"
proof -
  have "ow_meta ow' = Some False" "ow_freed ow' = ow_freed ow"
    using assms by (auto simp: qwe_lua_own_pushlstring_def qwe_lua_own_def own_block_def qwe_lua_own_finish_def Let_def split: if_splits option.splits)
  then show ?thesis by simp
qed

text \<open>Released at once, the strings and their array are freed once, and the collector finds nothing left.\<close>

lemma strv_release_once:
  assumes "qwe_lua_own_strv rz (Some v) ow = (Some i, ow1)" "meta_sound ow" "v \<notin> set (ow_freed ow)" "Some v \<notin> fst ` set (ow_objs ow)"
  shows "count_list (ow_freed (owned_gc (qwe_lua_own_strv_release i ow1))) v = 1"
proof -
  have o: "ow_objs ow1 = ow_objs ow @ [(Some v, True)]" "i = length (ow_objs ow)" "ow_freed ow1 = ow_freed ow"
    using assms(1,2) by (auto simp: qwe_lua_own_strv_def own_block_def Let_def meta_sound_def list_update_append split: if_splits)
  have f: "count_list (ow_freed ow) v = 0" using assms(3) by (simp add: count_list_0_iff)
  have r: "ow_freed (qwe_lua_own_strv_release i ow1) = ow_freed ow @ [v]" "ow_objs (qwe_lua_own_strv_release i ow1) = ow_objs ow @ [(None, True)]"
    using o by (simp_all add: qwe_lua_own_strv_release_def list_update_append)
  show ?thesis using r f gc_frees_held [OF assms(4)] by (simp add: count_list_0_iff)
qed

section \<open>A revealed secret in memory\<close>

text \<open>The memory, by blocks. \<open>sodium_memzero\<close> overwrites the first \<open>n\<close> bytes of one.\<close>

definition sodium_memzero :: "nat \<Rightarrow> nat \<Rightarrow> (nat \<Rightarrow> byte list) \<Rightarrow> nat \<Rightarrow> byte list" where
  "sodium_memzero b n mem = mem(b := replicate (min n (length (mem b))) (char_of (0 :: nat)) @ drop n (mem b))"

text \<open>
  The end of \<open>secrets_reveal\<close>: the block of the plain text, which is one byte longer than the text, goes to a wrapper of
  a third kind, the string is pushed, and the block is wiped and freed at once. The wrapper is made by the same calls as the others.
\<close>

definition reveal_push ::
    "(nat \<Rightarrow> bool) \<Rightarrow> nat \<Rightarrow> nat \<Rightarrow> (nat \<Rightarrow> byte list) \<Rightarrow> owner \<Rightarrow> luav option \<times> (nat \<Rightarrow> byte list) \<times> owner" where
  "reveal_push rz b n mem ow =
     (case own_block rz (Some (H_BLOCK b)) ow of
        (None, ow1) \<Rightarrow> (None, mem, ow1)
      | (Some i, ow1) \<Rightarrow>
          if rz 4 then (None, mem, ow1)
          else (Some (LStr (take n (mem b))), sodium_memzero b (n + 1) mem,
                ow1\<lparr>ow_freed := ow_freed ow1 @ [H_BLOCK b], ow_objs := (ow_objs ow1)[i := (None, True)]\<rparr>))"

text \<open>The collector wipes what it frees; \<open>len\<close> is the length each wrapper has of its block.\<close>

fun wipe_all :: "(nat \<Rightarrow> nat) \<Rightarrow> held list \<Rightarrow> (nat \<Rightarrow> byte list) \<Rightarrow> nat \<Rightarrow> byte list" where
  "wipe_all len [] mem = mem"
| "wipe_all len (H_BLOCK b # hs) mem = wipe_all len hs (sodium_memzero b (len b) mem)"
| "wipe_all len (H_STRV bs a # hs) mem = wipe_all len hs mem"

definition owned_secret_gc :: "(nat \<Rightarrow> nat) \<Rightarrow> (nat \<Rightarrow> byte list) \<Rightarrow> owner \<Rightarrow> (nat \<Rightarrow> byte list) \<times> owner" where
  "owned_secret_gc len mem ow = (wipe_all len (gc_frees (ow_meta ow = Some True) (ow_objs ow)) mem, owned_gc ow)"

lemma wipe_all_append: "wipe_all len (hs @ hs') mem = wipe_all len hs' (wipe_all len hs mem)"
  by (induction len hs mem rule: wipe_all.induct) simp_all

lemma wipe_all_other: "H_BLOCK b \<notin> set hs \<Longrightarrow> wipe_all len hs mem b = mem b"
  by (induction len hs mem rule: wipe_all.induct) (auto simp: sodium_memzero_def)

lemma own_block_made:
  assumes "own_block rz (Some b) ow = (Some i, ow')" "meta_sound ow"
  shows "i = length (ow_objs ow)" "ow_objs ow' = ow_objs ow @ [(Some b, True)]" "ow_freed ow' = ow_freed ow" "ow_meta ow' = Some True"
  using assms by (auto simp: own_block_def Let_def meta_sound_def list_update_append split: if_splits)

text \<open>Once the wrapper is made, the plain text is wiped and its block freed once, whether the push raises or not; when the wrapper cannot be
  made, the plain text stays in memory as it is.\<close>

lemma reveal_wipes:
  assumes "reveal_push rz b n mem ow = (r, mem1, ow1)" "owned_secret_gc len mem1 ow1 = (mem2, ow2)" "meta_sound ow"
    and "H_BLOCK b \<notin> set (ow_freed ow)" "Some (H_BLOCK b) \<notin> fst ` set (ow_objs ow)" "length (mem b) = n + 1" "len b = n + 1"
  shows "(fst (own_block rz (Some (H_BLOCK b)) ow) \<noteq> None \<longrightarrow> mem2 b = replicate (n + 1) (char_of (0 :: nat))
        \<and> count_list (ow_freed ow2) (H_BLOCK b) = 1 \<and> r = (if rz 4 then None else Some (LStr (take n (mem b)))))
    \<and> (fst (own_block rz (Some (H_BLOCK b)) ow) = None \<longrightarrow> r = None \<and> mem2 b = mem b \<and> H_BLOCK b \<notin> set (ow_freed ow2))"
proof -
  obtain x o1 where x: "own_block rz (Some (H_BLOCK b)) ow = (x, o1)" by (cases "own_block rz (Some (H_BLOCK b)) ow")
  have f: "count_list (ow_freed ow) (H_BLOCK b) = 0" using assms(4) by (simp add: count_list_0_iff)
  have g: "H_BLOCK b \<notin> set (gc_frees live (ow_objs ow))" for live by (rule gc_frees_held [OF assms(5)])
  show ?thesis
  proof (cases x)
    case None
    then have e: "r = None" "mem1 = mem" "ow1 = o1" using x assms(1) by (simp_all add: reveal_push_def)
    have o: "ow_freed o1 = ow_freed ow" "H_BLOCK b \<notin> set (gc_frees (ow_meta o1 = Some True) (ow_objs o1))"
      using x None g by (auto simp: own_block_def Let_def split: if_splits)
    then show ?thesis using x None e assms(2,4) wipe_all_other [of b] by (auto simp: owned_secret_gc_def)
  next
    case (Some i)
    note m = own_block_made [OF x [unfolded Some] assms(3)]
    have z: "sodium_memzero b (n + 1) mem' b = replicate (n + 1) (char_of (0 :: nat))" if "mem' b = mem b" for mem'
      using assms(6) that by (simp add: sodium_memzero_def)
    show ?thesis
    proof (cases "rz 4")
      case True
      then have "r = None" "mem1 = mem" "ow1 = o1" using x Some assms(1) by (simp_all add: reveal_push_def)
      then show ?thesis using x Some True m f g assms(2,7) z wipe_all_other [of b]
        by (auto simp: owned_secret_gc_def wipe_all_append count_list_0_iff)
    next
      case False
      then have e: "r = Some (LStr (take n (mem b)))" "mem1 = sodium_memzero b (n + 1) mem" "ow_freed ow1 = ow_freed ow @ [H_BLOCK b]"
          "ow_objs ow1 = ow_objs ow @ [(None, True)]"
        using x Some assms(1) m by (auto simp: reveal_push_def list_update_append)
      then show ?thesis using x Some False f g assms(2) z [of mem] wipe_all_other [of b]
        by (auto simp: owned_secret_gc_def count_list_0_iff)
    qed
  qed
qed

section \<open>Strings of a document, and the metatables\<close>

text \<open>\<open>dup\<close> is the string that tinycbor allocates, as the block it is in and its length, or its error.\<close>

definition convert_string ::
    "(nat \<Rightarrow> bool) \<Rightarrow> (held \<Rightarrow> byte list) \<Rightarrow> cstring + nat \<times> nat \<Rightarrow> owner \<Rightarrow> (cstring option \<times> luav) option \<times> owner" where
  "convert_string rz mem dup ow =
     (case dup of
        Inl e \<Rightarrow> (Some (Some e, LNil), ow)
      | Inr (b, n) \<Rightarrow>
          (case qwe_lua_own_pushlstring rz mem (Some (H_BLOCK b)) n ow of
             (None, ow1) \<Rightarrow> (None, ow1)
           | (Some v, ow1) \<Rightarrow> (Some (None, v), ow1)))"

lemma convert_string_hands_over:
  assumes "convert_string rz mem (Inr (b, n)) ow = (r, ow')" "meta_sound ow" "\<not> rz 0" "\<not> rz 1" "\<not> rz 2" "\<not> rz 3"
    and "H_BLOCK b \<notin> set (ow_freed ow)" "Some (H_BLOCK b) \<notin> fst ` set (ow_objs ow)"
  shows "count_list (ow_freed (owned_gc ow')) (H_BLOCK b) = 1 \<and> r = (if rz 4 then None else Some (None, LStr (take n (mem (H_BLOCK b)))))"
proof -
  obtain x ow1 where p: "qwe_lua_own_pushlstring rz mem (Some (H_BLOCK b)) n ow = (x, ow1)" by (metis prod.collapse)
  from pushlstring_frees_once [OF p assms(2-8)] p assms(1) show ?thesis by (auto simp: convert_string_def split: if_splits)
qed

text \<open>What a metatable says: its name, what \<open>tostring\<close> gives, and what \<open>getmetatable\<close> gives in its place.\<close>

datatype mt_field = MF_NAME cstring | MF_TOSTRING cstring | MF_METATABLE cstring

type_synonym registry = "mt \<Rightarrow> mt_field list option"

definition secret_tostring :: cstring where "secret_tostring = ''***''"

text \<open>\<open>rz k\<close> tells whether the \<open>k\<close>th call raises; the result is \<open>False\<close> then.\<close>

fun set_fields :: "(nat \<Rightarrow> bool) \<Rightarrow> nat \<Rightarrow> mt \<Rightarrow> mt_field list \<Rightarrow> registry \<Rightarrow> bool \<times> registry" where
  "set_fields rz k m [] reg = (True, reg)"
| "set_fields rz k m (f # fs) reg = (if rz k then (False, reg) else set_fields rz (Suc k) m fs (reg(m \<mapsto> the (reg m) @ [f])))"

definition new_metatable :: "(nat \<Rightarrow> bool) \<Rightarrow> nat \<Rightarrow> mt \<Rightarrow> mt_field list \<Rightarrow> registry \<Rightarrow> bool \<times> registry" where
  "new_metatable rz k m fs reg =
     (if reg m \<noteq> None then (True, reg) else if rz k then (False, reg) else set_fields rz (Suc k) m fs (reg(m \<mapsto> [])))"

definition ensure_metatables :: "(nat \<Rightarrow> bool) \<Rightarrow> registry \<Rightarrow> bool \<times> registry" where
  "ensure_metatables rz reg =
     (case new_metatable rz 0 MT_ARRAY [MF_NAME ''array''] reg of
        (False, r1) \<Rightarrow> (False, r1)
      | (True, r1) \<Rightarrow>
          (case new_metatable rz 2 MT_MAP [MF_NAME ''map''] r1 of
             (False, r2) \<Rightarrow> (False, r2)
           | (True, r2) \<Rightarrow> new_metatable rz 4 MT_SECRET [MF_TOSTRING secret_tostring, MF_METATABLE ''secret''] r2))"

text \<open>Lua's \<open>tostring\<close> of a table, \<open>addr\<close> being the text it makes of the address, and whether \<open>getmetatable\<close> reaches the metatable.\<close>

definition shown_as :: "registry \<Rightarrow> cstring \<Rightarrow> mt \<Rightarrow> cstring" where
  "shown_as reg addr m = (case reg m of None \<Rightarrow> addr | Some fs \<Rightarrow> (case [s. MF_TOSTRING s \<leftarrow> fs] of [] \<Rightarrow> addr | s # _ \<Rightarrow> s))"

definition is_locked :: "registry \<Rightarrow> mt \<Rightarrow> bool" where
  "is_locked reg m \<longleftrightarrow> (case reg m of None \<Rightarrow> False | Some fs \<Rightarrow> list_ex (\<lambda>f. case f of MF_METATABLE _ \<Rightarrow> True | _ \<Rightarrow> False) fs)"

definition metatables_full :: "registry \<Rightarrow> bool" where
  "metatables_full reg \<longleftrightarrow> reg MT_ARRAY = Some [MF_NAME ''array''] \<and> reg MT_MAP = Some [MF_NAME ''map'']
     \<and> reg MT_SECRET = Some [MF_TOSTRING secret_tostring, MF_METATABLE ''secret'']"

lemma new_metatable_made:
  assumes "reg m = None \<or> reg m = Some fs" "\<forall>k. \<not> rz k"
  shows "new_metatable rz k m fs reg = (True, reg(m \<mapsto> fs))"
proof -
  have "set_fields rz k m fs (r(m \<mapsto> gs)) = (True, r(m \<mapsto> gs @ fs))" for k r gs
    using assms(2) by (induction fs arbitrary: k gs) simp_all
  then show ?thesis using assms by (auto simp: new_metatable_def fun_upd_idem_iff)
qed

text \<open>Made in a fresh state, the metatables are whole, a secret shows as stars and its metatable is locked; making them again
  changes nothing. A raise in between leaves the metatable of the secrets as far as it came, and it stays so.\<close>

lemma ensure_metatables_full:
  assumes "\<forall>k. \<not> rz k" "reg = Map.empty \<or> metatables_full reg"
  shows "fst (ensure_metatables rz reg) \<and> metatables_full (snd (ensure_metatables rz reg))"
proof -
  have a: "reg MT_ARRAY = None \<or> reg MT_ARRAY = Some [MF_NAME ''array'']" "reg MT_MAP = None \<or> reg MT_MAP = Some [MF_NAME ''map'']"
      "reg MT_SECRET = None \<or> reg MT_SECRET = Some [MF_TOSTRING secret_tostring, MF_METATABLE ''secret'']"
    using assms(2) by (auto simp: metatables_full_def)
  show ?thesis unfolding ensure_metatables_def
    using a assms(1) by (simp add: new_metatable_made) (simp add: metatables_full_def)
qed

lemma metatables_full_masks: "metatables_full reg \<Longrightarrow> shown_as reg addr MT_SECRET = ''***'' \<and> is_locked reg MT_SECRET"
  by (simp add: metatables_full_def shown_as_def is_locked_def secret_tostring_def)

lemma metatables_full_again: "metatables_full reg \<Longrightarrow> ensure_metatables rz reg = (True, reg)"
  by (simp add: metatables_full_def ensure_metatables_def new_metatable_def)

lemma ensure_metatables_half_made:
  assumes "reg MT_ARRAY \<noteq> None" "reg MT_MAP \<noteq> None" "reg MT_SECRET = None" "\<not> rz 4" "rz 5"
  shows "\<exists>reg'. ensure_metatables rz reg = (False, reg') \<and> (\<forall>rz2. ensure_metatables rz2 reg' = (True, reg')) \<and> \<not> is_locked reg' MT_SECRET"
  using assms by (auto simp: ensure_metatables_def new_metatable_def is_locked_def)

section \<open>Properties\<close>

text \<open>C39. Memory that is handed to Lua. When none of the calls before the metatable of the wrapper is set raises,
  the block is freed exactly once by the collector, whether or not the push of the string raises, and the string
  is what the block holds. But when one of those calls raises, the block is lost: nobody frees it; and a raise
  between the making of the metatable and its \<open>__gc\<close> makes every later block of the state one that is never freed.\<close>

theorem lua_handover:
  assumes "meta_sound ow" "b \<notin> set (ow_freed ow)" "Some b \<notin> fst ` set (ow_objs ow)"
    and "qwe_lua_own_pushlstring rz mem (Some b) len ow = (r, ow')"
  shows "(\<not> rz 0 \<and> \<not> rz 1 \<and> \<not> rz 2 \<and> \<not> rz 3 \<longrightarrow>
      count_list (ow_freed (owned_gc ow')) b = 1 \<and> r = (if rz 4 then None else Some (LStr (take len (mem b)))) \<and> meta_sound ow')
    \<and> (rz 0 \<or> ow_meta ow = None \<and> (rz 1 \<or> rz 2 \<or> rz 3) \<longrightarrow> r = None \<and> b \<notin> set (ow_freed (owned_gc ow')))
    \<and> (ow_meta ow = None \<and> \<not> rz 0 \<and> \<not> rz 1 \<and> (rz 2 \<or> rz 3) \<longrightarrow>
        (\<forall>rz2 c len2. ow_freed (owned_gc (snd (qwe_lua_own_pushlstring rz2 mem (Some c) len2 ow'))) = ow_freed ow'))"
proof (intro conjI impI allI)
  assume "\<not> rz 0 \<and> \<not> rz 1 \<and> \<not> rz 2 \<and> \<not> rz 3"
  then show "count_list (ow_freed (owned_gc ow')) b = 1" "r = (if rz 4 then None else Some (LStr (take len (mem b))))" "meta_sound ow'"
    using pushlstring_frees_once [OF assms(4,1) _ _ _ _ assms(2,3)] by blast+
next
  assume lose: "rz 0 \<or> ow_meta ow = None \<and> (rz 1 \<or> rz 2 \<or> rz 3)"
  note l = own_block_can_lose [OF this, of b]
  then have "r = None" "ow' = snd (own_block rz (Some b) ow)"
    using assms(4) by (cases "own_block rz (Some b) ow"; simp add: qwe_lua_own_pushlstring_def qwe_lua_own_def)+
  then show "r = None" "b \<notin> set (ow_freed (owned_gc ow'))" using l assms(2,3) by simp_all
next
  fix rz2 c len2
  assume half: "ow_meta ow = None \<and> \<not> rz 0 \<and> \<not> rz 1 \<and> (rz 2 \<or> rz 3)"
  then have "ow_meta ow' = Some False"
    using assms(4) by (auto simp: qwe_lua_own_pushlstring_def qwe_lua_own_def own_block_def Let_def)
  from own_block_half_made [OF this, of rz2 mem c len2] show
    "ow_freed (owned_gc (snd (qwe_lua_own_pushlstring rz2 mem (Some c) len2 ow'))) = ow_freed ow'"
    by (metis prod.collapse)
qed

theorem lua_handover_witness:
  "case qwe_lua_own_pushlstring (\<lambda>i. i = 4) (\<lambda>_. ''abc'') (Some (H_BLOCK 7)) 2 \<lparr>ow_meta = None, ow_objs = [], ow_freed = []\<rparr> of
     (r, ow') \<Rightarrow> r = None \<and> count_list (ow_freed (owned_gc ow')) (H_BLOCK 7) = 1"
proof -
  let ?ow = "\<lparr>ow_meta = None, ow_objs = [], ow_freed = []\<rparr>"
  obtain r ow' where p: "qwe_lua_own_pushlstring (\<lambda>i. i = 4) (\<lambda>_. ''abc'') (Some (H_BLOCK 7)) 2 ?ow = (r, ow')"
    by (metis prod.collapse)
  have "meta_sound ?ow" "H_BLOCK 7 \<notin> set (ow_freed ?ow)" "Some (H_BLOCK 7) \<notin> fst ` set (ow_objs ?ow)" by (simp_all add: meta_sound_def)
  from lua_handover [OF this p] p show ?thesis by simp
qed

end
