(* ===== verification/Embed.thy ===== *)
theory Embed
  imports Codecs "HOL-Library.AList"
begin

text \<open>
  The modules built into the program: \<open>tools/bcembed.c\<close>, which compiles Lua files and writes them as a
  table in C, and \<open>src/kernel/luavm.c\<close>, which makes the Lua state that finds them. The Lua compiler and the
  files are parameters.
\<close>

section \<open>Reading a source\<close>

definition BCEMBED_MAX_SOURCE :: nat where "BCEMBED_MAX_SOURCE = 1024 * 1024"

definition EIO :: nat where "EIO = 5"
definition EFBIG :: nat where "EFBIG = 27"

text \<open>
  What \<open>fread\<close> can give of a stream: its bytes, and the error that stops it behind them, if one does (0 when
  \<open>errno\<close> was not set). At the head of the loop the buffer is full: \<open>n\<close> bytes of capacity \<open>n\<close>. The result is
  what was read; \<open>None\<close> is the abort when \<open>mem\<close> refuses a size.
\<close>

function slurp_loop :: "(nat \<Rightarrow> bool) \<Rightarrow> byte list \<Rightarrow> nat \<Rightarrow> nat option" where
  "slurp_loop mem data n =
     (let cap = min (if n \<noteq> 0 then 2 * n else 4096) (BCEMBED_MAX_SOURCE + 1)
      in if \<not> mem (cap + 1) then None
         else let want = cap - n; got = min want (length data - n)
              in if got < want \<or> n + got > BCEMBED_MAX_SOURCE then Some (n + got)
                 else slurp_loop mem data (n + got))"
  by pat_completeness auto
termination by (relation "measure (\<lambda>(mem, data, n). BCEMBED_MAX_SOURCE + 1 - n)") (auto simp: BCEMBED_MAX_SOURCE_def)

declare slurp_loop.simps [simp del]

definition slurp :: "(nat \<Rightarrow> bool) \<Rightarrow> nat + byte list \<times> nat option \<Rightarrow> (nat + byte list) option" where
  "slurp mem file =
     (case file of
        Inl e \<Rightarrow> Some (Inl e)
      | Inr (data, failed) \<Rightarrow>
          (case slurp_loop mem data 0 of
             None \<Rightarrow> None
           | Some n \<Rightarrow>
               let err = (case failed of Some e \<Rightarrow> if n = length data \<and> n \<le> BCEMBED_MAX_SOURCE then (if e \<noteq> 0 then e else EIO) else 0 | None \<Rightarrow> 0)
               in if err \<noteq> 0 then Some (Inl err)
                  else if n > BCEMBED_MAX_SOURCE then Some (Inl EFBIG)
                  else Some (Inr (take n data))))"

lemma slurp_loop_all:
  assumes "slurp_loop mem data n = Some m" "n \<le> length data" "n \<le> BCEMBED_MAX_SOURCE"
  shows "m = min (length data) (BCEMBED_MAX_SOURCE + 1)"
  using assms
proof (induction mem data n rule: slurp_loop.induct)
  case (1 mem data n)
  let ?cap = "min (if n \<noteq> 0 then 2 * n else 4096) (BCEMBED_MAX_SOURCE + 1)"
  let ?got = "min (?cap - n) (length data - n)"
  have cap: "n < ?cap" "?cap \<le> BCEMBED_MAX_SOURCE + 1" using "1.prems"(3) by (auto simp: BCEMBED_MAX_SOURCE_def)
  have mem: "mem (?cap + 1)" using "1.prems"(1) by (subst (asm) slurp_loop.simps) (auto simp: Let_def split: if_splits)
  show ?case
  proof (cases "?got < ?cap - n \<or> n + ?got > BCEMBED_MAX_SOURCE")
    case True
    then have "m = n + ?got" using "1.prems"(1) mem by (subst (asm) slurp_loop.simps) (simp add: Let_def split: if_splits)
    then show ?thesis using True cap "1.prems"(2) by linarith
  next
    case False
    then have "slurp_loop mem data (n + ?got) = Some m" using "1.prems"(1) mem by (subst (asm) slurp_loop.simps) (simp add: Let_def split: if_splits)
    from "1.IH" [OF refl _ refl refl _ this] mem False "1.prems"(2) show ?thesis by simp
  qed
qed

text \<open>A source of at most a megabyte is read whole, a longer one is \<open>EFBIG\<close>, and a read that fails is never taken
  for the end of the file.\<close>

lemma slurp_outcome:
  assumes "slurp mem (Inr (data, failed)) = Some r"
  shows "r = (if length data > BCEMBED_MAX_SOURCE then Inl EFBIG
    else case failed of Some e \<Rightarrow> Inl (if e \<noteq> 0 then e else EIO) | None \<Rightarrow> Inr data)"
proof -
  obtain n where n: "slurp_loop mem data 0 = Some n" using assms by (cases "slurp_loop mem data 0") (auto simp: slurp_def)
  have "n = min (length data) (BCEMBED_MAX_SOURCE + 1)" by (rule slurp_loop_all [OF n]) simp_all
  with assms n show ?thesis by (auto simp: slurp_def Let_def EIO_def split: option.splits if_splits)
qed

section \<open>The table\<close>

text \<open>\<open>lua_dump\<close> hands the bytecode over in pieces; the line breaks count within each.\<close>

definition byte_num :: "char \<Rightarrow> nat" where
  "byte_num c = of_char c"

fun writer_from :: "nat \<Rightarrow> byte list \<Rightarrow> string" where
  "writer_from i [] = []"
| "writer_from i (b # bs) = nat_dec (byte_num b) @ '','' @ (if i mod 24 = 23 then [nl] else []) @ writer_from (Suc i) bs"

definition writer :: "byte list \<Rightarrow> string" where
  "writer p = writer_from 0 p"

text \<open>How the compiler reads the elements of the initializer, up to its closing brace.\<close>

fun c_elements :: "nat \<Rightarrow> string \<Rightarrow> nat list" where
  "c_elements a [] = []"
| "c_elements a (c # cs) =
     (if is_digit c then c_elements (a * 10 + (of_char c - 48)) cs
      else if c = CHR '','' then a # c_elements 0 cs
      else if c = CHR ''}'' then [a]
      else c_elements a cs)"

lemma c_elements_number: "c_elements 0 (nat_dec n @ r) = c_elements n r"
proof (induction n arbitrary: r rule: nat_dec.induct)
  case (1 n)
  show ?case
  proof (cases "n < 10")
    case True
    then show ?thesis by (simp add: nat_dec.simps [of n] is_digit_def)
  next
    case False
    then have "c_elements 0 (nat_dec n @ r) = c_elements (n div 10) (char_of (48 + n mod 10) # r)"
      using 1 by (simp add: nat_dec.simps [of n] del: c_elements.simps)
    also have "\<dots> = c_elements (n div 10 * 10 + n mod 10) r"
      using mod_less_divisor [of 10 n] by (simp add: is_digit_def less_Suc_eq_le [symmetric] del: mod_less_divisor)
    also have "\<dots> = c_elements n r" by simp
    finally show ?thesis .
  qed
qed

lemma c_elements_writer: "c_elements 0 (writer_from i p @ r) = map byte_num p @ c_elements 0 r"
proof (induction i p rule: writer_from.induct)
  case (2 i b bs)
  have "c_elements (byte_num b) ('','' @ (if i mod 24 = 23 then [nl] else []) @ writer_from (Suc i) bs @ r)
      = byte_num b # c_elements 0 (writer_from (Suc i) bs @ r)"
    by (simp add: is_digit_def)
  then show ?case using 2 by (simp add: c_elements_number del: c_elements.simps)
qed simp

lemma c_elements_pieces: "c_elements 0 (concat (map writer ps) @ r) = map byte_num (concat ps) @ c_elements 0 r"
  by (induction ps) (simp_all add: writer_def c_elements_writer del: c_elements.simps)

section \<open>The tool\<close>

text \<open>\<open>bc_file\<close> gives the stream of a path, \<open>bc_load\<close> is \<open>luaL_loadbuffer\<close> and \<open>lua_dump\<close>: an error, or the
  pieces of the bytecode. \<open>bc_ferror\<close> and \<open>bc_fclose\<close> tell whether the output failed.\<close>

record bc_sys =
  bc_mem :: "nat \<Rightarrow> bool"
  bc_open :: bool
  bc_file :: "cstring \<Rightarrow> nat + byte list \<times> nat option"
  bc_load :: "byte list \<Rightarrow> cstring \<Rightarrow> cstring + byte list list"
  bc_ferror :: bool
  bc_fclose :: bool
  bc_strerror :: "nat \<Rightarrow> cstring"

definition arg_name :: "cstring \<Rightarrow> cstring" where "arg_name arg = takeWhile (\<lambda>c. c \<noteq> CHR ''='') arg"
definition arg_path :: "cstring \<Rightarrow> cstring" where "arg_path arg = tl (dropWhile (\<lambda>c. c \<noteq> CHR ''='') arg)"

definition is_json :: "cstring \<Rightarrow> bool" where
  "is_json path \<longleftrightarrow> length path > 5 \<and> drop (length path - 5) path = ''.json''"

definition json_chunk :: "byte list \<Rightarrow> byte list" where
  "json_chunk src = ''return [=====['' @ [nl] @ src @ '']=====]''"

text \<open>One module: an exit code with its message, or the text of its array; \<open>None\<close> is the abort for memory.\<close>

definition embed_module :: "bc_sys \<Rightarrow> nat \<Rightarrow> cstring \<Rightarrow> (nat \<times> cstring + string) option" where
  "embed_module bc i arg =
     (if CHR ''='' \<notin> set arg then Some (Inl (2, ''bcembed: bad argument '' @ arg))
      else let name = arg_name arg; path = arg_path arg
           in if \<not> bc_mem bc (length name + 1) then None
              else case slurp (bc_mem bc) (bc_file bc path) of
                     None \<Rightarrow> None
                   | Some (Inl e) \<Rightarrow> Some (Inl (1, ''bcembed: cannot read '' @ path @ '': '' @ bc_strerror bc e))
                   | Some (Inr src) \<Rightarrow>
                       let chunk = (if is_json path then json_chunk src else src)
                       in if is_json path \<and> \<not> bc_mem bc (length chunk) then None
                          else if length name + 1 \<ge> 256 then Some (Inl (1, ''bcembed: module name too long: '' @ take 64 name @ ''...''))
                          else case bc_load bc chunk (''='' @ name) of
                                 Inl e \<Rightarrow> Some (Inl (1, ''bcembed: '' @ e))
                               | Inr pieces \<Rightarrow>
                                   Some (Inr (''static const unsigned char data'' @ nat_dec i @ ''[] = {'' @ [nl]
                                     @ concat (map writer pieces) @ ''0};'' @ [nl])))"

fun embed_modules :: "bc_sys \<Rightarrow> nat \<Rightarrow> cstring list \<Rightarrow> (nat \<times> cstring + string list) option" where
  "embed_modules bc i [] = Some (Inr [])"
| "embed_modules bc i (arg # args) =
     (case embed_module bc i arg of
        None \<Rightarrow> None
      | Some (Inl e) \<Rightarrow> Some (Inl e)
      | Some (Inr t) \<Rightarrow> map_option (map_sum id ((#) t)) (embed_modules bc (Suc i) args))"

definition table_row :: "nat \<Rightarrow> cstring \<Rightarrow> string" where
  "table_row i arg = [CHR 0x09] @ ''{'' @ [dq] @ arg_name arg @ [dq] @ '', '' @ [dq] @ arg_path arg @ [dq] @ '', data'' @ nat_dec i
     @ '', sizeof data'' @ nat_dec i @ '' - 1},'' @ [nl]"

text \<open>The arguments after the program's name. The exit code, the message, and the whole file, unless the tool stopped in the middle of it.\<close>

definition bcembed_main :: "bc_sys \<Rightarrow> cstring list \<Rightarrow> (nat \<times> cstring \<times> string option) option" where
  "bcembed_main bc argv =
     (case argv of
        [] \<Rightarrow> Some (2, ''usage: bcembed <out.c> <module>=<file> ...'', None)
      | out # args \<Rightarrow>
          if \<not> bc_open bc then Some (2, ''usage: bcembed <out.c> <module>=<file> ...'', None)
          else case embed_modules bc 2 args of
                 None \<Rightarrow> None
               | Some (Inl (code, msg)) \<Rightarrow> Some (code, msg, None)
               | Some (Inr texts) \<Rightarrow>
                   let text_out = ''#include '' @ [dq] @ ''src/kernel/lua/embedded.h'' @ [dq, nl, nl] @ concat texts
                         @ [nl] @ ''const struct qwe_embedded qwe_embedded_modules[] = {'' @ [nl]
                         @ concat (map2 table_row [2..<2 + length args] args)
                         @ [CHR 0x09] @ ''{0, 0, 0, 0},'' @ [nl] @ ''};'' @ [nl]
                   in if bc_fclose bc \<or> bc_ferror bc then Some (1, ''bcembed: cannot write '' @ out, Some text_out)
                      else Some (0, [], Some text_out))"

section \<open>The Lua state\<close>

text \<open>
  \<open>luaL_newstate\<close> may fail; \<open>vm_load\<close> is \<open>luaL_loadbuffer\<close> on the bytes of a module. What \<open>require\<close> finds is
  \<open>package.preload\<close> and nothing else, since both search paths are empty.
\<close>

datatype 'f loader = L_C cstring | L_LUA 'f

record 'f lua_vm =
  vm_path :: cstring
  vm_cpath :: cstring
  vm_preload :: "(cstring \<times> 'f loader) list"

definition c_modules :: "(cstring \<times> 'f loader) list" where
  "c_modules = [(''lpeg'', L_C ''luaopen_lpeg''), (''rex_pcre2'', L_C ''luaopen_rex_pcre2''), (''qwe.cbor'', L_C ''luaopen_qwe_cbor''),
     (''qwe.fs'', L_C ''luaopen_qwe_fs''), (''qwe.exec'', L_C ''luaopen_qwe_exec''), (''qwe.secrets'', L_C ''luaopen_qwe_secrets'')]"

fun preload_loop ::
    "(byte list \<Rightarrow> cstring \<Rightarrow> cstring + 'f) \<Rightarrow> (cstring \<times> byte list) list \<Rightarrow> (cstring \<times> 'f loader) list
     \<Rightarrow> cstring + (cstring \<times> 'f loader) list" where
  "preload_loop load [] pre = Inr pre"
| "preload_loop load ((name, data) # ms) pre =
     (case load data name of
        Inl e \<Rightarrow> Inl (''qwe: built-in module '' @ name @ '': '' @ e)
      | Inr f \<Rightarrow> preload_loop load ms (AList.update name (L_LUA f) pre))"

definition qwe_lua_new ::
    "bool \<Rightarrow> (byte list \<Rightarrow> cstring \<Rightarrow> cstring + 'f) \<Rightarrow> (cstring \<times> byte list) list \<Rightarrow> cstring option + 'f lua_vm" where
  "qwe_lua_new mem load modules =
     (if \<not> mem then Inl None
      else case preload_loop load modules c_modules of
             Inl msg \<Rightarrow> Inl (Some msg)
           | Inr pre \<Rightarrow> Inr \<lparr>vm_path = [], vm_cpath = [], vm_preload = pre\<rparr>)"

text \<open>An error that no \<open>pcall\<close> caught: the line that is printed, and the exit code.\<close>

definition lua_panic :: "cstring option \<Rightarrow> cstring \<times> nat" where
  "lua_panic msg = (''qwe: internal error: '' @ (case msg of Some m \<Rightarrow> m | None \<Rightarrow> ''unknown error'') @ [nl], 1)"

text \<open>Line coverage, when the environment asks for it: the modules it is measured for, with their paths. \<open>enable\<close> tells whether the
  module that measures could be loaded; an error of its own is dropped.\<close>

fun coverage_modules :: "(cstring \<times> cstring) list \<Rightarrow> (cstring \<times> cstring) list" where
  "coverage_modules [] = []"
| "coverage_modules ((name, path) # ms) =
     (if take 12 path = ''third_party/'' then coverage_modules ms else (name, path) # coverage_modules ms)"

definition coverage_enable :: "bool \<Rightarrow> cstring option \<Rightarrow> bool \<Rightarrow> (cstring \<times> cstring) list \<Rightarrow> (cstring \<times> (cstring \<times> cstring) list) option" where
  "coverage_enable asked dir enable table =
     (if \<not> asked then None
      else case dir of
             None \<Rightarrow> None
           | Some d \<Rightarrow> if \<not> enable then None else Some (d, coverage_modules table))"

text \<open>The tool that runs a script in such a state: \<open>file\<close> is \<open>luaL_loadfile\<close>, \<open>call\<close> the protected call with the
  arguments. The result is the exit code, and the line that is printed.\<close>

definition luarun_main ::
    "cstring option + 'f lua_vm \<Rightarrow> (cstring \<Rightarrow> cstring + 'f) \<Rightarrow> ('f \<Rightarrow> cstring list \<Rightarrow> cstring option) \<Rightarrow> cstring list \<Rightarrow> nat \<times> cstring list" where
  "luarun_main vm file call args =
     (case args of
        [] \<Rightarrow> (2, [''usage: luarun <script.lua> [args...]''])
      | script # rest \<Rightarrow>
          (case vm of
             Inl msg \<Rightarrow> (2, case msg of None \<Rightarrow> [] | Some m \<Rightarrow> [m])
           | Inr _ \<Rightarrow>
               (case file script of
                  Inl e \<Rightarrow> (2, [''luarun: '' @ e])
                | Inr f \<Rightarrow> (case call f rest of Some e \<Rightarrow> (1, [''luarun: '' @ e]) | None \<Rightarrow> (0, [])))))"

text \<open>\<open>require\<close> of a module that is not loaded yet: the searchers of Lua with the paths of the state; \<open>disk\<close> is
  what lies under a template of a path.\<close>

definition lua_require :: "(cstring \<Rightarrow> cstring \<Rightarrow> 'f loader option) \<Rightarrow> 'f lua_vm \<Rightarrow> cstring \<Rightarrow> 'f loader option" where
  "lua_require disk vm name =
     (case map_of (vm_preload vm) name of
        Some l \<Rightarrow> Some l
      | None \<Rightarrow>
          (case (if vm_path vm = [] then None else disk (vm_path vm) name) of
             Some l \<Rightarrow> Some l
           | None \<Rightarrow> if vm_cpath vm = [] then None else disk (vm_cpath vm) name))"

lemma preload_loop_map:
  "preload_loop load ms pre = Inr pre' \<Longrightarrow>
   (\<forall>m \<in> set ms. \<exists>f. load (snd m) (fst m) = Inr f) \<and>
   map_of pre' = map_of pre ++ map_of (rev (map (\<lambda>m. (fst m, L_LUA (projr (load (snd m) (fst m))))) ms))"
proof (induction load ms pre rule: preload_loop.induct)
  case (2 load name data ms pre)
  then obtain f where f: "load data name = Inr f" by (cases "load data name") auto
  with 2 show ?case by (auto simp: update_conv' map_add_def fun_eq_iff split: option.splits)
qed simp

text \<open>Whatever lies on the disk, a module that is required is one of the six in C or one of the table, and with
  distinct names every module of the table is found as what its bytes load to.\<close>

lemma require_finds_built_in:
  assumes "qwe_lua_new mem load modules = Inr vm"
  shows "lua_require disk vm name = Some l \<Longrightarrow>
      (name, l) \<in> set c_modules \<or> (\<exists>data f. (name, data) \<in> set modules \<and> load data name = Inr f \<and> l = L_LUA f)"
    and "distinct (map fst modules) \<Longrightarrow> (name, data) \<in> set modules \<Longrightarrow>
      \<exists>f. load data name = Inr f \<and> lua_require disk vm name = Some (L_LUA f)"
proof -
  obtain pre where p: "preload_loop load modules c_modules = Inr pre" "vm = \<lparr>vm_path = [], vm_cpath = [], vm_preload = pre\<rparr>"
    using assms by (auto simp: qwe_lua_new_def split: if_splits sum.splits)
  let ?ms = "map (\<lambda>m. (fst m, L_LUA (projr (load (snd m) (fst m))))) modules"
  have r: "lua_require disk vm name = (map_of c_modules ++ map_of (rev ?ms)) name"
  proof -
    have "lua_require disk vm name = map_of pre name" using p(2) by (cases "map_of pre name") (simp_all add: lua_require_def)
    then show ?thesis using preload_loop_map [OF p(1)] by simp
  qed
  have ok: "\<forall>m \<in> set modules. \<exists>f. load (snd m) (fst m) = Inr f" using preload_loop_map [OF p(1)] by blast
  show "(name, l) \<in> set c_modules \<or> (\<exists>data f. (name, data) \<in> set modules \<and> load data name = Inr f \<and> l = L_LUA f)"
    if "lua_require disk vm name = Some l"
  proof (cases "map_of (rev ?ms) name")
    case None
    then show ?thesis using that r by (auto simp: map_add_def dest: map_of_SomeD)
  next
    case (Some l')
    then have "l' = l" "(name, l) \<in> set ?ms" using that r map_of_SomeD [OF Some] by (auto simp: map_add_def)
    then show ?thesis using ok by fastforce
  qed
  show "\<exists>f. load data name = Inr f \<and> lua_require disk vm name = Some (L_LUA f)"
    if d: "distinct (map fst modules)" and m: "(name, data) \<in> set modules"
  proof -
    obtain f where f: "load data name = Inr f" using ok m by fastforce
    have "(name, L_LUA f) \<in> set (rev ?ms)" using m f by force
    moreover have "distinct (map fst (rev ?ms))" using d by (simp add: rev_map [symmetric] comp_def)
    ultimately have "map_of (rev ?ms) name = Some (L_LUA f)" by (rule map_of_is_SomeI [rotated])
    then show ?thesis using f r by (simp add: map_add_def)
  qed
qed

section \<open>What is built in\<close>

text \<open>The array of a module, as it stands in the output, and what the compiler makes of it.\<close>

definition array_text :: "nat \<Rightarrow> byte list list \<Rightarrow> string" where
  "array_text i pieces = ''static const unsigned char data'' @ nat_dec i @ ''[] = {'' @ [nl] @ concat (map writer pieces) @ ''0};'' @ [nl]"

definition module_pieces :: "bc_sys \<Rightarrow> cstring \<Rightarrow> byte list list \<Rightarrow> bool" where
  "module_pieces bc arg pieces \<longleftrightarrow>
     (\<exists>src. bc_file bc (arg_path arg) = Inr (src, None) \<and> length src \<le> BCEMBED_MAX_SOURCE \<and>
        bc_load bc (if is_json (arg_path arg) then json_chunk src else src) (''='' @ arg_name arg) = Inr pieces)"

lemma embed_module_text:
  assumes "embed_module bc i arg = Some (Inr t)"
  shows "\<exists>pieces. module_pieces bc arg pieces \<and> t = array_text i pieces"
proof -
  from assms obtain src where s: "slurp (bc_mem bc) (bc_file bc (arg_path arg)) = Some (Inr src)"
    by (auto simp: embed_module_def Let_def split: if_splits option.splits sum.splits)
  then obtain data failed where f: "bc_file bc (arg_path arg) = Inr (data, failed)" by (auto simp: slurp_def split: sum.splits)
  have "failed = None" "src = data" "length data \<le> BCEMBED_MAX_SOURCE"
    using slurp_outcome [OF s [unfolded f]] by (auto split: if_splits option.splits)
  with f s assms show ?thesis
    by (auto simp: embed_module_def module_pieces_def array_text_def Let_def split: if_splits sum.splits)
qed

lemma embed_modules_texts:
  "embed_modules bc i args = Some (Inr ts) \<Longrightarrow>
   \<exists>pss. list_all2 (module_pieces bc) args pss \<and> ts = map2 array_text [i..<i + length args] pss"
proof (induction bc i args arbitrary: ts rule: embed_modules.induct)
  case (2 bc i arg args)
  then obtain t z where z: "embed_module bc i arg = Some (Inr t)" "embed_modules bc (Suc i) args = Some z" "map_sum id ((#) t) z = Inr ts"
    by (auto split: option.splits sum.splits)
  then obtain ts' where t: "embed_module bc i arg = Some (Inr t)" "embed_modules bc (Suc i) args = Some (Inr ts')" "ts = t # ts'"
    by (cases z) auto
  obtain pieces where p: "module_pieces bc arg pieces" "t = array_text i pieces" using embed_module_text [OF t(1)] by blast
  obtain pss where "list_all2 (module_pieces bc) args pss" "ts' = map2 array_text [Suc i..<Suc i + length args] pss"
    using "2.IH" [OF t(1) refl t(2)] by blast
  moreover have "[i..<i + length (arg # args)] = i # [Suc i..<Suc i + length args]" by (simp add: upt_conv_Cons del: upt_Suc)
  ultimately have "list_all2 (module_pieces bc) (arg # args) (pieces # pss) \<and> ts = map2 array_text [i..<i + length (arg # args)] (pieces # pss)"
    using p t(3) by (simp del: upt_Suc)
  then show ?case by blast
qed simp

lemma embed_modules_code: "embed_modules bc i args = Some (Inl (code, msg)) \<Longrightarrow> code \<noteq> 0"
proof (induction bc i args rule: embed_modules.induct)
  case (2 bc i arg args)
  show ?case
  proof (cases "embed_module bc i arg = Some (Inl (code, msg))")
    case True
    then show ?thesis by (auto simp: embed_module_def Let_def split: if_splits option.splits sum.splits)
  next
    case False
    then obtain t z where z: "embed_module bc i arg = Some (Inr t)" "embed_modules bc (Suc i) args = Some z" "map_sum id ((#) t) z = Inl (code, msg)"
      using "2.prems" by (auto split: option.splits sum.splits)
    then have "z = Inl (code, msg)" by (cases z) auto
    then show ?thesis using "2.IH" [OF z(1) refl] z(2) by simp
  qed
qed simp

lemma array_text_elements:
  "c_elements 0 (drop (length (''static const unsigned char data'' @ nat_dec i @ ''[] = {'')) (array_text i pieces))
     = map byte_num (concat pieces) @ [0]"
proof -
  have "c_elements 0 (nl # concat (map writer pieces) @ ''0};'' @ [nl]) = c_elements 0 (concat (map writer pieces) @ ''0};'' @ [nl])"
    by (simp add: is_digit_def)
  also have "\<dots> = map byte_num (concat pieces) @ [0]" by (simp add: c_elements_pieces is_digit_def)
  finally show ?thesis by (simp add: array_text_def)
qed

text \<open>The whole tool: when it exits with 0, the output is the table of all the modules in order, each array reads as
  the bytecode of its module followed by the 0 that the size leaves out, and every source was read whole.\<close>

lemma embedded_table:
  assumes "bcembed_main bc (out # args) = Some (0, msg, t)"
  shows "\<exists>pss. list_all2 (module_pieces bc) args pss
    \<and> t = Some (''#include '' @ [dq] @ ''src/kernel/lua/embedded.h'' @ [dq, nl, nl] @ concat (map2 array_text [2..<2 + length args] pss)
        @ [nl] @ ''const struct qwe_embedded qwe_embedded_modules[] = {'' @ [nl]
        @ concat (map2 table_row [2..<2 + length args] args) @ [CHR 0x09] @ ''{0, 0, 0, 0},'' @ [nl] @ ''};'' @ [nl])
    \<and> (\<forall>i < length args. c_elements 0 (drop (length (''static const unsigned char data'' @ nat_dec (i + 2) @ ''[] = {'')) (array_text (i + 2) (pss ! i)))
          = map byte_num (concat (pss ! i)) @ [0])
    \<and> \<not> bc_ferror bc \<and> \<not> bc_fclose bc"
proof -
  have "\<exists>ts. embed_modules bc 2 args = Some (Inr ts)"
    using assms embed_modules_code by (fastforce simp: bcembed_main_def Let_def split: if_splits option.splits sum.splits prod.splits)
  then obtain ts where ts: "embed_modules bc 2 args = Some (Inr ts)" ..
  then obtain pss where p: "list_all2 (module_pieces bc) args pss" "ts = map2 array_text [2..<2 + length args] pss"
    using embed_modules_texts by blast
  show ?thesis
    using assms ts p array_text_elements by (intro exI [of _ pss]) (auto simp: bcembed_main_def Let_def split: if_splits)
qed

end
