(* ===== verification/Support.thy ===== *)
theory Support
  imports Jobs Report
begin

text \<open>
  What the rest of the kernel stands on: formatting (\<open>fmt.h\<close>), output that is checked at its end (\<open>put.h\<close>),
  allocation that must not fail (\<open>alloc.c\<close>), error texts (\<open>errstr.c\<close>), the parts of the timers the engine does not call
  (\<open>timer.c\<close>), and the allocator that fails on purpose (\<open>oom_shim.c\<close>), with which the
  repository's tests reach the failing allocations that the other theories have as a predicate.
\<close>

section \<open>Formatting\<close>

text \<open>The formatted text, cut to a buffer, and whether it fit. The buffer always ends in a NUL, unless its size is 0.
  \<open>vsnprintf\<close> gives a negative number for a text whose length is no \<open>int\<close>.\<close>

definition qwe_vfmt :: "nat \<Rightarrow> string \<Rightarrow> int \<times> cstring" where
  "qwe_vfmt sz s = (if length s > 2 ^ 31 - 1 \<or> length s \<ge> sz then -1 else 0, take (sz - 1) s)"

definition qwe_fmt :: "nat \<Rightarrow> string \<Rightarrow> int \<times> cstring" where
  "qwe_fmt sz s = qwe_vfmt sz s"

text \<open>\<open>Inl\<close> is the abort, with its message.\<close>

definition qwe_xfmt_at :: "cstring \<Rightarrow> nat \<Rightarrow> nat \<Rightarrow> string \<Rightarrow> cstring + cstring" where
  "qwe_xfmt_at file line_no sz s =
     (case qwe_vfmt sz s of (rc, buf) \<Rightarrow>
        if rc < 0 then Inl (file @ '':'' @ nat_dec line_no @ '': formatted text truncated ('' @ nat_dec sz @ '' bytes)'' @ [nl]) else Inr buf)"

lemma fmt_whole: "fst (qwe_fmt sz s) = 0 \<longleftrightarrow> 0 < sz \<and> length s \<le> 2 ^ 31 - 1 \<and> snd (qwe_fmt sz s) = s"
proof (cases "length s \<ge> sz")
  case True
  then have "length (take (sz - 1) s) < length s \<or> sz = 0" by auto
  then show ?thesis using True by (auto simp: qwe_fmt_def qwe_vfmt_def)
qed (simp add: qwe_fmt_def qwe_vfmt_def)

section \<open>Output that is checked at the end\<close>

text \<open>A stream of the C library: what went out, and its error flag. \<open>k\<close> is how many bytes of a piece went through.\<close>

record out_stream =
  os_text :: string
  os_error :: bool

definition qwe_out_str :: "nat \<Rightarrow> string \<Rightarrow> out_stream \<Rightarrow> out_stream" where
  "qwe_out_str k s st = st\<lparr>os_text := os_text st @ take k s, os_error := (os_error st \<or> k < length s)\<rparr>"

definition qwe_out_ch :: "nat \<Rightarrow> char \<Rightarrow> out_stream \<Rightarrow> out_stream" where
  "qwe_out_ch k c st = qwe_out_str k [c] st"

text \<open>A formatted piece, by the text it comes to; a diagnostic goes to its stream the same way, and nobody looks at the flag.\<close>

definition qwe_out_fmt :: "nat \<Rightarrow> string \<Rightarrow> out_stream \<Rightarrow> out_stream" where
  "qwe_out_fmt k s st = qwe_out_str k s st"

definition qwe_diag :: "nat \<Rightarrow> string \<Rightarrow> out_stream \<Rightarrow> out_stream" where
  "qwe_diag k s st = qwe_out_str k s st"

lemma out_pieces_append: "fold (\<lambda>(k, s). qwe_out_str k s) ps st =
   st\<lparr>os_text := os_text st @ concat (map (\<lambda>(k, s). take k s) ps), os_error := (os_error st \<or> (\<exists>(k, s) \<in> set ps. k < length s))\<rparr>"
  by (induction ps arbitrary: st) (auto simp: qwe_out_str_def)

text \<open>One look at the flag, at the end, is enough: without an error every piece went out whole and in order.\<close>

lemma out_checked_once:
  assumes "\<not> os_error (fold (\<lambda>(k, s). qwe_out_str k s) ps st)"
  shows "os_text (fold (\<lambda>(k, s). qwe_out_str k s) ps st) = os_text st @ concat (map snd ps)"
proof -
  have "\<forall>(k, s) \<in> set ps. length s \<le> k" using assms by (fastforce simp: out_pieces_append)
  then have "map (\<lambda>(k, s). take k s) ps = map snd ps" by auto
  then have "concat (map (\<lambda>(k, s). take k s) ps) = concat (map snd ps)" by (rule arg_cong)
  then show ?thesis by (simp add: out_pieces_append)
qed

section \<open>Allocation that must not fail\<close>

text \<open>\<open>mem n\<close> tells whether the C library has a block of \<open>n\<close> bytes; the result is the size of the block.\<close>

definition die :: "cstring \<Rightarrow> nat \<Rightarrow> nat \<Rightarrow> cstring" where
  "die file line_no n = file @ '':'' @ nat_dec line_no @ '': out of memory ('' @ nat_dec n @ '' bytes)'' @ [nl]"

definition qwe_xmalloc_at :: "(nat \<Rightarrow> bool) \<Rightarrow> nat \<Rightarrow> cstring \<Rightarrow> nat \<Rightarrow> cstring + nat" where
  "qwe_xmalloc_at mem n file line_no =
     (let want = (if n \<noteq> 0 then n else 1) in if mem want then Inr want else Inl (die file line_no n))"

text \<open>\<open>calloc\<close> looks at the product itself; the message multiplies in \<open>size_t\<close>.\<close>

definition qwe_xcalloc_at :: "(nat \<Rightarrow> bool) \<Rightarrow> nat \<Rightarrow> nat \<Rightarrow> cstring \<Rightarrow> nat \<Rightarrow> cstring + nat" where
  "qwe_xcalloc_at mem n sz file line_no =
     (let want = (if n \<noteq> 0 then n else 1) * (if sz \<noteq> 0 then sz else 1)
      in if want < 2 ^ 64 \<and> mem want then Inr want else Inl (die file line_no (n * sz mod 2 ^ 64)))"

definition qwe_xrealloc_at :: "(nat \<Rightarrow> bool) \<Rightarrow> nat \<Rightarrow> cstring \<Rightarrow> nat \<Rightarrow> cstring + nat" where
  "qwe_xrealloc_at mem n file line_no =
     (let want = (if n \<noteq> 0 then n else 1) in if mem want then Inr want else Inl (die file line_no n))"

definition qwe_xstrdup_at :: "(nat \<Rightarrow> bool) \<Rightarrow> cstring \<Rightarrow> cstring \<Rightarrow> nat \<Rightarrow> cstring + cstring" where
  "qwe_xstrdup_at mem s file line_no = map_sum id (\<lambda>_. s) (qwe_xmalloc_at mem (length s + 1) file line_no)"

lemma xmalloc_room: "qwe_xmalloc_at mem n file line_no = Inr m \<Longrightarrow> n \<le> m \<and> 0 < m \<and> mem m"
  by (auto simp: qwe_xmalloc_at_def Let_def split: if_splits)

lemma xcalloc_room: "qwe_xcalloc_at mem n sz file line_no = Inr m \<Longrightarrow> n * sz \<le> m \<and> 0 < m \<and> m < 2 ^ 64"
  by (auto simp: qwe_xcalloc_at_def Let_def split: if_splits)

section \<open>Error texts\<close>

text \<open>\<open>strerror_r\<close> of a number that is known, as long as it fits 64 bytes.\<close>

definition qwe_strerror :: "(int \<Rightarrow> cstring option) \<Rightarrow> int \<Rightarrow> cstring + cstring" where
  "qwe_strerror known err =
     (case known err of
        Some s \<Rightarrow> if length s < 64 then Inr s else qwe_xfmt_at ''src/kernel/errstr.c'' 15 64 (''Unknown error '' @ int_dec err)
      | None \<Rightarrow> qwe_xfmt_at ''src/kernel/errstr.c'' 15 64 (''Unknown error '' @ int_dec err))"

lemma nat_dec_fits: "n < 10 ^ k \<Longrightarrow> 0 < k \<Longrightarrow> length (nat_dec n) \<le> k"
proof (induction n arbitrary: k rule: nat_dec.induct)
  case (1 n)
  show ?case
  proof (cases "n < 10")
    case True
    then show ?thesis using "1.prems" by (simp add: nat_dec.simps [of n])
  next
    case False
    then obtain j where j: "k = Suc j" "0 < j" using "1.prems" by (cases k; cases "k - 1") auto
    then have "n div 10 < 10 ^ j" using "1.prems"(1) by (simp add: less_mult_imp_div_less mult.commute)
    then show ?thesis using "1.IH" [OF False _ j(2)] j(1) False by (simp add: nat_dec.simps [of n])
  qed
qed

text \<open>The text of an error never fails, and fits the buffer.\<close>

lemma strerror_never_fails:
  assumes "- (2 ^ 31) \<le> err" "err < 2 ^ 31"
  shows "\<exists>s. qwe_strerror known err = Inr s \<and> length s < 64"
proof -
  have "nat (- err) < 10 ^ 10" "nat err < 10 ^ 10" using assms by auto
  then have "length (int_dec err) \<le> 11"
    using nat_dec_fits [of "nat (- err)" 10] nat_dec_fits [of "nat err" 10] by (auto simp: int_dec_def)
  then show ?thesis by (auto simp: qwe_strerror_def qwe_xfmt_at_def qwe_vfmt_def split: option.splits)
qed

section \<open>Timers\<close>

text \<open>The remainder of C's division.\<close>

definition c_mod :: "int \<Rightarrow> int \<Rightarrow> int" where "c_mod a b = a - c_div a b * b"

text \<open>The time that is handed to \<open>timerfd_settime\<close>, which takes it if its parts are in range, and what disarms.\<close>

definition timer_spec :: "int \<Rightarrow> int \<times> int" where
  "timer_spec ms = (c_div ms 1000, if ms \<le> 0 then 1 else c_mod ms 1000 * 1000000)"

definition spec_valid :: "int \<times> int \<Rightarrow> bool" where
  "spec_valid s \<longleftrightarrow> 0 \<le> fst s \<and> 0 \<le> snd s \<and> snd s < 1000000000"

definition qwe_timer_disarm :: "qwe_timer \<Rightarrow> qwe_timer" where
  "qwe_timer_disarm t = t\<lparr>tm_armed := None\<rparr>"

text \<open>\<open>left\<close> is what \<open>timerfd_gettime\<close> says: seconds and nanoseconds until it fires, both 0 when it is not armed.\<close>

definition qwe_timer_remaining_ms :: "(int \<times> int) option \<Rightarrow> qwe_timer \<Rightarrow> int" where
  "qwe_timer_remaining_ms left t =
     (if tm_fired t then - 1
      else case left of
             None \<Rightarrow> - 1
           | Some (s, ns) \<Rightarrow> if s = 0 \<and> ns = 0 then - 1 else s * 1000 + ns div 1000000)"

definition time_left :: "int \<Rightarrow> int \<times> int" where
  "time_left ns = (ns div 1000000000, ns mod 1000000000)"

text \<open>A time of a millisecond or more is the time that was asked for, and one of zero fires at once; a time of a
  second or more in the past is refused.\<close>

lemma timer_spec_exact:
  "0 < ms \<Longrightarrow> spec_valid (timer_spec ms) \<and> fst (timer_spec ms) * 1000000000 + snd (timer_spec ms) = ms * 1000000"
  "- 1000 < ms \<Longrightarrow> ms \<le> 0 \<Longrightarrow> timer_spec ms = (0, 1)"
  "ms \<le> - 1000 \<Longrightarrow> \<not> spec_valid (timer_spec ms)"
proof -
  assume m: "0 < ms"
  have d: "c_div ms 1000 * 1000 + ms mod 1000 = ms" "c_mod ms 1000 = ms mod 1000" "0 \<le> ms div 1000"
    using m by (auto simp: c_div_def c_mod_def minus_div_mult_eq_mod pos_imp_zdiv_nonneg_iff)
  have e: "ms div 1000 * 1000000000 + ms mod 1000 * 1000000 = ms * 1000000" using div_mult_mod_eq [of ms 1000] by linarith
  have "ms mod 1000 * 1000000 < 1000000000" using pos_mod_bound [of 1000 ms] by simp
  with d e show "spec_valid (timer_spec ms) \<and> fst (timer_spec ms) * 1000000000 + snd (timer_spec ms) = ms * 1000000"
    using m by (simp add: timer_spec_def spec_valid_def c_div_def)
next
  assume "- 1000 < ms" "ms \<le> 0"
  then show "timer_spec ms = (0, 1)" by (simp add: timer_spec_def c_div_def)
next
  assume m: "ms \<le> - 1000"
  then have "1 \<le> (- ms) div 1000" using zdiv_mono1 [of 1000 "- ms" 1000] by simp
  then show "\<not> spec_valid (timer_spec ms)" using m by (simp add: timer_spec_def spec_valid_def c_div_def)
qed

lemma timer_remaining_exact:
  assumes "0 < ns" "\<not> tm_fired t"
  shows "qwe_timer_remaining_ms (Some (time_left ns)) t = ns div 1000000"
proof -
  define a b where "a = ns div 1000000000" and "b = ns mod 1000000000"
  have ns: "ns = b + (a * 1000) * 1000000" using div_mult_mod_eq [of ns 1000000000] unfolding a_def b_def by linarith
  have "ns div 1000000 = a * 1000 + b div 1000000" unfolding ns by (subst div_mult_self1) simp_all
  moreover have "\<not> (a = 0 \<and> b = 0)" using assms(1) ns by auto
  ultimately show ?thesis using assms(2) by (simp add: qwe_timer_remaining_ms_def time_left_def a_def b_def)
qed

section \<open>The failing allocator\<close>

text \<open>\<open>oo_site_log\<close> tells whether the environment names a file for the sites; \<open>oo_sites\<close> and \<open>oo_child_lines\<close> are
  what was appended to the two logs.\<close>

record oom_shim =
  oo_armed_pid :: int
  oo_fail_at :: int
  oo_calls :: int
  oo_fired :: bool
  oo_child_fail_at :: int
  oo_child_pid :: int
  oo_child_calls :: int
  oo_child_log :: cstring
  oo_site_log :: bool
  oo_sites :: string
  oo_child_lines :: string

definition qwe_oom_arm :: "int \<Rightarrow> int \<Rightarrow> oom_shim \<Rightarrow> oom_shim" where
  "qwe_oom_arm pid n s = s\<lparr>oo_armed_pid := pid, oo_fail_at := n, oo_calls := 0, oo_fired := False\<rparr>"

definition qwe_oom_arm_child :: "int \<Rightarrow> int \<Rightarrow> oom_shim \<Rightarrow> oom_shim" where
  "qwe_oom_arm_child pid n s = s\<lparr>oo_armed_pid := (if oo_armed_pid s = 0 then pid else oo_armed_pid s), oo_child_fail_at := n\<rparr>"

definition qwe_oom_child_log :: "cstring option \<Rightarrow> oom_shim \<Rightarrow> oom_shim" where
  "qwe_oom_child_log path s = s\<lparr>oo_child_log := (case path of None \<Rightarrow> [] | Some p \<Rightarrow> take 511 p)\<rparr>"

definition qwe_oom_count :: "oom_shim \<Rightarrow> int" where "qwe_oom_count s = oo_calls s"
definition qwe_oom_fired :: "oom_shim \<Rightarrow> bool" where "qwe_oom_fired s = oo_fired s"

text \<open>The line of a site: the offset in hexadecimal. The buffer has 24 bytes.\<close>

fun site_digits :: "nat \<Rightarrow> string" where
  "site_digits off = (if off < 16 then [hex_digit off] else site_digits (off div 16) @ [hex_digit (off mod 16)])"

declare site_digits.simps [simp del]

definition site_line :: "nat \<Rightarrow> string" where
  "site_line off = site_digits off @ [nl]"

definition log_site :: "nat \<Rightarrow> oom_shim \<Rightarrow> oom_shim" where
  "log_site off s = (if oo_site_log s then s\<lparr>oo_sites := oo_sites s @ site_line off\<rparr> else s)"

text \<open>\<open>me\<close> is the process that asks, \<open>off\<close> the place it asks from.\<close>

definition should_fail :: "int \<Rightarrow> nat \<Rightarrow> oom_shim \<Rightarrow> bool \<times> oom_shim" where
  "should_fail me off s =
     (if oo_fail_at s = 0 \<and> oo_child_fail_at s = 0 then (False, s)
      else if oo_armed_pid s = 0 \<or> me = oo_armed_pid s
      then (if oo_fail_at s \<noteq> 0
            then let s1 = s\<lparr>oo_calls := oo_calls s + 1\<rparr>
                 in if oo_calls s1 = oo_fail_at s then (True, log_site off (s1\<lparr>oo_fired := True\<rparr>)) else (False, s1)
            else (False, s))
      else let s1 = (if oo_child_pid s \<noteq> me then s\<lparr>oo_child_pid := me, oo_child_calls := 0\<rparr> else s)
           in if oo_child_fail_at s \<noteq> 0
              then let s2 = s1\<lparr>oo_child_calls := oo_child_calls s1 + 1\<rparr>
                   in if oo_child_calls s2 = oo_child_fail_at s
                      then (True, let s3 = log_site off s2 in if oo_child_log s3 \<noteq> [] then s3\<lparr>oo_child_lines := oo_child_lines s3 @ ''x'' @ [nl]\<rparr> else s3)
                      else (False, s2)
              else (False, s1))"

text \<open>The five allocators are wrapped alike.\<close>

definition wrap_alloc :: "int \<Rightarrow> nat \<Rightarrow> bool \<Rightarrow> oom_shim \<Rightarrow> bool \<times> oom_shim" where
  "wrap_alloc me off real s = (case should_fail me off s of (f, s') \<Rightarrow> (if f then False else real, s'))"

fun wrap_allocs :: "int \<Rightarrow> (nat \<times> bool) list \<Rightarrow> oom_shim \<Rightarrow> bool list \<times> oom_shim" where
  "wrap_allocs me [] s = ([], s)"
| "wrap_allocs me ((off, r) # rs) s = (case wrap_alloc me off r s of (a, s1) \<Rightarrow> apfst ((#) a) (wrap_allocs me rs s1))"

lemma site_line_fits: "off < 2 ^ 64 \<Longrightarrow> length (site_line off) \<le> 24"
proof -
  have d: "off < 16 ^ k \<Longrightarrow> 0 < k \<Longrightarrow> length (site_digits off) \<le> k" for k
  proof (induction off arbitrary: k rule: site_digits.induct)
    case (1 n)
    show ?case
    proof (cases "n < 16")
      case True
      then show ?thesis using "1.prems" by (simp add: site_digits.simps [of n])
    next
      case False
      then obtain j where j: "k = Suc j" "0 < j" using "1.prems" by (cases k; cases "k - 1") auto
      then have "n div 16 < 16 ^ j" using "1.prems"(1) by (simp add: less_mult_imp_div_less mult.commute)
      then show ?thesis using "1.IH" [OF False _ j(2)] j(1) False by (simp add: site_digits.simps [of n])
    qed
  qed
  assume "off < 2 ^ 64"
  then show ?thesis using d [of 16] by (simp add: site_line_def)
qed

text \<open>In the process that armed it exactly the \<open>n\<close>th allocation fails that would not fail by itself, and the counters tell.\<close>

definition kept_but :: "int \<Rightarrow> int \<Rightarrow> bool list \<Rightarrow> bool list" where
  "kept_but n c rs = map2 (\<lambda>i r. r \<and> c + int i + 1 \<noteq> n) [0..<length rs] rs"

lemma kept_but_Cons: "kept_but n c (r # rs) = (r \<and> c + 1 \<noteq> n) # kept_but n (c + 1) rs"
proof -
  have "[0..<length (r # rs)] = 0 # map Suc [0..<length rs]" by (simp add: upt_conv_Cons map_Suc_upt del: upt_Suc)
  then show ?thesis unfolding kept_but_def by (simp add: zip_map1 comp_def case_prod_beta algebra_simps del: upt_Suc)
qed

lemma wrap_allocs_armed:
  assumes "oo_armed_pid s = me" "oo_fail_at s = n" "n \<noteq> 0"
  shows "\<exists>s'. wrap_allocs me rs s = (kept_but n (oo_calls s) (map snd rs), s') \<and> qwe_oom_count s' = oo_calls s + int (length rs)
    \<and> (qwe_oom_fired s' \<longleftrightarrow> qwe_oom_fired s \<or> oo_calls s < n \<and> n \<le> oo_calls s + int (length rs))"
  using assms
proof (induction rs arbitrary: s)
  case Nil
  then show ?case by (auto simp: kept_but_def qwe_oom_count_def qwe_oom_fired_def)
next
  case (Cons e rs)
  obtain off r where e: "e = (off, r)" by (cases e)
  obtain f s1 where f: "should_fail me off s = (f, s1)" by (cases "should_fail me off s")
  have s1: "oo_armed_pid s1 = me" "oo_fail_at s1 = n" "oo_calls s1 = oo_calls s + 1" "f \<longleftrightarrow> oo_calls s + 1 = n" "oo_fired s1 = (oo_fired s \<or> f)"
    using f Cons.prems by (auto simp: should_fail_def log_site_def Let_def split: if_splits)
  from Cons.IH [OF s1(1,2) Cons.prems(3)] obtain s' where
    s': "wrap_allocs me rs s1 = (kept_but n (oo_calls s1) (map snd rs), s')" "qwe_oom_count s' = oo_calls s1 + int (length rs)"
      "qwe_oom_fired s' \<longleftrightarrow> qwe_oom_fired s1 \<or> oo_calls s1 < n \<and> n \<le> oo_calls s1 + int (length rs)" by blast
  have "wrap_allocs me (e # rs) s = (kept_but n (oo_calls s) (map snd (e # rs)), s')"
    using f s'(1) s1 by (simp add: e wrap_alloc_def kept_but_Cons)
  then show ?case using s'(2,3) s1 by (intro exI [of _ s']) (auto simp: qwe_oom_fired_def)
qed

text \<open>Armed and asked from then on: the \<open>n\<close>th fails, counted from the arming.\<close>

lemma oom_arm_nth:
  assumes "0 < n"
  shows "\<exists>s'. wrap_allocs me rs (qwe_oom_arm me n s) = (kept_but n 0 (map snd rs), s') \<and> qwe_oom_count s' = int (length rs)
    \<and> (qwe_oom_fired s' \<longleftrightarrow> n \<le> int (length rs))"
  using wrap_allocs_armed [of "qwe_oom_arm me n s" me n rs] assms by (auto simp: qwe_oom_arm_def qwe_oom_fired_def)

text \<open>In a process that was forked from it, the count starts at its first allocation, whatever the parent had counted.\<close>

lemma wrap_allocs_child:
  assumes "oo_armed_pid s \<noteq> 0" "me \<noteq> oo_armed_pid s" "oo_child_fail_at s = n" "n \<noteq> 0"
  shows "fst (wrap_allocs me rs s) = kept_but n (if oo_child_pid s = me then oo_child_calls s else 0) (map snd rs)"
  using assms
proof (induction rs arbitrary: s)
  case (Cons e rs)
  obtain off r where e: "e = (off, r)" by (cases e)
  let ?c = "if oo_child_pid s = me then oo_child_calls s else 0"
  obtain f s1 where f: "should_fail me off s = (f, s1)" by (cases "should_fail me off s")
  have s1: "oo_armed_pid s1 = oo_armed_pid s" "oo_child_fail_at s1 = n" "oo_child_pid s1 = me" "oo_child_calls s1 = ?c + 1" "f \<longleftrightarrow> ?c + 1 = n"
    using f Cons.prems by (auto simp: should_fail_def log_site_def Let_def split: if_splits)
  have "fst (wrap_allocs me rs s1) = kept_but n (?c + 1) (map snd rs)" using Cons.IH [of s1] s1 Cons.prems by simp
  then show ?case using f s1(5) by (simp add: e wrap_alloc_def kept_but_Cons case_prod_beta)
qed (simp add: kept_but_def)

text \<open>The link to the other theories: their predicate on the number of an allocation is that of a shim armed with one more.\<close>

lemma kept_but_predicate: "kept_but (int k + 1) 0 (replicate m True) = map (\<lambda>i. i \<noteq> k) [0..<m]"
  by (rule nth_equalityI) (auto simp: kept_but_def)

section \<open>The probe\<close>

text \<open>\<open>strtol\<close> gives the number, what is left of the text and whether it was out of range.\<close>

definition oom_probe_timeout_seconds :: "(cstring \<Rightarrow> int \<times> cstring \<times> bool) \<Rightarrow> cstring option \<Rightarrow> int" where
  "oom_probe_timeout_seconds strtol env =
     (case env of
        None \<Rightarrow> 30
      | Some s \<Rightarrow>
          if s = [] then 30
          else case strtol s of (n, rest, over) \<Rightarrow> if over \<or> rest \<noteq> [] \<or> n \<le> 0 \<or> n > 2 ^ 31 - 1 then 30 else n)"

record oom_outcome =
  ot_exited :: bool
  ot_code :: nat
  ot_signal :: nat
  ot_count :: int
  ot_fired :: bool
  ot_err :: "byte list"

datatype probe_fd = ERRP_RD | ERRP_WR | CNTP_RD | CNTP_WR
datatype probe_ev = PB_OPEN probe_fd | PB_CLOSE probe_fd

text \<open>
  The parent's side: the two pipes and the fork may fail; \<open>out\<close> is what the child writes to its output until
  it ends, \<open>report\<close> its count, if it came to write it. The result has \<open>None\<close> for the error, and what was done to
  the descriptors.
\<close>

definition qwe_oom_probe ::
    "bool \<Rightarrow> bool \<Rightarrow> bool \<Rightarrow> byte list \<Rightarrow> (int \<times> bool) option \<Rightarrow> wstatus \<Rightarrow> oom_outcome option \<times> probe_ev list" where
  "qwe_oom_probe pipe1 pipe2 fork out report status =
     (if \<not> pipe1 then (None, [])
      else if \<not> pipe2 then (None, [PB_OPEN ERRP_RD, PB_OPEN ERRP_WR, PB_CLOSE ERRP_RD, PB_CLOSE ERRP_WR])
      else let lg = [PB_OPEN ERRP_RD, PB_OPEN ERRP_WR, PB_OPEN CNTP_RD, PB_OPEN CNTP_WR]
           in if \<not> fork then (None, lg @ [PB_CLOSE CNTP_RD, PB_CLOSE CNTP_WR, PB_CLOSE ERRP_RD, PB_CLOSE ERRP_WR])
              else (Some \<lparr>ot_exited = (case status of W_EXITED _ \<Rightarrow> True | _ \<Rightarrow> False),
                          ot_code = (case status of W_EXITED n \<Rightarrow> n | _ \<Rightarrow> 0),
                          ot_signal = (case status of W_SIGNALED n \<Rightarrow> n | _ \<Rightarrow> 0),
                          ot_count = (case report of Some (c, _) \<Rightarrow> c | None \<Rightarrow> 0),
                          ot_fired = (case report of Some (_, f) \<Rightarrow> f | None \<Rightarrow> False),
                          ot_err = take 8191 out\<rparr>,
                    lg @ [PB_CLOSE ERRP_WR, PB_CLOSE CNTP_WR, PB_CLOSE ERRP_RD, PB_CLOSE CNTP_RD]))"

text \<open>What the child of the probe reports of \<open>fn\<close>, which asks for memory as often as \<open>rs\<close> is long.\<close>

definition probe_report :: "int \<Rightarrow> int \<Rightarrow> int \<Rightarrow> (nat \<times> bool) list \<Rightarrow> oom_shim \<Rightarrow> int \<times> bool" where
  "probe_report me n child_n rs s =
     (case wrap_allocs me rs (let s1 = qwe_oom_arm me n s in if child_n \<noteq> 0 then qwe_oom_arm_child me child_n s1 else s1) of (_, s') \<Rightarrow> (qwe_oom_count s', qwe_oom_fired s'))"

lemma probe_closes: "qwe_oom_probe p1 p2 f out report status = (r, lg) \<Longrightarrow> count_list lg (PB_OPEN d) = count_list lg (PB_CLOSE d)"
  by (cases d) (auto simp: qwe_oom_probe_def Let_def split: if_splits)

text \<open>A probe that returns tells whether the \<open>n\<close>th allocation was reached, so that a test can raise \<open>n\<close> until it is not.\<close>

lemma probe_tells:
  assumes "0 < n" "0 < me" "qwe_oom_probe True True True out (Some (probe_report me n child_n rs s)) status = (Some o1, lg)"
  shows "ot_count o1 = int (length rs) \<and> (ot_fired o1 \<longleftrightarrow> n \<le> int (length rs))"
proof -
  let ?s = "if child_n \<noteq> 0 then qwe_oom_arm_child me child_n (qwe_oom_arm me n s) else qwe_oom_arm me n s"
  have "oo_armed_pid ?s = me" "oo_fail_at ?s = n" "oo_calls ?s = 0" "\<not> qwe_oom_fired ?s"
    by (auto simp: qwe_oom_arm_def qwe_oom_arm_child_def qwe_oom_fired_def)
  then show ?thesis using wrap_allocs_armed [of ?s me n rs] assms by (auto simp: qwe_oom_probe_def probe_report_def Let_def)
qed

end
