(* ===== verification/Fuzz.thy ===== *)
theory Fuzz
  imports Yaml_Values Validate
begin

text \<open>
  The checks of the fuzz targets (\<open>src/edge/yaml/fuzz_harness.c\<close>): what they assert of the transcoder, the
  conversion to Lua and the validation, and that none of the assertions fails.
\<close>

section \<open>The harness\<close>

text \<open>\<open>fz_cursor\<close> is the CBOR library, which refuses bytes that are not well-formed; the validators in Lua see the
  value of the document.\<close>

record fuzz =
  fz_env :: yenv
  fz_parse :: "nat \<Rightarrow> (yevent list \<times> yend) option"
  fz_cursor :: "byte list \<Rightarrow> cbor option"
  fz_vl :: "luav \<Rightarrow> validator"
  fz_tbl :: "luav \<Rightarrow> (cstring \<times> job_table) list"

text \<open>\<open>False\<close> is the abort.\<close>

definition dup_in_order :: "qwe_pos \<Rightarrow> qwe_pos \<Rightarrow> bool" where
  "dup_in_order first second \<longleftrightarrow>
     \<not> (ps_line second < ps_line first \<or> ps_line second = ps_line first \<and> ps_col second \<le> ps_col first)"

definition check_cbor :: "(byte list \<Rightarrow> cbor option) \<Rightarrow> byte list \<Rightarrow> bool" where
  "check_cbor cursor b \<longleftrightarrow> cursor b \<noteq> None"

text \<open>\<open>None\<close> is the abort, \<open>Some None\<close> the -1.\<close>

definition transcode :: "fuzz \<Rightarrow> nat \<Rightarrow> (byte list \<times> qwe_positions) option option" where
  "transcode fz len =
     (case qwe_yaml_to_cbor (fz_env fz) (fz_parse fz) len 256 of
        Inl _ \<Rightarrow> Some None
      | Inr (b, pos) \<Rightarrow>
          if \<not> check_cbor (fz_cursor fz) b then None
          else if \<not> list_all (\<lambda>(_, first, second). dup_in_order first second) (qwe_positions_duplicates pos) then None
          else Some (Some (b, pos)))"

datatype fuzz_end = FZ_RETURN | FZ_ABORT | FZ_HANG

definition qwe_fuzz_transcode :: "fuzz \<Rightarrow> nat \<Rightarrow> fuzz_end" where
  "qwe_fuzz_transcode fz len = (if transcode fz len = None then FZ_ABORT else FZ_RETURN)"

text \<open>The conversion with the Lua stack: a value is pushed, or the stack is set back to its height.\<close>

definition to_lua_stack :: "(byte list \<Rightarrow> cbor option) \<Rightarrow> byte list \<Rightarrow> luav list \<Rightarrow> bool \<times> luav list" where
  "to_lua_stack cursor b st = (case qwe_cbor_to_lua cursor b of Inl _ \<Rightarrow> (False, st) | Inr v \<Rightarrow> (True, v # st))"

text \<open>\<open>chain_L\<close> is the stack of the Lua state, once there is one; \<open>fresh\<close> tells whether one can be made and the standard
  error be sent away.\<close>

definition qwe_fuzz_chain :: "fuzz \<Rightarrow> bool \<Rightarrow> luav list option \<Rightarrow> nat \<Rightarrow> fuzz_end \<times> luav list option" where
  "qwe_fuzz_chain fz fresh chain_L len =
     (if chain_L = None \<and> \<not> fresh then (FZ_ABORT, None)
      else let st = (case chain_L of None \<Rightarrow> [] | Some s \<Rightarrow> s)
           in case transcode fz len of
                None \<Rightarrow> (FZ_ABORT, Some st)
              | Some None \<Rightarrow> (FZ_RETURN, Some st)
              | Some (Some (b, pos)) \<Rightarrow>
                  (case to_lua_stack (fz_cursor fz) b st of
                     (True, st1) \<Rightarrow>
                       (case qwe_validate_doc (fz_vl fz (hd st1)) ''fuzz'' ''/nonexistent/qwe-fuzz/w.yaml'' pos (fz_tbl fz (hd st1)) of
                          None \<Rightarrow> (FZ_HANG, Some st1)
                        | Some _ \<Rightarrow> (FZ_RETURN, Some (drop (length st1 - length st) st1)))
                   | (False, st1) \<Rightarrow> (if length st1 \<noteq> length st then FZ_ABORT else FZ_RETURN, Some st1)))"

definition qwe_fuzz_chain_close :: "luav list option \<Rightarrow> luav list option" where
  "qwe_fuzz_chain_close chain_L = None"

section \<open>Repeated keys are reported in order\<close>

lemma dup_loop_pairs:
  "(x, a, b) \<in> set (dup_loop f es) \<Longrightarrow>
   \<exists>i j. i < j \<and> j < length (f # es) \<and> en_pointer ((f # es) ! i) = x \<and> en_pointer ((f # es) ! j) = x
     \<and> en_key ((f # es) ! i) = Some a \<and> en_key ((f # es) ! j) = Some b"
proof (induction f es rule: dup_loop.induct)
  case (2 f e es)
  show ?case
  proof (cases "en_pointer e \<noteq> en_pointer f")
    case True
    then obtain i j where "i < j" "j < length (e # es)" "en_pointer ((e # es) ! i) = x" "en_pointer ((e # es) ! j) = x"
        "en_key ((e # es) ! i) = Some a" "en_key ((e # es) ! j) = Some b" using 2 by auto
    then show ?thesis by (intro exI [of _ "Suc i"] exI [of _ "Suc j"]) simp
  next
    case same: False
    show ?thesis
    proof (cases "(x, a, b) \<in> set (dup_loop f es)")
      case True
      then obtain i j where ij: "i < j" "j < length (f # es)" "en_pointer ((f # es) ! i) = x" "en_pointer ((f # es) ! j) = x"
          "en_key ((f # es) ! i) = Some a" "en_key ((f # es) ! j) = Some b" using 2 same by auto
      then have "(f # e # es) ! Suc j = (f # es) ! j" "(f # e # es) ! (if i = 0 then 0 else Suc i) = (f # es) ! i"
        by (simp_all add: nth_Cons')
      then show ?thesis using ij by (intro exI [of _ "if i = 0 then 0 else Suc i"] exI [of _ "Suc j"]) auto
    next
      case False
      then have "en_pointer f = x" "en_pointer e = x" "en_key f = Some a" "en_key e = Some b"
        using "2.prems" same by (auto split: option.splits)
      then show ?thesis by (intro exI [of _ 0] exI [of _ 1]) simp
    qed
  qed
qed simp

text \<open>The places of the keys, in the order of the entries.\<close>

definition keyed :: "entry list \<Rightarrow> qwe_pos list" where
  "keyed es = map (\<lambda>e. the (en_key e)) (filter (\<lambda>e. en_key e \<noteq> None) es)"

lemma keyed_simps [simp]:
  "keyed [] = []" "keyed (e # es) = (case en_key e of None \<Rightarrow> [] | Some a \<Rightarrow> [a]) @ keyed es" "keyed (xs @ ys) = keyed xs @ keyed ys"
  by (auto simp: keyed_def split: option.splits)

lemma duplicates_in_order:
  assumes "(x, a, b) \<in> set (qwe_positions_duplicates (qwe_positions_finish p))" "distinct (keyed (ps_e p))"
  shows "dup_in_order a b"
proof -
  define es where "es = sort_key entry_key (ps_e p)"
  from assms(1) obtain i j where ij: "i < j" "j < length es" "en_pointer (es ! i) = x" "en_pointer (es ! j) = x"
      "en_key (es ! i) = Some a" "en_key (es ! j) = Some b"
    by (cases es) (auto simp: qwe_positions_duplicates_def qwe_positions_finish_def es_def [symmetric] dest!: dup_loop_pairs)
  have "sorted (map entry_key es)" by (simp add: es_def)
  then have "entry_key (es ! i) \<le> entry_key (es ! j)" using ij(1,2) by (simp add: sorted_iff_nth_mono)
  then have le: "pos_key a \<le> pos_key b" using ij by (auto simp: entry_key_def)
  have "mset es = mset (ps_e p)" by (simp add: es_def)
  then have "mset (keyed es) = mset (keyed (ps_e p))" by (simp add: keyed_def mset_filter)
  then have d: "distinct (keyed es)" using assms(2) mset_eq_imp_distinct_iff by blast
  have "keyed (take j es @ es ! j # drop (Suc j) es) = keyed (take j es) @ b # keyed (drop (Suc j) es)"
    using ij(6) by (simp only: keyed_simps) simp
  then have "keyed es = keyed (take j es) @ b # keyed (drop (Suc j) es)" using id_take_nth_drop [OF ij(2)] by simp
  moreover have "a \<in> set (keyed (take j es))"
  proof -
    have "es ! i \<in> set (take j es)" using ij(1,2) by (auto simp: in_set_conv_nth intro!: exI [of _ i])
    then show ?thesis using ij(5) by (force simp: keyed_def)
  qed
  ultimately have "a \<noteq> b" using d by auto
  then show ?thesis using le by (cases a; cases b) (auto simp: dup_in_order_def pos_key_def)
qed

section \<open>The marks of the keys\<close>

fun key_marks :: "ynode \<Rightarrow> mark list"
  and items_key_marks :: "ynode list \<Rightarrow> mark list"
  and pairs_key_marks :: "(ynode \<times> ynode) list \<Rightarrow> mark list" where
  "key_marks (YScalar m a t plain v) = []"
| "key_marks (YSeq m a t ns m') = items_key_marks ns"
| "key_marks (YMap m a t kvs m') = pairs_key_marks kvs"
| "items_key_marks [] = []"
| "items_key_marks (n # ns) = key_marks n @ items_key_marks ns"
| "pairs_key_marks [] = []"
| "pairs_key_marks ((k, v) # kvs) = node_mark k # key_marks v @ pairs_key_marks kvs"

lemma keyed_entries:
  shows "keyed (node_entries p kp n) = (case kp of None \<Rightarrow> [] | Some a \<Rightarrow> [a]) @ map to_pos (key_marks n)"
    and "keyed (items_entries p i ns) = map to_pos (items_key_marks ns)"
    and "keyed (pairs_entries p kvs) = map to_pos (pairs_key_marks kvs)"
  by (induction p kp n and p i ns and p kvs rule: node_entries_items_entries_pairs_entries.induct) simp_all

text \<open>What the YAML library says of its marks: they lie in the text, and no two keys start at the same place.\<close>

definition marks_in :: "nat \<Rightarrow> ynode \<Rightarrow> bool" where
  "marks_in len n \<longleftrightarrow> distinct (key_marks n) \<and> (\<forall>m \<in> set (key_marks n). mk_line m \<le> len \<and> mk_col m \<le> len)"

lemma key_places_distinct:
  assumes "marks_in len n" "len \<le> QWE_YAML_MAX_SIZE"
  shows "distinct (keyed (node_entries [] None n))"
proof -
  have "inj_on to_pos (set (key_marks n))"
  proof (rule inj_onI)
    fix m m' assume "m \<in> set (key_marks n)" "m' \<in> set (key_marks n)" "to_pos m = to_pos m'"
    moreover have "mk_line x < 2 ^ 32 - 1 \<and> mk_col x < 2 ^ 32 - 1" if "x \<in> set (key_marks n)" for x
      using assms that by (auto simp: marks_in_def QWE_YAML_MAX_SIZE_def)
    ultimately have "mk_line m < 2 ^ 32 - 1" "mk_col m < 2 ^ 32 - 1" "mk_line m' < 2 ^ 32 - 1" "mk_col m' < 2 ^ 32 - 1" "to_pos m = to_pos m'"
      by auto
    then have "mk_line m = mk_line m' \<and> mk_col m = mk_col m'" by (simp add: to_pos_def)
    then show "m = m'" by simp
  qed
  then show ?thesis using assms(1) by (simp add: keyed_entries marks_in_def distinct_map)
qed

section \<open>No check fails\<close>

lemma transcode_never_aborts:
  assumes "parses_to (fz_parse fz) n" "\<forall>i. ye_ok (fz_env fz) i" "monotone_bytes (fz_env fz)" "len \<le> QWE_YAML_MAX_SIZE"
    and "length (ye_bytes (fz_env fz) (node_toks (fz_env fz) n)) \<le> CBOR_MAX_SIZE div 2" "marks_in len n"
    and "node_error 0 n = None \<longrightarrow> fz_cursor fz (ye_bytes (fz_env fz) (flat (node_cbor (fz_env fz) n))) \<noteq> None"
  shows "transcode fz len \<noteq> None"
proof (cases "node_error 0 n")
  case (Some x)
  then show ?thesis using qwe_yaml_to_cbor_document [OF assms(1-5), of 256] by (cases x) (simp add: transcode_def)
next
  case None
  let ?b = "ye_bytes (fz_env fz) (node_toks (fz_env fz) n)"
  obtain ps where ps: "qwe_yaml_to_cbor (fz_env fz) (fz_parse fz) len 256 = Inr (?b, ps)" "ps_e ps = sort_key entry_key (node_entries [] None n)"
    using qwe_yaml_to_cbor_document [OF assms(1-5), of 256] None by auto
  have c: "check_cbor (fz_cursor fz) ?b" using assms(7) None by (simp add: check_cbor_def flat_node(1))
  have "qwe_positions_duplicates ps = qwe_positions_duplicates (qwe_positions_finish \<lparr>ps_e = node_entries [] None n, ps_cap = 0\<rparr>)"
    using ps(2) by (simp add: qwe_positions_duplicates_def qwe_positions_finish_def)
  then have "list_all (\<lambda>(_, first, second). dup_in_order first second) (qwe_positions_duplicates ps)"
    using duplicates_in_order [OF _ , of _ _ _ "\<lparr>ps_e = node_entries [] None n, ps_cap = 0\<rparr>"] key_places_distinct [OF assms(6,4)]
    by (auto simp: list_all_iff)
  then show ?thesis using ps(1) c by (simp add: transcode_def)
qed

text \<open>For a text that is a document, neither target aborts, the second one comes back, and it leaves the stack of its Lua state as
  it found it.\<close>

lemma fuzz_never_aborts:
  assumes "parses_to (fz_parse fz) n" "\<forall>i. ye_ok (fz_env fz) i" "monotone_bytes (fz_env fz)" "len \<le> QWE_YAML_MAX_SIZE"
    and "length (ye_bytes (fz_env fz) (node_toks (fz_env fz) n)) \<le> CBOR_MAX_SIZE div 2" "marks_in len n"
    and "node_error 0 n = None \<longrightarrow> fz_cursor fz (ye_bytes (fz_env fz) (flat (node_cbor (fz_env fz) n))) \<noteq> None"
    and "\<And>v. string_needs (fz_tbl fz v) \<and> distinct (map fst (fz_tbl fz v))"
  shows "qwe_fuzz_transcode fz len = FZ_RETURN"
    and "qwe_fuzz_chain fz True chain_L len = (FZ_RETURN, Some (case chain_L of None \<Rightarrow> [] | Some s \<Rightarrow> s))"
proof -
  note t = transcode_never_aborts [OF assms(1-7)]
  show "qwe_fuzz_transcode fz len = FZ_RETURN" using t by (simp add: qwe_fuzz_transcode_def)
  have v: "\<exists>r. qwe_validate_doc (fz_vl fz v) cmd path pos (fz_tbl fz v) = Some r" for v cmd path pos
    using validate_doc_decides [of "fz_vl fz v" path "fz_tbl fz v" cmd pos] assms(8) by fastforce
  show "qwe_fuzz_chain fz True chain_L len = (FZ_RETURN, Some (case chain_L of None \<Rightarrow> [] | Some s \<Rightarrow> s))"
  proof (cases "transcode fz len")
    case (Some bp)
    then show ?thesis
    proof (cases bp)
      case (Some x)
      obtain b pos where x: "x = (b, pos)" by (cases x)
      show ?thesis
      proof (cases "qwe_cbor_to_lua (fz_cursor fz) b")
        case (Inr lv)
        with v [of lv "''fuzz''" "''/nonexistent/qwe-fuzz/w.yaml''" pos] \<open>transcode fz len = Some bp\<close> Some x show ?thesis
          by (auto simp: qwe_fuzz_chain_def to_lua_stack_def Let_def split: option.splits)
      qed (use \<open>transcode fz len = Some bp\<close> Some x in \<open>simp add: qwe_fuzz_chain_def to_lua_stack_def Let_def\<close>)
    qed (simp add: qwe_fuzz_chain_def Let_def)
  qed (use t in simp)
qed

end
